(* ===== verification/Prelude.thy ===== *)
theory Prelude
  imports Main "HOL-Library.Word"
begin

text \<open>
  Shared vocabulary of the development: the C integer types of an LP64 kernel
  as words, the error numbers of sys/errno.h, the outcome of a kernel routine
  (it returns, panics or puts its caller to sleep), single-bit flag tests, and
  the generic lemmas on words and lists the component theories rely on.
\<close>

unbundle bit_operations_syntax

section \<open>Integer types\<close>

type_synonym u_long = "64 word"
type_synonym u_int = "32 word"
type_synonym u_short = "16 word"
type_synonym u_char = "8 word"

section \<open>Errors and outcomes\<close>

datatype errno =
    EPERM | ENOENT | ESRCH | EINTR | EIO | ENXIO | E2BIG | EBADF | EDEADLK | ENOMEM
  | EACCES | EFAULT | EBUSY | EEXIST | ENOTDIR | EISDIR | EINVAL | ENFILE | EMFILE
  | ENOTTY | EFBIG | ENOSPC | EROFS | ERANGE | EAGAIN | EIDRM | ENOLCK | ERESTART

text \<open>
  A kernel routine returns a value in a new state, panics, or calls
  \<open>tsleep\<close> in some state; then the last argument of \<open>Sleep\<close> holds the local
  variables that are live across the sleep. What happens after a sleep is a
  separate definition of the routine, because other processes run in between.
\<close>

datatype ('s, 'a, 'k) outcome =
    Return 's 'a
  | Panic string
  | Sleep 's 'k

section \<open>Flags\<close>

definition has_flag :: "'a::len word \<Rightarrow> 'a word \<Rightarrow> bool" where
  "has_flag w m \<longleftrightarrow> w AND m \<noteq> 0"

named_theorems flag_simps "flag tests after a flag was set or cleared"

lemma has_flag_0 [simp]: "\<not> has_flag 0 m"
  by (simp add: has_flag_def)

lemma has_flag_or [flag_simps]: "has_flag (w OR v) m \<longleftrightarrow> has_flag w m \<or> has_flag v m"
  by (auto simp: has_flag_def bit_eq_iff bit_simps)

lemma has_flag_and_not [flag_simps]:
  "v AND m = 0 \<Longrightarrow> has_flag (w AND NOT v) m \<longleftrightarrow> has_flag w m"
proof -
  assume disj: "v AND m = 0"
  have "(w AND NOT v) AND m = w AND m"
  proof (rule bit_word_eqI)
    fix n assume "n < LENGTH('a)"
    from disj have "\<not> (bit v n \<and> bit m n)"
      by (metis bit_0_eq bit_and_iff bot_apply bot_bool_def)
    then show "bit ((w AND NOT v) AND m) n = bit (w AND m) n"
      using \<open>n < LENGTH('a)\<close> by (auto simp: bit_simps)
  qed
  then show ?thesis by (simp add: has_flag_def)
qed

lemma has_flag_cleared [simp]: "\<not> has_flag (w AND NOT m) m"
  by (simp add: has_flag_def bit_eq_iff bit_simps)

section \<open>Words\<close>

text \<open>Overflow facts for additions whose operands are known in \<open>nat\<close>.\<close>

lemma unat_add_no_overflow:
  fixes a b :: "'a::len word"
  shows "unat a + unat b < 2 ^ LENGTH('a) \<Longrightarrow> unat (a + b) = unat a + unat b"
  by (simp add: unat_word_ariths)

lemma unat_succ_less:
  fixes a b :: "'a::len word"
  shows "a < b \<Longrightarrow> unat (a + 1) = Suc (unat a)"
  by unat_arith

lemma unat_pred_less:
  fixes a b :: "'a::len word"
  shows "a < b \<Longrightarrow> unat (b - 1) = unat b - 1"
  by unat_arith

lemma succ_eq_iff_unat:
  fixes a b :: "'a::len word"
  shows "a < b \<Longrightarrow> a + 1 = b \<longleftrightarrow> Suc (unat a) = unat b"
  by (metis unat_succ_less word_unat_eq_iff)

lemmas word_order_unat = word_less_nat_alt word_le_nat_alt

lemma one_le_word_iff: "1 \<le> (w :: 'a::len word) \<longleftrightarrow> w \<noteq> 0"
  using not_le [of 1 w] by auto

lemma unat_add_no_wrap:
  fixes a b :: "'a::len word"
  shows "a \<le> a + b \<Longrightarrow> unat (a + b) = unat a + unat b"
  by unat_arith

lemma unat_exp_u_long: "j < 64 \<Longrightarrow> unat (2 ^ j :: u_long) = 2 ^ j"
  by (simp add: unat_eq_nat_uint uint_2p word_gt_0 exp_eq_zero_iff nat_power_eq)

lemma unat_u_long_less: "unat (a :: u_long) < 2 ^ 64"
  using unsigned_less [of a] by simp

section \<open>Lists\<close>

text \<open>The element after index \<open>i\<close>, as \<open>LIST_NEXT\<close> gives it.\<close>

definition list_next :: "'a list \<Rightarrow> nat \<Rightarrow> 'a option" where
  "list_next xs i = (if Suc i < length xs then Some (xs ! Suc i) else None)"

text \<open>\<open>LIST_INSERT_AFTER\<close> and \<open>LIST_REMOVE\<close> by position.\<close>

definition list_insert_after :: "'a list \<Rightarrow> nat \<Rightarrow> 'a \<Rightarrow> 'a list" where
  "list_insert_after xs i x = take (Suc i) xs @ x # drop (Suc i) xs"

definition list_remove_at :: "'a list \<Rightarrow> nat \<Rightarrow> 'a list" where
  "list_remove_at xs i = take i xs @ drop (Suc i) xs"

lemma length_list_insert_after [simp]:
  "length (list_insert_after xs i x) = Suc (length xs)"
  by (simp add: list_insert_after_def)

lemma length_list_remove_at [simp]:
  "i < length xs \<Longrightarrow> length (list_remove_at xs i) = length xs - 1"
  by (simp add: list_remove_at_def)

lemma set_list_insert_after [simp]:
  "set (list_insert_after xs i x) = insert x (set xs)"
proof -
  have "set xs = set (take (Suc i) xs) \<union> set (drop (Suc i) xs)"
    by (metis append_take_drop_id set_append)
  then show ?thesis by (simp add: list_insert_after_def)
qed

lemma split_at_nth:
  assumes "i < length xs"
  obtains us vs where "xs = us @ xs ! i # vs" and "length us = i"
  using assms id_take_nth_drop [of i xs] by (metis length_take less_imp_le min.absorb2)

end
