(* ===== verification/Extent.thy ===== *)
theory Extent
  imports Prelude
begin

text \<open>
  The extent manager of kern/subr_extent.c: an ordered list of allocated
  regions of a range of addresses, from which regions are allocated and to
  which they are freed. This theory holds the data model and the operations;
  Extent_Set has the invariant and the abstraction to a set of addresses,
  Extent_Region and Extent_Subregion the proofs about the two allocators.

  \<^item> The argument \<open>diag\<close> says whether the kernel is built with the option
    DIAGNOSTIC; both branches of every \<open>#ifdef\<close> are modelled.
  \<^item> \<open>pg w\<close> is what \<open>pool_get\<close> answers (w: called with PR_WAITOK): None when
    there is no memory, otherwise a descriptor with arbitrary contents.
  \<^item> A position in the region list stands for a pointer to its element.
  \<^item> \<open>ex_wakeups\<close> logs the calls of \<open>wakeup\<close>, \<open>ex_pool_put\<close> counts the
    calls of \<open>pool_put\<close>.
\<close>

section \<open>Data (sys/extent.h)\<close>

record extent_region =
  er_start :: u_long
  er_end :: u_long
  er_flags :: u_int

definition ER_ALLOC :: u_int where "ER_ALLOC = 0x01"

datatype wchan = Wchan_extent | Wchan_freelist

record extent =
  ex_name :: string
  ex_regions :: "extent_region list"
  ex_start :: u_long
  ex_end :: u_long
  ex_mtype :: int
  ex_flags :: u_int
  fex_freelist :: "extent_region list"
  fex_storagesize :: u_long
  ex_wakeups :: "wchan list"
  ex_pool_put :: nat

definition EXF_FIXED :: u_int where "EXF_FIXED = 0x01"
definition EXF_NOCOALESCE :: u_int where "EXF_NOCOALESCE = 0x02"
definition EXF_WANTED :: u_int where "EXF_WANTED = 0x04"
definition EXF_FLWANTED :: u_int where "EXF_FLWANTED = 0x08"

definition EX_WAITOK :: u_int where "EX_WAITOK = 0x0001"
definition EX_FAST :: u_int where "EX_FAST = 0x0002"
definition EX_CATCH :: u_int where "EX_CATCH = 0x0004"
definition EX_NOCOALESCE :: u_int where "EX_NOCOALESCE = 0x0008"
definition EX_MALLOCOK :: u_int where "EX_MALLOCOK = 0x0010"
definition EX_WAITSPACE :: u_int where "EX_WAITSPACE = 0x0020"
definition EX_BOUNDZERO :: u_int where "EX_BOUNDZERO = 0x0040"
definition EX_CONFLICTOK :: u_int where "EX_CONFLICTOK = 0x0080"
definition EX_FILLED :: u_int where "EX_FILLED = 0x0100"

lemmas extent_flag_defs =
  EXF_FIXED_def EXF_NOCOALESCE_def EXF_WANTED_def EXF_FLWANTED_def ER_ALLOC_def
  EX_WAITOK_def EX_FAST_def EX_CATCH_def EX_NOCOALESCE_def EX_MALLOCOK_def
  EX_WAITSPACE_def EX_BOUNDZERO_def EX_CONFLICTOK_def EX_FILLED_def

lemma extent_flags_apart [simp]:
  "has_flag (w AND NOT EXF_FLWANTED) EXF_NOCOALESCE = has_flag w EXF_NOCOALESCE"
  "has_flag (w AND NOT EXF_FLWANTED) EXF_WANTED = has_flag w EXF_WANTED"
  "has_flag (w AND NOT EXF_FLWANTED) EXF_FIXED = has_flag w EXF_FIXED"
  "has_flag (w AND NOT EXF_WANTED) EXF_NOCOALESCE = has_flag w EXF_NOCOALESCE"
  "has_flag (w AND NOT EXF_WANTED) EXF_FIXED = has_flag w EXF_FIXED"
  by (rule has_flag_and_not, simp add: extent_flag_defs)+

lemma extent_flags_set [simp]:
  "has_flag (w OR EXF_WANTED) EXF_NOCOALESCE = has_flag w EXF_NOCOALESCE"
  "has_flag (w OR EXF_FLWANTED) EXF_NOCOALESCE = has_flag w EXF_NOCOALESCE"
  "has_flag (w OR EXF_WANTED) EXF_WANTED"
  "has_flag (w OR EXF_FLWANTED) EXF_WANTED = has_flag w EXF_WANTED"
  by (simp_all add: has_flag_or, simp_all add: has_flag_def extent_flag_defs)

type_synonym pool_get = "bool \<Rightarrow> extent_region option"

section \<open>Alignment\<close>

definition extent_align :: "u_long \<Rightarrow> u_long \<Rightarrow> u_long \<Rightarrow> u_long" where
  "extent_align start align skew = (((start - skew) + (align - 1)) AND (- align)) + skew"

definition LE_OV :: "u_long \<Rightarrow> u_long \<Rightarrow> u_long \<Rightarrow> bool" where
  "LE_OV x y z \<longleftrightarrow> x + y \<ge> x \<and> x + y \<le> z"

section \<open>Region descriptors\<close>

datatype descr_outcome =
    Descr extent extent_region
  | No_descr extent
  | Descr_sleep extent

definition pool_descr :: "pool_get \<Rightarrow> extent \<Rightarrow> u_int \<Rightarrow> descr_outcome" where
  "pool_descr pg ex flags =
     (case pg (has_flag flags EX_WAITOK) of
        None \<Rightarrow> No_descr ex
      | Some rp \<Rightarrow> Descr ex (rp\<lparr>er_flags := ER_ALLOC\<rparr>))"

text \<open>
  One pass of the \<open>while (LIST_EMPTY(...))\<close> loop: \<open>Descr_sleep\<close> is the call of
  \<open>tsleep\<close>. When \<open>tsleep\<close> fails the C function returns NULL, otherwise it
  evaluates the loop condition again, which is this function once more.
\<close>

definition extent_alloc_region_descriptor ::
  "pool_get \<Rightarrow> extent \<Rightarrow> u_int \<Rightarrow> descr_outcome" where
  "extent_alloc_region_descriptor pg ex flags =
     (if has_flag (ex_flags ex) EXF_FIXED then
        (case fex_freelist ex of
           [] \<Rightarrow> if has_flag flags EX_MALLOCOK then pool_descr pg ex flags
                 else if \<not> has_flag flags EX_WAITOK then No_descr ex
                 else Descr_sleep (ex\<lparr>ex_flags := ex_flags ex OR EXF_FLWANTED\<rparr>)
         | rp # fl \<Rightarrow> Descr (ex\<lparr>fex_freelist := fl\<rparr>) rp)
      else pool_descr pg ex flags)"

definition extent_wake_freelist :: "extent \<Rightarrow> extent" where
  "extent_wake_freelist ex =
     ex\<lparr>ex_flags := ex_flags ex AND NOT EXF_FLWANTED,
        ex_wakeups := ex_wakeups ex @ [Wchan_freelist]\<rparr>"

definition extent_free_region_descriptor :: "extent \<Rightarrow> extent_region \<Rightarrow> extent" where
  "extent_free_region_descriptor ex rp =
     (if has_flag (ex_flags ex) EXF_FIXED then
        (if has_flag (er_flags rp) ER_ALLOC then
           (if has_flag (ex_flags ex) EXF_FLWANTED then
              extent_wake_freelist
                (ex\<lparr>fex_freelist := rp\<lparr>er_flags := ER_ALLOC\<rparr> # fex_freelist ex\<rparr>)
            else ex\<lparr>ex_pool_put := Suc (ex_pool_put ex)\<rparr>)
         else
           (let ex' = ex\<lparr>fex_freelist := rp\<lparr>er_flags := 0\<rparr> # fex_freelist ex\<rparr> in
            if has_flag (ex_flags ex) EXF_FLWANTED then extent_wake_freelist ex' else ex'))
      else ex\<lparr>ex_pool_put := Suc (ex_pool_put ex)\<rparr>)"

section \<open>Creating and destroying an extent\<close>

text \<open>
  Sizes of an LP64 kernel: \<open>sizeof(struct extent_fixed)\<close> is 80 and
  \<open>sizeof(struct extent_region)\<close> is 40, both multiples of \<open>sizeof(long)\<close>.
\<close>

definition ALIGN :: "u_long \<Rightarrow> u_long" where "ALIGN p = (p + 7) AND NOT 7"
definition sizeof_extent_fixed :: u_long where "sizeof_extent_fixed = 80"
definition sizeof_extent_region :: u_long where "sizeof_extent_region = 40"

lemma ALIGN_sizes [simp]:
  "ALIGN sizeof_extent_fixed = 80" "ALIGN sizeof_extent_region = 40"
  by (simp_all add: ALIGN_def sizeof_extent_fixed_def sizeof_extent_region_def)

text \<open>The storage was zeroed by \<open>bzero\<close> before it is carved up.\<close>

function fex_prealloc :: "u_long \<Rightarrow> extent_region list \<Rightarrow> extent_region list" where
  "fex_prealloc sz fl =
     (if sz \<ge> ALIGN sizeof_extent_region
      then fex_prealloc (sz - ALIGN sizeof_extent_region)
             (\<lparr>er_start = 0, er_end = 0, er_flags = 0\<rparr> # fl)
      else fl)"
  by pat_completeness auto
termination
  by (relation "measure (\<lambda>(sz, fl). unat sz)")
    (auto simp: word_le_nat_alt unat_sub)

declare fex_prealloc.simps [simp del]

text \<open>
  \<open>storage\<close> is the size of the caller's static storage, None for a NULL
  pointer; \<open>malloc_ok\<close> says whether \<open>malloc\<close> finds memory for the descriptor.
  The returned extent is None for NULL. With EX_FILLED a fixed extent may
  sleep for a descriptor.
\<close>

definition extent_create ::
  "bool \<Rightarrow> pool_get \<Rightarrow> bool \<Rightarrow> string option \<Rightarrow> u_long \<Rightarrow> u_long \<Rightarrow> int \<Rightarrow>
   bool \<Rightarrow> u_long \<Rightarrow> u_int \<Rightarrow> (extent, extent option, unit) outcome" where
  "extent_create diag pg malloc_ok name start endp mtype fixed_extent storagesize flags =
     (if diag \<and> name = None then Panic ''name == NULL''
      else if diag \<and> endp < start then Panic ''end < start''
      else if diag \<and> fixed_extent \<and> storagesize < sizeof_extent_fixed
        then Panic ''fixed extent, bad storagesize''
      else if diag \<and> \<not> fixed_extent \<and> storagesize \<noteq> 0
        then Panic ''storage provided for non-fixed''
      else
        let ex = \<lparr>ex_name = (case name of None \<Rightarrow> '''' | Some n \<Rightarrow> n), ex_regions = [],
                  ex_start = start, ex_end = endp, ex_mtype = mtype,
                  ex_flags = (if fixed_extent then EXF_FIXED else 0)
                          OR (if has_flag flags EX_NOCOALESCE then EXF_NOCOALESCE else 0),
                  fex_freelist = (if fixed_extent
                     then fex_prealloc (storagesize - ALIGN sizeof_extent_fixed) [] else []),
                  fex_storagesize = (if fixed_extent then storagesize else 0),
                  ex_wakeups = [], ex_pool_put = 0\<rparr>
        in if \<not> fixed_extent \<and> \<not> malloc_ok then Return ex None
           else if has_flag flags EX_FILLED then
             (case extent_alloc_region_descriptor pg ex flags of
                No_descr ex1 \<Rightarrow> Return ex1 None
              | Descr_sleep ex1 \<Rightarrow> Sleep ex1 ()
              | Descr ex1 rp \<Rightarrow>
                  let ex2 = ex1\<lparr>ex_regions :=
                    rp\<lparr>er_start := start, er_end := endp\<rparr> # ex_regions ex1\<rparr>
                  in Return ex2 (Some ex2))
           else Return ex (Some ex))"

definition extent_destroy :: "extent \<Rightarrow> extent" where
  "extent_destroy ex =
     fold (\<lambda>rp e. extent_free_region_descriptor (e\<lparr>ex_regions := tl (ex_regions e)\<rparr>) rp)
       (ex_regions ex) ex"

section \<open>Inserting a region\<close>

text \<open>
  \<open>after\<close> is None at the head of the list. The region list is updated in
  place at the position \<open>after\<close> and the one following it.
\<close>

definition extent_insert_and_optimize ::
  "extent \<Rightarrow> u_long \<Rightarrow> u_long \<Rightarrow> nat option \<Rightarrow> extent_region \<Rightarrow> extent" where
  "extent_insert_and_optimize ex start sz after rp =
     (let rs = ex_regions ex;
          new = rp\<lparr>er_start := start, er_end := start + (sz - 1)\<rparr>;
          nocoalesce = has_flag (ex_flags ex) EXF_NOCOALESCE in
      case after of
        None \<Rightarrow>
          if \<not> nocoalesce \<and> rs \<noteq> [] \<and> start + sz = er_start (hd rs)
          then extent_free_region_descriptor
                 (ex\<lparr>ex_regions := (hd rs)\<lparr>er_start := start\<rparr> # tl rs\<rparr>) rp
          else ex\<lparr>ex_regions := new # rs\<rparr>
      | Some i \<Rightarrow>
          if nocoalesce then ex\<lparr>ex_regions := list_insert_after rs i new\<rparr>
          else
            let appended = (er_end (rs ! i) + 1 = start);
                rs1 = (if appended then rs[i := (rs ! i)\<lparr>er_end := start + (sz - 1)\<rparr>] else rs)
            in case list_next rs1 i of
                 Some nextr \<Rightarrow>
                   if start + sz = er_start nextr then
                     (if appended then
                        extent_free_region_descriptor
                          (extent_free_region_descriptor
                             (ex\<lparr>ex_regions :=
                                list_remove_at (rs1[i := (rs1 ! i)\<lparr>er_end := er_end nextr\<rparr>])
                                  (Suc i)\<rparr>) nextr) rp
                      else extent_free_region_descriptor
                             (ex\<lparr>ex_regions := rs1[Suc i := nextr\<lparr>er_start := start\<rparr>]\<rparr>) rp)
                   else if appended then
                     extent_free_region_descriptor (ex\<lparr>ex_regions := rs1\<rparr>) rp
                   else ex\<lparr>ex_regions := list_insert_after rs1 i new\<rparr>
               | None \<Rightarrow>
                   if appended then
                     extent_free_region_descriptor (ex\<lparr>ex_regions := rs1\<rparr>) rp
                   else ex\<lparr>ex_regions := list_insert_after rs1 i new\<rparr>)"

section \<open>Allocating a given region\<close>

text \<open>
  The outcome of the allocators. A sleeper holds its region descriptor when
  it waits for space and none when it waits for a descriptor.
\<close>

type_synonym 'a ex_outcome = "(extent, errno + 'a, extent_region option) outcome"

text \<open>
  The \<open>LIST_FOREACH\<close> of \<open>extent_alloc_region\<close>: \<open>Inr i\<close> when region \<open>i\<close> conflicts
  with \<open>[start, endp]\<close>, otherwise \<open>Inl lst\<close>.
\<close>

fun find_conflict ::
  "extent_region list \<Rightarrow> u_long \<Rightarrow> u_long \<Rightarrow> nat \<Rightarrow> nat option \<Rightarrow> nat option + nat" where
  "find_conflict [] start endp i lst = Inl lst"
| "find_conflict (rp # rs) start endp i lst =
     (if er_start rp > endp then Inl lst
      else if er_end rp \<ge> start then Inr i
      else find_conflict rs start endp (Suc i) (Some i))"

lemma find_conflict_Inr:
  "find_conflict rs start endp i lst = Inr j \<Longrightarrow>
   i \<le> j \<and> j < i + length rs \<and> er_start (rs ! (j - i)) \<le> endp \<and> start \<le> er_end (rs ! (j - i))"
proof (induction rs start endp i lst rule: find_conflict.induct)
  case (2 rp rs start endp i lst)
  then show ?case
    by (cases "er_start rp > endp \<or> er_end rp \<ge> start")
      (force split: if_splits, force simp: Suc_diff_Suc not_less not_le split: if_splits)
qed simp

lemma ex_regions_free_descriptor [simp]:
  "ex_regions (extent_free_region_descriptor ex rp) = ex_regions ex"
  "ex_start (extent_free_region_descriptor ex rp) = ex_start ex"
  "ex_end (extent_free_region_descriptor ex rp) = ex_end ex"
  by (simp_all add: extent_free_region_descriptor_def extent_wake_freelist_def Let_def)

text \<open>From the label \<open>alloc_start\<close>; each recursive call is a \<open>goto alloc_start\<close>.\<close>

function extent_alloc_region_start ::
  "extent \<Rightarrow> u_long \<Rightarrow> u_long \<Rightarrow> u_long \<Rightarrow> u_int \<Rightarrow> extent_region \<Rightarrow> unit ex_outcome" where
  "extent_alloc_region_start ex start sz endp flags myrp =
     (case find_conflict (ex_regions ex) start endp 0 None of
        Inl lst \<Rightarrow> Return (extent_insert_and_optimize ex start sz lst myrp) (Inr ())
      | Inr i \<Rightarrow>
          (let rp = ex_regions ex ! i in
           if has_flag flags EX_WAITSPACE then
             Sleep (ex\<lparr>ex_flags := ex_flags ex OR EXF_WANTED\<rparr>) (Some myrp)
           else if has_flag flags EX_CONFLICTOK then
             (if er_start rp \<le> start then
                (if er_end rp < ex_end ex then
                   extent_alloc_region_start ex (er_end rp + 1) (endp - (er_end rp + 1) + 1)
                     endp flags myrp
                 else Return ex (Inr ()))
              else if er_end rp < endp then
                extent_alloc_region_start
                  (extent_free_region_descriptor
                    (ex\<lparr>ex_regions := list_remove_at (ex_regions ex) i\<rparr>) rp)
                  start sz endp flags myrp
              else if er_start rp < endp then
                (if er_start rp > ex_start ex then
                   extent_alloc_region_start ex start (er_start rp - 1 - start + 1)
                     (er_start rp - 1) flags myrp
                 else Return ex (Inr ()))
              else Return ex (Inr ()))
           else Return (extent_free_region_descriptor ex myrp) (Inl EAGAIN)))"
  by pat_completeness auto

termination extent_alloc_region_start
proof (relation "measure (\<lambda>(ex, start, sz, endp, flags, myrp).
    length (ex_regions ex) + (2 ^ 64 - unat start) + unat endp)")
  fix ex :: extent and start sz endp :: u_long and flags :: u_int
    and myrp rp :: extent_region and i :: nat
  assume f: "find_conflict (ex_regions ex) start endp 0 None = Inr i"
    and rp: "rp = ex_regions ex ! i"
  from find_conflict_Inr [OF f] rp
  have i: "i < length (ex_regions ex)" and c: "start \<le> er_end rp" by simp_all
  {
    assume "er_end rp < ex_end ex"
    with c show "((ex, er_end rp + 1, endp - (er_end rp + 1) + 1, endp, flags, myrp),
        (ex, start, sz, endp, flags, myrp)) \<in> measure (\<lambda>(ex, start, sz, endp, flags, myrp).
        length (ex_regions ex) + (2 ^ 64 - unat start) + unat endp)"
      using unat_u_long_less [of start] by (simp add: unat_succ_less word_le_nat_alt)
  next
    from i show "((extent_free_region_descriptor
          (ex\<lparr>ex_regions := list_remove_at (ex_regions ex) i\<rparr>) rp, start, sz, endp, flags, myrp),
        (ex, start, sz, endp, flags, myrp)) \<in> measure (\<lambda>(ex, start, sz, endp, flags, myrp).
        length (ex_regions ex) + (2 ^ 64 - unat start) + unat endp)"
      by simp
  next
    assume "er_start rp < endp" and "ex_start ex < er_start rp"
    then show "((ex, start, er_start rp - 1 - start + 1, er_start rp - 1, flags, myrp),
        (ex, start, sz, endp, flags, myrp)) \<in> measure (\<lambda>(ex, start, sz, endp, flags, myrp).
        length (ex_regions ex) + (2 ^ 64 - unat start) + unat endp)"
      by (simp add: unat_pred_less) (simp add: word_less_nat_alt)
  }
qed simp

declare extent_alloc_region_start.simps [simp del]

text \<open>The allocation of the descriptor and what follows; also what a sleeper does when it wakes.\<close>

definition extent_alloc_region_descr ::
  "pool_get \<Rightarrow> extent \<Rightarrow> u_long \<Rightarrow> u_long \<Rightarrow> u_long \<Rightarrow> u_int \<Rightarrow> unit ex_outcome" where
  "extent_alloc_region_descr pg ex start sz endp flags =
     (case extent_alloc_region_descriptor pg ex flags of
        No_descr ex1 \<Rightarrow> Return ex1 (Inl ENOMEM)
      | Descr_sleep ex1 \<Rightarrow> Sleep ex1 None
      | Descr ex1 myrp \<Rightarrow> extent_alloc_region_start ex1 start sz endp flags myrp)"

definition extent_alloc_region ::
  "bool \<Rightarrow> pool_get \<Rightarrow> extent \<Rightarrow> u_long \<Rightarrow> u_long \<Rightarrow> u_int \<Rightarrow> unit ex_outcome" where
  "extent_alloc_region diag pg ex start sz flags =
     (let endp = start + (sz - 1) in
      if diag \<and> sz < 1 then Panic ''bad size''
      else if diag \<and> endp < start then Panic ''overflow''
      else if diag \<and> has_flag flags EX_CONFLICTOK \<and> has_flag flags EX_WAITSPACE
        then Panic ''EX_CONFLICTOK and EX_WAITSPACE are mutually exclusive''
      else if start < ex_start ex \<or> endp > ex_end ex
        then (if diag then Panic ''region lies outside extent'' else Return ex (Inl EINVAL))
      else extent_alloc_region_descr pg ex start sz endp flags)"

text \<open>After a sleep: \<open>tsleep\<close> returned the error \<open>err\<close>, or None for 0.\<close>

definition extent_alloc_region_wakeup ::
  "pool_get \<Rightarrow> extent \<Rightarrow> u_long \<Rightarrow> u_long \<Rightarrow> u_int \<Rightarrow> extent_region option \<Rightarrow> errno option
   \<Rightarrow> unit ex_outcome" where
  "extent_alloc_region_wakeup pg ex start sz flags descr err =
     (case descr of
        None \<Rightarrow>
          (if err \<noteq> None then Return ex (Inl ENOMEM)
           else extent_alloc_region_descr pg ex start sz (start + (sz - 1)) flags)
      | Some myrp \<Rightarrow>
          (case err of
             Some e \<Rightarrow> Return ex (Inl e)
           | None \<Rightarrow> extent_alloc_region_start ex start sz (start + (sz - 1)) flags myrp))"

section \<open>Allocating a region of a given size\<close>

text \<open>
  The best candidate so far: \<open>bestovh\<close>, \<open>beststart\<close> and \<open>bestlast\<close>.
  \<open>bestovh = 0\<close> means there is none.
\<close>

type_synonym best = "u_long \<times> u_long \<times> nat option"

definition no_best :: best where "no_best = (0, 0, None)"

definition better :: "best \<Rightarrow> u_long \<Rightarrow> u_long \<Rightarrow> nat option \<Rightarrow> best" where
  "better b ovh newstart lst =
     (let bestovh = fst b in
      if bestovh = 0 \<or> ovh < bestovh then (ovh, newstart, lst) else b)"

text \<open>
  The boundary check of a candidate, the same code for a chunk before a
  region and for the last chunk. \<open>fits\<close> is the test the candidate passed
  and has to pass again when its leading part is thrown away; \<open>Bnd_skip\<close>
  says that it does not.
\<close>

datatype bnd = Bnd_ok u_long | Bnd_skip | Bnd_fail

definition boundary_room :: "extent \<Rightarrow> u_long \<Rightarrow> u_long \<Rightarrow> u_long \<Rightarrow> bnd" where
  "boundary_room ex sz newstart dontcross =
     (if newstart + sz - 1 > ex_end ex \<or> dontcross < newstart then Bnd_fail
      else Bnd_ok newstart)"

definition boundary_check ::
  "extent \<Rightarrow> u_long \<Rightarrow> u_long \<Rightarrow> u_int \<Rightarrow> (u_long \<Rightarrow> bool) \<Rightarrow> u_long \<Rightarrow> bnd" where
  "boundary_check ex sz boundary flags fits newstart =
     (if boundary = 0 then Bnd_ok newstart
      else
        let newend = newstart + (sz - 1);
            dontcross = extent_align (newstart + 1) boundary
                          (if has_flag flags EX_BOUNDZERO then 0 else ex_start ex) - 1
        in if dontcross < ex_start ex then boundary_room ex sz newstart (ex_end ex)
           else if newend > dontcross then
             (if \<not> fits (dontcross + 1) then Bnd_skip
              else boundary_room ex sz (dontcross + 1) (dontcross + boundary))
           else boundary_room ex sz newstart dontcross)"

text \<open>
  The examination of one free chunk: take it, give up, or go on with the
  best candidate updated. \<open>ovh\<close> computes the space a placement wastes.
\<close>

datatype chunk = Chunk_found u_long | Chunk_fail | Chunk_next best

definition try_chunk ::
  "extent \<Rightarrow> u_long \<Rightarrow> u_long \<Rightarrow> u_int \<Rightarrow> (u_long \<Rightarrow> bool) \<Rightarrow> (u_long \<Rightarrow> u_long) \<Rightarrow>
   u_long \<Rightarrow> nat option \<Rightarrow> best \<Rightarrow> chunk" where
  "try_chunk ex sz boundary flags fits ovh newstart lst b =
     (if fits newstart then
        (case boundary_check ex sz boundary flags fits newstart of
           Bnd_skip \<Rightarrow> Chunk_next b
         | Bnd_fail \<Rightarrow> Chunk_fail
         | Bnd_ok ns \<Rightarrow>
             if has_flag flags EX_FAST \<or> ovh ns = 0 then Chunk_found ns
             else Chunk_next (better b (ovh ns) ns lst))
      else Chunk_next b)"

text \<open>
  The second \<open>for\<close> loop of \<open>extent_alloc_subregion\<close>, over the regions from
  position \<open>i\<close> on. It ends with \<open>goto found\<close>, \<open>goto fail\<close> or by running
  out, with \<open>exend\<close> as the last argument.
\<close>

datatype sub_res =
    Sub_found u_long "nat option"
  | Sub_fail best
  | Sub_end u_long "nat option" best u_long

fun sub_loop ::
  "extent \<Rightarrow> u_long \<Rightarrow> u_long \<Rightarrow> u_long \<Rightarrow> u_long \<Rightarrow> u_long \<Rightarrow> u_int \<Rightarrow>
   extent_region list \<Rightarrow> nat \<Rightarrow> u_long \<Rightarrow> nat option \<Rightarrow> best \<Rightarrow> sub_res" where
  "sub_loop ex subend sz alignment skew boundary flags [] i newstart lst b =
     Sub_end newstart lst b (ex_end ex)"
| "sub_loop ex subend sz alignment skew boundary flags (rp # rs) i newstart lst b =
     (if er_start rp > subend then Sub_end newstart lst b (er_start rp)
      else
        case try_chunk ex sz boundary flags (\<lambda>ns. LE_OV ns sz (er_start rp))
               (\<lambda>ns. er_start rp - ns - sz) newstart lst b of
          Chunk_found ns \<Rightarrow> Sub_found ns lst
        | Chunk_fail \<Rightarrow> Sub_fail b
        | Chunk_next b' \<Rightarrow>
            let ns = extent_align (er_end rp + 1) alignment skew in
            if ns < er_end rp then Sub_fail b'
            else sub_loop ex subend sz alignment skew boundary flags rs (Suc i) ns (Some i) b')"

text \<open>
  The final check, up to the labels \<open>fail\<close> (\<open>Inl\<close> with the best candidate) and
  \<open>found\<close> (\<open>Inr\<close> with \<open>newstart\<close> and \<open>last\<close>).
\<close>

definition sub_final ::
  "extent \<Rightarrow> u_long \<Rightarrow> u_long \<Rightarrow> u_long \<Rightarrow> u_int \<Rightarrow> sub_res \<Rightarrow> best + (u_long \<times> nat option)" where
  "sub_final ex subend sz boundary flags r =
     (case r of
        Sub_found ns lst \<Rightarrow> Inr (ns, lst)
      | Sub_fail b \<Rightarrow> Inl b
      | Sub_end newstart lst b exend \<Rightarrow>
          (case try_chunk ex sz boundary flags (\<lambda>ns. LE_OV ns (sz - 1) subend)
                  (\<lambda>ns. exend - ns - (sz - 1)) newstart lst b of
             Chunk_found ns \<Rightarrow> Inr (ns, lst)
           | Chunk_fail \<Rightarrow> Inl b
           | Chunk_next b' \<Rightarrow> Inl b'))"

text \<open>The search from \<open>alloc_start\<close> to \<open>fail\<close> or \<open>found\<close>, once \<open>newstart\<close> is in range.\<close>

definition sub_search ::
  "extent \<Rightarrow> u_long \<Rightarrow> u_long \<Rightarrow> u_long \<Rightarrow> u_long \<Rightarrow> u_long \<Rightarrow> u_int \<Rightarrow> u_long \<Rightarrow>
   best + (u_long \<times> nat option)" where
  "sub_search ex subend sz alignment skew boundary flags newstart =
     (let rs = ex_regions ex;
          n = length (takeWhile (\<lambda>rp. er_start rp < newstart) rs);
          lst = (if n = 0 then None else Some (n - 1));
          ns = (if n \<noteq> 0 \<and> er_end (rs ! (n - 1)) \<ge> newstart
                then extent_align (er_end (rs ! (n - 1)) + 1) alignment skew
                else newstart)
      in sub_final ex subend sz boundary flags
           (sub_loop ex subend sz alignment skew boundary flags (drop n rs) n ns lst no_best))"

definition extent_alloc_subregion_start ::
  "bool \<Rightarrow> extent \<Rightarrow> u_long \<Rightarrow> u_long \<Rightarrow> u_long \<Rightarrow> u_long \<Rightarrow> u_long \<Rightarrow> u_long \<Rightarrow> u_int \<Rightarrow>
   extent_region \<Rightarrow> u_long ex_outcome" where
  "extent_alloc_subregion_start diag ex substart subend sz alignment skew boundary flags myrp =
     (let newstart = extent_align substart alignment skew;
          found = (\<lambda>ns lst. Return (extent_insert_and_optimize ex ns sz lst myrp) (Inr ns)) in
      if newstart < ex_start ex then
        (if diag then Panic ''overflow after alignment''
         else Return (extent_free_region_descriptor ex myrp) (Inl EINVAL))
      else
        case sub_search ex subend sz alignment skew boundary flags newstart of
          Inr (ns, lst) \<Rightarrow> found ns lst
        | Inl (bestovh, beststart, bestlast) \<Rightarrow>
            (if \<not> has_flag flags EX_FAST \<and> bestovh \<noteq> 0 then found beststart bestlast
               else if has_flag flags EX_WAITSPACE then
                 Sleep (ex\<lparr>ex_flags := ex_flags ex OR EXF_WANTED\<rparr>) (Some myrp)
               else Return (extent_free_region_descriptor ex myrp) (Inl EAGAIN)))"

definition extent_alloc_subregion_descr ::
  "bool \<Rightarrow> pool_get \<Rightarrow> extent \<Rightarrow> u_long \<Rightarrow> u_long \<Rightarrow> u_long \<Rightarrow> u_long \<Rightarrow> u_long \<Rightarrow> u_long \<Rightarrow>
   u_int \<Rightarrow> u_long ex_outcome" where
  "extent_alloc_subregion_descr diag pg ex substart subend sz alignment skew boundary flags =
     (case extent_alloc_region_descriptor pg ex flags of
        No_descr ex1 \<Rightarrow> Return ex1 (Inl ENOMEM)
      | Descr_sleep ex1 \<Rightarrow> Sleep ex1 None
      | Descr ex1 myrp \<Rightarrow>
          extent_alloc_subregion_start diag ex1 substart subend sz alignment skew boundary flags
            myrp)"

definition extent_alloc_subregion ::
  "bool \<Rightarrow> pool_get \<Rightarrow> extent \<Rightarrow> u_long \<Rightarrow> u_long \<Rightarrow> u_long \<Rightarrow> u_long \<Rightarrow> u_long \<Rightarrow> u_long \<Rightarrow>
   u_int \<Rightarrow> u_long ex_outcome" where
  "extent_alloc_subregion diag pg ex substart subend sz alignment skew boundary flags =
     (if diag \<and> (substart < ex_start ex \<or> substart > ex_end ex \<or>
                 subend > ex_end ex \<or> subend < ex_start ex) then Panic ''bad subregion''
      else if diag \<and> (sz < 1 \<or> sz - 1 > subend - substart) then Panic ''bad size''
      else if diag \<and> alignment = 0 then Panic ''bad alignment''
      else if diag \<and> boundary \<noteq> 0 \<and> boundary < sz then Panic ''bad boundary''
      else extent_alloc_subregion_descr diag pg ex substart subend sz alignment skew boundary
             flags)"

text \<open>The macro \<open>extent_alloc\<close> of sys/extent.h.\<close>

definition extent_alloc ::
  "bool \<Rightarrow> pool_get \<Rightarrow> extent \<Rightarrow> u_long \<Rightarrow> u_long \<Rightarrow> u_long \<Rightarrow> u_long \<Rightarrow> u_int \<Rightarrow>
   u_long ex_outcome" where
  "extent_alloc diag pg ex sz alignment skew boundary flags =
     extent_alloc_subregion diag pg ex (ex_start ex) (ex_end ex) sz alignment skew boundary flags"

section \<open>Freeing a region\<close>

text \<open>The four cases of the comment in \<open>extent_free\<close>, with the region's position.\<close>

datatype free_case =
    Free_whole nat | Free_head nat | Free_tail nat | Free_split nat | Free_not_found

fun free_scan ::
  "bool \<Rightarrow> extent_region list \<Rightarrow> u_long \<Rightarrow> u_long \<Rightarrow> nat \<Rightarrow> free_case" where
  "free_scan nocoalesce [] start endp i = Free_not_found"
| "free_scan nocoalesce (rp # rs) start endp i =
     (if er_end rp < start then free_scan nocoalesce rs start endp (Suc i)
      else if er_start rp > endp then Free_not_found
      else if start = er_start rp \<and> endp = er_end rp then Free_whole i
      else if nocoalesce then free_scan nocoalesce rs start endp (Suc i)
      else if start = er_start rp \<and> endp < er_end rp then Free_head i
      else if start > er_start rp \<and> endp = er_end rp then Free_tail i
      else if start > er_start rp \<and> endp < er_end rp then Free_split i
      else free_scan nocoalesce rs start endp (Suc i))"

text \<open>The label \<open>done\<close>.\<close>

definition extent_free_done :: "extent \<Rightarrow> extent_region option \<Rightarrow> extent" where
  "extent_free_done ex nrp =
     (let ex1 = (case nrp of None \<Rightarrow> ex | Some rp \<Rightarrow> extent_free_region_descriptor ex rp) in
      if has_flag (ex_flags ex1) EXF_WANTED
      then ex1\<lparr>ex_flags := ex_flags ex1 AND NOT EXF_WANTED,
               ex_wakeups := ex_wakeups ex1 @ [Wchan_extent]\<rparr>
      else ex1)"

text \<open>
  \<open>nrp\<close> is None when coalescing is not allowed; the split case is then never
  reached, as the scan has skipped the region.
\<close>

definition extent_free_found ::
  "extent \<Rightarrow> u_long \<Rightarrow> u_long \<Rightarrow> extent_region option \<Rightarrow> unit ex_outcome" where
  "extent_free_found ex start endp nrp =
     (let rs = ex_regions ex in
      case free_scan (has_flag (ex_flags ex) EXF_NOCOALESCE) rs start endp 0 of
        Free_not_found \<Rightarrow> Panic ''region not found''
      | Free_whole i \<Rightarrow>
          Return (extent_free_done (extent_free_region_descriptor
            (ex\<lparr>ex_regions := list_remove_at rs i\<rparr>) (rs ! i)) nrp) (Inr ())
      | Free_head i \<Rightarrow>
          Return (extent_free_done
            (ex\<lparr>ex_regions := rs[i := (rs ! i)\<lparr>er_start := endp + 1\<rparr>]\<rparr>) nrp) (Inr ())
      | Free_tail i \<Rightarrow>
          Return (extent_free_done
            (ex\<lparr>ex_regions := rs[i := (rs ! i)\<lparr>er_end := start - 1\<rparr>]\<rparr>) nrp) (Inr ())
      | Free_split i \<Rightarrow>
          (case nrp of
             None \<Rightarrow> Panic ''NULL dereference''
           | Some n \<Rightarrow>
               Return (extent_free_done
                 (ex\<lparr>ex_regions := list_insert_after
                    (rs[i := (rs ! i)\<lparr>er_end := start - 1\<rparr>]) i
                    (n\<lparr>er_start := endp + 1, er_end := er_end (rs ! i)\<rparr>)\<rparr>) None) (Inr ())))"

definition extent_free ::
  "bool \<Rightarrow> pool_get \<Rightarrow> extent \<Rightarrow> u_long \<Rightarrow> u_long \<Rightarrow> u_int \<Rightarrow> unit ex_outcome" where
  "extent_free diag pg ex start sz flags =
     (let endp = start + (sz - 1) in
      if diag \<and> (start < ex_start ex \<or> endp > ex_end ex) then Panic ''region not within extent''
      else if diag \<and> endp < start then Panic ''overflow''
      else if has_flag (ex_flags ex) EXF_NOCOALESCE then extent_free_found ex start endp None
      else
        case extent_alloc_region_descriptor pg ex flags of
          No_descr ex1 \<Rightarrow> Return ex1 (Inl ENOMEM)
        | Descr_sleep ex1 \<Rightarrow> Sleep ex1 None
        | Descr ex1 nrp \<Rightarrow> extent_free_found ex1 start endp (Some nrp))"

end
