(* ===== verification/Extent_Set.thy ===== *)
theory Extent_Set
  imports Extent
begin

text \<open>
  The invariant of an extent (regions inside the extent, in order, disjoint),
  the set of addresses it has allocated, and the effect of
  \<open>extent_insert_and_optimize\<close> on both.
\<close>

section \<open>Invariant and abstraction\<close>

definition region_in :: "u_long \<Rightarrow> u_long \<Rightarrow> extent_region \<Rightarrow> bool" where
  "region_in lo hi r \<longleftrightarrow> lo \<le> er_start r \<and> er_start r \<le> er_end r \<and> er_end r \<le> hi"

text \<open>
  Regions are apart. Where coalescing is allowed (\<open>co\<close>) there is at least one
  free address between any two of them.
\<close>

definition before :: "bool \<Rightarrow> extent_region \<Rightarrow> extent_region \<Rightarrow> bool" where
  "before co a b \<longleftrightarrow> unat (er_end a) + of_bool co < unat (er_start b)"

definition regions_ok :: "bool \<Rightarrow> u_long \<Rightarrow> u_long \<Rightarrow> extent_region list \<Rightarrow> bool" where
  "regions_ok co lo hi rs \<longleftrightarrow> list_all (region_in lo hi) rs \<and> sorted_wrt (before co) rs"

definition coalescing :: "extent \<Rightarrow> bool" where
  "coalescing ex \<longleftrightarrow> \<not> has_flag (ex_flags ex) EXF_NOCOALESCE"

definition extent_inv :: "extent \<Rightarrow> bool" where
  "extent_inv ex \<longleftrightarrow> ex_start ex \<le> ex_end ex \<and>
     regions_ok (coalescing ex) (ex_start ex) (ex_end ex) (ex_regions ex)"

definition addrs :: "extent_region list \<Rightarrow> u_long set" where
  "addrs rs = (\<Union>r \<in> set rs. {er_start r..er_end r})"

definition allocated :: "extent \<Rightarrow> u_long set" where
  "allocated ex = addrs (ex_regions ex)"

lemma addrs_simps [simp]:
  "addrs [] = {}"
  "addrs (r # rs) = {er_start r..er_end r} \<union> addrs rs"
  "addrs (xs @ ys) = addrs xs \<union> addrs ys"
  by (auto simp: addrs_def)

lemma regions_ok_Nil [simp]: "regions_ok co lo hi []"
  by (simp add: regions_ok_def)

lemma regions_ok_Cons:
  "regions_ok co lo hi (r # rs) \<longleftrightarrow>
     region_in lo hi r \<and> (\<forall>s \<in> set rs. before co r s) \<and> regions_ok co lo hi rs"
  by (auto simp: regions_ok_def)

lemma regions_ok_append:
  "regions_ok co lo hi (xs @ ys) \<longleftrightarrow>
     regions_ok co lo hi xs \<and> regions_ok co lo hi ys \<and> (\<forall>x \<in> set xs. \<forall>y \<in> set ys. before co x y)"
  by (auto simp: regions_ok_def sorted_wrt_append)

lemma regions_ok_mem: "regions_ok co lo hi rs \<Longrightarrow> r \<in> set rs \<Longrightarrow> region_in lo hi r"
  by (simp add: regions_ok_def list_all_iff)

lemmas regions_ok_simps = regions_ok_Cons regions_ok_append

text \<open>Adjacent intervals of words join.\<close>

lemma interval_join:
  fixes a b c d :: u_long
  assumes "a \<le> b" "b < c" "c = b + 1" "c \<le> d"
  shows "{a..b} \<union> {c..d} = {a..d}"
proof -
  have "x \<le> b \<or> c \<le> x" for x
    using assms(3) inc_le [of b x] by (meson not_le)
  with assms show ?thesis by fastforce
qed

lemma beforeD: "before co a b \<Longrightarrow> er_end a < er_start b"
  by (simp add: before_def word_less_nat_alt)

lemma before_mono:
  "before co a b \<Longrightarrow> er_end a' \<le> er_end a \<Longrightarrow> er_start b \<le> er_start b' \<Longrightarrow> before co a' b'"
  by (auto simp: before_def word_le_nat_alt)

lemma before_coalescing:
  "er_end a < er_start b \<Longrightarrow> (co \<Longrightarrow> er_end a + 1 \<noteq> er_start b) \<Longrightarrow> before co a b"
  by (cases co) (auto simp: before_def succ_eq_iff_unat, simp_all add: word_less_nat_alt)

lemma before_Cons_head:
  assumes "regions_ok co lo hi (h # ts)" "before co a h" "r \<in> set (h # ts)"
  shows "before co a r"
proof (cases "r = h")
  case False
  with assms have "before co h r" and "er_start h \<le> er_end h"
    by (auto simp: regions_ok_Cons region_in_def)
  with assms(2) show ?thesis by (auto simp: before_def word_le_nat_alt)
qed (use assms in simp)

lemma before_last:
  assumes "region_in lo hi a" "before co u a" "before co a r"
  shows "before co u r"
  using assms by (auto simp: before_def region_in_def word_le_nat_alt)

section \<open>Inserting a region at its place\<close>

text \<open>
  \<open>[start, endp]\<close> fits right after position \<open>lst\<close>: what is before it ends
  before it starts, what is after it starts after it ends.
\<close>

definition place :: "nat option \<Rightarrow> nat" where
  "place lst = (case lst of None \<Rightarrow> 0 | Some i \<Rightarrow> Suc i)"

definition fits_at :: "extent_region list \<Rightarrow> u_long \<Rightarrow> u_long \<Rightarrow> nat option \<Rightarrow> bool" where
  "fits_at rs start endp lst \<longleftrightarrow> place lst \<le> length rs \<and>
     (\<forall>r \<in> set (take (place lst) rs). er_end r < start) \<and>
     (\<forall>r \<in> set (drop (place lst) rs). endp < er_start r)"

lemma fits_at_disjoint:
  assumes "fits_at rs start endp lst"
  shows "{start..endp} \<inter> addrs rs = {}"
proof -
  have split: "addrs rs = addrs (take (place lst) rs) \<union> addrs (drop (place lst) rs)"
    by (metis addrs_simps(3) append_take_drop_id)
  have "{start..endp} \<inter> addrs (take (place lst) rs) = {}"
    using assms by (force simp: fits_at_def addrs_def)
  moreover have "{start..endp} \<inter> addrs (drop (place lst) rs) = {}"
    using assms by (force simp: fits_at_def addrs_def)
  ultimately show ?thesis using split by blast
qed

text \<open>The region lists \<open>extent_insert_and_optimize\<close> makes, as list expressions.\<close>

lemma ex_regions_insert_None:
  "ex_regions (extent_insert_and_optimize ex start sz None rp) =
     (if \<not> has_flag (ex_flags ex) EXF_NOCOALESCE \<and> ex_regions ex \<noteq> [] \<and>
         start + sz = er_start (hd (ex_regions ex))
      then (hd (ex_regions ex))\<lparr>er_start := start\<rparr> # tl (ex_regions ex)
      else rp\<lparr>er_start := start, er_end := start + (sz - 1)\<rparr> # ex_regions ex)"
  by (simp add: extent_insert_and_optimize_def Let_def)

lemma ex_regions_insert_Some:
  assumes "ex_regions ex = us @ a # vs" and "length us = i"
  shows "ex_regions (extent_insert_and_optimize ex start sz (Some i) rp) =
     (let new = rp\<lparr>er_start := start, er_end := start + (sz - 1)\<rparr>;
          co = (\<not> has_flag (ex_flags ex) EXF_NOCOALESCE);
          app = (co \<and> er_end a + 1 = start);
          pre = (co \<and> vs \<noteq> [] \<and> start + sz = er_start (hd vs)) in
      if app \<and> pre then us @ a\<lparr>er_end := er_end (hd vs)\<rparr> # tl vs
      else if app then us @ a\<lparr>er_end := start + (sz - 1)\<rparr> # vs
      else if pre then us @ a # (hd vs)\<lparr>er_start := start\<rparr> # tl vs
      else us @ a # new # vs)"
  using assms
  by (cases vs)
    (auto simp: extent_insert_and_optimize_def Let_def list_next_def list_insert_after_def
       list_remove_at_def nth_append list_update_append)

lemma insert_frame [simp]:
  "ex_start (extent_insert_and_optimize ex start sz lst rp) = ex_start ex"
  "ex_end (extent_insert_and_optimize ex start sz lst rp) = ex_end ex"
  by (auto simp: extent_insert_and_optimize_def Let_def split: option.splits)

lemma coalescing_free_descriptor [simp]:
  "coalescing (extent_free_region_descriptor ex rp) = coalescing ex"
  by (auto simp: coalescing_def extent_free_region_descriptor_def extent_wake_freelist_def
      Let_def)

lemma nocoalesce_free_descriptor [simp]:
  "has_flag (ex_flags (extent_free_region_descriptor ex rp)) EXF_NOCOALESCE =
   has_flag (ex_flags ex) EXF_NOCOALESCE"
  using coalescing_free_descriptor [of ex rp] by (simp add: coalescing_def)

lemma coalescing_regions_update [simp]: "coalescing (ex\<lparr>ex_regions := rs\<rparr>) = coalescing ex"
  by (simp add: coalescing_def)

lemma coalescing_insert [simp]:
  "coalescing (extent_insert_and_optimize ex start sz lst rp) = coalescing ex"
  by (auto simp: extent_insert_and_optimize_def Let_def split: option.splits)

lemma insert_regions_head:
  assumes ok: "regions_ok (coalescing ex) lo hi (ex_regions ex)"
    and gt: "\<forall>r \<in> set (ex_regions ex). endp < er_start r"
    and rng: "lo \<le> start" "start \<le> endp" "endp \<le> hi"
    and endp: "endp = start + (sz - 1)"
    and out: "out = ex_regions (extent_insert_and_optimize ex start sz None rp)"
  shows "regions_ok (coalescing ex) lo hi out \<and> addrs out = addrs (ex_regions ex) \<union> {start..endp}"
proof (cases "coalescing ex \<and> ex_regions ex \<noteq> [] \<and> start + sz = er_start (hd (ex_regions ex))")
  case True
  then obtain h ts where rs: "ex_regions ex = h # ts" and h: "er_start h = endp + 1"
    by (cases "ex_regions ex") (auto simp: endp)
  have "{start..endp} \<union> {er_start h..er_end h} = {start..er_end h}"
    by (rule interval_join) (use ok gt rs h rng in \<open>auto simp: regions_ok_Cons region_in_def\<close>)
  moreover have "out = h\<lparr>er_start := start\<rparr> # ts"
    using True rs out by (simp add: ex_regions_insert_None coalescing_def)
  ultimately show ?thesis
    using ok gt rs rng
    by (auto simp: regions_ok_Cons region_in_def before_def)
next
  case False
  then have o: "out = rp\<lparr>er_start := start, er_end := endp\<rparr> # ex_regions ex"
    using endp out by (auto simp: ex_regions_insert_None coalescing_def)
  have "before (coalescing ex) (rp\<lparr>er_start := start, er_end := endp\<rparr>) r"
    if r: "r \<in> set (ex_regions ex)" for r
  proof -
    from r obtain h ts where rs: "ex_regions ex = h # ts" by (cases "ex_regions ex") auto
    have "before (coalescing ex) (rp\<lparr>er_start := start, er_end := endp\<rparr>) h"
      by (rule before_coalescing) (use gt rs False endp in auto)
    with ok r rs show ?thesis by (metis before_Cons_head)
  qed
  with ok rng show ?thesis by (auto simp: o regions_ok_Cons region_in_def)
qed

lemma insert_regions_after:
  assumes ok: "regions_ok (coalescing ex) lo hi (ex_regions ex)"
    and rs: "ex_regions ex = us @ a # vs" and len: "length us = i"
    and lt: "er_end a < start" and gt: "\<forall>r \<in> set vs. endp < er_start r"
    and rng: "lo \<le> start" "start \<le> endp" "endp \<le> hi"
    and endp: "endp = start + (sz - 1)"
    and out: "out = ex_regions (extent_insert_and_optimize ex start sz (Some i) rp)"
  shows "regions_ok (coalescing ex) lo hi out \<and> addrs out = addrs (ex_regions ex) \<union> {start..endp}"
proof -
  let ?co = "coalescing ex"
  let ?new = "rp\<lparr>er_start := start, er_end := endp\<rparr>"
  have okd: "regions_ok ?co lo hi us" "region_in lo hi a" "regions_ok ?co lo hi vs"
    "\<forall>u \<in> set us. before ?co u a" "\<forall>v \<in> set vs. before ?co a v"
    "\<forall>u \<in> set us. \<forall>v \<in> set vs. before ?co u v"
    using ok rs by (auto simp: regions_ok_simps)
  define app where "app = (?co \<and> er_end a + 1 = start)"
  define pre where "pre = (?co \<and> vs \<noteq> [] \<and> endp + 1 = er_start (hd vs))"
  have o: "out = (if app \<and> pre then us @ a\<lparr>er_end := er_end (hd vs)\<rparr> # tl vs
      else if app then us @ a\<lparr>er_end := endp\<rparr> # vs
      else if pre then us @ a # (hd vs)\<lparr>er_start := start\<rparr> # tl vs
      else us @ a # ?new # vs)"
    using ex_regions_insert_Some [OF rs len]
    by (simp add: out app_def pre_def coalescing_def Let_def endp)
  have na: "before ?co a ?new" if "\<not> app"
    by (rule before_coalescing) (use that lt in \<open>auto simp: app_def\<close>)
  have ua: "before ?co u ?new" if "u \<in> set us" for u
    using okd lt that by (auto simp: before_def region_in_def word_order_unat)
  have nv: "before ?co ?new v" if np: "\<not> pre" and v: "v \<in> set vs" for v
  proof -
    from v obtain h ts where vs: "vs = h # ts" by (cases vs) auto
    have "before ?co ?new h"
      by (rule before_coalescing) (use gt vs np in \<open>auto simp: pre_def\<close>)
    with okd(3) v vs show ?thesis by (metis before_Cons_head)
  qed
  have japp: "{er_start a..er_end a} \<union> {start..endp} = {er_start a..endp}" if app
    by (rule interval_join) (use that okd lt rng in \<open>auto simp: app_def region_in_def\<close>)
  have as: "er_start a \<le> start" using okd(2) lt by (auto simp: region_in_def)
  consider "app" "pre" | "app" "\<not> pre" | "\<not> app" "pre" | "\<not> app" "\<not> pre" by blast
  then show ?thesis
  proof cases
    case 1
    then obtain h ts where vs: "vs = h # ts" and h: "er_start h = endp + 1"
      by (cases vs) (auto simp: pre_def)
    have "{er_start a..endp} \<union> {er_start h..er_end h} = {er_start a..er_end h}"
      by (rule interval_join)
        (use vs h rng okd as gt in \<open>auto simp: regions_ok_Cons region_in_def before_def\<close>)
    then show ?thesis
      using 1 o rs vs okd as rng gt japp [OF 1(1)]
      by (auto simp: regions_ok_simps region_in_def before_def)
  next
    case 2
    then show ?thesis
      using o rs okd rng lt as japp nv [OF 2(2)]
      by (auto simp: regions_ok_simps region_in_def before_def)
  next
    case 3
    then obtain h ts where vs: "vs = h # ts" and h: "er_start h = endp + 1"
      by (cases vs) (auto simp: pre_def)
    have "{start..endp} \<union> {er_start h..er_end h} = {start..er_end h}"
      by (rule interval_join)
        (use vs h rng okd gt in \<open>auto simp: regions_ok_Cons region_in_def\<close>)
    then show ?thesis
      using 3 o rs vs okd rng gt na [OF 3(1)] ua
      by (auto simp: regions_ok_simps region_in_def before_def)
  next
    case 4
    then show ?thesis
      using o rs okd rng na nv ua
      by (auto simp: regions_ok_simps region_in_def)
  qed
qed

lemma insert_extent:
  assumes inv: "extent_inv ex" and fit: "fits_at (ex_regions ex) start (start + (sz - 1)) lst"
    and rng: "ex_start ex \<le> start" "start \<le> start + (sz - 1)" "start + (sz - 1) \<le> ex_end ex"
  shows "extent_inv (extent_insert_and_optimize ex start sz lst rp) \<and>
    allocated (extent_insert_and_optimize ex start sz lst rp) =
      allocated ex \<union> {start..start + (sz - 1)}"
proof (cases lst)
  case None
  then show ?thesis
    using insert_regions_head [OF _ _ rng refl refl] inv fit
    by (simp add: extent_inv_def allocated_def fits_at_def place_def)
next
  case (Some i)
  with fit have "i < length (ex_regions ex)" by (simp add: fits_at_def place_def)
  then obtain us a vs where rs: "ex_regions ex = us @ a # vs" and len: "length us = i"
    by (metis split_at_nth)
  then show ?thesis
    using insert_regions_after [OF _ rs len _ _ rng refl refl] inv fit Some
    by (simp add: extent_inv_def allocated_def fits_at_def place_def)
qed

end
