(* ===== verification/Extent_Region.thy ===== *)
theory Extent_Region
  imports Extent_Set
begin

text \<open>
  Allocating and freeing a given region of an extent: \<open>extent_alloc_region\<close> adds
  exactly the requested addresses or reports the conflict, \<open>extent_free\<close>
  removes exactly the addresses it is given and wakes the sleepers. The
  locale \<open>range_allocator\<close> states what a client of the extent manager may rely
  on; its interpretation is on these two operations.
\<close>

section \<open>The search for a conflict\<close>

lemma find_conflict_Inl:
  assumes "regions_ok co lo hi rs" "start \<le> endp" "find_conflict rs start endp i l = Inl l'"
  shows "\<exists>k \<le> length rs. l' = (if k = 0 then l else Some (i + k - 1)) \<and>
    (\<forall>r \<in> set (take k rs). er_end r < start) \<and> (\<forall>r \<in> set (drop k rs). endp < er_start r)"
  using assms
proof (induction rs start endp i l rule: find_conflict.induct)
  case (2 rp rs start endp i l)
  show ?case
  proof (cases "er_start rp > endp")
    case True
    have "endp < er_start r" if "r \<in> set (rp # rs)" for r
      using that True "2.prems"(1)
      by (auto simp: regions_ok_Cons region_in_def before_def word_order_unat)
    with True "2.prems"(3) show ?thesis by (intro exI [of _ 0]) auto
  next
    case False
    with "2.prems"(3) have e: "er_end rp < start"
      and f: "find_conflict rs start endp (Suc i) (Some i) = Inl l'"
      by (auto split: if_splits)
    from "2.prems"(1) have "regions_ok co lo hi rs" by (simp add: regions_ok_Cons)
    from "2.IH" [OF _ _ this "2.prems"(2) f] False e obtain k where k: "k \<le> length rs"
      "l' = (if k = 0 then Some i else Some (Suc i + k - 1))"
      "\<forall>r \<in> set (take k rs). er_end r < start" "\<forall>r \<in> set (drop k rs). endp < er_start r"
      by (auto simp: not_le)
    with e show ?thesis by (intro exI [of _ "Suc k"]) auto
  qed
qed simp

lemma find_conflict_fits:
  assumes "regions_ok co lo hi rs" "start \<le> endp" "find_conflict rs start endp 0 None = Inl l'"
  shows "fits_at rs start endp l'"
proof -
  from find_conflict_Inl [OF assms] obtain k where k: "k \<le> length rs"
    "l' = (if k = 0 then None else Some (k - 1))"
    "\<forall>r \<in> set (take k rs). er_end r < start" "\<forall>r \<in> set (drop k rs). endp < er_start r"
    by auto
  then have "place l' = k" by (simp add: place_def)
  with k show ?thesis by (simp add: fits_at_def)
qed

lemma find_conflict_overlap:
  assumes "regions_ok co lo hi rs" "start \<le> endp" "find_conflict rs start endp 0 None = Inr i"
  shows "{start..endp} \<inter> addrs rs \<noteq> {}"
proof -
  let ?r = "rs ! i"
  from find_conflict_Inr [OF assms(3)] have i: "i < length rs"
    and c: "er_start ?r \<le> endp" "start \<le> er_end ?r" by simp_all
  with assms(1) have "er_start ?r \<le> er_end ?r"
    by (auto simp: regions_ok_def list_all_length region_in_def)
  with c assms(2) have "max start (er_start ?r) \<in> {start..endp}"
    "max start (er_start ?r) \<in> {er_start ?r..er_end ?r}" by simp_all
  with nth_mem [OF i] show ?thesis unfolding addrs_def by blast
qed

section \<open>Frames\<close>

text \<open>What the invariant and the abstraction read.\<close>

definition same_space :: "extent \<Rightarrow> extent \<Rightarrow> bool" where
  "same_space ex ex' \<longleftrightarrow> ex_regions ex' = ex_regions ex \<and> ex_start ex' = ex_start ex \<and>
     ex_end ex' = ex_end ex \<and> coalescing ex' = coalescing ex"

lemma same_space_inv:
  "same_space ex ex' \<Longrightarrow> extent_inv ex' = extent_inv ex \<and> allocated ex' = allocated ex"
  by (simp add: same_space_def extent_inv_def allocated_def)

lemma same_space_free_descriptor [simp]: "same_space ex (extent_free_region_descriptor ex rp)"
  by (simp add: same_space_def)

lemma same_space_flags [simp]:
  "same_space ex (ex\<lparr>ex_flags := ex_flags ex OR EXF_WANTED\<rparr>)"
  "same_space ex (ex\<lparr>ex_flags := ex_flags ex OR EXF_FLWANTED\<rparr>)"
  by (simp_all add: same_space_def coalescing_def)

lemma descriptor_frame:
  assumes "extent_alloc_region_descriptor pg ex flags = Descr ex1 rp"
  shows "same_space ex ex1" and "ex_flags ex1 = ex_flags ex" and "ex_wakeups ex1 = ex_wakeups ex"
  using assms
  by (auto simp: extent_alloc_region_descriptor_def pool_descr_def same_space_def coalescing_def
      split: if_splits list.splits option.splits)

lemma wanted_free_descriptor [simp]:
  "has_flag (ex_flags (extent_free_region_descriptor ex rp)) EXF_WANTED =
   has_flag (ex_flags ex) EXF_WANTED"
  by (simp add: extent_free_region_descriptor_def extent_wake_freelist_def Let_def)

section \<open>A new extent\<close>

text \<open>
  \<open>extent_create\<close> returns a well-formed extent for its range: nothing is
  allocated in it, or all of it with EX_FILLED, and regions coalesce unless
  EX_NOCOALESCE was given.
\<close>

theorem extent_create_inv:
  assumes "start \<le> endp"
    and r: "extent_create diag pg malloc_ok name start endp mtype fixed_extent storagesize flags =
        Return ex (Some ex')"
  shows "extent_inv ex' \<and> ex_start ex' = start \<and> ex_end ex' = endp \<and>
    allocated ex' = (if has_flag flags EX_FILLED then {start..endp} else {}) \<and>
    coalescing ex' = (\<not> has_flag flags EX_NOCOALESCE)"
proof -
  have fl: "has_flag ((if fixed_extent then EXF_FIXED else 0) OR
      (if has_flag flags EX_NOCOALESCE then EXF_NOCOALESCE else 0)) EXF_NOCOALESCE =
      has_flag flags EX_NOCOALESCE"
    by (simp add: has_flag_or) (simp add: has_flag_def extent_flag_defs)
  show ?thesis
    using assms fl
    by (auto simp: extent_create_def Let_def extent_inv_def allocated_def coalescing_def
        regions_ok_Cons region_in_def same_space_def
        split: if_splits descr_outcome.splits dest!: descriptor_frame(1))
qed

text \<open>A fixed extent with room for eight descriptors, as the bus code makes them.\<close>

theorem extent_create_inv_witness:
  "\<exists>ex ex'. extent_create True (\<lambda>w. None) False (Some ''ioport'') 0 0xffff 0 True 400 0 =
     Return ex (Some ex') \<and> extent_inv ex' \<and> allocated ex' = {}"
proof -
  have "case extent_create True (\<lambda>w. None) False (Some ''ioport'') 0 0xffff 0 True 400 0 of
      Return ex (Some ex') \<Rightarrow> True | _ \<Rightarrow> False"
    by code_simp
  then obtain ex ex' where
    c: "extent_create True (\<lambda>w. None) False (Some ''ioport'') 0 0xffff 0 True 400 0 =
      Return ex (Some ex')"
    by (auto split: outcome.splits option.splits)
  have "(0 :: u_long) \<le> 0xffff" by simp
  from extent_create_inv [OF this c] c show ?thesis by simp
qed

section \<open>Sample extents\<close>

text \<open>A coalescing extent of the addresses 0 to 99 with the regions 10-19 and 40-59.\<close>

definition sample_region :: extent_region where
  "sample_region = \<lparr>er_start = 10, er_end = 19, er_flags = 0\<rparr>"

definition sample_extent :: extent where
  "sample_extent =
     \<lparr>ex_name = ''sample'',
      ex_regions = [sample_region, sample_region\<lparr>er_start := 40, er_end := 59\<rparr>],
      ex_start = 0, ex_end = 99, ex_mtype = 0, ex_flags = 0, fex_freelist = [],
      fex_storagesize = 0, ex_wakeups = [], ex_pool_put = 0\<rparr>"

definition sample_pool :: pool_get where
  "sample_pool w = Some sample_region"

lemma sample_facts [simp]:
  "extent_inv sample_extent" "coalescing sample_extent"
  "allocated sample_extent = {10..19} \<union> {40..59}"
  "ex_start sample_extent = 0" "ex_end sample_extent = 99"
  by (simp_all add: extent_inv_def regions_ok_def region_in_def before_def coalescing_def
      allocated_def sample_extent_def sample_region_def)

lemma sample_descr:
  "\<not> has_flag f EX_WAITOK \<Longrightarrow> extent_alloc_region_descriptor sample_pool sample_extent f =
     Descr sample_extent (sample_region\<lparr>er_flags := ER_ALLOC\<rparr>)"
  by (simp add: extent_alloc_region_descriptor_def pool_descr_def sample_pool_def
      sample_extent_def)

section \<open>Allocating a region\<close>

lemma extent_alloc_region_start_correct:
  assumes inv: "extent_inv ex" and nc: "\<not> has_flag flags EX_CONFLICTOK"
    and endp: "endp = start + (sz - 1)"
    and rng: "start \<le> endp" "ex_start ex \<le> start" "endp \<le> ex_end ex"
  shows "let r = extent_alloc_region_start ex start sz endp flags myrp in
    if {start..endp} \<inter> allocated ex = {}
    then \<exists>ex'. r = Return ex' (Inr ()) \<and> extent_inv ex' \<and> allocated ex' = allocated ex \<union> {start..endp}
    else if has_flag flags EX_WAITSPACE
    then \<exists>ex'. r = Sleep ex' (Some myrp) \<and> same_space ex ex' \<and> has_flag (ex_flags ex') EXF_WANTED
    else \<exists>ex'. r = Return ex' (Inl EAGAIN) \<and> same_space ex ex'"
proof (cases "find_conflict (ex_regions ex) start endp 0 None")
  case (Inl lst)
  from inv have ok: "regions_ok (coalescing ex) (ex_start ex) (ex_end ex) (ex_regions ex)"
    by (simp add: extent_inv_def)
  from find_conflict_fits [OF ok rng(1) Inl]
  have fit: "fits_at (ex_regions ex) start endp lst" .
  then have "{start..endp} \<inter> allocated ex = {}"
    unfolding allocated_def by (rule fits_at_disjoint)
  with insert_extent [OF inv] fit rng endp Inl show ?thesis
    by (simp add: extent_alloc_region_start.simps)
next
  case (Inr i)
  then have "{start..endp} \<inter> allocated ex \<noteq> {}"
    using inv rng(1) find_conflict_overlap by (auto simp: extent_inv_def allocated_def)
  with Inr nc show ?thesis
    by (simp add: extent_alloc_region_start.simps Let_def)
qed

lemma alloc_region_correct:
  assumes inv: "extent_inv ex" and nc: "\<not> has_flag flags EX_CONFLICTOK" and sz: "1 \<le> sz"
    and endp: "endp = start + (sz - 1)"
    and rng: "start \<le> endp" "ex_start ex \<le> start" "endp \<le> ex_end ex"
    and descr: "extent_alloc_region_descriptor pg ex flags = Descr ex1 myrp"
  shows "let r = extent_alloc_region diag pg ex start sz flags in
    if {start..endp} \<inter> allocated ex = {}
    then \<exists>ex'. r = Return ex' (Inr ()) \<and> extent_inv ex' \<and> allocated ex' = allocated ex \<union> {start..endp}
    else if has_flag flags EX_WAITSPACE
    then \<exists>ex'. r = Sleep ex' (Some myrp) \<and> extent_inv ex' \<and> allocated ex' = allocated ex \<and>
           has_flag (ex_flags ex') EXF_WANTED
    else \<exists>ex'. r = Return ex' (Inl EAGAIN) \<and> extent_inv ex' \<and> allocated ex' = allocated ex"
proof -
  from descriptor_frame(1) [OF descr] have sp: "same_space ex ex1" .
  with inv have inv1: "extent_inv ex1" and al: "allocated ex1 = allocated ex"
    by (simp_all add: same_space_inv)
  have r: "extent_alloc_region diag pg ex start sz flags =
      extent_alloc_region_start ex1 start sz endp flags myrp"
    using sz rng nc descr
    by (auto simp: extent_alloc_region_def extent_alloc_region_descr_def Let_def simp flip: endp)
  from sp rng have "ex_start ex1 \<le> start" "endp \<le> ex_end ex1" by (simp_all add: same_space_def)
  from extent_alloc_region_start_correct [OF inv1 nc endp rng(1) this, of myrp] r al inv1
  show ?thesis
    by (auto simp: Let_def dest: same_space_inv split: if_splits)
qed

text \<open>
  C3. \<open>extent_alloc_region\<close> on a well-formed extent, for a request inside it without
  EX_CONFLICTOK and with a region descriptor at hand, allocates exactly the requested addresses
  when all of them are free and keeps the region list well-formed; when one of
  them is taken it changes no region and reports EAGAIN, or sleeps with
  EXF_WANTED set when the caller asked to wait for space.
\<close>

theorem extent_alloc_region_correct:
  assumes inv: "extent_inv ex" and nc: "\<not> has_flag flags EX_CONFLICTOK" and sz: "1 \<le> sz"
    and endp: "endp = start + (sz - 1)"
    and rng: "start \<le> endp" "ex_start ex \<le> start" "endp \<le> ex_end ex"
    and descr: "extent_alloc_region_descriptor pg ex flags = Descr ex1 myrp"
  shows "let r = extent_alloc_region diag pg ex start sz flags in
    if {start..endp} \<inter> allocated ex = {}
    then \<exists>ex'. r = Return ex' (Inr ()) \<and> extent_inv ex' \<and> allocated ex' = allocated ex \<union> {start..endp}
    else if has_flag flags EX_WAITSPACE
    then \<exists>ex'. r = Sleep ex' (Some myrp) \<and> extent_inv ex' \<and> allocated ex' = allocated ex \<and>
           has_flag (ex_flags ex') EXF_WANTED
    else \<exists>ex'. r = Return ex' (Inl EAGAIN) \<and> extent_inv ex' \<and> allocated ex' = allocated ex"
  by (rule alloc_region_correct [OF assms])

text \<open>The hypotheses hold for a request of ten addresses at 20.\<close>

theorem extent_alloc_region_correct_witness:
  "\<exists>ex'. extent_alloc_region True sample_pool sample_extent 20 10 0 = Return ex' (Inr ()) \<and>
     extent_inv ex' \<and> allocated ex' = {10..19} \<union> {40..59} \<union> {20..29}"
  using extent_alloc_region_correct [OF sample_facts(1) _ _ _ _ _ _ sample_descr,
      of 0 10 29 20 True]
  by (simp add: Let_def Int_Un_distrib)

section \<open>Freeing a region\<close>

lemma sorted_wrt_cases:
  "sorted_wrt P xs \<Longrightarrow> a \<in> set xs \<Longrightarrow> b \<in> set xs \<Longrightarrow> a = b \<or> P a b \<or> P b a"
  by (induction xs) auto

lemma contained_in_region:
  assumes ok: "regions_ok True lo hi rs" and se: "start \<le> endp"
    and sub: "{start..endp} \<subseteq> addrs rs"
  shows "\<exists>r \<in> set rs. er_start r \<le> start \<and> endp \<le> er_end r"
proof -
  from se sub obtain r where r: "r \<in> set rs" "er_start r \<le> start" "start \<le> er_end r"
    by (force simp: addrs_def)
  show ?thesis
  proof (rule ccontr)
    assume "\<not> ?thesis"
    with r have lt: "er_end r < endp" by (meson not_le)
    then have su: "unat (er_end r + 1) = Suc (unat (er_end r))" by (rule unat_succ_less)
    have "er_end r + 1 \<in> {start..endp}"
      using r lt su by (simp add: word_order_unat)
    with sub obtain r' where r': "r' \<in> set rs" "er_start r' \<le> er_end r + 1" "er_end r + 1 \<le> er_end r'"
      by (force simp: addrs_def)
    from ok r(1) r'(1) have "r = r' \<or> before True r r' \<or> before True r' r"
      unfolding regions_ok_def by (blast dest: sorted_wrt_cases)
    with r r' su show False
      by (auto simp: before_def word_order_unat)
  qed
qed

definition classify :: "extent_region \<Rightarrow> u_long \<Rightarrow> u_long \<Rightarrow> nat \<Rightarrow> free_case" where
  "classify rp start endp i =
     (if start = er_start rp \<and> endp = er_end rp then Free_whole i
      else if start = er_start rp then Free_head i
      else if endp = er_end rp then Free_tail i
      else Free_split i)"

lemma free_scan_found:
  assumes "regions_ok co lo hi (us @ a # vs)" "start \<le> endp"
    "er_start a \<le> start" "endp \<le> er_end a"
    "nocoalesce \<Longrightarrow> er_start a = start \<and> er_end a = endp"
  shows "free_scan nocoalesce (us @ a # vs) start endp i = classify a start endp (i + length us)"
  using assms
proof (induction us arbitrary: i)
  case Nil
  have lt: "\<not> er_end a < start" "\<not> endp < er_start a"
    using Nil.prems(2-4) by order+
  show ?case
  proof (cases nocoalesce)
    case True
    with Nil.prems(5) lt show ?thesis by (simp add: classify_def)
  next
    case False
    have "er_start a = start \<or> er_start a < start" "endp = er_end a \<or> endp < er_end a"
      using Nil.prems(3,4) by (simp_all add: order_le_less disj_commute)
    with lt False show ?thesis by (elim disjE) (simp_all add: classify_def)
  qed
next
  case (Cons u us)
  then have "before co u a" by (auto simp: regions_ok_simps)
  then have "er_end u < start" using Cons.prems(3) by (meson beforeD less_le_trans)
  moreover have "regions_ok co lo hi (us @ a # vs)"
    using Cons.prems(1) by (simp add: regions_ok_Cons)
  then have "free_scan nocoalesce (us @ a # vs) start endp (Suc i) =
      classify a start endp (Suc i + length us)"
    by (rule Cons.IH [OF _ Cons.prems(2-5)])
  ultimately show ?case by simp
qed

lemma free_scan_not_found:
  assumes "\<forall>r \<in> set rs. \<not> (er_start r \<le> start \<and> endp \<le> er_end r \<and>
      (nocoalesce \<longrightarrow> er_start r = start \<and> er_end r = endp))"
  shows "free_scan nocoalesce rs start endp i = Free_not_found"
  using assms by (induction rs arbitrary: i) auto

lemma le_pred_iff: "(a :: u_long) < b \<Longrightarrow> x \<le> b - 1 \<longleftrightarrow> x < b"
  using unat_pred_less [of a b] by (auto simp: word_order_unat)

lemma succ_le_iff: "(a :: u_long) < b \<Longrightarrow> a + 1 \<le> x \<longleftrightarrow> a < x"
  using unat_succ_less [of a b] by (auto simp: word_order_unat)

text \<open>The regions \<open>extent_free\<close> leaves in place of a region that contains the freed range.\<close>

definition remains :: "extent_region \<Rightarrow> u_long \<Rightarrow> u_long \<Rightarrow> extent_region \<Rightarrow> extent_region list" where
  "remains a start endp n =
     (if er_start a < start then [a\<lparr>er_end := start - 1\<rparr>] else []) @
     (if endp < er_end a
      then [(if er_start a < start then n\<lparr>er_end := er_end a\<rparr> else a)\<lparr>er_start := endp + 1\<rparr>]
      else [])"

lemma addrs_remains:
  assumes "er_start a \<le> start" "start \<le> endp" "endp \<le> er_end a"
  shows "addrs (remains a start endp n) = {er_start a..er_end a} - {start..endp}"
  using assms le_pred_iff [of "er_start a" start] succ_le_iff [of endp "er_end a"]
  by (auto simp: remains_def not_less)

lemma regions_ok_remains:
  assumes ok: "regions_ok co lo hi (us @ a # vs)"
    and c: "er_start a \<le> start" "start \<le> endp" "endp \<le> er_end a"
  shows "regions_ok co lo hi (us @ remains a start endp n @ vs)"
proof -
  have p: "unat (start - 1) = unat start - 1" if "er_start a < start"
    by (rule unat_pred_less [OF that])
  have s: "unat (endp + 1) = Suc (unat endp)" if "endp < er_end a"
    by (rule unat_succ_less [OF that])
  show ?thesis
    using ok c
    by (auto simp: remains_def regions_ok_simps region_in_def before_def word_order_unat p s)
qed

lemma addrs_us_vs:
  assumes "regions_ok co lo hi (us @ a # vs)"
  shows "(addrs us \<union> addrs vs) \<inter> {er_start a..er_end a} = {}"
proof -
  from assms have "\<forall>u \<in> set us. er_end u < er_start a" "\<forall>v \<in> set vs. er_end a < er_start v"
    by (auto simp: regions_ok_simps dest: beforeD)
  then show ?thesis by (fastforce simp: addrs_def)
qed

lemma set_carve:
  "I \<subseteq> A \<Longrightarrow> (U \<union> V) \<inter> A = {} \<Longrightarrow> U \<union> ((A - I) \<union> V) = (U \<union> (A \<union> V)) - I"
  by blast

lemma same_space_done:
  "same_space ex (extent_free_done ex nrp)"
  "\<not> has_flag (ex_flags (extent_free_done ex nrp)) EXF_WANTED"
  "has_flag (ex_flags ex) EXF_WANTED \<Longrightarrow>
     \<exists>ws. ex_wakeups (extent_free_done ex nrp) = ws @ [Wchan_extent]"
  by (auto simp: extent_free_done_def same_space_def coalescing_def Let_def split: option.splits)

text \<open>
  The range a caller may free: part of the allocated addresses, or a whole
  region where coalescing is not allowed.
\<close>

definition freeable :: "extent \<Rightarrow> u_long \<Rightarrow> u_long \<Rightarrow> bool" where
  "freeable ex start endp \<longleftrightarrow>
     (if coalescing ex then {start..endp} \<subseteq> allocated ex
      else (\<exists>r \<in> set (ex_regions ex). er_start r = start \<and> er_end r = endp))"

lemma freeable_iff:
  assumes "extent_inv ex" "start \<le> endp"
  shows "freeable ex start endp \<longleftrightarrow> (\<exists>r \<in> set (ex_regions ex). er_start r \<le> start \<and> endp \<le> er_end r \<and>
     (\<not> coalescing ex \<longrightarrow> er_start r = start \<and> er_end r = endp))"
proof (cases "coalescing ex")
  case True
  then have "(\<exists>r \<in> set (ex_regions ex). er_start r \<le> start \<and> endp \<le> er_end r)"
    if "freeable ex start endp"
    using that contained_in_region [of "ex_start ex" "ex_end ex" "ex_regions ex" start endp] assms
    by (auto simp: freeable_def extent_inv_def allocated_def)
  moreover have "freeable ex start endp"
    if "\<exists>r \<in> set (ex_regions ex). er_start r \<le> start \<and> endp \<le> er_end r"
    using that True by (force simp: freeable_def allocated_def addrs_def)
  ultimately show ?thesis using True by blast
next
  case False
  then show ?thesis by (auto simp: freeable_def)
qed

text \<open>The four cases of the code give the same region list.\<close>

lemma extent_free_found_result:
  assumes rs: "ex_regions ex = us @ a # vs"
    and scan: "free_scan (has_flag (ex_flags ex) EXF_NOCOALESCE) (us @ a # vs) start endp 0 =
        classify a start endp (length us)"
    and a: "er_start a \<le> start" "endp \<le> er_end a"
    and n: "\<not> coalescing ex \<Longrightarrow> er_start a = start \<and> er_end a = endp"
      "coalescing ex \<Longrightarrow> nrp = Some m"
  shows "\<exists>ex2 np. extent_free_found ex start endp nrp = Return (extent_free_done ex2 np) (Inr ()) \<and>
      ex_regions ex2 = us @ remains a start endp m @ vs \<and> ex_start ex2 = ex_start ex \<and>
      ex_end ex2 = ex_end ex \<and> coalescing ex2 = coalescing ex \<and>
      has_flag (ex_flags ex2) EXF_WANTED = has_flag (ex_flags ex) EXF_WANTED"
proof -
  let ?found = "\<lambda>ex2 np. extent_free_found ex start endp nrp =
    Return (extent_free_done ex2 np) (Inr ())"
  let ?w = "extent_free_region_descriptor (ex\<lparr>ex_regions := us @ vs\<rparr>) a"
  let ?h = "ex\<lparr>ex_regions := us @ a\<lparr>er_start := endp + 1\<rparr> # vs\<rparr>"
  let ?t = "ex\<lparr>ex_regions := us @ a\<lparr>er_end := start - 1\<rparr> # vs\<rparr>"
  let ?s = "ex\<lparr>ex_regions := us @ a\<lparr>er_end := start - 1\<rparr> #
    m\<lparr>er_start := endp + 1, er_end := er_end a\<rparr> # vs\<rparr>"
  have found: "extent_free_found ex start endp nrp =
    (case classify a start endp (length us) of
       Free_whole i \<Rightarrow> Return (extent_free_done ?w nrp) (Inr ())
     | Free_head i \<Rightarrow> Return (extent_free_done ?h nrp) (Inr ())
     | Free_tail i \<Rightarrow> Return (extent_free_done ?t nrp) (Inr ())
     | Free_split i \<Rightarrow> Return (extent_free_done ?s None) (Inr ())
     | Free_not_found \<Rightarrow> Panic ''region not found'')"
    using n unfolding extent_free_found_def rs Let_def scan
    by (cases "coalescing ex")
      (auto simp: classify_def list_remove_at_def list_insert_after_def)
  have w: "?found ?w nrp" if "start = er_start a" "endp = er_end a"
    using found that by (simp add: classify_def)
  have h: "?found ?h nrp" if "start = er_start a" "endp \<noteq> er_end a"
    using found that by (simp add: classify_def)
  have t: "?found ?t nrp" if "start \<noteq> er_start a" "endp = er_end a"
    using found that by (simp add: classify_def)
  have s: "?found ?s None" if "start \<noteq> er_start a" "endp \<noteq> er_end a"
    using found that by (simp add: classify_def)
  from a have "start = er_start a \<or> er_start a < start" "endp = er_end a \<or> endp < er_end a"
    by (auto simp: order_le_less)
  then consider "start = er_start a" "endp = er_end a" | "start = er_start a" "endp < er_end a"
    | "er_start a < start" "endp = er_end a" | "er_start a < start" "endp < er_end a"
    by blast
  then show ?thesis
  proof cases
    case 1
    with w show ?thesis by (intro exI [of _ ?w] exI [of _ nrp]) (simp add: remains_def)
  next
    case 2
    with h show ?thesis by (intro exI [of _ ?h] exI [of _ nrp]) (simp add: remains_def)
  next
    case 3
    with t show ?thesis by (intro exI [of _ ?t] exI [of _ nrp]) (simp add: remains_def)
  next
    case 4
    with s show ?thesis by (intro exI [of _ ?s] exI [of _ None]) (simp add: remains_def)
  qed
qed

lemma extent_free_found_correct:
  assumes inv: "extent_inv ex" and se: "start \<le> endp" and n: "coalescing ex \<longleftrightarrow> nrp \<noteq> None"
  shows "if freeable ex start endp
    then \<exists>ex'. extent_free_found ex start endp nrp = Return ex' (Inr ()) \<and> extent_inv ex' \<and>
      allocated ex' = allocated ex - {start..endp} \<and> \<not> has_flag (ex_flags ex') EXF_WANTED \<and>
      (has_flag (ex_flags ex) EXF_WANTED \<longrightarrow> Wchan_extent \<in> set (ex_wakeups ex'))
    else extent_free_found ex start endp nrp = Panic ''region not found''"
proof (cases "freeable ex start endp")
  case True
  then obtain a where a: "a \<in> set (ex_regions ex)" "er_start a \<le> start" "endp \<le> er_end a"
    "\<not> coalescing ex \<longrightarrow> er_start a = start \<and> er_end a = endp"
    using freeable_iff [OF inv se] by blast
  then obtain us vs where rs: "ex_regions ex = us @ a # vs" by (meson split_list)
  from inv have ok: "regions_ok (coalescing ex) (ex_start ex) (ex_end ex) (us @ a # vs)"
    by (simp add: extent_inv_def rs)
  have scan: "free_scan (has_flag (ex_flags ex) EXF_NOCOALESCE) (us @ a # vs) start endp 0 =
      classify a start endp (length us)"
    using free_scan_found [OF ok se a(2,3)] a(4) by (simp add: coalescing_def)
  obtain m where m: "coalescing ex \<Longrightarrow> nrp = Some m" using n by blast
  from a(4) have a4: "\<not> coalescing ex \<Longrightarrow> er_start a = start \<and> er_end a = endp" by blast
  from extent_free_found_result [OF rs scan a(2,3) a4 m] obtain ex2 np where
    r: "extent_free_found ex start endp nrp = Return (extent_free_done ex2 np) (Inr ())"
    and rs2: "ex_regions ex2 = us @ remains a start endp m @ vs"
    and fr: "ex_start ex2 = ex_start ex" "ex_end ex2 = ex_end ex" "coalescing ex2 = coalescing ex"
      "has_flag (ex_flags ex2) EXF_WANTED = has_flag (ex_flags ex) EXF_WANTED"
    by blast
  have "extent_inv ex2"
    using inv regions_ok_remains [OF ok a(2) se a(3)] by (simp add: extent_inv_def rs2 fr)
  moreover have "allocated ex2 = allocated ex - {start..endp}"
  proof -
    have "{start..endp} \<subseteq> {er_start a..er_end a}" using a(2,3) by auto
    from set_carve [OF this addrs_us_vs [OF ok]] show ?thesis
      unfolding allocated_def rs rs2 addrs_simps addrs_remains [OF a(2) se a(3)] .
  qed
  moreover have "extent_inv (extent_free_done ex2 np) = extent_inv ex2"
    "allocated (extent_free_done ex2 np) = allocated ex2"
    using same_space_inv [OF same_space_done(1)] by simp_all
  moreover have "Wchan_extent \<in> set (ex_wakeups (extent_free_done ex2 np))"
    if "has_flag (ex_flags ex) EXF_WANTED"
    using same_space_done(3) [of ex2 np] fr(4) that by auto
  ultimately show ?thesis
    using True r same_space_done(2) by simp
next
  case False
  then have "\<forall>r \<in> set (ex_regions ex). \<not> (er_start r \<le> start \<and> endp \<le> er_end r \<and>
      (has_flag (ex_flags ex) EXF_NOCOALESCE \<longrightarrow> er_start r = start \<and> er_end r = endp))"
    using freeable_iff [OF inv se] by (auto simp: coalescing_def)
  with False show ?thesis
    by (simp add: extent_free_found_def free_scan_not_found)
qed

lemma descriptor_coalescing:
  assumes "extent_alloc_region_descriptor pg ex flags = Descr ex1 rp"
  shows "extent_inv ex1 = extent_inv ex" "allocated ex1 = allocated ex"
    "freeable ex1 start endp = freeable ex start endp" "coalescing ex1 = coalescing ex"
  using descriptor_frame(1) [OF assms] same_space_inv [OF descriptor_frame(1) [OF assms]]
  by (simp_all add: same_space_def freeable_def)

lemma free_region_correct:
  assumes inv: "extent_inv ex" and endp: "endp = start + (sz - 1)"
    and rng: "start \<le> endp" "ex_start ex \<le> start" "endp \<le> ex_end ex"
    and descr: "coalescing ex \<longrightarrow> extent_alloc_region_descriptor pg ex flags = Descr ex1 nrp"
  shows "if freeable ex start endp
    then \<exists>ex'. extent_free diag pg ex start sz flags = Return ex' (Inr ()) \<and> extent_inv ex' \<and>
      allocated ex' = allocated ex - {start..endp} \<and> \<not> has_flag (ex_flags ex') EXF_WANTED \<and>
      (has_flag (ex_flags ex) EXF_WANTED \<longrightarrow> Wchan_extent \<in> set (ex_wakeups ex'))
    else extent_free diag pg ex start sz flags = Panic ''region not found''"
proof (cases "coalescing ex")
  case True
  with descr have d: "extent_alloc_region_descriptor pg ex flags = Descr ex1 nrp" by simp
  have r: "extent_free diag pg ex start sz flags = extent_free_found ex1 start endp (Some nrp)"
    using True rng d
    by (auto simp: extent_free_def coalescing_def Let_def simp flip: endp)
  show ?thesis
    using extent_free_found_correct [of ex1 start endp "Some nrp",
        unfolded descriptor_coalescing [OF d] descriptor_frame(2) [OF d]] inv rng(1) True
    by (simp add: r)
next
  case False
  then have r: "extent_free diag pg ex start sz flags = extent_free_found ex start endp None"
    using rng by (auto simp: extent_free_def coalescing_def Let_def simp flip: endp)
  show ?thesis
    using extent_free_found_correct [OF inv rng(1), of None] False by (simp add: r)
qed

text \<open>
  C4. \<open>extent_free\<close> on a well-formed extent, for a range inside it and with a
  region descriptor at hand when one is needed, gives back exactly the range it
  is passed, in whichever of its four cases the range falls: the region list
  stays well-formed, the allocated addresses lose the range and nothing else,
  and a process waiting for space is woken. A range that is not allocated
  (not a whole region, where coalescing is off) panics.
\<close>

theorem extent_free_correct:
  assumes inv: "extent_inv ex" and endp: "endp = start + (sz - 1)"
    and rng: "start \<le> endp" "ex_start ex \<le> start" "endp \<le> ex_end ex"
    and descr: "coalescing ex \<longrightarrow> extent_alloc_region_descriptor pg ex flags = Descr ex1 nrp"
  shows "if freeable ex start endp
    then \<exists>ex'. extent_free diag pg ex start sz flags = Return ex' (Inr ()) \<and> extent_inv ex' \<and>
      allocated ex' = allocated ex - {start..endp} \<and> \<not> has_flag (ex_flags ex') EXF_WANTED \<and>
      (has_flag (ex_flags ex) EXF_WANTED \<longrightarrow> Wchan_extent \<in> set (ex_wakeups ex'))
    else extent_free diag pg ex start sz flags = Panic ''region not found''"
  by (rule free_region_correct [OF assms])

text \<open>The hypotheses hold for the addresses 45 to 49, in the middle of a region.\<close>

theorem extent_free_correct_witness:
  "\<exists>ex'. extent_free True sample_pool sample_extent 45 5 0 = Return ex' (Inr ()) \<and>
     extent_inv ex' \<and> allocated ex' = {10..19} \<union> {40..59} - {45..49}"
proof -
  have "{45..49} \<subseteq> {10..19} \<union> {40..59 :: u_long}" by (rule le_supI2) simp
  then have "freeable sample_extent 45 49" by (simp only: freeable_def sample_facts if_True)
  then show ?thesis
    using extent_free_correct [OF sample_facts(1), of 49 45 5 sample_pool 0 sample_extent
      "sample_region\<lparr>er_flags := ER_ALLOC\<rparr>" True]
    by (simp add: sample_descr) blast
qed

section \<open>What a client relies on\<close>

text \<open>
  A range allocator hands out ranges of addresses and takes them back: a range
  it hands out was free, and exactly the range it is given becomes free.
\<close>

definition apart :: "('a::linorder \<times> 'a) \<Rightarrow> ('a \<times> 'a) \<Rightarrow> bool" where
  "apart r q \<longleftrightarrow> {fst r..snd r} \<inter> {fst q..snd q} = {}"

locale range_allocator =
  fixes inv :: "'s \<Rightarrow> bool"
    and taken :: "'s \<Rightarrow> 'a::linorder set"
    and take_range :: "'s \<Rightarrow> 'a \<Rightarrow> 'a \<Rightarrow> 's option"
    and give_range :: "'s \<Rightarrow> 'a \<Rightarrow> 'a \<Rightarrow> 's option"
  assumes take_range: "inv s \<Longrightarrow> take_range s a b = Some s' \<Longrightarrow>
      inv s' \<and> {a..b} \<inter> taken s = {} \<and> taken s' = taken s \<union> {a..b}"
    and give_range: "inv s \<Longrightarrow> give_range s a b = Some s' \<Longrightarrow>
      inv s' \<and> {a..b} \<subseteq> taken s \<and> taken s' = taken s - {a..b}"
begin

lemma take_give:
  assumes "inv s" "take_range s a b = Some s1" "give_range s1 a b = Some s2"
  shows "inv s2 \<and> taken s2 = taken s"
proof -
  from take_range [OF assms(1,2)] have "inv s1" "{a..b} \<inter> taken s = {}"
    "taken s1 = taken s \<union> {a..b}" by simp_all
  with give_range [OF _ assms(3)] show ?thesis by auto
qed

primrec take_all :: "'s \<Rightarrow> ('a \<times> 'a) list \<Rightarrow> 's option" where
  "take_all s [] = Some s"
| "take_all s (r # rs) =
     (case take_range s (fst r) (snd r) of None \<Rightarrow> None | Some s' \<Rightarrow> take_all s' rs)"

lemma take_all:
  assumes "inv s" "take_all s rs = Some s'"
  shows "inv s' \<and> taken s' = taken s \<union> (\<Union>r \<in> set rs. {fst r..snd r}) \<and>
    sorted_wrt apart rs \<and> (\<forall>r \<in> set rs. {fst r..snd r} \<inter> taken s = {})"
  using assms
proof (induction rs arbitrary: s)
  case (Cons r rs)
  then obtain s1 where t: "take_range s (fst r) (snd r) = Some s1" and a: "take_all s1 rs = Some s'"
    by (auto split: option.splits)
  from take_range [OF Cons.prems(1) t] have s1: "inv s1" "{fst r..snd r} \<inter> taken s = {}"
    "taken s1 = taken s \<union> {fst r..snd r}" by simp_all
  note ih = Cons.IH [OF s1(1) a]
  then have "\<forall>q \<in> set rs. apart r q"
    unfolding s1(3) apart_def by blast
  with ih s1(2) show ?case by (auto simp: s1(3))
qed simp

end

text \<open>
  The extent manager as such an allocator: the requests of \<open>extent_alloc_region\<close> with any flags but
  EX_CONFLICTOK, and of \<open>extent_free\<close> without flags (EX_NOWAIT), in a DIAGNOSTIC kernel.
\<close>

definition extent_take :: "pool_get \<Rightarrow> u_int \<Rightarrow> extent \<Rightarrow> u_long \<Rightarrow> u_long \<Rightarrow> extent option" where
  "extent_take pg flags ex a b =
     (if has_flag flags EX_CONFLICTOK then None
      else case extent_alloc_region True pg ex a (b - a + 1) flags of
        Return ex' (Inr _) \<Rightarrow> Some ex' | _ \<Rightarrow> None)"

definition extent_give :: "pool_get \<Rightarrow> extent \<Rightarrow> u_long \<Rightarrow> u_long \<Rightarrow> extent option" where
  "extent_give pg ex a b =
     (case extent_free True pg ex a (b - a + 1) 0 of
        Return ex' (Inr _) \<Rightarrow> Some ex' | _ \<Rightarrow> None)"

lemma word_span: "a + ((b - a + 1) - 1) = (b :: u_long)"
  by simp

lemma extent_take_law:
  assumes inv: "extent_inv ex" and t: "extent_take pg flags ex a b = Some ex'"
  shows "extent_inv ex' \<and> {a..b} \<inter> allocated ex = {} \<and> allocated ex' = allocated ex \<union> {a..b}"
proof -
  let ?r = "extent_alloc_region True pg ex a (b - a + 1) flags"
  from t have n: "\<not> has_flag flags EX_CONFLICTOK" and r: "?r = Return ex' (Inr ())"
    by (auto simp: extent_take_def split: outcome.splits sum.splits if_splits)
  with n have g: "1 \<le> b - a + 1" "a \<le> b" "ex_start ex \<le> a" "b \<le> ex_end ex"
    by (auto simp: extent_alloc_region_def Let_def not_less word_span one_le_word_iff split: if_splits)
  from r obtain ex1 rp where d: "extent_alloc_region_descriptor pg ex flags = Descr ex1 rp"
    by (auto simp: extent_alloc_region_def extent_alloc_region_descr_def Let_def
        split: if_splits descr_outcome.splits)
  from alloc_region_correct [OF inv n g(1) word_span [symmetric] g(2,3,4) d, of True] r
  show ?thesis by (auto simp: Let_def split: if_splits)
qed

lemma freeable_subset: "freeable ex a b \<Longrightarrow> {a..b} \<subseteq> allocated ex"
  by (auto simp: freeable_def allocated_def addrs_def split: if_splits)

lemma extent_give_law:
  assumes inv: "extent_inv ex" and t: "extent_give pg ex a b = Some ex'"
  shows "extent_inv ex' \<and> {a..b} \<subseteq> allocated ex \<and> allocated ex' = allocated ex - {a..b}"
proof -
  let ?r = "extent_free True pg ex a (b - a + 1) 0"
  from t have r: "?r = Return ex' (Inr ())"
    by (auto simp: extent_give_def split: outcome.splits sum.splits)
  then have g: "a \<le> b" "ex_start ex \<le> a" "b \<le> ex_end ex"
    by (auto simp: extent_free_def Let_def not_less word_span split: if_splits)
  have "\<exists>ex1 nrp. coalescing ex \<longrightarrow> extent_alloc_region_descriptor pg ex 0 = Descr ex1 nrp"
    using r by (auto simp: extent_free_def coalescing_def Let_def
        split: if_splits descr_outcome.splits)
  then obtain ex1 nrp where
    d: "coalescing ex \<longrightarrow> extent_alloc_region_descriptor pg ex 0 = Descr ex1 nrp" by blast
  from free_region_correct [OF inv word_span [symmetric] g d, of True] r
  show ?thesis by (auto dest: freeable_subset split: if_splits)
qed

interpretation ext: range_allocator extent_inv allocated "extent_take pg flags" "extent_give pg" for pg flags
  by unfold_locales (rule extent_take_law extent_give_law, assumption+)+

text \<open>
  C5. Whatever sequence of successful requests for regions a client makes of a well-formed
  extent, with any flags but EX_CONFLICTOK (which asks for overlapping regions), the ranges it was given
  do not overlap one another or what was
  allocated before, and together with it they are all that is allocated.
\<close>

theorem extent_take_all_disjoint:
  assumes "extent_inv ex" "range_allocator.take_all (extent_take pg flags) ex rs = Some ex'"
  shows "extent_inv ex' \<and> allocated ex' = allocated ex \<union> (\<Union>r \<in> set rs. {fst r..snd r}) \<and>
    sorted_wrt apart rs \<and> (\<forall>r \<in> set rs. {fst r..snd r} \<inter> allocated ex = {})"
  using assms by (rule ext.take_all)

text \<open>Two requests of the sample extent.\<close>

theorem extent_take_all_disjoint_witness:
  "\<exists>ex'. range_allocator.take_all (extent_take sample_pool EX_FAST) sample_extent [(20, 29), (70, 79)] =
      Some ex' \<and> allocated ex' = {10..19} \<union> {40..59} \<union> ({20..29} \<union> {70..79})"
proof -
  have "case extent_take sample_pool EX_FAST sample_extent 20 29 of None \<Rightarrow> False
      | Some e \<Rightarrow> extent_take sample_pool EX_FAST e 70 79 \<noteq> None"
    by code_simp
  then obtain ex' where t: "range_allocator.take_all (extent_take sample_pool EX_FAST) sample_extent
      [(20, 29), (70, 79)] = Some ex'"
    by (auto simp: ext.take_all.simps split: option.splits)
  with extent_take_all_disjoint [OF sample_facts(1) t] show ?thesis by simp
qed

text \<open>
  Allocating a region and freeing it again restores the allocated set.
\<close>

theorem extent_alloc_free_roundtrip:
  assumes "extent_inv ex"
    "extent_alloc_region True pg ex a (b - a + 1) 0 = Return ex1 (Inr ())"
    "extent_free True pg ex1 a (b - a + 1) 0 = Return ex2 (Inr ())"
  shows "extent_inv ex2 \<and> allocated ex2 = allocated ex"
  using assms ext.take_give [of ex pg 0 a b ex1 ex2]
  by (simp add: extent_take_def extent_give_def)

text \<open>Addresses 20 to 29 of the sample extent, allocated and freed.\<close>

theorem extent_alloc_free_roundtrip_witness:
  "\<exists>ex1 ex2. extent_alloc_region True sample_pool sample_extent 20 10 0 = Return ex1 (Inr ()) \<and>
     extent_free True sample_pool ex1 20 10 0 = Return ex2 (Inr ()) \<and>
     allocated ex2 = {10..19} \<union> {40..59}"
proof -
  have "case extent_alloc_region True sample_pool sample_extent 20 10 0 of
      Return ex1 (Inr _) \<Rightarrow>
        (case extent_free True sample_pool ex1 20 10 0 of Return _ (Inr _) \<Rightarrow> True | _ \<Rightarrow> False)
    | _ \<Rightarrow> False"
    by code_simp
  then obtain ex1 ex2 where
    a: "extent_alloc_region True sample_pool sample_extent 20 10 0 = Return ex1 (Inr ())"
    and f: "extent_free True sample_pool ex1 20 10 0 = Return ex2 (Inr ())"
    by (auto split: outcome.splits sum.splits)
  from extent_alloc_free_roundtrip [OF sample_facts(1), of sample_pool 20 29 ex1 ex2] a f
  show ?thesis by simp
qed

section \<open>Requests that tolerate conflicts\<close>

lemma find_conflict_skip:
  "\<forall>u \<in> set us. er_start u \<le> endp \<and> er_end u < start \<Longrightarrow>
   find_conflict (us @ rs) start endp i l =
     find_conflict rs start endp (i + length us) (if us = [] then l else Some (i + length us - 1))"
  by (induction us arbitrary: i l) (auto simp: not_less)

text \<open>
  With EX_CONFLICTOK, a request that lies strictly inside an allocated
  region below the end of a coalescing extent does not leave the region alone:
  the region is cut off after the request, and the addresses from the end
  of the request to the former end of the region are no longer allocated. (The
  comment in the code promises that all requested space ends up allocated and
  that nothing is to be done in this case.)
\<close>

theorem extent_conflictok_truncates:
  assumes inv: "extent_inv ex" and co: "coalescing ex"
    and rs: "ex_regions ex = us @ a # vs"
    and fl: "has_flag flags EX_CONFLICTOK" "\<not> has_flag flags EX_WAITSPACE"
    and inside: "er_start a \<le> start" "start \<le> endp" "endp < er_end a" "er_end a < ex_end ex"
  shows "\<exists>ex'. extent_alloc_region_start ex start sz endp flags myrp = Return ex' (Inr ()) \<and>
    ex_regions ex' = us @ a\<lparr>er_end := endp\<rparr> # vs \<and>
    allocated ex' = allocated ex - {endp + 1..er_end a}"
proof -
  let ?s = "er_end a + 1" and ?z = "endp - (er_end a + 1) + 1"
  let ?out = "extent_insert_and_optimize ex ?s ?z (Some (length us)) myrp"
  from inv have ok: "regions_ok True (ex_start ex) (ex_end ex) (us @ a # vs)"
    by (simp add: extent_inv_def co rs)
  have us: "\<forall>u \<in> set us. er_start u \<le> endp \<and> er_end u < start \<and> er_end u < ?s"
  proof
    fix u assume u: "u \<in> set us"
    with ok have "before True u a" by (simp add: regions_ok_simps)
    moreover from u have "region_in (ex_start ex) (ex_end ex) u" by (simp add: regions_ok_mem [OF ok])
    ultimately show "er_start u \<le> endp \<and> er_end u < start \<and> er_end u < ?s"
      using inside unat_succ_less [OF inside(4)]
      by (simp add: before_def region_in_def word_order_unat)
  qed
  have vs: "\<forall>v \<in> set vs. endp < er_start v \<and> er_start v \<noteq> endp + 1"
    using ok inside unat_succ_less [OF inside(3)]
    by (auto simp: regions_ok_simps before_def word_order_unat)
  have sa: "\<not> endp < er_start a" "start \<le> er_end a" "\<not> ?s \<le> er_end a"
    using inside unat_succ_less [OF inside(4)] by (auto simp: word_order_unat)
  have f1: "find_conflict (ex_regions ex) start endp 0 None = Inr (length us)"
    using find_conflict_skip [of us endp start] us sa by (simp add: rs)
  have f2: "find_conflict (ex_regions ex) ?s endp 0 None = Inl (Some (length us))"
    using find_conflict_skip [of us endp ?s] us vs sa by (cases vs) (simp_all add: rs)
  have "extent_alloc_region_start ex ?s ?z endp flags myrp = Return ?out (Inr ())"
    by (subst extent_alloc_region_start.simps) (simp only: f2 sum.case)
  moreover have "extent_alloc_region_start ex start sz endp flags myrp =
      extent_alloc_region_start ex ?s ?z endp flags myrp"
    by (subst extent_alloc_region_start.simps) (simp add: f1 [unfolded rs] fl inside rs Let_def)
  ultimately have r: "extent_alloc_region_start ex start sz endp flags myrp = Return ?out (Inr ())"
    by simp
  have out: "ex_regions ?out = us @ a\<lparr>er_end := endp\<rparr> # vs"
    using ex_regions_insert_Some [OF rs refl, of ?s ?z myrp] co vs
    by (cases vs) (auto simp: Let_def coalescing_def add.commute)
  have above: "endp + 1 \<le> x \<longleftrightarrow> endp < x" for x by (rule succ_le_iff [OF inside(3)])
  have cut: "{er_start a..endp} = {er_start a..er_end a} - {endp + 1..er_end a}"
  proof (rule set_eqI)
    fix x show "x \<in> {er_start a..endp} \<longleftrightarrow> x \<in> {er_start a..er_end a} - {endp + 1..er_end a}"
      unfolding Diff_iff atLeastAtMost_iff above using inside(3) by (meson less_imp_le not_less order_trans)
  qed
  have "{endp + 1..er_end a} \<subseteq> {er_start a..er_end a}"
    unfolding atLeastatMost_subset_iff above using inside by (meson above less_imp_le order_trans order_refl)
  note carve = set_carve [OF this addrs_us_vs [OF ok]]
  have "addrs (ex_regions ?out) = addrs us \<union> ({er_start a..endp} \<union> addrs vs)"
    unfolding out by simp
  also have "\<dots> = addrs us \<union> ({er_start a..er_end a} \<union> addrs vs) - {endp + 1..er_end a}"
    unfolding cut by (rule carve)
  finally have "allocated ?out = allocated ex - {endp + 1..er_end a}"
    unfolding allocated_def rs addrs_simps .
  with r out show ?thesis by blast
qed

text \<open>A request for 45 to 49 with EX_CONFLICTOK frees 50 to 59 in the sample extent.\<close>

theorem extent_conflictok_truncates_witness:
  "\<exists>ex'. extent_alloc_region_start sample_extent 45 5 49 EX_CONFLICTOK sample_region =
      Return ex' (Inr ()) \<and> allocated ex' = {10..19} \<union> {40..59} - {50..59}"
proof -
  let ?a = "sample_region\<lparr>er_start := 40, er_end := 59\<rparr>"
  have "ex_regions sample_extent = [sample_region] @ ?a # []"
    by (simp add: sample_extent_def)
  moreover have "has_flag EX_CONFLICTOK EX_CONFLICTOK" "\<not> has_flag EX_CONFLICTOK EX_WAITSPACE"
    by (simp_all add: has_flag_def extent_flag_defs)
  ultimately have "\<exists>ex'. extent_alloc_region_start sample_extent 45 5 49 EX_CONFLICTOK
      sample_region = Return ex' (Inr ()) \<and>
    ex_regions ex' = [sample_region] @ ?a\<lparr>er_end := 49\<rparr> # [] \<and>
    allocated ex' = allocated sample_extent - {49 + 1..er_end ?a}"
    by (rule extent_conflictok_truncates [OF sample_facts(1,2)]) simp_all
  then show ?thesis unfolding sample_facts by simp blast
qed

end
