(* ===== verification/Extent_Subregion.thy ===== *)
theory Extent_Subregion
  imports Extent_Region
begin

text \<open>
  Allocating a region of a given size in a subrange of an extent
  (\<open>extent_alloc_subregion\<close>): what it returns is free, aligned, inside the
  subrange and crosses no boundary line, and it fails only when no aligned
  placement exists. Alignment and boundary are powers of two, as the comment
  above \<open>extent_alloc_subregion\<close> requires; the end of the extent plus the alignment does
  not pass the top of the address space.
\<close>

section \<open>Alignment\<close>

lemma and_not_mask_eq:
  fixes w :: "'a::len word"
  shows "w AND NOT (mask k) = w - take_bit k w"
proof -
  have "w AND NOT (mask k) = push_bit k (drop_bit k w)"
    by (rule bit_word_eqI) (auto simp: bit_simps)
  also have "\<dots> = w - take_bit k w"
    using bits_ident [of k w] by (simp add: algebra_simps)
  finally show ?thesis .
qed

lemma unat_take_bit_add:
  "k \<le> 64 \<Longrightarrow> unat (take_bit k (a + b :: u_long)) = take_bit k (unat a + unat b)"
proof -
  assume k: "k \<le> 64"
  have "unat (a + b) = take_bit 64 (unat a + unat b)"
    by (simp add: unat_word_ariths take_bit_eq_mod)
  then show ?thesis using k by (simp add: unsigned_take_bit_eq min_absorb1)
qed

lemma take_bit_add_cong:
  fixes a b c :: u_long
  assumes "k \<le> 64" "take_bit k a = take_bit k b"
  shows "take_bit k (a + c) = take_bit k (b + c)"
proof -
  have "take_bit k (unat a) = take_bit k (unat b)"
    using arg_cong [OF assms(2), of unat] by (simp add: unsigned_take_bit_eq)
  then have "take_bit k (unat a + unat c) = take_bit k (unat b + unat c)"
    by (metis take_bit_add)
  then show ?thesis
    using assms(1) by (simp add: word_unat_eq_iff unat_take_bit_add)
qed

lemma extent_align_eq:
  assumes "align = 2 ^ k" and k: "k \<le> 64"
  shows "extent_align start align skew = start + take_bit k (skew - start)"
proof -
  let ?z = "start - skew"
  have m: "align - 1 = mask k" by (simp add: assms mask_eq_exp_minus_1)
  have n: "- align = NOT (mask k)" by (simp add: assms mask_eq_exp_minus_1 not_eq_complement)
  have "take_bit k (?z + mask k) = take_bit k (?z - 1 + 2 ^ k)"
    by (simp add: mask_eq_exp_minus_1 algebra_simps)
  also have "\<dots> = take_bit k (?z - 1)"
  proof -
    have "take_bit k (2 ^ k :: u_long) = 0" by (rule bit_word_eqI) (auto simp: bit_simps)
    then show ?thesis
      using take_bit_add_cong [OF k, of "2 ^ k" 0 "?z - 1"] by (simp add: add.commute)
  qed
  finally have t: "take_bit k (?z + mask k) = take_bit k (?z - 1)" .
  have "mask k - take_bit k (?z - 1) = take_bit k (NOT (?z - 1))"
    by (simp add: take_bit_not_eq_mask_diff)
  also have "NOT (?z - 1) = skew - start"
    by (simp add: not_eq_complement)
  finally have c: "mask k - take_bit k (?z - 1) = take_bit k (skew - start)" .
  have "extent_align start align skew = (?z + mask k) - take_bit k (?z + mask k) + skew"
    unfolding extent_align_def m n by (simp only: and_not_mask_eq)
  also have "\<dots> = start + (mask k - take_bit k (?z - 1))"
    unfolding t by (simp add: algebra_simps)
  finally show ?thesis by (simp only: c)
qed

text \<open>\<open>x\<close> is on the grid of the alignment.\<close>

definition aligned :: "nat \<Rightarrow> u_long \<Rightarrow> u_long \<Rightarrow> bool" where
  "aligned k skew x \<longleftrightarrow> take_bit k (x - skew) = 0"

lemma take_bit_diff_self: "take_bit k (a - take_bit k a) = (0 :: u_long)"
proof -
  have "take_bit k (a AND NOT (mask k)) = 0" by (rule bit_word_eqI) (auto simp: bit_simps)
  then show ?thesis by (simp only: and_not_mask_eq)
qed

lemma aligned_extent_align:
  assumes "align = 2 ^ k" "k \<le> 64"
  shows "aligned k skew (extent_align start align skew)"
proof -
  let ?w = "skew - start"
  have "take_bit k (?w - take_bit k ?w + (take_bit k ?w - ?w)) =
      take_bit k (0 + (take_bit k ?w - ?w))"
    by (rule take_bit_add_cong [OF assms(2)]) (simp add: take_bit_diff_self)
  moreover have "start + take_bit k ?w - skew = take_bit k ?w - ?w" by simp
  ultimately show ?thesis
    unfolding aligned_def extent_align_eq [OF assms] by (simp only: diff_add_cancel) simp
qed

lemma unat_take_bit_less: "k < 64 \<Longrightarrow> unat (take_bit k (w :: u_long)) < 2 ^ k"
  by (simp add: unsigned_take_bit_eq)

text \<open>Aligning up without wrapping gives the least aligned address that is not below.\<close>

lemma unat_extent_align:
  assumes "align = 2 ^ k" "k < 64" "unat start + 2 ^ k \<le> 2 ^ 64"
  shows "unat (extent_align start align skew) = unat start + unat (take_bit k (skew - start))"
proof -
  have "unat (take_bit k (skew - start)) < 2 ^ k" using assms(2) by (rule unat_take_bit_less)
  with assms(3) show ?thesis
    unfolding extent_align_eq [OF assms(1) less_imp_le [OF assms(2)]]
    by (intro unat_add_no_overflow) simp
qed

lemma extent_align_least:
  assumes "align = 2 ^ k" "k < 64" "aligned k skew x" "start \<le> x"
  shows "extent_align start align skew \<le> x"
proof -
  have "take_bit k (x - start) = take_bit k ((x - skew) + (skew - start))" by simp
  also have "\<dots> = take_bit k (skew - start)"
    using take_bit_add_cong [of k "x - skew" 0 "skew - start"] assms(2,3)
    by (simp add: aligned_def)
  finally have "unat (take_bit k (skew - start)) = take_bit k (unat (x - start))"
    by (metis unsigned_take_bit_eq)
  then have "take_bit k (skew - start) \<le> x - start"
    by (simp add: word_le_nat_alt take_bit_nat_less_eq_self)
  then have "unat (take_bit k (skew - start)) \<le> unat x - unat start"
    using assms(4) by (simp add: word_le_nat_alt unat_sub)
  moreover have "unat start \<le> unat x" using assms(4) by (simp add: word_le_nat_alt)
  moreover have "unat (start + take_bit k (skew - start)) \<le> unat start + unat (take_bit k (skew - start))"
    by (simp add: unat_word_ariths)
  ultimately show ?thesis
    unfolding extent_align_eq [OF assms(1) less_imp_le [OF assms(2)]] by (simp add: word_le_nat_alt)
qed

section \<open>Requests and candidates\<close>

text \<open>
  A request the DIAGNOSTIC checks let through, with \<open>2 ^ k\<close> as the alignment and
  no boundary (\<open>None\<close>) or the boundary \<open>2 ^ j\<close>, in an extent that ends at least the
  alignment below the end of the address space: the code does not check that \<open>extent_align\<close> wraps.
\<close>

definition request_ok ::
  "extent \<Rightarrow> u_long \<Rightarrow> u_long \<Rightarrow> u_long \<Rightarrow> nat \<Rightarrow> nat option \<Rightarrow> bool" where
  "request_ok ex substart subend sz k bnd \<longleftrightarrow>
     extent_inv ex \<and> ex_start ex \<le> substart \<and> substart \<le> ex_end ex \<and>
     ex_start ex \<le> subend \<and> subend \<le> ex_end ex \<and>
     1 \<le> sz \<and> sz - 1 \<le> subend - substart \<and>
     k < 64 \<and> unat (ex_end ex) + 2 ^ k < 2 ^ 64 \<and>
     (case bnd of None \<Rightarrow> True | Some j \<Rightarrow> j < 64 \<and> sz \<le> 2 ^ j)"

definition bnd_val :: "nat option \<Rightarrow> u_long" where
  "bnd_val bnd = (case bnd of None \<Rightarrow> 0 | Some j \<Rightarrow> 2 ^ j)"

definition bnd_base :: "extent \<Rightarrow> u_int \<Rightarrow> u_long" where
  "bnd_base ex flags = (if has_flag flags EX_BOUNDZERO then 0 else ex_start ex)"

text \<open>No boundary line lies in \<open>(x, endp]\<close>: a region may begin on one.\<close>

definition crosses :: "nat option \<Rightarrow> u_long \<Rightarrow> u_long \<Rightarrow> u_long \<Rightarrow> bool" where
  "crosses bnd base x endp \<longleftrightarrow>
     (case bnd of None \<Rightarrow> False | Some j \<Rightarrow> \<exists>l. x < l \<and> l \<le> endp \<and> aligned j base l)"

definition candidate ::
  "extent \<Rightarrow> u_long \<Rightarrow> u_long \<Rightarrow> u_long \<Rightarrow> nat \<Rightarrow> u_long \<Rightarrow> nat option \<Rightarrow> u_int \<Rightarrow> u_long \<Rightarrow>
   nat option \<Rightarrow> bool" where
  "candidate ex substart subend sz k skew bnd flags x lst \<longleftrightarrow>
     substart \<le> x \<and> x \<le> x + (sz - 1) \<and> x + (sz - 1) \<le> subend \<and>
     fits_at (ex_regions ex) x (x + (sz - 1)) lst \<and>
     (bnd = None \<longrightarrow> aligned k skew x) \<and>
     \<not> crosses bnd (bnd_base ex flags) x (x + (sz - 1))"

section \<open>The boundary check\<close>

lemma unat_mod_aligned:
  assumes "j < 64" "aligned j base l" "unat l < 2 ^ j"
  shows "unat l \<le> unat base"
proof -
  have "take_bit j (l - base + base) = take_bit j (0 + base)"
    by (rule take_bit_add_cong) (use assms in \<open>simp_all add: aligned_def\<close>)
  then have "unat (take_bit j l) = unat (take_bit j base)" by simp
  moreover have "unat (take_bit j l) = unat l"
    using assms(3) by (simp add: unsigned_take_bit_eq take_bit_nat_eq_self)
  ultimately show ?thesis
    by (metis take_bit_nat_less_eq_self unsigned_take_bit_eq)
qed

text \<open>
  The line after \<open>x\<close> is at \<open>dontcross + 1\<close>. Either it is found without
  wrapping, or there is none and \<open>dontcross\<close> is below the base.
\<close>

lemma next_line:
  assumes j: "j < 64" and dc: "dc = extent_align (x + 1) (2 ^ j) base - 1"
  shows "(x \<le> dc \<and> (\<forall>l. x < l \<and> l \<le> dc \<longrightarrow> \<not> aligned j base l) \<and>
      (dc + 1 \<noteq> 0 \<longrightarrow> aligned j base (dc + 1))) \<or>
    (dc < base \<and> (\<forall>l. x < l \<longrightarrow> \<not> aligned j base l))"
proof -
  let ?d = "take_bit j (base - (x + 1))"
  have d: "unat ?d < 2 ^ j" using j by (rule unat_take_bit_less)
  have e: "extent_align (x + 1) (2 ^ j) base = x + 1 + ?d"
    using j by (intro extent_align_eq) simp_all
  then have dc': "dc = x + ?d" by (simp add: dc)
  have al: "aligned j base (dc + 1)"
    using aligned_extent_align [OF refl, of j base "x + 1"] j by (simp add: dc)
  have below: "unat ?d \<le> unat l - unat x - 1" if "x < l" "aligned j base l" for l
  proof -
    have s: "unat (x + 1) = Suc (unat x)" using that(1) by (rule unat_succ_less)
    have "take_bit j (l - (x + 1)) = take_bit j ((l - base) + (base - (x + 1)))"
      by (simp add: algebra_simps)
    also have "\<dots> = ?d"
      using take_bit_add_cong [of j "l - base" 0 "base - (x + 1)"] that j by (simp add: aligned_def)
    finally have "unat ?d \<le> unat (l - (x + 1))"
      by (metis unsigned_take_bit_eq take_bit_nat_less_eq_self)
    with that(1) s show ?thesis by (simp add: unat_sub word_order_unat)
  qed
  show ?thesis
  proof (cases "unat x + unat ?d < 2 ^ 64")
    case True
    then have u: "unat dc = unat x + unat ?d"
      unfolding dc' by (intro unat_add_no_overflow) simp
    have "\<not> aligned j base l" if "x < l" "l \<le> dc" for l
      using below [OF that(1)] that u by (auto simp: word_order_unat)
    with u al show ?thesis by (simp add: word_le_nat_alt)
  next
    case False
    have u: "unat dc = unat x + unat ?d - 2 ^ 64"
      unfolding dc' using False d j unat_u_long_less [of x] unat_u_long_less [of ?d]
      by (simp add: unat_word_ariths mod_if)
    have "unat dc < unat ?d" using u unat_u_long_less [of x] False by linarith
    then have l: "unat (dc + 1) = Suc (unat dc)" and "unat (dc + 1) < 2 ^ j"
      using unat_succ_less [of dc ?d] d by (simp_all add: word_less_nat_alt)
    with unat_mod_aligned [OF j al] have "dc < base" by (simp add: word_less_nat_alt)
    moreover have "\<not> aligned j base l" if "x < l" for l
      using below [OF that] False unat_u_long_less [of l] that by (auto simp: word_less_nat_alt)
    ultimately show ?thesis by blast
  qed
qed

lemma line_gap:
  assumes j: "j < 64" and "aligned j base a" "aligned j base l" "a < l"
  shows "2 ^ j \<le> unat (l - a)"
proof (rule ccontr)
  assume "\<not> ?thesis"
  then have "unat (take_bit j (l - a)) = unat (l - a)"
    by (simp add: unsigned_take_bit_eq take_bit_nat_eq_self)
  moreover have "take_bit j (base - a + (a - base)) = take_bit j (base - a + 0)"
    using take_bit_add_cong [of j "a - base" 0 "base - a"] assms by (simp add: aligned_def add.commute)
  then have "take_bit j (base - a) = 0" by simp
  moreover have "take_bit j ((l - base) + (base - a)) = take_bit j (0 + (base - a))"
    using assms by (intro take_bit_add_cong) (simp_all add: aligned_def)
  ultimately have "unat (l - a) = 0" by simp
  with assms(4) show False by (simp add: unat_sub word_order_unat)
qed

lemma boundary_check_line:
  assumes j: "j < 64" and dc: "dc = extent_align (x + 1) (2 ^ j) (bnd_base ex flags) - 1"
  shows "boundary_check ex sz (bnd_val (Some j)) flags fits x =
     (if dc < ex_start ex then boundary_room ex sz x (ex_end ex)
      else if x + (sz - 1) > dc then (if \<not> fits (dc + 1) then Bnd_skip else boundary_room ex sz (dc + 1) (dc + 2 ^ j))
      else boundary_room ex sz x dc)"
proof -
  have "(2 ^ j :: u_long) \<noteq> 0" using j by (simp add: exp_eq_zero_iff)
  then show ?thesis unfolding boundary_check_def bnd_val_def dc bnd_base_def Let_def option.case by (simp only: if_False)
qed

lemma boundary_check_ok:
  assumes bc: "boundary_check ex sz (bnd_val bnd) flags fits x = Bnd_ok ns"
    and bnd: "case bnd of None \<Rightarrow> True | Some j \<Rightarrow> j < 64 \<and> sz \<le> 2 ^ j" and sz: "1 \<le> sz"
    and x: "ex_start ex \<le> x" and fits: "fits x"
    and nowrap: "\<And>y. fits y \<Longrightarrow> y \<le> y + (sz - 1)"
  shows "x \<le> ns \<and> fits ns \<and> (bnd = None \<longrightarrow> ns = x) \<and>
    \<not> crosses bnd (bnd_base ex flags) ns (ns + (sz - 1))"
proof (cases bnd)
  case None
  with bc fits show ?thesis by (simp add: boundary_check_def bnd_val_def crosses_def)
next
  case (Some j)
  with bnd have j: "j < 64" "sz \<le> 2 ^ j" by simp_all
  let ?base = "bnd_base ex flags"
  define dc where "dc = extent_align (x + 1) (2 ^ j) ?base - 1"
  have base: "?base = 0 \<or> ?base = ex_start ex" by (simp add: bnd_base_def)
  note bc' = bc [unfolded Some boundary_check_line [OF j(1) dc_def]]
  note line = next_line [OF j(1) dc_def]
  consider (low) "dc < ex_start ex" "ns = x" | (cut) "\<not> dc < ex_start ex" "dc < x + (sz - 1)"
      "fits (dc + 1)" "ns = dc + 1" | (fit) "\<not> dc < ex_start ex" "\<not> dc < x + (sz - 1)" "ns = x"
    using bc' by (auto simp: boundary_room_def split: if_splits)
  then show ?thesis
  proof cases
    case low
    with x have "\<not> x \<le> dc" by order
    with line low fits show ?thesis by (auto simp: crosses_def Some)
  next
    case cut
    have "\<not> dc < ?base" using base cut(1) by auto
    with line have xd: "x \<le> dc" and al: "dc + 1 \<noteq> 0 \<longrightarrow> aligned j ?base (dc + 1)" by auto
    have s: "unat (dc + 1) = Suc (unat dc)" using cut(2) by (rule unat_succ_less)
    then have al': "aligned j ?base ns" using al cut(4) by auto
    have "\<not> aligned j ?base l" if "ns < l" "l \<le> ns + (sz - 1)" for l
    proof
      assume "aligned j ?base l"
      then have "2 ^ j \<le> unat (l - ns)" using line_gap [OF j(1) al' _ that(1)] by simp
      moreover have "unat (ns + (sz - 1)) = unat ns + unat (sz - 1)"
        using nowrap [OF cut(3)] cut(4) by (intro unat_add_no_wrap) simp
      moreover have "unat (sz - 1) < 2 ^ j"
        using sz j unat_sub [OF sz] unat_exp_u_long [OF j(1)] by (simp add: word_le_nat_alt)
      ultimately show False using that by (simp add: word_order_unat unat_sub)
    qed
    with cut xd s show ?thesis by (auto simp: crosses_def Some word_le_nat_alt)
  next
    case fit
    have "\<not> dc < ?base" using base fit(1) by auto
    with line have "\<forall>l. x < l \<and> l \<le> dc \<longrightarrow> \<not> aligned j ?base l" by auto
    with fit fits show ?thesis by (auto simp: crosses_def Some)
  qed
qed

section \<open>The search\<close>

definition best_ok ::
  "extent \<Rightarrow> u_long \<Rightarrow> u_long \<Rightarrow> u_long \<Rightarrow> nat \<Rightarrow> u_long \<Rightarrow> nat option \<Rightarrow> u_int \<Rightarrow> best \<Rightarrow> bool" where
  "best_ok ex substart subend sz k skew bnd flags b \<longleftrightarrow>
     (case b of (bestovh, beststart, bestlast) \<Rightarrow>
        bestovh = 0 \<or> candidate ex substart subend sz k skew bnd flags beststart bestlast)"

text \<open>A chunk test that only lets placements through that fit at position \<open>lst\<close>.\<close>

definition sound_fits ::
  "extent \<Rightarrow> u_long \<Rightarrow> u_long \<Rightarrow> u_long \<Rightarrow> nat option \<Rightarrow> (u_long \<Rightarrow> bool) \<Rightarrow> bool" where
  "sound_fits ex subend sz newstart lst fits \<longleftrightarrow>
     (\<forall>y. fits y \<longrightarrow> y \<le> y + (sz - 1) \<and> y + (sz - 1) \<le> subend) \<and>
     (\<forall>y \<ge> newstart. fits y \<longrightarrow> fits_at (ex_regions ex) y (y + (sz - 1)) lst)"

lemma try_chunk_sound:
  assumes req: "request_ok ex substart subend sz k bnd"
    and sound: "sound_fits ex subend sz newstart lst fits"
    and ns: "substart \<le> newstart" "aligned k skew newstart"
    and best: "best_ok ex substart subend sz k skew bnd flags b"
  shows "case try_chunk ex sz (bnd_val bnd) flags fits ovh newstart lst b of
      Chunk_found x \<Rightarrow> candidate ex substart subend sz k skew bnd flags x lst
    | Chunk_fail \<Rightarrow> True
    | Chunk_next b' \<Rightarrow> best_ok ex substart subend sz k skew bnd flags b'"
proof (cases "fits newstart")
  case False
  with best show ?thesis by (simp add: try_chunk_def)
next
  case True
  have cand: "candidate ex substart subend sz k skew bnd flags x lst"
    if "boundary_check ex sz (bnd_val bnd) flags fits newstart = Bnd_ok x" for x
  proof -
    have "newstart \<le> x \<and> fits x \<and> (bnd = None \<longrightarrow> x = newstart) \<and>
        \<not> crosses bnd (bnd_base ex flags) x (x + (sz - 1))"
      using req sound ns True
      by (intro boundary_check_ok [OF that]) (auto simp: request_ok_def sound_fits_def)
    with sound ns show ?thesis by (auto simp: candidate_def sound_fits_def)
  qed
  show ?thesis
    using True best cand
    by (auto simp: try_chunk_def best_ok_def better_def Let_def split: bnd.splits prod.splits)
qed

text \<open>The last position of a prefix of \<open>i\<close> regions.\<close>

definition pos_before :: "nat \<Rightarrow> nat option" where
  "pos_before i = (if i = 0 then None else Some (i - 1))"

lemma place_pos_before [simp]: "place (pos_before i) = i"
  by (simp add: place_def pos_before_def)

lemma pos_before_Suc [simp]: "pos_before (Suc i) = Some i"
  by (simp add: pos_before_def)

lemma sound_fits_chunk:
  assumes ok: "regions_ok co lo hi (ex_regions ex)" and rs: "drop i (ex_regions ex) = rp # rs"
    and before: "\<forall>r \<in> set (take i (ex_regions ex)). er_end r < newstart"
    and sz: "1 \<le> sz" and se: "er_start rp \<le> subend"
  shows "sound_fits ex subend sz newstart (pos_before i) (\<lambda>y. LE_OV y sz (er_start rp))"
proof -
  have drop_ok: "regions_ok co lo hi (rp # rs)"
    using ok by (metis append_take_drop_id regions_ok_append rs)
  have "y \<le> y + (sz - 1) \<and> y + (sz - 1) < er_start rp" if "LE_OV y sz (er_start rp)" for y
  proof -
    have a: "unat (y + sz) = unat y + unat sz" "unat y + unat sz \<le> unat (er_start rp)"
      using that unat_add_no_wrap [of y sz] by (simp_all add: LE_OV_def word_le_nat_alt)
    then have "unat (y + (sz - 1)) = unat y + unat (sz - 1)"
      using sz unat_u_long_less [of "er_start rp"] unat_sub [OF sz]
      by (intro unat_add_no_overflow) simp
    with a sz unat_sub [OF sz] show ?thesis by (auto simp: word_order_unat)
  qed
  moreover have "er_start rp \<le> er_start r" if "r \<in> set (rp # rs)" for r
    using drop_ok that by (auto simp: regions_ok_Cons region_in_def before_def word_order_unat)
  moreover have "i \<le> length (ex_regions ex)"
    using rs by (metis drop_all linear list.distinct(1))
  ultimately show ?thesis
    using before se
    by (auto simp: sound_fits_def fits_at_def rs intro: le_less_trans less_le_trans)
      (meson less_imp_le order_trans | meson less_le_trans le_less_trans)+
qed

text \<open>
  The state of the loop at region \<open>i\<close>: everything before it ends below
  \<open>newstart\<close>, which is an aligned address of the subrange or above it.
\<close>

definition loop_state ::
  "extent \<Rightarrow> u_long \<Rightarrow> nat \<Rightarrow> u_long \<Rightarrow> nat \<Rightarrow> u_long \<Rightarrow> bool" where
  "loop_state ex substart k skew i newstart \<longleftrightarrow>
     i \<le> length (ex_regions ex) \<and> substart \<le> newstart \<and> aligned k skew newstart \<and>
     (\<forall>r \<in> set (take i (ex_regions ex)). er_end r < newstart)"

lemma next_start:
  assumes req: "request_ok ex substart subend sz k bnd"
    and r: "r \<in> set (ex_regions ex)"
  shows "er_end r < extent_align (er_end r + 1) (2 ^ k) skew"
proof -
  from req have k: "k < 64" "unat (ex_end ex) + 2 ^ k < 2 ^ 64"
    and "region_in (ex_start ex) (ex_end ex) r"
    using r regions_ok_mem by (auto simp: request_ok_def extent_inv_def)
  then have le: "unat (er_end r) \<le> unat (ex_end ex)" by (simp add: region_in_def word_le_nat_alt)
  have s: "unat (er_end r + 1) = unat (er_end r) + 1"
  proof -
    have "1 \<le> (2 :: nat) ^ k" by simp
    with le k(2) have "unat (er_end r) + 1 < 2 ^ 64" by linarith
    then show ?thesis by (subst unat_add_no_overflow) simp_all
  qed
  then have "unat (extent_align (er_end r + 1) (2 ^ k) skew) \<ge> unat (er_end r) + 1"
    using unat_extent_align [OF refl k(1), of "er_end r + 1" skew] le k(2) by simp
  then show ?thesis by (simp add: word_less_nat_alt)
qed

lemma next_start_above:
  assumes req: "request_ok ex substart subend sz k bnd" and r: "r \<in> set (ex_regions ex)"
  shows "ex_start ex \<le> extent_align (er_end r + 1) (2 ^ k) skew"
proof -
  have "region_in (ex_start ex) (ex_end ex) r"
    using req r regions_ok_mem by (auto simp: request_ok_def extent_inv_def)
  then have "ex_start ex \<le> er_end r" by (auto simp: region_in_def)
  with next_start [OF req r, of skew] show ?thesis by order
qed

lemma loop_state_Suc:
  assumes req: "request_ok ex substart subend sz k bnd"
    and st: "loop_state ex substart k skew i newstart"
    and rs: "drop i (ex_regions ex) = rp # rs" and le: "substart \<le> er_end rp"
  shows "loop_state ex substart k skew (Suc i) (extent_align (er_end rp + 1) (2 ^ k) skew)"
    and "drop (Suc i) (ex_regions ex) = rs"
proof -
  let ?rs = "ex_regions ex" and ?n = "extent_align (er_end rp + 1) (2 ^ k) skew"
  have i: "i < length ?rs" using rs by (metis drop_all linorder_not_le list.distinct(1))
  have rp: "?rs ! i = rp" using rs i by (metis Cons_nth_drop_Suc list.inject)
  have lt: "er_end rp < ?n" using next_start [OF req] i rp by (metis nth_mem)
  have ok: "regions_ok (coalescing ex) (ex_start ex) (ex_end ex) (take i ?rs @ rp # rs)"
    using req rs by (metis append_take_drop_id request_ok_def extent_inv_def)
  then have "er_end r < ?n" if "r \<in> set (take i ?rs)" for r
    using that lt by (auto simp: regions_ok_simps before_def region_in_def word_order_unat)
  moreover have "take (Suc i) ?rs = take i ?rs @ [rp]" using i rp by (simp add: take_Suc_conv_app_nth)
  moreover have "k \<le> 64" using req by (simp add: request_ok_def)
  ultimately show "loop_state ex substart k skew (Suc i) ?n"
    using i lt le aligned_extent_align [OF refl] by (auto simp: loop_state_def)
  show "drop (Suc i) ?rs = rs" using rs by (metis drop_Suc list.sel(3) tl_drop)
qed

text \<open>What the search promises of its result.\<close>

definition search_sound ::
  "extent \<Rightarrow> u_long \<Rightarrow> u_long \<Rightarrow> u_long \<Rightarrow> nat \<Rightarrow> u_long \<Rightarrow> nat option \<Rightarrow> u_int \<Rightarrow> sub_res \<Rightarrow> bool" where
  "search_sound ex substart subend sz k skew bnd flags r \<longleftrightarrow>
     (case r of
        Sub_found x lst \<Rightarrow> candidate ex substart subend sz k skew bnd flags x lst
      | Sub_fail b \<Rightarrow> best_ok ex substart subend sz k skew bnd flags b
      | Sub_end ns lst b exend \<Rightarrow>
          best_ok ex substart subend sz k skew bnd flags b \<and>
          (\<exists>i. lst = pos_before i \<and> loop_state ex substart k skew i ns \<and>
            (\<forall>r \<in> set (drop i (ex_regions ex)). subend < er_start r)))"

lemma sub_loop_sound:
  assumes req: "request_ok ex substart subend sz k bnd"
    and st: "loop_state ex substart k skew i newstart"
    and rest: "rest = drop i (ex_regions ex)" "\<forall>r \<in> set rest. substart \<le> er_end r"
    and best: "best_ok ex substart subend sz k skew bnd flags b"
  shows "search_sound ex substart subend sz k skew bnd flags
    (sub_loop ex subend sz (2 ^ k) skew (bnd_val bnd) flags rest i newstart (pos_before i) b)"
  using st rest best
proof (induction rest arbitrary: i newstart b)
  case Nil
  then show ?case by (auto simp: search_sound_def intro!: exI [of _ i])
next
  case (Cons rp rs)
  let ?n = "extent_align (er_end rp + 1) (2 ^ k) skew"
  have ok: "regions_ok (coalescing ex) (ex_start ex) (ex_end ex) (ex_regions ex)"
    and sz: "1 \<le> sz" using req by (simp_all add: request_ok_def extent_inv_def)
  have dr: "drop i (ex_regions ex) = rp # rs" using Cons.prems(2) by simp
  show ?case
  proof (cases "er_start rp > subend")
    case True
    have "regions_ok (coalescing ex) (ex_start ex) (ex_end ex) (rp # rs)"
      using ok dr by (metis append_take_drop_id regions_ok_append)
    then have "\<forall>r \<in> set (rp # rs). subend < er_start r"
      using True by (auto simp: regions_ok_Cons region_in_def before_def word_order_unat)
    then have "\<exists>j. pos_before i = pos_before j \<and> loop_state ex substart k skew j newstart \<and>
        (\<forall>r \<in> set (drop j (ex_regions ex)). subend < er_start r)"
      using Cons.prems(1) unfolding dr [symmetric] by blast
    with True Cons.prems(4) show ?thesis by (simp add: search_sound_def)
  next
    case False
    have "substart \<le> er_end rp" using Cons.prems(3) by simp
    note next_state = loop_state_Suc [OF req Cons.prems(1) dr this]
    have "rp \<in> set (ex_regions ex)" using dr by (metis in_set_dropD list.set_intros(1))
    with next_start [OF req] have up: "\<not> ?n < er_end rp" by (meson less_imp_not_less)
    have ih: "search_sound ex substart subend sz k skew bnd flags
        (sub_loop ex subend sz (2 ^ k) skew (bnd_val bnd) flags rs (Suc i) ?n (Some i) b')"
      if "best_ok ex substart subend sz k skew bnd flags b'" for b'
      using Cons.IH [OF next_state(1) next_state(2) [symmetric] _ that] Cons.prems(3)
      unfolding pos_before_Suc by simp
    have "sound_fits ex subend sz newstart (pos_before i) (\<lambda>y. LE_OV y sz (er_start rp))"
      using sound_fits_chunk [OF ok dr _ sz] Cons.prems(1) False by (simp add: loop_state_def)
    from try_chunk_sound [OF req this _ _ Cons.prems(4), where ovh = "\<lambda>ns. er_start rp - ns - sz"]
      Cons.prems(1)
    have "case try_chunk ex sz (bnd_val bnd) flags (\<lambda>y. LE_OV y sz (er_start rp))
        (\<lambda>ns. er_start rp - ns - sz) newstart (pos_before i) b of
        Chunk_found x \<Rightarrow> candidate ex substart subend sz k skew bnd flags x (pos_before i)
      | Chunk_fail \<Rightarrow> True
      | Chunk_next b' \<Rightarrow> best_ok ex substart subend sz k skew bnd flags b'"
      by (simp add: loop_state_def)
    with False up ih Cons.prems(4) show ?thesis
      by (auto simp: search_sound_def Let_def split: chunk.splits)
  qed
qed

lemma take_end_le:
  assumes ok: "regions_ok co lo hi rs" and n: "n \<noteq> 0" "n \<le> length rs" and r: "r \<in> set (take n rs)"
  shows "er_end r \<le> er_end (rs ! (n - 1))"
proof -
  let ?a = "rs ! (n - 1)"
  from n have t: "take n rs = take (n - 1) rs @ [?a]"
    using take_Suc_conv_app_nth [of "n - 1" rs] by simp
  have "regions_ok co lo hi (take n rs)" using ok by (metis append_take_drop_id regions_ok_append)
  with t r show ?thesis
    by (auto simp: regions_ok_simps before_def region_in_def word_order_unat)
qed

lemma drop_start_ge:
  assumes "regions_ok co lo hi rs" "n = length (takeWhile (\<lambda>r. er_start r < x) rs)"
    "r \<in> set (drop n rs)"
  shows "x \<le> er_start r"
proof -
  let ?P = "\<lambda>r. er_start r < x"
  have d: "drop n rs = dropWhile ?P rs" by (simp add: assms(2) dropWhile_eq_drop)
  from assms(3) obtain h ts where h: "drop n rs = h # ts"
    by (metis list.set_cases)
  then have "\<not> ?P h" using d hd_dropWhile [of ?P rs] by simp
  moreover have "regions_ok co lo hi (h # ts)"
    using assms(1) h by (metis append_take_drop_id regions_ok_append)
  ultimately show ?thesis
    using assms(3) h by (auto simp: regions_ok_Cons region_in_def before_def word_order_unat)
qed

definition first_start :: "extent \<Rightarrow> nat \<Rightarrow> u_long \<Rightarrow> nat \<Rightarrow> u_long \<Rightarrow> u_long" where
  "first_start ex k skew n newstart =
     (if n \<noteq> 0 \<and> er_end (ex_regions ex ! (n - 1)) \<ge> newstart
      then extent_align (er_end (ex_regions ex ! (n - 1)) + 1) (2 ^ k) skew
      else newstart)"

lemma align_substart:
  assumes "request_ok ex substart subend sz k bnd"
  shows "substart \<le> extent_align substart (2 ^ k) skew"
proof -
  have "unat substart + 2 ^ k \<le> 2 ^ 64" "k < 64"
    using assms by (auto simp: request_ok_def word_le_nat_alt)
  from unat_extent_align [OF refl this(2,1), of skew] show ?thesis by (simp add: word_le_nat_alt)
qed

lemma initial_state:
  assumes req: "request_ok ex substart subend sz k bnd"
    and ns: "newstart = extent_align substart (2 ^ k) skew"
    and n: "n = length (takeWhile (\<lambda>r. er_start r < newstart) (ex_regions ex))"
  shows "loop_state ex substart k skew n (first_start ex k skew n newstart)"
    and "\<forall>r \<in> set (drop n (ex_regions ex)). substart \<le> er_end r"
proof -
  let ?rs = "ex_regions ex"
  have ok: "regions_ok (coalescing ex) (ex_start ex) (ex_end ex) ?rs" and k: "k \<le> 64"
    using req by (simp_all add: request_ok_def extent_inv_def)
  have le: "substart \<le> newstart" unfolding ns by (rule align_substart [OF req])
  have nl: "n \<le> length ?rs" unfolding n by (rule length_takeWhile_le)
  have al: "aligned k skew (extent_align x (2 ^ k) skew)" for x
    by (rule aligned_extent_align [OF refl k])
  show "loop_state ex substart k skew n (first_start ex k skew n newstart)"
  proof (cases "n \<noteq> 0 \<and> er_end (?rs ! (n - 1)) \<ge> newstart")
    case True
    let ?a = "?rs ! (n - 1)"
    have "?a \<in> set ?rs" using True nl by (intro nth_mem) auto
    from next_start [OF req this] have lt: "er_end ?a < extent_align (er_end ?a + 1) (2 ^ k) skew" .
    have "er_end r < extent_align (er_end ?a + 1) (2 ^ k) skew" if "r \<in> set (take n ?rs)" for r
      using take_end_le [OF ok _ nl that] True lt by (meson le_less_trans)
    moreover have "substart \<le> extent_align (er_end ?a + 1) (2 ^ k) skew"
      using le True lt by (meson less_imp_le order_trans)
    ultimately show ?thesis using True nl al by (simp add: loop_state_def first_start_def)
  next
    case False
    then have "er_end r < newstart" if "r \<in> set (take n ?rs)" for r
      using take_end_le [OF ok _ nl that] that by (cases "n = 0") (auto simp: not_le)
    with False nl le al [of substart] show ?thesis
      by (auto simp: loop_state_def first_start_def ns)
  qed
  show "\<forall>r \<in> set (drop n ?rs). substart \<le> er_end r"
  proof
    fix r assume r: "r \<in> set (drop n ?rs)"
    then have "region_in (ex_start ex) (ex_end ex) r" using regions_ok_mem [OF ok] in_set_dropD by metis
    with drop_start_ge [OF ok n r] le show "substart \<le> er_end r" by (auto simp: region_in_def)
  qed
qed

lemma sub_search_eq:
  "n = length (takeWhile (\<lambda>r. er_start r < newstart) (ex_regions ex)) \<Longrightarrow>
   sub_search ex subend sz (2 ^ k) skew boundary flags newstart =
     sub_final ex subend sz boundary flags
       (sub_loop ex subend sz (2 ^ k) skew boundary flags (drop n (ex_regions ex)) n
         (first_start ex k skew n newstart) (pos_before n) no_best)"
  by (simp add: sub_search_def Let_def first_start_def pos_before_def)

lemma sound_fits_final:
  assumes "loop_state ex substart k skew i ns"
    and "\<forall>r \<in> set (drop i (ex_regions ex)). subend < er_start r"
  shows "sound_fits ex subend sz ns (pos_before i) (\<lambda>y. LE_OV y (sz - 1) subend)"
  using assms
  by (auto simp: sound_fits_def LE_OV_def loop_state_def fits_at_def)

lemma sub_search_sound:
  assumes req: "request_ok ex substart subend sz k bnd"
    and ns: "newstart = extent_align substart (2 ^ k) skew"
  shows "case sub_search ex subend sz (2 ^ k) skew (bnd_val bnd) flags newstart of
      Inl b \<Rightarrow> best_ok ex substart subend sz k skew bnd flags b
    | Inr (x, lst) \<Rightarrow> candidate ex substart subend sz k skew bnd flags x lst"
proof -
  define n where "n = length (takeWhile (\<lambda>r. er_start r < newstart) (ex_regions ex))"
  define r where "r = sub_loop ex subend sz (2 ^ k) skew (bnd_val bnd) flags
    (drop n (ex_regions ex)) n (first_start ex k skew n newstart) (pos_before n) no_best"
  have "search_sound ex substart subend sz k skew bnd flags r"
    unfolding r_def
    by (rule sub_loop_sound [OF req initial_state(1) [OF req ns n_def] refl
          initial_state(2) [OF req ns n_def]]) (simp add: best_ok_def no_best_def)
  moreover have "case sub_final ex subend sz (bnd_val bnd) flags r of
      Inl b \<Rightarrow> best_ok ex substart subend sz k skew bnd flags b
    | Inr (x, lst) \<Rightarrow> candidate ex substart subend sz k skew bnd flags x lst"
    if s: "search_sound ex substart subend sz k skew bnd flags r"
  proof (cases r)
    case (Sub_end ns' lst b exend)
    with s obtain i where b: "best_ok ex substart subend sz k skew bnd flags b"
      and i: "lst = pos_before i" "loop_state ex substart k skew i ns'"
        "\<forall>r \<in> set (drop i (ex_regions ex)). subend < er_start r"
      by (auto simp: search_sound_def)
    from try_chunk_sound [OF req sound_fits_final [OF i(2,3)] _ _ b,
        where ovh = "\<lambda>ns. exend - ns - (sz - 1)"] i(1,2)
    have "case try_chunk ex sz (bnd_val bnd) flags (\<lambda>y. LE_OV y (sz - 1) subend)
        (\<lambda>ns. exend - ns - (sz - 1)) ns' lst b of
        Chunk_found x \<Rightarrow> candidate ex substart subend sz k skew bnd flags x lst
      | Chunk_fail \<Rightarrow> True
      | Chunk_next b' \<Rightarrow> best_ok ex substart subend sz k skew bnd flags b'"
      unfolding i(1) by (simp add: loop_state_def)
    with b show ?thesis by (auto simp: sub_final_def Sub_end split: chunk.splits)
  qed (use s in \<open>simp_all add: search_sound_def sub_final_def\<close>)
  ultimately show ?thesis unfolding sub_search_eq [OF n_def] r_def by blast
qed

section \<open>What is allocated\<close>

lemma request_ok_descr:
  assumes "request_ok ex substart subend sz k bnd" "same_space ex ex1"
  shows "request_ok ex1 substart subend sz k bnd"
  using assms same_space_inv [OF assms(2)] by (simp add: request_ok_def same_space_def)

lemma insert_candidate:
  assumes req: "request_ok ex substart subend sz k bnd"
    and c: "candidate ex substart subend sz k skew bnd flags x lst"
  shows "extent_inv (extent_insert_and_optimize ex x sz lst rp)"
    and "allocated (extent_insert_and_optimize ex x sz lst rp) = allocated ex \<union> {x..x + (sz - 1)}"
    and "{x..x + (sz - 1)} \<inter> allocated ex = {}"
proof -
  from c have f: "fits_at (ex_regions ex) x (x + (sz - 1)) lst" by (simp add: candidate_def)
  have "ex_start ex \<le> x" "x \<le> x + (sz - 1)" "x + (sz - 1) \<le> ex_end ex"
    using req c by (auto simp: request_ok_def candidate_def)
  with insert_extent [OF _ f] req
  show "extent_inv (extent_insert_and_optimize ex x sz lst rp)"
    "allocated (extent_insert_and_optimize ex x sz lst rp) = allocated ex \<union> {x..x + (sz - 1)}"
    by (simp_all add: request_ok_def)
  show "{x..x + (sz - 1)} \<inter> allocated ex = {}"
    unfolding allocated_def by (rule fits_at_disjoint [OF f])
qed

lemma subregion_start_sound:
  assumes req: "request_ok ex substart subend sz k bnd"
    and r: "extent_alloc_subregion_start diag ex substart subend sz (2 ^ k) skew (bnd_val bnd)
        flags myrp = Return ex' (Inr x)"
  shows "\<exists>lst. candidate ex substart subend sz k skew bnd flags x lst \<and>
    ex' = extent_insert_and_optimize ex x sz lst myrp"
  using r sub_search_sound [OF req refl, of skew flags]
  by (auto simp: extent_alloc_subregion_start_def best_ok_def Let_def
      split: if_splits sum.splits prod.splits)

text \<open>
  C1. Whatever address \<open>extent_alloc_subregion\<close> returns for a request that passes
  the DIAGNOSTIC checks, with powers of two as alignment and boundary, and whose
  alignment cannot wrap around above the end of the extent (its end plus the alignment
  is below 2^64), the region of the requested size at that
  address was entirely free, lies inside the subrange asked for, is aligned
  when no boundary was given, and crosses no boundary line; afterwards exactly
  this region is allocated in addition and the region list is well-formed.
  Without the condition on the end of the extent this is false: \<open>extent_align\<close> of
  the address after the last region can then wrap around to the bottom.
\<close>

theorem extent_alloc_subregion_sound:
  assumes req: "request_ok ex substart subend sz k bnd"
    and r: "extent_alloc_subregion diag pg ex substart subend sz (2 ^ k) skew (bnd_val bnd) flags =
        Return ex' (Inr x)"
  shows "extent_inv ex' \<and> allocated ex' = allocated ex \<union> {x..x + (sz - 1)} \<and>
    {x..x + (sz - 1)} \<inter> allocated ex = {} \<and>
    substart \<le> x \<and> x \<le> x + (sz - 1) \<and> x + (sz - 1) \<le> subend \<and>
    (bnd = None \<longrightarrow> aligned k skew x) \<and> \<not> crosses bnd (bnd_base ex flags) x (x + (sz - 1))"
proof -
  from r obtain ex1 myrp where d: "extent_alloc_region_descriptor pg ex flags = Descr ex1 myrp"
    and r1: "extent_alloc_subregion_start diag ex1 substart subend sz (2 ^ k) skew (bnd_val bnd)
        flags myrp = Return ex' (Inr x)"
    by (auto simp: extent_alloc_subregion_def extent_alloc_subregion_descr_def
        split: if_splits descr_outcome.splits)
  note sp = descriptor_frame(1) [OF d]
  note req1 = request_ok_descr [OF req sp]
  from subregion_start_sound [OF req1 r1] obtain lst where
    c: "candidate ex1 substart subend sz k skew bnd flags x lst"
    and ex': "ex' = extent_insert_and_optimize ex1 x sz lst myrp" by blast
  have "bnd_base ex1 flags = bnd_base ex flags" "allocated ex1 = allocated ex"
    using sp same_space_inv [OF sp] by (simp_all add: bnd_base_def same_space_def)
  with insert_candidate [OF req1 c] c show ?thesis
    unfolding ex' by (auto simp: candidate_def)
qed

text \<open>Eight addresses aligned to 8, not crossing a multiple of 16, anywhere in the sample extent.\<close>

lemma sample_request: "request_ok sample_extent 0 99 8 3 (Some 4)"
  by (simp add: request_ok_def sample_extent_def [symmetric])

theorem extent_alloc_subregion_sound_witness:
  "\<exists>ex' x. extent_alloc_subregion True sample_pool sample_extent 0 99 8 8 0 16 0 =
      Return ex' (Inr x) \<and> extent_inv ex' \<and> {x..x + 7} \<inter> ({10..19} \<union> {40..59}) = {} \<and>
      \<not> crosses (Some 4) 0 x (x + 7)"
proof -
  have "case extent_alloc_subregion True sample_pool sample_extent 0 99 8 8 0 16 0 of
      Return ex' (Inr x) \<Rightarrow> True | _ \<Rightarrow> False"
    by code_simp
  then obtain ex' x where
    "extent_alloc_subregion True sample_pool sample_extent 0 99 8 (2 ^ 3) 0 (bnd_val (Some 4)) 0 =
      Return ex' (Inr x)"
    by (auto simp: bnd_val_def split: outcome.splits sum.splits)
  from extent_alloc_subregion_sound [OF sample_request this] this show ?thesis
    by (intro exI [of _ ex'] exI [of _ x]) (simp add: bnd_val_def bnd_base_def Int_Un_distrib)
qed

section \<open>When an allocation succeeds\<close>

definition placement ::
  "extent \<Rightarrow> u_long \<Rightarrow> u_long \<Rightarrow> u_long \<Rightarrow> nat \<Rightarrow> u_long \<Rightarrow> u_long \<Rightarrow> bool" where
  "placement ex substart subend sz k skew y \<longleftrightarrow>
     substart \<le> y \<and> y \<le> y + (sz - 1) \<and> y + (sz - 1) \<le> subend \<and> aligned k skew y \<and>
     {y..y + (sz - 1)} \<inter> allocated ex = {}"

definition has_best :: "u_int \<Rightarrow> best \<Rightarrow> bool" where
  "has_best flags b \<longleftrightarrow> \<not> has_flag flags EX_FAST \<and> fst b \<noteq> 0"

text \<open>The boundary lines do not wrap around either.\<close>

definition lines_ok :: "extent \<Rightarrow> nat option \<Rightarrow> bool" where
  "lines_ok ex bnd \<longleftrightarrow> (case bnd of None \<Rightarrow> True | Some j \<Rightarrow> unat (ex_end ex) + 2 ^ j < 2 ^ 64)"

text \<open>
  With a boundary a candidate is moved to the next line at most once. It never fails, and it passes when
  the chunk holds a placement that crosses no line.
\<close>

lemma boundary_check_total:
  assumes bnd: "case bnd of None \<Rightarrow> True | Some j \<Rightarrow> j < 64 \<and> sz \<le> 2 ^ j" "lines_ok ex bnd"
    and x: "ex_start ex \<le> x" and fits: "fits x" and room: "\<And>y. fits y \<Longrightarrow> y \<le> y + (sz - 1) \<and> y + (sz - 1) \<le> ex_end ex"
  shows "boundary_check ex sz (bnd_val bnd) flags fits x \<noteq> Bnd_fail"
proof (cases bnd)
  case None
  then show ?thesis by (simp add: boundary_check_def bnd_val_def)
next
  case (Some j)
  with bnd have j: "j < 64" and w: "unat (ex_end ex) + 2 ^ j < 2 ^ 64" by (simp_all add: lines_ok_def)
  let ?base = "bnd_base ex flags"
  define dc where "dc = extent_align (x + 1) (2 ^ j) ?base - 1"
  note r = boundary_check_line [OF j dc_def, of sz fits, folded Some]
  have room': "boundary_room ex sz y d \<noteq> Bnd_fail" if "fits y" "y \<le> d" for y d
    using room [OF that(1)] that(2) by (auto simp: boundary_room_def add_diff_eq)
  have "dc + 1 \<le> dc + 2 ^ j" if "dc < x + (sz - 1)"
  proof -
    have d: "unat dc < unat (ex_end ex)" using that room [OF fits] by (simp add: word_order_unat)
    then have "unat (dc + 2 ^ j) = unat dc + 2 ^ j" using w unat_exp_u_long [OF j] by (subst unat_add_no_overflow) simp_all
    moreover have "unat (dc + 1) = Suc (unat dc)" using that by (rule unat_succ_less)
    ultimately show ?thesis by (simp add: word_le_nat_alt)
  qed
  moreover have "x \<le> ex_end ex" using room [OF fits] by (blast intro: order_trans)
  moreover have "x \<le> dc" if "\<not> dc < ex_start ex"
  proof -
    have "\<not> dc < ?base" using that by (auto simp: bnd_base_def split: if_splits)
    then show ?thesis using next_line [OF j dc_def] by blast
  qed
  ultimately show ?thesis unfolding r using fits by (auto simp: room')
qed

lemma boundary_check_complete:
  assumes bnd: "case bnd of None \<Rightarrow> True | Some j \<Rightarrow> j < 64 \<and> sz \<le> 2 ^ j" "lines_ok ex bnd"
    and x: "ex_start ex \<le> x" "x \<le> y" and room: "\<And>y. fits y \<Longrightarrow> y \<le> y + (sz - 1) \<and> y + (sz - 1) \<le> ex_end ex"
    and down: "\<And>z. z \<le> y \<Longrightarrow> fits z" and c: "\<not> crosses bnd (bnd_base ex flags) y (y + (sz - 1))"
  shows "\<exists>ns. boundary_check ex sz (bnd_val bnd) flags fits x = Bnd_ok ns"
proof (cases bnd)
  case None
  then show ?thesis by (simp add: boundary_check_def bnd_val_def)
next
  case (Some j)
  then have j: "j < 64" using bnd(1) by simp
  let ?base = "bnd_base ex flags"
  define dc where "dc = extent_align (x + 1) (2 ^ j) ?base - 1"
  note r = boundary_check_line [OF j dc_def, of sz fits, folded Some]
  have "fits (dc + 1)" if d: "\<not> dc < ex_start ex" "dc < x + (sz - 1)"
  proof (rule down, rule ccontr)
    assume n: "\<not> dc + 1 \<le> y"
    have s: "unat (dc + 1) = Suc (unat dc)" using d(2) by (rule unat_succ_less)
    have "\<not> dc < ?base" using d(1) by (auto simp: bnd_base_def split: if_splits)
    then have "aligned j ?base (dc + 1)" using next_line [OF j dc_def] s by auto
    moreover have "y < dc + 1" using n by simp
    moreover have "unat (x + (sz - 1)) = unat x + unat (sz - 1)" "unat (y + (sz - 1)) = unat y + unat (sz - 1)"
      using room [OF down [OF order_refl]] room [OF down [OF x(2)]] by (intro unat_add_no_wrap; simp)+
    then have "dc + 1 \<le> y + (sz - 1)" using d(2) x(2) s by (simp add: word_order_unat)
    ultimately show False using c by (auto simp: crosses_def Some)
  qed
  then have "boundary_check ex sz (bnd_val bnd) flags fits x \<noteq> Bnd_skip"
    unfolding r by (auto simp: boundary_room_def)
  moreover have "boundary_check ex sz (bnd_val bnd) flags fits x \<noteq> Bnd_fail"
    by (rule boundary_check_total [OF bnd x(1), of fits, OF down [OF x(2)] room])
  ultimately show ?thesis by (cases "boundary_check ex sz (bnd_val bnd) flags fits x") auto
qed

lemma try_chunk_keeps_best:
  assumes "has_best flags b" "try_chunk ex sz bv flags fits ovh newstart lst b = Chunk_next b'"
  shows "has_best flags b'"
  using assms by (auto simp: try_chunk_def has_best_def better_def Let_def split: if_splits bnd.splits)

lemma try_chunk_best:
  assumes "boundary_check ex sz bv flags fits newstart = Bnd_ok ns" "fits newstart"
    and "try_chunk ex sz bv flags fits ovh newstart lst b = Chunk_next b'"
  shows "has_best flags b'"
  using assms by (auto simp: try_chunk_def has_best_def better_def Let_def split: if_splits)

lemma try_chunk_no_fail:
  assumes "fits newstart \<Longrightarrow> boundary_check ex sz bv flags fits newstart \<noteq> Bnd_fail"
  shows "try_chunk ex sz bv flags fits ovh newstart lst b \<noteq> Chunk_fail"
  using assms by (auto simp: try_chunk_def split: bnd.splits)

lemma placement_unat:
  assumes "placement ex substart subend sz k skew y" "1 \<le> sz"
  shows "unat (y + (sz - 1)) = unat y + unat sz - 1" "unat sz \<ge> 1"
  using assms unat_add_no_wrap [of y "sz - 1"] unat_sub [OF assms(2)]
  by (auto simp: placement_def word_le_nat_alt)

lemma placement_side:
  assumes pl: "placement ex substart subend sz k skew y" and rp: "rp \<in> set (ex_regions ex)"
    and inv: "extent_inv ex"
  shows "y + (sz - 1) < er_start rp \<or> er_end rp < y"
proof (rule ccontr)
  assume "\<not> ?thesis"
  then have "er_start rp \<le> y + (sz - 1)" "y \<le> er_end rp" by (simp_all add: not_less)
  moreover have "er_start rp \<le> er_end rp" "y \<le> y + (sz - 1)"
    using inv pl regions_ok_mem [OF _ rp] by (auto simp: extent_inv_def region_in_def placement_def)
  ultimately have "max y (er_start rp) \<in> {y..y + (sz - 1)}"
    "max y (er_start rp) \<in> {er_start rp..er_end rp}" by simp_all
  with rp pl show False unfolding placement_def allocated_def addrs_def by blast
qed

lemma LE_OV_intro:
  assumes "unat x + unat s \<le> unat z"
  shows "LE_OV x s z"
proof -
  have "unat (x + s) = unat x + unat s"
    using assms unat_u_long_less [of z] by (intro unat_add_no_overflow) simp
  with assms show ?thesis by (simp add: LE_OV_def word_le_nat_alt)
qed

text \<open>
  A chunk with a test that bounds placements by \<open>hi\<close>: it does not make the search fail, and when the placement
  \<open>y\<close> lies in it, some candidate is found.
\<close>

definition clear_of_lines :: "extent \<Rightarrow> u_int \<Rightarrow> nat option \<Rightarrow> u_long \<Rightarrow> u_long \<Rightarrow> bool" where
  "clear_of_lines ex flags bnd sz y \<longleftrightarrow> lines_ok ex bnd \<and> \<not> crosses bnd (bnd_base ex flags) y (y + (sz - 1))"

lemma chunk_complete:
  assumes req: "request_ok ex substart subend sz k bnd" and ln: "clear_of_lines ex flags bnd sz y"
    and ns: "ex_start ex \<le> newstart" and room: "\<And>z. fits z \<Longrightarrow> z \<le> z + (sz - 1) \<and> z + (sz - 1) \<le> ex_end ex"
  shows "try_chunk ex sz (bnd_val bnd) flags fits ovh newstart lst b \<noteq> Chunk_fail"
    and "try_chunk ex sz (bnd_val bnd) flags fits ovh newstart lst b = Chunk_next b' \<Longrightarrow> newstart \<le> y
      \<Longrightarrow> (\<And>z. z \<le> y \<Longrightarrow> fits z) \<Longrightarrow> has_best flags b'"
proof -
  have bnd: "case bnd of None \<Rightarrow> True | Some j \<Rightarrow> j < 64 \<and> sz \<le> 2 ^ j" "lines_ok ex bnd"
    using req ln by (simp_all add: request_ok_def clear_of_lines_def)
  show "try_chunk ex sz (bnd_val bnd) flags fits ovh newstart lst b \<noteq> Chunk_fail"
    by (rule try_chunk_no_fail) (rule boundary_check_total [OF bnd ns], auto dest: room)
  assume t: "try_chunk ex sz (bnd_val bnd) flags fits ovh newstart lst b = Chunk_next b'" and y: "newstart \<le> y"
    and d: "\<And>z. z \<le> y \<Longrightarrow> fits z"
  have "\<exists>x. boundary_check ex sz (bnd_val bnd) flags fits newstart = Bnd_ok x"
    by (rule boundary_check_complete [OF bnd ns y]) (use ln in \<open>auto simp: clear_of_lines_def dest: room intro: d\<close>)
  then show "has_best flags b'" using try_chunk_best [OF _ d [OF y] t] by blast
qed

lemma LE_OV_D:
  assumes "LE_OV x s z"
  shows "unat x + unat s \<le> unat z"
  using assms unat_add_no_wrap [of x s] by (simp add: LE_OV_def word_le_nat_alt)

lemma LE_OV_room:
  assumes "LE_OV x s z" "1 \<le> sz" "z \<le> hi" "s = sz \<or> s = sz - 1"
  shows "x \<le> x + (sz - 1) \<and> x + (sz - 1) \<le> hi"
proof -
  have "unat (sz - 1) \<le> unat s" using assms(2,4) unat_sub [OF assms(2)] by auto
  then have "unat x + unat (sz - 1) \<le> unat z" using LE_OV_D [OF assms(1)] by linarith
  moreover have "unat z \<le> unat hi" using assms(3) by (simp add: word_le_nat_alt)
  ultimately show ?thesis using unat_u_long_less [of z] unat_add_no_overflow [of x "sz - 1"] by (simp add: word_le_nat_alt)
qed

lemma sub_loop_complete:
  assumes req: "request_ok ex substart subend sz k bnd" and ln: "clear_of_lines ex flags bnd sz y"
    and pl: "placement ex substart subend sz k skew y"
    and rest: "set rest \<subseteq> set (ex_regions ex)"
    and best: "has_best flags b \<or> newstart \<le> y" and lo: "ex_start ex \<le> newstart"
  shows "case sub_loop ex subend sz (2 ^ k) skew (bnd_val bnd) flags rest i newstart lst b of
      Sub_found x l \<Rightarrow> True
    | Sub_fail b' \<Rightarrow> False
    | Sub_end ns l b' exend \<Rightarrow> (has_best flags b' \<or> ns \<le> y) \<and> ex_start ex \<le> ns"
  using rest best lo
proof (induction rest arbitrary: i newstart lst b)
  case (Cons rp rs)
  let ?n = "extent_align (er_end rp + 1) (2 ^ k) skew" and ?f = "\<lambda>y. LE_OV y sz (er_start rp)"
  let ?t = "try_chunk ex sz (bnd_val bnd) flags ?f (\<lambda>ns. er_start rp - ns - sz) newstart lst b"
  have inv: "extent_inv ex" and sz: "1 \<le> sz" and k: "k < 64"
    using req by (simp_all add: request_ok_def)
  have rp: "rp \<in> set (ex_regions ex)" using Cons.prems(1) by simp
  have reg: "er_start rp \<le> ex_end ex"
    using inv regions_ok_mem [OF _ rp] by (force simp: extent_inv_def region_in_def)
  have up: "\<not> ?n < er_end rp" "ex_start ex \<le> ?n"
    using next_start [OF req rp, of skew] next_start_above [OF req rp] by (auto dest: less_imp_not_less)
  have room: "?f z \<Longrightarrow> z \<le> z + (sz - 1) \<and> z + (sz - 1) \<le> ex_end ex" for z
    by (rule LE_OV_room [OF _ sz]) (use reg in auto)
  note chunk = chunk_complete [OF req ln Cons.prems(3), where fits = ?f and lst = lst and b = b, OF room]
  have step: "has_best flags b' \<or> ?n \<le> y" if t: "?t = Chunk_next b'" for b'
  proof (cases "has_best flags b")
    case True
    then show ?thesis using try_chunk_keeps_best [OF _ t] by blast
  next
    case False
    with Cons.prems(2) have ny: "newstart \<le> y" by simp
    consider "y + (sz - 1) < er_start rp" | "er_end rp < y"
      using placement_side [OF pl rp inv] by blast
    then show ?thesis
    proof cases
      case 1
      then have "?f z" if "z \<le> y" for z
        using that placement_unat [OF pl sz] by (intro LE_OV_intro) (auto simp: word_order_unat)
      then show ?thesis using chunk(2) [OF _ t ny] by blast
    next
      case 2
      then have "er_end rp + 1 \<le> y" by (rule inc_le)
      with extent_align_least [OF refl k] pl show ?thesis by (simp add: placement_def)
    qed
  qed
  show ?case
  proof (cases "er_start rp > subend")
    case True
    with Cons.prems(2,3) show ?thesis by simp
  next
    case False
    show ?thesis
    proof (cases ?t)
      case (Chunk_next b')
      with Cons.IH [of b' ?n "Suc i" "Some i"] step Cons.prems(1) False up
      show ?thesis by (simp add: Let_def)
    qed (use False chunk(1) in auto)
  qed
qed simp

lemma sub_search_complete:
  assumes req: "request_ok ex substart subend sz k bnd" and ln: "clear_of_lines ex flags bnd sz y"
    and pl: "placement ex substart subend sz k skew y"
    and ns: "newstart = extent_align substart (2 ^ k) skew"
  shows "case sub_search ex subend sz (2 ^ k) skew (bnd_val bnd) flags newstart of
      Inl b \<Rightarrow> has_best flags b | Inr _ \<Rightarrow> True"
proof -
  define n where "n = length (takeWhile (\<lambda>r. er_start r < newstart) (ex_regions ex))"
  define r where "r = sub_loop ex subend sz (2 ^ k) skew (bnd_val bnd) flags
    (drop n (ex_regions ex)) n (first_start ex k skew n newstart) (pos_before n) no_best"
  have k: "k < 64" and inv: "extent_inv ex" and sz: "1 \<le> sz"
    using req by (simp_all add: request_ok_def)
  have lo: "ex_start ex \<le> newstart"
    using align_substart [OF req, of skew] req unfolding ns by (auto simp: request_ok_def)
  have ny: "newstart \<le> y"
    unfolding ns by (rule extent_align_least [OF refl k]) (use pl in \<open>simp_all add: placement_def\<close>)
  have "ex_start ex \<le> first_start ex k skew n newstart \<and> first_start ex k skew n newstart \<le> y"
  proof (cases "n \<noteq> 0 \<and> newstart \<le> er_end (ex_regions ex ! (n - 1))")
    case True
    let ?a = "ex_regions ex ! (n - 1)"
    have nl: "n \<le> length (ex_regions ex)" unfolding n_def by (rule length_takeWhile_le)
    with True have a: "?a \<in> set (ex_regions ex)" by (intro nth_mem) auto
    have "n - 1 < length (takeWhile (\<lambda>r. er_start r < newstart) (ex_regions ex))"
      using True n_def by auto
    then have "er_start ?a < newstart"
      by (metis (no_types, lifting) nth_mem set_takeWhileD takeWhile_nth)
    moreover have "y \<le> y + (sz - 1)" using pl by (simp add: placement_def)
    ultimately have "\<not> y + (sz - 1) < er_start ?a" using ny by order
    with placement_side [OF pl a inv] have "er_end ?a + 1 \<le> y" by (auto intro: inc_le)
    moreover have "ex_start ex \<le> extent_align (er_end ?a + 1) (2 ^ k) skew"
      by (rule next_start_above [OF req a])
    ultimately show ?thesis using extent_align_least [OF refl k] pl True
      by (simp add: first_start_def placement_def)
  next
    case False
    with ny lo show ?thesis by (auto simp: first_start_def)
  qed
  then have c: "case r of Sub_found x l \<Rightarrow> True | Sub_fail b' \<Rightarrow> False
      | Sub_end ns l b' exend \<Rightarrow> (has_best flags b' \<or> ns \<le> y) \<and> ex_start ex \<le> ns"
    unfolding r_def by (intro sub_loop_complete [OF req ln pl]) (auto dest: in_set_dropD)
  have "case sub_final ex subend sz (bnd_val bnd) flags r of Inl b \<Rightarrow> has_best flags b | Inr _ \<Rightarrow> True"
  proof (cases r)
    case (Sub_end ns' lst b exend)
    let ?t = "try_chunk ex sz (bnd_val bnd) flags (\<lambda>y. LE_OV y (sz - 1) subend)
        (\<lambda>ns. exend - ns - (sz - 1)) ns' lst b"
    have room: "LE_OV z (sz - 1) subend \<Longrightarrow> z \<le> z + (sz - 1) \<and> z + (sz - 1) \<le> ex_end ex" for z
      by (rule LE_OV_room [OF _ sz]) (use req in \<open>auto simp: request_ok_def\<close>)
    have "ex_start ex \<le> ns'" using c Sub_end by simp
    note chunk = chunk_complete [OF req ln this, where fits = "\<lambda>y. LE_OV y (sz - 1) subend" and lst = lst and b = b, OF room]
    have down: "LE_OV z (sz - 1) subend" if "z \<le> y" for z
    proof (rule LE_OV_intro)
      have "unat (y + (sz - 1)) = unat y + unat (sz - 1)" "unat (y + (sz - 1)) \<le> unat subend"
        using pl unat_add_no_wrap [of y "sz - 1"] by (simp_all add: placement_def word_le_nat_alt)
      with that show "unat z + unat (sz - 1) \<le> unat subend" by (simp add: word_le_nat_alt)
    qed
    have best: "has_best flags b'" if "?t = Chunk_next b'" for b'
      using c Sub_end try_chunk_keeps_best [OF _ that] chunk(2) [OF _ that _ down] by auto
    show ?thesis
    proof (cases ?t)
      case (Chunk_next b')
      with best show ?thesis by (simp add: sub_final_def Sub_end)
    qed (use chunk(1) in \<open>auto simp: sub_final_def Sub_end\<close>)
  qed (use c in \<open>simp_all add: sub_final_def\<close>)
  then show ?thesis unfolding sub_search_eq [OF n_def] r_def .
qed

text \<open>
  C2. The search misses nothing, with and without a boundary: when a region descriptor is available, the subrange has an
  aligned free placement that crosses no boundary line, and neither the alignment nor the boundary can wrap
  around above the end of the extent (its end plus either of them is below 2^64),
  \<open>extent_alloc_subregion\<close> returns an address (first fit with EX_FAST, best fit otherwise). It neither fails
  with EAGAIN nor sleeps.
\<close>

theorem extent_alloc_subregion_complete:
  assumes req: "request_ok ex substart subend sz k bnd"
    and wrap: "case bnd of None \<Rightarrow> True | Some j \<Rightarrow> unat (ex_end ex) + 2 ^ j < 2 ^ 64"
    and pl: "placement ex substart subend sz k skew y" "\<not> crosses bnd (bnd_base ex flags) y (y + (sz - 1))"
    and d: "extent_alloc_region_descriptor pg ex flags = Descr ex1 myrp"
  shows "\<exists>ex' x. extent_alloc_subregion diag pg ex substart subend sz (2 ^ k) skew (bnd_val bnd) flags =
    Return ex' (Inr x)"
proof -
  note sp = descriptor_frame(1) [OF d]
  note req1 = request_ok_descr [OF req sp]
  have "bnd_base ex1 flags = bnd_base ex flags" "ex_end ex1 = ex_end ex" using sp by (simp_all add: bnd_base_def same_space_def)
  then have pl1: "placement ex1 substart subend sz k skew y" and ln: "clear_of_lines ex1 flags bnd sz y"
    using pl wrap same_space_inv [OF sp] by (simp_all add: placement_def clear_of_lines_def lines_ok_def split: option.splits)
  have k: "(2 :: u_long) ^ k \<noteq> 0" using req by (simp add: request_ok_def exp_eq_zero_iff)
  have "\<not> bnd_val bnd < sz" if "bnd_val bnd \<noteq> 0"
    using req that by (auto simp: request_ok_def bnd_val_def split: option.splits)
  then have "extent_alloc_subregion diag pg ex substart subend sz (2 ^ k) skew (bnd_val bnd) flags =
    extent_alloc_subregion_start diag ex1 substart subend sz (2 ^ k) skew (bnd_val bnd) flags myrp"
    using req k d
    by (auto simp: extent_alloc_subregion_def extent_alloc_subregion_descr_def request_ok_def)
  moreover have "\<not> extent_align substart (2 ^ k) skew < ex_start ex1"
    using align_substart [OF req, of skew] req1 by (auto simp: request_ok_def)
  ultimately show ?thesis using sub_search_complete [OF req1 ln pl1 refl]
    by (auto simp: extent_alloc_subregion_start_def Let_def has_best_def split: sum.splits)
qed

text \<open>The addresses 64 to 71 are a placement in the sample extent; they cross no multiple of 16.\<close>

theorem extent_alloc_subregion_complete_witness:
  "\<exists>ex' x. extent_alloc_subregion True sample_pool sample_extent 0 99 8 8 0 16 EX_FAST =
     Return ex' (Inr x)"
proof -
  have pl: "placement sample_extent 0 99 8 3 0 64"
    by (simp add: placement_def aligned_def Int_Un_distrib take_bit_eq_mask mask_eq_exp_minus_1)
  have l: "\<not> aligned 4 0 l" if "64 < l" "l \<le> 71" for l :: u_long
  proof
    assume "aligned 4 0 l"
    then have "2 ^ 4 \<le> unat (l - 64)"
      using line_gap [of 4 0 64 l] that by (simp add: aligned_def take_bit_eq_mask mask_eq_exp_minus_1)
    then show False using that by (simp add: unat_sub word_order_unat)
  qed
  then have c: "\<not> crosses (Some 4) (bnd_base sample_extent EX_FAST) 64 (64 + (8 - 1))"
    by (auto simp: crosses_def bnd_base_def)
  have "\<not> has_flag EX_FAST EX_WAITOK" by (simp add: has_flag_def extent_flag_defs)
  from extent_alloc_subregion_complete [OF sample_request _ pl c sample_descr [OF this], of True]
  show ?thesis by (simp add: bnd_val_def)
qed

end
