(* ===== verification/Clist.thy ===== *)
theory Clist
  imports Prelude "HOL-Library.Monad_Syntax"
begin

text \<open>
  The character queues of the terminal layer (kern/tty_subr.c): ring buffers of
  characters with an optional bitmap of quote bits. This theory holds the data
  model and the operations, with Clist_Queue proving them against a
  queue of characters.

  A pointer into the ring is its offset from \<open>c_cs\<close>, None for NULL; \<open>c_ce\<close> is
  the offset \<open>c_cn\<close>. An operation returns None when the C code would access
  memory outside the ring, outside the bitmap or through a NULL pointer,
  or would not return. The spl calls that mask interrupts have no counterpart:
  an operation is one step.
\<close>

section \<open>Data and bit maps\<close>

record clist =
  c_cc :: nat
  c_cn :: nat
  c_cf :: "nat option"
  c_cl :: "nat option"
  c_cs :: "u_char list option"
  c_cq :: "u_char list option"

definition TTY_QUOTE :: u_int where "TTY_QUOTE = 0x100"

definition NBBY :: nat where "NBBY = 8"

definition QMEM :: "nat \<Rightarrow> nat" where "QMEM n = (n - 1) div NBBY + 1"

text \<open>The macros \<open>setbit\<close>, \<open>clrbit\<close> and \<open>isset\<close> of sys/param.h.\<close>

definition isset :: "u_char list \<Rightarrow> nat \<Rightarrow> bool option" where
  "isset a i =
     (if i div NBBY < length a then Some (has_flag (a ! (i div NBBY)) (push_bit (i mod NBBY) 1))
      else None)"

definition setbit :: "u_char list \<Rightarrow> nat \<Rightarrow> u_char list option" where
  "setbit a i =
     (if i div NBBY < length a
      then Some (a[i div NBBY := a ! (i div NBBY) OR push_bit (i mod NBBY) 1])
      else None)"

definition clrbit :: "u_char list \<Rightarrow> nat \<Rightarrow> u_char list option" where
  "clrbit a i =
     (if i div NBBY < length a
      then Some (a[i div NBBY := a ! (i div NBBY) AND NOT (push_bit (i mod NBBY) 1)])
      else None)"

text \<open>One byte updated; the access must be inside the map.\<close>

definition and_byte :: "u_char list \<Rightarrow> nat \<Rightarrow> u_char \<Rightarrow> u_char list option" where
  "and_byte a i m = (if i < length a then Some (a[i := a ! i AND m]) else None)"

text \<open>\<open>for (i = sby; i < eby; i++) cp[i] = 0x00;\<close>\<close>

definition zero_bytes :: "u_char list \<Rightarrow> nat \<Rightarrow> nat \<Rightarrow> u_char list option" where
  "zero_bytes a s e =
     (if s < e
      then (if e \<le> length a then Some (take s a @ replicate (e - s) 0 @ drop e a) else None)
      else Some a)"

text \<open>The masks are computed in \<open>int\<close> and stored in a \<open>u_char\<close>.\<close>

definition byte_mask :: "nat \<Rightarrow> u_char" where
  "byte_mask n = ucast (push_bit n 1 - 1 :: u_int)"

definition clrbits :: "u_char list \<Rightarrow> nat \<Rightarrow> nat \<Rightarrow> u_char list option" where
  "clrbits cp off len =
     (if len = 1 then clrbit cp off
      else
        let sby = off div NBBY; sbi = off mod NBBY;
            eby = (off + len) div NBBY; ebi = (off + len) mod NBBY
        in if sby = eby then
             and_byte cp sby (NOT (ucast (push_bit sbi (push_bit (ebi - sbi) 1 - 1) :: u_int)))
           else do {
             cp1 \<leftarrow> and_byte cp sby (byte_mask sbi);
             cp2 \<leftarrow> zero_bytes cp1 (sby + 1) eby;
             if byte_mask ebi \<noteq> 0 then and_byte cp2 eby (NOT (byte_mask ebi)) else Some cp2
           })"

section \<open>Allocation\<close>

definition clalloc :: "nat \<Rightarrow> bool \<Rightarrow> clist" where
  "clalloc sz quot =
     \<lparr>c_cc = 0, c_cn = sz, c_cf = None, c_cl = None, c_cs = Some (replicate sz 0),
      c_cq = (if quot then Some (replicate (QMEM sz) 0) else None)\<rparr>"

definition clfree :: "clist \<Rightarrow> clist" where
  "clfree clp = clp\<lparr>c_cs := None, c_cq := None\<rparr>"

section \<open>Single characters\<close>

text \<open>\<open>if (clp->c_cq) ... clrbit/setbit\<close>: the bitmap after \<open>f\<close>, when there is one.\<close>

definition upd_quote ::
  "u_char list option \<Rightarrow> (u_char list \<Rightarrow> u_char list option) \<Rightarrow> u_char list option option" where
  "upd_quote q f = (case q of None \<Rightarrow> Some None | Some a \<Rightarrow> map_option Some (f a))"

text \<open>The character at offset \<open>i\<close>, with TTY_QUOTE when its bit is set.\<close>

definition char_at :: "clist \<Rightarrow> nat \<Rightarrow> u_int option" where
  "char_at clp i = do {
     buf \<leftarrow> c_cs clp;
     if i < length buf then
       (case c_cq clp of
          None \<Rightarrow> Some (ucast (buf ! i))
        | Some q \<Rightarrow> do {
            b \<leftarrow> isset q i;
            Some (if b then ucast (buf ! i) OR TTY_QUOTE else ucast (buf ! i))
          })
     else None
   }"

definition wrap :: "clist \<Rightarrow> nat \<Rightarrow> nat" where
  "wrap clp i = (if i = c_cn clp then 0 else i)"

definition clear_if_empty :: "clist \<Rightarrow> clist" where
  "clear_if_empty clp = (if c_cc clp = 0 then clp\<lparr>c_cf := None, c_cl := None\<rparr> else clp)"

definition getc :: "clist \<Rightarrow> (clist \<times> u_int) option" where
  "getc clp =
     (if c_cc clp = 0 then Some (clp, -1)
      else do {
        f \<leftarrow> c_cf clp;
        l \<leftarrow> c_cl clp;
        buf \<leftarrow> c_cs clp;
        c \<leftarrow> char_at clp f;
        q \<leftarrow> upd_quote (c_cq clp) (\<lambda>q. clrbit q l);
        let clp1 = clp\<lparr>c_cs := Some (buf[f := 0]), c_cq := q,
                       c_cc := c_cc clp - 1, c_cf := Some (wrap clp (f + 1))\<rparr>;
        Some (clear_if_empty clp1, c)
      })"

text \<open>
  The start of \<open>putc\<close> and \<open>b_to_q\<close> on an empty queue. A queue without a ring
  gets one of 1024 characters.
\<close>

definition start_empty :: "clist \<Rightarrow> clist" where
  "start_empty clp =
     (if c_cc clp = 0 then
        (let clp1 = (if c_cs clp = None then clalloc 1024 True else clp)
         in clp1\<lparr>c_cf := Some 0, c_cl := Some 0\<rparr>)
      else clp)"

definition putc :: "u_int \<Rightarrow> clist \<Rightarrow> (clist \<times> int) option" where
  "putc c clp =
     (if c_cc clp = c_cn clp then Some (clp, -1)
      else
        let clp1 = start_empty clp in
        do {
          i \<leftarrow> c_cl clp1;
          buf \<leftarrow> c_cs clp1;
          q \<leftarrow> upd_quote (c_cq clp1) (\<lambda>q. if has_flag c TTY_QUOTE then setbit q i else clrbit q i);
          if i < length buf then
            Some (clp1\<lparr>c_cs := Some (buf[i := ucast c]), c_cq := q, c_cc := c_cc clp1 + 1,
                       c_cl := Some (wrap clp1 (i + 1))\<rparr>, 0)
          else None
        })"

definition unputc :: "clist \<Rightarrow> (clist \<times> u_int) option" where
  "unputc clp =
     (if c_cc clp = 0 then Some (clp, -1)
      else do {
        l \<leftarrow> c_cl clp;
        let l1 = (if l = 0 then c_cn clp - 1 else l - 1);
        c \<leftarrow> char_at clp l1;
        Some (clear_if_empty (clp\<lparr>c_cl := Some l1, c_cc := c_cc clp - 1\<rparr>), c)
      })"

section \<open>Blocks of characters\<close>

definition blit :: "u_char list \<Rightarrow> nat \<Rightarrow> u_char list \<Rightarrow> u_char list option" where
  "blit buf l xs =
     (if l + length xs \<le> length buf then Some (take l buf @ xs @ drop (l + length xs) buf)
      else None)"

text \<open>\<open>cc\<close> limited to \<open>count\<close>.\<close>

definition upto :: "nat \<Rightarrow> int \<Rightarrow> nat" where
  "upto cc count = (if int cc > count then nat count else cc)"

text \<open>The length of the run of characters that starts at \<open>c_cf\<close>.\<close>

definition run_length :: "clist \<Rightarrow> nat \<Rightarrow> nat \<Rightarrow> nat" where
  "run_length clp f l = (if f \<ge> l then c_cn clp - f else l - f)"

partial_function (option) q_to_b_loop ::
  "u_char list \<Rightarrow> int \<Rightarrow> clist \<Rightarrow> (u_char list \<times> clist) option" where
  "q_to_b_loop out count clp =
     (if count > 0 \<and> c_cc clp > 0 then do {
        f \<leftarrow> c_cf clp;
        l \<leftarrow> c_cl clp;
        buf \<leftarrow> c_cs clp;
        let cc = upto (run_length clp f l) count;
        buf1 \<leftarrow> blit buf f (replicate cc 0);
        q \<leftarrow> upd_quote (c_cq clp) (\<lambda>q. clrbits q l cc);
        q_to_b_loop (out @ take cc (drop f buf)) (count - int cc)
          (clp\<lparr>c_cs := Some buf1, c_cq := q, c_cc := c_cc clp - cc, c_cf := Some (wrap clp (f + cc))\<rparr>)
      } else Some (out, clp))"

text \<open>The characters copied out stand for the buffer \<open>cp\<close>; their number is returned.\<close>

definition q_to_b :: "clist \<Rightarrow> int \<Rightarrow> (clist \<times> u_char list) option" where
  "q_to_b clp count = do {
     (out, clp1) \<leftarrow> q_to_b_loop [] count clp;
     Some (clear_if_empty clp1, out)
   }"

partial_function (option) ndflush_loop :: "int \<Rightarrow> clist \<Rightarrow> clist option" where
  "ndflush_loop count clp =
     (if count > 0 \<and> c_cc clp > 0 then do {
        f \<leftarrow> c_cf clp;
        l \<leftarrow> c_cl clp;
        let cc = upto (run_length clp f l) count;
        ndflush_loop (count - int cc)
          (clp\<lparr>c_cc := c_cc clp - cc, c_cf := Some (wrap clp (f + cc))\<rparr>)
      } else Some clp)"

definition ndflush :: "clist \<Rightarrow> int \<Rightarrow> clist option" where
  "ndflush clp count =
     (if count = int (c_cc clp) then Some (clp\<lparr>c_cc := 0, c_cf := None, c_cl := None\<rparr>)
      else map_option clear_if_empty (ndflush_loop count clp))"

partial_function (option) b_to_q_loop ::
  "u_char list \<Rightarrow> int \<Rightarrow> clist \<Rightarrow> (clist \<times> int) option" where
  "b_to_q_loop p count clp =
     (if count > 0 \<and> c_cc clp < c_cn clp then do {
        f \<leftarrow> c_cf clp;
        l \<leftarrow> c_cl clp;
        buf \<leftarrow> c_cs clp;
        let cc = upto (if f > l then f - l else c_cn clp - l) count;
        buf1 \<leftarrow> (if cc \<le> length p then blit buf l (take cc p) else None);
        q \<leftarrow> upd_quote (c_cq clp) (\<lambda>q. clrbits q l cc);
        b_to_q_loop (drop cc p) (count - int cc)
          (clp\<lparr>c_cs := Some buf1, c_cq := q, c_cc := c_cc clp + cc, c_cl := Some (wrap clp (l + cc))\<rparr>)
      } else Some (clp, count))"

definition b_to_q :: "u_char list \<Rightarrow> int \<Rightarrow> clist \<Rightarrow> (clist \<times> int) option" where
  "b_to_q cp count clp =
     (if count \<le> 0 then Some (clp, 0)
      else if c_cc clp = c_cn clp then Some (clp, count)
      else b_to_q_loop cp count (start_empty clp))"

section \<open>Scanning\<close>

text \<open>
  The two \<open>while\<close> loops of \<open>ndqb\<close>: \<open>stop i\<close> is the test of the loop on the
  index before its increment. The loop also ends at the end of the ring.
\<close>

fun ndqb_loop :: "(nat \<Rightarrow> bool option) \<Rightarrow> nat \<Rightarrow> nat \<Rightarrow> nat \<Rightarrow> nat \<Rightarrow> nat option" where
  "ndqb_loop stop n 0 i count = Some count"
| "ndqb_loop stop n (Suc cc) i count = do {
     s \<leftarrow> stop i;
     if s then Some count
     else if i + 1 = n then Some (count + 1)
     else ndqb_loop stop n cc (i + 1) (count + 1)
   }"

definition ring_char :: "clist \<Rightarrow> nat \<Rightarrow> u_int option" where
  "ring_char clp i = do {
     buf \<leftarrow> c_cs clp;
     if i < length buf then Some (ucast (buf ! i)) else None
   }"

definition ndqb :: "clist \<Rightarrow> u_int \<Rightarrow> nat option" where
  "ndqb clp flag =
     (if c_cc clp = 0 then Some 0
      else do {
        f \<leftarrow> c_cf clp;
        l \<leftarrow> c_cl clp;
        if flag = 0 then Some (if l \<le> f then c_cn clp - f else l - f)
        else if has_flag flag TTY_QUOTE then
          ndqb_loop (\<lambda>i. do {
             c \<leftarrow> ring_char clp i;
             if has_flag c (flag AND NOT TTY_QUOTE) then Some True
             else do { q \<leftarrow> c_cq clp; isset q (i + 1) }
           }) (c_cn clp) (c_cc clp) f 0
        else
          ndqb_loop (\<lambda>i. map_option (\<lambda>c. has_flag c flag) (ring_char clp i))
            (c_cn clp) (c_cc clp) f 0
      })"

text \<open>
  \<open>firstc\<close> and \<open>nextc\<close> share the static counter \<open>cc\<close>, which they take and return:
  (new counter, pointer, character). Outer None is a wild access.
\<close>

definition firstc :: "clist \<Rightarrow> (nat \<times> (nat \<times> u_int) option) option" where
  "firstc clp =
     (if c_cc clp = 0 then Some (0, None)
      else do {
        cp \<leftarrow> c_cf clp;
        c \<leftarrow> char_at clp cp;
        Some (c_cc clp, Some (cp, c))
      })"

definition nextc :: "clist \<Rightarrow> nat \<Rightarrow> nat option \<Rightarrow> (nat \<times> (nat \<times> u_int) option) option" where
  "nextc clp cc0 cp =
     (let cc = (if c_cf clp = cp then c_cc clp else cc0) in
      case cp of
        None \<Rightarrow> Some (cc, None)
      | Some p \<Rightarrow>
          if cc = 0 then Some (0, None)
          else if cc - 1 = 0 then Some (0, None)
          else do {
            let p1 = wrap clp (p + 1);
            c \<leftarrow> char_at clp p1;
            Some (cc - 1, Some (p1, c))
          })"

section \<open>Moving one queue to another\<close>

text \<open>The loop ends because \<open>getc\<close> takes a character from the queue or returns -1.\<close>

lemma getc_shorter: "getc clp = Some (clp1, c) \<Longrightarrow> c \<noteq> -1 \<Longrightarrow> c_cc clp1 < c_cc clp"
  by (auto simp: getc_def Let_def clear_if_empty_def split: if_splits option.splits bind_splits)

function catq_loop :: "clist \<Rightarrow> clist \<Rightarrow> (clist \<times> clist) option" where
  "catq_loop from to =
     (case getc from of
        None \<Rightarrow> None
      | Some (from1, c) \<Rightarrow>
          if c = -1 then Some (from1, to)
          else (case putc c to of None \<Rightarrow> None | Some (to1, r) \<Rightarrow> catq_loop from1 to1))"
  by pat_completeness auto

termination
  by (relation "measure (\<lambda>(from, to). c_cc from)") (auto dest: getc_shorter)

declare catq_loop.simps [simp del]

definition catq :: "clist \<Rightarrow> clist \<Rightarrow> (clist \<times> clist) option" where
  "catq from to =
     (if c_cc from = 0 then Some (from, to)
      else if c_cc to = 0 \<and> c_cn from = c_cn to then Some (to, from)
      else catq_loop from to)"

text \<open>The loops compute.\<close>

declare q_to_b_loop.simps [code] and ndflush_loop.simps [code] and b_to_q_loop.simps [code]

end
