(* ===== verification/Clist_Queue.thy ===== *)
theory Clist_Queue
  imports Clist
begin

text \<open>
  The ring buffer refines a queue of characters with quote marks: an invariant
  of the ring, its contents as a list, and one theorem per operation. The
  locale \<open>char_queue\<close> is the contract a line discipline relies on.
\<close>

section \<open>The quote bitmap\<close>

text \<open>Bit \<open>i\<close> of a bitmap.\<close>

definition getbit :: "u_char list \<Rightarrow> nat \<Rightarrow> bool" where
  "getbit q i = bit (q ! (i div 8)) (i mod 8)"

lemma has_flag_push_bit: "has_flag (w :: u_char) (push_bit k 1) = bit w k"
proof -
  have "w AND push_bit k 1 = (if bit w k then push_bit k 1 else 0)"
    by (rule bit_word_eqI) (auto simp: bit_simps)
  moreover have "push_bit k (1 :: u_char) \<noteq> 0" if "bit w k"
    using bit_imp_le_length [OF that] by (simp add: push_bit_eq_mult exp_eq_zero_iff)
  ultimately show ?thesis by (auto simp: has_flag_def)
qed

lemma isset_eq: "i < 8 * length q \<Longrightarrow> isset q i = Some (getbit q i)"
  unfolding isset_def getbit_def NBBY_def has_flag_push_bit by auto

lemma same_bit: "i div 8 = j div 8 \<Longrightarrow> i mod 8 = j mod 8 \<Longrightarrow> i = (j :: nat)"
  by (metis div_mult_mod_eq)

lemma bit_byte_mask: "k < 8 \<Longrightarrow> n \<le> 8 \<Longrightarrow> bit (byte_mask n) k \<longleftrightarrow> k < n"
  by (simp add: byte_mask_def bit_simps push_bit_of_1 flip: mask_eq_exp_minus_1)

lemma getbit_upd:
  assumes "i < 8 * length q" "j div 8 < length q"
  shows "getbit (q[j div 8 := w]) i = (if i div 8 = j div 8 then bit w (i mod 8) else getbit q i)"
  using assms by (simp add: getbit_def nth_list_update)

lemma setbit_eq:
  assumes "j < 8 * length q"
  shows "\<exists>q'. setbit q j = Some q' \<and> length q' = length q \<and>
    (\<forall>i < 8 * length q. getbit q' i = (i = j \<or> getbit q i))"
proof -
  let ?q = "q[j div 8 := q ! (j div 8) OR push_bit (j mod 8) 1]"
  have "getbit ?q i = (i = j \<or> getbit q i)" if "i < 8 * length q" for i
    using that assms
    by (subst getbit_upd) (auto simp: getbit_def bit_simps dest: same_bit)
  with assms show ?thesis by (auto simp: setbit_def NBBY_def)
qed

lemma clrbit_eq:
  assumes "j < 8 * length q"
  shows "\<exists>q'. clrbit q j = Some q' \<and> length q' = length q \<and>
    (\<forall>i < 8 * length q. getbit q' i = (i \<noteq> j \<and> getbit q i))"
proof -
  let ?q = "q[j div 8 := q ! (j div 8) AND NOT (push_bit (j mod 8) 1)]"
  have "getbit ?q i = (i \<noteq> j \<and> getbit q i)" if "i < 8 * length q" for i
    using that assms
    by (subst getbit_upd) (auto simp: getbit_def bit_simps dest: same_bit)
  with assms show ?thesis by (auto simp: clrbit_def NBBY_def)
qed

text \<open>Clearing bits one at a time, as the comment above \<open>clrbits\<close> describes it.\<close>

fun clrbits_ref :: "u_char list \<Rightarrow> nat \<Rightarrow> nat \<Rightarrow> u_char list option" where
  "clrbits_ref q off 0 = Some q"
| "clrbits_ref q off (Suc n) = Option.bind (clrbit q off) (\<lambda>q'. clrbits_ref q' (off + 1) n)"

lemma clrbits_ref_eq:
  assumes "off + len \<le> 8 * length q"
  shows "\<exists>q'. clrbits_ref q off len = Some q' \<and> length q' = length q \<and>
    (\<forall>i < 8 * length q. getbit q' i = (\<not> (off \<le> i \<and> i < off + len) \<and> getbit q i))"
  using assms
proof (induction len arbitrary: q off)
  case (Suc n)
  then obtain q1 where q1: "clrbit q off = Some q1" "length q1 = length q"
    "\<forall>i < 8 * length q. getbit q1 i = (i \<noteq> off \<and> getbit q i)"
    using clrbit_eq [of off q] by auto
  with Suc.IH [of "off + 1" q1] Suc.prems obtain q2 where "clrbits_ref q1 (off + 1) n = Some q2"
    "length q2 = length q"
    "\<forall>i < 8 * length q. getbit q2 i = (\<not> (off + 1 \<le> i \<and> i < off + 1 + n) \<and> getbit q1 i)"
    by auto
  with q1 show ?case by auto
qed simp

lemma bitmap_eqI:
  assumes "length p = length q" "\<forall>i < 8 * length q. getbit p i = getbit q i"
  shows "p = q"
proof (rule nth_equalityI [OF assms(1)])
  fix b assume b: "b < length p"
  show "p ! b = q ! b"
  proof (rule bit_word_eqI)
    fix k assume "k < LENGTH(8)"
    then have "8 * b + k < 8 * length q" "(8 * b + k) div 8 = b" "(8 * b + k) mod 8 = k"
      using b assms(1) by auto
    with assms(2) show "bit (p ! b) k = bit (q ! b) k" unfolding getbit_def by metis
  qed
qed

lemma in_range_same_byte:
  fixes i :: nat
  assumes "off div 8 = (off + len) div 8" "i div 8 = off div 8"
  shows "off \<le> i \<and> i < off + len \<longleftrightarrow> off mod 8 \<le> i mod 8 \<and> i mod 8 < (off + len) mod 8"
  using assms div_mult_mod_eq [of i 8] div_mult_mod_eq [of off 8] div_mult_mod_eq [of "off + len" 8]
  by linarith

lemma in_range_bytes:
  fixes i :: nat
  assumes "off div 8 < (off + len) div 8"
  shows "off \<le> i \<and> i < off + len \<longleftrightarrow>
    (i div 8 = off div 8 \<and> off mod 8 \<le> i mod 8) \<or> (off div 8 < i div 8 \<and> i div 8 < (off + len) div 8) \<or>
    (i div 8 = (off + len) div 8 \<and> i mod 8 < (off + len) mod 8)"
proof -
  have "off \<le> i \<longleftrightarrow> off div 8 < i div 8 \<or> (i div 8 = off div 8 \<and> off mod 8 \<le> i mod 8)"
    using div_mult_mod_eq [of i 8] div_mult_mod_eq [of off 8] by linarith
  moreover have "i < off + len \<longleftrightarrow>
      i div 8 < (off + len) div 8 \<or> (i div 8 = (off + len) div 8 \<and> i mod 8 < (off + len) mod 8)"
    using div_mult_mod_eq [of i 8] div_mult_mod_eq [of "off + len" 8] by linarith
  ultimately show ?thesis using assms by auto
qed

lemma outside_iff:
  fixes a m s e si ei :: nat
  assumes "s < e"
  shows "(\<not> (a = e \<and> m < ei) \<and> \<not> (s + 1 \<le> a \<and> a < e) \<and> (a = s \<longrightarrow> m < si) \<and> g) \<longleftrightarrow>
    (\<not> ((a = s \<and> si \<le> m) \<or> (s < a \<and> a < e) \<or> (a = e \<and> m < ei)) \<and> g)"
  using assms by auto

lemma and_byte_eq:
  assumes "b < length q"
  shows "\<exists>q'. and_byte q b m = Some q' \<and> length q' = length q \<and>
    (\<forall>i < 8 * length q. getbit q' i = ((i div 8 = b \<longrightarrow> bit m (i mod 8)) \<and> getbit q i))"
  using assms by (auto simp: and_byte_def getbit_def nth_list_update bit_simps)

lemma zero_bytes_eq:
  assumes "e \<le> length q"
  shows "\<exists>q'. zero_bytes q b e = Some q' \<and> length q' = length q \<and>
    (\<forall>i < 8 * length q. getbit q' i = (\<not> (b \<le> i div 8 \<and> i div 8 < e) \<and> getbit q i))"
proof (cases "b < e")
  case True
  let ?q = "take b q @ replicate (e - b) 0 @ drop e q"
  have "length ?q = length q" using True assms by simp
  moreover have "getbit ?q i = (\<not> (b \<le> i div 8 \<and> i div 8 < e) \<and> getbit q i)" for i
    using True assms by (auto simp: getbit_def nth_append not_less)
  ultimately show ?thesis using True assms by (auto simp: zero_bytes_def)
qed (auto simp: zero_bytes_def)

lemma bit_inner_mask:
  "k < 8 \<Longrightarrow> s \<le> e \<Longrightarrow> e \<le> 8 \<Longrightarrow>
   bit (ucast (push_bit s (push_bit (e - s) 1 - 1 :: u_int)) :: u_char) k \<longleftrightarrow> s \<le> k \<and> k < e"
  by (auto simp: bit_simps push_bit_of_1 simp flip: mask_eq_exp_minus_1)

lemma clrbits_eq:
  assumes len: "0 < len" "off + len \<le> 8 * length q"
  shows "\<exists>q'. clrbits q off len = Some q' \<and> length q' = length q \<and>
    (\<forall>i < 8 * length q. getbit q' i = (\<not> (off \<le> i \<and> i < off + len) \<and> getbit q i))"
proof -
  let ?sby = "off div 8" and ?sbi = "off mod 8" and ?eby = "(off + len) div 8" and ?ebi = "(off + len) mod 8"
  have sb: "?sby < length q" using len by auto
  show ?thesis
  proof (cases "len = 1")
    case True
    then show ?thesis using clrbit_eq [of off q] len by (auto simp: clrbits_def)
  next
    case False
    show ?thesis
    proof (cases "?sby = ?eby")
      case True
      let ?m = "ucast (push_bit ?sbi (push_bit (?ebi - ?sbi) 1 - 1 :: u_int)) :: u_char"
      have le: "?sbi \<le> ?ebi" using True div_mult_mod_eq [of off 8] div_mult_mod_eq [of "off + len" 8]
        by linarith
      have "clrbits q off len = and_byte q ?sby (NOT ?m)"
        using False True unfolding clrbits_def Let_def NBBY_def by simp
      moreover have "bit (NOT ?m) (i mod 8) \<longleftrightarrow> \<not> (off \<le> i \<and> i < off + len)"
        if "i div 8 = ?sby" for i
        using bit_inner_mask [of "i mod 8" ?sbi ?ebi] le in_range_same_byte [OF True that]
        by (simp add: bit_not_iff)
      moreover have "\<not> (off \<le> i \<and> i < off + len)" if "i div 8 \<noteq> ?sby" for i
        using that True by (metis div_le_mono le_antisym less_imp_le)
      ultimately show ?thesis using and_byte_eq [OF sb, of "NOT ?m"] by metis
    next
      case neq: False
      then have lt: "?sby < ?eby" using div_le_mono [of off "off + len" 8] by linarith
      obtain q1 where q1: "and_byte q ?sby (byte_mask ?sbi) = Some q1" "length q1 = length q"
        "\<forall>i < 8 * length q. getbit q1 i = ((i div 8 = ?sby \<longrightarrow> bit (byte_mask ?sbi) (i mod 8)) \<and> getbit q i)"
        using and_byte_eq [OF sb] by blast
      have "?eby \<le> length q" using len by auto
      then obtain q2 where q2: "zero_bytes q1 (?sby + 1) ?eby = Some q2" "length q2 = length q"
        "\<forall>i < 8 * length q. getbit q2 i = (\<not> (?sby + 1 \<le> i div 8 \<and> i div 8 < ?eby) \<and> getbit q1 i)"
        using zero_bytes_eq [of ?eby q1 "?sby + 1"] q1(2) by auto
      have mask0: "byte_mask ?ebi = 0 \<longleftrightarrow> ?ebi = 0"
      proof
        assume "byte_mask ?ebi = 0"
        with bit_byte_mask [of 0 ?ebi] show "?ebi = 0" by auto
      qed (simp add: byte_mask_def)
      have eb: "?eby < length q" if "?ebi \<noteq> 0"
        using len(2) that div_mult_mod_eq [of "off + len" 8] by linarith
      have "\<exists>q'. (if byte_mask ?ebi \<noteq> 0 then and_byte q2 ?eby (NOT (byte_mask ?ebi)) else Some q2) =
          Some q' \<and> length q' = length q \<and>
          (\<forall>i < 8 * length q. getbit q' i = (\<not> (i div 8 = ?eby \<and> i mod 8 < ?ebi) \<and> getbit q2 i))"
      proof (cases "?ebi = 0")
        case True
        then show ?thesis using mask0 q2(2) by simp
      next
        case ne: False
        with mask0 have "byte_mask ?ebi \<noteq> 0" by simp
        then show ?thesis
          using and_byte_eq [of ?eby q2 "NOT (byte_mask ?ebi)"] q2(2) eb [OF ne]
          by (auto simp: bit_not_iff bit_byte_mask)
      qed
      then obtain q' where q': "(if byte_mask ?ebi \<noteq> 0 then and_byte q2 ?eby (NOT (byte_mask ?ebi))
          else Some q2) = Some q'" "length q' = length q"
        "\<forall>i < 8 * length q. getbit q' i = (\<not> (i div 8 = ?eby \<and> i mod 8 < ?ebi) \<and> getbit q2 i)"
        by blast
      have "clrbits q off len = Some q'"
        using False neq q1(1) q2(1) q'(1) unfolding clrbits_def Let_def NBBY_def by simp
      moreover have "getbit q' i = (\<not> (off \<le> i \<and> i < off + len) \<and> getbit q i)"
        if "i < 8 * length q" for i
      proof -
        have "getbit q' i = (\<not> (i div 8 = ?eby \<and> i mod 8 < ?ebi) \<and>
            \<not> (?sby + 1 \<le> i div 8 \<and> i div 8 < ?eby) \<and> (i div 8 = ?sby \<longrightarrow> i mod 8 < ?sbi) \<and> getbit q i)"
          using q1(3) q2(3) q'(3) that bit_byte_mask [of "i mod 8" ?sbi] by simp
        then show ?thesis unfolding in_range_bytes [OF lt] by (simp only: outside_iff [OF lt])
      qed
      ultimately show ?thesis using q'(2) by blast
    qed
  qed
qed

text \<open>
  The optimised \<open>clrbits\<close>, which works on whole bytes, clears the same bits as
  the loop of single \<open>clrbit\<close> calls it replaces, and touches no memory
  outside the map, whenever the range lies in the map.
\<close>

theorem clrbits_equiv:
  assumes "0 < len" "off + len \<le> 8 * length q"
  shows "clrbits q off len = clrbits_ref q off len \<and> clrbits q off len \<noteq> None"
proof -
  from clrbits_eq [OF assms] obtain q1 where q1: "clrbits q off len = Some q1" "length q1 = length q"
    "\<forall>i < 8 * length q. getbit q1 i = (\<not> (off \<le> i \<and> i < off + len) \<and> getbit q i)" by blast
  from clrbits_ref_eq [OF assms(2)] obtain q2 where q2: "clrbits_ref q off len = Some q2"
    "length q2 = length q"
    "\<forall>i < 8 * length q. getbit q2 i = (\<not> (off \<le> i \<and> i < off + len) \<and> getbit q i)" by blast
  have "q1 = q2" by (rule bitmap_eqI) (use q1 q2 in simp_all)
  with q1 q2 show ?thesis by simp
qed

theorem clrbits_equiv_witness:
  "clrbits [255, 255, 255] 3 14 = clrbits_ref [255, 255, 255] 3 14"
  using clrbits_equiv [of 14 3 "[255, 255, 255]"] by simp

section \<open>The ring\<close>

text \<open>
  Storage of the right size; a ring position \<open>f\<close> from which \<open>c_cc\<close> characters
  are stored; a queue is empty with NULL pointers or a ring.
\<close>

definition storage_ok :: "clist \<Rightarrow> bool" where
  "storage_ok clp \<longleftrightarrow> 0 < c_cn clp \<and> c_cc clp \<le> c_cn clp \<and>
     (case c_cs clp of None \<Rightarrow> False | Some buf \<Rightarrow> length buf = c_cn clp) \<and>
     (case c_cq clp of None \<Rightarrow> True | Some q \<Rightarrow> length q = QMEM (c_cn clp))"

definition ring :: "clist \<Rightarrow> nat \<Rightarrow> bool" where
  "ring clp f \<longleftrightarrow> storage_ok clp \<and> f < c_cn clp \<and> c_cf clp = Some f \<and>
     c_cl clp = Some ((f + c_cc clp) mod c_cn clp)"

definition clist_ok :: "clist \<Rightarrow> bool" where
  "clist_ok clp \<longleftrightarrow> storage_ok clp \<and>
     (if c_cc clp = 0 then c_cf clp = None \<and> c_cl clp = None
      else (case c_cf clp of None \<Rightarrow> False | Some f \<Rightarrow> ring clp f))"

definition quoted :: "u_char list option \<Rightarrow> nat \<Rightarrow> bool" where
  "quoted q i = (case q of None \<Rightarrow> False | Some a \<Rightarrow> getbit a i)"

definition slot :: "clist \<Rightarrow> nat \<Rightarrow> u_char \<times> bool" where
  "slot clp i = (the (c_cs clp) ! i, quoted (c_cq clp) i)"

definition contents_from :: "clist \<Rightarrow> nat \<Rightarrow> (u_char \<times> bool) list" where
  "contents_from clp f = map (\<lambda>i. slot clp ((f + i) mod c_cn clp)) [0..<c_cc clp]"

definition contents :: "clist \<Rightarrow> (u_char \<times> bool) list" where
  "contents clp = (case c_cf clp of None \<Rightarrow> [] | Some f \<Rightarrow> contents_from clp f)"

text \<open>A character as the C functions pass it.\<close>

definition encode :: "u_char \<times> bool \<Rightarrow> u_int" where
  "encode x = (if snd x then ucast (fst x) OR TTY_QUOTE else ucast (fst x))"

lemma QMEM_enough: "n \<le> 8 * QMEM n"
  unfolding QMEM_def NBBY_def by presburger

lemma mod_add_eq_imp:
  fixes a b n f :: nat
  assumes "a < n" "b < n" "(f + a) mod n = (f + b) mod n"
  shows "a = b"
proof -
  have "(f + x) mod n = (f + y) mod n \<Longrightarrow> x \<le> y \<Longrightarrow> y < n \<Longrightarrow> x = y" for x y
  proof -
    assume e: "(f + x) mod n = (f + y) mod n" and xy: "x \<le> y" "y < n"
    from e xy have "n dvd y - x"
      using mod_eq_dvd_iff_nat [where m = "f + y" and n = "f + x" and q = n] by simp
    with xy show "x = y" using nat_dvd_not_less [of "y - x" n] by linarith
  qed
  from this [of a b] this [of b a] assms show ?thesis by (cases "a \<le> b") auto
qed

lemma storage_bits:
  assumes "storage_ok clp" "i < c_cn clp" "c_cq clp = Some q"
  shows "i < 8 * length q"
  using assms QMEM_enough [of "c_cn clp"] by (auto simp: storage_ok_def)

lemma char_at_eq:
  assumes "storage_ok clp" "i < c_cn clp"
  shows "char_at clp i = Some (encode (slot clp i))"
  using assms storage_bits [OF assms]
  by (auto simp: char_at_def storage_ok_def slot_def quoted_def encode_def isset_eq
      split: option.splits)

lemma wrap_Suc: "i < c_cn clp \<Longrightarrow> wrap clp (i + 1) = (i + 1) mod c_cn clp"
  by (auto simp: wrap_def mod_if)

lemma ring_start:
  assumes "clist_ok clp"
  shows "\<exists>f. ring (start_empty clp) f \<and> contents_from (start_empty clp) f = contents clp \<and>
    c_cn (start_empty clp) = c_cn clp \<and> c_cc (start_empty clp) = c_cc clp \<and>
    c_cq (start_empty clp) = c_cq clp"
proof (cases "c_cc clp = 0")
  case True
  with assms show ?thesis
    by (intro exI [of _ 0])
      (auto simp: start_empty_def clist_ok_def ring_def storage_ok_def contents_def
        contents_from_def Let_def split: option.splits)
next
  case False
  with assms show ?thesis
    by (auto simp: start_empty_def clist_ok_def contents_def ring_def split: option.splits)
qed

lemma ring_clist_ok:
  assumes "ring clp f"
  shows "clist_ok (clear_if_empty clp)" "contents (clear_if_empty clp) = contents_from clp f"
    "c_cn (clear_if_empty clp) = c_cn clp" "c_cq (clear_if_empty clp) = c_cq clp"
    "c_cc (clear_if_empty clp) = c_cc clp"
  using assms
  by (auto simp: clear_if_empty_def clist_ok_def ring_def storage_ok_def contents_def contents_from_def
      split: option.splits)

lemma ring_nonempty: "ring clp f \<Longrightarrow> c_cc clp \<noteq> 0 \<Longrightarrow> clear_if_empty clp = clp"
  by (simp add: clear_if_empty_def)

text \<open>Storing a run of characters at the end of the ring.\<close>

lemma ring_append:
  assumes r: "ring clp f" and l: "l = (f + c_cc clp) mod c_cn clp"
    and m: "m = length xs" "c_cc clp + m \<le> c_cn clp" "l + m \<le> c_cn clp"
    and buf: "length buf = c_cn clp"
      "\<forall>i < c_cn clp. buf ! i = (if l \<le> i \<and> i < l + m then xs ! (i - l) else the (c_cs clp) ! i)"
    and q: "case q of None \<Rightarrow> c_cq clp = None
      | Some a \<Rightarrow> c_cq clp \<noteq> None \<and> length a = QMEM (c_cn clp)"
      "\<forall>i < c_cn clp. quoted q i = (if l \<le> i \<and> i < l + m then qs ! (i - l) else quoted (c_cq clp) i)"
    and qs: "length qs = m"
    and clp': "clp' = clp\<lparr>c_cs := Some buf, c_cq := q, c_cc := c_cc clp + m,
      c_cl := Some (wrap clp (l + m))\<rparr>"
  shows "ring clp' f \<and> contents_from clp' f = contents_from clp f @ zip xs qs"
proof
  let ?n = "c_cn clp"
  have n: "0 < ?n" "l < ?n" "f < ?n" using r l by (auto simp: ring_def storage_ok_def)
  have "wrap clp (l + m) = (l + m) mod ?n"
    using m(3) n by (auto simp: wrap_def)
  also have "\<dots> = (f + (c_cc clp + m)) mod ?n" by (simp add: l mod_add_left_eq add.assoc)
  finally show "ring clp' f"
    using r m buf q n by (auto simp: ring_def storage_ok_def clp' split: option.splits)
  show "contents_from clp' f = contents_from clp f @ zip xs qs"
  proof (rule nth_equalityI)
    show "length (contents_from clp' f) = length (contents_from clp f @ zip xs qs)"
      using m qs by (simp add: contents_from_def clp')
    fix i assume "i < length (contents_from clp' f)"
    then have i: "i < c_cc clp + m" by (simp add: contents_from_def clp')
    let ?j = "(f + i) mod ?n"
    have jn: "?j < ?n" using n by simp
    show "contents_from clp' f ! i = (contents_from clp f @ zip xs qs) ! i"
    proof (cases "i < c_cc clp")
      case True
      have "\<not> (l \<le> ?j \<and> ?j < l + m)"
      proof
        assume a: "l \<le> ?j \<and> ?j < l + m"
        define t where "t = ?j - l"
        with a have t: "t < m" "?j = l + t" by auto
        have "(f + (c_cc clp + t)) mod ?n = (l + t) mod ?n"
          by (simp add: l mod_add_left_eq add.assoc)
        also have "\<dots> = ?j" using t jn by simp
        finally have "c_cc clp + t = i"
          using mod_add_eq_imp [of "c_cc clp + t" ?n i f] m(2) t True i by simp
        with True show False by simp
      qed
      then have "buf ! ?j = the (c_cs clp) ! ?j" "quoted q ?j = quoted (c_cq clp) ?j"
        using buf(2) q(2) jn by auto
      with True i show ?thesis
        by (simp add: contents_from_def nth_append slot_def clp')
    next
      case False
      define t where "t = i - c_cc clp"
      with False i have t: "t < m" "i = c_cc clp + t" by auto
      have "?j = (l + t) mod ?n" by (simp add: t l mod_add_left_eq add.assoc)
      also have "\<dots> = l + t" using t m(3) by simp
      finally have "?j = l + t" .
      with False t i buf(2) q(2) jn m(1) qs show ?thesis
        by (simp add: contents_from_def nth_append slot_def clp')
    qed
  qed
qed

text \<open>Taking a run of characters off the front; what is not in the ring may be overwritten.\<close>

lemma ring_drop:
  assumes r: "ring clp f" and m: "m \<le> c_cc clp" "f + m \<le> c_cn clp"
    and buf: "length buf = c_cn clp"
      "\<forall>i < c_cn clp. i < f \<or> f + m \<le> i \<longrightarrow> buf ! i = the (c_cs clp) ! i"
    and q: "case q of None \<Rightarrow> c_cq clp = None
      | Some a \<Rightarrow> c_cq clp \<noteq> None \<and> length a = QMEM (c_cn clp)"
      "\<forall>i. m \<le> i \<and> i < c_cc clp \<longrightarrow>
        quoted q ((f + i) mod c_cn clp) = quoted (c_cq clp) ((f + i) mod c_cn clp)"
    and clp': "clp' = clp\<lparr>c_cs := Some buf, c_cq := q, c_cc := c_cc clp - m,
      c_cf := Some (wrap clp (f + m))\<rparr>"
  shows "ring clp' (wrap clp (f + m)) \<and>
    contents_from clp' (wrap clp (f + m)) = drop m (contents_from clp f)"
proof
  let ?n = "c_cn clp"
  have n: "0 < ?n" "f < ?n" "c_cc clp \<le> ?n" using r by (auto simp: ring_def storage_ok_def)
  have w: "wrap clp (f + m) = (f + m) mod ?n" using m(2) n by (auto simp: wrap_def)
  have "((f + m) mod ?n + (c_cc clp - m)) mod ?n = (f + m + (c_cc clp - m)) mod ?n"
    by (rule mod_add_left_eq)
  with m(1) have "((f + m) mod ?n + (c_cc clp - m)) mod ?n = (f + c_cc clp) mod ?n" by simp
  with w show "ring clp' (wrap clp (f + m))"
    using r m buf q n by (auto simp: ring_def storage_ok_def clp' split: option.splits)
  show "contents_from clp' (wrap clp (f + m)) = drop m (contents_from clp f)"
  proof (rule nth_equalityI)
    show "length (contents_from clp' (wrap clp (f + m))) = length (drop m (contents_from clp f))"
      by (simp add: contents_from_def clp')
    fix i assume "i < length (contents_from clp' (wrap clp (f + m)))"
    then have i: "m + i < c_cc clp" by (simp add: contents_from_def clp')
    let ?j = "(f + (m + i)) mod ?n"
    have j: "((f + m) mod ?n + i) mod ?n = ?j" by (simp add: mod_add_left_eq add.assoc)
    have jn: "?j < ?n" using n by simp
    have "\<not> (f \<le> ?j \<and> ?j < f + m)"
    proof
      assume a: "f \<le> ?j \<and> ?j < f + m"
      define t where "t = ?j - f"
      with a have t: "t < m" "?j = f + t" by auto
      then have "(f + t) mod ?n = (f + (m + i)) mod ?n" using jn by simp
      from mod_add_eq_imp [OF _ _ this] t i n(3) have "t = m + i" by simp
      with t show False by simp
    qed
    then have "buf ! ?j = the (c_cs clp) ! ?j" using buf(2) jn by auto
    moreover have "quoted q ?j = quoted (c_cq clp) ?j" using q(2) i by simp
    moreover have "i < c_cc clp - m" using i by simp
    ultimately show "contents_from clp' (wrap clp (f + m)) ! i = drop m (contents_from clp f) ! i"
      using i by (simp add: contents_from_def slot_def clp' w j)
  qed
qed

section \<open>Single characters\<close>

lemma upd_quote_ok:
  assumes st: "storage_ok clp"
    and F: "\<And>q. length q = QMEM (c_cn clp) \<Longrightarrow> \<exists>q'. F q = Some q' \<and> length q' = length q \<and>
      (\<forall>i < 8 * length q. getbit q' i = P i (getbit q i))"
  shows "\<exists>r. upd_quote (c_cq clp) F = Some r \<and>
    (case r of None \<Rightarrow> c_cq clp = None
      | Some a \<Rightarrow> c_cq clp \<noteq> None \<and> length a = QMEM (c_cn clp)) \<and>
    (\<forall>i < c_cn clp. quoted r i = (c_cq clp \<noteq> None \<and> P i (quoted (c_cq clp) i)))"
proof (cases "c_cq clp")
  case None
  then show ?thesis by (simp add: upd_quote_def quoted_def)
next
  case (Some q)
  with st have len: "length q = QMEM (c_cn clp)" by (simp add: storage_ok_def)
  from F [OF this] obtain q' where "F q = Some q'" "length q' = length q"
    "\<forall>i < 8 * length q. getbit q' i = P i (getbit q i)" by blast
  with Some len QMEM_enough [of "c_cn clp"] show ?thesis
    by (auto simp: upd_quote_def quoted_def)
qed

text \<open>What a character becomes in a queue that may have no quote bitmap.\<close>

definition mark :: "clist \<Rightarrow> u_char \<times> bool \<Rightarrow> u_char \<times> bool" where
  "mark clp x = (fst x, snd x \<and> c_cq clp \<noteq> None)"

definition decode :: "u_int \<Rightarrow> u_char \<times> bool" where
  "decode c = (ucast c, has_flag c TTY_QUOTE)"

text \<open>The queue afterwards has the same ring and the same kind of bitmap.\<close>

definition same_shape :: "clist \<Rightarrow> clist \<Rightarrow> bool" where
  "same_shape a b \<longleftrightarrow> c_cn a = c_cn b \<and> (c_cq a = None \<longleftrightarrow> c_cq b = None)"

lemma ring_full_ok:
  assumes "ring clp f" "0 < c_cc clp"
  shows "clist_ok clp" "contents clp = contents_from clp f"
  using ring_clist_ok [OF assms(1)] ring_nonempty [OF assms(1)] assms(2) by auto

lemma ok_ring:
  assumes "clist_ok clp" "0 < c_cc clp"
  shows "\<exists>f. ring clp f \<and> contents clp = contents_from clp f"
  using assms by (auto simp: clist_ok_def contents_def ring_def split: option.splits)

lemma length_contents: "clist_ok clp \<Longrightarrow> length (contents clp) = c_cc clp"
  by (auto simp: clist_ok_def contents_def contents_from_def split: option.splits if_splits)

lemma ok_storage: "clist_ok clp \<Longrightarrow> storage_ok clp"
  by (simp add: clist_ok_def)

lemma ring_storage:
  assumes "ring clp f"
  shows "storage_ok clp" "f < c_cn clp" "c_cc clp \<le> c_cn clp" "0 < c_cn clp"
    "\<exists>buf. c_cs clp = Some buf \<and> length buf = c_cn clp"
  using assms by (auto simp: ring_def storage_ok_def split: option.splits)

lemma putc_stores:
  assumes ok: "clist_ok clp" and room: "c_cc clp < c_cn clp"
  shows "\<exists>clp'. putc c clp = Some (clp', 0) \<and> clist_ok clp' \<and> same_shape clp' clp \<and>
    contents clp' = contents clp @ [mark clp (decode c)]"
proof -
  let ?s = "start_empty clp"
  from ring_start [OF ok] obtain f where f: "ring ?s f" "contents_from ?s f = contents clp"
    "c_cn ?s = c_cn clp" "c_cc ?s = c_cc clp" "c_cq ?s = c_cq clp" by blast
  define l where "l = (f + c_cc ?s) mod c_cn ?s"
  obtain buf where buf: "c_cs ?s = Some buf" "length buf = c_cn ?s"
    using ring_storage(5) [OF f(1)] by blast
  have l: "l < c_cn ?s" "c_cl ?s = Some l"
    using ring_storage(4) [OF f(1)] f(1) by (auto simp: l_def ring_def)
  let ?q = "has_flag c TTY_QUOTE"
  have F: "\<exists>q'. (if ?q then setbit q l else clrbit q l) = Some q' \<and> length q' = length q \<and>
      (\<forall>i < 8 * length q. getbit q' i = (if i = l then ?q else getbit q i))"
    if "length q = QMEM (c_cn ?s)" for q
    using setbit_eq [of l q] clrbit_eq [of l q] that l(1) QMEM_enough [of "c_cn ?s"] by auto
  from upd_quote_ok [OF ring_storage(1) [OF f(1)], of "\<lambda>q. if ?q then setbit q l else clrbit q l"
      "\<lambda>i g. if i = l then ?q else g", OF F]
  obtain r where r: "upd_quote (c_cq ?s) (\<lambda>q. if ?q then setbit q l else clrbit q l) = Some r"
    "case r of None \<Rightarrow> c_cq ?s = None | Some a \<Rightarrow> c_cq ?s \<noteq> None \<and> length a = QMEM (c_cn ?s)"
    "\<forall>i < c_cn ?s. quoted r i = (c_cq ?s \<noteq> None \<and> (if i = l then ?q else quoted (c_cq ?s) i))"
    by blast
  define clp' where "clp' = ?s\<lparr>c_cs := Some (buf[l := ucast c]), c_cq := r, c_cc := c_cc ?s + 1,
      c_cl := Some (wrap ?s (l + 1))\<rparr>"
  have noq: "\<not> quoted (c_cq ?s) i" if "c_cq ?s = None" for i using that by (simp add: quoted_def)
  have "ring clp' f \<and>
      contents_from clp' f = contents_from ?s f @ zip [ucast c] [c_cq ?s \<noteq> None \<and> ?q]"
    by (rule ring_append [OF f(1) l_def, where m = 1 and buf = "buf[l := ucast c]" and q = r])
      (use buf l room f(3,4) r(2,3) noq in \<open>auto simp: nth_list_update clp'_def\<close>)
  then have "clist_ok clp'" "contents clp' = contents clp @ [mark clp (decode c)]"
    using ring_full_ok [of clp' f] f by (auto simp: clp'_def mark_def decode_def)
  moreover have "putc c clp = Some (clp', 0)"
    using room l buf r(1) by (simp add: putc_def clp'_def Let_def)
  moreover have "same_shape clp' clp"
    using r(2) f by (auto simp: same_shape_def clp'_def split: option.splits)
  ultimately show ?thesis by blast
qed

lemma getc_takes:
  assumes ok: "clist_ok clp" and ne: "0 < c_cc clp"
  shows "\<exists>clp'. getc clp = Some (clp', encode (hd (contents clp))) \<and> clist_ok clp' \<and>
    same_shape clp' clp \<and> contents clp' = tl (contents clp)"
proof -
  from ok_ring [OF ok ne] obtain f where f: "ring clp f" "contents clp = contents_from clp f" by blast
  note st = ring_storage [OF f(1)]
  define l where "l = (f + c_cc clp) mod c_cn clp"
  obtain buf where buf: "c_cs clp = Some buf" "length buf = c_cn clp" using st(5) by blast
  have l: "l < c_cn clp" "c_cl clp = Some l" "c_cf clp = Some f"
    using st(4) f(1) by (auto simp: l_def ring_def)
  have F: "\<exists>q'. clrbit q l = Some q' \<and> length q' = length q \<and>
      (\<forall>i < 8 * length q. getbit q' i = (i \<noteq> l \<and> getbit q i))"
    if "length q = QMEM (c_cn clp)" for q
    using clrbit_eq [of l q] that l(1) QMEM_enough [of "c_cn clp"] by auto
  from upd_quote_ok [OF st(1), of "\<lambda>q. clrbit q l" "\<lambda>i g. i \<noteq> l \<and> g", OF F]
  obtain r where r: "upd_quote (c_cq clp) (\<lambda>q. clrbit q l) = Some r"
    "case r of None \<Rightarrow> c_cq clp = None | Some a \<Rightarrow> c_cq clp \<noteq> None \<and> length a = QMEM (c_cn clp)"
    "\<forall>i < c_cn clp. quoted r i = (c_cq clp \<noteq> None \<and> i \<noteq> l \<and> quoted (c_cq clp) i)"
    by blast
  have nl: "(f + i) mod c_cn clp \<noteq> l" if "1 \<le> i" "i < c_cc clp" for i
  proof
    assume e: "(f + i) mod c_cn clp = l"
    show False
    proof (cases "c_cc clp = c_cn clp")
      case True
      with e have "(f + i) mod c_cn clp = (f + 0) mod c_cn clp" by (simp add: l_def)
      from mod_add_eq_imp [OF _ _ this] that st(3) show False by simp
    next
      case False
      with e that st(3) mod_add_eq_imp [of i "c_cn clp" "c_cc clp" f] show False
        by (simp add: l_def)
    qed
  qed
  have q2: "quoted r ((f + i) mod c_cn clp) = quoted (c_cq clp) ((f + i) mod c_cn clp)"
    if "1 \<le> i" "i < c_cc clp" for i
    using r(3) nl [OF that] st(4) by (auto simp: quoted_def)
  define clp' where "clp' = clp\<lparr>c_cs := Some (buf[f := 0]), c_cq := r, c_cc := c_cc clp - 1,
      c_cf := Some (wrap clp (f + 1))\<rparr>"
  have "ring clp' (wrap clp (f + 1)) \<and>
      contents_from clp' (wrap clp (f + 1)) = drop 1 (contents_from clp f)"
    by (rule ring_drop [OF f(1), where m = 1 and buf = "buf[f := 0]" and q = r])
      (use buf st ne r(2) q2 in \<open>auto simp: nth_list_update clp'_def\<close>)
  then have "clist_ok (clear_if_empty clp')" "contents (clear_if_empty clp') = tl (contents clp)"
    "same_shape (clear_if_empty clp') clp"
    using ring_clist_ok [of clp' "wrap clp (f + 1)"] f r(2)
    by (auto simp: drop_Suc same_shape_def clp'_def split: option.splits)
  moreover have "hd (contents clp) = slot clp f"
    using ne st f(2) by (simp add: contents_from_def hd_map upt_conv_Cons)
  then have "getc clp = Some (clear_if_empty clp', encode (hd (contents clp)))"
    using ne l buf r(1) st(1,2) by (simp add: getc_def clp'_def char_at_eq)
  ultimately show ?thesis by blast
qed

lemma unputc_takes:
  assumes ok: "clist_ok clp" and ne: "0 < c_cc clp"
  shows "\<exists>clp'. unputc clp = Some (clp', encode (last (contents clp))) \<and> clist_ok clp' \<and>
    same_shape clp' clp \<and> contents clp' = butlast (contents clp)"
proof -
  from ok_ring [OF ok ne] obtain f where f: "ring clp f" "contents clp = contents_from clp f" by blast
  note st = ring_storage [OF f(1)]
  let ?n = "c_cn clp" and ?k = "c_cc clp - 1"
  define l where "l = (f + c_cc clp) mod ?n"
  define l1 where "l1 = (if l = 0 then ?n - 1 else l - 1)"
  have k: "f + c_cc clp = Suc (f + ?k)" using ne by simp
  have l1: "l1 = (f + ?k) mod ?n"
    using st(4) unfolding l1_def l_def k by (auto simp: mod_Suc)
  define clp' where "clp' = clp\<lparr>c_cl := Some l1, c_cc := ?k\<rparr>"
  have "ring clp' f"
    using f(1) l1 by (auto simp: ring_def storage_ok_def clp'_def split: option.splits)
  moreover have "contents_from clp' f = butlast (contents_from clp f)"
    using ne by (cases "c_cc clp") (simp_all add: contents_from_def clp'_def slot_def)
  moreover have "last (contents clp) = slot clp l1"
    using ne f(2) l1 by (simp add: contents_from_def last_map)
  moreover have "char_at clp l1 = Some (encode (slot clp l1))"
    using char_at_eq [OF st(1), of l1] st(4) l1 by simp
  moreover have "c_cl clp = Some l" using f(1) by (simp add: ring_def l_def)
  ultimately show ?thesis
    using ring_clist_ok [of clp' f] f(2) ne
    by (auto simp: unputc_def clp'_def l1_def [symmetric] same_shape_def Let_def)
qed

section \<open>Blocks of characters\<close>

lemma run_to_end:
  assumes r: "ring clp f" and room: "c_cc clp < c_cn clp" and c: "0 < count"
    and l: "l = (f + c_cc clp) mod c_cn clp"
    and cc: "cc = upto (if f > l then f - l else c_cn clp - l) count"
  shows "0 < cc" "c_cc clp + cc \<le> c_cn clp" "l + cc \<le> c_cn clp" "int cc \<le> count"
proof -
  note st = ring_storage [OF r]
  have "cc \<le> (if f > l then f - l else c_cn clp - l)" using c by (auto simp: cc upto_def)
  moreover have "l < c_cn clp" using l st by simp
  moreover have "l = (if f + c_cc clp < c_cn clp then f + c_cc clp else f + c_cc clp - c_cn clp)"
    using l st(2,3) by (auto simp: mod_if)
  ultimately show "c_cc clp + cc \<le> c_cn clp" "l + cc \<le> c_cn clp"
    using room st by (auto split: if_splits)
  show "0 < cc" "int cc \<le> count" using c \<open>l < c_cn clp\<close> by (auto simp: cc upto_def)
qed

lemma run_from_start:
  assumes r: "ring clp f" and ne: "0 < c_cc clp" and c: "0 < count"
    and l: "l = (f + c_cc clp) mod c_cn clp"
    and cc: "cc = upto (run_length clp f l) count"
  shows "0 < cc" "cc \<le> c_cc clp" "f + cc \<le> c_cn clp" "int cc \<le> count"
proof -
  note st = ring_storage [OF r]
  have "cc \<le> run_length clp f l" using c by (auto simp: cc upto_def)
  moreover have "l < c_cn clp" using l st by simp
  moreover have "l = (if f + c_cc clp < c_cn clp then f + c_cc clp else f + c_cc clp - c_cn clp)"
    using l st(2,3) by (auto simp: mod_if)
  ultimately show "cc \<le> c_cc clp" "f + cc \<le> c_cn clp"
    using ne st by (auto simp: run_length_def split: if_splits)
  show "0 < cc" "int cc \<le> count"
    using c st by (auto simp: cc upto_def run_length_def)
qed

lemma blit_eq:
  assumes "l + length xs \<le> length buf"
  shows "\<exists>b. blit buf l xs = Some b \<and> length b = length buf \<and>
    (\<forall>i < length buf. b ! i = (if l \<le> i \<and> i < l + length xs then xs ! (i - l) else buf ! i))"
  using assms by (auto simp: blit_def nth_append)

lemma b_to_q_step:
  assumes r: "ring clp f" and room: "c_cc clp < c_cn clp" and c: "0 < count" "count \<le> int (length p)"
  shows "\<exists>cc clp1. b_to_q_loop p count clp = b_to_q_loop (drop cc p) (count - int cc) clp1 \<and>
    0 < cc \<and> c_cc clp + cc \<le> c_cn clp \<and> int cc \<le> count \<and> ring clp1 f \<and> same_shape clp1 clp \<and>
    c_cc clp1 = c_cc clp + cc \<and>
    contents_from clp1 f = contents_from clp f @ map (\<lambda>x. (x, False)) (take cc p)"
proof -
  note st = ring_storage [OF r]
  define l where "l = (f + c_cc clp) mod c_cn clp"
  define cc where "cc = upto (if f > l then f - l else c_cn clp - l) count"
  note cc = run_to_end [OF r room c(1) l_def cc_def]
  obtain buf where buf: "c_cs clp = Some buf" "length buf = c_cn clp" using st(5) by blast
  have ccp: "cc \<le> length p" using cc(4) c(2) by linarith
  with cc(3) buf(2) blit_eq [of l "take cc p" buf] obtain b where b: "blit buf l (take cc p) = Some b"
    "length b = c_cn clp"
    "\<forall>i < c_cn clp. b ! i = (if l \<le> i \<and> i < l + cc then take cc p ! (i - l) else buf ! i)"
    by (auto simp: min_absorb2)
  have F: "\<exists>q'. clrbits q l cc = Some q' \<and> length q' = length q \<and>
      (\<forall>i < 8 * length q. getbit q' i = (\<not> (l \<le> i \<and> i < l + cc) \<and> getbit q i))"
    if "length q = QMEM (c_cn clp)" for q
    using clrbits_eq [of cc l q] that cc(1,3) QMEM_enough [of "c_cn clp"] by auto
  from upd_quote_ok [OF st(1), of "\<lambda>q. clrbits q l cc" "\<lambda>i g. \<not> (l \<le> i \<and> i < l + cc) \<and> g", OF F]
  obtain q where q: "upd_quote (c_cq clp) (\<lambda>q. clrbits q l cc) = Some q"
    "case q of None \<Rightarrow> c_cq clp = None | Some a \<Rightarrow> c_cq clp \<noteq> None \<and> length a = QMEM (c_cn clp)"
    "\<forall>i < c_cn clp. quoted q i =
      (c_cq clp \<noteq> None \<and> \<not> (l \<le> i \<and> i < l + cc) \<and> quoted (c_cq clp) i)"
    by blast
  define clp1 where "clp1 = clp\<lparr>c_cs := Some b, c_cq := q, c_cc := c_cc clp + cc,
      c_cl := Some (wrap clp (l + cc))\<rparr>"
  have "\<forall>i < c_cn clp. quoted q i =
      (if l \<le> i \<and> i < l + cc then replicate cc False ! (i - l) else quoted (c_cq clp) i)"
    using q(3) by (auto simp: quoted_def)
  then have "ring clp1 f \<and>
      contents_from clp1 f = contents_from clp f @ zip (take cc p) (replicate cc False)"
    using ring_append [OF r l_def, of cc "take cc p" b q "replicate cc False" clp1]
      buf b(2,3) q(2) cc(2,3) ccp by (simp add: clp1_def)
  moreover have "zip (take cc p) (replicate cc False) = map (\<lambda>x. (x, False)) (take cc p)"
    using ccp by (intro nth_equalityI) auto
  moreover have "b_to_q_loop p count clp = b_to_q_loop (drop cc p) (count - int cc) clp1"
    using r room c(1) buf b(1) q(1) ccp
    by (subst b_to_q_loop.simps) (simp add: ring_def l_def [symmetric] cc_def [symmetric] clp1_def)
  moreover have "same_shape clp1 clp"
    using q(2) by (auto simp: same_shape_def clp1_def split: option.splits)
  ultimately show ?thesis
    using cc by (intro exI [of _ cc] exI [of _ clp1]) (simp add: clp1_def)
qed

lemma b_to_q_loop_ok:
  assumes "ring clp f" "count \<le> int (length p)" "0 \<le> count"
  shows "\<exists>clp' k. b_to_q_loop p count clp = Some (clp', count - int k) \<and>
    k = min (nat count) (c_cn clp - c_cc clp) \<and> ring clp' f \<and> same_shape clp' clp \<and>
    c_cc clp' = c_cc clp + k \<and>
    contents_from clp' f = contents_from clp f @ map (\<lambda>x. (x, False)) (take k p)"
  using assms
proof (induction "nat count" arbitrary: p count clp rule: less_induct)
  case less
  show ?case
  proof (cases "count > 0 \<and> c_cc clp < c_cn clp")
    case False
    then have "b_to_q_loop p count clp = Some (clp, count)" by (subst b_to_q_loop.simps) auto
    with False less.prems show ?thesis
      by (intro exI [of _ clp] exI [of _ 0]) (auto simp: same_shape_def)
  next
    case True
    with b_to_q_step [OF less.prems(1), of count p] less.prems(2)
    obtain cc clp1 where s: "b_to_q_loop p count clp = b_to_q_loop (drop cc p) (count - int cc) clp1"
      "0 < cc" "c_cc clp + cc \<le> c_cn clp" "int cc \<le> count" "ring clp1 f" "same_shape clp1 clp"
      "c_cc clp1 = c_cc clp + cc"
      "contents_from clp1 f = contents_from clp f @ map (\<lambda>x. (x, False)) (take cc p)"
      by blast
    have "nat (count - int cc) < nat count" "count - int cc \<le> int (length (drop cc p))"
      "0 \<le> count - int cc"
      using s(2,4) less.prems(2) by auto
    from less.hyps [OF this(1) s(5) this(2,3)] obtain clp' k where
      h: "b_to_q_loop (drop cc p) (count - int cc) clp1 = Some (clp', count - int cc - int k)"
        "k = min (nat (count - int cc)) (c_cn clp1 - c_cc clp1)" "ring clp' f" "same_shape clp' clp1"
        "c_cc clp' = c_cc clp1 + k"
        "contents_from clp' f = contents_from clp1 f @ map (\<lambda>x. (x, False)) (take k (drop cc p))"
      by blast
    have "cc + k = min (nat count) (c_cn clp - c_cc clp)"
      using h(2) s(3,4,6,7) by (auto simp: same_shape_def)
    moreover have "same_shape clp' clp" using h(4) s(6) by (simp add: same_shape_def)
    moreover have "contents_from clp' f = contents_from clp f @ map (\<lambda>x. (x, False)) (take (cc + k) p)"
      unfolding h(6) s(8) by (simp add: take_add)
    moreover have "b_to_q_loop p count clp = Some (clp', count - int (cc + k))"
      unfolding s(1) h(1) by simp
    ultimately show ?thesis using h(3,5) s(7) add.assoc by metis
  qed
qed

lemma ndflush_loop_ok:
  assumes "ring clp f" "0 \<le> count"
  shows "\<exists>clp' f'. ndflush_loop count clp = Some clp' \<and> ring clp' f' \<and> same_shape clp' clp \<and>
    contents_from clp' f' = drop (nat count) (contents_from clp f)"
  using assms
proof (induction "nat count" arbitrary: count clp f rule: less_induct)
  case less
  note st = ring_storage [OF less.prems(1)]
  show ?case
  proof (cases "count > 0 \<and> c_cc clp > 0")
    case False
    then have "ndflush_loop count clp = Some clp" by (subst ndflush_loop.simps) auto
    with False less.prems show ?thesis
      by (intro exI [of _ clp] exI [of _ f]) (auto simp: same_shape_def contents_from_def)
  next
    case True
    define l where "l = (f + c_cc clp) mod c_cn clp"
    define cc where "cc = upto (run_length clp f l) count"
    note cc = run_from_start [OF less.prems(1) _ _ l_def cc_def]
    define clp1 where "clp1 = clp\<lparr>c_cc := c_cc clp - cc, c_cf := Some (wrap clp (f + cc))\<rparr>"
    have "clp1 = clp\<lparr>c_cs := Some (the (c_cs clp)), c_cq := c_cq clp, c_cc := c_cc clp - cc,
        c_cf := Some (wrap clp (f + cc))\<rparr>"
      using st(5) by (auto simp: clp1_def)
    with cc True st have r1: "ring clp1 (wrap clp (f + cc)) \<and>
        contents_from clp1 (wrap clp (f + cc)) = drop cc (contents_from clp f)"
      by (intro ring_drop [OF less.prems(1), where buf = "the (c_cs clp)" and q = "c_cq clp"])
        (auto simp: storage_ok_def split: option.splits)
    have "nat (count - int cc) < nat count" "0 \<le> count - int cc" using cc True by auto
    from less.hyps [OF this(1) _ this(2)] r1 obtain clp' f' where
      h: "ndflush_loop (count - int cc) clp1 = Some clp'" "ring clp' f'" "same_shape clp' clp1"
        "contents_from clp' f' = drop (nat (count - int cc)) (drop cc (contents_from clp f))"
      by metis
    have "ndflush_loop count clp = Some clp'"
      using True less.prems(1) h(1)
      by (subst ndflush_loop.simps)
        (simp add: ring_def l_def [symmetric] cc_def [symmetric] clp1_def)
    moreover have "nat (count - int cc) + cc = nat count" using cc True by auto
    ultimately show ?thesis using h by (auto simp: same_shape_def clp1_def)
  qed
qed

lemma q_to_b_loop_ok:
  assumes "ring clp f" "0 \<le> count" "c_cq clp = None"
  shows "\<exists>clp' f'. q_to_b_loop out count clp =
      Some (out @ map fst (take (nat count) (contents_from clp f)), clp') \<and> ring clp' f' \<and>
    same_shape clp' clp \<and> contents_from clp' f' = drop (nat count) (contents_from clp f)"
  using assms
proof (induction "nat count" arbitrary: out count clp f rule: less_induct)
  case less
  note st = ring_storage [OF less.prems(1)]
  show ?case
  proof (cases "count > 0 \<and> c_cc clp > 0")
    case False
    then have "q_to_b_loop out count clp = Some (out, clp)" by (subst q_to_b_loop.simps) auto
    with False less.prems show ?thesis
      by (intro exI [of _ clp] exI [of _ f]) (auto simp: same_shape_def contents_from_def)
  next
    case True
    define l where "l = (f + c_cc clp) mod c_cn clp"
    define cc where "cc = upto (run_length clp f l) count"
    note cc = run_from_start [OF less.prems(1) _ _ l_def cc_def]
    obtain buf where buf: "c_cs clp = Some buf" "length buf = c_cn clp" using st(5) by blast
    obtain b where b: "blit buf f (replicate cc 0) = Some b" "length b = c_cn clp"
      "\<forall>i < c_cn clp. b ! i = (if f \<le> i \<and> i < f + cc then replicate cc 0 ! (i - f) else buf ! i)"
      using blit_eq [of f "replicate cc 0" buf] buf cc True by auto
    define clp1 where "clp1 = clp\<lparr>c_cs := Some b, c_cq := None, c_cc := c_cc clp - cc,
        c_cf := Some (wrap clp (f + cc))\<rparr>"
    have r1: "ring clp1 (wrap clp (f + cc)) \<and>
        contents_from clp1 (wrap clp (f + cc)) = drop cc (contents_from clp f)"
      by (rule ring_drop [OF less.prems(1)])
        (use cc True b buf less.prems(3) in \<open>auto simp: clp1_def\<close>)
    have chars: "take cc (drop f buf) = map fst (take cc (contents_from clp f))"
      using cc True buf
      by (intro nth_equalityI) (auto simp: contents_from_def slot_def)
    have dec: "nat (count - int cc) < nat count" "0 \<le> count - int cc" using cc True by auto
    have none: "c_cq clp1 = None" by (simp add: clp1_def)
    from less.hyps [OF dec(1) _ dec(2) none, of "wrap clp (f + cc)" "out @ take cc (drop f buf)"] r1
    obtain clp' f' where
      h: "q_to_b_loop (out @ take cc (drop f buf)) (count - int cc) clp1 =
          Some ((out @ take cc (drop f buf)) @
            map fst (take (nat (count - int cc)) (drop cc (contents_from clp f))), clp')"
        "ring clp' f'" "same_shape clp' clp1"
        "contents_from clp' f' = drop (nat (count - int cc)) (drop cc (contents_from clp f))"
      by metis
    have n: "nat count = cc + nat (count - int cc)" using cc True by auto
    have "q_to_b_loop out count clp = q_to_b_loop (out @ take cc (drop f buf)) (count - int cc) clp1"
      using True less.prems(1,3) buf b(1)
      by (subst q_to_b_loop.simps)
        (simp add: ring_def l_def [symmetric] cc_def [symmetric] clp1_def upd_quote_def)
    also have "\<dots> = Some (out @ map fst (take (nat count) (contents_from clp f)), clp')"
      unfolding h(1) n by (simp add: chars take_add)
    finally have "q_to_b_loop out count clp =
        Some (out @ map fst (take (nat count) (contents_from clp f)), clp')" .
    moreover have "contents_from clp' f' = drop (nat count) (contents_from clp f)"
      unfolding h(4) n by (simp add: add.commute)
    ultimately show ?thesis
      using h(2,3) less.prems(3) by (auto simp: same_shape_def clp1_def)
  qed
qed

section \<open>Characters as the functions pass them\<close>

lemma bit_TTY_QUOTE: "bit TTY_QUOTE n \<longleftrightarrow> n = 8"
proof -
  have e: "TTY_QUOTE = push_bit 8 1" by (simp add: TTY_QUOTE_def)
  show ?thesis unfolding e bit_push_bit_iff bit_1_iff by auto
qed

lemma decode_encode [simp]: "decode (encode x) = x"
proof -
  have "ucast (ucast c OR TTY_QUOTE :: u_int) = c" for c :: u_char
    by (rule bit_word_eqI) (auto simp: bit_simps bit_TTY_QUOTE)
  moreover have "has_flag (ucast c OR TTY_QUOTE :: u_int) TTY_QUOTE" for c :: u_char
  proof -
    have "bit ((ucast c OR TTY_QUOTE :: u_int) AND TTY_QUOTE) 8"
      by (simp add: bit_and_iff bit_or_iff bit_TTY_QUOTE)
    then show ?thesis by (auto simp: has_flag_def)
  qed
  moreover have "\<not> has_flag (ucast c :: u_int) TTY_QUOTE" for c :: u_char
  proof -
    have "(ucast c :: u_int) AND TTY_QUOTE = 0"
      by (rule bit_word_eqI) (auto simp: bit_simps bit_TTY_QUOTE dest: bit_imp_le_length)
    then show ?thesis by (simp add: has_flag_def)
  qed
  moreover have "ucast (ucast c :: u_int) = c" for c :: u_char
    by (rule bit_word_eqI) (auto simp: bit_simps)
  ultimately show ?thesis by (cases x) (simp add: decode_def encode_def)
qed

lemma encode_not_minus_one [simp]: "encode x \<noteq> -1"
proof
  assume "encode x = -1"
  then have "bit (encode x) 9" by simp
  moreover have "\<not> bit (encode x) 9"
    by (auto simp: encode_def bit_simps bit_TTY_QUOTE dest: bit_imp_le_length)
  ultimately show False by simp
qed

section \<open>The contract of a character queue\<close>

text \<open>
  What the terminal code relies on: a bounded queue of characters with quote
  marks, from which the last character can also be taken back.
\<close>

datatype qop = Put u_int | Get | Unput

datatype qresult = Status int | Char u_int

text \<open>The abstract queue: a list, its capacity, and whether marks are kept.\<close>

fun queue_step :: "nat \<Rightarrow> bool \<Rightarrow> qop \<Rightarrow> (u_char \<times> bool) list \<Rightarrow> (u_char \<times> bool) list \<times> qresult" where
  "queue_step n quot (Put c) xs =
     (if length xs < n then (xs @ [(fst (decode c), snd (decode c) \<and> quot)], Status 0)
      else (xs, Status (-1)))"
| "queue_step n quot Get xs =
     (if xs = [] then (xs, Char (-1)) else (tl xs, Char (encode (hd xs))))"
| "queue_step n quot Unput xs =
     (if xs = [] then (xs, Char (-1)) else (butlast xs, Char (encode (last xs))))"

fun queue_run ::
  "nat \<Rightarrow> bool \<Rightarrow> qop list \<Rightarrow> (u_char \<times> bool) list \<Rightarrow> (u_char \<times> bool) list \<times> qresult list" where
  "queue_run n quot [] xs = (xs, [])"
| "queue_run n quot (p # ps) xs =
     (let (ys, r) = queue_step n quot p xs; (zs, rs) = queue_run n quot ps ys in (zs, r # rs))"

locale char_queue =
  fixes ok :: "'s \<Rightarrow> bool"
    and items :: "'s \<Rightarrow> (u_char \<times> bool) list"
    and cap :: "'s \<Rightarrow> nat"
    and quotes :: "'s \<Rightarrow> bool"
    and put :: "u_int \<Rightarrow> 's \<Rightarrow> ('s \<times> int) option"
    and get :: "'s \<Rightarrow> ('s \<times> u_int) option"
    and unput :: "'s \<Rightarrow> ('s \<times> u_int) option"
  assumes put_room: "ok s \<Longrightarrow> length (items s) < cap s \<Longrightarrow>
      \<exists>t. put c s = Some (t, 0) \<and> ok t \<and> cap t = cap s \<and> quotes t = quotes s \<and>
        items t = items s @ [(fst (decode c), snd (decode c) \<and> quotes s)]"
    and put_full: "ok s \<Longrightarrow> \<not> length (items s) < cap s \<Longrightarrow> put c s = Some (s, -1)"
    and get_some: "ok s \<Longrightarrow> items s \<noteq> [] \<Longrightarrow>
      \<exists>t. get s = Some (t, encode (hd (items s))) \<and> ok t \<and> cap t = cap s \<and> quotes t = quotes s \<and>
        items t = tl (items s)"
    and get_none: "ok s \<Longrightarrow> items s = [] \<Longrightarrow> get s = Some (s, -1)"
    and unput_some: "ok s \<Longrightarrow> items s \<noteq> [] \<Longrightarrow>
      \<exists>t. unput s = Some (t, encode (last (items s))) \<and> ok t \<and> cap t = cap s \<and>
        quotes t = quotes s \<and> items t = butlast (items s)"
    and unput_none: "ok s \<Longrightarrow> items s = [] \<Longrightarrow> unput s = Some (s, -1)"
begin

fun step :: "qop \<Rightarrow> 's \<Rightarrow> ('s \<times> qresult) option" where
  "step (Put c) s = map_option (\<lambda>(t, r). (t, Status r)) (put c s)"
| "step Get s = map_option (\<lambda>(t, c). (t, Char c)) (get s)"
| "step Unput s = map_option (\<lambda>(t, c). (t, Char c)) (unput s)"

fun run :: "qop list \<Rightarrow> 's \<Rightarrow> ('s \<times> qresult list) option" where
  "run [] s = Some (s, [])"
| "run (p # ps) s = do {
     (t, r) \<leftarrow> step p s;
     (u, rs) \<leftarrow> run ps t;
     Some (u, r # rs)
   }"

lemma step_refines:
  assumes "ok s"
  shows "\<exists>t. step p s = Some (t, snd (queue_step (cap s) (quotes s) p (items s))) \<and> ok t \<and>
    cap t = cap s \<and> quotes t = quotes s \<and>
    items t = fst (queue_step (cap s) (quotes s) p (items s))"
proof (cases p)
  case (Put c)
  show ?thesis
  proof (cases "length (items s) < cap s")
    case True
    from put_room [OF assms True, of c] True show ?thesis by (auto simp: Put)
  next
    case False
    with put_full [OF assms False, of c] assms show ?thesis by (auto simp: Put)
  qed
next
  case Get
  with get_some [OF assms] get_none [OF assms] assms show ?thesis
    by (cases "items s = []") auto
next
  case Unput
  with unput_some [OF assms] unput_none [OF assms] assms show ?thesis
    by (cases "items s = []") auto
qed

lemma run_refines:
  assumes "ok s"
  shows "\<exists>t. run ps s = Some (t, snd (queue_run (cap s) (quotes s) ps (items s))) \<and> ok t \<and>
    cap t = cap s \<and> quotes t = quotes s \<and>
    items t = fst (queue_run (cap s) (quotes s) ps (items s))"
  using assms
proof (induction ps arbitrary: s)
  case (Cons p ps)
  from step_refines [OF Cons.prems, of p] obtain t where t:
    "step p s = Some (t, snd (queue_step (cap s) (quotes s) p (items s)))" "ok t"
    "cap t = cap s" "quotes t = quotes s"
    "items t = fst (queue_step (cap s) (quotes s) p (items s))" by blast
  from Cons.IH [OF t(2)] t show ?case by (auto simp: Let_def split: prod.splits)
qed simp

end

interpretation clq: char_queue clist_ok contents c_cn "\<lambda>clp. c_cq clp \<noteq> None" putc getc unputc
proof
  fix s c assume ok: "clist_ok s"
  note len = length_contents [OF ok]
  have pos: "0 < c_cc s" if "contents s \<noteq> []" using that len by (cases "c_cc s") auto
  show "\<exists>t. putc c s = Some (t, 0) \<and> clist_ok t \<and> c_cn t = c_cn s \<and>
      (c_cq t \<noteq> None) = (c_cq s \<noteq> None) \<and>
      contents t = contents s @ [(fst (decode c), snd (decode c) \<and> c_cq s \<noteq> None)]"
    if "length (contents s) < c_cn s"
    using putc_stores [OF ok, of c] that len by (auto simp: same_shape_def mark_def)
  show "putc c s = Some (s, -1)" if "\<not> length (contents s) < c_cn s"
    using that len ok_storage [OF ok] by (simp add: putc_def storage_ok_def)
  show "\<exists>t. getc s = Some (t, encode (hd (contents s))) \<and> clist_ok t \<and> c_cn t = c_cn s \<and>
      (c_cq t \<noteq> None) = (c_cq s \<noteq> None) \<and> contents t = tl (contents s)"
    if "contents s \<noteq> []"
    using getc_takes [OF ok pos [OF that]] by (auto simp: same_shape_def)
  show "\<exists>t. unputc s = Some (t, encode (last (contents s))) \<and> clist_ok t \<and> c_cn t = c_cn s \<and>
      (c_cq t \<noteq> None) = (c_cq s \<noteq> None) \<and> contents t = butlast (contents s)"
    if "contents s \<noteq> []"
    using unputc_takes [OF ok pos [OF that]] by (auto simp: same_shape_def)
  show "getc s = Some (s, -1)" "unputc s = Some (s, -1)" if "contents s = []"
    using that len by (simp_all add: getc_def unputc_def)
qed

lemma clalloc_ok:
  assumes "0 < n"
  shows "clist_ok (clalloc n quot)" "contents (clalloc n quot) = []"
    "c_cn (clalloc n quot) = n" "(c_cq (clalloc n quot) = None) = (\<not> quot)"
  using assms by (simp_all add: clalloc_def clist_ok_def storage_ok_def contents_def)

text \<open>
  C6. On a queue made by \<open>clalloc\<close>, every sequence of \<open>putc\<close>, \<open>getc\<close> and \<open>unputc\<close>
  returns what a bounded queue of marked characters returns: characters
  come out in order with their quote marks, -1 on empty and on full, and no
  operation leaves the ring, the bitmap or the invariant.
\<close>

theorem clist_trace:
  assumes "0 < n"
  shows "\<exists>clp. clq.run ps (clalloc n quot) = Some (clp, snd (queue_run n quot ps [])) \<and>
    clist_ok clp \<and> contents clp = fst (queue_run n quot ps [])"
  using clq.run_refines [of "clalloc n quot" ps] clalloc_ok [OF assms, of quot] by auto

theorem clist_trace_witness:
  "\<exists>clp. clq.run [Put 0x141, Put 66, Put 67, Get, Unput] (clalloc 2 True) =
      Some (clp, [Status 0, Status 0, Status (-1), Char 0x141, Char 66]) \<and> contents clp = []"
  using clist_trace [of 2 "[Put 0x141, Put 66, Put 67, Get, Unput]" True]
  by (auto simp: decode_def encode_def has_flag_def TTY_QUOTE_def)

text \<open>
  \<open>b_to_q\<close> appends, unquoted, as many of the characters as there is
  room for and returns how many are left over; the loop ends and stays
  inside ring and bitmap.
\<close>

theorem b_to_q_correct:
  assumes ok: "clist_ok clp" and len: "count \<le> int (length cp)"
  shows "\<exists>clp'. b_to_q cp count clp =
      Some (clp', max 0 count - int (min (nat count) (c_cn clp - c_cc clp))) \<and> clist_ok clp' \<and>
    contents clp' =
      contents clp @ map (\<lambda>x. (x, False)) (take (min (nat count) (c_cn clp - c_cc clp)) cp)"
proof (cases "count \<le> 0 \<or> c_cc clp = c_cn clp")
  case True
  with ok show ?thesis by (auto simp: b_to_q_def)
next
  case False
  from ring_start [OF ok] obtain f where f: "ring (start_empty clp) f"
    "contents_from (start_empty clp) f = contents clp"
    "c_cn (start_empty clp) = c_cn clp" "c_cc (start_empty clp) = c_cc clp" by blast
  define k where "k = min (nat count) (c_cn clp - c_cc clp)"
  from b_to_q_loop_ok [OF f(1) len] False f(2-4) obtain clp' where
    h: "b_to_q_loop cp count (start_empty clp) = Some (clp', count - int k)" "ring clp' f"
      "c_cc clp' = c_cc clp + k"
      "contents_from clp' f = contents clp @ map (\<lambda>x. (x, False)) (take k cp)"
    by (auto simp: k_def)
  have "0 < k" using False ok_storage [OF ok] by (simp add: k_def storage_ok_def)
  with h ring_full_ok [of clp' f] False show ?thesis
    by (auto simp: b_to_q_def k_def [symmetric] max_def)
qed

theorem b_to_q_correct_witness:
  "\<exists>clp'. b_to_q [65, 66, 67] 3 (clalloc 2 True) = Some (clp', 1) \<and> clist_ok clp' \<and>
    contents clp' = [(65, False), (66, False)]"
  using b_to_q_correct [of "clalloc 2 True" 3 "[65, 66, 67]"] clalloc_ok [of 2 True]
  by (simp add: clalloc_def numeral_2_eq_2)

text \<open>
  On a queue without quote bitmap \<open>q_to_b\<close> copies out the first \<open>count\<close>
  characters in order, or all of them when there are fewer, and leaves
  the rest in the queue.
\<close>

theorem q_to_b_correct:
  assumes ok: "clist_ok clp" and q: "c_cq clp = None" and c: "0 \<le> count"
  shows "\<exists>clp'. q_to_b clp count = Some (clp', map fst (take (nat count) (contents clp))) \<and>
    clist_ok clp' \<and> contents clp' = drop (nat count) (contents clp)"
proof (cases "c_cc clp = 0")
  case True
  then have "q_to_b_loop [] count clp = Some ([], clp)" by (subst q_to_b_loop.simps) simp
  moreover have "contents clp = []" using length_contents [OF ok] True by simp
  moreover have "clear_if_empty clp = clp"
    using True ok by (simp add: clear_if_empty_def clist_ok_def)
  ultimately show ?thesis using ok by (simp add: q_to_b_def)
next
  case False
  then obtain f where f: "ring clp f" "contents clp = contents_from clp f" using ok_ring [OF ok] by auto
  from q_to_b_loop_ok [OF f(1) c q, of "[]"] obtain clp' f' where
    "q_to_b_loop [] count clp = Some (map fst (take (nat count) (contents clp)), clp')" "ring clp' f'"
    "contents_from clp' f' = drop (nat count) (contents clp)"
    using f(2) by auto
  with ring_clist_ok [of clp' f'] show ?thesis by (simp add: q_to_b_def)
qed

text \<open>A queue of three characters that wraps around the end of a ring of four.\<close>

definition sample_queue :: clist where
  "sample_queue = \<lparr>c_cc = 3, c_cn = 4, c_cf = Some 3, c_cl = Some 2,
     c_cs = Some [66, 67, 0, 65], c_cq = None\<rparr>"

lemma sample_queue_ok:
  "clist_ok sample_queue" "contents sample_queue = [(65, False), (66, False), (67, False)]"
  "c_cq sample_queue = None"
  by code_simp+

theorem q_to_b_correct_witness:
  "\<exists>clp'. q_to_b sample_queue 2 = Some (clp', [65, 66]) \<and> clist_ok clp' \<and>
    contents clp' = [(67, False)]"
  using q_to_b_correct [of sample_queue 2] by (simp add: sample_queue_ok numeral_2_eq_2)

text \<open>
  After the queue holds five characters in a ring of eight with a quote
  bitmap, \<open>q_to_b\<close> of these five clears bits past the end of the
  one-byte bitmap: it clears from the offset of \<open>c_cl\<close>, not of \<open>c_cf\<close>.
\<close>

theorem q_to_b_overruns_bitmap:
  "case b_to_q [65, 66, 67, 68, 69] 5 (clalloc 8 True) of
     None \<Rightarrow> False
   | Some (clp, left) \<Rightarrow> left = 0 \<and> clist_ok clp \<and> q_to_b clp 5 = None"
  by code_simp

text \<open>
  \<open>ndflush\<close> of \<open>count\<close> characters removes the first \<open>count\<close> characters.
\<close>

theorem ndflush_correct:
  assumes ok: "clist_ok clp" and c: "0 \<le> count"
  shows "\<exists>clp'. ndflush clp count = Some clp' \<and> clist_ok clp' \<and>
    contents clp' = drop (nat count) (contents clp)"
proof (cases "count = int (c_cc clp)")
  case True
  with ok length_contents [OF ok] show ?thesis
    by (auto simp: ndflush_def clist_ok_def storage_ok_def contents_def split: option.splits)
next
  case ne: False
  show ?thesis
  proof (cases "c_cc clp = 0")
    case True
    then have "ndflush_loop count clp = Some clp" by (subst ndflush_loop.simps) simp
    moreover have "contents clp = []" using length_contents [OF ok] True by simp
    moreover have "clear_if_empty clp = clp"
      using True ok by (simp add: clear_if_empty_def clist_ok_def)
    ultimately show ?thesis using ne ok by (simp add: ndflush_def)
  next
    case False
    then obtain f where f: "ring clp f" "contents clp = contents_from clp f"
      using ok_ring [OF ok] by auto
    from ndflush_loop_ok [OF f(1) c] obtain clp' f' where
      "ndflush_loop count clp = Some clp'" "ring clp' f'"
      "contents_from clp' f' = drop (nat count) (contents clp)"
      using f(2) by auto
    with ring_clist_ok [of clp' f'] ne show ?thesis by (simp add: ndflush_def)
  qed
qed

theorem ndflush_correct_witness:
  "\<exists>clp'. ndflush sample_queue 2 = Some clp' \<and> clist_ok clp' \<and> contents clp' = [(67, False)]"
  using ndflush_correct [of sample_queue 2] by (simp add: sample_queue_ok numeral_2_eq_2)

section \<open>Moving and scanning\<close>

lemma catq_loop_ok:
  assumes "clist_ok from" "clist_ok to"
  shows "\<exists>from' to'. catq_loop from to = Some (from', to') \<and> clist_ok from' \<and> clist_ok to' \<and>
    contents from' = [] \<and>
    contents to' = take (c_cn to) (contents to @ map (mark to) (contents from))"
  using assms
proof (induction "from" to rule: catq_loop.induct)
  case (1 "from" to)
  note len = length_contents [OF "1.prems"(1)] length_contents [OF "1.prems"(2)]
  have le: "c_cc to \<le> c_cn to" using ok_storage [OF "1.prems"(2)] by (simp add: storage_ok_def)
  show ?case
  proof (cases "c_cc from = 0")
    case True
    then have "getc from = Some (from, -1)" by (simp add: getc_def)
    with "1.prems" True len le show ?thesis by (subst catq_loop.simps) simp
  next
    case False
    then have ne: "contents from \<noteq> []" using len by auto
    let ?c = "encode (hd (contents from))"
    from getc_takes [OF "1.prems"(1)] False obtain f1 where
      f1: "getc from = Some (f1, ?c)" "clist_ok f1" "contents f1 = tl (contents from)" by auto
    have c: "?c \<noteq> -1" by (rule encode_not_minus_one)
    show ?thesis
    proof (cases "c_cc to < c_cn to")
      case True
      from putc_stores [OF "1.prems"(2) True, of ?c] obtain t1 where
        t1: "putc ?c to = Some (t1, 0)" "clist_ok t1" "same_shape t1 to"
          "contents t1 = contents to @ [mark to (hd (contents from))]" by auto
      have m: "mark t1 = mark to" "c_cn t1 = c_cn to"
        using t1(3) by (auto simp: mark_def same_shape_def fun_eq_iff)
      have "contents to @ map (mark to) (contents from) =
          contents t1 @ map (mark t1) (contents f1)"
        using ne t1(4) f1(3) m by (cases "contents from") auto
      with "1.IH" [OF f1(1) refl c t1(1) refl f1(2) t1(2)] f1(1) t1(1) m c show ?thesis by (subst catq_loop.simps) simp
    next
      case full: False
      then have p: "putc ?c to = Some (to, -1)" using le by (simp add: putc_def)
      with "1.IH" [OF f1(1) refl c p refl f1(2) "1.prems"(2)] f1 len le full c show ?thesis by (subst catq_loop.simps) auto
    qed
  qed
qed

text \<open>
  \<open>catq\<close> moves every character of \<open>from\<close> to the end of \<open>to\<close>, in order and with
  its mark when both queues keep marks, dropping what does not fit in \<open>to\<close>, and
  leaves \<open>from\<close> empty. The exchange of the two structures on an empty
  \<open>to\<close> of the same size is the same operation.
\<close>

theorem catq_correct:
  assumes ok: "clist_ok from" "clist_ok to" and q: "(c_cq from = None) = (c_cq to = None)"
  shows "\<exists>from' to'. catq from to = Some (from', to') \<and> clist_ok from' \<and> clist_ok to' \<and>
    contents from' = [] \<and> contents to' = take (c_cn to) (contents to @ contents from)"
proof -
  note len = length_contents [OF ok(1)] length_contents [OF ok(2)]
  have le: "c_cc to \<le> c_cn to" "c_cc from \<le> c_cn from"
    using ok_storage [OF ok(1)] ok_storage [OF ok(2)] by (auto simp: storage_ok_def)
  have "map (mark to) (contents from) = contents from"
    by (rule map_idI)
      (use q in \<open>auto simp: mark_def contents_def contents_from_def slot_def quoted_def
        split: option.splits\<close>)
  with catq_loop_ok [OF ok] len le ok show ?thesis
    by (auto simp: catq_def)
qed

theorem catq_correct_witness:
  "\<exists>from' to'. catq sample_queue (clalloc 2 False) = Some (from', to') \<and> contents from' = [] \<and>
    contents to' = [(65, False), (66, False)]"
  using catq_correct [of sample_queue "clalloc 2 False"] clalloc_ok [of 2 False]
  by (auto simp: sample_queue_ok numeral_2_eq_2)

text \<open>
  The loop over a queue with \<open>firstc\<close> and \<open>nextc\<close>, as the retype code of tty.c
  writes it; each turn yields one character.
\<close>

fun scan_next :: "nat \<Rightarrow> clist \<Rightarrow> nat \<times> (nat \<times> u_int) option \<Rightarrow> u_int list option" where
  "scan_next fuel clp (cc, None) = Some []"
| "scan_next 0 clp (cc, Some (cp, c)) = None"
| "scan_next (Suc fuel) clp (cc, Some (cp, c)) = do {
     r \<leftarrow> nextc clp cc (Some cp);
     cs \<leftarrow> scan_next fuel clp r;
     Some (c # cs)
   }"

definition scan :: "clist \<Rightarrow> u_int list option" where
  "scan clp = Option.bind (firstc clp) (scan_next (c_cc clp) clp)"

lemma nextc_eq:
  assumes r: "ring clp f" and k: "k < c_cc clp"
  shows "nextc clp (c_cc clp - k) (Some ((f + k) mod c_cn clp)) =
    (if Suc k < c_cc clp then
       Some (c_cc clp - Suc k, Some ((f + Suc k) mod c_cn clp, encode (contents_from clp f ! Suc k)))
     else Some (0, None))"
proof -
  note st = ring_storage [OF r]
  have first: "k = 0" if "(f + k) mod c_cn clp = f"
    using mod_add_eq_imp [of k "c_cn clp" 0 f] that k st by simp
  have "c_cf clp = Some f" using r by (simp add: ring_def)
  moreover have "wrap clp ((f + k) mod c_cn clp + 1) = (f + Suc k) mod c_cn clp"
    using wrap_Suc [of "(f + k) mod c_cn clp" clp] st by (simp add: mod_Suc_eq)
  moreover have "char_at clp ((f + Suc k) mod c_cn clp) = Some (encode (contents_from clp f ! Suc k))"
    if "Suc k < c_cc clp"
    using char_at_eq [OF st(1), of "(f + Suc k) mod c_cn clp"] st that
    by (simp add: contents_from_def)
  ultimately show ?thesis using k first by (auto simp: nextc_def)
qed

lemma scan_next_eq:
  assumes r: "ring clp f" and k: "k < c_cc clp" "c_cc clp \<le> fuel + k"
  shows "scan_next fuel clp
      (c_cc clp - k, Some ((f + k) mod c_cn clp, encode (contents_from clp f ! k))) =
    Some (map encode (drop k (contents_from clp f)))"
  using k
proof (induction fuel arbitrary: k)
  case (Suc fuel)
  have d: "drop k (contents_from clp f) = contents_from clp f ! k # drop (Suc k) (contents_from clp f)"
    using Suc.prems by (intro Cons_nth_drop_Suc [symmetric]) (simp add: contents_from_def)
  show ?case
  proof (cases "Suc k < c_cc clp")
    case True
    with nextc_eq [OF r Suc.prems(1)] Suc.IH [of "Suc k"] Suc.prems d show ?thesis by simp
  next
    case False
    then have "drop (Suc k) (contents_from clp f) = []" by (simp add: contents_from_def)
    with False nextc_eq [OF r Suc.prems(1)] d show ?thesis by simp
  qed
qed simp

text \<open>
  Scanning with \<open>firstc\<close> and \<open>nextc\<close> visits exactly the characters of the queue, in
  order and with their quote marks, and then ends.
\<close>

theorem scan_correct:
  assumes ok: "clist_ok clp"
  shows "scan clp = Some (map encode (contents clp))"
proof (cases "c_cc clp = 0")
  case True
  with length_contents [OF ok] show ?thesis by (simp add: scan_def firstc_def)
next
  case False
  then obtain f where f: "ring clp f" "contents clp = contents_from clp f" using ok_ring [OF ok] by auto
  note st = ring_storage [OF f(1)]
  have "contents_from clp f ! 0 = slot clp f" using False st by (simp add: contents_from_def)
  moreover have "c_cf clp = Some f" using f(1) by (simp add: ring_def)
  ultimately have "firstc clp =
      Some (c_cc clp - 0, Some ((f + 0) mod c_cn clp, encode (contents_from clp f ! 0)))"
    using False st char_at_eq [OF st(1,2)] by (simp add: firstc_def)
  with scan_next_eq [OF f(1), of 0 "c_cc clp"] False f(2) show ?thesis by (simp add: scan_def)
qed

theorem scan_correct_witness: "scan sample_queue = Some [65, 66, 67]"
  using scan_correct [of sample_queue] by (simp add: sample_queue_ok encode_def)

end
