(* ===== verification/Bpf.thy ===== *)
theory Bpf
  imports Prelude "HOL-Library.Monad_Syntax"
begin

text \<open>
  The packet filter machine of net/bpf_filter.c: its instructions, the reads of a
  packet that lies in one buffer or in a chain of mbufs, the interpreter and the
  validator of filter programs.

  An access outside the program, the scratch memory or the packet data, a NULL
  dereference and a division by zero are the value None.
\<close>

section \<open>Instructions\<close>

record bpf_insn =
  code :: u_short
  jt :: u_char
  jf :: u_char
  k :: u_int

definition BPF_MEMWORDS :: nat where "BPF_MEMWORDS = 16"

definition BPF_MAXINSNS :: nat where "BPF_MAXINSNS = 512"

text \<open>The fields of an instruction code.\<close>

definition BPF_CLASS :: "u_short \<Rightarrow> u_short" where "BPF_CLASS c = c AND 0x07"
definition BPF_MODE :: "u_short \<Rightarrow> u_short" where "BPF_MODE c = c AND 0xe0"
definition BPF_OP :: "u_short \<Rightarrow> u_short" where "BPF_OP c = c AND 0xf0"
definition BPF_SRC :: "u_short \<Rightarrow> u_short" where "BPF_SRC c = c AND 0x08"

abbreviation "BPF_LD \<equiv> 0x00 :: u_short"
abbreviation "BPF_LDX \<equiv> 0x01 :: u_short"
abbreviation "BPF_ST \<equiv> 0x02 :: u_short"
abbreviation "BPF_STX \<equiv> 0x03 :: u_short"
abbreviation "BPF_ALU \<equiv> 0x04 :: u_short"
abbreviation "BPF_JMP \<equiv> 0x05 :: u_short"
abbreviation "BPF_RET \<equiv> 0x06 :: u_short"
abbreviation "BPF_MISC \<equiv> 0x07 :: u_short"

abbreviation "BPF_W \<equiv> 0x00 :: u_short"
abbreviation "BPF_H \<equiv> 0x08 :: u_short"
abbreviation "BPF_B \<equiv> 0x10 :: u_short"

abbreviation "BPF_IMM \<equiv> 0x00 :: u_short"
abbreviation "BPF_ABS \<equiv> 0x20 :: u_short"
abbreviation "BPF_IND \<equiv> 0x40 :: u_short"
abbreviation "BPF_MEM \<equiv> 0x60 :: u_short"
abbreviation "BPF_LEN \<equiv> 0x80 :: u_short"
abbreviation "BPF_MSH \<equiv> 0xa0 :: u_short"

abbreviation "BPF_ADD \<equiv> 0x00 :: u_short"
abbreviation "BPF_SUB \<equiv> 0x10 :: u_short"
abbreviation "BPF_MUL \<equiv> 0x20 :: u_short"
abbreviation "BPF_DIV \<equiv> 0x30 :: u_short"
abbreviation "BPF_OR \<equiv> 0x40 :: u_short"
abbreviation "BPF_AND \<equiv> 0x50 :: u_short"
abbreviation "BPF_LSH \<equiv> 0x60 :: u_short"
abbreviation "BPF_RSH \<equiv> 0x70 :: u_short"
abbreviation "BPF_NEG \<equiv> 0x80 :: u_short"

abbreviation "BPF_JA \<equiv> 0x00 :: u_short"
abbreviation "BPF_JEQ \<equiv> 0x10 :: u_short"
abbreviation "BPF_JGT \<equiv> 0x20 :: u_short"
abbreviation "BPF_JGE \<equiv> 0x30 :: u_short"
abbreviation "BPF_JSET \<equiv> 0x40 :: u_short"

abbreviation "BPF_K \<equiv> 0x00 :: u_short"
abbreviation "BPF_X \<equiv> 0x08 :: u_short"
abbreviation "BPF_A \<equiv> 0x10 :: u_short"

abbreviation "BPF_TAX \<equiv> 0x00 :: u_short"
abbreviation "BPF_TXA \<equiv> 0x80 :: u_short"

text \<open>
  The cases of the \<open>switch\<close> of \<open>bpf_filter\<close>, in its order; every other code takes the
  default case.
\<close>

datatype width = Word | Half | Byte

datatype src = SrcK | SrcX

datatype cmp = JGT | JGE | JEQ | JSET

datatype alu = ADD | SUB | MUL | DIV | AND_OP | OR_OP | LSH | RSH

datatype bpf_op =
    RET_K | RET_A | LD_ABS width | LD_LEN | LDX_LEN | LD_IND width | LDX_MSH
  | LD_IMM | LDX_IMM | LD_MEM | LDX_MEM | ST | STX | JA | JUMP cmp src | ALU_OP alu src
  | NEG | TAX | TXA | OTHER

definition op_table :: "(u_short \<times> bpf_op) list" where
  "op_table = [
     (BPF_RET OR BPF_K, RET_K),
     (BPF_RET OR BPF_A, RET_A),
     (BPF_LD OR BPF_W OR BPF_ABS, LD_ABS Word),
     (BPF_LD OR BPF_H OR BPF_ABS, LD_ABS Half),
     (BPF_LD OR BPF_B OR BPF_ABS, LD_ABS Byte),
     (BPF_LD OR BPF_W OR BPF_LEN, LD_LEN),
     (BPF_LDX OR BPF_W OR BPF_LEN, LDX_LEN),
     (BPF_LD OR BPF_W OR BPF_IND, LD_IND Word),
     (BPF_LD OR BPF_H OR BPF_IND, LD_IND Half),
     (BPF_LD OR BPF_B OR BPF_IND, LD_IND Byte),
     (BPF_LDX OR BPF_MSH OR BPF_B, LDX_MSH),
     (BPF_LD OR BPF_IMM, LD_IMM),
     (BPF_LDX OR BPF_IMM, LDX_IMM),
     (BPF_LD OR BPF_MEM, LD_MEM),
     (BPF_LDX OR BPF_MEM, LDX_MEM),
     (BPF_ST, ST),
     (BPF_STX, STX),
     (BPF_JMP OR BPF_JA, JA),
     (BPF_JMP OR BPF_JGT OR BPF_K, JUMP JGT SrcK),
     (BPF_JMP OR BPF_JGE OR BPF_K, JUMP JGE SrcK),
     (BPF_JMP OR BPF_JEQ OR BPF_K, JUMP JEQ SrcK),
     (BPF_JMP OR BPF_JSET OR BPF_K, JUMP JSET SrcK),
     (BPF_JMP OR BPF_JGT OR BPF_X, JUMP JGT SrcX),
     (BPF_JMP OR BPF_JGE OR BPF_X, JUMP JGE SrcX),
     (BPF_JMP OR BPF_JEQ OR BPF_X, JUMP JEQ SrcX),
     (BPF_JMP OR BPF_JSET OR BPF_X, JUMP JSET SrcX),
     (BPF_ALU OR BPF_ADD OR BPF_X, ALU_OP ADD SrcX),
     (BPF_ALU OR BPF_SUB OR BPF_X, ALU_OP SUB SrcX),
     (BPF_ALU OR BPF_MUL OR BPF_X, ALU_OP MUL SrcX),
     (BPF_ALU OR BPF_DIV OR BPF_X, ALU_OP DIV SrcX),
     (BPF_ALU OR BPF_AND OR BPF_X, ALU_OP AND_OP SrcX),
     (BPF_ALU OR BPF_OR OR BPF_X, ALU_OP OR_OP SrcX),
     (BPF_ALU OR BPF_LSH OR BPF_X, ALU_OP LSH SrcX),
     (BPF_ALU OR BPF_RSH OR BPF_X, ALU_OP RSH SrcX),
     (BPF_ALU OR BPF_ADD OR BPF_K, ALU_OP ADD SrcK),
     (BPF_ALU OR BPF_SUB OR BPF_K, ALU_OP SUB SrcK),
     (BPF_ALU OR BPF_MUL OR BPF_K, ALU_OP MUL SrcK),
     (BPF_ALU OR BPF_DIV OR BPF_K, ALU_OP DIV SrcK),
     (BPF_ALU OR BPF_AND OR BPF_K, ALU_OP AND_OP SrcK),
     (BPF_ALU OR BPF_OR OR BPF_K, ALU_OP OR_OP SrcK),
     (BPF_ALU OR BPF_LSH OR BPF_K, ALU_OP LSH SrcK),
     (BPF_ALU OR BPF_RSH OR BPF_K, ALU_OP RSH SrcK),
     (BPF_ALU OR BPF_NEG, NEG),
     (BPF_MISC OR BPF_TAX, TAX),
     (BPF_MISC OR BPF_TXA, TXA)]"

definition bpf_decode :: "u_short \<Rightarrow> bpf_op" where
  "bpf_decode c = (case map_of op_table c of None \<Rightarrow> OTHER | Some op \<Rightarrow> op)"

section \<open>Reading the packet\<close>

text \<open>
  \<open>p\<close> is the packet data when \<open>buflen\<close> is not 0, and an mbuf chain when it is. A read
  gives None for a wild access and \<open>Some None\<close> where the C code returns 0
  or sets \<open>*err\<close> because the packet is too short.
\<close>

datatype packet = Buffer "u_char list" | Chain "u_char list list"

fun extract_long :: "u_char list \<Rightarrow> u_int" where
  "extract_long [a, b, c, d] =
     push_bit 24 (ucast a) OR push_bit 16 (ucast b) OR push_bit 8 (ucast c) OR ucast d"
| "extract_long _ = 0"

fun extract_short :: "u_char list \<Rightarrow> u_int" where
  "extract_short [a, b] = push_bit 8 (ucast a) OR ucast b"
| "extract_short _ = 0"

definition bytes :: "u_char list \<Rightarrow> nat \<Rightarrow> nat \<Rightarrow> u_char list option" where
  "bytes m i n = (if i + n \<le> length m then Some (take n (drop i m)) else None)"

abbreviation m_len :: "u_char list \<Rightarrow> u_int" where "m_len m \<equiv> of_nat (length m)"

fun MINDEX :: "u_char list list \<Rightarrow> u_int \<Rightarrow> (u_char list list \<times> u_int) option option" where
  "MINDEX [] i = None"
| "MINDEX (m # ms) i =
     (if i \<ge> m_len m then (if ms = [] then Some None else MINDEX ms (i - m_len m))
      else Some (Some (m # ms, i)))"

definition bpf_m_xword :: "u_char list list \<Rightarrow> u_int \<Rightarrow> u_int option option" where
  "bpf_m_xword m0 i0 = do {
     r \<leftarrow> MINDEX m0 i0;
     case r of
       Some (cp # rest, i) \<Rightarrow>
         if m_len cp \<ge> i + 4 then do { bs \<leftarrow> bytes cp (unat i) 4; Some (Some (extract_long bs)) }
         else (case rest of
             [] \<Rightarrow> Some None
           | np # _ \<Rightarrow>
               if m_len np + m_len cp - i < 4 then Some None
               else
                 let n = (if m_len cp - i = 1 then 1 else if m_len cp - i = 2 then 2 else 3 :: nat) in
                 do {
                   b1 \<leftarrow> bytes cp (unat i) n;
                   b2 \<leftarrow> bytes np 0 (4 - n);
                   Some (Some (extract_long (b1 @ b2)))
                 })
     | _ \<Rightarrow> Some None
   }"

definition bpf_m_xhalf :: "u_char list list \<Rightarrow> u_int \<Rightarrow> u_int option option" where
  "bpf_m_xhalf m0 i0 = do {
     r \<leftarrow> MINDEX m0 i0;
     case r of
       Some (cp # rest, i) \<Rightarrow>
         if m_len cp \<ge> i + 2 then do { bs \<leftarrow> bytes cp (unat i) 2; Some (Some (extract_short bs)) }
         else (case rest of
             [] \<Rightarrow> Some None
           | np # _ \<Rightarrow> do {
               b1 \<leftarrow> bytes cp (unat i) 1;
               b2 \<leftarrow> bytes np 0 1;
               Some (Some (extract_short (b1 @ b2)))
             })
     | _ \<Rightarrow> Some None
   }"

definition mbuf_byte :: "u_char list list \<Rightarrow> u_int \<Rightarrow> u_int option option" where
  "mbuf_byte m0 i0 = do {
     r \<leftarrow> MINDEX m0 i0;
     case r of
       Some (m # _, i) \<Rightarrow> do { bs \<leftarrow> bytes m (unat i) 1; Some (Some (ucast (hd bs))) }
     | _ \<Rightarrow> Some None
   }"

text \<open>
  The platform: whether \<open>size_t\<close> has 64 bits, and what the shifts give for counts that
  are not below 32, which C leaves undefined.
\<close>

record machine =
  lp64 :: bool
  lsh_big :: "u_int \<Rightarrow> u_int \<Rightarrow> u_int"
  rsh_big :: "u_int \<Rightarrow> u_int \<Rightarrow> u_int"

text \<open>\<open>k + sizeof(...) > buflen\<close>, computed in \<open>size_t\<close>; a byte has no addition.\<close>

definition past_end :: "machine \<Rightarrow> width \<Rightarrow> u_int \<Rightarrow> u_int \<Rightarrow> bool" where
  "past_end a w i buflen =
     (case w of
        Byte \<Rightarrow> i \<ge> buflen
      | Half \<Rightarrow> if lp64 a then unat i + 2 > unat buflen else i + 2 > buflen
      | Word \<Rightarrow> if lp64 a then unat i + 4 > unat buflen else i + 4 > buflen)"

definition mbuf_load :: "width \<Rightarrow> u_char list list \<Rightarrow> u_int \<Rightarrow> u_int option option" where
  "mbuf_load w m i =
     (case w of Word \<Rightarrow> bpf_m_xword m i | Half \<Rightarrow> bpf_m_xhalf m i | Byte \<Rightarrow> mbuf_byte m i)"

definition buf_load :: "width \<Rightarrow> u_char list \<Rightarrow> u_int \<Rightarrow> u_int option" where
  "buf_load w p i =
     (case w of
        Word \<Rightarrow> map_option extract_long (bytes p (unat i) 4)
      | Half \<Rightarrow> map_option extract_short (bytes p (unat i) 2)
      | Byte \<Rightarrow> map_option (\<lambda>bs. ucast (hd bs)) (bytes p (unat i) 1))"

definition bpf_load :: "machine \<Rightarrow> packet \<Rightarrow> u_int \<Rightarrow> width \<Rightarrow> u_int \<Rightarrow> u_int option option" where
  "bpf_load a p buflen w i =
     (if past_end a w i buflen then
        (if buflen \<noteq> 0 then Some None
         else (case p of Chain m \<Rightarrow> mbuf_load w m i | Buffer _ \<Rightarrow> None))
      else (case p of Buffer bs \<Rightarrow> map_option Some (buf_load w bs i) | Chain _ \<Rightarrow> None))"

section \<open>The interpreter\<close>

record bpf_state =
  regA :: u_int
  regX :: u_int
  mem :: "u_int list"
  pc :: nat

datatype bpf_result = Ret u_int | Next bpf_state

definition shift_left :: "machine \<Rightarrow> u_int \<Rightarrow> u_int \<Rightarrow> u_int" where
  "shift_left a x n = (if n < 32 then push_bit (unat n) x else lsh_big a x n)"

definition shift_right :: "machine \<Rightarrow> u_int \<Rightarrow> u_int \<Rightarrow> u_int" where
  "shift_right a x n = (if n < 32 then drop_bit (unat n) x else rsh_big a x n)"

text \<open>None is a division by zero.\<close>

fun alu_op :: "machine \<Rightarrow> alu \<Rightarrow> u_int \<Rightarrow> u_int \<Rightarrow> u_int option" where
  "alu_op a ADD x y = Some (x + y)"
| "alu_op a SUB x y = Some (x - y)"
| "alu_op a MUL x y = Some (x * y)"
| "alu_op a DIV x y = (if y = 0 then None else Some (x div y))"
| "alu_op a AND_OP x y = Some (x AND y)"
| "alu_op a OR_OP x y = Some (x OR y)"
| "alu_op a LSH x y = Some (shift_left a x y)"
| "alu_op a RSH x y = Some (shift_right a x y)"

fun cmp_op :: "cmp \<Rightarrow> u_int \<Rightarrow> u_int \<Rightarrow> bool" where
  "cmp_op JGT x y = (x > y)"
| "cmp_op JGE x y = (x \<ge> y)"
| "cmp_op JEQ x y = (x = y)"
| "cmp_op JSET x y = (x AND y \<noteq> 0)"

definition operand :: "bpf_insn \<Rightarrow> bpf_state \<Rightarrow> src \<Rightarrow> u_int" where
  "operand i s r = (case r of SrcK \<Rightarrow> k i | SrcX \<Rightarrow> regX s)"

text \<open>\<open>A = ...; continue;\<close> after a load, or \<open>return 0\<close>.\<close>

definition loaded :: "bpf_state \<Rightarrow> (u_int \<Rightarrow> bpf_state) \<Rightarrow> u_int option option \<Rightarrow> bpf_result option"
  where "loaded s f r =
    (case r of None \<Rightarrow> None | Some None \<Rightarrow> Some (Ret 0) | Some (Some v) \<Rightarrow> Some (Next (f v)))"

definition read_mem :: "bpf_state \<Rightarrow> u_int \<Rightarrow> u_int option" where
  "read_mem s i = (if unat i < length (mem s) then Some (mem s ! unat i) else None)"

definition write_mem :: "bpf_state \<Rightarrow> u_int \<Rightarrow> u_int \<Rightarrow> bpf_state option" where
  "write_mem s i v =
     (if unat i < length (mem s) then Some (s\<lparr>mem := (mem s)[unat i := v]\<rparr>) else None)"

text \<open>One instruction; \<open>s\<close> has the program counter already advanced past it.\<close>

definition bpf_exec ::
  "machine \<Rightarrow> packet \<Rightarrow> u_int \<Rightarrow> u_int \<Rightarrow> bpf_insn \<Rightarrow> bpf_state \<Rightarrow> bpf_result option" where
  "bpf_exec a p wirelen buflen i s =
     (case bpf_decode (code i) of
        RET_K \<Rightarrow> Some (Ret (k i))
      | RET_A \<Rightarrow> Some (Ret (regA s))
      | LD_ABS w \<Rightarrow> loaded s (\<lambda>v. s\<lparr>regA := v\<rparr>) (bpf_load a p buflen w (k i))
      | LD_LEN \<Rightarrow> Some (Next (s\<lparr>regA := wirelen\<rparr>))
      | LDX_LEN \<Rightarrow> Some (Next (s\<lparr>regX := wirelen\<rparr>))
      | LD_IND w \<Rightarrow> loaded s (\<lambda>v. s\<lparr>regA := v\<rparr>) (bpf_load a p buflen w (regX s + k i))
      | LDX_MSH \<Rightarrow>
          loaded s (\<lambda>v. s\<lparr>regX := push_bit 2 (v AND 0xf)\<rparr>) (bpf_load a p buflen Byte (k i))
      | LD_IMM \<Rightarrow> Some (Next (s\<lparr>regA := k i\<rparr>))
      | LDX_IMM \<Rightarrow> Some (Next (s\<lparr>regX := k i\<rparr>))
      | LD_MEM \<Rightarrow> map_option (\<lambda>v. Next (s\<lparr>regA := v\<rparr>)) (read_mem s (k i))
      | LDX_MEM \<Rightarrow> map_option (\<lambda>v. Next (s\<lparr>regX := v\<rparr>)) (read_mem s (k i))
      | ST \<Rightarrow> map_option Next (write_mem s (k i) (regA s))
      | STX \<Rightarrow> map_option Next (write_mem s (k i) (regX s))
      | JA \<Rightarrow> Some (Next (s\<lparr>pc := pc s + unat (k i)\<rparr>))
      | JUMP c r \<Rightarrow>
          Some (Next (s\<lparr>pc := pc s + (if cmp_op c (regA s) (operand i s r) then unat (jt i)
                                    else unat (jf i))\<rparr>))
      | ALU_OP DIV SrcX \<Rightarrow>
          if regX s = 0 then Some (Ret 0) else Some (Next (s\<lparr>regA := regA s div regX s\<rparr>))
      | ALU_OP c r \<Rightarrow> map_option (\<lambda>v. Next (s\<lparr>regA := v\<rparr>)) (alu_op a c (regA s) (operand i s r))
      | NEG \<Rightarrow> Some (Next (s\<lparr>regA := - regA s\<rparr>))
      | TAX \<Rightarrow> Some (Next (s\<lparr>regX := regA s\<rparr>))
      | TXA \<Rightarrow> Some (Next (s\<lparr>regA := regX s\<rparr>))
      | OTHER \<Rightarrow> Some (Ret 0))"

lemma loaded_pc: "loaded s f r = Some (Next s') \<Longrightarrow> \<exists>v. r = Some (Some v) \<and> s' = f v"
  by (auto simp: loaded_def split: option.splits)

lemma bpf_exec_forward: "bpf_exec a p wirelen buflen i s = Some (Next s') \<Longrightarrow> pc s \<le> pc s'"
  by (auto simp: bpf_exec_def read_mem_def write_mem_def split: bpf_op.splits if_splits alu.splits src.splits
      dest!: loaded_pc)

text \<open>
  The loop: fetch the instruction, advance, execute. The program counter only
  grows, so it ends, if only by running off the program.
\<close>

function bpf_run ::
  "machine \<Rightarrow> bpf_insn list \<Rightarrow> packet \<Rightarrow> u_int \<Rightarrow> u_int \<Rightarrow> bpf_state \<Rightarrow> u_int option" where
  "bpf_run a f p wirelen buflen s =
     (if pc s < length f then
        (case bpf_exec a p wirelen buflen (f ! pc s) (s\<lparr>pc := pc s + 1\<rparr>) of
           None \<Rightarrow> None
         | Some (Ret v) \<Rightarrow> Some v
         | Some (Next s') \<Rightarrow> bpf_run a f p wirelen buflen s')
      else None)"
  by pat_completeness auto

termination
  by (relation "measure (\<lambda>(a, f, p, w, b, s). length f - pc s)") (auto dest!: bpf_exec_forward)

declare bpf_run.simps [simp del]

definition bpf_init :: bpf_state where
  "bpf_init = \<lparr>regA = 0, regX = 0, mem = replicate BPF_MEMWORDS 0, pc = 0\<rparr>"

definition bpf_filter ::
  "machine \<Rightarrow> bpf_insn list option \<Rightarrow> packet \<Rightarrow> u_int \<Rightarrow> u_int \<Rightarrow> u_int option" where
  "bpf_filter a f p wirelen buflen =
     (case f of None \<Rightarrow> Some (-1) | Some prog \<Rightarrow> bpf_run a prog p wirelen buflen bpf_init)"

section \<open>The validator\<close>

text \<open>The check of instruction \<open>i\<close> of \<open>len\<close>; \<open>maxbuf\<close> is \<open>bpf_maxbufsize\<close>.\<close>

definition check_ld :: "u_int \<Rightarrow> bpf_insn \<Rightarrow> bool" where
  "check_ld maxbuf p =
     (let m = BPF_MODE (code p) in
      if m = BPF_IMM then True
      else if m = BPF_ABS \<or> m = BPF_IND \<or> m = BPF_MSH then \<not> k p \<ge> maxbuf
      else if m = BPF_MEM then \<not> unat (k p) \<ge> BPF_MEMWORDS
      else m = BPF_LEN)"

definition check_alu :: "bpf_insn \<Rightarrow> bool" where
  "check_alu p =
     (let c = BPF_OP (code p) in
      if c \<in> {BPF_ADD, BPF_SUB, BPF_MUL, BPF_OR, BPF_AND, BPF_LSH, BPF_RSH, BPF_NEG} then True
      else if c = BPF_DIV then \<not> (BPF_SRC (code p) = BPF_K \<and> k p = 0)
      else False)"

definition check_jmp :: "u_int \<Rightarrow> u_int \<Rightarrow> bpf_insn \<Rightarrow> bool" where
  "check_jmp len i p =
     (let from = i + 1; c = BPF_OP (code p) in
      if c = BPF_JA then \<not> (from + k p < from \<or> from + k p \<ge> len)
      else if c \<in> {BPF_JEQ, BPF_JGT, BPF_JGE, BPF_JSET} then
        \<not> (from + ucast (jt p) \<ge> len \<or> from + ucast (jf p) \<ge> len)
      else False)"

definition bpf_check :: "u_int \<Rightarrow> u_int \<Rightarrow> u_int \<Rightarrow> bpf_insn \<Rightarrow> bool" where
  "bpf_check maxbuf len i p =
     (let c = BPF_CLASS (code p) in
      if c = BPF_LD \<or> c = BPF_LDX then check_ld maxbuf p
      else if c = BPF_ST \<or> c = BPF_STX then \<not> unat (k p) \<ge> BPF_MEMWORDS
      else if c = BPF_ALU then check_alu p
      else if c = BPF_JMP then check_jmp len i p
      else c = BPF_RET \<or> c = BPF_MISC)"

text \<open>\<open>f\<close> holds the \<open>len\<close> instructions.\<close>

definition bpf_validate :: "u_int \<Rightarrow> bpf_insn list \<Rightarrow> bool" where
  "bpf_validate maxbuf f =
     (if length f < 1 \<or> length f > BPF_MAXINSNS then False
      else if \<forall>i \<in> set [0..<length f]. bpf_check maxbuf (of_nat (length f)) (of_nat i) (f ! i)
      then BPF_CLASS (code (f ! (length f - 1))) = BPF_RET
      else False)"

end
