(* ===== verification/Bpf_Safety.thy ===== *)
theory Bpf_Safety
  imports Bpf
begin

text \<open>
  What the validator guarantees: a program it accepts runs to a verdict on every
  packet, without an access outside program, scratch memory and packet and without a
  division by zero. The theory also shows that a packet in an mbuf chain gets the
  verdict of its contiguous copy.
\<close>

section \<open>Reads of an mbuf chain\<close>

definition chain_ok :: "u_char list list \<Rightarrow> bool" where
  "chain_ok m \<longleftrightarrow> m \<noteq> [] \<and> (\<forall>x \<in> set m. x \<noteq> [] \<and> length x < 2 ^ 31)"

lemma unat_m_len: "length m < 2 ^ 31 \<Longrightarrow> unat (m_len m) = length m"
  by (simp add: unat_of_nat)

lemma MINDEX_spec:
  assumes "m \<noteq> []" "\<forall>x \<in> set m. length x < 2 ^ 31"
  shows "case MINDEX m i of
      None \<Rightarrow> False
    | Some None \<Rightarrow> length (concat m) \<le> unat i
    | Some (Some (cs, j)) \<Rightarrow> \<exists>cp rest pre. cs = cp # rest \<and> m = pre @ cs \<and>
        unat j < length cp \<and> unat i = length (concat pre) + unat j"
  using assms
proof (induction m i rule: MINDEX.induct)
  case (2 m ms i)
  have len: "unat (m_len m) = length m" using 2 by (simp add: unat_m_len)
  show ?case
  proof (cases "i \<ge> m_len m")
    case False
    then have "unat i < length m" using len by (simp add: word_less_nat_alt not_le)
    with False show ?thesis by (auto intro: exI [of _ "[]"])
  next
    case True
    then have le: "length m \<le> unat i" using len by (simp add: word_le_nat_alt)
    show ?thesis
    proof (cases "ms = []")
      case True
      with \<open>i \<ge> m_len m\<close> le show ?thesis by simp
    next
      case ne: False
      have sub: "unat (i - m_len m) = unat i - length m" using True len by (simp add: unat_sub)
      from "2.IH" [OF True ne ne] "2.prems" have ih: "case MINDEX ms (i - m_len m) of
          None \<Rightarrow> False
        | Some None \<Rightarrow> length (concat ms) \<le> unat (i - m_len m)
        | Some (Some (cs, j)) \<Rightarrow> \<exists>cp rest pre. cs = cp # rest \<and> ms = pre @ cs \<and>
            unat j < length cp \<and> unat (i - m_len m) = length (concat pre) + unat j" by simp
      show ?thesis
      proof (cases "MINDEX ms (i - m_len m)")
        case None
        with ih show ?thesis by simp
      next
        case (Some r)
        show ?thesis
        proof (cases r)
          case None
          with Some ih True ne le sub show ?thesis by simp
        next
          case (Some q)
          with \<open>MINDEX ms (i - m_len m) = Some r\<close> ih obtain cp rest pre where
            "fst q = cp # rest" "ms = pre @ fst q" "unat (snd q) < length cp"
            "unat (i - m_len m) = length (concat pre) + unat (snd q)" by (cases q) auto
          with True ne le sub Some \<open>MINDEX ms (i - m_len m) = Some r\<close> show ?thesis
            by (cases q) (auto intro!: exI [of _ "m # pre"])
        qed
      qed
    qed
  qed
qed simp

lemma MINDEX_cases [consumes 2, case_names short found]:
  assumes "m \<noteq> []" "\<forall>x \<in> set m. length x < 2 ^ 31"
  obtains (short) "MINDEX m i = Some None" "length (concat m) \<le> unat i"
  | (found) cp rest pre j where "MINDEX m i = Some (Some (cp # rest, j))" "m = pre @ cp # rest"
      "unat j < length cp" "unat i = length (concat pre) + unat j"
  using MINDEX_spec [OF assms, of i] by (auto split: option.splits)

lemma bytes_one: "i < length m \<Longrightarrow> bytes m i 1 = Some [m ! i]"
  by (simp add: bytes_def take_Suc hd_drop_conv_nth)

text \<open>What the reads give, for words that reach over at most one mbuf boundary.\<close>

lemma mbuf_byte_eq:
  assumes "m \<noteq> []" "\<forall>x \<in> set m. length x < 2 ^ 31"
  shows "mbuf_byte m i = Some (if unat i < length (concat m) then Some (ucast (concat m ! unat i))
    else None)"
using assms
proof (cases rule: MINDEX_cases [where i = i])
  case short
  then show ?thesis by (simp add: mbuf_byte_def)
next
  case (found cp rest pre j)
  then have "concat m ! unat i = cp ! unat j" by (simp add: nth_append)
  with found bytes_one [OF found(3)] show ?thesis by (simp add: mbuf_byte_def)
qed

lemma word_plus_le:
  fixes j :: u_int
  assumes "unat j < n" "n < 2 ^ 31" "c \<le> 4"
  shows "of_nat n \<ge> j + of_nat c \<longleftrightarrow> unat j + c \<le> n"
proof -
  have "unat (of_nat n :: u_int) = n" using assms by (simp add: unat_of_nat)
  moreover have "unat (j + of_nat c) = unat j + c"
    using assms by (simp add: unat_word_ariths unat_of_nat)
  ultimately show ?thesis by (simp add: word_le_nat_alt)
qed

text \<open>A chain in which every mbuf but the last holds at least three bytes.\<close>

definition frag_ok :: "u_char list list \<Rightarrow> bool" where
  "frag_ok m \<longleftrightarrow> chain_ok m \<and> (\<forall>x \<in> set (butlast m). 3 \<le> length x)"

lemma frag_next:
  assumes "frag_ok m" "m = pre @ cp # np # rest"
  shows "3 \<le> length np \<or> rest = []" "np \<noteq> []" "length np < 2 ^ 31" "length cp < 2 ^ 31"
  using assms by (auto simp: frag_ok_def chain_ok_def butlast_append split: if_splits)

lemma concat_at:
  assumes "m = pre @ cs" "unat i = length (concat pre) + j"
  shows "drop (unat i) (concat m) = drop j (concat cs)"
  using assms by simp

lemma mbuf_half_eq:
  assumes ok: "chain_ok m"
  shows "bpf_m_xhalf m i = Some (if unat i + 2 \<le> length (concat m)
    then Some (extract_short (take 2 (drop (unat i) (concat m)))) else None)"
proof -
  from ok have a: "m \<noteq> []" "\<forall>x \<in> set m. length x < 2 ^ 31" by (auto simp: chain_ok_def)
  from a show ?thesis
  proof (cases rule: MINDEX_cases [where i = i])
    case short
    then show ?thesis by (simp add: bpf_m_xhalf_def)
  next
    case (found cp rest pre j)
    have d: "drop (unat i) (concat m) = drop (unat j) (cp @ concat rest)"
      using concat_at [OF found(2,4)] by simp
    have le: "m_len cp \<ge> j + 2 \<longleftrightarrow> unat j + 2 \<le> length cp"
      using word_plus_le [of j "length cp" 2] found(2,3) a by simp
    have n: "length (concat m) = length (concat pre) + length cp + length (concat rest)"
      using found(2) by simp
    show ?thesis
    proof (cases "unat j + 2 \<le> length cp")
      case True
      with found le d n show ?thesis by (simp add: bpf_m_xhalf_def bytes_def)
    next
      case False
      then have j: "unat j + 1 = length cp" using found(3) by simp
      show ?thesis
      proof (cases rest)
        case Nil
        with found le False n j show ?thesis by (simp add: bpf_m_xhalf_def)
      next
        case (Cons np ms)
        with found(2) ok have "np \<noteq> []" by (auto simp: chain_ok_def)
        then obtain b bs where np: "np = b # bs" by (cases np) auto
        have "take 2 (drop (unat j) (cp @ concat rest)) = [cp ! unat j, b]"
          using j Cons np found(3) by (simp add: take_Suc numeral_2_eq_2 Cons_nth_drop_Suc [symmetric])
        with found le False n j Cons np d bytes_one [OF found(3)] show ?thesis
          by (simp add: bpf_m_xhalf_def bytes_def)
      qed
    qed
  qed
qed

text \<open>The word that straddles two mbufs; \<open>n\<close> bytes of it lie in the first.\<close>

lemma straddle_lens:
  fixes j :: u_int
  assumes "unat j < a" "a < 2 ^ 31" "b < 2 ^ 31"
  shows "of_nat b + of_nat a - j < 4 \<longleftrightarrow> b + (a - unat j) < 4"
    "of_nat a - j = 1 \<longleftrightarrow> a - unat j = 1" "of_nat a - j = 2 \<longleftrightarrow> a - unat j = 2"
proof -
  have le: "j \<le> of_nat a" using assms by (simp add: word_le_nat_alt unat_of_nat)
  have a: "unat (of_nat a - j) = a - unat j" using le assms by (simp add: unat_sub unat_of_nat)
  have "unat (of_nat b + (of_nat a - j)) = b + (a - unat j)"
    using assms a by (subst unat_add_no_overflow) (simp_all add: unat_of_nat)
  then show "of_nat b + of_nat a - j < 4 \<longleftrightarrow> b + (a - unat j) < 4"
    by (simp add: word_less_nat_alt add_diff_eq)
  show "of_nat a - j = 1 \<longleftrightarrow> a - unat j = 1" "of_nat a - j = 2 \<longleftrightarrow> a - unat j = 2"
    unfolding word_unat_eq_iff a by simp_all
qed

lemma take_straddle:
  assumes "i < length cp" "length cp - i = n" "n \<le> w"
  shows "take w (drop i (cp @ rest)) = take n (drop i cp) @ take (w - n) rest"
  using assms by simp

lemma bpf_m_xword_two:
  assumes "MINDEX m i = Some (Some (cp # np # ms, j))" "unat j < length cp"
    "length cp < unat j + 4" "length cp < 2 ^ 31" "length np < 2 ^ 31"
  shows "bpf_m_xword m i = Some (if length np + (length cp - unat j) < 4 then None
    else Some (extract_long (take 4 (drop (unat j) (cp @ np)))))"
proof -
  note w = straddle_lens [OF assms(2,4,5)]
  define n where "n = length cp - unat j"
  have n: "n = 1 \<or> n = 2 \<or> n = 3" using assms(2,3) by (auto simp: n_def)
  have "\<not> m_len cp \<ge> j + 4" using word_plus_le [of j "length cp" 4] assms by simp
  moreover have "bytes cp (unat j) n = Some (take n (drop (unat j) cp))"
    using assms(2) by (simp add: bytes_def n_def)
  moreover have "bytes np 0 (4 - n) = Some (take (4 - n) np)" if "\<not> length np + n < 4"
    using that by (simp add: bytes_def)
  moreover have "take 4 (drop (unat j) (cp @ np)) = take n (drop (unat j) cp) @ take (4 - n) np"
    using take_straddle [OF assms(2), of n 4 np] n by (auto simp: n_def)
  ultimately show ?thesis
    using assms(1) w n unfolding n_def [symmetric] by (auto simp: bpf_m_xword_def Let_def)
qed

lemma bpf_m_xword_one:
  assumes "MINDEX m i = Some (Some (cp # rest, j))" "unat j + 4 \<le> length cp" "length cp < 2 ^ 31"
  shows "bpf_m_xword m i = Some (Some (extract_long (take 4 (drop (unat j) cp))))"
  using assms word_plus_le [of j "length cp" 4] by (simp add: bpf_m_xword_def bytes_def)

lemma bpf_m_xword_last:
  assumes "MINDEX m i = Some (Some ([cp], j))" "unat j < length cp" "length cp < unat j + 4"
    "length cp < 2 ^ 31"
  shows "bpf_m_xword m i = Some None"
  using assms word_plus_le [of j "length cp" 4] by (simp add: bpf_m_xword_def)

lemma bpf_m_xword_safe:
  assumes a: "m \<noteq> []" "\<forall>x \<in> set m. length x < 2 ^ 31"
  shows "\<exists>r. bpf_m_xword m i = Some r"
  using a
proof (cases rule: MINDEX_cases [where i = i])
  case short
  then show ?thesis by (simp add: bpf_m_xword_def)
next
  case (found cp rest pre j)
  with a have cp: "length cp < 2 ^ 31" by simp
  show ?thesis
  proof (cases "unat j + 4 \<le> length cp")
    case True
    with bpf_m_xword_one [OF found(1)] cp show ?thesis by blast
  next
    case False
    with found a cp bpf_m_xword_last [of m i cp j] bpf_m_xword_two [of m i cp _ _ j] show ?thesis
      by (cases rest) auto
  qed
qed

lemma mbuf_word_eq:
  assumes ok: "frag_ok m"
  shows "bpf_m_xword m i = Some (if unat i + 4 \<le> length (concat m)
    then Some (extract_long (take 4 (drop (unat i) (concat m)))) else None)"
proof -
  from ok have a: "m \<noteq> []" "\<forall>x \<in> set m. length x < 2 ^ 31" by (auto simp: frag_ok_def chain_ok_def)
  from a show ?thesis
  proof (cases rule: MINDEX_cases [where i = i])
    case short
    then show ?thesis by (simp add: bpf_m_xword_def)
  next
    case (found cp rest pre j)
    have d: "drop (unat i) (concat m) = drop (unat j) (cp @ concat rest)"
      using concat_at [OF found(2,4)] by simp
    have n: "length (concat m) = length (concat pre) + length cp + length (concat rest)"
      using found(2) by simp
    have cp: "length cp < 2 ^ 31" using a found(2) by simp
    show ?thesis
    proof (cases "unat j + 4 \<le> length cp")
      case True
      with found(4) d n bpf_m_xword_one [OF found(1) True cp] show ?thesis by simp
    next
      case False
      show ?thesis
      proof (cases rest)
        case Nil
        with found False n cp bpf_m_xword_last [of m i cp j] show ?thesis by simp
      next
        case (Cons np ms)
        note f = frag_next [OF ok, of pre cp np ms]
        have t: "take 4 (drop (unat j) (cp @ concat rest)) = take 4 (drop (unat j) (cp @ np))"
          if "\<not> length np + (length cp - unat j) < 4"
          using that found(3) False by (simp add: Cons)
        have s: "length np + (length cp - unat j) < 4 \<longleftrightarrow> \<not> unat i + 4 \<le> length (concat m)"
          using f found(2-4) n False by (auto simp: Cons)
        show ?thesis
          using bpf_m_xword_two [of m i cp np ms j] found False cp f(3) Cons s t d by auto
      qed
    qed
  qed
qed

section \<open>Validated programs\<close>

text \<open>What the caller passes: a chain with \<open>buflen\<close> 0, or a buffer of at least \<open>buflen\<close> bytes.\<close>

definition packet_ok :: "packet \<Rightarrow> u_int \<Rightarrow> bool" where
  "packet_ok p buflen =
     (case p of
        Chain m \<Rightarrow> buflen = 0 \<and> chain_ok m
      | Buffer bs \<Rightarrow> buflen \<noteq> 0 \<and> unat buflen \<le> length bs)"

lemma mbuf_load_safe: "chain_ok m \<Longrightarrow> \<exists>r. mbuf_load w m i = Some r"
  using bpf_m_xword_safe [of m i] mbuf_half_eq [of m i] mbuf_byte_eq [of m i]
  by (cases w) (auto simp: mbuf_load_def chain_ok_def)

lemma buf_load_eq:
  assumes "lp64 a" "\<not> past_end a w i buflen" "unat buflen \<le> length bs"
  shows "buf_load w bs i = Some
    (case w of Word \<Rightarrow> extract_long (take 4 (drop (unat i) bs))
      | Half \<Rightarrow> extract_short (take 2 (drop (unat i) bs)) | Byte \<Rightarrow> ucast (bs ! unat i))"
  using assms
  by (cases w) (auto simp: buf_load_def past_end_def bytes_def word_less_nat_alt not_le
      hd_drop_conv_nth take_Suc)

lemma past_end_0: "lp64 a \<Longrightarrow> past_end a w i 0"
  by (cases w) (auto simp: past_end_def)

lemma bpf_load_safe:
  assumes "lp64 a" "packet_ok p buflen"
  shows "\<exists>r. bpf_load a p buflen w i = Some r"
proof (cases p)
  case (Buffer bs)
  with assms buf_load_eq [of a w i buflen bs] show ?thesis by (auto simp: bpf_load_def packet_ok_def)
next
  case (Chain m)
  with assms mbuf_load_safe [of m w i] past_end_0 show ?thesis by (auto simp: bpf_load_def packet_ok_def)
qed

text \<open>Codes of the cases the validator has to constrain.\<close>

definition code_fact :: "u_short \<Rightarrow> bpf_op \<Rightarrow> bool" where
  "code_fact c op =
     ((BPF_CLASS c = BPF_RET \<longrightarrow> op = RET_K \<or> op = RET_A) \<and>
      (case op of
         LD_MEM \<Rightarrow> BPF_CLASS c = BPF_LD \<and> BPF_MODE c = BPF_MEM
       | LDX_MEM \<Rightarrow> BPF_CLASS c = BPF_LDX \<and> BPF_MODE c = BPF_MEM
       | ST \<Rightarrow> BPF_CLASS c = BPF_ST
       | STX \<Rightarrow> BPF_CLASS c = BPF_STX
       | JA \<Rightarrow> BPF_CLASS c = BPF_JMP \<and> BPF_OP c = BPF_JA
       | JUMP _ _ \<Rightarrow> BPF_CLASS c = BPF_JMP \<and> BPF_OP c \<in> {BPF_JEQ, BPF_JGT, BPF_JGE, BPF_JSET}
       | ALU_OP DIV SrcK \<Rightarrow> BPF_CLASS c = BPF_ALU \<and> BPF_OP c = BPF_DIV \<and> BPF_SRC c = BPF_K
       | _ \<Rightarrow> True))"

lemma op_table_facts: "\<forall>(c, op) \<in> set op_table. code_fact c op"
  by code_simp

lemma decode_fact:
  assumes "bpf_decode c = op" "op \<noteq> OTHER"
  shows "code_fact c op"
proof -
  from assms have "map_of op_table c = Some op" by (auto simp: bpf_decode_def split: option.splits)
  then show ?thesis using op_table_facts by (auto dest: map_of_SomeD)
qed

lemma validate_insn:
  assumes "bpf_validate maxbuf f" "i < length f"
  shows "bpf_check maxbuf (of_nat (length f)) (of_nat i) (f ! i)" "length f \<le> 512"
  using assms by (auto simp: bpf_validate_def BPF_MAXINSNS_def split: if_splits)

lemma validate_last:
  "bpf_validate maxbuf f \<Longrightarrow> BPF_CLASS (code (f ! (length f - 1))) = BPF_RET"
  by (auto simp: bpf_validate_def split: if_splits)

lemma jump_in_range:
  fixes d :: u_int
  assumes "i < n" "n \<le> 512" "\<not> (of_nat i + 1 + d < of_nat i + 1 \<or> of_nat i + 1 + d \<ge> of_nat n)"
  shows "Suc i + unat d < n"
proof -
  have i: "unat (of_nat i + 1 :: u_int) = Suc i" and n: "unat (of_nat n :: u_int) = n"
    using assms(1,2) by (simp_all add: unat_word_ariths unat_of_nat)
  have "unat (of_nat i + 1 + d) = Suc i + unat d"
    using assms(3) i by (metis not_le unat_add_no_wrap word_order_unat(1))
  with assms(3) n show ?thesis by (simp add: word_less_nat_alt not_le)
qed

lemma short_jump_in_range:
  assumes "i < n" "n \<le> 512" "\<not> of_nat i + 1 + (ucast (d :: u_char) :: u_int) \<ge> of_nat n"
  shows "Suc i + unat d < n"
proof -
  have d: "unat (ucast d :: u_int) = unat d" by transfer simp
  have i: "unat (of_nat i + 1 :: u_int) = Suc i" using assms(1,2) by (simp add: unat_word_ariths unat_of_nat)
  have "unat d < 256" using unsigned_less [of d] by simp
  then have "unat (of_nat i + 1 + (ucast d :: u_int)) = Suc i + unat d"
    using assms(1,2) d i by (subst unat_add_no_overflow) simp_all
  then have "of_nat i + 1 \<le> of_nat i + 1 + (ucast d :: u_int)" using i by (simp add: word_le_nat_alt)
  with jump_in_range [OF assms(1,2), of "ucast d"] assms(3) d show ?thesis by simp
qed

lemma check_mem:
  assumes "bpf_check maxbuf len i p" "bpf_decode (code p) \<in> {LD_MEM, LDX_MEM, ST, STX}"
  shows "unat (k p) < BPF_MEMWORDS"
  using assms decode_fact [of "code p"]
  by (auto simp: code_fact_def bpf_check_def check_ld_def Let_def)

lemma check_div:
  assumes "bpf_check maxbuf len i p" "bpf_decode (code p) = ALU_OP DIV SrcK"
  shows "k p \<noteq> 0"
  using assms(1) decode_fact [OF assms(2)]
  by (auto simp: code_fact_def bpf_check_def check_alu_def Let_def)

lemma check_jump:
  assumes "bpf_check maxbuf (of_nat n) (of_nat i) p" "i < n" "n \<le> 512"
  shows "bpf_decode (code p) = JA \<Longrightarrow> Suc i + unat (k p) < n"
    "bpf_decode (code p) = JUMP c r \<Longrightarrow> Suc i + unat (jt p) < n \<and> Suc i + unat (jf p) < n"
proof -
  assume "bpf_decode (code p) = JA"
  from decode_fact [OF this] assms(1)
  have "\<not> (of_nat i + 1 + k p < of_nat i + 1 \<or> of_nat i + 1 + k p \<ge> of_nat n)"
    by (simp add: code_fact_def bpf_check_def check_jmp_def Let_def)
  then show "Suc i + unat (k p) < n" by (rule jump_in_range [OF assms(2,3)])
next
  assume "bpf_decode (code p) = JUMP c r"
  from decode_fact [OF this] assms(1)
  have "\<not> of_nat i + 1 + (ucast (jt p) :: u_int) \<ge> of_nat n"
    "\<not> of_nat i + 1 + (ucast (jf p) :: u_int) \<ge> of_nat n"
    by (auto simp: code_fact_def bpf_check_def check_jmp_def Let_def)
  then show "Suc i + unat (jt p) < n \<and> Suc i + unat (jf p) < n"
    using short_jump_in_range [OF assms(2,3)] by blast
qed

text \<open>The invariant of the loop, with the program counter at an instruction.\<close>

definition bpf_inv :: "bpf_insn list \<Rightarrow> bpf_state \<Rightarrow> bool" where
  "bpf_inv f s \<longleftrightarrow> pc s < length f \<and> length (mem s) = BPF_MEMWORDS"

lemma loaded_ok:
  assumes "\<exists>r. l = Some r"
  shows "\<exists>r. loaded s g l = Some r"
  using assms by (auto simp: loaded_def split: option.splits)

lemma exec_defined:
  assumes "bpf_check maxbuf len i (f ! j)" "lp64 a" "packet_ok p buflen" "length (mem s) = BPF_MEMWORDS"
  shows "\<exists>r. bpf_exec a p wirelen buflen (f ! j) s = Some r"
proof -
  note load = loaded_ok [OF bpf_load_safe [OF assms(2,3)]]
  have mem: "\<exists>v. read_mem s (k (f ! j)) = Some v" "\<exists>t. write_mem s (k (f ! j)) v = Some t"
    if "bpf_decode (code (f ! j)) \<in> {LD_MEM, LDX_MEM, ST, STX}" for v
    using check_mem [OF assms(1) that] assms(4) by (auto simp: read_mem_def write_mem_def)
  show ?thesis
  proof (cases "bpf_decode (code (f ! j))")
    case (ALU_OP c r)
    show ?thesis
    proof (cases "c = DIV \<and> r = SrcK")
      case True
      with check_div [OF assms(1)] ALU_OP show ?thesis by (simp add: bpf_exec_def operand_def)
    next
      case False
      with ALU_OP show ?thesis by (cases c; cases r) (auto simp: bpf_exec_def)
    qed
  qed (use load mem in \<open>auto simp: bpf_exec_def\<close>)
qed

lemma exec_next:
  assumes v: "bpf_validate maxbuf f" and j: "j < length f" and s: "pc s = Suc j"
    and e: "bpf_exec a p wirelen buflen (f ! j) s = Some (Next s')"
  shows "pc s' < length f"
proof (cases "\<exists>c r. bpf_decode (code (f ! j)) \<in> {JA, JUMP c r}")
  case True
  show ?thesis using True
    check_jump [OF validate_insn(1) [OF v j] j validate_insn(2) [OF v j]] s e
    by (auto simp: bpf_exec_def)
next
  case False
  then have "pc s' = Suc j"
    using e s
    by (auto simp: bpf_exec_def read_mem_def write_mem_def
        split: bpf_op.splits if_splits alu.splits src.splits dest!: loaded_pc)
  moreover have "Suc j \<noteq> length f"
  proof
    assume "Suc j = length f"
    then have "BPF_CLASS (code (f ! j)) = BPF_RET" using validate_last [OF v] by (metis diff_Suc_1)
    then have "bpf_decode (code (f ! j)) \<in> {RET_K, RET_A, OTHER}"
      using decode_fact [of "code (f ! j)"] by (auto simp: code_fact_def)
    with e show False by (auto simp: bpf_exec_def)
  qed
  ultimately show ?thesis using j by simp
qed

lemma exec_mem:
  "bpf_exec a p wirelen buflen i s = Some (Next s') \<Longrightarrow> length (mem s') = length (mem s)"
  by (auto simp: bpf_exec_def read_mem_def write_mem_def
      split: bpf_op.splits if_splits alu.splits src.splits dest!: loaded_pc)

lemma run_defined:
  assumes "bpf_validate maxbuf f" "lp64 a" "packet_ok p buflen" "bpf_inv f s"
  shows "\<exists>v. bpf_run a f p wirelen buflen s = Some v"
  using assms
proof (induction a f p wirelen buflen s rule: bpf_run.induct)
  case (1 a f p wirelen buflen s)
  let ?s = "s\<lparr>pc := pc s + 1\<rparr>"
  have j: "pc s < length f" and m: "length (mem ?s) = BPF_MEMWORDS" using "1.prems"(4) by (auto simp: bpf_inv_def)
  note v = "1.prems"(1)
  from exec_defined [OF validate_insn(1) [OF v j] "1.prems"(2,3) m]
  obtain r where r: "bpf_exec a p wirelen buflen (f ! pc s) ?s = Some r" by blast
  show ?case
  proof (cases r)
    case (Ret x)
    with r j show ?thesis by (subst bpf_run.simps) simp
  next
    case (Next s')
    with r exec_next [OF v j, of ?s] exec_mem m have "bpf_inv f s'" by (auto simp: bpf_inv_def)
    with "1.IH" [OF j r Next] "1.prems" Next r j show ?thesis by (subst bpf_run.simps) simp
  qed
qed

text \<open>
  C7. On a 64-bit kernel a filter program that \<open>bpf_validate\<close> accepts returns a verdict on every packet in a buffer of at least
  the given length or in a chain of nonempty mbufs (each shorter than 2^31 bytes): the interpreter ends, never leaves
  the program, its scratch memory or the packet data, and never divides by zero. Both conditions are needed:
  \<open>bpf_ilp32_wild_read\<close> and \<open>bpf_m_xhalf_empty_mbuf\<close> below show reads outside the packet without them.
\<close>

theorem bpf_validate_safe:
  assumes "bpf_validate maxbuf f" "lp64 a" "packet_ok p buflen"
  shows "\<exists>verdict. bpf_filter a (Some f) p wirelen buflen = Some verdict"
proof -
  have "bpf_inv f bpf_init"
    using assms(1) by (auto simp: bpf_inv_def bpf_init_def bpf_validate_def split: if_splits)
  with run_defined [OF assms] show ?thesis by (simp add: bpf_filter_def)
qed

text \<open>A filter for IPv4 over Ethernet and a packet for it.\<close>

definition ip_filter :: "bpf_insn list" where
  "ip_filter = [
     \<lparr>code = BPF_LD OR BPF_H OR BPF_ABS, jt = 0, jf = 0, k = 12\<rparr>,
     \<lparr>code = BPF_JMP OR BPF_JEQ OR BPF_K, jt = 0, jf = 1, k = 0x800\<rparr>,
     \<lparr>code = BPF_RET OR BPF_K, jt = 0, jf = 0, k = -1\<rparr>,
     \<lparr>code = BPF_RET OR BPF_K, jt = 0, jf = 0, k = 0\<rparr>]"

definition ip_packet :: "u_char list list" where
  "ip_packet = [[1, 2, 3, 4, 5, 6], [7, 8, 9, 10, 11, 12, 8], [0, 0x45]]"

definition amd64 :: machine where
  "amd64 = \<lparr>lp64 = True, lsh_big = (\<lambda>x n. push_bit (unat n mod 32) x),
     rsh_big = (\<lambda>x n. drop_bit (unat n mod 32) x)\<rparr>"

definition i386 :: machine where "i386 = amd64\<lparr>lp64 := False\<rparr>"

lemma ip_packet_ok: "frag_ok ip_packet"
  by (simp add: frag_ok_def chain_ok_def ip_packet_def)

theorem bpf_validate_safe_witness:
  "\<exists>verdict. bpf_filter amd64 (Some ip_filter) (Chain ip_packet) 15 0 = Some verdict"
proof (rule bpf_validate_safe)
  show "bpf_validate 32768 ip_filter" by code_simp
  show "lp64 amd64" by code_simp
  show "packet_ok (Chain ip_packet) 0" using ip_packet_ok by (simp add: packet_ok_def frag_ok_def)
qed

section \<open>Fragmented packets\<close>

lemma chain_load_eq:
  assumes ok: "frag_ok m" and len: "length (concat m) < 2 ^ 32" and a: "lp64 a"
  shows "bpf_load a (Chain m) 0 w i =
    bpf_load a (Buffer (concat m)) (of_nat (length (concat m))) w i"
proof -
  let ?n = "of_nat (length (concat m)) :: u_int"
  have n: "unat ?n = length (concat m)" using len by (simp only: unat_of_nat) simp
  obtain b bs ms where "m = (b # bs) # ms"
    using ok by (cases m; cases "hd m") (auto simp: frag_ok_def chain_ok_def)
  then have n0: "?n \<noteq> 0" using n by (metis concat.simps(2) length_0_conv append_is_Nil_conv list.distinct(1) unat_0)
  have chain: "chain_ok m" "m \<noteq> []" "\<forall>x \<in> set m. length x < 2 ^ 31"
    using ok by (auto simp: frag_ok_def chain_ok_def)
  have pe: "past_end a w i ?n \<longleftrightarrow> \<not> (unat i + (case w of Word \<Rightarrow> 4 | Half \<Rightarrow> 2 | Byte \<Rightarrow> 1) \<le> length (concat m))"
    using a n by (cases w) (auto simp: past_end_def word_le_nat_alt)
  show ?thesis
  proof (cases "past_end a w i ?n")
    case True
    with n0 have "bpf_load a (Buffer (concat m)) ?n w i = Some None" by (simp add: bpf_load_def)
    moreover have "mbuf_load w m i = Some None"
      using True pe mbuf_word_eq [OF ok, of i] mbuf_half_eq [OF chain(1), of i]
        mbuf_byte_eq [OF chain(2,3), of i]
      by (cases w) (auto simp: mbuf_load_def)
    ultimately show ?thesis using past_end_0 [OF a] by (simp add: bpf_load_def)
  next
    case False
    with buf_load_eq [OF a False] n have "bpf_load a (Buffer (concat m)) ?n w i = mbuf_load w m i"
      using pe mbuf_word_eq [OF ok, of i] mbuf_half_eq [OF chain(1), of i]
        mbuf_byte_eq [OF chain(2,3), of i]
      by (cases w) (auto simp: mbuf_load_def bpf_load_def)
    then show ?thesis using past_end_0 [OF a] by (simp add: bpf_load_def)
  qed
qed

lemma exec_same_loads:
  assumes "\<And>w i. bpf_load a p b w i = bpf_load a p' b' w i"
  shows "bpf_exec a p wirelen b i s = bpf_exec a p' wirelen b' i s"
  by (simp only: bpf_exec_def assms)

lemma run_same_loads:
  assumes "\<And>w i. bpf_load a p b w i = bpf_load a p' b' w i"
  shows "bpf_run a f p wirelen b s = bpf_run a f p' wirelen b' s"
  using assms
proof (induction a f p wirelen b s rule: bpf_run.induct)
  case (1 a f p wirelen b s)
  note e = exec_same_loads [OF "1.prems", of wirelen "f ! pc s" "s\<lparr>pc := pc s + 1\<rparr>"]
  show ?case
  proof (cases "pc s < length f")
    case True
    show ?thesis
    proof (cases "bpf_exec a p wirelen b (f ! pc s) (s\<lparr>pc := pc s + 1\<rparr>)")
      case None
      with True e show ?thesis by (simp add: bpf_run.simps [of a f _ _ _ s])
    next
      case (Some r)
      with True e "1.IH" [OF True Some _ "1.prems"] show ?thesis
        by (cases r) (simp_all add: bpf_run.simps [of a f _ _ _ s])
    qed
  qed (simp add: bpf_run.simps [of a f _ _ _ s])
qed

text \<open>
  C8. On a 64-bit kernel a filter gives a packet of fewer than 2^32 bytes in a chain of nonempty mbufs the same verdict as its contiguous
  copy, as long as every mbuf but the last holds at least three bytes (and each is shorter than 2^31 bytes): the reads that
  straddle two mbufs assemble the same words and fail on the same offsets.
\<close>

theorem bpf_chain_same_verdict:
  assumes "frag_ok m" "length (concat m) < 2 ^ 32" "lp64 a"
  shows "bpf_filter a f (Chain m) wirelen 0 =
    bpf_filter a f (Buffer (concat m)) wirelen (of_nat (length (concat m)))"
  using run_same_loads [OF chain_load_eq [OF assms]]
  by (simp add: bpf_filter_def split: option.splits)

theorem bpf_chain_same_verdict_witness:
  "bpf_filter amd64 (Some ip_filter) (Chain ip_packet) 15 0 =
   bpf_filter amd64 (Some ip_filter) (Buffer (concat ip_packet)) 15 15 \<and>
   bpf_filter amd64 (Some ip_filter) (Chain ip_packet) 15 0 = Some (-1)"
proof
  from bpf_chain_same_verdict [OF ip_packet_ok, of amd64 "Some ip_filter" 15]
  show "bpf_filter amd64 (Some ip_filter) (Chain ip_packet) 15 0 =
      bpf_filter amd64 (Some ip_filter) (Buffer (concat ip_packet)) 15 15"
    by (simp add: ip_packet_def amd64_def)
  show "bpf_filter amd64 (Some ip_filter) (Chain ip_packet) 15 0 = Some (-1)" by code_simp
qed

section \<open>Where the checks fall short\<close>

definition wrap_filter :: "bpf_insn list" where
  "wrap_filter = [
     \<lparr>code = BPF_LDX OR BPF_IMM, jt = 0, jf = 0, k = 0xfffffffc\<rparr>,
     \<lparr>code = BPF_LD OR BPF_W OR BPF_IND, jt = 0, jf = 0, k = 0\<rparr>,
     \<lparr>code = BPF_RET OR BPF_A, jt = 0, jf = 0, k = 0\<rparr>]"

lemma decode_sample:
  "bpf_decode 0x01 = LDX_IMM" "bpf_decode 0x40 = LD_IND Word" "bpf_decode 0x16 = RET_A"
  by code_simp+

text \<open>
  On a 32-bit kernel the bounds check of an indexed load wraps around: the
  validator accepts a program that then reads far outside of a 60-byte packet.
\<close>

theorem bpf_ilp32_wild_read:
  "bpf_validate 32768 wrap_filter \<and> packet_ok (Buffer (replicate 60 0)) 60 \<and>
   bpf_filter i386 (Some wrap_filter) (Buffer (replicate 60 0)) 60 60 = None \<and>
   bpf_filter amd64 (Some wrap_filter) (Buffer (replicate 60 0)) 60 60 = Some 0"
proof -
  have "bpf_validate 32768 wrap_filter" by code_simp
  moreover have "packet_ok (Buffer (replicate 60 0)) 60" by (simp add: packet_ok_def)
  ultimately show ?thesis
    by (simp add: bpf_filter_def wrap_filter_def bpf_init_def bpf_run.simps bpf_exec_def decode_sample
        bpf_load_def past_end_def buf_load_def bytes_def loaded_def i386_def amd64_def)
qed

text \<open>
  \<open>bpf_m_xhalf\<close> does not check the length of the following mbuf: when that is empty
  it reads a byte that is not packet data, where \<open>bpf_m_xword\<close> reports an error.
\<close>

theorem bpf_m_xhalf_empty_mbuf:
  assumes "0 < length cp" "length cp < 2 ^ 31"
  shows "bpf_m_xhalf [cp, [], rest] (of_nat (length cp - 1)) = None \<and>
    bpf_m_xword [cp, [], rest] (of_nat (length cp - 1)) = Some None"
proof -
  define j where "j = (of_nat (length cp - 1) :: u_int)"
  have j: "unat j = length cp - 1" using assms by (simp add: unat_of_nat j_def)
  with assms(1) have lt: "unat j < length cp" by linarith
  then have "\<not> j \<ge> m_len cp" using assms(2) by (simp add: word_le_nat_alt unat_m_len)
  then have m: "MINDEX [cp, [], rest] j = Some (Some ([cp, [], rest], j))" by simp
  moreover have "\<not> m_len cp \<ge> j + 2" using word_plus_le [of j "length cp" 2] assms j lt by simp
  ultimately show ?thesis
    using bpf_m_xword_two [OF m lt] assms j lt unfolding j_def [symmetric]
    by (simp add: bpf_m_xhalf_def bytes_def)
qed

theorem bpf_m_xhalf_empty_mbuf_witness: "bpf_m_xhalf [[1, 2], [], [3]] 1 = None"
  using bpf_m_xhalf_empty_mbuf [of "[1, 2]" "[3]"] by simp

end
