(* ===== verification/Bufq.thy ===== *)
theory Bufq
  imports Prelude "HOL-Library.Multiset"
begin

text \<open>
  Disk request queues: the queue disciplines and the queue object of
  kern/kern_bufq.c, and the seek sort of kern/subr_disk.c.

  A chain of requests linked through \<open>b_actf\<close> or a SIMPLEQ is a list of
  bufs; \<open>bufq_data\<close> is the list, or None for NULL. The mutexes have no counterpart,
  because each operation between \<open>mtx_enter\<close> and \<open>mtx_leave\<close> is one step; \<open>msleep\<close> is
  the outcome \<open>Sleep\<close>, after which the operation tests its condition again.
\<close>

section \<open>Data\<close>

record buf =
  b_id :: nat
  b_cylinder :: u_long
  b_blkno :: int
  b_error :: "errno option"
  b_flags :: u_long
  b_bq :: bool

definition B_DONE :: u_long where "B_DONE = 0x00000100"
definition B_ERROR :: u_long where "B_ERROR = 0x00000400"

definition BUFQ_DISKSORT :: int where "BUFQ_DISKSORT = 0"
definition BUFQ_FIFO :: int where "BUFQ_FIFO = 1"
definition BUFQ_HOWMANY :: int where "BUFQ_HOWMANY = 2"

record bufq =
  bufq_data :: "buf list option"
  bufq_outstanding :: u_int
  bufq_stop :: bool
  bufq_type :: int

section \<open>Seek sort\<close>

definition before :: "buf \<Rightarrow> buf \<Rightarrow> bool" where
  "before bp n \<longleftrightarrow> b_cylinder bp < b_cylinder n \<or>
     (b_cylinder bp = b_cylinder n \<and> b_blkno bp < b_blkno n)"

text \<open>The chain after \<open>bq\<close>, in the loops of \<open>disksort\<close>.\<close>

fun sort_second :: "buf \<Rightarrow> buf list \<Rightarrow> buf list" where
  "sort_second bp [] = [bp]"
| "sort_second bp (n # ns) = (if before bp n then bp # n # ns else n # sort_second bp ns)"

fun find_inversion :: "buf \<Rightarrow> buf \<Rightarrow> buf list \<Rightarrow> buf list" where
  "find_inversion bp bq [] = [bp]"
| "find_inversion bp bq (n # ns) =
     (if b_cylinder n < b_cylinder bq then sort_second bp (n # ns) else n # find_inversion bp n ns)"

fun sort_first :: "buf \<Rightarrow> buf \<Rightarrow> buf list \<Rightarrow> buf list" where
  "sort_first bp bq [] = [bp]"
| "sort_first bp bq (n # ns) =
     (if b_cylinder n < b_cylinder bq \<or> before bp n then bp # n # ns else n # sort_first bp n ns)"

definition disksort :: "buf list \<Rightarrow> buf \<Rightarrow> buf list" where
  "disksort ap bp =
     (case ap of
        [] \<Rightarrow> [bp]
      | bq # rest \<Rightarrow>
          bq # (if b_cylinder bp < b_cylinder bq then find_inversion bp bq rest
                else sort_first bp bq rest))"

section \<open>The disciplines\<close>

definition bufq_disksort_create :: "bool \<Rightarrow> buf list option" where
  "bufq_disksort_create mem = (if mem then Some [] else None)"

definition bufq_disksort_queue :: "buf list \<Rightarrow> buf \<Rightarrow> buf list" where
  "bufq_disksort_queue data bp = disksort data bp"

definition bufq_disksort_dequeue :: "buf list \<Rightarrow> buf list \<times> buf option" where
  "bufq_disksort_dequeue data = (case data of [] \<Rightarrow> ([], None) | bp # rest \<Rightarrow> (rest, Some bp))"

definition bufq_disksort_requeue :: "buf list \<Rightarrow> buf \<Rightarrow> buf list" where
  "bufq_disksort_requeue data bp = bp # data"

definition bufq_disksort_peek :: "buf list \<Rightarrow> bool" where
  "bufq_disksort_peek data \<longleftrightarrow> data \<noteq> []"

definition bufq_fifo_create :: "bool \<Rightarrow> buf list option" where
  "bufq_fifo_create mem = (if mem then Some [] else None)"

definition bufq_fifo_queue :: "buf list \<Rightarrow> buf \<Rightarrow> buf list" where
  "bufq_fifo_queue head bp = head @ [bp]"

definition bufq_fifo_dequeue :: "buf list \<Rightarrow> buf list \<times> buf option" where
  "bufq_fifo_dequeue head = (case head of [] \<Rightarrow> ([], None) | bp # rest \<Rightarrow> (rest, Some bp))"

definition bufq_fifo_requeue :: "buf list \<Rightarrow> buf \<Rightarrow> buf list" where
  "bufq_fifo_requeue head bp = bp # head"

definition bufq_fifo_peek :: "buf list \<Rightarrow> bool" where
  "bufq_fifo_peek head \<longleftrightarrow> head \<noteq> []"

text \<open>The table \<open>bufq_impls\<close>; only the types 0 and 1 have an entry.\<close>

definition valid_type :: "int \<Rightarrow> bool" where
  "valid_type type \<longleftrightarrow> type = BUFQ_DISKSORT \<or> type = BUFQ_FIFO"

definition impl_create :: "int \<Rightarrow> bool \<Rightarrow> buf list option" where
  "impl_create type = (if type = BUFQ_DISKSORT then bufq_disksort_create else bufq_fifo_create)"

definition impl_queue :: "int \<Rightarrow> buf list \<Rightarrow> buf \<Rightarrow> buf list" where
  "impl_queue type = (if type = BUFQ_DISKSORT then bufq_disksort_queue else bufq_fifo_queue)"

definition impl_dequeue :: "int \<Rightarrow> buf list \<Rightarrow> buf list \<times> buf option" where
  "impl_dequeue type = (if type = BUFQ_DISKSORT then bufq_disksort_dequeue else bufq_fifo_dequeue)"

definition impl_requeue :: "int \<Rightarrow> buf list \<Rightarrow> buf \<Rightarrow> buf list" where
  "impl_requeue type = (if type = BUFQ_DISKSORT then bufq_disksort_requeue else bufq_fifo_requeue)"

definition impl_peek :: "int \<Rightarrow> buf list \<Rightarrow> bool" where
  "impl_peek type = (if type = BUFQ_DISKSORT then bufq_disksort_peek else bufq_fifo_peek)"

section \<open>The queue object\<close>

text \<open>
  \<open>mem\<close>: the allocation succeeds. None is a use of \<open>bufq_impls\<close> outside the table.
  The fields \<open>bufq_outstanding\<close> and \<open>bufq_stop\<close> lie in a zeroed softc, which \<open>bufq_init\<close> leaves
  as it is. Linking the queue into \<open>bufqs\<close> is part of the operations on the system below.
\<close>

definition bufq_init :: "int \<Rightarrow> bool \<Rightarrow> (bufq, int, unit) outcome option" where
  "bufq_init type mem =
     (if type > BUFQ_HOWMANY then Some (Panic ''bufq_init: type unknown'')
      else if \<not> valid_type type then None
      else (case impl_create type mem of
          None \<Rightarrow> Some (Panic ''bufq init fail'')
        | Some data \<Rightarrow>
            Some (Return \<lparr>bufq_data = Some data, bufq_outstanding = 0, bufq_stop = False,
              bufq_type = type\<rparr> 0)))"

lemma impl_dequeue_smaller: "impl_dequeue type q = (q', Some bp) \<Longrightarrow> length q' < length q"
  by (auto simp: impl_dequeue_def bufq_disksort_dequeue_def bufq_fifo_dequeue_def
      split: if_splits list.splits)

function bufq_move :: "int \<Rightarrow> int \<Rightarrow> buf list \<Rightarrow> buf list \<Rightarrow> buf list" where
  "bufq_move otype type odata data =
     (case impl_dequeue otype odata of
        (odata', None) \<Rightarrow> data
      | (odata', Some bp) \<Rightarrow> bufq_move otype type odata' (impl_queue type data bp))"
  by pat_completeness auto

termination
  by (relation "measure (\<lambda>(ot, t, od, d). length od)") (auto dest: impl_dequeue_smaller [OF sym])

declare bufq_move.simps [simp del]

text \<open>The second critical section of \<open>bufq_switch\<close>; the type may have changed in between.\<close>

definition bufq_switch_commit :: "bufq \<Rightarrow> int \<Rightarrow> buf list \<Rightarrow> bufq option" where
  "bufq_switch_commit bq type data =
     (if bufq_type bq \<noteq> type then
        map_option (\<lambda>odata. bq\<lparr>bufq_data := Some (bufq_move (bufq_type bq) type odata data),
                               bufq_type := type\<rparr>) (bufq_data bq)
      else Some bq)"

definition bufq_switch :: "bufq \<Rightarrow> int \<Rightarrow> bool \<Rightarrow> (bufq \<times> errno option) option" where
  "bufq_switch bq type mem =
     (if bufq_type bq = type then Some (bq, None)
      else if \<not> valid_type type then None
      else (case impl_create type mem of
          None \<Rightarrow> Some (bq, Some ENOMEM)
        | Some data \<Rightarrow> map_option (\<lambda>bq'. (bq', None)) (bufq_switch_commit bq type data)))"

definition bufq_queue :: "bufq \<Rightarrow> buf \<Rightarrow> (bufq, unit, unit) outcome option" where
  "bufq_queue bq bp =
     (if bufq_stop bq then Some (Sleep bq ())
      else map_option (\<lambda>data.
        Return (bq\<lparr>bufq_outstanding := bufq_outstanding bq + 1,
          bufq_data := Some (impl_queue (bufq_type bq) data (bp\<lparr>b_bq := True\<rparr>))\<rparr>) ()) (bufq_data bq))"

definition bufq_dequeue :: "bufq \<Rightarrow> (bufq \<times> buf option) option" where
  "bufq_dequeue bq = map_option (\<lambda>data.
     let (data', bp) = impl_dequeue (bufq_type bq) data
     in (bq\<lparr>bufq_data := Some data'\<rparr>, bp)) (bufq_data bq)"

definition bufq_requeue :: "bufq \<Rightarrow> buf \<Rightarrow> bufq option" where
  "bufq_requeue bq bp = map_option (\<lambda>data.
     bq\<lparr>bufq_data := Some (impl_requeue (bufq_type bq) data bp)\<rparr>) (bufq_data bq)"

definition bufq_peek :: "bufq \<Rightarrow> bool option" where
  "bufq_peek bq = map_option (impl_peek (bufq_type bq)) (bufq_data bq)"

text \<open>The bool tells whether waiters on \<open>bufq_outstanding\<close> are woken.\<close>

definition bufq_done :: "bufq \<Rightarrow> buf \<Rightarrow> bufq \<times> buf \<times> bool" where
  "bufq_done bq bp =
     (let bq1 = bq\<lparr>bufq_outstanding := bufq_outstanding bq - 1\<rparr>
      in (bq1, bp\<lparr>b_bq := False\<rparr>, bufq_stop bq1 \<and> bufq_outstanding bq1 = 0))"

text \<open>The start of \<open>biodone\<close> of kern/vfs_bio.c, as far as it concerns the queue.\<close>

definition biodone :: "bufq \<Rightarrow> buf \<Rightarrow> (bufq, buf, unit) outcome" where
  "biodone bq bp =
     (if has_flag (b_flags bp) B_DONE then Panic ''biodone already''
      else
        let bp1 = bp\<lparr>b_flags := b_flags bp OR B_DONE\<rparr>
        in if b_bq bp1 then (let (bq', bp2, w) = bufq_done bq bp1 in Return bq' bp2)
           else Return bq bp1)"

text \<open>\<open>bufq_drain\<close> gives the queue and the requests in the order of their completion.\<close>

definition drained :: "buf \<Rightarrow> buf" where
  "drained bp = bp\<lparr>b_error := Some ENXIO, b_flags := b_flags bp OR B_ERROR\<rparr>"

lemma bufq_dequeue_smaller:
  assumes "bufq_dequeue bq = Some (bq1, Some bp)"
  shows "length (the (bufq_data bq1)) < length (the (bufq_data bq))"
proof -
  from assms obtain z q' where "bufq_data bq = Some z" "impl_dequeue (bufq_type bq) z = (q', Some bp)"
    "bufq_data bq1 = Some q'"
    by (cases "impl_dequeue (bufq_type bq) (the (bufq_data bq))") (auto simp: bufq_dequeue_def)
  with impl_dequeue_smaller show ?thesis by simp
qed

lemma biodone_data: "biodone bq bp = Return bq' bp' \<Longrightarrow> bufq_data bq' = bufq_data bq"
  by (auto simp: biodone_def bufq_done_def Let_def split: if_splits)

function bufq_drain :: "bufq \<Rightarrow> (bufq, buf list, unit) outcome option" where
  "bufq_drain bq =
     (case bufq_dequeue bq of
        None \<Rightarrow> None
      | Some (bq1, None) \<Rightarrow> Some (Return bq1 [])
      | Some (bq1, Some bp) \<Rightarrow>
          (case biodone bq1 (drained bp) of
             Return bq2 bp2 \<Rightarrow>
               (case bufq_drain bq2 of
                  Some (Return bq3 bps) \<Rightarrow> Some (Return bq3 (bp2 # bps))
                | r \<Rightarrow> r)
           | Panic msg \<Rightarrow> Some (Panic msg)
           | Sleep _ _ \<Rightarrow> None))"
  by pat_completeness auto

termination
  by (relation "measure (\<lambda>bq. length (the (bufq_data bq)))")
    (auto dest!: bufq_dequeue_smaller biodone_data)

declare bufq_drain.simps [simp del]

section \<open>Stopping all queues\<close>

record bufq_system =
  bufqs :: "bufq list"
  bufqs_stop :: bool

text \<open>The end of \<open>bufq_init\<close> and of \<open>bufq_destroy\<close>.\<close>

definition bufq_link :: "bufq_system \<Rightarrow> bufq \<Rightarrow> (bufq_system, unit, unit) outcome" where
  "bufq_link sys bq =
     (if bufqs_stop sys then Sleep sys () else Return (sys\<lparr>bufqs := bq # bufqs sys\<rparr>) ())"

definition bufq_unlink :: "bufq_system \<Rightarrow> nat \<Rightarrow> (bufq_system, unit, unit) outcome" where
  "bufq_unlink sys i =
     (if bufqs_stop sys then Sleep sys ()
      else Return (sys\<lparr>bufqs := list_remove_at (bufqs sys) i\<rparr>) ())"

definition bufq_destroy :: "bufq \<Rightarrow> (bufq, buf list, unit) outcome option" where
  "bufq_destroy bq =
     (case bufq_drain bq of
        Some (Return bq1 bps) \<Rightarrow> Some (Return (bq1\<lparr>bufq_data := None\<rparr>) bps)
      | r \<Rightarrow> r)"

text \<open>
  One turn of the loop of \<open>bufq_quiesce\<close>, and the loop: it sleeps at the first queue with
  outstanding requests, whose index is the state it keeps.
\<close>

definition quiesce_one :: "bufq \<Rightarrow> (bufq, unit, unit) outcome" where
  "quiesce_one bq =
     (let bq1 = bq\<lparr>bufq_stop := True\<rparr>
      in if bufq_outstanding bq1 \<noteq> 0 then Sleep bq1 () else Return bq1 ())"

fun quiesce_from :: "bufq list \<Rightarrow> nat \<Rightarrow> bufq list \<times> nat option" where
  "quiesce_from [] i = ([], None)"
| "quiesce_from (bq # bqs) 0 =
     (case quiesce_one bq of
        Return bq1 _ \<Rightarrow> (let (bqs', r) = quiesce_from bqs 0 in (bq1 # bqs', map_option Suc r))
      | Sleep bq1 _ \<Rightarrow> (bq1 # bqs, Some 0)
      | Panic _ \<Rightarrow> (bq # bqs, Some 0))"
| "quiesce_from (bq # bqs) (Suc i) =
     (let (bqs', r) = quiesce_from bqs i in (bq # bqs', map_option Suc r))"

definition bufq_quiesce :: "bufq_system \<Rightarrow> nat \<Rightarrow> (bufq_system, unit, nat) outcome" where
  "bufq_quiesce sys i =
     (let (bqs, r) = quiesce_from (bufqs sys) i;
          sys1 = sys\<lparr>bufqs_stop := True, bufqs := bqs\<rparr>
      in case r of None \<Rightarrow> Return sys1 () | Some j \<Rightarrow> Sleep sys1 j)"

definition bufq_restart :: "bufq_system \<Rightarrow> bufq_system" where
  "bufq_restart sys =
     sys\<lparr>bufqs := map (\<lambda>bq. bq\<lparr>bufq_stop := False\<rparr>) (bufqs sys), bufqs_stop := False\<rparr>"

end
