(* ===== verification/Bufq_Correct.thy ===== *)
theory Bufq_Correct
  imports Bufq
begin

text \<open>
  Correctness of the disk request queues: the order the seek sort keeps, the
  contract \<open>bufq_impl\<close> shared by both disciplines, and the count of outstanding
  requests on which stopping the queues relies.
\<close>

section \<open>The one-way scan\<close>

definition le_req :: "buf \<Rightarrow> buf \<Rightarrow> bool" where
  "le_req a b \<longleftrightarrow> \<not> before b a"

lemma le_req_refl [simp]: "le_req a a"
  by (auto simp: le_req_def before_def)

lemma le_req_iff:
  "le_req a b \<longleftrightarrow> b_cylinder a < b_cylinder b \<or>
     (b_cylinder a = b_cylinder b \<and> b_blkno a \<le> b_blkno b)"
  by (auto simp: le_req_def before_def)

lemma le_req_trans: "le_req a b \<Longrightarrow> le_req b c \<Longrightarrow> le_req a c"
  unfolding le_req_iff by (elim disjE conjE) auto

lemma le_req_cyl: "le_req a b \<Longrightarrow> b_cylinder a \<le> b_cylinder b"
  by (auto simp: le_req_def before_def)

lemma before_le_req: "before a b \<Longrightarrow> le_req a b"
  by (auto simp: le_req_def before_def)

text \<open>
  A queue is a first list whose requests after the active one ascend, followed by a
  second list that ascends and lies below every cylinder of the first.
\<close>

definition scan_lists :: "buf list \<Rightarrow> buf list \<Rightarrow> bool" where
  "scan_lists as bs \<longleftrightarrow> sorted_wrt le_req (tl as) \<and> sorted_wrt le_req bs \<and>
     (as = [] \<longrightarrow> bs = []) \<and> (\<forall>x \<in> set (tl as). b_cylinder (hd as) \<le> b_cylinder x) \<and>
     (\<forall>a \<in> set as. \<forall>b \<in> set bs. b_cylinder b < b_cylinder a)"

definition one_way :: "buf list \<Rightarrow> bool" where
  "one_way q \<longleftrightarrow> (\<exists>as bs. q = as @ bs \<and> scan_lists as bs)"

lemma mset_disksort: "mset (disksort q bp) = add_mset bp (mset q)"
proof -
  have s: "mset (sort_second bp ns) = add_mset bp (mset ns)" for ns
    by (induction ns) auto
  have "mset (find_inversion bp bq ns) = add_mset bp (mset ns)" for bq ns
  proof (induction ns arbitrary: bq)
    case (Cons n ns)
    with s [of "n # ns"] show ?case by (auto simp del: sort_second.simps)
  qed simp
  moreover have "mset (sort_first bp bq ns) = add_mset bp (mset ns)" for bq ns
    by (induction ns arbitrary: bq) auto
  ultimately show ?thesis by (auto simp: disksort_def split: list.splits)
qed

lemma set_sort_second: "set (sort_second bp ns) = insert bp (set ns)"
  by (induction ns) auto

lemma sorted_sort_second:
  "sorted_wrt le_req ns \<Longrightarrow> sorted_wrt le_req (sort_second bp ns)"
proof (induction ns)
  case (Cons n ns)
  show ?case
  proof (cases "before bp n")
    case True
    with Cons.prems before_le_req [OF True] show ?thesis by (auto intro: le_req_trans)
  next
    case False
    with Cons show ?thesis by (auto simp: set_sort_second le_req_def)
  qed
qed simp

text \<open>Along an ascending list there is no inversion before the second list.\<close>

lemma find_inversion_lists:
  assumes "\<forall>x \<in> set as. b_cylinder bq \<le> b_cylinder x" "sorted_wrt le_req as"
    "\<forall>a \<in> set (bq # as). \<forall>b \<in> set bs. b_cylinder b < b_cylinder a"
  shows "find_inversion bp bq (as @ bs) = as @ sort_second bp bs"
  using assms
proof (induction as arbitrary: bq)
  case Nil
  then show ?case by (cases bs) auto
next
  case (Cons n as)
  then show ?case by (auto simp: not_less dest: le_req_cyl)
qed

lemma sort_first_lists:
  assumes "\<forall>x \<in> set as. b_cylinder bq \<le> b_cylinder x" "sorted_wrt le_req as"
    "\<forall>a \<in> set (bq # as). \<forall>b \<in> set bs. b_cylinder b < b_cylinder a"
  shows "sort_first bp bq (as @ bs) = sort_second bp as @ bs"
  using assms
proof (induction as arbitrary: bq)
  case Nil
  then show ?case by (cases bs) auto
next
  case (Cons n as)
  then show ?case by (auto simp: not_less dest: le_req_cyl)
qed

lemma disksort_one_way:
  assumes "one_way q"
  shows "one_way (disksort q bp)"
proof -
  obtain as bs where q: "q = as @ bs" and s: "scan_lists as bs" using assms by (auto simp: one_way_def)
  show ?thesis
  proof (cases as)
    case Nil
    with q s have "disksort q bp = [bp] @ []" "scan_lists [bp] []"
      by (auto simp: disksort_def scan_lists_def)
    then show ?thesis unfolding one_way_def by blast
  next
    case (Cons h t)
    note inv = s [unfolded scan_lists_def Cons]
    show ?thesis
    proof (cases "b_cylinder bp < b_cylinder h")
      case True
      then have "disksort q bp = as @ sort_second bp bs"
        using find_inversion_lists [of t h bs bp] inv q Cons by (auto simp: disksort_def)
      moreover have "scan_lists as (sort_second bp bs)"
        using inv True Cons sorted_sort_second by (fastforce simp: scan_lists_def set_sort_second)
      ultimately show ?thesis by (auto simp: one_way_def)
    next
      case False
      then have "disksort q bp = (h # sort_second bp t) @ bs"
        using sort_first_lists [of t h bs bp] inv q Cons by (auto simp: disksort_def)
      moreover have "scan_lists (h # sort_second bp t) bs"
        using inv False sorted_sort_second [of t bp] by (fastforce simp: scan_lists_def set_sort_second)
      ultimately show ?thesis unfolding one_way_def by blast
    qed
  qed
qed

lemma tl_one_way:
  assumes "one_way (h # q)"
  shows "one_way q"
proof -
  obtain as bs where q: "h # q = as @ bs" and s: "scan_lists as bs"
    using assms by (auto simp: one_way_def)
  show ?thesis
  proof (cases "tl as = []")
    case True
    with q s have "q = bs" by (cases as) (auto simp: scan_lists_def)
    moreover have "scan_lists bs []"
      using s by (cases bs) (auto simp: scan_lists_def dest: le_req_cyl)
    ultimately show ?thesis unfolding one_way_def by (metis append_Nil2)
  next
    case False
    then obtain a t where as: "as = h # a # t" using q by (cases as; cases "tl as") auto
    with q have "q = (a # t) @ bs" by simp
    moreover have "scan_lists (a # t) bs" using s as by (auto simp: scan_lists_def dest: le_req_cyl)
    ultimately show ?thesis unfolding one_way_def by blast
  qed
qed

section \<open>The contract of a discipline\<close>

text \<open>
  What \<open>bufq_queue\<close> and its siblings rely on, whatever the discipline: no request is
  lost or duplicated, an empty queue and only an empty queue gives NULL, and a
  requeued request comes out next.
\<close>

locale bufq_impl =
  fixes enqueue :: "buf list \<Rightarrow> buf \<Rightarrow> buf list"
    and dequeue :: "buf list \<Rightarrow> buf list \<times> buf option"
    and requeue :: "buf list \<Rightarrow> buf \<Rightarrow> buf list"
    and peek :: "buf list \<Rightarrow> bool"
  assumes enqueue_mset: "mset (enqueue q bp) = add_mset bp (mset q)"
    and dequeue_some: "dequeue q = (q', Some bp) \<Longrightarrow> mset q = add_mset bp (mset q')"
    and dequeue_none: "dequeue q = (q', None) \<Longrightarrow> q = [] \<and> q' = []"
    and requeue_next: "dequeue (requeue q bp) = (q, Some bp)"
    and peek_iff: "peek q \<longleftrightarrow> q \<noteq> []"
begin

lemma dequeue_length: "dequeue q = (q', Some bp) \<Longrightarrow> length q = Suc (length q')"
  by (metis dequeue_some size_add_mset size_mset)

lemma requeue_mset: "mset (requeue q bp) = add_mset bp (mset q)"
  using dequeue_some [OF requeue_next] .

lemma peek_dequeue: "peek q \<longleftrightarrow> (\<exists>q' bp. dequeue q = (q', Some bp))"
proof -
  obtain q' r where d: "dequeue q = (q', r)" by fastforce
  show ?thesis
  proof (cases r)
    case None
    with d dequeue_none peek_iff show ?thesis by fastforce
  next
    case (Some bp)
    with d have "dequeue q = (q', Some bp)" by simp
    moreover from dequeue_length [OF this] have "peek q" by (auto simp: peek_iff)
    ultimately show ?thesis by blast
  qed
qed

end

interpretation disk: bufq_impl bufq_disksort_queue bufq_disksort_dequeue bufq_disksort_requeue
  bufq_disksort_peek
  by unfold_locales
    (auto simp: bufq_disksort_queue_def mset_disksort bufq_disksort_dequeue_def
      bufq_disksort_requeue_def bufq_disksort_peek_def split: list.splits)

interpretation fifo: bufq_impl bufq_fifo_queue bufq_fifo_dequeue bufq_fifo_requeue bufq_fifo_peek
  by unfold_locales
    (auto simp: bufq_fifo_queue_def bufq_fifo_dequeue_def bufq_fifo_requeue_def bufq_fifo_peek_def
      split: list.splits)

interpretation bq: bufq_impl "impl_queue type" "impl_dequeue type" "impl_requeue type" "impl_peek type"
  for type
  unfolding impl_queue_def impl_dequeue_def impl_requeue_def impl_peek_def
  by (simp add: disk.bufq_impl_axioms fifo.bufq_impl_axioms)

lemma bufq_move_mset: "mset (bufq_move otype type odata data) = mset odata + mset data"
proof (induction otype type odata data rule: bufq_move.induct)
  case (1 otype type odata data)
  obtain q' r where d: "impl_dequeue otype odata = (q', r)" by fastforce
  show ?case
  proof (cases r)
    case None
    with d bq.dequeue_none show ?thesis by (subst bufq_move.simps) auto
  next
    case (Some bp)
    with d "1.IH" [OF d [symmetric] Some] bq.dequeue_some [of otype odata q' bp] show ?thesis
      by (subst bufq_move.simps) (simp add: bq.enqueue_mset)
  qed
qed

text \<open>
  C11. The seek sort keeps the one-way scan order and inserts exactly the new request; taking a
  request from the front keeps the order.
\<close>

theorem disksort_correct:
  assumes "one_way q"
  shows "one_way (disksort q bp) \<and> mset (disksort q bp) = add_mset bp (mset q) \<and>
    one_way (fst (bufq_disksort_dequeue q))"
proof -
  have "one_way (fst (bufq_disksort_dequeue q))"
    using assms tl_one_way by (cases q) (auto simp: bufq_disksort_dequeue_def)
  with assms show ?thesis by (simp add: disksort_one_way mset_disksort)
qed

definition req :: "nat \<Rightarrow> u_long \<Rightarrow> int \<Rightarrow> buf" where
  "req i c b = \<lparr>b_id = i, b_cylinder = c, b_blkno = b, b_error = None, b_flags = 0, b_bq = False\<rparr>"

lemma one_way_sample: "one_way [req 1 50 7, req 2 60 3, req 3 10 0]"
proof -
  have "scan_lists [req 1 50 7, req 2 60 3] [req 3 10 0]" by code_simp
  then show ?thesis unfolding one_way_def by (metis append_Cons append_Nil)
qed

theorem disksort_correct_witness:
  "one_way (disksort [req 1 50 7, req 2 60 3, req 3 10 0] (req 4 20 0)) \<and>
   disksort [req 1 50 7, req 2 60 3, req 3 10 0] (req 4 20 0) =
     [req 1 50 7, req 2 60 3, req 3 10 0, req 4 20 0]"
proof
  show "one_way (disksort [req 1 50 7, req 2 60 3, req 3 10 0] (req 4 20 0))"
    using disksort_correct [OF one_way_sample, of "req 4 20 0"] by blast
qed code_simp

text \<open>
  \<open>bufq_switch\<close> to another discipline keeps exactly the queued requests and the count of
  outstanding ones; without memory it returns ENOMEM and changes nothing.
\<close>

theorem bufq_switch_keeps:
  assumes "valid_type type" "bufq_data bq = Some data"
  shows "\<exists>bq' e data'. bufq_switch bq type mem = Some (bq', e) \<and> bufq_data bq' = Some data' \<and>
    mset data' = mset data \<and> bufq_outstanding bq' = bufq_outstanding bq \<and>
    (e = None \<longrightarrow> bufq_type bq' = type) \<and>
    (e \<noteq> None \<longrightarrow> e = Some ENOMEM \<and> \<not> mem \<and> bq' = bq)"
proof -
  have "impl_create type mem = (if mem then Some [] else None)"
    by (auto simp: impl_create_def bufq_disksort_create_def bufq_fifo_create_def)
  with assms bufq_move_mset [of "bufq_type bq" type data "[]"] show ?thesis
    by (cases "bufq_type bq = type") (auto simp: bufq_switch_def bufq_switch_commit_def)
qed

definition disk_queue :: bufq where
  "disk_queue = \<lparr>bufq_data = Some [req 1 50 7, req 2 60 3, req 3 10 0], bufq_outstanding = 4,
     bufq_stop = False, bufq_type = BUFQ_DISKSORT\<rparr>"

theorem bufq_switch_keeps_witness:
  "\<exists>bq' e data'. bufq_switch disk_queue BUFQ_FIFO True = Some (bq', e) \<and>
    bufq_data bq' = Some data' \<and> mset data' = mset [req 1 50 7, req 2 60 3, req 3 10 0] \<and>
    bufq_outstanding bq' = 4"
proof -
  have "valid_type BUFQ_FIFO" by (simp add: valid_type_def)
  moreover have "bufq_data disk_queue = Some [req 1 50 7, req 2 60 3, req 3 10 0]"
    "bufq_outstanding disk_queue = 4" by (simp_all add: disk_queue_def)
  ultimately show ?thesis using bufq_switch_keeps [of BUFQ_FIFO disk_queue _ True] by metis
qed

section \<open>Outstanding requests\<close>

text \<open>
  A queue in use: the queue and the requests a driver has taken and not yet completed. The
  driver requeues or completes only a request it has taken.
\<close>

datatype label = Queue | Dequeue | Requeue | Complete | Switch | Stop | Restart

inductive bufq_step :: "label \<Rightarrow> bufq \<times> buf multiset \<Rightarrow> bufq \<times> buf multiset \<Rightarrow> bool" where
  queue: "bufq_queue bq bp = Some (Return bq' u) \<Longrightarrow> bufq_step Queue (bq, fl) (bq', fl)"
| dequeue: "bufq_dequeue bq = Some (bq', Some bp) \<Longrightarrow>
    bufq_step Dequeue (bq, fl) (bq', add_mset bp fl)"
| requeue: "bp \<in># fl \<Longrightarrow> bufq_requeue bq bp = Some bq' \<Longrightarrow>
    bufq_step Requeue (bq, fl) (bq', fl - {#bp#})"
| complete: "bp \<in># fl \<Longrightarrow> bufq_done bq bp = (bq', bp', w) \<Longrightarrow>
    bufq_step Complete (bq, fl) (bq', fl - {#bp#})"
| switch: "bufq_switch bq type mem = Some (bq', e) \<Longrightarrow> valid_type type \<Longrightarrow>
    bufq_step Switch (bq, fl) (bq', fl)"
| stop: "quiesce_one bq = Return bq' u \<or> quiesce_one bq = Sleep bq' u \<Longrightarrow>
    bufq_step Stop (bq, fl) (bq', fl)"
| restart: "bufq_step Restart (bq, fl) (bq\<lparr>bufq_stop := False\<rparr>, fl)"

inductive_cases bufq_stepE: "bufq_step l (bq, fl) s'"

definition counted :: "bufq \<times> buf multiset \<Rightarrow> bool" where
  "counted s \<longleftrightarrow> (case s of (bq, fl) \<Rightarrow>
     (case bufq_data bq of None \<Rightarrow> False
      | Some data \<Rightarrow> bufq_outstanding bq = of_nat (length data + size fl)))"

lemma length_via_mset: "mset a = add_mset x (mset b) \<Longrightarrow> length a = Suc (length b)"
  by (metis size_add_mset size_mset)

lemma size_taken: "bp \<in># fl \<Longrightarrow> size fl = Suc (size (fl - {#bp#}))"
  by (metis insert_DiffM size_add_mset)

lemma counted_step:
  assumes "bufq_step l s s'" "counted s"
  shows "counted s'"
  using assms
proof (induction rule: bufq_step.induct)
  case (queue bq bp bq' u fl)
  then obtain data where d: "bufq_data bq = Some data" "bufq_outstanding bq = of_nat (length data + size fl)"
    by (auto simp: counted_def split: option.splits)
  have "length (impl_queue (bufq_type bq) data (bp\<lparr>b_bq := True\<rparr>)) = Suc (length data)"
    by (rule length_via_mset [OF bq.enqueue_mset])
  with queue.hyps d show ?case by (auto simp: counted_def bufq_queue_def split: if_splits)
next
  case (dequeue bq bq' bp fl)
  then obtain data data' where d: "bufq_data bq = Some data"
    "bufq_outstanding bq = of_nat (length data + size fl)"
    "impl_dequeue (bufq_type bq) data = (data', Some bp)" "bq' = bq\<lparr>bufq_data := Some data'\<rparr>"
    by (auto simp: counted_def bufq_dequeue_def split: option.splits prod.splits)
  with bq.dequeue_length [OF d(3)] show ?case by (simp add: counted_def)
next
  case (requeue bp fl bq bq')
  then obtain data where d: "bufq_data bq = Some data" "bufq_outstanding bq = of_nat (length data + size fl)"
    by (auto simp: counted_def split: option.splits)
  have "length (impl_requeue (bufq_type bq) data bp) = Suc (length data)"
    by (rule length_via_mset [OF bq.requeue_mset])
  with requeue.hyps d size_taken [of bp fl] show ?case by (auto simp: counted_def bufq_requeue_def)
next
  case (complete bp fl bq bq' bp' w)
  with size_taken [of bp fl] show ?case
    by (auto simp: counted_def bufq_done_def Let_def split: option.splits)
next
  case (switch bq type mem bq' e fl)
  then obtain data where d: "bufq_data bq = Some data" "bufq_outstanding bq = of_nat (length data + size fl)"
    by (auto simp: counted_def split: option.splits)
  have "length (bufq_move (bufq_type bq) type data []) = length data"
    using bufq_move_mset [of "bufq_type bq" type data "[]"] by (metis add.right_neutral mset.simps(1) size_mset)
  with switch d show ?case
    by (auto simp: counted_def bufq_switch_def bufq_switch_commit_def impl_create_def
        bufq_disksort_create_def bufq_fifo_create_def split: if_splits)
next
  case (stop bq bq' u fl)
  then show ?case by (auto simp: counted_def quiesce_one_def Let_def split: option.splits if_splits)
next
  case (restart bq fl)
  then show ?case by (auto simp: counted_def split: option.splits)
qed

inductive bufq_steps :: "label set \<Rightarrow> bufq \<times> buf multiset \<Rightarrow> bufq \<times> buf multiset \<Rightarrow> bool"
  for L where
  refl: "bufq_steps L s s"
| trans: "bufq_steps L s t \<Longrightarrow> l \<in> L \<Longrightarrow> bufq_step l t u \<Longrightarrow> bufq_steps L s u"

lemma counted_steps: "bufq_steps L s t \<Longrightarrow> counted s \<Longrightarrow> counted t"
  by (induction rule: bufq_steps.induct) (auto intro: counted_step)

lemma bufq_init_counted:
  "bufq_init type mem = Some (Return bq r) \<Longrightarrow> counted (bq, {#})"
  by (auto simp: bufq_init_def impl_create_def bufq_disksort_create_def bufq_fifo_create_def counted_def
      split: if_splits option.splits)

text \<open>
  C9. However a queue is used, \<open>bufq_outstanding\<close> counts the requests that are queued or that a
  driver has taken and not completed, also across requeueing, switching the
  discipline, stopping and restarting.
\<close>

theorem bufq_outstanding_exact:
  assumes "bufq_init type mem = Some (Return bq0 r)" "bufq_steps UNIV (bq0, {#}) (bq, fl)"
  shows "\<exists>data. bufq_data bq = Some data \<and> bufq_outstanding bq = of_nat (length data + size fl)"
  using counted_steps [OF assms(2) bufq_init_counted [OF assms(1)]]
  by (auto simp: counted_def split: option.splits)

definition new_queue :: bufq where
  "new_queue = \<lparr>bufq_data = Some [], bufq_outstanding = 0, bufq_stop = False, bufq_type = BUFQ_DISKSORT\<rparr>"

definition new_request :: buf where "new_request = (req 1 50 7)\<lparr>b_bq := True\<rparr>"

lemma new_queue_init: "bufq_init BUFQ_DISKSORT True = Some (Return new_queue 0)"
  by code_simp

lemma new_queue_used:
  "bufq_steps UNIV (new_queue, {#}) (new_queue\<lparr>bufq_outstanding := 1\<rparr>, {#new_request#})"
proof -
  have q: "bufq_queue new_queue (req 1 50 7) =
      Some (Return (new_queue\<lparr>bufq_outstanding := 1, bufq_data := Some [new_request]\<rparr>) ())"
    by code_simp
  have d: "bufq_dequeue (new_queue\<lparr>bufq_outstanding := 1, bufq_data := Some [new_request]\<rparr>) =
      Some (new_queue\<lparr>bufq_outstanding := 1\<rparr>, Some new_request)"
    by code_simp
  from bufq_steps.trans [OF bufq_steps.trans [OF bufq_steps.refl UNIV_I bufq_step.queue [OF q]]
      UNIV_I bufq_step.dequeue [OF d]]
  show ?thesis by simp
qed

theorem bufq_outstanding_exact_witness:
  "\<exists>data. bufq_data (new_queue\<lparr>bufq_outstanding := 1\<rparr>) = Some data \<and>
    bufq_outstanding (new_queue\<lparr>bufq_outstanding := 1\<rparr>) = of_nat (length data + size {#new_request#})"
  by (rule bufq_outstanding_exact [OF new_queue_init new_queue_used])

definition idle :: "bufq \<times> buf multiset \<Rightarrow> bool" where
  "idle s \<longleftrightarrow> bufq_stop (fst s) \<and> bufq_outstanding (fst s) = 0 \<and> bufq_data (fst s) = Some [] \<and>
     snd s = {#}"

lemma idle_step:
  assumes "bufq_step l s s'" "l \<noteq> Restart" "idle s"
  shows "idle s'"
  using assms
proof (induction rule: bufq_step.induct)
  case (queue bq bp bq' u fl)
  then show ?case by (simp add: idle_def bufq_queue_def)
next
  case (dequeue bq bq' bp fl)
  then obtain q' where "impl_dequeue (bufq_type bq) [] = (q', Some bp)"
    by (auto simp: idle_def bufq_dequeue_def split: prod.splits)
  from bq.dequeue_length [OF this] show ?case by simp
next
  case (switch bq type mem bq' e fl)
  have "bufq_move (bufq_type bq) type [] [] = []"
    using bufq_move_mset [of "bufq_type bq" type "[]" "[]"] by simp
  with switch show ?case
    by (auto simp: idle_def bufq_switch_def bufq_switch_commit_def impl_create_def
        bufq_disksort_create_def bufq_fifo_create_def split: if_splits)
next
  case (stop bq bq' u fl)
  then show ?case by (auto simp: idle_def quiesce_one_def Let_def split: if_splits)
qed (auto simp: idle_def)

text \<open>
  C10. Once \<open>bufq_quiesce\<close> has passed a queue, that queue has no request queued or in
  progress, and this stays so until \<open>bufq_restart\<close>, whatever else is done with it.
\<close>

theorem bufq_quiesced_idle:
  assumes init: "bufq_init type mem = Some (Return bq0 r)"
    and use_: "bufq_steps UNIV (bq0, {#}) (bq, fl)"
    and few: "length (the (bufq_data bq)) + size fl < 2 ^ 32"
    and quiet: "quiesce_one bq = Return bq1 u"
    and later: "bufq_steps (- {Restart}) (bq1, fl) (bq2, fl2)"
  shows "bufq_data bq2 = Some [] \<and> fl2 = {#} \<and> bufq_stop bq2"
proof -
  from counted_steps [OF use_ bufq_init_counted [OF init]] obtain data where
    d: "bufq_data bq = Some data" "bufq_outstanding bq = of_nat (length data + size fl)"
    by (auto simp: counted_def split: option.splits)
  from quiet have "bufq_outstanding bq = 0" "bq1 = bq\<lparr>bufq_stop := True\<rparr>"
    by (auto simp: quiesce_one_def Let_def split: if_splits)
  moreover have "unat (of_nat (length data + size fl) :: u_int) = length data + size fl"
    using few d(1) by (simp only: unat_of_nat) simp
  ultimately have "idle (bq1, fl)" using d by (simp add: idle_def)
  with later have "idle (bq2, fl2)"
    by (induction "(bq2, fl2)" arbitrary: bq2 fl2 rule: bufq_steps.induct) (auto intro: idle_step)
  then show ?thesis by (simp add: idle_def)
qed

theorem bufq_quiesced_idle_witness:
  "bufq_data (new_queue\<lparr>bufq_stop := True\<rparr>) = Some [] \<and> {#} = ({#} :: buf multiset) \<and>
   bufq_stop (new_queue\<lparr>bufq_stop := True\<rparr>)"
proof (rule bufq_quiesced_idle [OF new_queue_init bufq_steps.refl _ _ bufq_steps.refl])
  show "length (the (bufq_data new_queue)) + size {#} < 2 ^ 32" by (simp add: new_queue_def)
  show "quiesce_one new_queue = Return (new_queue\<lparr>bufq_stop := True\<rparr>) ()" by code_simp
qed

section \<open>Draining\<close>

text \<open>What \<open>bufq_drain\<close> makes of a request.\<close>

definition failed :: "buf \<Rightarrow> buf" where
  "failed bp = bp\<lparr>b_error := Some ENXIO, b_flags := (b_flags bp OR B_ERROR) OR B_DONE, b_bq := False\<rparr>"

lemma biodone_drained:
  assumes "b_bq bp" "\<not> has_flag (b_flags bp) B_DONE"
  shows "biodone bq (drained bp) =
    Return (bq\<lparr>bufq_outstanding := bufq_outstanding bq - 1\<rparr>) (failed bp)"
proof -
  have "\<not> has_flag B_ERROR B_DONE" by (simp add: has_flag_def B_ERROR_def B_DONE_def)
  with assms show ?thesis
    by (simp add: biodone_def drained_def bufq_done_def failed_def Let_def has_flag_or)
qed

text \<open>
  \<open>bufq_drain\<close> ends with an empty queue, completes every queued request once with
  ENXIO and lowers the count of outstanding requests by their number.
\<close>

theorem bufq_drain_correct:
  assumes "bufq_data bq = Some data"
    "\<forall>bp \<in> set data. b_bq bp \<and> \<not> has_flag (b_flags bp) B_DONE"
  shows "\<exists>bq' bps. bufq_drain bq = Some (Return bq' bps) \<and> bufq_data bq' = Some [] \<and>
    bufq_outstanding bq' = bufq_outstanding bq - of_nat (length data) \<and>
    mset bps = image_mset failed (mset data)"
  using assms
proof (induction "length data" arbitrary: data bq)
  case 0
  then obtain q' r where d: "impl_dequeue (bufq_type bq) [] = (q', r)" by fastforce
  then have "r = None" using bq.dequeue_length [of "bufq_type bq" "[]"] by (cases r) auto
  with d bq.dequeue_none have "bufq_dequeue bq = Some (bq\<lparr>bufq_data := Some []\<rparr>, None)"
    using 0 by (auto simp: bufq_dequeue_def)
  with 0 show ?case by (subst bufq_drain.simps) simp
next
  case (Suc n)
  obtain q' r where d0: "impl_dequeue (bufq_type bq) data = (q', r)" by fastforce
  then obtain bp where "r = Some bp"
    using bq.dequeue_none [of "bufq_type bq" data q'] Suc.hyps(2) by (cases r) auto
  with d0 have d: "impl_dequeue (bufq_type bq) data = (q', Some bp)" by simp
  note ms = bq.dequeue_some [OF d]
  let ?b1 = "bq\<lparr>bufq_data := Some q'\<rparr>"
  let ?b2 = "?b1\<lparr>bufq_outstanding := bufq_outstanding bq - 1\<rparr>"
  have elems: "set data = insert bp (set q')" using ms by (metis set_mset_add_mset_insert set_mset_mset)
  have len: "n = length q'" using bq.dequeue_length [OF d] Suc.hyps(2) by simp
  have b1: "bufq_dequeue bq = Some (?b1, Some bp)" using d Suc.prems(1) by (simp add: bufq_dequeue_def)
  have b2: "biodone ?b1 (drained bp) = Return ?b2 (failed bp)"
    using biodone_drained [of bp ?b1] Suc.prems(2) elems by simp
  from Suc.hyps(1) [OF len, of ?b2] Suc.prems(2) elems obtain bq' bps where
    ih: "bufq_drain ?b2 = Some (Return bq' bps)" "bufq_data bq' = Some []"
      "bufq_outstanding bq' = bufq_outstanding bq - 1 - of_nat (length q')"
      "mset bps = image_mset failed (mset q')" by auto
  have "bufq_drain bq = Some (Return bq' (failed bp # bps))"
    using b1 b2 ih(1) by (subst bufq_drain.simps) simp
  moreover have "length data = Suc (length q')" using bq.dequeue_length [OF d] .
  ultimately show ?case using ih ms by simp
qed

theorem bufq_drain_correct_witness:
  "\<exists>bq' bps. bufq_drain (new_queue\<lparr>bufq_data := Some [new_request], bufq_outstanding := 1\<rparr>) =
      Some (Return bq' bps) \<and> bufq_data bq' = Some [] \<and> bufq_outstanding bq' = 0 \<and>
    mset bps = {#failed new_request#}"
  using bufq_drain_correct [of "new_queue\<lparr>bufq_data := Some [new_request], bufq_outstanding := 1\<rparr>"
      "[new_request]"]
  by (simp add: new_request_def req_def)

text \<open>The check of the type accepts a type for which the table has no entry.\<close>

lemma bufq_init_off_by_one: "bufq_init BUFQ_HOWMANY True = None"
  by code_simp

end
