(* ===== verification/Cred.thy ===== *)
theory Cred
  imports Prelude
begin

text \<open>
  The credential system calls of kern/kern_prot.c: user and group ids of a process, kept in
  the process and in a reference-counted \<open>ucred\<close> that other holders may share. The ucreds
  are a store of addresses, so that copy-on-write shows in the model.
\<close>

section \<open>Data\<close>

record ucred =
  cr_ref :: u_int
  cr_uid :: u_int
  cr_gid :: u_int
  cr_ngroups :: nat
  cr_groups :: "u_int list"

text \<open>
  The state a credential call works on: the ucreds and the next address \<open>pool_get\<close>
  returns, the process counts per user, and the \<open>pcred\<close> and flags of the process.
\<close>

record cstate =
  ucreds :: "nat \<Rightarrow> ucred option"
  fresh :: nat
  proccnt :: "u_int \<Rightarrow> int"
  pc_ucred :: nat
  p_ruid :: u_int
  p_svuid :: u_int
  p_rgid :: u_int
  p_svgid :: u_int
  ps_refcnt :: int
  ps_flags :: u_int
  p_acflag :: u_short

definition NGROUPS :: nat where "NGROUPS = 16"
definition ASU :: u_short where "ASU = 0x02"
definition SUSER_NOACCT :: u_int where "SUSER_NOACCT = 0x1"
definition PS_SUGID :: u_int where "PS_SUGID = 0x000100"

text \<open>\<open>Fault\<close>: the ucred of the process does not exist.\<close>

datatype cres = Ok cstate | Err errno cstate | Dead string | Fault

fun andthen :: "cres \<Rightarrow> (cstate \<Rightarrow> cres) \<Rightarrow> cres" where
  "andthen (Ok s) f = f s"
| "andthen r f = r"

definition with_cred :: "cstate \<Rightarrow> (ucred \<Rightarrow> cres) \<Rightarrow> cres" where
  "with_cred s f = (case ucreds s (pc_ucred s) of None \<Rightarrow> Fault | Some c \<Rightarrow> f c)"

section \<open>Helpers\<close>

definition suser :: "cstate \<Rightarrow> u_int \<Rightarrow> cres" where
  "suser s flags = with_cred s (\<lambda>cred.
     if cr_uid cred = 0 then
       (if \<not> has_flag flags SUSER_NOACCT then Ok (s\<lparr>p_acflag := p_acflag s OR ASU\<rparr>) else Ok s)
     else Err EPERM s)"

definition suser_ucred :: "ucred \<Rightarrow> errno option" where
  "suser_ucred cred = (if cr_uid cred = 0 then None else Some EPERM)"

definition crget :: "cstate \<Rightarrow> cstate \<times> nat" where
  "crget s =
     (let cr = \<lparr>cr_ref = 1, cr_uid = 0, cr_gid = 0, cr_ngroups = 0, cr_groups = replicate NGROUPS 0\<rparr>
      in (s\<lparr>ucreds := (ucreds s)(fresh s \<mapsto> cr), fresh := fresh s + 1\<rparr>, fresh s))"

definition crfree :: "cstate \<Rightarrow> nat \<Rightarrow> cstate option" where
  "crfree s a = map_option (\<lambda>c.
     if cr_ref c - 1 = 0 then s\<lparr>ucreds := (ucreds s)(a := None)\<rparr>
     else s\<lparr>ucreds := (ucreds s)(a \<mapsto> c\<lparr>cr_ref := cr_ref c - 1\<rparr>)\<rparr>) (ucreds s a)"

definition crcopy :: "cstate \<Rightarrow> nat \<Rightarrow> (cstate \<times> nat) option" where
  "crcopy s a = (case ucreds s a of
       None \<Rightarrow> None
     | Some cr \<Rightarrow>
         if cr_ref cr = 1 then Some (s, a)
         else
           let (s1, n) = crget s;
               s2 = s1\<lparr>ucreds := (ucreds s1)(n \<mapsto> cr)\<rparr>
           in map_option (\<lambda>s3. (s3\<lparr>ucreds := (ucreds s3)(n \<mapsto> cr\<lparr>cr_ref := 1\<rparr>)\<rparr>, n)) (crfree s2 a))"

definition crdup :: "cstate \<Rightarrow> nat \<Rightarrow> (cstate \<times> nat) option" where
  "crdup s a = map_option (\<lambda>cr.
     let (s1, n) = crget s in (s1\<lparr>ucreds := (ucreds s1)(n \<mapsto> cr\<lparr>cr_ref := 1\<rparr>)\<rparr>, n)) (ucreds s a)"

text \<open>\<open>pc->pc_ucred = crcopy(pc->pc_ucred)\<close> followed by an assignment to the copy.\<close>

definition set_cred :: "cstate \<Rightarrow> (ucred \<Rightarrow> ucred) \<Rightarrow> cres" where
  "set_cred s f = (case crcopy s (pc_ucred s) of
       None \<Rightarrow> Fault
     | Some (s1, a) \<Rightarrow>
         (case ucreds s1 a of
            None \<Rightarrow> Fault
          | Some c \<Rightarrow> Ok (s1\<lparr>pc_ucred := a, ucreds := (ucreds s1)(a \<mapsto> f c)\<rparr>)))"

definition set_sugid :: "cstate \<Rightarrow> cstate" where
  "set_sugid s = s\<lparr>ps_flags := ps_flags s OR PS_SUGID\<rparr>"

definition chgproccnt :: "cstate \<Rightarrow> u_int \<Rightarrow> int \<Rightarrow> cres" where
  "chgproccnt s uid diff =
     (let n = proccnt s uid + diff
      in if n < 0 then Dead ''chgproccnt: procs < 0''
         else Ok (s\<lparr>proccnt := (proccnt s)(uid := n)\<rparr>))"

text \<open>Transfer of the process count and the new real uid.\<close>

definition set_ruid :: "cstate \<Rightarrow> u_int \<Rightarrow> cres" where
  "set_ruid s ruid =
     andthen (chgproccnt s (p_ruid s) (- ps_refcnt s)) (\<lambda>s1.
     andthen (chgproccnt s1 ruid (ps_refcnt s1)) (\<lambda>s2.
     Ok (s2\<lparr>p_ruid := ruid\<rparr>)))"

definition groupmember :: "u_int \<Rightarrow> ucred \<Rightarrow> bool" where
  "groupmember gid cred \<longleftrightarrow> gid \<in> set (take (cr_ngroups cred) (cr_groups cred))"

section \<open>User ids\<close>

text \<open>One of the three permission checks of \<open>sys_setresuid\<close>.\<close>

definition check_uid :: "u_int \<Rightarrow> cstate \<Rightarrow> cres" where
  "check_uid uid s = with_cred s (\<lambda>c.
     if uid \<noteq> -1 \<and> uid \<noteq> p_ruid s \<and> uid \<noteq> cr_uid c \<and> uid \<noteq> p_svuid s then suser s 0 else Ok s)"

definition sys_setresuid :: "cstate \<Rightarrow> u_int \<Rightarrow> u_int \<Rightarrow> u_int \<Rightarrow> cres" where
  "sys_setresuid s ruid euid suid = with_cred s (\<lambda>c.
     if (ruid = -1 \<or> ruid = p_ruid s) \<and> (euid = -1 \<or> euid = cr_uid c) \<and>
        (suid = -1 \<or> suid = p_svuid s) then Ok s
     else
       andthen (check_uid ruid s) (\<lambda>s.
       andthen (check_uid euid s) (\<lambda>s.
       andthen (check_uid suid s) (\<lambda>s.
       andthen (if ruid \<noteq> -1 \<and> ruid \<noteq> p_ruid s then set_ruid s ruid else Ok s) (\<lambda>s.
       andthen (if euid \<noteq> -1 \<and> euid \<noteq> cr_uid c then set_cred s (cr_uid_update (\<lambda>_. euid)) else Ok s) (\<lambda>s.
       Ok (set_sugid (if suid \<noteq> -1 \<and> suid \<noteq> p_svuid s then s\<lparr>p_svuid := suid\<rparr> else s))))))))"

definition sys_setreuid :: "cstate \<Rightarrow> u_int \<Rightarrow> u_int \<Rightarrow> cres" where
  "sys_setreuid s ruid euid = with_cred s (\<lambda>c.
     sys_setresuid s ruid euid
       (if ruid \<noteq> -1 \<and> (ruid \<noteq> p_ruid s \<or> p_svuid s \<noteq> (if euid \<noteq> -1 then euid else cr_uid c))
        then ruid else -1))"

definition sys_setuid :: "cstate \<Rightarrow> u_int \<Rightarrow> cres" where
  "sys_setuid s uid = with_cred s (\<lambda>c.
     if cr_uid c = uid \<and> p_ruid s = uid \<and> p_svuid s = uid then Ok s
     else
       andthen (if uid \<noteq> p_ruid s \<and> uid \<noteq> p_svuid s \<and> uid \<noteq> cr_uid c then suser s 0 else Ok s) (\<lambda>s.
       andthen
         (case (if uid = cr_uid c then Ok s else suser s 0) of
            Ok s1 \<Rightarrow>
              andthen (if uid \<noteq> p_ruid s1 then set_ruid s1 uid else Ok s1) (\<lambda>s2.
              Ok (s2\<lparr>p_ruid := uid, p_svuid := uid\<rparr>))
          | Err _ s1 \<Rightarrow> Ok s1
          | r \<Rightarrow> r) (\<lambda>s.
       andthen (set_cred s (cr_uid_update (\<lambda>_. uid))) (\<lambda>s. Ok (set_sugid s)))))"

definition sys_seteuid :: "cstate \<Rightarrow> u_int \<Rightarrow> cres" where
  "sys_seteuid s euid = with_cred s (\<lambda>c.
     if cr_uid c = euid then Ok s
     else
       andthen (if euid \<noteq> p_ruid s \<and> euid \<noteq> p_svuid s then suser s 0 else Ok s) (\<lambda>s.
       andthen (set_cred s (cr_uid_update (\<lambda>_. euid))) (\<lambda>s. Ok (set_sugid s))))"

section \<open>Group ids\<close>

definition check_gid :: "u_int \<Rightarrow> cstate \<Rightarrow> cres" where
  "check_gid gid s = with_cred s (\<lambda>c.
     if gid \<noteq> -1 \<and> gid \<noteq> p_rgid s \<and> gid \<noteq> cr_gid c \<and> gid \<noteq> p_svgid s then suser s 0 else Ok s)"

definition sys_setresgid :: "cstate \<Rightarrow> u_int \<Rightarrow> u_int \<Rightarrow> u_int \<Rightarrow> cres" where
  "sys_setresgid s rgid egid sgid = with_cred s (\<lambda>c.
     if (rgid = -1 \<or> rgid = p_rgid s) \<and> (egid = -1 \<or> egid = cr_gid c) \<and>
        (sgid = -1 \<or> sgid = p_svgid s) then Ok s
     else
       andthen (check_gid rgid s) (\<lambda>s.
       andthen (check_gid egid s) (\<lambda>s.
       andthen (check_gid sgid s) (\<lambda>s.
       andthen (Ok (if rgid \<noteq> -1 then s\<lparr>p_rgid := rgid\<rparr> else s)) (\<lambda>s.
       andthen (if egid \<noteq> -1 then set_cred s (cr_gid_update (\<lambda>_. egid)) else Ok s) (\<lambda>s.
       Ok (set_sugid (if sgid \<noteq> -1 then s\<lparr>p_svgid := sgid\<rparr> else s))))))))"

definition sys_setregid :: "cstate \<Rightarrow> u_int \<Rightarrow> u_int \<Rightarrow> cres" where
  "sys_setregid s rgid egid = with_cred s (\<lambda>c.
     sys_setresgid s rgid egid
       (if rgid \<noteq> -1 \<and> (rgid \<noteq> p_rgid s \<or> p_svgid s \<noteq> (if egid \<noteq> -1 then egid else cr_gid c))
        then rgid else -1))"

definition sys_setgid :: "cstate \<Rightarrow> u_int \<Rightarrow> cres" where
  "sys_setgid s gid = with_cred s (\<lambda>c.
     if cr_gid c = gid \<and> p_rgid s = gid \<and> p_svgid s = gid then Ok s
     else
       andthen (if gid \<noteq> p_rgid s \<and> gid \<noteq> p_svgid s \<and> gid \<noteq> cr_gid c then suser s 0 else Ok s) (\<lambda>s.
       andthen
         (case (if gid = cr_gid c then Ok s else suser s 0) of
            Ok s1 \<Rightarrow> Ok (s1\<lparr>p_rgid := gid, p_svgid := gid\<rparr>)
          | Err _ s1 \<Rightarrow> Ok s1
          | r \<Rightarrow> r) (\<lambda>s.
       andthen (set_cred s (cr_gid_update (\<lambda>_. gid))) (\<lambda>s. Ok (set_sugid s)))))"

definition sys_setegid :: "cstate \<Rightarrow> u_int \<Rightarrow> cres" where
  "sys_setegid s egid = with_cred s (\<lambda>c.
     if cr_gid c = egid then Ok s
     else
       andthen (if egid \<noteq> p_rgid s \<and> egid \<noteq> p_svgid s then suser s 0 else Ok s) (\<lambda>s.
       andthen (set_cred s (cr_gid_update (\<lambda>_. egid))) (\<lambda>s. Ok (set_sugid s))))"

text \<open>
  \<open>user\<close> are the group ids \<open>copyin\<close> has copied, all \<open>gidsetsize\<close> of them unless it faults.
\<close>

definition sys_setgroups :: "cstate \<Rightarrow> u_int \<Rightarrow> u_int list \<Rightarrow> bool \<Rightarrow> cres" where
  "sys_setgroups s gidsetsize user fault =
     andthen (suser s 0) (\<lambda>s.
       if unat gidsetsize > NGROUPS then Err EINVAL s
       else
         andthen (set_cred s (cr_groups_update (\<lambda>gs. take (unat gidsetsize) user @
             drop (length (take (unat gidsetsize) user)) gs))) (\<lambda>s.
         if fault then Err EFAULT s
         else
           andthen (with_cred s (\<lambda>c. Ok (s\<lparr>ucreds := (ucreds s)(pc_ucred s \<mapsto>
               c\<lparr>cr_ngroups := unat gidsetsize\<rparr>)\<rparr>))) (\<lambda>s.
           Ok (set_sugid s))))"

section \<open>Reading the ids\<close>

definition sys_getuid :: "cstate \<Rightarrow> (u_int \<times> u_int) option" where
  "sys_getuid s = map_option (\<lambda>c. (p_ruid s, cr_uid c)) (ucreds s (pc_ucred s))"

definition sys_geteuid :: "cstate \<Rightarrow> u_int option" where
  "sys_geteuid s = map_option cr_uid (ucreds s (pc_ucred s))"

definition sys_getgid :: "cstate \<Rightarrow> (u_int \<times> u_int) option" where
  "sys_getgid s = map_option (\<lambda>c. (p_rgid s, cr_gid c)) (ucreds s (pc_ucred s))"

definition sys_getegid :: "cstate \<Rightarrow> u_int option" where
  "sys_getegid s = map_option cr_gid (ucreds s (pc_ucred s))"

text \<open>\<open>sys_getgroups\<close> gives the count, and the groups it copies out.\<close>

definition sys_getgroups :: "cstate \<Rightarrow> u_int \<Rightarrow> (errno + nat \<times> u_int list) option" where
  "sys_getgroups s gidsetsize = map_option (\<lambda>c.
     if gidsetsize = 0 then Inr (cr_ngroups c, [])
     else if unat gidsetsize < cr_ngroups c then Inl EINVAL
     else Inr (cr_ngroups c, take (cr_ngroups c) (cr_groups c))) (ucreds s (pc_ucred s))"

end
