(* ===== verification/Cred_Safety.thy ===== *)
theory Cred_Safety
  imports Cred
begin

text \<open>
  What the credential calls guarantee: each refines an abstract rule on the triple of real,
  effective and saved id; an unprivileged process never gains an id; a shared ucred is
  never modified; a failing call changes no id.
\<close>

section \<open>The abstract rules\<close>

type_synonym ids = "u_int \<times> u_int \<times> u_int"

definition pick :: "u_int \<Rightarrow> u_int \<Rightarrow> u_int" where
  "pick v old = (if v = -1 then old else v)"

lemma pick_alt: "pick v old = (if v \<noteq> -1 then v else old)"
  by (simp add: pick_def)

fun permitted :: "bool \<Rightarrow> ids \<Rightarrow> u_int \<Rightarrow> bool" where
  "permitted root (r, e, s) v \<longleftrightarrow> root \<or> v = -1 \<or> v = r \<or> v = e \<or> v = s"

text \<open>None: the call fails with EPERM.\<close>

fun spec_setres :: "bool \<Rightarrow> ids \<Rightarrow> ids \<Rightarrow> ids option" where
  "spec_setres root (r, e, s) (x, y, z) =
     (if permitted root (r, e, s) x \<and> permitted root (r, e, s) y \<and> permitted root (r, e, s) z
      then Some (pick x r, pick y e, pick z s) else None)"

fun spec_setre :: "bool \<Rightarrow> ids \<Rightarrow> u_int \<Rightarrow> u_int \<Rightarrow> ids option" where
  "spec_setre root (r, e, s) x y =
     spec_setres root (r, e, s) (x, y, if x \<noteq> -1 \<and> (x \<noteq> r \<or> s \<noteq> pick y e) then x else -1)"

fun spec_set :: "bool \<Rightarrow> ids \<Rightarrow> u_int \<Rightarrow> ids option" where
  "spec_set root (r, e, s) u =
     (if root \<or> u = e then Some (u, u, u) else if u = r \<or> u = s then Some (r, u, s) else None)"

fun spec_sete :: "bool \<Rightarrow> ids \<Rightarrow> u_int \<Rightarrow> ids option" where
  "spec_sete root (r, e, s) u = (if root \<or> u = r \<or> u = e \<or> u = s then Some (r, u, s) else None)"

section \<open>The state of a process\<close>

definition cred_of :: "cstate \<Rightarrow> ucred" where
  "cred_of s = the (ucreds s (pc_ucred s))"

definition uids :: "cstate \<Rightarrow> ids" where
  "uids s = (p_ruid s, cr_uid (cred_of s), p_svuid s)"

definition gids :: "cstate \<Rightarrow> ids" where
  "gids s = (p_rgid s, cr_gid (cred_of s), p_svgid s)"

definition groups :: "cstate \<Rightarrow> u_int list" where
  "groups s = take (cr_ngroups (cred_of s)) (cr_groups (cred_of s))"

definition is_root :: "cstate \<Rightarrow> bool" where
  "is_root s \<longleftrightarrow> cr_uid (cred_of s) = 0"

text \<open>The ucreds are consistent, and the count of the real uid covers the process.\<close>

definition cred_ok :: "cstate \<Rightarrow> bool" where
  "cred_ok s \<longleftrightarrow> ucreds s (pc_ucred s) \<noteq> None \<and> (\<forall>a \<ge> fresh s. ucreds s a = None) \<and>
     (\<forall>a c. ucreds s a = Some c \<longrightarrow> cr_ref c \<noteq> 0 \<and> length (cr_groups c) = NGROUPS \<and>
        cr_ngroups c \<le> NGROUPS) \<and>
     0 \<le> ps_refcnt s \<and> ps_refcnt s \<le> proccnt s (p_ruid s) \<and> (\<forall>u. 0 \<le> proccnt s u)"

text \<open>Two ucreds that differ in the reference count only.\<close>

definition same_cred :: "ucred \<Rightarrow> ucred \<Rightarrow> bool" where
  "same_cred c d \<longleftrightarrow> cr_uid c = cr_uid d \<and> cr_gid c = cr_gid d \<and> cr_ngroups c = cr_ngroups d \<and>
     cr_groups c = cr_groups d"

text \<open>What holders of the other references to ucreds see does not change.\<close>

definition others_keep :: "cstate \<Rightarrow> cstate \<Rightarrow> bool" where
  "others_keep s s' \<longleftrightarrow> (\<forall>a c. ucreds s a = Some c \<and> (a \<noteq> pc_ucred s \<or> cr_ref c \<noteq> 1) \<longrightarrow>
     (\<exists>d. ucreds s' a = Some d \<and> same_cred d c \<and> (a \<noteq> pc_ucred s' \<or> cr_ref d \<noteq> 1)))"

lemma others_keep_refl [simp]: "others_keep s s"
  by (auto simp: others_keep_def same_cred_def)

lemma others_keep_trans: "others_keep s t \<Longrightarrow> others_keep t u \<Longrightarrow> others_keep s u"
proof (unfold others_keep_def, intro allI impI)
  fix a c
  assume st: "\<forall>a c. ucreds s a = Some c \<and> (a \<noteq> pc_ucred s \<or> cr_ref c \<noteq> 1) \<longrightarrow>
      (\<exists>d. ucreds t a = Some d \<and> same_cred d c \<and> (a \<noteq> pc_ucred t \<or> cr_ref d \<noteq> 1))"
    and tu: "\<forall>a c. ucreds t a = Some c \<and> (a \<noteq> pc_ucred t \<or> cr_ref c \<noteq> 1) \<longrightarrow>
      (\<exists>d. ucreds u a = Some d \<and> same_cred d c \<and> (a \<noteq> pc_ucred u \<or> cr_ref d \<noteq> 1))"
    and c: "ucreds s a = Some c \<and> (a \<noteq> pc_ucred s \<or> cr_ref c \<noteq> 1)"
  from st c obtain d where d: "ucreds t a = Some d" "same_cred d c" "a \<noteq> pc_ucred t \<or> cr_ref d \<noteq> 1"
    by blast
  with tu obtain e where "ucreds u a = Some e" "same_cred e d" "a \<noteq> pc_ucred u \<or> cr_ref e \<noteq> 1" by blast
  with d(2) show "\<exists>d. ucreds u a = Some d \<and> same_cred d c \<and> (a \<noteq> pc_ucred u \<or> cr_ref d \<noteq> 1)"
    by (auto simp: same_cred_def)
qed

lemma others_keep_fields:
  "ucreds t = ucreds s \<Longrightarrow> pc_ucred t = pc_ucred s \<Longrightarrow> others_keep s t"
  by (auto simp: others_keep_def same_cred_def)

lemma with_cred_ok: "cred_ok s \<Longrightarrow> with_cred s f = f (cred_of s)"
  by (auto simp: with_cred_def cred_ok_def cred_of_def)

lemma suser_eq:
  assumes "cred_ok s"
  shows "suser s 0 = (if is_root s then Ok (s\<lparr>p_acflag := p_acflag s OR ASU\<rparr>) else Err EPERM s)"
  using assms by (simp add: suser_def with_cred_ok is_root_def)

section \<open>Copy on write\<close>

lemma crcopy_eq:
  assumes "cred_ok s"
  shows "crcopy s (pc_ucred s) = Some (if cr_ref (cred_of s) = 1 then (s, pc_ucred s)
    else (s\<lparr>ucreds := (ucreds s)(pc_ucred s \<mapsto> (cred_of s)\<lparr>cr_ref := cr_ref (cred_of s) - 1\<rparr>,
        fresh s \<mapsto> (cred_of s)\<lparr>cr_ref := 1\<rparr>), fresh := fresh s + 1\<rparr>, fresh s))"
proof -
  obtain c where c: "ucreds s (pc_ucred s) = Some c" and f: "ucreds s (fresh s) = None"
    using assms by (auto simp: cred_ok_def)
  then have ne: "pc_ucred s \<noteq> fresh s" by auto
  have "cr_ref c \<noteq> 1 \<Longrightarrow> cr_ref c - 1 \<noteq> 0" by simp
  with c ne show ?thesis
    by (auto simp: crcopy_def crget_def crfree_def cred_of_def Let_def fun_upd_twist)
qed

text \<open>The effect of \<open>set_cred\<close> on everything a theorem speaks of.\<close>

definition only_cred :: "(ucred \<Rightarrow> ucred) \<Rightarrow> cstate \<Rightarrow> cstate \<Rightarrow> bool" where
  "only_cred f s t \<longleftrightarrow> cred_ok t \<and> others_keep s t \<and> same_cred (cred_of t) (f (cred_of s)) \<and>
     p_ruid t = p_ruid s \<and> p_svuid t = p_svuid s \<and> p_rgid t = p_rgid s \<and> p_svgid t = p_svgid s \<and>
     proccnt t = proccnt s \<and> ps_refcnt t = ps_refcnt s \<and> ps_flags t = ps_flags s"

text \<open>Updates that keep the reference count and the size of the group array.\<close>

definition proper_upd :: "(ucred \<Rightarrow> ucred) \<Rightarrow> bool" where
  "proper_upd f \<longleftrightarrow> (\<forall>c. cr_ref (f c) = cr_ref c) \<and>
     (\<forall>c d. same_cred c d \<longrightarrow> same_cred (f c) (f d)) \<and>
     (\<forall>c. length (cr_groups c) = NGROUPS \<and> cr_ngroups c \<le> NGROUPS \<longrightarrow>
        length (cr_groups (f c)) = NGROUPS \<and> cr_ngroups (f c) \<le> NGROUPS)"

lemma set_cred_ok:
  assumes ok: "cred_ok s" and f: "proper_upd f"
  shows "\<exists>t. set_cred s f = Ok t \<and> only_cred f s t"
proof -
  obtain c where c: "ucreds s (pc_ucred s) = Some c" and n: "ucreds s (fresh s) = None"
    using ok by (auto simp: cred_ok_def)
  then have ne: "pc_ucred s \<noteq> fresh s" by auto
  have co: "cred_of s = c" using c by (simp add: cred_of_def)
  have fc: "cr_ref (f d) = cr_ref d" for d using f by (simp add: proper_upd_def)
  have gr: "length (cr_groups (f d)) = NGROUPS \<and> cr_ngroups (f d) \<le> NGROUPS"
    if "length (cr_groups d) = NGROUPS" "cr_ngroups d \<le> NGROUPS" for d
    using f that by (simp add: proper_upd_def)
  show ?thesis
  proof (cases "cr_ref c = 1")
    case True
    let ?t = "s\<lparr>ucreds := (ucreds s)(pc_ucred s \<mapsto> f c)\<rparr>"
    have "set_cred s f = Ok ?t" using crcopy_eq [OF ok] c co True by (simp add: set_cred_def)
    moreover have "cred_ok ?t" using ok c fc gr by (auto simp: cred_ok_def)
    moreover have "others_keep s ?t" using True c by (auto simp: others_keep_def same_cred_def)
    moreover have "same_cred (cred_of ?t) (f (cred_of s))" by (simp add: cred_of_def same_cred_def c)
    ultimately show ?thesis unfolding only_cred_def by (intro exI [of _ ?t]) simp
  next
    case False
    let ?old = "c\<lparr>cr_ref := cr_ref c - 1\<rparr>" and ?new = "f (c\<lparr>cr_ref := 1\<rparr>)"
    let ?t = "s\<lparr>ucreds := (ucreds s)(pc_ucred s \<mapsto> ?old, fresh s \<mapsto> ?new), fresh := fresh s + 1,
      pc_ucred := fresh s\<rparr>"
    have "set_cred s f = Ok ?t"
      using crcopy_eq [OF ok] c co False ne by (simp add: set_cred_def)
    moreover have "cred_ok ?t" using ok c fc gr ne False by (auto simp: cred_ok_def)
    moreover have "others_keep s ?t" using n c by (auto simp: others_keep_def same_cred_def)
    moreover have "same_cred (c\<lparr>cr_ref := 1\<rparr>) c" by (simp add: same_cred_def)
    then have "same_cred (f (c\<lparr>cr_ref := 1\<rparr>)) (f c)"
      using f unfolding proper_upd_def by blast
    then have "same_cred (cred_of ?t) (f (cred_of s))" by (simp add: cred_of_def c)
    ultimately show ?thesis unfolding only_cred_def by (intro exI [of _ ?t]) simp
  qed
qed

lemma set_cred_private:
  assumes ok: "cred_ok s" and f: "proper_upd f" and t: "set_cred s f = Ok t"
  shows "cr_ref (cred_of t) = 1"
proof -
  obtain c where c: "ucreds s (pc_ucred s) = Some c" "cred_of s = c" and n: "ucreds s (fresh s) = None"
    using ok by (auto simp: cred_ok_def cred_of_def)
  have fc: "cr_ref (f d) = cr_ref d" for d using f by (simp add: proper_upd_def)
  show ?thesis
    using crcopy_eq [OF ok] c n t fc by (cases "cr_ref c = 1") (auto simp: set_cred_def cred_of_def)
qed

lemma proper_uid [simp]: "proper_upd (cr_uid_update (\<lambda>_. u))"
  and proper_gid [simp]: "proper_upd (cr_gid_update (\<lambda>_. u))"
  by (auto simp: proper_upd_def same_cred_def)

lemma set_ruid_ok:
  assumes "cred_ok s" "u \<noteq> p_ruid s"
  shows "set_ruid s u = Ok (s\<lparr>proccnt := (proccnt s)(p_ruid s := proccnt s (p_ruid s) - ps_refcnt s,
    u := proccnt s u + ps_refcnt s), p_ruid := u\<rparr>)"
proof -
  have "0 \<le> proccnt s u" "0 \<le> ps_refcnt s" "ps_refcnt s \<le> proccnt s (p_ruid s)"
    using assms(1) by (auto simp: cred_ok_def)
  with assms(2) show ?thesis by (auto simp: set_ruid_def chgproccnt_def Let_def)
qed

section \<open>Each call refines its rule\<close>

text \<open>
  A call ends in a consistent state, never in a panic or fault; what other holders see is kept;
  it fails with EPERM only, and then the ids are unchanged.
\<close>

definition call_ok :: "cstate \<Rightarrow> cres \<Rightarrow> bool" where
  "call_ok s r = (case r of
       Ok t \<Rightarrow> cred_ok t \<and> others_keep s t \<and> ps_refcnt t = ps_refcnt s
     | Err e t \<Rightarrow> e = EPERM \<and> cred_ok t \<and> others_keep s t \<and> uids t = uids s \<and> gids t = gids s \<and>
         groups t = groups s \<and> proccnt t = proccnt s \<and> ps_refcnt t = ps_refcnt s
     | _ \<Rightarrow> False)"

text \<open>The uids follow the rule, the gids and groups stay.\<close>

definition refines_uid :: "cstate \<Rightarrow> cres \<Rightarrow> ids option \<Rightarrow> bool" where
  "refines_uid s r spec \<longleftrightarrow> call_ok s r \<and> (case r of
       Ok t \<Rightarrow> spec = Some (uids t) \<and> gids t = gids s \<and> groups t = groups s \<and>
         (if p_ruid t = p_ruid s then proccnt t = proccnt s
          else proccnt t = (proccnt s)(p_ruid s := proccnt s (p_ruid s) - ps_refcnt s,
                 p_ruid t := proccnt s (p_ruid t) + ps_refcnt s))
     | _ \<Rightarrow> spec = None)"

definition refines_gid :: "cstate \<Rightarrow> cres \<Rightarrow> ids option \<Rightarrow> bool" where
  "refines_gid s r spec \<longleftrightarrow> call_ok s r \<and> (case r of
       Ok t \<Rightarrow> spec = Some (gids t) \<and> uids t = uids s \<and> groups t = groups s \<and> proccnt t = proccnt s
     | _ \<Rightarrow> spec = None)"

lemmas view_defs = uids_def gids_def groups_def cred_of_def is_root_def

text \<open>The marks \<open>ASU\<close> and \<open>PS_SUGID\<close> are outside of what the theorems speak of.\<close>

lemma mark_simps [simp]:
  "cred_ok (s\<lparr>p_acflag := x\<rparr>) = cred_ok s" "cred_of (s\<lparr>p_acflag := x\<rparr>) = cred_of s"
  "is_root (s\<lparr>p_acflag := x\<rparr>) = is_root s"
  "cred_ok (s\<lparr>ps_flags := y\<rparr>) = cred_ok s" "cred_of (s\<lparr>ps_flags := y\<rparr>) = cred_of s"
  "cred_ok (s\<lparr>p_svuid := u\<rparr>) = cred_ok s" "cred_of (s\<lparr>p_svuid := u\<rparr>) = cred_of s"
  "cred_ok (s\<lparr>p_rgid := u\<rparr>) = cred_ok s" "cred_of (s\<lparr>p_rgid := u\<rparr>) = cred_of s"
  "cred_ok (s\<lparr>p_svgid := u\<rparr>) = cred_ok s" "cred_of (s\<lparr>p_svgid := u\<rparr>) = cred_of s"
  "cred_of (s\<lparr>proccnt := n, p_ruid := u\<rparr>) = cred_of s"
  by (simp_all add: cred_ok_def cred_of_def is_root_def)

lemma others_keep_marks [simp]:
  "others_keep s (t\<lparr>ps_flags := y\<rparr>) = others_keep s t"
  "others_keep s (t\<lparr>p_svuid := u\<rparr>) = others_keep s t"
  "others_keep s (t\<lparr>p_svgid := u\<rparr>) = others_keep s t"
  "others_keep (s\<lparr>p_acflag := x\<rparr>) t = others_keep s t"
  "others_keep s (t\<lparr>p_acflag := x\<rparr>) = others_keep s t"
  "others_keep (s\<lparr>p_svuid := u\<rparr>) t = others_keep s t"
  "others_keep (s\<lparr>p_svgid := u\<rparr>) t = others_keep s t"
  "others_keep (s\<lparr>p_rgid := u\<rparr>) t = others_keep s t"
  "others_keep s (t\<lparr>p_rgid := u\<rparr>) = others_keep s t"
  "others_keep (s\<lparr>proccnt := n, p_ruid := u\<rparr>) t = others_keep s t"
  "others_keep s (t\<lparr>proccnt := n, p_ruid := u\<rparr>) = others_keep s t"
  by (simp_all add: others_keep_def)

lemma set_ruid_keeps_ok:
  assumes "cred_ok s" "u \<noteq> p_ruid s"
  shows "cred_ok (s\<lparr>proccnt := (proccnt s)(p_ruid s := proccnt s (p_ruid s) - ps_refcnt s,
    u := proccnt s u + ps_refcnt s), p_ruid := u\<rparr>)"
  using assms by (auto simp: cred_ok_def)

lemma seteuid_refines:
  assumes ok: "cred_ok s"
  shows "refines_uid s (sys_seteuid s u) (spec_sete (is_root s) (uids s) u)"
proof (cases "cr_uid (cred_of s) = u")
  case True
  with ok show ?thesis
    by (auto simp: refines_uid_def call_ok_def sys_seteuid_def with_cred_ok uids_def)
next
  case ne: False
  show ?thesis
  proof (cases "u \<noteq> p_ruid s \<and> u \<noteq> p_svuid s \<and> \<not> is_root s")
    case True
    with ok ne show ?thesis
      by (auto simp: refines_uid_def call_ok_def sys_seteuid_def with_cred_ok uids_def suser_eq)
  next
    case False
    define s1 where "s1 = (if u \<noteq> p_ruid s \<and> u \<noteq> p_svuid s then s\<lparr>p_acflag := p_acflag s OR ASU\<rparr> else s)"
    have s1: "cred_ok s1" using ok by (simp add: s1_def)
    obtain t where t: "set_cred s1 (cr_uid_update (\<lambda>_. u)) = Ok t"
      "only_cred (cr_uid_update (\<lambda>_. u)) s1 t" using set_cred_ok [OF s1 proper_uid] by blast
    have "sys_seteuid s u = Ok (set_sugid t)"
      using ok ne False t(1) by (auto simp: sys_seteuid_def with_cred_ok suser_eq s1_def)
    moreover have "others_keep s t" using t(2) by (auto simp: only_cred_def s1_def split: if_splits)
    ultimately show ?thesis
      using t(2) ne False
      by (auto simp: refines_uid_def call_ok_def only_cred_def set_sugid_def uids_def gids_def groups_def
          same_cred_def s1_def)
  qed
qed

lemma acflag_view [simp]:
  "uids (s\<lparr>p_acflag := x\<rparr>) = uids s" "gids (s\<lparr>p_acflag := x\<rparr>) = gids s"
  "groups (s\<lparr>p_acflag := x\<rparr>) = groups s"
  by (simp_all add: uids_def gids_def groups_def)

lemma check_uid_ok:
  assumes "cred_ok s" "permitted (is_root s) (uids s) v"
  shows "\<exists>x. check_uid v s = Ok (s\<lparr>p_acflag := x\<rparr>)"
proof (cases "v \<noteq> -1 \<and> v \<noteq> p_ruid s \<and> v \<noteq> cr_uid (cred_of s) \<and> v \<noteq> p_svuid s")
  case True
  with assms have "check_uid v s = Ok (s\<lparr>p_acflag := p_acflag s OR ASU\<rparr>)"
    by (auto simp: check_uid_def with_cred_ok suser_eq uids_def)
  then show ?thesis by blast
next
  case False
  with assms have "check_uid v s = Ok (s\<lparr>p_acflag := p_acflag s\<rparr>)"
    by (auto simp: check_uid_def with_cred_ok)
  then show ?thesis by blast
qed

lemma check_gid_ok:
  assumes "cred_ok s" "permitted (is_root s) (gids s) v"
  shows "\<exists>x. check_gid v s = Ok (s\<lparr>p_acflag := x\<rparr>)"
proof (cases "v \<noteq> -1 \<and> v \<noteq> p_rgid s \<and> v \<noteq> cr_gid (cred_of s) \<and> v \<noteq> p_svgid s")
  case True
  with assms have "check_gid v s = Ok (s\<lparr>p_acflag := p_acflag s OR ASU\<rparr>)"
    by (auto simp: check_gid_def with_cred_ok suser_eq gids_def)
  then show ?thesis by blast
next
  case False
  with assms have "check_gid v s = Ok (s\<lparr>p_acflag := p_acflag s\<rparr>)"
    by (auto simp: check_gid_def with_cred_ok)
  then show ?thesis by blast
qed

lemma check_err:
  assumes "cred_ok s"
  shows "\<not> permitted (is_root s) (uids s) v \<Longrightarrow> check_uid v s = Err EPERM s"
    "\<not> permitted (is_root s) (gids s) v \<Longrightarrow> check_gid v s = Err EPERM s"
  using assms
  by (auto simp: check_uid_def check_gid_def with_cred_ok suser_eq uids_def gids_def)

text \<open>The three checks together.\<close>

lemma three_checks:
  assumes ok: "cred_ok s"
    and pass: "\<And>t v. cred_ok t \<Longrightarrow> is_root t = is_root s \<Longrightarrow> ids t = ids s \<Longrightarrow>
      permitted (is_root t) (ids t) v \<Longrightarrow> \<exists>x. chk v t = Ok (t\<lparr>p_acflag := x\<rparr>)"
    and fail: "\<And>t v. cred_ok t \<Longrightarrow> \<not> permitted (is_root t) (ids t) v \<Longrightarrow> chk v t = Err EPERM t"
    and ids: "\<And>t x. ids (t\<lparr>p_acflag := x\<rparr>) = ids t"
  shows "(if permitted (is_root s) (ids s) x \<and> permitted (is_root s) (ids s) y \<and>
        permitted (is_root s) (ids s) z
      then \<exists>w. andthen (chk x s) (\<lambda>s. andthen (chk y s) (\<lambda>s. andthen (chk z s) f)) =
        f (s\<lparr>p_acflag := w\<rparr>)
      else \<exists>w. andthen (chk x s) (\<lambda>s. andthen (chk y s) (\<lambda>s. andthen (chk z s) f)) =
        Err EPERM (s\<lparr>p_acflag := w\<rparr>))"
proof (cases "permitted (is_root s) (ids s) x")
  case False
  with fail [OF ok] have "chk x s = Err EPERM s" by simp
  with False show ?thesis by (auto intro!: exI [of _ "p_acflag s"])
next
  case px: True
  with pass [OF ok refl refl] obtain a where a: "chk x s = Ok (s\<lparr>p_acflag := a\<rparr>)" by blast
  let ?a = "s\<lparr>p_acflag := a\<rparr>"
  have oka: "cred_ok ?a" "is_root ?a = is_root s" "ids ?a = ids s" using ok ids by simp_all
  show ?thesis
  proof (cases "permitted (is_root s) (ids s) y")
    case False
    with fail [OF oka(1), of y] oka have "chk y ?a = Err EPERM ?a" by simp
    with a False show ?thesis by auto
  next
    case py: True
    with pass [OF oka, of y] oka obtain b where "chk y ?a = Ok (?a\<lparr>p_acflag := b\<rparr>)" by auto
    then have b: "chk y ?a = Ok (s\<lparr>p_acflag := b\<rparr>)" by simp
    let ?b = "s\<lparr>p_acflag := b\<rparr>"
    have okb: "cred_ok ?b" "is_root ?b = is_root s" "ids ?b = ids s" using ok ids by simp_all
    show ?thesis
    proof (cases "permitted (is_root s) (ids s) z")
      case False
      with fail [OF okb(1), of z] okb have "chk z ?b = Err EPERM ?b" by simp
      with a b False show ?thesis by auto
    next
      case pz: True
      with pass [OF okb, of z] okb obtain c where "chk z ?b = Ok (?b\<lparr>p_acflag := c\<rparr>)" by auto
      then have "chk z ?b = Ok (s\<lparr>p_acflag := c\<rparr>)" by simp
      with a b px py pz show ?thesis by auto
    qed
  qed
qed

lemma ruid_stage:
  assumes ok: "cred_ok s"
  shows "\<exists>t. (if r \<noteq> -1 \<and> r \<noteq> p_ruid s then set_ruid s r else Ok s) = Ok t \<and> cred_ok t \<and>
    others_keep s t \<and> cred_of t = cred_of s \<and> p_ruid t = pick r (p_ruid s) \<and> p_svuid t = p_svuid s \<and>
    p_rgid t = p_rgid s \<and> p_svgid t = p_svgid s \<and> ps_refcnt t = ps_refcnt s \<and>
    (if p_ruid t = p_ruid s then proccnt t = proccnt s
     else proccnt t = (proccnt s)(p_ruid s := proccnt s (p_ruid s) - ps_refcnt s,
       p_ruid t := proccnt s (p_ruid t) + ps_refcnt s))"
proof (cases "r \<noteq> -1 \<and> r \<noteq> p_ruid s")
  case True
  then show ?thesis
    using set_ruid_ok [OF ok, of r] set_ruid_keeps_ok [OF ok, of r] by (simp add: pick_def)
next
  case False
  then show ?thesis using ok by (auto simp: pick_def)
qed

lemma euid_stage:
  assumes ok: "cred_ok s" and e: "e = cr_uid (cred_of s)"
  shows "\<exists>t. (if u \<noteq> -1 \<and> u \<noteq> e then set_cred s (cr_uid_update (\<lambda>_. u)) else Ok s) = Ok t \<and>
    only_cred (cr_uid_update (\<lambda>_. pick u e)) s t"
proof (cases "u \<noteq> -1 \<and> u \<noteq> e")
  case True
  then show ?thesis using set_cred_ok [OF ok proper_uid, of u] by (simp add: pick_def)
next
  case False
  then show ?thesis using ok e by (auto simp: pick_def only_cred_def same_cred_def)
qed

lemma egid_stage:
  assumes ok: "cred_ok s"
  shows "\<exists>t. (if u \<noteq> -1 then set_cred s (cr_gid_update (\<lambda>_. u)) else Ok s) = Ok t \<and>
    only_cred (cr_gid_update (\<lambda>_. pick u (cr_gid (cred_of s)))) s t"
proof (cases "u \<noteq> -1")
  case True
  then show ?thesis using set_cred_ok [OF ok proper_gid, of u] by (simp add: pick_def)
next
  case False
  then show ?thesis using ok by (auto simp: pick_def only_cred_def same_cred_def)
qed

lemma setresuid_refines:
  assumes ok: "cred_ok s"
  shows "refines_uid s (sys_setresuid s x y z) (spec_setres (is_root s) (uids s) (x, y, z))"
proof (cases "(x = -1 \<or> x = p_ruid s) \<and> (y = -1 \<or> y = cr_uid (cred_of s)) \<and> (z = -1 \<or> z = p_svuid s)")
  case True
  with ok show ?thesis
    by (auto simp: refines_uid_def call_ok_def sys_setresuid_def with_cred_ok uids_def pick_def)
next
  case change: False
  let ?e = "cr_uid (cred_of s)"
  let ?f = "\<lambda>s. andthen (if x \<noteq> -1 \<and> x \<noteq> p_ruid s then set_ruid s x else Ok s) (\<lambda>s.
       andthen (if y \<noteq> -1 \<and> y \<noteq> ?e then set_cred s (cr_uid_update (\<lambda>_. y)) else Ok s) (\<lambda>s.
       Ok (set_sugid (if z \<noteq> -1 \<and> z \<noteq> p_svuid s then s\<lparr>p_svuid := z\<rparr> else s))))"
  have eq: "sys_setresuid s x y z =
      andthen (check_uid x s) (\<lambda>s. andthen (check_uid y s) (\<lambda>s. andthen (check_uid z s) ?f))"
    using change ok by (auto simp: sys_setresuid_def with_cred_ok)
  note chk = three_checks [OF ok, of uids check_uid x y z ?f, OF check_uid_ok check_err(1) acflag_view(1)]
  show ?thesis
  proof (cases "permitted (is_root s) (uids s) x \<and> permitted (is_root s) (uids s) y \<and>
      permitted (is_root s) (uids s) z")
    case False
    with chk eq obtain w where "sys_setresuid s x y z = Err EPERM (s\<lparr>p_acflag := w\<rparr>)" by auto
    with False ok show ?thesis by (auto simp: refines_uid_def call_ok_def uids_def gids_def groups_def)
  next
    case True
    with chk eq obtain w where w: "sys_setresuid s x y z = ?f (s\<lparr>p_acflag := w\<rparr>)" by auto
    let ?s0 = "s\<lparr>p_acflag := w\<rparr>"
    obtain s1 where s1: "(if x \<noteq> -1 \<and> x \<noteq> p_ruid ?s0 then set_ruid ?s0 x else Ok ?s0) = Ok s1"
      "cred_ok s1" "others_keep ?s0 s1" "cred_of s1 = cred_of ?s0" "p_ruid s1 = pick x (p_ruid ?s0)"
      "p_svuid s1 = p_svuid ?s0" "p_rgid s1 = p_rgid ?s0" "p_svgid s1 = p_svgid ?s0"
      "ps_refcnt s1 = ps_refcnt ?s0"
      "if p_ruid s1 = p_ruid ?s0 then proccnt s1 = proccnt ?s0
       else proccnt s1 = (proccnt ?s0)(p_ruid ?s0 := proccnt ?s0 (p_ruid ?s0) - ps_refcnt ?s0,
         p_ruid s1 := proccnt ?s0 (p_ruid s1) + ps_refcnt ?s0)"
      using ruid_stage [of ?s0 x] ok by auto
    obtain s2 where s2: "(if y \<noteq> -1 \<and> y \<noteq> ?e then set_cred s1 (cr_uid_update (\<lambda>_. y)) else Ok s1) = Ok s2"
      "only_cred (cr_uid_update (\<lambda>_. pick y ?e)) s1 s2"
      using euid_stage [OF s1(2), of ?e y] s1(4) by auto
    let ?t = "set_sugid (if z \<noteq> -1 \<and> z \<noteq> p_svuid s2 then s2\<lparr>p_svuid := z\<rparr> else s2)"
    have r: "sys_setresuid s x y z = Ok ?t" using w s1(1) s2(1) by simp
    have keep: "others_keep s s2"
      using others_keep_trans [OF s1(3)] s2(2) by (simp add: only_cred_def)
    have view: "uids ?t = (pick x (p_ruid s), pick y ?e, pick z (p_svuid s))" "gids ?t = gids s"
      "groups ?t = groups s" "ps_refcnt ?t = ps_refcnt s" "proccnt ?t = proccnt s1" "p_ruid ?t = p_ruid s1"
      using s1 s2(2)
      by (auto simp: only_cred_def same_cred_def uids_def gids_def groups_def set_sugid_def pick_def)
    have "call_ok s (Ok ?t)"
      using s2(2) keep view(4) by (auto simp: call_ok_def only_cred_def set_sugid_def)
    moreover have "spec_setres (is_root s) (uids s) (x, y, z) = Some (uids ?t)"
      using True view(1) by (simp add: uids_def)
    ultimately show ?thesis
      unfolding refines_uid_def r using view(2,3,5,6) s1(10) by simp
  qed
qed

lemma setreuid_refines:
  assumes ok: "cred_ok s"
  shows "refines_uid s (sys_setreuid s x y) (spec_setre (is_root s) (uids s) x y)"
proof -
  let ?z = "if x \<noteq> -1 \<and> (x \<noteq> p_ruid s \<or> p_svuid s \<noteq> (if y \<noteq> -1 then y else cr_uid (cred_of s)))
    then x else -1"
  have "sys_setreuid s x y = sys_setresuid s x y ?z" using ok by (simp only: sys_setreuid_def with_cred_ok)
  moreover have "spec_setre (is_root s) (uids s) x y = spec_setres (is_root s) (uids s) (x, y, ?z)"
    by (simp only: uids_def spec_setre.simps pick_alt)
  ultimately show ?thesis using setresuid_refines [OF ok] by (simp only:)
qed

lemma setuid_refines:
  assumes ok: "cred_ok s"
  shows "refines_uid s (sys_setuid s u) (spec_set (is_root s) (uids s) u)"
proof (cases "cr_uid (cred_of s) = u \<and> p_ruid s = u \<and> p_svuid s = u")
  case True
  with ok show ?thesis
    by (auto simp: refines_uid_def call_ok_def sys_setuid_def with_cred_ok uids_def)
next
  case change: False
  let ?e = "cr_uid (cred_of s)"
  show ?thesis
  proof (cases "\<not> is_root s \<and> u \<noteq> p_ruid s \<and> u \<noteq> p_svuid s \<and> u \<noteq> ?e")
    case True
    with ok change show ?thesis
      by (auto simp: refines_uid_def call_ok_def sys_setuid_def with_cred_ok uids_def suser_eq)
  next
    case may: False
    define s0 where "s0 = (if u \<noteq> p_ruid s \<and> u \<noteq> p_svuid s \<and> u \<noteq> ?e
      then s\<lparr>p_acflag := p_acflag s OR ASU\<rparr> else s)"
    define s1 where "s1 = (if u = ?e then s0 else if is_root s then s0\<lparr>p_acflag := p_acflag s0 OR ASU\<rparr> else s0)"
    have s1: "cred_ok s1" "cred_of s1 = cred_of s" "others_keep s s1" "uids s1 = uids s" "gids s1 = gids s"
      "proccnt s1 = proccnt s" "ps_refcnt s1 = ps_refcnt s" "p_ruid s1 = p_ruid s" "p_svuid s1 = p_svuid s"
      "p_rgid s1 = p_rgid s" "p_svgid s1 = p_svgid s" "groups s1 = groups s"
      using ok by (auto simp: s0_def s1_def)
    define s2 where "s2 = (if u = ?e \<or> is_root s then
        (if u \<noteq> p_ruid s1 then s1\<lparr>proccnt := (proccnt s1)(p_ruid s1 := proccnt s1 (p_ruid s1) - ps_refcnt s1,
          u := proccnt s1 u + ps_refcnt s1), p_ruid := u\<rparr> else s1)\<lparr>p_ruid := u, p_svuid := u\<rparr>
      else s1)"
    have ok2: "cred_ok s2"
      using s1(1) set_ruid_keeps_ok [OF s1(1), of u] by (auto simp: s2_def cred_ok_def)
    obtain t where t: "set_cred s2 (cr_uid_update (\<lambda>_. u)) = Ok t" "only_cred (cr_uid_update (\<lambda>_. u)) s2 t"
      using set_cred_ok [OF ok2 proper_uid] by blast
    have s0: "cred_ok s0" "is_root s0 = is_root s" using ok by (auto simp: s0_def)
    have mid: "(case (if u = ?e then Ok s0 else suser s0 0) of
            Ok s1 \<Rightarrow> andthen (if u \<noteq> p_ruid s1 then set_ruid s1 u else Ok s1) (\<lambda>s2.
              Ok (s2\<lparr>p_ruid := u, p_svuid := u\<rparr>))
          | Err _ s1 \<Rightarrow> Ok s1 | r \<Rightarrow> r) = Ok s2"
      using set_ruid_ok [OF s1(1), of u] s0 by (auto simp: s2_def s1_def suser_eq)
    have "(if u \<noteq> p_ruid s \<and> u \<noteq> p_svuid s \<and> u \<noteq> ?e then suser s 0 else Ok s) = Ok s0"
      using may ok by (auto simp: s0_def suser_eq)
    then have r: "sys_setuid s u = Ok (set_sugid t)"
      using change ok mid t(1) by (auto simp: sys_setuid_def with_cred_ok simp del: andthen.simps(2))
    have "others_keep s s2"
      using s1(3) by (auto simp: s2_def others_keep_def)
    then have keep: "others_keep s t" using others_keep_trans t(2) by (auto simp: only_cred_def)
    have c2: "cred_of s2 = cred_of s" using s1(2) by (auto simp: s2_def cred_of_def)
    have view: "uids (set_sugid t) = (if u = ?e \<or> is_root s then (u, u, u) else (p_ruid s, u, p_svuid s))"
      "gids (set_sugid t) = gids s" "groups (set_sugid t) = groups s" "ps_refcnt (set_sugid t) = ps_refcnt s"
      "proccnt (set_sugid t) = proccnt s2" "p_ruid (set_sugid t) = (if u = ?e \<or> is_root s then u else p_ruid s)"
      using t(2) c2 s1
      by (auto simp: only_cred_def same_cred_def uids_def gids_def groups_def set_sugid_def s2_def)
    have cnt: "if p_ruid (set_sugid t) = p_ruid s then proccnt s2 = proccnt s
        else proccnt s2 = (proccnt s)(p_ruid s := proccnt s (p_ruid s) - ps_refcnt s,
          p_ruid (set_sugid t) := proccnt s (p_ruid (set_sugid t)) + ps_refcnt s)"
      unfolding view(6) using s1 by (auto simp: s2_def)
    have "call_ok s (Ok (set_sugid t))"
      using t(2) keep view(4) by (auto simp: call_ok_def only_cred_def set_sugid_def)
    moreover have "spec_set (is_root s) (uids s) u = Some (uids (set_sugid t))"
      using may view(1) by (auto simp: uids_def)
    ultimately show ?thesis
      unfolding refines_uid_def r using view(2,3,5) cnt by simp
  qed
qed

text \<open>The last steps of a group call: new effective gid, then the flag.\<close>

lemma gid_finish:
  assumes "cred_ok s1" "others_keep s s1" "uids s1 = uids s" "groups s1 = groups s"
    "proccnt s1 = proccnt s" "ps_refcnt s1 = ps_refcnt s"
    "only_cred (cr_gid_update (\<lambda>_. g)) s1 t" "spec = Some (p_rgid s1, g, z)"
    "v = set_sugid (t\<lparr>p_svgid := z\<rparr>)"
  shows "refines_gid s (Ok v) spec"
proof -
  have "others_keep s t" using others_keep_trans [OF assms(2)] assms(7) by (simp add: only_cred_def)
  moreover have "uids v = uids s" "gids v = (p_rgid s1, g, z)" "groups v = groups s"
    using assms(3,4,7,9)
    by (auto simp: only_cred_def same_cred_def uids_def gids_def groups_def set_sugid_def)
  ultimately show ?thesis
    using assms(5-9) by (auto simp: refines_gid_def call_ok_def only_cred_def set_sugid_def)
qed

lemma svgid_same: "p_svgid t = z \<Longrightarrow> t\<lparr>p_svgid := z\<rparr> = t"
  by simp

lemma setegid_refines:
  assumes ok: "cred_ok s"
  shows "refines_gid s (sys_setegid s u) (spec_sete (is_root s) (gids s) u)"
proof (cases "cr_gid (cred_of s) = u")
  case True
  with ok show ?thesis
    by (auto simp: refines_gid_def call_ok_def sys_setegid_def with_cred_ok gids_def)
next
  case ne: False
  show ?thesis
  proof (cases "u \<noteq> p_rgid s \<and> u \<noteq> p_svgid s \<and> \<not> is_root s")
    case True
    with ok ne show ?thesis
      by (auto simp: refines_gid_def call_ok_def sys_setegid_def with_cred_ok gids_def suser_eq)
  next
    case False
    define s1 where "s1 = (if u \<noteq> p_rgid s \<and> u \<noteq> p_svgid s then s\<lparr>p_acflag := p_acflag s OR ASU\<rparr> else s)"
    have s1: "cred_ok s1" using ok by (simp add: s1_def)
    obtain t where t: "set_cred s1 (cr_gid_update (\<lambda>_. u)) = Ok t"
      "only_cred (cr_gid_update (\<lambda>_. u)) s1 t" using set_cred_ok [OF s1 proper_gid] by blast
    have "sys_setegid s u = Ok (set_sugid t)"
      using ok ne False t(1) by (auto simp: sys_setegid_def with_cred_ok suser_eq s1_def)
    moreover have "refines_gid s (Ok (set_sugid t)) (spec_sete (is_root s) (gids s) u)"
      by (rule gid_finish [OF s1 _ _ _ _ _ t(2), where z = "p_svgid s"])
        (use ne False t(2) in \<open>auto simp: s1_def gids_def only_cred_def svgid_same\<close>)
    ultimately show ?thesis by simp
  qed
qed

lemma setgid_refines:
  assumes ok: "cred_ok s"
  shows "refines_gid s (sys_setgid s u) (spec_set (is_root s) (gids s) u)"
proof (cases "cr_gid (cred_of s) = u \<and> p_rgid s = u \<and> p_svgid s = u")
  case True
  with ok show ?thesis
    by (auto simp: refines_gid_def call_ok_def sys_setgid_def with_cred_ok gids_def)
next
  case change: False
  let ?e = "cr_gid (cred_of s)"
  show ?thesis
  proof (cases "\<not> is_root s \<and> u \<noteq> p_rgid s \<and> u \<noteq> p_svgid s \<and> u \<noteq> ?e")
    case True
    with ok change show ?thesis
      by (auto simp: refines_gid_def call_ok_def sys_setgid_def with_cred_ok gids_def suser_eq)
  next
    case may: False
    define s0 where "s0 = (if u \<noteq> p_rgid s \<and> u \<noteq> p_svgid s \<and> u \<noteq> ?e
      then s\<lparr>p_acflag := p_acflag s OR ASU\<rparr> else s)"
    define s1 where "s1 = (if u = ?e then s0 else if is_root s then s0\<lparr>p_acflag := p_acflag s0 OR ASU\<rparr> else s0)"
    define s2 where "s2 = (if u = ?e \<or> is_root s then s1\<lparr>p_rgid := u, p_svgid := u\<rparr> else s1)"
    have s0: "cred_ok s0" "is_root s0 = is_root s" using ok by (auto simp: s0_def)
    have s2: "cred_ok s2" "others_keep s s2" "uids s2 = uids s" "groups s2 = groups s"
      "proccnt s2 = proccnt s" "ps_refcnt s2 = ps_refcnt s"
      using ok by (auto simp: s0_def s1_def s2_def uids_def groups_def)
    obtain t where t: "set_cred s2 (cr_gid_update (\<lambda>_. u)) = Ok t" "only_cred (cr_gid_update (\<lambda>_. u)) s2 t"
      using set_cred_ok [OF s2(1) proper_gid] by blast
    have "(case (if u = ?e then Ok s0 else suser s0 0) of
            Ok s1 \<Rightarrow> Ok (s1\<lparr>p_rgid := u, p_svgid := u\<rparr>) | Err _ s1 \<Rightarrow> Ok s1 | r \<Rightarrow> r) = Ok s2"
      using s0 by (auto simp: s2_def s1_def suser_eq)
    moreover have "(if u \<noteq> p_rgid s \<and> u \<noteq> p_svgid s \<and> u \<noteq> ?e then suser s 0 else Ok s) = Ok s0"
      using may ok by (auto simp: s0_def suser_eq)
    ultimately have "sys_setgid s u = Ok (set_sugid t)"
      using change ok t(1) by (auto simp: sys_setgid_def with_cred_ok simp del: andthen.simps(2))
    moreover have view: "p_rgid s2 = (if u = ?e \<or> is_root s then u else p_rgid s)"
      "p_svgid t = (if u = ?e \<or> is_root s then u else p_svgid s)"
      using t(2) by (simp_all add: only_cred_def s2_def s1_def s0_def)
    have "spec_set (is_root s) (gids s) u = Some (p_rgid s2, u, p_svgid t)"
      using may unfolding view by (auto simp: gids_def)
    then have "refines_gid s (Ok (set_sugid t)) (spec_set (is_root s) (gids s) u)"
      by (rule gid_finish [OF s2 t(2)]) simp
    ultimately show ?thesis by simp
  qed
qed

lemma setresgid_refines:
  assumes ok: "cred_ok s"
  shows "refines_gid s (sys_setresgid s x y z) (spec_setres (is_root s) (gids s) (x, y, z))"
proof (cases "(x = -1 \<or> x = p_rgid s) \<and> (y = -1 \<or> y = cr_gid (cred_of s)) \<and> (z = -1 \<or> z = p_svgid s)")
  case True
  with ok show ?thesis
    by (auto simp: refines_gid_def call_ok_def sys_setresgid_def with_cred_ok gids_def pick_def)
next
  case change: False
  let ?f = "\<lambda>s. andthen (Ok (if x \<noteq> -1 then s\<lparr>p_rgid := x\<rparr> else s)) (\<lambda>s.
       andthen (if y \<noteq> -1 then set_cred s (cr_gid_update (\<lambda>_. y)) else Ok s) (\<lambda>s.
       Ok (set_sugid (if z \<noteq> -1 then s\<lparr>p_svgid := z\<rparr> else s))))"
  have eq: "sys_setresgid s x y z =
      andthen (check_gid x s) (\<lambda>s. andthen (check_gid y s) (\<lambda>s. andthen (check_gid z s) ?f))"
    using change ok by (auto simp: sys_setresgid_def with_cred_ok)
  note chk = three_checks [OF ok, of gids check_gid x y z ?f, OF check_gid_ok check_err(2) acflag_view(2)]
  show ?thesis
  proof (cases "permitted (is_root s) (gids s) x \<and> permitted (is_root s) (gids s) y \<and>
      permitted (is_root s) (gids s) z")
    case False
    with chk eq obtain w where "sys_setresgid s x y z = Err EPERM (s\<lparr>p_acflag := w\<rparr>)" by auto
    with False ok show ?thesis by (auto simp: refines_gid_def call_ok_def uids_def gids_def groups_def)
  next
    case True
    with chk eq obtain w where w: "sys_setresgid s x y z = ?f (s\<lparr>p_acflag := w\<rparr>)" by auto
    define s1 where "s1 = s\<lparr>p_acflag := w, p_rgid := pick x (p_rgid s)\<rparr>"
    have s1: "cred_ok s1" "others_keep s s1" "uids s1 = uids s" "groups s1 = groups s"
      "proccnt s1 = proccnt s" "ps_refcnt s1 = ps_refcnt s" "cred_of s1 = cred_of s"
      using ok by (auto simp: s1_def uids_def groups_def cred_of_def)
    obtain t where t: "(if y \<noteq> -1 then set_cred s1 (cr_gid_update (\<lambda>_. y)) else Ok s1) = Ok t"
      "only_cred (cr_gid_update (\<lambda>_. pick y (cr_gid (cred_of s)))) s1 t"
      using egid_stage [OF s1(1), of y] s1(7) by auto
    have "(if x \<noteq> -1 then s\<lparr>p_acflag := w, p_rgid := x\<rparr> else s\<lparr>p_acflag := w\<rparr>) = s1"
      by (cases s) (simp add: s1_def pick_def)
    with w t(1) have "sys_setresgid s x y z = Ok (set_sugid (if z \<noteq> -1 then t\<lparr>p_svgid := z\<rparr> else t))"
      by (simp cong: if_cong)
    moreover have "spec_setres (is_root s) (gids s) (x, y, z) =
        Some (p_rgid s1, pick y (cr_gid (cred_of s)), pick z (p_svgid t))"
      using True t(2) by (auto simp: s1_def gids_def only_cred_def)
    then have "refines_gid s (Ok (set_sugid (if z \<noteq> -1 then t\<lparr>p_svgid := z\<rparr> else t)))
        (spec_setres (is_root s) (gids s) (x, y, z))"
      by (rule gid_finish [OF s1(1-6) t(2)]) (simp add: pick_def)
    ultimately show ?thesis by simp
  qed
qed

lemma setregid_refines:
  assumes ok: "cred_ok s"
  shows "refines_gid s (sys_setregid s x y) (spec_setre (is_root s) (gids s) x y)"
proof -
  let ?z = "if x \<noteq> -1 \<and> (x \<noteq> p_rgid s \<or> p_svgid s \<noteq> (if y \<noteq> -1 then y else cr_gid (cred_of s)))
    then x else -1"
  have "sys_setregid s x y = sys_setresgid s x y ?z" using ok by (simp only: sys_setregid_def with_cred_ok)
  moreover have "spec_setre (is_root s) (gids s) x y = spec_setres (is_root s) (gids s) (x, y, ?z)"
    by (simp only: gids_def spec_setre.simps pick_alt)
  ultimately show ?thesis using setresgid_refines [OF ok] by (simp only:)
qed

end
