(* ===== verification/Cred_Calls.thy ===== *)
theory Cred_Calls
  imports Cred_Safety
begin

text \<open>
  Sequences of credential calls: the locale \<open>confined\<close> states what a single call must not do
  for an unprivileged process, and is interpreted once for user ids and once for group ids.
\<close>

section \<open>Group sets\<close>

lemma proper_groups:
  "n \<le> NGROUPS \<Longrightarrow> proper_upd (cr_groups_update (\<lambda>gs. take n user @ drop (length (take n user)) gs))"
  by (auto simp: proper_upd_def same_cred_def)

lemma setgroups_unprivileged:
  assumes "cred_ok s" "\<not> is_root s"
  shows "sys_setgroups s n user fault = Err EPERM s"
  using assms by (simp add: sys_setgroups_def suser_eq)

lemma setgroups_root:
  assumes ok: "cred_ok s" and root: "is_root s" and n: "unat n \<le> NGROUPS"
  shows "\<exists>t. sys_setgroups s n user fault = (if fault then Err EFAULT t else Ok t) \<and> cred_ok t \<and>
    others_keep s t \<and> uids t = uids s \<and> gids t = gids s \<and>
    cr_groups (cred_of t) = take (unat n) user @ drop (length (take (unat n) user)) (cr_groups (cred_of s)) \<and>
    cr_ngroups (cred_of t) = (if fault then cr_ngroups (cred_of s) else unat n)"
proof -
  let ?f = "cr_groups_update (\<lambda>gs. take (unat n) user @ drop (length (take (unat n) user)) gs)"
  let ?s = "s\<lparr>p_acflag := p_acflag s OR ASU\<rparr>"
  have oks: "cred_ok ?s" using ok by simp
  from set_cred_ok [OF oks proper_groups [OF n]] obtain t where
    t: "set_cred ?s ?f = Ok t" "only_cred ?f ?s t" by blast
  have keep: "others_keep s t" using t(2) by (simp add: only_cred_def)
  show ?thesis
  proof (cases fault)
    case True
    then have "sys_setgroups s n user fault = Err EFAULT t"
      using ok root n t(1) by (simp add: sys_setgroups_def suser_eq)
    with True t(2) keep show ?thesis
      by (intro exI [of _ t]) (auto simp: only_cred_def same_cred_def uids_def gids_def)
  next
    case False
    obtain c where c: "ucreds t (pc_ucred t) = Some c" "cred_of t = c"
      using t(2) by (auto simp: only_cred_def cred_ok_def cred_of_def)
    let ?u = "t\<lparr>ucreds := (ucreds t)(pc_ucred t \<mapsto> c\<lparr>cr_ngroups := unat n\<rparr>)\<rparr>"
    have okt: "cred_ok t" using t(2) by (simp add: only_cred_def)
    have "sys_setgroups s n user fault = Ok (set_sugid ?u)"
      using ok root n t(1) False c by (simp add: sys_setgroups_def suser_eq with_cred_def)
    moreover have "cred_ok (set_sugid ?u)" using okt c n by (auto simp: cred_ok_def set_sugid_def)
    moreover have "others_keep s (set_sugid ?u)"
    proof (unfold others_keep_def, intro allI impI)
      fix a d assume "ucreds s a = Some d \<and> (a \<noteq> pc_ucred s \<or> cr_ref d \<noteq> 1)"
      with keep obtain d' where d': "ucreds t a = Some d'" "same_cred d' d" "a \<noteq> pc_ucred t \<or> cr_ref d' \<noteq> 1"
        unfolding others_keep_def by blast
      have "a \<noteq> pc_ucred t"
      proof
        assume "a = pc_ucred t"
        with d' c have "cr_ref (cred_of t) \<noteq> 1" by auto
        with set_cred_private [OF oks proper_groups [OF n] t(1)] show False by simp
      qed
      with d' show "\<exists>d'. ucreds (set_sugid ?u) a = Some d' \<and> same_cred d' d \<and>
          (a \<noteq> pc_ucred (set_sugid ?u) \<or> cr_ref d' \<noteq> 1)"
        by (auto simp: set_sugid_def)
    qed
    moreover have "cred_of (set_sugid ?u) = c\<lparr>cr_ngroups := unat n\<rparr>"
      by (simp add: cred_of_def set_sugid_def)
    ultimately show ?thesis
      using False t(2) c(2)
      by (intro exI [of _ "set_sugid ?u"])
        (auto simp: only_cred_def same_cred_def uids_def gids_def set_sugid_def)
  qed
qed

section \<open>Calls in sequence\<close>

datatype call =
    Setuid u_int | Seteuid u_int | Setreuid u_int u_int | Setresuid u_int u_int u_int
  | Setgid u_int | Setegid u_int | Setregid u_int u_int | Setresgid u_int u_int u_int
  | Setgroups u_int "u_int list" bool

fun syscall :: "call \<Rightarrow> cstate \<Rightarrow> cres" where
  "syscall (Setuid u) s = sys_setuid s u"
| "syscall (Seteuid u) s = sys_seteuid s u"
| "syscall (Setreuid r e) s = sys_setreuid s r e"
| "syscall (Setresuid r e v) s = sys_setresuid s r e v"
| "syscall (Setgid g) s = sys_setgid s g"
| "syscall (Setegid g) s = sys_setegid s g"
| "syscall (Setregid r e) s = sys_setregid s r e"
| "syscall (Setresgid r e v) s = sys_setresgid s r e v"
| "syscall (Setgroups n user fault) s = sys_setgroups s n user fault"

text \<open>The state in which the process goes on; after a panic there is none.\<close>

definition after :: "call \<Rightarrow> cstate \<Rightarrow> cstate" where
  "after c s = (case syscall c s of Ok t \<Rightarrow> t | Err _ t \<Rightarrow> t | _ \<Rightarrow> s)"

definition id_set :: "ids \<Rightarrow> u_int set" where
  "id_set v = (case v of (r, e, s) \<Rightarrow> {r, e, s})"

definition may_be_root :: "cstate \<Rightarrow> bool" where
  "may_be_root s \<longleftrightarrow> 0 \<in> id_set (uids s)"

text \<open>The rules on triples never introduce an id, for a process that is not root.\<close>

lemma spec_no_new_id:
  "spec_setres False v w = Some v' \<Longrightarrow> id_set v' \<subseteq> id_set v"
  "spec_setre False v x y = Some v' \<Longrightarrow> id_set v' \<subseteq> id_set v"
  "spec_set False v x = Some v' \<Longrightarrow> id_set v' \<subseteq> id_set v"
  "spec_sete False v x = Some v' \<Longrightarrow> id_set v' \<subseteq> id_set v"
proof -
  show *: "spec_setres False v w = Some v' \<Longrightarrow> id_set v' \<subseteq> id_set v" for w
    by (cases v; cases w) (auto simp: id_set_def pick_def split: if_splits)
  show "spec_setre False v x y = Some v' \<Longrightarrow> id_set v' \<subseteq> id_set v"
    using * by (cases v) (metis spec_setre.simps)
  show "spec_set False v x = Some v' \<Longrightarrow> id_set v' \<subseteq> id_set v"
    "spec_sete False v x = Some v' \<Longrightarrow> id_set v' \<subseteq> id_set v"
    by (cases v; auto simp: id_set_def split: if_splits)+
qed

lemma root_may_be_root: "\<not> may_be_root s \<Longrightarrow> \<not> is_root s"
  by (auto simp: may_be_root_def id_set_def uids_def is_root_def)

lemma uid_call_effect:
  assumes "refines_uid s (syscall c s) spec"
  shows "cred_ok (after c s) \<and> others_keep s (after c s) \<and> gids (after c s) = gids s \<and>
    groups (after c s) = groups s \<and>
    (uids (after c s) = uids s \<or> spec = Some (uids (after c s)))"
  using assms by (cases "syscall c s") (auto simp: refines_uid_def call_ok_def after_def)

lemma gid_call_effect:
  assumes "refines_gid s (syscall c s) spec"
  shows "cred_ok (after c s) \<and> others_keep s (after c s) \<and> uids (after c s) = uids s \<and>
    groups (after c s) = groups s \<and>
    (gids (after c s) = gids s \<or> spec = Some (gids (after c s)))"
  using assms by (cases "syscall c s") (auto simp: refines_gid_def call_ok_def after_def)

lemmas uid_effects = uid_call_effect [of _ "Setuid _", simplified, OF setuid_refines]
  uid_call_effect [of _ "Seteuid _", simplified, OF seteuid_refines]
  uid_call_effect [of _ "Setreuid _ _", simplified, OF setreuid_refines]
  uid_call_effect [of _ "Setresuid _ _ _", simplified, OF setresuid_refines]

lemmas gid_effects = gid_call_effect [of _ "Setgid _", simplified, OF setgid_refines]
  gid_call_effect [of _ "Setegid _", simplified, OF setegid_refines]
  gid_call_effect [of _ "Setregid _ _", simplified, OF setregid_refines]
  gid_call_effect [of _ "Setresgid _ _ _", simplified, OF setresgid_refines]

lemma setgroups_effect:
  assumes ok: "cred_ok s"
  shows "cred_ok (after (Setgroups n user fault) s) \<and> others_keep s (after (Setgroups n user fault) s) \<and>
    uids (after (Setgroups n user fault) s) = uids s \<and> gids (after (Setgroups n user fault) s) = gids s \<and>
    (\<not> is_root s \<longrightarrow> groups (after (Setgroups n user fault) s) = groups s)"
proof (cases "is_root s")
  case False
  with setgroups_unprivileged [OF ok] ok show ?thesis by (simp add: after_def)
next
  case root: True
  show ?thesis
  proof (cases "unat n \<le> NGROUPS")
    case True
    from setgroups_root [OF ok root True] obtain t where
      t: "sys_setgroups s n user fault = (if fault then Err EFAULT t else Ok t)" "cred_ok t"
        "others_keep s t" "uids t = uids s" "gids t = gids s" by blast
    then have "after (Setgroups n user fault) s = t" by (simp add: after_def)
    with t root show ?thesis by simp
  next
    case False
    then show ?thesis using ok root by (auto simp: after_def sys_setgroups_def suser_eq)
  qed
qed

lemma call_keeps:
  assumes "cred_ok s"
  shows "cred_ok (after c s) \<and> others_keep s (after c s)"
  using uid_effects [OF assms] gid_effects [OF assms] setgroups_effect [OF assms] by (cases c) auto

lemma call_confined:
  assumes ok: "cred_ok s" and un: "\<not> may_be_root s"
  shows "id_set (uids (after c s)) \<subseteq> id_set (uids s) \<and> id_set (gids (after c s)) \<subseteq> id_set (gids s) \<and>
    groups (after c s) = groups s"
proof -
  have r: "is_root s = False" using root_may_be_root [OF un] by simp
  note u = uid_effects [OF ok, unfolded r] and g = gid_effects [OF ok, unfolded r]
  show ?thesis
  proof (cases c)
    case (Setuid x)
    with u(1) [of x] show ?thesis using spec_no_new_id(3) by (metis order_refl)
  next
    case (Seteuid x)
    with u(2) [of x] show ?thesis using spec_no_new_id(4) by (metis order_refl)
  next
    case (Setreuid x y)
    with u(3) [of x y] show ?thesis using spec_no_new_id(2) by (metis order_refl)
  next
    case (Setresuid x y z)
    with u(4) [of x y z] show ?thesis using spec_no_new_id(1) by (metis order_refl)
  next
    case (Setgid x)
    with g(1) [of x] show ?thesis using spec_no_new_id(3) by (metis order_refl)
  next
    case (Setegid x)
    with g(2) [of x] show ?thesis using spec_no_new_id(4) by (metis order_refl)
  next
    case (Setregid x y)
    with g(3) [of x y] show ?thesis using spec_no_new_id(2) by (metis order_refl)
  next
    case (Setresgid x y z)
    with g(4) [of x y z] show ?thesis using spec_no_new_id(1) by (metis order_refl)
  next
    case (Setgroups n user fault)
    with setgroups_effect [OF ok, of n user fault] r show ?thesis by simp
  qed
qed

text \<open>
  The contract: a call keeps the state consistent, and a process without privilege
  neither gains privilege nor an id it does not hold.
\<close>

locale confined =
  fixes step :: "'c \<Rightarrow> 's \<Rightarrow> 's"
    and ok :: "'s \<Rightarrow> bool"
    and priv :: "'s \<Rightarrow> bool"
    and held :: "'s \<Rightarrow> 'i set"
  assumes step_ok: "ok s \<Longrightarrow> ok (step c s)"
    and step_priv: "ok s \<Longrightarrow> \<not> priv s \<Longrightarrow> \<not> priv (step c s)"
    and step_held: "ok s \<Longrightarrow> \<not> priv s \<Longrightarrow> held (step c s) \<subseteq> held s"
begin

definition steps :: "'c list \<Rightarrow> 's \<Rightarrow> 's" where
  "steps cs s = fold step cs s"

lemma steps_confined:
  assumes "ok s" "\<not> priv s"
  shows "ok (steps cs s) \<and> \<not> priv (steps cs s) \<and> held (steps cs s) \<subseteq> held s"
  using assms
proof (induction cs arbitrary: s)
  case (Cons c cs)
  from Cons.IH [OF step_ok [OF Cons.prems(1)] step_priv [OF Cons.prems]] step_held [OF Cons.prems]
  show ?case by (auto simp: steps_def)
qed (simp add: steps_def)

end

interpretation uid: confined after cred_ok may_be_root "\<lambda>s. id_set (uids s)"
proof
  fix s c assume ok: "cred_ok s"
  show "cred_ok (after c s)" using call_keeps [OF ok] by blast
  show "\<not> may_be_root (after c s)" "id_set (uids (after c s)) \<subseteq> id_set (uids s)" if "\<not> may_be_root s"
    using call_confined [OF ok that, of c] that by (auto simp: may_be_root_def)
qed

interpretation gid: confined after cred_ok may_be_root "\<lambda>s. id_set (gids s) \<union> set (groups s)"
proof
  fix s c assume ok: "cred_ok s"
  show "cred_ok (after c s)" using call_keeps [OF ok] by blast
  show "\<not> may_be_root (after c s)" if "\<not> may_be_root s" using uid.step_priv [OF ok that] .
  show "id_set (gids (after c s)) \<union> set (groups (after c s)) \<subseteq> id_set (gids s) \<union> set (groups s)"
    if "\<not> may_be_root s"
    using call_confined [OF ok that, of c] by auto
qed

text \<open>
  C12. A process none of whose real, effective and saved user ids is 0 stays so through every
  sequence of credential calls: it holds no user id, group id or supplementary
  group at the end that it did not hold at the start.
\<close>

theorem cred_no_gain:
  assumes "cred_ok s" "0 \<notin> id_set (uids s)"
  shows "0 \<notin> id_set (uids (fold after cs s)) \<and> id_set (uids (fold after cs s)) \<subseteq> id_set (uids s) \<and>
    id_set (gids (fold after cs s)) \<union> set (groups (fold after cs s)) \<subseteq>
      id_set (gids s) \<union> set (groups s)"
proof -
  from assms have un: "\<not> may_be_root s" by (simp add: may_be_root_def)
  show ?thesis
    using uid.steps_confined [OF assms(1) un, of cs] gid.steps_confined [OF assms(1) un, of cs]
    unfolding uid.steps_def gid.steps_def by (auto simp: may_be_root_def)
qed

text \<open>A process of user 1000 that shares its credentials with another holder.\<close>

definition user_state :: cstate where
  "user_state =
     \<lparr>ucreds = [0 \<mapsto> \<lparr>cr_ref = 2, cr_uid = 1000, cr_gid = 100, cr_ngroups = 1,
        cr_groups = 5 # replicate 15 0\<rparr>],
      fresh = 1, proccnt = (\<lambda>u. 3), pc_ucred = 0, p_ruid = 1000, p_svuid = 1001, p_rgid = 100,
      p_svgid = 100, ps_refcnt = 1, ps_flags = 0, p_acflag = 0\<rparr>"

definition root_state :: cstate where
  "root_state = user_state\<lparr>ucreds := [0 \<mapsto> \<lparr>cr_ref = 1, cr_uid = 0, cr_gid = 0, cr_ngroups = 0,
      cr_groups = replicate 16 0\<rparr>], p_ruid := 0, p_svuid := 0\<rparr>"

lemma sample_states_ok: "cred_ok user_state" "cred_ok root_state"
  by (auto simp: user_state_def root_state_def cred_ok_def NGROUPS_def split: if_splits)

lemma sample_uids: "uids user_state = (1000, 1000, 1001)" "uids root_state = (0, 0, 0)"
  "is_root root_state" "\<not> is_root user_state"
  by (simp_all add: user_state_def root_state_def uids_def cred_of_def is_root_def)

theorem cred_no_gain_witness:
  "id_set (uids (fold after [Setuid 0, Seteuid 1001, Setreuid 0 (-1)] user_state)) \<subseteq> {1000, 1001}"
  using cred_no_gain [OF sample_states_ok(1), of "[Setuid 0, Seteuid 1001, Setreuid 0 (-1)]"]
  by (simp add: sample_uids id_set_def)

text \<open>
  C13. When root calls \<open>setuid\<close> with the id of a user, the call succeeds and is final: no
  sequence of credential calls brings back user id 0.
\<close>

theorem cred_setuid_drop_permanent:
  assumes ok: "cred_ok s" and root: "is_root s" and u: "u \<noteq> 0"
  shows "\<exists>t. sys_setuid s u = Ok t \<and> uids t = (u, u, u) \<and> 0 \<notin> id_set (uids (fold after cs t))"
proof -
  obtain r e v where ids: "uids s = (r, e, v)" by (cases "uids s")
  from setuid_refines [OF ok, of u] root ids obtain t where
    t: "sys_setuid s u = Ok t" "uids t = (u, u, u)" "cred_ok t"
    by (cases "sys_setuid s u") (auto simp: refines_uid_def call_ok_def)
  then have "\<not> may_be_root t" using u by (simp add: may_be_root_def id_set_def)
  with uid.steps_confined [OF t(3)] t(1,2) show ?thesis
    unfolding uid.steps_def may_be_root_def by blast
qed

theorem cred_setuid_drop_permanent_witness:
  "\<exists>t. sys_setuid root_state 1000 = Ok t \<and> uids t = (1000, 1000, 1000) \<and>
    0 \<notin> id_set (uids (fold after [Seteuid 0, Setresuid 0 0 0] t))"
  using cred_setuid_drop_permanent [OF sample_states_ok(2) sample_uids(3), of 1000 "[Seteuid 0, Setresuid 0 0 0]"]
  by simp

text \<open>
  C14. Each of the eight id calls refines its rule on the triple of real, effective and saved id: it
  succeeds exactly when the rule allows it and sets the ids the rule gives, fails with
  EPERM otherwise and then changes no id; it never panics, and moves the process
  count from the old to the new real user.
\<close>

theorem cred_calls_refine:
  assumes "cred_ok s"
  shows "refines_uid s (sys_setuid s u) (spec_set (is_root s) (uids s) u) \<and>
    refines_uid s (sys_seteuid s u) (spec_sete (is_root s) (uids s) u) \<and>
    refines_uid s (sys_setreuid s u v) (spec_setre (is_root s) (uids s) u v) \<and>
    refines_uid s (sys_setresuid s u v w) (spec_setres (is_root s) (uids s) (u, v, w)) \<and>
    refines_gid s (sys_setgid s u) (spec_set (is_root s) (gids s) u) \<and>
    refines_gid s (sys_setegid s u) (spec_sete (is_root s) (gids s) u) \<and>
    refines_gid s (sys_setregid s u v) (spec_setre (is_root s) (gids s) u v) \<and>
    refines_gid s (sys_setresgid s u v w) (spec_setres (is_root s) (gids s) (u, v, w))"
  by (intro conjI setuid_refines seteuid_refines setreuid_refines setresuid_refines setgid_refines
      setegid_refines setregid_refines setresgid_refines assms)

theorem cred_calls_refine_witness:
  "refines_uid user_state (sys_setreuid user_state 1001 (-1)) (Some (1001, 1000, 1001))"
  using cred_calls_refine [OF sample_states_ok(1), of 1001 "-1" 0]
  by (simp add: sample_uids pick_def)

text \<open>
  C15. Credentials are copied on write: no call changes what another holder of a ucred sees. Every
  ucred that is not the private one of the process keeps its ids and groups.
\<close>

theorem cred_copy_on_write:
  assumes "cred_ok s" "ucreds s a = Some c" "a \<noteq> pc_ucred s \<or> cr_ref c \<noteq> 1"
  shows "\<exists>d. ucreds (fold after cs s) a = Some d \<and> same_cred d c"
proof -
  have "cred_ok (fold after cs s) \<and> others_keep s (fold after cs s)"
    using assms(1)
  proof (induction cs arbitrary: s)
    case (Cons x cs)
    from call_keeps [OF Cons.prems, of x] Cons.IH [of "after x s"] show ?case
      by (auto intro: others_keep_trans)
  qed simp
  with assms(2,3) show ?thesis unfolding others_keep_def by blast
qed

theorem cred_copy_on_write_witness:
  "\<exists>d. ucreds (fold after [Seteuid 1001, Setgid 100] user_state) 0 = Some d \<and> cr_uid d = 1000"
  using cred_copy_on_write [OF sample_states_ok(1), of 0 _ "[Seteuid 1001, Setgid 100]"]
  by (auto simp: user_state_def same_cred_def)

text \<open>
  When the copy of the group list from user space fails half way, \<open>setgroups\<close> returns EFAULT but
  the groups copied so far are already in the credentials.
\<close>

theorem setgroups_fault_changes_groups:
  assumes "cred_ok s" "is_root s" "cr_ngroups (cred_of s) = 1"
  shows "\<exists>t. sys_setgroups s 2 [g] True = Err EFAULT t \<and> groups t = [g]"
proof -
  have n: "unat (2 :: u_int) \<le> NGROUPS" by (simp add: NGROUPS_def)
  from setgroups_root [OF assms(1,2) n, of "[g]" True] obtain t where
    "sys_setgroups s 2 [g] True = Err EFAULT t"
    "cr_groups (cred_of t) = [g] @ drop 1 (cr_groups (cred_of s))" "cr_ngroups (cred_of t) = 1"
    using assms(3) by auto
  then show ?thesis by (auto simp: groups_def)
qed

theorem setgroups_fault_changes_groups_witness:
  "\<exists>t. sys_setgroups (root_state\<lparr>ucreds := [0 \<mapsto> \<lparr>cr_ref = 1, cr_uid = 0, cr_gid = 0, cr_ngroups = 1,
      cr_groups = replicate 16 0\<rparr>]\<rparr>) 2 [7] True = Err EFAULT t \<and> groups t = [7]"
  by (rule setgroups_fault_changes_groups)
    (auto simp: root_state_def user_state_def cred_ok_def NGROUPS_def is_root_def cred_of_def split: if_splits)

end
