(* ===== verification/Clock.thy ===== *)
theory Clock
  imports Prelude "HOL-Library.Signed_Division"
begin

text \<open>
  The calendar conversions of kern/clock_subr.c: seconds since 1970 and broken-down dates. All
  variables of the code are \<open>int\<close>; they are integers here, and the range theorem shows that
  none leaves the range of an \<open>int\<close> before the year 2038.
\<close>

section \<open>Data\<close>

record clock_ymdhms =
  dt_year :: int
  dt_mon :: int
  dt_day :: int
  dt_wday :: int
  dt_hour :: int
  dt_min :: int
  dt_sec :: int

definition POSIX_BASE_YEAR :: int where "POSIX_BASE_YEAR = 1970"
definition FEBRUARY :: int where "FEBRUARY = 2"
definition SECDAY :: int where "SECDAY = 86400"

definition month_days :: "int list" where
  "month_days = [31, 28, 31, 30, 31, 30, 31, 31, 30, 31, 30, 31]"

definition leapyear :: "int \<Rightarrow> bool" where
  "leapyear year =
     (if year mod 4 = 0 then (if year mod 100 = 0 then year mod 400 = 0 else True) else False)"

definition days_in_year :: "int \<Rightarrow> int" where
  "days_in_year a = (if leapyear a then 366 else 365)"

definition days_in_month :: "int list \<Rightarrow> int \<Rightarrow> int" where
  "days_in_month mthdays a = mthdays ! nat (a - 1)"

section \<open>Date to seconds\<close>

function year_days :: "int \<Rightarrow> int \<Rightarrow> int \<Rightarrow> int" where
  "year_days i year days = (if i < year then year_days (i + 1) year (days + days_in_year i) else days)"
  by pat_completeness auto

termination
  by (relation "measure (\<lambda>(i, year, days). nat (year - i))") auto

text \<open>A month after December is outside \<open>month_days\<close>: the value None.\<close>

function mon_days :: "int \<Rightarrow> int \<Rightarrow> int \<Rightarrow> int option" where
  "mon_days i mon days =
     (if i < mon then (if i \<le> 12 then mon_days (i + 1) mon (days + days_in_month month_days i) else None)
      else Some days)"
  by pat_completeness auto

termination
  by (relation "measure (\<lambda>(i, mon, days). nat (mon - i))") auto

declare year_days.simps [simp del] mon_days.simps [simp del]

text \<open>The sum is computed in an \<open>int\<close> of 32 bits and wraps around.\<close>

definition wrap_int :: "int \<Rightarrow> int" where
  "wrap_int x = (x + 2 ^ 31) mod 2 ^ 32 - 2 ^ 31"

definition clock_ymdhms_to_secs :: "clock_ymdhms \<Rightarrow> int option" where
  "clock_ymdhms_to_secs dt =
     (let year = dt_year dt;
          days = year_days POSIX_BASE_YEAR year 0;
          days = (if leapyear year \<and> dt_mon dt > FEBRUARY then days + 1 else days)
      in map_option (\<lambda>days. let days = days + (dt_day dt - 1)
           in wrap_int (((days * 24 + dt_hour dt) * 60 + dt_min dt) * 60 + dt_sec dt))
         (mon_days 1 (dt_mon dt) days))"

section \<open>Seconds to date\<close>

text \<open>The loops return the counter and the remaining days.\<close>

function take_years :: "int \<Rightarrow> int \<Rightarrow> int \<times> int" where
  "take_years i days =
     (if days \<ge> days_in_year i then take_years (i + 1) (days - days_in_year i) else (i, days))"
  by pat_completeness auto

termination
  by (relation "measure (\<lambda>(i, days). nat days)") (auto simp: days_in_year_def split: if_splits)

text \<open>A month after December is outside \<open>mthdays\<close> too.\<close>

function take_months :: "int list \<Rightarrow> int \<Rightarrow> int \<Rightarrow> (int \<times> int) option" where
  "take_months mthdays i days =
     (if 1 \<le> i \<and> i \<le> 12 then
        (if days \<ge> days_in_month mthdays i
         then take_months mthdays (i + 1) (days - days_in_month mthdays i)
         else Some (i, days))
      else None)"
  by pat_completeness auto

termination
  by (relation "measure (\<lambda>(mthdays, i, days). nat (13 - i))") auto

declare take_years.simps [simp del] take_months.simps [simp del]

text \<open>Division in C rounds towards zero; the fields of the date are unsigned and keep the low bits.\<close>

definition u_char_of :: "int \<Rightarrow> int" where "u_char_of x = x mod 2 ^ 8"
definition u_short_of :: "int \<Rightarrow> int" where "u_short_of x = x mod 2 ^ 16"

definition clock_secs_to_ymdhms :: "int \<Rightarrow> clock_ymdhms option" where
  "clock_secs_to_ymdhms secs =
     (let days = secs sdiv SECDAY;
          rsec = secs smod SECDAY;
          wday = (days + 4) smod 7;
          (year, days) = take_years POSIX_BASE_YEAR days;
          mthdays = (if leapyear year then month_days[nat (FEBRUARY - 1) := 29] else month_days)
      in map_option (\<lambda>(mon, days).
          \<lparr>dt_year = u_short_of year, dt_mon = u_char_of mon, dt_day = u_char_of (days + 1), dt_wday = u_char_of wday,
           dt_hour = u_char_of (rsec sdiv 3600), dt_min = u_char_of ((rsec smod 3600) sdiv 60),
           dt_sec = u_char_of ((rsec smod 3600) smod 60)\<rparr>)
        (take_months mthdays 1 days))"

section \<open>The calendar\<close>

definition mth :: "int \<Rightarrow> int list" where
  "mth y = (if leapyear y then month_days[nat (FEBRUARY - 1) := 29] else month_days)"

definition years_before :: "int \<Rightarrow> int" where
  "years_before y = (\<Sum>k \<in> {1970..<y}. days_in_year k)"

definition months_before :: "int \<Rightarrow> int \<Rightarrow> int" where
  "months_before y mon = (\<Sum>k \<in> {1..<mon}. days_in_month (mth y) k)"

text \<open>
  The calendar the dates are compared with is the Gregorian one, written without the routines of the code: its leap
  years, the lengths of its months, and the number of a day counted from the first of January 1970, with the leap years before
  a year counted by division.
\<close>

definition gregorian_leap :: "int \<Rightarrow> bool" where
  "gregorian_leap y \<longleftrightarrow> 4 dvd y \<and> (\<not> 100 dvd y \<or> 400 dvd y)"

definition month_length :: "int \<Rightarrow> int \<Rightarrow> int" where
  "month_length y m = (if m = 2 then (if gregorian_leap y then 29 else 28) else if m \<in> {4, 6, 9, 11} then 30 else 31)"

definition epoch_day :: "int \<Rightarrow> int \<Rightarrow> int \<Rightarrow> int" where
  "epoch_day y m d = 365 * (y - 1970) + ((y - 1) div 4 - (y - 1) div 100 + (y - 1) div 400 - 477)
     + (\<Sum>k \<in> {1..<m}. month_length y k) + d - 1"

definition valid_date :: "clock_ymdhms \<Rightarrow> bool" where
  "valid_date dt \<longleftrightarrow> 1970 \<le> dt_year dt \<and> dt_year dt < 2 ^ 16 \<and> 1 \<le> dt_mon dt \<and> dt_mon dt \<le> 12
     \<and> 1 \<le> dt_day dt \<and> dt_day dt \<le> month_length (dt_year dt) (dt_mon dt)
     \<and> 0 \<le> dt_hour dt \<and> dt_hour dt < 24 \<and> 0 \<le> dt_min dt \<and> dt_min dt < 60 \<and> 0 \<le> dt_sec dt \<and> dt_sec dt < 60
     \<and> dt_wday dt = (epoch_day (dt_year dt) (dt_mon dt) (dt_day dt) + 4) mod 7"

definition date_days :: "clock_ymdhms \<Rightarrow> int" where
  "date_days dt = epoch_day (dt_year dt) (dt_mon dt) (dt_day dt)"

definition date_secs :: "clock_ymdhms \<Rightarrow> int" where
  "date_secs dt = date_days dt * 86400 + (dt_hour dt * 3600 + dt_min dt * 60 + dt_sec dt)"

lemma wrap_int_id: "- (2 ^ 31) \<le> x \<Longrightarrow> x < 2 ^ 31 \<Longrightarrow> wrap_int x = x"
  by (simp add: wrap_int_def)

lemma sum_int_Suc: "(a :: int) < b \<Longrightarrow> (\<Sum>k \<in> {a..<b}. f k) = f a + (\<Sum>k \<in> {a + 1..<b}. (f k :: int))"
proof -
  assume "a < b"
  then have "{a..<b} = insert a {a + 1..<b}" by auto
  then show ?thesis by simp
qed

lemma year_days_sum: "year_days i y d = d + (\<Sum>k \<in> {i..<y}. days_in_year k)"
proof (induction i y d rule: year_days.induct)
  case (1 i y d)
  then show ?case by (subst year_days.simps) (auto simp: sum_int_Suc)
qed

lemma mon_days_sum: "m \<le> 13 \<Longrightarrow> mon_days i m d = Some (d + (\<Sum>k \<in> {i..<m}. days_in_month month_days k))"
proof (induction i m d rule: mon_days.induct)
  case (1 i m d)
  then show ?case by (subst mon_days.simps) (auto simp: sum_int_Suc)
qed

lemma months12: "1 \<le> (m :: int) \<Longrightarrow> m \<le> 12 \<Longrightarrow> m \<in> {1, 2, 3, 4, 5, 6, 7, 8, 9, 10, 11, 12}"
  by simp presburger

text \<open>The correction for leap years gives the days before a month of that year.\<close>

lemma months_before_table:
  "months_before y 1 = 0" "months_before y 2 = 31" "months_before y 3 = 59 + (if leapyear y then 1 else 0)"
  "months_before y 4 = 90 + (if leapyear y then 1 else 0)" "months_before y 5 = 120 + (if leapyear y then 1 else 0)"
  "months_before y 6 = 151 + (if leapyear y then 1 else 0)" "months_before y 7 = 181 + (if leapyear y then 1 else 0)"
  "months_before y 8 = 212 + (if leapyear y then 1 else 0)" "months_before y 9 = 243 + (if leapyear y then 1 else 0)"
  "months_before y 10 = 273 + (if leapyear y then 1 else 0)" "months_before y 11 = 304 + (if leapyear y then 1 else 0)"
  "months_before y 12 = 334 + (if leapyear y then 1 else 0)" "months_before y 13 = days_in_year y"
  by (simp_all add: months_before_def mth_def month_days_def days_in_month_def FEBRUARY_def sum_int_Suc days_in_year_def
      nth_Cons' list_update_code)

lemma months_before_plain:
  assumes "1 \<le> m" "m \<le> 12"
  shows "months_before y m = (\<Sum>k \<in> {1..<m}. days_in_month month_days k) + (if leapyear y \<and> m > 2 then 1 else 0)"
  using months12 [OF assms]
  by (auto simp: months_before_table days_in_month_def month_days_def sum_int_Suc nth_Cons')

lemma leapyear_gregorian: "leapyear y = gregorian_leap y"
  by (simp add: leapyear_def gregorian_leap_def dvd_eq_mod_eq_0)

lemma month_length_eq:
  assumes "1 \<le> m" "m \<le> 12"
  shows "month_length y m = days_in_month (mth y) m"
  using months12 [OF assms]
  by (auto simp: month_length_def mth_def days_in_month_def month_days_def FEBRUARY_def leapyear_gregorian nth_Cons' list_update_code)

text \<open>A year adds a day for each of the three divisions that it changes.\<close>

lemma div_pred:
  fixes y n :: int
  assumes "0 < n"
  shows "y div n = (y - 1) div n + (if y mod n = 0 then 1 else 0)"
proof -
  define q r where "q = (y - 1) div n" and "r = (y - 1) mod n"
  have y: "y = n * q + (r + 1)" "0 \<le> r" "r < n" using assms mult_div_mod_eq [of n "y - 1"] by (simp_all add: q_def r_def)
  show ?thesis
  proof (cases "r + 1 = n")
    case True
    then have "y = n * (q + 1)" using y(1) by (simp add: distrib_left)
    then have "y div n = q + 1" "y mod n = 0" using assms by simp_all
    then show ?thesis by (simp flip: q_def)
  next
    case False
    then have "y div n = q" "y mod n = r + 1" using int_div_pos_eq [OF y(1)] int_mod_pos_eq [OF y(1)] y(2,3) by simp_all
    then show ?thesis using y(2) by (simp flip: q_def)
  qed
qed

lemma leap_count:
  fixes a b c a' b' c' :: int
  assumes "a = a' + (if p then 1 else 0)" "b = b' + (if q then 1 else 0)" "c = c' + (if r then 1 else 0)" "q \<Longrightarrow> p" "r \<Longrightarrow> q"
  shows "a - b + c = a' - b' + c' + (if (if p then if q then r else True else False) then 1 else 0)"
  using assms by (cases p; cases q; cases r) simp_all

lemma leaps_step:
  "y div 4 - y div 100 + y div 400 = (y - 1) div 4 - (y - 1) div 100 + (y - 1) div 400 + (if leapyear y then 1 else (0 :: int))"
proof -
  have i: "y mod 100 = 0 \<Longrightarrow> y mod 4 = 0" "y mod 400 = 0 \<Longrightarrow> y mod 100 = 0"
    using dvd_trans [of 4 100 y] dvd_trans [of 100 400 y] by (simp_all add: dvd_eq_mod_eq_0)
  show ?thesis unfolding leapyear_def by (rule leap_count [OF div_pred div_pred div_pred i]) simp_all
qed

lemma years_before_step: "1970 \<le> y \<Longrightarrow> years_before (y + 1) = years_before y + days_in_year y"
proof -
  assume "1970 \<le> y"
  then have "{1970..<y + 1} = insert y {1970..<y}" by auto
  then show ?thesis by (simp add: years_before_def)
qed

lemma years_before_closed: "1970 \<le> y \<Longrightarrow> years_before y = 365 * (y - 1970) + ((y - 1) div 4 - (y - 1) div 100 + (y - 1) div 400 - 477)"
proof (induction y rule: int_ge_induct)
  case base
  show ?case by (simp add: years_before_def)
next
  case (step y)
  show ?case unfolding years_before_step [OF step(1)] step(2) using leaps_step [of y] by (simp add: days_in_year_def)
qed

lemma epoch_day_eq:
  assumes "1970 \<le> y" "1 \<le> m" "m \<le> 12"
  shows "epoch_day y m d = years_before y + months_before y m + d - 1"
proof -
  have "(\<Sum>k \<in> {1..<m}. month_length y k) = months_before y m"
    unfolding months_before_def by (rule sum.cong) (use assms in \<open>auto intro: month_length_eq\<close>)
  then show ?thesis unfolding epoch_day_def years_before_closed [OF assms(1)] by simp
qed

lemma valid_date_alt:
  "valid_date dt \<longleftrightarrow> 1970 \<le> dt_year dt \<and> dt_year dt < 2 ^ 16 \<and> 1 \<le> dt_mon dt \<and> dt_mon dt \<le> 12
     \<and> 1 \<le> dt_day dt \<and> dt_day dt \<le> days_in_month (mth (dt_year dt)) (dt_mon dt)
     \<and> 0 \<le> dt_hour dt \<and> dt_hour dt < 24 \<and> 0 \<le> dt_min dt \<and> dt_min dt < 60 \<and> 0 \<le> dt_sec dt \<and> dt_sec dt < 60
     \<and> dt_wday dt = (years_before (dt_year dt) + months_before (dt_year dt) (dt_mon dt) + dt_day dt + 3) mod 7"
  unfolding valid_date_def by (auto simp: month_length_eq epoch_day_eq algebra_simps)

lemma date_days_alt:
  assumes "1970 \<le> dt_year dt" "1 \<le> dt_mon dt" "dt_mon dt \<le> 12"
  shows "date_days dt = years_before (dt_year dt) + months_before (dt_year dt) (dt_mon dt) + dt_day dt - 1"
  unfolding date_days_def by (rule epoch_day_eq [OF assms])

lemma to_secs_eq:
  assumes "1970 \<le> dt_year dt" "1 \<le> dt_mon dt" "dt_mon dt \<le> 12"
  shows "clock_ymdhms_to_secs dt = Some (wrap_int (date_secs dt))"
  using months_before_plain [OF assms(2,3), of "dt_year dt"] assms(3)
  by (simp add: clock_ymdhms_to_secs_def Let_def year_days_sum mon_days_sum date_days_alt [OF assms] years_before_def
      POSIX_BASE_YEAR_def FEBRUARY_def date_secs_def algebra_simps)

section \<open>The loops\<close>

lemma days_in_year_pos: "0 < days_in_year y"
  by (simp add: days_in_year_def)

lemma take_years_unique:
  assumes "i \<le> y" "0 \<le> r" "r < days_in_year y" "d = (\<Sum>k \<in> {i..<y}. days_in_year k) + r"
  shows "take_years i d = (y, r)"
  using assms
proof (induction i d rule: take_years.induct)
  case (1 i d)
  show ?case
  proof (cases "i = y")
    case True
    with "1.prems" show ?thesis by (subst take_years.simps) simp
  next
    case False
    then have s: "d = days_in_year i + ((\<Sum>k \<in> {i + 1..<y}. days_in_year k) + r)"
      using "1.prems" sum_int_Suc [of i y days_in_year] by simp
    moreover have "0 \<le> (\<Sum>k \<in> {i + 1..<y}. days_in_year k)"
      by (rule sum_nonneg) (simp add: days_in_year_pos less_imp_le)
    ultimately have ge: "days_in_year i \<le> d" using "1.prems"(2) by simp
    have "take_years (i + 1) (d - days_in_year i) = (y, r)"
      using False "1.prems" s by (intro "1.IH" [OF ge]) auto
    with ge show ?thesis by (subst take_years.simps) simp
  qed
qed

lemma take_years_exists:
  assumes "0 \<le> d"
  shows "\<exists>y r. take_years i d = (y, r) \<and> i \<le> y \<and> 0 \<le> r \<and> r < days_in_year y \<and> d = (\<Sum>k \<in> {i..<y}. days_in_year k) + r"
  using assms
proof (induction i d rule: take_years.induct)
  case (1 i d)
  show ?case
  proof (cases "days_in_year i \<le> d")
    case True
    with "1.IH" [OF True] obtain y r where y: "take_years (i + 1) (d - days_in_year i) = (y, r)" "i + 1 \<le> y" "0 \<le> r"
      "r < days_in_year y" "d - days_in_year i = (\<Sum>k \<in> {i + 1..<y}. days_in_year k) + r" by auto
    then have "d = (\<Sum>k \<in> {i..<y}. days_in_year k) + r" using sum_int_Suc [of i y days_in_year] by simp
    moreover have "take_years i d = (y, r)" using True y(1) by (subst take_years.simps) simp
    ultimately show ?thesis using y by auto
  next
    case False
    with "1.prems" show ?thesis by (subst take_years.simps) auto
  qed
qed

lemma month_pos: "1 \<le> m \<Longrightarrow> m \<le> 12 \<Longrightarrow> 0 < days_in_month (mth y) m \<and> days_in_month (mth y) m \<le> 31"
  using months12 [of m] by (auto simp: days_in_month_def mth_def month_days_def FEBRUARY_def nth_Cons' list_update_code)

lemma take_months_unique:
  assumes "1 \<le> i" "i \<le> m" "m \<le> 12" "0 \<le> r" "r < days_in_month (mth y) m"
    "d = (\<Sum>k \<in> {i..<m}. days_in_month (mth y) k) + r"
  shows "take_months (mth y) i d = Some (m, r)"
  using assms
proof (induction "mth y" i d rule: take_months.induct)
  case (1 i d)
  show ?case
  proof (cases "i = m")
    case True
    with "1.prems" show ?thesis by (subst take_months.simps) simp
  next
    case False
    then have s: "d = days_in_month (mth y) i + ((\<Sum>k \<in> {i + 1..<m}. days_in_month (mth y) k) + r)"
      using "1.prems" sum_int_Suc [of i m "days_in_month (mth y)"] by simp
    have "0 \<le> (\<Sum>k \<in> {i + 1..<m}. days_in_month (mth y) k)"
      using "1.prems" month_pos [of _ y] by (intro sum_nonneg) (auto simp: less_imp_le)
    then have ge: "days_in_month (mth y) i \<le> d" using s "1.prems"(4) by simp
    have ran: "1 \<le> i \<and> i \<le> 12" using "1.prems" by simp
    have "take_months (mth y) (i + 1) (d - days_in_month (mth y) i) = Some (m, r)"
      using False "1.prems" s by (intro "1.hyps" [OF ran ge]) auto
    with ge ran show ?thesis by (subst take_months.simps) simp
  qed
qed

lemma month_exists:
  assumes "0 \<le> r" "r < days_in_year y"
  shows "\<exists>m. 1 \<le> m \<and> m \<le> 12 \<and> months_before y m \<le> r \<and> r < months_before y m + days_in_month (mth y) m"
proof -
  let ?S = "{m \<in> {1..12}. months_before y m \<le> r}"
  define m where "m = Max ?S"
  have fin: "finite ?S" by (rule finite_subset [of _ "{1..12}"]) auto
  have "1 \<in> ?S" using assms(1) by (simp add: months_before_table)
  then have "?S \<noteq> {}" by blast
  from Max_in [OF fin this] have m: "m \<in> ?S" unfolding m_def .
  have step: "months_before y (m + 1) = months_before y m + days_in_month (mth y) m"
  proof -
    have "{1..<m + 1} = insert m {1..<m}" using m by auto
    then show ?thesis by (simp add: months_before_def)
  qed
  have "r < months_before y (m + 1)"
  proof (cases "m = 12")
    case True
    with assms(2) show ?thesis by (simp add: months_before_table)
  next
    case False
    show ?thesis
    proof (rule ccontr)
      assume "\<not> ?thesis"
      then have "m + 1 \<in> ?S" using m False by auto
      then have "m + 1 \<le> m" unfolding m_def by (rule Max_ge [OF fin])
      then show False by simp
    qed
  qed
  with m step show ?thesis by auto
qed

section \<open>Round trips\<close>

lemma sdiv_nonneg: "0 \<le> a \<Longrightarrow> 0 < b \<Longrightarrow> a sdiv b = a div (b :: int)"
  by (auto simp: signed_divide_int_def sgn_if)

lemma smod_nonneg: "0 \<le> a \<Longrightarrow> 0 < b \<Longrightarrow> a smod b = a mod (b :: int)"
  by (metis minus_div_mult_eq_mod minus_sdiv_mult_eq_smod sdiv_nonneg)

definition date_of :: "int \<Rightarrow> int \<Rightarrow> int \<Rightarrow> int \<Rightarrow> int \<Rightarrow> clock_ymdhms" where
  "date_of y m r d s = \<lparr>dt_year = y, dt_mon = m, dt_day = r + 1, dt_wday = (d + 4) mod 7,
     dt_hour = s div 3600, dt_min = (s mod 3600) div 60, dt_sec = (s mod 3600) mod 60\<rparr>"

lemma secs_to_eq:
  assumes "0 \<le> d" "0 \<le> s" "s < 86400" "1970 \<le> y" "y < 2 ^ 16" "1 \<le> m" "m \<le> 12" "0 \<le> r" "r < days_in_month (mth y) m"
    "d = years_before y + months_before y m + r"
  shows "clock_secs_to_ymdhms (d * 86400 + s) = Some (date_of y m r d s)"
proof -
  have n: "0 \<le> d * 86400 + s" using assms(1,2) by simp
  have q: "(d * 86400 + s) sdiv SECDAY = d" "(d * 86400 + s) smod SECDAY = s"
    using assms(2,3) by (simp_all add: SECDAY_def sdiv_nonneg [OF n] smod_nonneg [OF n])
  have mo: "months_before y m + r < days_in_year y \<and> 0 \<le> months_before y m + r"
    using months12 [OF assms(6,7)] assms(8,9)
    by (auto simp: months_before_table days_in_year_def days_in_month_def mth_def month_days_def FEBRUARY_def nth_Cons'
        list_update_code split: if_splits)
  have ty: "take_years 1970 d = (y, months_before y m + r)"
    using assms(4,10) mo by (intro take_years_unique) (auto simp: years_before_def)
  have tm: "take_months (mth y) 1 (months_before y m + r) = Some (m, r)"
    using assms by (intro take_months_unique) (auto simp: months_before_def)
  have "days_in_month (mth y) m \<le> 31" using month_pos [OF assms(6,7), of y] by simp
  then have small: "r + 1 < 256" "s div 3600 < 256" "(s mod 3600) div 60 < 256" "(s mod 3600) mod 60 < 256"
    using assms(3,9) by auto
  show ?thesis
    using q ty tm small assms(1,2,4-8) unfolding clock_secs_to_ymdhms_def Let_def POSIX_BASE_YEAR_def mth_def [symmetric]
    by (simp add: date_of_def u_char_of_def u_short_of_def sdiv_nonneg smod_nonneg)
qed

lemma hms_split:
  fixes h :: int
  assumes "0 \<le> h" "h < 24" "0 \<le> mi" "mi < 60" "0 \<le> se" "se < 60"
  defines "s \<equiv> h * 3600 + mi * 60 + se"
  shows "0 \<le> s" "s < 86400" "s div 3600 = h" "(s mod 3600) div 60 = mi" "(s mod 3600) mod 60 = se"
proof -
  have x: "0 \<le> mi * 60 + se" "mi * 60 + se < 3600" using assms by simp_all
  have "s = (mi * 60 + se) + h * 3600" by (simp add: s_def)
  then have q: "s div 3600 = h" "s mod 3600 = mi * 60 + se" using x by simp_all
  then show "s div 3600 = h" "(s mod 3600) div 60 = mi" "(s mod 3600) mod 60 = se" using assms(5,6) by simp_all
  show "0 \<le> s" "s < 86400" using assms by simp_all
qed

lemma before_nonneg: "mon \<le> 13 \<Longrightarrow> 0 \<le> months_before y mon" "0 \<le> years_before y"
  unfolding years_before_def months_before_def using month_pos [of _ y]
  by (auto intro!: sum_nonneg simp: days_in_year_pos less_imp_le)

text \<open>
  C22. Every valid date from 1970 up to the last second an int holds (in January 2038), converted to
  seconds and back, is the same date, weekday included; the seconds are the count of seconds since
  1970 in the Gregorian calendar, with no wrap-around.
\<close>

theorem clock_date_roundtrip:
  assumes "valid_date dt" "date_secs dt < 2 ^ 31"
  shows "\<exists>secs. clock_ymdhms_to_secs dt = Some secs \<and> secs = date_secs dt \<and> 0 \<le> secs
    \<and> clock_secs_to_ymdhms secs = Some dt"
proof -
  have v: "1970 \<le> dt_year dt" "dt_year dt < 2 ^ 16" "1 \<le> dt_mon dt" "dt_mon dt \<le> 12" "1 \<le> dt_day dt"
    "dt_day dt \<le> days_in_month (mth (dt_year dt)) (dt_mon dt)" "0 \<le> dt_hour dt" "dt_hour dt < 24"
    "0 \<le> dt_min dt" "dt_min dt < 60" "0 \<le> dt_sec dt" "dt_sec dt < 60"
    "dt_wday dt = (years_before (dt_year dt) + months_before (dt_year dt) (dt_mon dt) + dt_day dt + 3) mod 7"
    using assms by (auto simp: valid_date_alt)
  define s where "s = dt_hour dt * 3600 + dt_min dt * 60 + dt_sec dt"
  note s = hms_split [OF v(7-12), folded s_def]
  have nn: "0 \<le> years_before (dt_year dt)" "0 \<le> months_before (dt_year dt) (dt_mon dt)"
    using before_nonneg v(4) by simp_all
  note dd = date_days_alt [OF v(1,3,4)]
  have "0 \<le> date_days dt" using nn v(5) by (simp add: dd)
  then have pos: "0 \<le> date_secs dt" using s(1) by (simp add: date_secs_def s_def)
  have "clock_secs_to_ymdhms (date_days dt * 86400 + s)
      = Some (date_of (dt_year dt) (dt_mon dt) (dt_day dt - 1) (date_days dt) s)"
    using v nn s by (intro secs_to_eq) (auto simp: dd)
  moreover have "date_of (dt_year dt) (dt_mon dt) (dt_day dt - 1) (date_days dt) s = dt"
    unfolding dd using v(13) s by (cases dt) (simp add: date_of_def ac_simps)
  ultimately show ?thesis using to_secs_eq [OF v(1,3,4)] wrap_int_id [of "date_secs dt"] pos assms(2)
    by (simp add: s_def date_secs_def)
qed

lemma years_before_ge: "365 * (y - 1970) \<le> years_before y"
proof (cases "1970 \<le> y")
  case True
  have "(\<Sum>k \<in> {1970..<y}. 365) \<le> years_before y"
    unfolding years_before_def by (rule sum_mono) (simp add: days_in_year_def)
  with True show ?thesis by simp
next
  case False
  then show ?thesis using before_nonneg(2) [of y] by simp
qed

text \<open>
  C23. Every time from 0 to the largest int has a valid date, whose seconds are that time: the
  conversion to a date is onto and the year stays below 2040, so no field loses bits.
\<close>

theorem clock_secs_roundtrip:
  assumes "0 \<le> n" "n < 2 ^ 31"
  shows "\<exists>dt. clock_secs_to_ymdhms n = Some dt \<and> valid_date dt \<and> dt_year dt < 2040
    \<and> clock_ymdhms_to_secs dt = Some n"
proof -
  define d s where "d = n div 86400" and "s = n mod 86400"
  have n: "n = d * 86400 + s" "0 \<le> d" "0 \<le> s" "s < 86400" using assms by (simp_all add: d_def s_def)
  from take_years_exists [OF n(2), of 1970] obtain y r where
    y: "1970 \<le> y" "0 \<le> r" "r < days_in_year y" "d = years_before y + r" unfolding years_before_def by auto
  from month_exists [OF y(2,3)] obtain m where m: "1 \<le> m" "m \<le> 12" "months_before y m \<le> r"
    "r < months_before y m + days_in_month (mth y) m" by auto
  have "d * 86400 < 2 ^ 31" using n assms by simp
  then have y40: "y < 2040" using y(2,4) years_before_ge [of y] by simp
  let ?r = "r - months_before y m"
  let ?dt = "date_of y m ?r d s"
  have e: "clock_secs_to_ymdhms n = Some ?dt"
    unfolding n(1) using y y40 m n by (intro secs_to_eq) auto
  have hms: "s div 3600 < 24" "0 \<le> s div 3600" "s mod 3600 div 60 < 60" "0 \<le> s mod 3600 div 60"
    using n(3,4) by (auto simp: pos_imp_zdiv_nonneg_iff)
  have v: "valid_date ?dt"
    using y y40 m hms by (simp add: valid_date_alt date_of_def algebra_simps)
  have "s = s div 3600 * 3600 + (s mod 3600 div 60 * 60 + s mod 3600 mod 60)" by simp
  then have "date_secs ?dt = n" using y(1,4) y40 m(1,2) n(1) by (simp add: date_secs_def date_days_alt date_of_def)
  then have "clock_ymdhms_to_secs ?dt = Some n"
    using to_secs_eq [of ?dt] y(1) y40 m wrap_int_id [of n] assms by (simp add: date_of_def)
  with e v y40 show ?thesis by (auto simp: date_of_def)
qed

theorem clock_secs_roundtrip_witness:
  "\<exists>dt. clock_secs_to_ymdhms 951868799 = Some dt \<and> valid_date dt \<and> clock_ymdhms_to_secs dt = Some 951868799"
  using clock_secs_roundtrip [of 951868799] by auto

theorem clock_date_roundtrip_witness:
  "\<exists>dt secs. valid_date dt \<and> dt_year dt = 1972 \<and> clock_ymdhms_to_secs dt = Some secs \<and> clock_secs_to_ymdhms secs = Some dt"
proof -
  let ?dt = "\<lparr>dt_year = 1972, dt_mon = 2, dt_day = 29, dt_wday = 2, dt_hour = 23, dt_min = 59, dt_sec = 59\<rparr>"
  have "leapyear 1972" "\<not> leapyear 1970" "\<not> leapyear 1971" by (simp_all add: leapyear_def)
  then have y: "years_before 1972 = 730" by (simp add: years_before_def sum_int_Suc days_in_year_def)
  then have v: "valid_date ?dt" using \<open>leapyear 1972\<close>
    by (simp add: valid_date_alt days_in_month_def mth_def month_days_def FEBRUARY_def months_before_table)
  have "date_secs ?dt < 2 ^ 31" using y by (simp add: date_secs_def date_days_alt months_before_table)
  from v clock_date_roundtrip [OF v this] show ?thesis by (intro exI [of _ ?dt]) auto
qed

lemma smod_neg: "a \<le> 0 \<Longrightarrow> 0 < b \<Longrightarrow> a smod b = - ((- a) mod (b :: int))"
  by (auto simp: signed_modulo_int_def sgn_if)

text \<open>
  A time before 1970 does not get a date before 1970: the date is in January 1970, and for a
  time that is not a whole number of minutes the seconds field is the negative remainder stored in
  an unsigned byte, always above 196.
\<close>

theorem clock_negative_seconds:
  assumes "n < 0" "n mod 60 \<noteq> 0"
  shows "\<exists>dt. clock_secs_to_ymdhms n = Some dt \<and> dt_year dt = 1970 \<and> dt_mon dt = 1
    \<and> dt_sec dt = 256 - (- n) mod 60 \<and> 196 < dt_sec dt"
proof -
  let ?m = "(- n) mod 60"
  have d: "n sdiv SECDAY \<le> 0"
    using assms(1) by (simp add: SECDAY_def signed_divide_int_def pos_imp_zdiv_nonneg_iff)
  then have y: "take_years 1970 (n sdiv SECDAY) = (1970, n sdiv SECDAY)"
    by (subst take_years.simps) (simp add: days_in_year_def)
  have mo: "take_months l 1 (n sdiv SECDAY) = Some (1, n sdiv SECDAY)" if "l = month_days" for l
    using d that by (subst take_months.simps) (simp add: days_in_month_def month_days_def)
  have "\<not> leapyear 1970" by (simp add: leapyear_def)
  moreover have "n smod SECDAY smod 3600 smod 60 = - ?m"
    using assms(1) by (simp add: SECDAY_def smod_neg smod_nonneg mod_mod_cancel)
  moreover have "?m < 60" "0 < ?m" using assms(2) by (simp_all add: zmod_zminus1_eq_if)
  moreover have "u_char_of (- ?m) = 256 - ?m"
    using \<open>?m < 60\<close> \<open>0 < ?m\<close> mod_pos_pos_trivial [of "256 - ?m" 256] by (simp add: u_char_of_def)
  ultimately show ?thesis using y mo
    by (simp add: clock_secs_to_ymdhms_def Let_def POSIX_BASE_YEAR_def u_short_of_def u_char_of_def)
qed

theorem clock_negative_seconds_witness:
  "\<exists>dt. clock_secs_to_ymdhms (- 1) = Some dt \<and> dt_year dt = 1970 \<and> dt_sec dt = 255"
  using clock_negative_seconds [of "- 1"] by auto

end
