(* ===== verification/Circq.thy ===== *)
theory Circq
  imports Prelude
begin

text \<open>
  The circular queues of kern/kern_timeout.c (struct circq of sys/timeout.h): doubly linked rings
  through a head. The model keeps the two pointer fields of every node; the theorems relate the
  macros to operations on lists.
\<close>

section \<open>Nodes and links\<close>

datatype ('h, 'e) node = Head 'h | Elem 'e

record ('h, 'e) circq =
  cq_next :: "('h, 'e) node \<Rightarrow> ('h, 'e) node"
  cq_prev :: "('h, 'e) node \<Rightarrow> ('h, 'e) node"

definition set_next :: "('h, 'e) node \<Rightarrow> ('h, 'e) node \<Rightarrow> ('h, 'e) circq \<Rightarrow> ('h, 'e) circq" where
  "set_next n v m = m\<lparr>cq_next := (cq_next m)(n := v)\<rparr>"

definition set_prev :: "('h, 'e) node \<Rightarrow> ('h, 'e) node \<Rightarrow> ('h, 'e) circq \<Rightarrow> ('h, 'e) circq" where
  "set_prev n v m = m\<lparr>cq_prev := (cq_prev m)(n := v)\<rparr>"

section \<open>The macros\<close>

definition CIRCQ_INIT :: "('h, 'e) node \<Rightarrow> ('h, 'e) circq \<Rightarrow> ('h, 'e) circq" where
  "CIRCQ_INIT el m = set_prev el el (set_next el el m)"

definition CIRCQ_INSERT :: "('h, 'e) node \<Rightarrow> ('h, 'e) node \<Rightarrow> ('h, 'e) circq \<Rightarrow> ('h, 'e) circq" where
  "CIRCQ_INSERT el lst m =
     (let m = set_prev el (cq_prev m lst) m;
          m = set_next el lst m;
          m = set_next (cq_prev m lst) el m
      in set_prev lst el m)"

definition CIRCQ_FIRST :: "('h, 'e) node \<Rightarrow> ('h, 'e) circq \<Rightarrow> ('h, 'e) node" where
  "CIRCQ_FIRST el m = cq_next m el"

definition CIRCQ_EMPTY :: "('h, 'e) node \<Rightarrow> ('h, 'e) circq \<Rightarrow> bool" where
  "CIRCQ_EMPTY el m \<longleftrightarrow> CIRCQ_FIRST el m = el"

definition CIRCQ_APPEND :: "('h, 'e) node \<Rightarrow> ('h, 'e) node \<Rightarrow> ('h, 'e) circq \<Rightarrow> ('h, 'e) circq" where
  "CIRCQ_APPEND fs sn m =
     (if \<not> CIRCQ_EMPTY sn m then
        let m = set_next (cq_prev m fs) (cq_next m sn) m;
            m = set_prev (cq_next m sn) (cq_prev m fs) m;
            m = set_next (cq_prev m sn) fs m;
            m = set_prev fs (cq_prev m sn) m
        in CIRCQ_INIT sn m
      else m)"

text \<open>\<open>_Q_INVALIDATE\<close> is empty unless QUEUE_MACRO_DEBUG is defined.\<close>

definition CIRCQ_REMOVE :: "('h, 'e) node \<Rightarrow> ('h, 'e) circq \<Rightarrow> ('h, 'e) circq" where
  "CIRCQ_REMOVE el m =
     (let m = set_prev (cq_next m el) (cq_prev m el) m
      in set_next (cq_prev m el) (cq_next m el) m)"

section \<open>Paths\<close>

text \<open>Following \<open>next\<close> from \<open>a\<close> visits the list and then \<open>b\<close>, with every \<open>prev\<close> pointing back.\<close>

primrec path :: "('h, 'e) circq \<Rightarrow> ('h, 'e) node \<Rightarrow> 'e list \<Rightarrow> ('h, 'e) node \<Rightarrow> bool" where
  "path m a [] b \<longleftrightarrow> cq_next m a = b \<and> cq_prev m b = a"
| "path m a (x # xs) b \<longleftrightarrow> cq_next m a = Elem x \<and> cq_prev m (Elem x) = a \<and> path m (Elem x) xs b"

lemma path_append: "path m a (xs @ x # ys) b \<longleftrightarrow> path m a xs (Elem x) \<and> path m (Elem x) ys b"
  by (induction xs arbitrary: a) auto

lemma path_frame:
  assumes "\<And>n. n \<in> insert a (Elem ` set xs) \<Longrightarrow> cq_next m' n = cq_next m n"
    and "\<And>n. n \<in> insert b (Elem ` set xs) \<Longrightarrow> cq_prev m' n = cq_prev m n"
  shows "path m' a xs b = path m a xs b"
  using assms by (induction xs arbitrary: a) auto

lemma path_last: "path m a xs b \<Longrightarrow> cq_prev m b = (if xs = [] then a else Elem (last xs))"
  by (induction xs arbitrary: a) auto

lemma path_first: "path m a xs b \<Longrightarrow> cq_next m a = (if xs = [] then b else Elem (hd xs))"
  by (cases xs) auto

text \<open>A path whose last link is redirected.\<close>

lemma path_retarget:
  assumes "path m a xs b" "distinct xs" "a \<notin> Elem ` set xs"
    and "\<And>n. n \<in> insert a (Elem ` set xs) \<Longrightarrow> n \<noteq> cq_prev m b \<Longrightarrow> cq_next m' n = cq_next m n"
    and "\<And>x. x \<in> set xs \<Longrightarrow> cq_prev m' (Elem x) = cq_prev m (Elem x)"
    and "cq_next m' (cq_prev m b) = c" "cq_prev m' c = cq_prev m b"
  shows "path m' a xs c"
  using assms
proof (induction xs arbitrary: a)
  case (Cons x xs)
  have p: "path m (Elem x) xs b" using Cons.prems(1) by simp
  have "a \<noteq> cq_prev m b" using path_last [OF p] Cons.prems(3) by auto
  then have "cq_next m' a = Elem x" using Cons.prems(1) Cons.prems(4) [of a] by simp
  moreover have "path m' (Elem x) xs c"
    using Cons.prems(2) by (intro Cons.IH [OF p] Cons.prems(4-7)) auto
  ultimately show ?case using Cons.prems(1,5) by simp
qed simp

section \<open>Disjoint rings\<close>

definition rings :: "('h, 'e) circq \<Rightarrow> 'h set \<Rightarrow> ('h \<Rightarrow> 'e list) \<Rightarrow> bool" where
  "rings m H Q \<longleftrightarrow> (\<forall>h \<in> H. path m (Head h) (Q h) (Head h) \<and> distinct (Q h))
     \<and> (\<forall>h \<in> H. \<forall>h' \<in> H. h \<noteq> h' \<longrightarrow> set (Q h) \<inter> set (Q h') = {})"

definition on_ring :: "'h set \<Rightarrow> ('h \<Rightarrow> 'e list) \<Rightarrow> 'e \<Rightarrow> bool" where
  "on_ring H Q e \<longleftrightarrow> (\<exists>h \<in> H. e \<in> set (Q h))"

lemma rings_path: "rings m H Q \<Longrightarrow> h \<in> H \<Longrightarrow> path m (Head h) (Q h) (Head h)"
  by (simp add: rings_def)

lemma rings_distinct: "rings m H Q \<Longrightarrow> h \<in> H \<Longrightarrow> distinct (Q h)"
  by (simp add: rings_def)

lemma rings_unique: "rings m H Q \<Longrightarrow> h \<in> H \<Longrightarrow> h' \<in> H \<Longrightarrow> e \<in> set (Q h) \<Longrightarrow> e \<in> set (Q h') \<Longrightarrow> h = h'"
  by (auto simp: rings_def)

lemma rings_first:
  "rings m H Q \<Longrightarrow> h \<in> H \<Longrightarrow> CIRCQ_FIRST (Head h) m = (case Q h of [] \<Rightarrow> Head h | e # es \<Rightarrow> Elem e)"
  using path_first [OF rings_path, of m H Q h] by (auto simp: CIRCQ_FIRST_def split: list.split)

lemma rings_empty: "rings m H Q \<Longrightarrow> h \<in> H \<Longrightarrow> CIRCQ_EMPTY (Head h) m \<longleftrightarrow> Q h = []"
  by (auto simp: CIRCQ_EMPTY_def rings_first split: list.split)

text \<open>A ring is unchanged when no node of it is written.\<close>

lemma path_unchanged:
  assumes "path m (Head h) xs (Head h)"
    and "\<And>n. cq_next m' n \<noteq> cq_next m n \<or> cq_prev m' n \<noteq> cq_prev m n \<Longrightarrow> n \<notin> insert (Head h) (Elem ` set xs)"
  shows "path m' (Head h) xs (Head h)"
  using path_frame [of "Head h" xs m' m "Head h"] assms by metis

lemma last_of_path: "path m (Head h) xs (Head h) \<Longrightarrow> cq_prev m (Head h) \<in> insert (Head h) (Elem ` set xs)"
  using path_last by (cases "xs = []") fastforce+

lemma first_of_path: "path m (Head h) xs (Head h) \<Longrightarrow> cq_next m (Head h) \<in> insert (Head h) (Elem ` set xs)"
  using path_first by (cases "xs = []") fastforce+

lemma CIRCQ_INSERT_path:
  assumes p: "path m (Head h) xs (Head h)" and d: "distinct xs" "e \<notin> set xs"
  shows "path (CIRCQ_INSERT (Elem e) (Head h) m) (Head h) (xs @ [e]) (Head h)"
proof -
  let ?m = "CIRCQ_INSERT (Elem e) (Head h) m"
  have l: "cq_prev m (Head h) \<in> insert (Head h) (Elem ` set xs)" by (rule last_of_path [OF p])
  have "path ?m (Head h) xs (Elem e)"
    by (rule path_retarget [OF p d(1)]) (use d(2) l in \<open>auto simp: CIRCQ_INSERT_def Let_def set_next_def set_prev_def\<close>)
  moreover have "path ?m (Elem e) [] (Head h)"
    using d(2) l by (auto simp: CIRCQ_INSERT_def Let_def set_next_def set_prev_def)
  ultimately show ?thesis by (simp add: path_append)
qed

lemma rings_INSERT:
  assumes r: "rings m H Q" and h: "h \<in> H" and e: "\<not> on_ring H Q e"
  shows "rings (CIRCQ_INSERT (Elem e) (Head h) m) H (Q(h := Q h @ [e]))"
proof -
  let ?m = "CIRCQ_INSERT (Elem e) (Head h) m"
  have nin: "e \<notin> set (Q k)" if "k \<in> H" for k using e that by (auto simp: on_ring_def)
  have l: "cq_prev m (Head h) \<in> insert (Head h) (Elem ` set (Q h))" by (rule last_of_path [OF rings_path [OF r h]])
  have "path ?m (Head k) (Q k) (Head k)" if k: "k \<in> H" "k \<noteq> h" for k
  proof (rule path_unchanged [OF rings_path [OF r k(1)]])
    fix n assume "cq_next ?m n \<noteq> cq_next m n \<or> cq_prev ?m n \<noteq> cq_prev m n"
    then have "n = Elem e \<or> n = cq_prev m (Head h) \<or> n = Head h"
      by (auto simp: CIRCQ_INSERT_def Let_def set_next_def set_prev_def split: if_splits)
    then show "n \<notin> insert (Head k) (Elem ` set (Q k))"
      using l k nin [OF k(1)] rings_unique [OF r h k(1)] by auto
  qed
  then show ?thesis
    using r h nin CIRCQ_INSERT_path [OF rings_path [OF r h] rings_distinct [OF r h] nin [OF h]]
    by (auto simp: rings_def)
qed

lemma CIRCQ_REMOVE_path:
  assumes p: "path m (Head h) (ys @ e # zs) (Head h)" and d: "distinct (ys @ e # zs)"
  shows "path (CIRCQ_REMOVE (Elem e) m) (Head h) (ys @ zs) (Head h)"
proof -
  let ?m = "CIRCQ_REMOVE (Elem e) m"
  have y: "path m (Head h) ys (Elem e)" and z: "path m (Elem e) zs (Head h)" using p by (simp_all add: path_append)
  have pr: "cq_prev m (Elem e) = (if ys = [] then Head h else Elem (last ys))" by (rule path_last [OF y])
  have nx: "cq_next m (Elem e) = (if zs = [] then Head h else Elem (hd zs))" by (rule path_first [OF z])
  have nin: "cq_prev m (Elem e) \<noteq> Elem e" "cq_next m (Elem e) \<noteq> Elem e"
    using pr nx d last_in_set [of ys] hd_in_set [of zs] by (auto split: if_splits)
  have eqs: "cq_next ?m = (cq_next m)(cq_prev m (Elem e) := cq_next m (Elem e))"
    "cq_prev ?m = (cq_prev m)(cq_next m (Elem e) := cq_prev m (Elem e))"
    using nin by (simp_all add: CIRCQ_REMOVE_def Let_def set_next_def set_prev_def)
  have y': "path ?m (Head h) ys (cq_next m (Elem e))"
    by (rule path_retarget [OF y])
      (use d nx hd_in_set [of zs] in \<open>auto simp: eqs split: if_splits\<close>)
  show ?thesis
  proof (cases zs)
    case Nil
    with y' nx show ?thesis by simp
  next
    case (Cons b vs)
    have "path m (Elem b) vs (Head h)" using z Cons by simp
    moreover have "last ys \<notin> set vs" if "ys \<noteq> []" using d Cons last_in_set [OF that] by auto
    ultimately have "path ?m (Elem b) vs (Head h)"
      using pr nx Cons d
      by (subst path_frame [where m = m]) (auto 4 3 simp: eqs split: if_splits)
    with y' nx Cons show ?thesis by (simp add: path_append)
  qed
qed

lemma rings_REMOVE:
  assumes r: "rings m H Q" and h: "h \<in> H" and e: "e \<in> set (Q h)"
  shows "rings (CIRCQ_REMOVE (Elem e) m) H (Q(h := remove1 e (Q h)))"
proof -
  let ?m = "CIRCQ_REMOVE (Elem e) m"
  obtain ys zs where q: "Q h = ys @ e # zs" using split_list [OF e] by blast
  note d = rings_distinct [OF r h, unfolded q]
  note p = rings_path [OF r h, unfolded q]
  have rm: "remove1 e (Q h) = ys @ zs" using d q by (simp add: remove1_append)
  have pr: "cq_prev m (Elem e) \<in> insert (Head h) (Elem ` set (Q h))"
    using p path_last [of m "Head h" ys "Elem e"] last_in_set [of ys] by (auto simp: path_append q split: if_splits)
  have nx: "cq_next m (Elem e) \<in> insert (Head h) (Elem ` set (Q h))"
    using p path_first [of m "Elem e" zs "Head h"] hd_in_set [of zs] by (auto simp: path_append q split: if_splits)
  have "path ?m (Head k) (Q k) (Head k)" if k: "k \<in> H" "k \<noteq> h" for k
  proof (rule path_unchanged [OF rings_path [OF r k(1)]])
    fix n assume "cq_next ?m n \<noteq> cq_next m n \<or> cq_prev ?m n \<noteq> cq_prev m n"
    then have "n = cq_next m (Elem e) \<or> n = cq_prev m (Elem e) \<or> n = cq_prev ?m (Elem e)"
      by (auto simp: CIRCQ_REMOVE_def Let_def set_next_def set_prev_def split: if_splits)
    then have "n \<in> insert (Head h) (Elem ` set (Q h))"
      using pr nx by (auto simp: CIRCQ_REMOVE_def Let_def set_next_def set_prev_def split: if_splits)
    then show "n \<notin> insert (Head k) (Elem ` set (Q k))"
      using k rings_unique [OF r h k(1)] by auto
  qed
  moreover have "path ?m (Head h) (ys @ zs) (Head h)" by (rule CIRCQ_REMOVE_path [OF p d])
  ultimately show ?thesis using r h d rm by (fastforce simp: rings_def q)
qed

lemma rings_APPEND:
  assumes r: "rings m H Q" and f: "f \<in> H" and s: "s \<in> H" and ne: "f \<noteq> s"
  shows "rings (CIRCQ_APPEND (Head f) (Head s) m) H (Q(f := Q f @ Q s, s := []))"
proof (cases "Q s")
  case Nil
  then have "CIRCQ_APPEND (Head f) (Head s) m = m" using rings_empty [OF r s] by (simp add: CIRCQ_APPEND_def)
  with Nil r ne show ?thesis by (simp add: fun_upd_idem)
next
  case (Cons y ys)
  let ?m = "CIRCQ_APPEND (Head f) (Head s) m"
  note pf = rings_path [OF r f] and ps = rings_path [OF r s]
  have lf: "cq_prev m (Head f) \<in> insert (Head f) (Elem ` set (Q f))" by (rule last_of_path [OF pf])
  have ls: "cq_prev m (Head s) = Elem (last (Q s))" using path_last [OF ps] Cons by simp
  have fs: "cq_next m (Head s) = Elem y" using ps Cons by simp
  have dj: "set (Q f) \<inter> set (Q s) = {}" using r f s ne by (auto simp: rings_def)
  have lin: "last (Q s) \<in> set (Q s)" using Cons by simp
  have ne_y: "cq_prev m (Head f) \<noteq> Elem (last (Q s))" using lf dj lin by auto
  have nex: "cq_next ?m = (cq_next m)(cq_prev m (Head f) := Elem y, Elem (last (Q s)) := Head f, Head s := Head s)"
    and pre: "cq_prev ?m = (cq_prev m)(Elem y := cq_prev m (Head f), Head f := Elem (last (Q s)), Head s := Head s)"
    using rings_empty [OF r s] Cons ls fs lf ne dj
    by (auto simp: CIRCQ_APPEND_def CIRCQ_INIT_def Let_def set_next_def set_prev_def fun_eq_iff)
  have yin: "y \<in> set (Q s)" using Cons by simp
  have a: "path ?m (Head f) (Q f) (Elem y)"
    by (rule path_retarget [OF pf rings_distinct [OF r f]])
      (use ne lf dj lin yin ne_y in \<open>auto simp: nex pre\<close>)
  have b: "path ?m (Elem y) ys (Head f)"
  proof (rule path_retarget)
    show "path m (Elem y) ys (Head s)" using ps Cons by simp
  qed (use rings_distinct [OF r s] Cons ls lf dj ne in \<open>auto simp: nex pre\<close>)
  have "path ?m (Head k) (Q k) (Head k)" if k: "k \<in> H" "k \<noteq> f" "k \<noteq> s" for k
  proof (rule path_unchanged [OF rings_path [OF r k(1)]])
    fix n assume "cq_next ?m n \<noteq> cq_next m n \<or> cq_prev ?m n \<noteq> cq_prev m n"
    then have "n \<in> {cq_prev m (Head f), Elem (last (Q s)), Head s, Head f, Elem y}"
      by (auto simp: nex pre split: if_splits)
    then show "n \<notin> insert (Head k) (Elem ` set (Q k))"
      using lf lin yin k rings_unique [OF r f k(1)] rings_unique [OF r s k(1)] by auto
  qed
  moreover have "path ?m (Head s) [] (Head s)" by (simp add: nex pre)
  moreover have "path ?m (Head f) (Q f @ Q s) (Head f)" using a b Cons by (simp add: path_append)
  ultimately have "\<forall>k \<in> H. path ?m (Head k) ((Q(f := Q f @ Q s, s := [])) k) (Head k)" using ne by simp
  moreover have "set (Q k) \<inter> (set (Q f) \<union> set (Q s)) = {}" if "k \<in> H" "k \<noteq> f" "k \<noteq> s" for k
    using r f s that unfolding rings_def by blast
  ultimately show ?thesis using r f s ne dj unfolding rings_def by (simp add: Int_commute)
qed

lemma rings_INIT:
  assumes r: "rings m H Q" and h: "h \<notin> H"
  shows "rings (CIRCQ_INIT (Head h) m) (insert h H) (Q(h := []))"
proof -
  let ?m = "CIRCQ_INIT (Head h) m"
  have "path ?m (Head k) (Q k) (Head k)" if k: "k \<in> H" for k
    by (rule path_unchanged [OF rings_path [OF r k]])
      (use k h in \<open>auto simp: CIRCQ_INIT_def set_next_def set_prev_def split: if_splits\<close>)
  moreover have "path ?m (Head h) [] (Head h)" by (simp add: CIRCQ_INIT_def set_next_def set_prev_def)
  ultimately show ?thesis using r h by (auto simp: rings_def)
qed

lemma rings_none: "rings m {} Q"
  by (simp add: rings_def)

section \<open>The contract of a family of queues\<close>

text \<open>
  What the users of the queues rely on: a representation of a family of disjoint lists, and the
  effect of each operation on it.
\<close>

locale queue_family =
  fixes rep :: "'m \<Rightarrow> 'h set \<Rightarrow> ('h \<Rightarrow> 'e list) \<Rightarrow> bool"
    and ins :: "'e \<Rightarrow> 'h \<Rightarrow> 'm \<Rightarrow> 'm"
    and rem :: "'e \<Rightarrow> 'm \<Rightarrow> 'm"
    and app :: "'h \<Rightarrow> 'h \<Rightarrow> 'm \<Rightarrow> 'm"
  assumes rep_distinct: "rep m H Q \<Longrightarrow> h \<in> H \<Longrightarrow> distinct (Q h)"
    and rep_unique: "rep m H Q \<Longrightarrow> h \<in> H \<Longrightarrow> h' \<in> H \<Longrightarrow> e \<in> set (Q h) \<Longrightarrow> e \<in> set (Q h') \<Longrightarrow> h = h'"
    and rep_ins: "rep m H Q \<Longrightarrow> h \<in> H \<Longrightarrow> \<not> on_ring H Q e \<Longrightarrow> rep (ins e h m) H (Q(h := Q h @ [e]))"
    and rep_rem: "rep m H Q \<Longrightarrow> h \<in> H \<Longrightarrow> e \<in> set (Q h) \<Longrightarrow> rep (rem e m) H (Q(h := remove1 e (Q h)))"
    and rep_app: "rep m H Q \<Longrightarrow> f \<in> H \<Longrightarrow> s \<in> H \<Longrightarrow> f \<noteq> s \<Longrightarrow> rep (app f s m) H (Q(f := Q f @ Q s, s := []))"
begin

lemma not_on_ring_removed:
  assumes "rep m H Q" "h \<in> H" "e \<in> set (Q h)"
  shows "\<not> on_ring H (Q(h := remove1 e (Q h))) e"
proof -
  have "k = h" if "k \<in> H" "e \<in> set (Q k)" for k using rep_unique [OF assms(1,2) that(1) assms(3) that(2)] by simp
  moreover have "e \<notin> set (remove1 e (Q h))" using rep_distinct [OF assms(1,2)] by simp
  ultimately show ?thesis by (auto simp: on_ring_def)
qed

text \<open>Moving an element to the tail of a queue.\<close>

lemma rep_move:
  assumes "rep m H Q" "h \<in> H" "e \<in> set (Q h)" "k \<in> H" "Q' = Q(h := remove1 e (Q h))"
  shows "rep (ins e k (rem e m)) H (Q'(k := Q' k @ [e]))"
  using rep_ins [OF rep_rem [OF assms(1-3)] assms(4) not_on_ring_removed [OF assms(1-3)]] assms(5) by simp

text \<open>Collecting several queues.\<close>

lemma rep_app_fold:
  assumes "rep m H Q" "f \<in> H" "set hs \<subseteq> H" "f \<notin> set hs" "distinct hs"
  shows "rep (fold (app f) hs m) H (\<lambda>h. if h = f then Q f @ concat (map Q hs) else if h \<in> set hs then [] else Q h)"
  using assms
proof (induction hs arbitrary: m Q)
  case Nil
  moreover have "(\<lambda>h. if h = f then Q f @ concat (map Q []) else if h \<in> set [] then [] else Q h) = Q" by auto
  ultimately show ?case by (simp only: fold_simps)
next
  case (Cons s hs)
  let ?Q = "Q(f := Q f @ Q s, s := [])"
  have r: "rep (app f s m) H ?Q" using Cons.prems by (intro rep_app) auto
  have "map ?Q hs = map Q hs" using Cons.prems by auto
  then have "(\<lambda>h. if h = f then ?Q f @ concat (map ?Q hs) else if h \<in> set hs then [] else ?Q h)
      = (\<lambda>h. if h = f then Q f @ concat (map Q (s # hs)) else if h \<in> set (s # hs) then [] else Q h)"
    using Cons.prems by (auto simp: fun_eq_iff)
  with Cons.IH [OF r] Cons.prems show ?case by simp
qed

end

interpretation cq: queue_family rings "\<lambda>e h. CIRCQ_INSERT (Elem e) (Head h)" "\<lambda>e. CIRCQ_REMOVE (Elem e)"
  "\<lambda>f s. CIRCQ_APPEND (Head f) (Head s)"
  by unfold_locales (simp_all add: rings_distinct rings_unique rings_INSERT rings_REMOVE rings_APPEND)

end
