(* ===== verification/Timeout.thy ===== *)
theory Timeout
  imports Circq "HOL-Library.Signed_Division"
begin

text \<open>
  The timeouts of kern/kern_timeout.c: a hierarchical timing wheel of four levels of 256 buckets.
  The state keeps the clock, the link fields of the queues and the timeout structures; every
  operation works on the links through the macros of \<open>Circq\<close>. The operations hold
  \<open>timeout_mutex\<close>, so each is one step; \<open>softclock\<close> releases it around the call of a timeout
  function. The kernel is built with DIAGNOSTIC, as GENERIC is.
\<close>

section \<open>Data\<close>

record timeout =
  to_func :: nat
  to_arg :: nat
  to_time :: u_int
  to_flags :: u_int

datatype tq = Todo | Wheel nat

record tstate =
  ticks :: u_int
  links :: "(tq, nat) circq"
  timeouts :: "nat \<Rightarrow> timeout"

definition TIMEOUT_ONQUEUE :: u_int where "TIMEOUT_ONQUEUE = 2"
definition TIMEOUT_INITIALIZED :: u_int where "TIMEOUT_INITIALIZED = 4"
definition TIMEOUT_TRIGGERED :: u_int where "TIMEOUT_TRIGGERED = 8"

definition BUCKETS :: nat where "BUCKETS = 1024"
definition WHEELSIZE :: nat where "WHEELSIZE = 256"
definition WHEELMASK :: u_int where "WHEELMASK = 255"
definition WHEELBITS :: nat where "WHEELBITS = 8"
definition INT_MAX :: int where "INT_MAX = 2 ^ 31 - 1"

definition timeout_pending :: "tstate \<Rightarrow> nat \<Rightarrow> bool" where
  "timeout_pending s e = has_flag (to_flags (timeouts s e)) TIMEOUT_ONQUEUE"

definition timeout_initialized :: "tstate \<Rightarrow> nat \<Rightarrow> bool" where
  "timeout_initialized s e = has_flag (to_flags (timeouts s e)) TIMEOUT_INITIALIZED"

definition timeout_triggered :: "tstate \<Rightarrow> nat \<Rightarrow> bool" where
  "timeout_triggered s e = has_flag (to_flags (timeouts s e)) TIMEOUT_TRIGGERED"

text \<open>The shift of a signed time copies the sign; the mask keeps eight bits.\<close>

definition MASKWHEEL :: "nat \<Rightarrow> u_int \<Rightarrow> nat" where
  "MASKWHEEL wheel time = unat (signed_drop_bit (wheel * WHEELBITS) time AND WHEELMASK)"

definition BUCKET :: "u_int \<Rightarrow> u_int \<Rightarrow> nat" where
  "BUCKET rel ab =
     (if sint rel \<le> 2 ^ (2 * WHEELBITS)
      then (if sint rel \<le> 2 ^ WHEELBITS then MASKWHEEL 0 ab else MASKWHEEL 1 ab + WHEELSIZE)
      else (if sint rel \<le> 2 ^ (3 * WHEELBITS) then MASKWHEEL 2 ab + 2 * WHEELSIZE
            else MASKWHEEL 3 ab + 3 * WHEELSIZE))"

definition MOVEBUCKET :: "nat \<Rightarrow> u_int \<Rightarrow> (tq, nat) circq \<Rightarrow> (tq, nat) circq" where
  "MOVEBUCKET wheel time =
     CIRCQ_APPEND (Head Todo) (Head (Wheel (MASKWHEEL wheel time + wheel * WHEELSIZE)))"

section \<open>Operations\<close>

definition timeout_startup :: "tstate \<Rightarrow> tstate" where
  "timeout_startup s = s\<lparr>links := fold (\<lambda>b. CIRCQ_INIT (Head (Wheel b))) [0..<BUCKETS] (CIRCQ_INIT (Head Todo) (links s))\<rparr>"

definition upd_timeout :: "nat \<Rightarrow> (timeout \<Rightarrow> timeout) \<Rightarrow> tstate \<Rightarrow> tstate" where
  "upd_timeout e f s = s\<lparr>timeouts := (timeouts s)(e := f (timeouts s e))\<rparr>"

definition timeout_set :: "nat \<Rightarrow> nat \<Rightarrow> nat \<Rightarrow> tstate \<Rightarrow> tstate" where
  "timeout_set new fn arg = upd_timeout new (\<lambda>t. t\<lparr>to_func := fn, to_arg := arg, to_flags := TIMEOUT_INITIALIZED\<rparr>)"

definition timeout_add :: "nat \<Rightarrow> u_int \<Rightarrow> tstate \<Rightarrow> (tstate, unit, unit) outcome" where
  "timeout_add new to_ticks s =
     (if \<not> timeout_initialized s new then Panic ''timeout_add: not initialized''
      else if sint to_ticks < 0 then Panic ''timeout_add: to_ticks < 0''
      else
        let old_time = to_time (timeouts s new);
            s = upd_timeout new (\<lambda>t. t\<lparr>to_time := to_ticks + ticks s\<rparr>) s;
            s = upd_timeout new (\<lambda>t. t\<lparr>to_flags := to_flags t AND NOT TIMEOUT_TRIGGERED\<rparr>) s
        in if timeout_pending s new then
             (if sint (to_time (timeouts s new) - ticks s) < sint (old_time - ticks s)
              then Return (s\<lparr>links := CIRCQ_INSERT (Elem new) (Head Todo) (CIRCQ_REMOVE (Elem new) (links s))\<rparr>) ()
              else Return s ())
           else
             let s = upd_timeout new (\<lambda>t. t\<lparr>to_flags := to_flags t OR TIMEOUT_ONQUEUE\<rparr>) s
             in Return (s\<lparr>links := CIRCQ_INSERT (Elem new) (Head Todo) (links s)\<rparr>) ())"

definition timeout_del :: "nat \<Rightarrow> tstate \<Rightarrow> tstate \<times> bool" where
  "timeout_del to s =
     (let (s, ret) =
        (if timeout_pending s to then
           (let s = s\<lparr>links := CIRCQ_REMOVE (Elem to) (links s)\<rparr>;
                s = upd_timeout to (\<lambda>t. t\<lparr>to_flags := to_flags t AND NOT TIMEOUT_ONQUEUE\<rparr>) s
            in (s, True))
         else (s, False))
      in (upd_timeout to (\<lambda>t. t\<lparr>to_flags := to_flags t AND NOT TIMEOUT_TRIGGERED\<rparr>) s, ret))"

definition timeout_hardclock_update :: "tstate \<Rightarrow> tstate \<times> bool" where
  "timeout_hardclock_update s =
     (let s = s\<lparr>ticks := ticks s + 1\<rparr>;
          l = MOVEBUCKET 0 (ticks s) (links s);
          l = (if MASKWHEEL 0 (ticks s) = 0 then
                 (let l = MOVEBUCKET 1 (ticks s) l
                  in if MASKWHEEL 1 (ticks s) = 0 then
                       (let l = MOVEBUCKET 2 (ticks s) l
                        in if MASKWHEEL 2 (ticks s) = 0 then MOVEBUCKET 3 (ticks s) l else l)
                     else l)
               else l);
          s = s\<lparr>links := l\<rparr>
      in (s, \<not> CIRCQ_EMPTY (Head Todo) (links s)))"

text \<open>
  One iteration of the loop of \<open>softclock\<close>, up to the call of the timeout function; the second
  component is the function to call and its argument. The list \<open>timeout_todo\<close> holds timeouts only,
  so the cast of the first node is the identity on elements.
\<close>

definition softclock_body :: "tstate \<Rightarrow> tstate \<times> (nat \<times> nat) option" where
  "softclock_body s =
     (case CIRCQ_FIRST (Head Todo) (links s) of
        Head h \<Rightarrow> (s, None)
      | Elem to \<Rightarrow>
          let s = s\<lparr>links := CIRCQ_REMOVE (Elem to) (links s)\<rparr>;
              rel = to_time (timeouts s to) - ticks s
          in if sint rel > 0
             then (s\<lparr>links := CIRCQ_INSERT (Elem to) (Head (Wheel (BUCKET rel (to_time (timeouts s to))))) (links s)\<rparr>, None)
             else
               let s = upd_timeout to (\<lambda>t. t\<lparr>to_flags := to_flags t AND NOT TIMEOUT_ONQUEUE\<rparr>) s;
                   s = upd_timeout to (\<lambda>t. t\<lparr>to_flags := to_flags t OR TIMEOUT_TRIGGERED\<rparr>) s
               in (s, Some (to_func (timeouts s to), to_arg (timeouts s to))))"

text \<open>
  The whole loop, where \<open>call fn arg\<close> is the effect of the function and of whatever runs while the
  mutex is released. The loop may run forever (a function that adds itself with 0 ticks): None.
\<close>

partial_function (option) softclock :: "(nat \<Rightarrow> nat \<Rightarrow> tstate \<Rightarrow> tstate) \<Rightarrow> tstate \<Rightarrow> tstate option" where
  "softclock call s =
     (if CIRCQ_EMPTY (Head Todo) (links s) then Some s
      else case softclock_body s of
             (s', None) \<Rightarrow> softclock call s'
           | (s', Some (fn, arg)) \<Rightarrow> softclock call (call fn arg s'))"

section \<open>Conversions of time to ticks\<close>

text \<open>
  \<open>hz\<close> and \<open>tick\<close> (microseconds per tick) are parameters of the kernel. The intermediate values are
  of type \<open>long long\<close>, whose range the products of an \<open>int\<close> stay in; \<open>(int)\<close> keeps 32 bits.
\<close>

definition clip_ticks :: "int \<Rightarrow> u_int" where
  "clip_ticks to_ticks = word_of_int (if to_ticks > INT_MAX then INT_MAX else to_ticks)"

definition timeout_add_tv :: "int \<Rightarrow> int \<Rightarrow> nat \<Rightarrow> int \<times> int \<Rightarrow> tstate \<Rightarrow> (tstate, unit, unit) outcome" where
  "timeout_add_tv hz tick to tv = timeout_add to (clip_ticks (hz * fst tv + snd tv sdiv tick))"

definition timeout_add_ts :: "int \<Rightarrow> int \<Rightarrow> nat \<Rightarrow> int \<times> int \<Rightarrow> tstate \<Rightarrow> (tstate, unit, unit) outcome" where
  "timeout_add_ts hz tick to ts = timeout_add to (clip_ticks (hz * fst ts + snd ts sdiv (tick * 1000)))"

definition timeout_add_bt :: "int \<Rightarrow> int \<Rightarrow> nat \<Rightarrow> int \<times> u_long \<Rightarrow> tstate \<Rightarrow> (tstate, unit, unit) outcome" where
  "timeout_add_bt hz tick to bt = timeout_add to
     (clip_ticks (hz * fst bt + sint (drop_bit 32 (1000000 * ucast (ucast (drop_bit 32 (snd bt)) :: u_int)) :: u_long) sdiv tick))"

definition timeout_add_sec :: "int \<Rightarrow> nat \<Rightarrow> int \<Rightarrow> tstate \<Rightarrow> (tstate, unit, unit) outcome" where
  "timeout_add_sec hz to secs = timeout_add to (clip_ticks (hz * secs))"

definition timeout_add_msec :: "int \<Rightarrow> nat \<Rightarrow> int \<Rightarrow> tstate \<Rightarrow> (tstate, unit, unit) outcome" where
  "timeout_add_msec tick to msecs = timeout_add to (clip_ticks ((msecs * 1000) sdiv tick))"

definition timeout_add_usec :: "int \<Rightarrow> nat \<Rightarrow> int \<Rightarrow> tstate \<Rightarrow> (tstate, unit, unit) outcome" where
  "timeout_add_usec tick to usecs = timeout_add to (word_of_int (usecs sdiv tick))"

definition timeout_add_nsec :: "int \<Rightarrow> nat \<Rightarrow> int \<Rightarrow> tstate \<Rightarrow> (tstate, unit, unit) outcome" where
  "timeout_add_nsec tick to nsecs = timeout_add to (word_of_int (nsecs sdiv (tick * 1000)))"

end
