(* ===== verification/Timeout_Wheel.thy ===== *)
theory Timeout_Wheel
  imports Timeout
begin

text \<open>
  Correctness of the timing wheel: the queues stay disjoint rings that hold exactly the pending
  timeouts, and a timeout waiting in a bucket always has that bucket visited before it is due.
\<close>

section \<open>Buckets and ticks\<close>

text \<open>The buckets that the tick to time \<open>t\<close> moves to the worklist.\<close>

definition visited :: "u_int \<Rightarrow> nat list" where
  "visited t = (MASKWHEEL 0 t) # (if MASKWHEEL 0 t = 0 then
     (MASKWHEEL 1 t + 256) # (if MASKWHEEL 1 t = 0 then
       (MASKWHEEL 2 t + 512) # (if MASKWHEEL 2 t = 0 then [MASKWHEEL 3 t + 768] else []) else []) else [])"

lemma signed_drop_bit_and_255:
  assumes "n \<le> 24"
  shows "signed_drop_bit n t AND 255 = drop_bit n (t :: u_int) AND 255"
proof (rule bit_word_eqI)
  fix i assume i: "i < LENGTH(32)"
  have m: "(255 :: u_int) = mask 8" by (simp add: mask_eq_exp_minus_1)
  have "bit (255 :: u_int) i \<longleftrightarrow> i < 8" unfolding m using i by (auto simp: bit_mask_iff)
  with assms show "bit (signed_drop_bit n t AND 255) i = bit (drop_bit n t AND 255) i"
    by (auto simp: bit_and_iff bit_signed_drop_bit_iff bit_drop_bit_eq)
qed

lemma u_int_unat_drop_bit: "unat (drop_bit n (t :: u_int)) = unat t div 2 ^ n"
  by (metis unat_drop_bit_eq drop_bit_eq_div)

lemma MASKWHEEL_eq: "w \<le> 3 \<Longrightarrow> MASKWHEEL w t = (unat t div 256 ^ w) mod 256"
proof -
  assume "w \<le> 3"
  then have "MASKWHEEL w t = unat (drop_bit (w * 8) t AND mask 8)"
    by (simp add: MASKWHEEL_def WHEELBITS_def WHEELMASK_def signed_drop_bit_and_255 mask_eq_exp_minus_1)
  also have "\<dots> = (unat t div 2 ^ (w * 8)) mod 2 ^ 8"
    unfolding take_bit_eq_mask [symmetric] unsigned_take_bit_eq u_int_unat_drop_bit by (rule take_bit_eq_mod)
  finally show ?thesis by (simp add: power_mult mult.commute [of w])
qed

lemma MASKWHEEL_less: "w \<le> 3 \<Longrightarrow> MASKWHEEL w t < 256"
  by (simp add: MASKWHEEL_eq)

lemma visited_range: "b \<in> set (visited t) \<Longrightarrow> b < 1024"
  using MASKWHEEL_less [of 0 t] MASKWHEEL_less [of 1 t] MASKWHEEL_less [of 2 t] MASKWHEEL_less [of 3 t]
  by (auto simp: visited_def split: if_splits)

lemma visited_distinct: "distinct (visited t)"
  using MASKWHEEL_less [of 0 t] MASKWHEEL_less [of 1 t] MASKWHEEL_less [of 2 t] by (auto simp: visited_def)

text \<open>A level is visited when all levels below are at zero.\<close>

lemma visited_level:
  assumes "w \<le> 3" "unat t mod 256 ^ w = 0"
  shows "MASKWHEEL w t + w * 256 \<in> set (visited t)"
proof -
  have "MASKWHEEL v t = 0" if "v < w" for v
  proof -
    obtain q where q: "unat t = 256 ^ w * q" using assms(2) by auto
    have "unat t = 256 ^ v * (256 * (256 ^ (w - v - 1) * q))"
      using that by (simp add: q power_add [symmetric] flip: power_Suc mult.assoc)
    with that assms(1) show ?thesis by (simp add: MASKWHEEL_eq)
  qed
  moreover from assms(1) have "w = 0 \<or> w = 1 \<or> w = 2 \<or> w = 3" by auto
  ultimately show ?thesis by (auto simp: visited_def)
qed

lemma sint_u_int: "sint (r :: u_int) = (if unat r < 2 ^ 31 then int (unat r) else int (unat r) - 2 ^ 32)"
proof -
  define n where "n = unat r"
  have e: "uint r = int n" by (simp add: n_def)
  have u: "uint r < 2 ^ 32" "0 \<le> uint r" using uint_lt2p [of r] by simp_all
  have "uint r div 2 ^ 31 = (if uint r < 2 ^ 31 then 0 else 1)" using u by auto
  then have "bit (uint r) 31 \<longleftrightarrow> \<not> uint r < 2 ^ 31" by (simp add: bit_iff_odd)
  then have "sint r = (if uint r < 2 ^ 31 then uint r else uint r - 2 ^ 32)"
    using signed_take_bit_eq_take_bit_minus [of 31 "uint r"] u by (simp add: sint_uint take_bit_int_eq_self)
  then show ?thesis unfolding n_def [symmetric] e by simp
qed

lemma unat_u_int_less: "unat (r :: u_int) < 2 ^ 32"
  using unsigned_less [of r] by simp

lemma sint_pos_unat: "unat r = nat (sint r)" if "0 < sint (r :: u_int)"
proof -
  define n where "n = unat r"
  have "n < 2 ^ 32" using unat_u_int_less [of r] by (simp add: n_def)
  then show ?thesis using that unfolding sint_u_int n_def [symmetric] by (auto split: if_splits)
qed

text \<open>The time at which the bucket of a level comes up for a timeout due at \<open>t\<close>.\<close>

lemma level_visit:
  assumes "w \<le> 3" "256 ^ w < unat rel \<or> w = 0 \<and> 0 < unat rel" "rel = t - now"
  shows "\<exists>k. 1 \<le> k \<and> k \<le> unat rel \<and> MASKWHEEL w t + w * 256 \<in> set (visited (now + of_nat k))"
proof -
  define lo where "lo = unat t mod 256 ^ w"
  define k where "k = unat rel - lo"
  have lo: "lo < 256 ^ w" "lo \<le> unat t" by (simp_all add: lo_def)
  then have k: "1 \<le> k" "k \<le> unat rel" using assms(2) by (auto simp: k_def)
  have "lo \<le> unat rel" using lo assms(2) by auto
  then have "now + of_nat k = t - of_nat lo" using assms(3) by (simp add: k_def)
  moreover have "unat (t - of_nat lo) = unat t - lo"
  proof -
    have "lo < 2 ^ 32" using lo(2) unsigned_less [of t, where ?'a = nat] by simp
    then have "unat (of_nat lo :: u_int) = lo" by (simp add: unat_of_nat)
    with lo(2) show ?thesis by (simp add: unat_sub word_le_nat_alt)
  qed
  ultimately have u: "unat (now + of_nat k) = unat t div 256 ^ w * 256 ^ w"
    by (simp add: lo_def minus_mod_eq_div_mult)
  then have "MASKWHEEL w (now + of_nat k) = MASKWHEEL w t" using assms(1) by (simp add: MASKWHEEL_eq)
  moreover have "MASKWHEEL w (now + of_nat k) + w * 256 \<in> set (visited (now + of_nat k))"
    by (rule visited_level [OF assms(1)]) (simp add: u)
  ultimately show ?thesis using k by metis
qed

lemma BUCKET_visit:
  assumes "0 < sint rel" "rel = t - now"
  shows "\<exists>k. 1 \<le> k \<and> k \<le> unat rel \<and> BUCKET rel t \<in> set (visited (now + of_nat k))"
proof -
  note s = sint_pos_unat [OF assms(1)]
  have pos: "0 < unat rel" using assms(1) s by linarith
  consider "sint rel \<le> 2 ^ 8" | "2 ^ 8 < sint rel" "sint rel \<le> 2 ^ 16" | "2 ^ 16 < sint rel" "sint rel \<le> 2 ^ 24"
    | "2 ^ 24 < sint rel" by linarith
  then show ?thesis
  proof cases
    case 1
    then show ?thesis using level_visit [of 0 rel t now] pos assms(2) by (simp add: BUCKET_def WHEELBITS_def)
  next
    case 2
    then have "256 ^ 1 < unat rel" using s by simp
    with 2 show ?thesis using level_visit [of 1 rel t now] assms(2) by (simp add: BUCKET_def WHEELBITS_def WHEELSIZE_def)
  next
    case 3
    then have "256 ^ 2 < unat rel" using s by simp
    with 3 show ?thesis using level_visit [of 2 rel t now] assms(2) by (simp add: BUCKET_def WHEELBITS_def WHEELSIZE_def)
  next
    case 4
    then have "256 ^ 3 < unat rel" using s by simp
    with 4 show ?thesis using level_visit [of 3 rel t now] assms(2) by (simp add: BUCKET_def WHEELBITS_def WHEELSIZE_def)
  qed
qed

section \<open>Representation and invariant\<close>

definition heads :: "tq set" where
  "heads = insert Todo (Wheel ` {..<1024})"

definition trep :: "tstate \<Rightarrow> (tq \<Rightarrow> nat list) \<Rightarrow> bool" where
  "trep s Q \<longleftrightarrow> rings (links s) heads Q \<and> (\<forall>e. timeout_pending s e \<longleftrightarrow> on_ring heads Q e)"

text \<open>The ticks left until timeout \<open>e\<close> is due.\<close>

definition left :: "tstate \<Rightarrow> nat \<Rightarrow> u_int" where
  "left s e = to_time (timeouts s e) - ticks s"

text \<open>A waiting timeout is due in the future and its bucket is visited by then.\<close>

definition well_placed :: "tstate \<Rightarrow> nat \<Rightarrow> nat \<Rightarrow> bool" where
  "well_placed s e b \<longleftrightarrow> 0 < sint (left s e)
     \<and> (\<exists>k. 1 \<le> k \<and> k \<le> unat (left s e) \<and> b \<in> set (visited (ticks s + of_nat k)))"

definition placed :: "tstate \<Rightarrow> (tq \<Rightarrow> nat list) \<Rightarrow> bool" where
  "placed s Q \<longleftrightarrow> (\<forall>b < 1024. \<forall>e \<in> set (Q (Wheel b)). well_placed s e b)"

definition tinv :: "tstate \<Rightarrow> bool" where
  "tinv s \<longleftrightarrow> (\<exists>Q. trep s Q \<and> placed s Q)"

lemma heads_mem [simp]: "Todo \<in> heads" "Wheel b \<in> heads \<longleftrightarrow> b < 1024"
  by (auto simp: heads_def)

lemma BUCKET_range: "BUCKET r t < 1024"
  using MASKWHEEL_less [of 0 t] MASKWHEEL_less [of 1 t] MASKWHEEL_less [of 2 t] MASKWHEEL_less [of 3 t]
  by (simp add: BUCKET_def WHEELSIZE_def)

lemma startup_rings:
  assumes "rings m (insert Todo (Wheel ` {..<n})) (\<lambda>_. [])"
  shows "rings (fold (\<lambda>b. CIRCQ_INIT (Head (Wheel b))) [n..<n + k] m) (insert Todo (Wheel ` {..<n + k})) (\<lambda>_. [])"
proof (induction k)
  case (Suc k)
  have "rings (CIRCQ_INIT (Head (Wheel (n + k))) (fold (\<lambda>b. CIRCQ_INIT (Head (Wheel b))) [n..<n + k] m))
      (insert (Wheel (n + k)) (insert Todo (Wheel ` {..<n + k}))) ((\<lambda>_. [])(Wheel (n + k) := []))"
    by (rule rings_INIT [OF Suc]) auto
  moreover have e: "((\<lambda>_. [])(Wheel (n + k) := [])) = (\<lambda>_. [])" by auto
  ultimately show ?case unfolding e by (simp add: lessThan_Suc insert_commute)
qed (use assms in simp)

text \<open>Before \<open>timeout_startup\<close> no timeout is set.\<close>

lemma startup_inv:
  assumes "\<And>e. to_flags (timeouts s e) = 0"
  shows "tinv (timeout_startup s)"
proof -
  have i: "rings (CIRCQ_INIT (Head Todo) (links s)) (insert Todo (Wheel ` {..<0})) (\<lambda>_. [])"
    using rings_INIT [OF rings_none, of Todo "links s" "\<lambda>_. []"] by (simp add: fun_upd_idem)
  have "rings (links (timeout_startup s)) heads (\<lambda>_. [])"
    using startup_rings [OF i, of 1024] by (simp add: timeout_startup_def BUCKETS_def heads_def)
  moreover have "\<not> timeout_pending (timeout_startup s) e" for e
    using assms by (simp add: timeout_pending_def timeout_startup_def)
  ultimately show ?thesis unfolding tinv_def trep_def placed_def on_ring_def by fastforce
qed

section \<open>Effect on the queues\<close>

lemma upd_timeout_sel [simp]:
  "ticks (upd_timeout e f s) = ticks s" "links (upd_timeout e f s) = links s"
  "timeouts (upd_timeout e f s) = (timeouts s)(e := f (timeouts s e))"
  by (simp_all add: upd_timeout_def)

lemma tflags [flag_simps]:
  "TIMEOUT_TRIGGERED AND TIMEOUT_ONQUEUE = 0" "TIMEOUT_ONQUEUE AND TIMEOUT_INITIALIZED = 0"
  "TIMEOUT_TRIGGERED AND TIMEOUT_INITIALIZED = 0" "TIMEOUT_ONQUEUE AND TIMEOUT_TRIGGERED = 0"
  "has_flag TIMEOUT_ONQUEUE TIMEOUT_ONQUEUE" "\<not> has_flag TIMEOUT_TRIGGERED TIMEOUT_ONQUEUE"
  "\<not> has_flag TIMEOUT_ONQUEUE TIMEOUT_INITIALIZED" "\<not> has_flag TIMEOUT_TRIGGERED TIMEOUT_INITIALIZED"
  "\<not> has_flag TIMEOUT_INITIALIZED TIMEOUT_ONQUEUE" "has_flag TIMEOUT_INITIALIZED TIMEOUT_INITIALIZED"
  "has_flag TIMEOUT_TRIGGERED TIMEOUT_TRIGGERED" "\<not> has_flag TIMEOUT_ONQUEUE TIMEOUT_TRIGGERED"
  by (simp_all add: has_flag_def TIMEOUT_ONQUEUE_def TIMEOUT_INITIALIZED_def TIMEOUT_TRIGGERED_def)

text \<open>A tick appends the visited buckets to the worklist.\<close>

lemma hardclock_fold:
  "timeout_hardclock_update s = (let t = ticks s + 1; l = fold (\<lambda>b. CIRCQ_APPEND (Head Todo) (Head (Wheel b))) (visited t) (links s)
     in (s\<lparr>ticks := t, links := l\<rparr>, \<not> CIRCQ_EMPTY (Head Todo) l))"
  by (simp add: timeout_hardclock_update_def visited_def MOVEBUCKET_def WHEELSIZE_def Let_def)

definition tick_queues :: "u_int \<Rightarrow> (tq \<Rightarrow> nat list) \<Rightarrow> tq \<Rightarrow> nat list" where
  "tick_queues t Q h = (case h of Todo \<Rightarrow> Q Todo @ concat (map (\<lambda>b. Q (Wheel b)) (visited t))
     | Wheel b \<Rightarrow> if b \<in> set (visited t) then [] else Q (Wheel b))"

lemma hardclock_rings:
  assumes "rings (links s) heads Q"
  shows "rings (links (fst (timeout_hardclock_update s))) heads (tick_queues (ticks s + 1) Q)"
proof -
  let ?v = "map Wheel (visited (ticks s + 1))"
  let ?R = "\<lambda>h. if h = Todo then Q Todo @ concat (map Q ?v) else if h \<in> set ?v then [] else Q h"
  have "rings (fold (\<lambda>h. CIRCQ_APPEND (Head Todo) (Head h)) ?v (links s)) heads ?R"
  proof (rule cq.rep_app_fold [OF assms])
    show "set ?v \<subseteq> heads" "Todo \<notin> set ?v" by (auto dest: visited_range)
    show "distinct ?v" by (simp add: distinct_map visited_distinct inj_on_def)
  qed simp
  moreover have "?R = tick_queues (ticks s + 1) Q"
    by (auto simp: tick_queues_def fun_eq_iff comp_def split: tq.split)
  ultimately show ?thesis by (simp add: hardclock_fold Let_def fold_map comp_def)
qed

lemma tick_on_ring: "on_ring heads (tick_queues t Q) e \<longleftrightarrow> on_ring heads Q e"
proof
  assume "on_ring heads (tick_queues t Q) e"
  then obtain h where "h \<in> heads" "e \<in> set (tick_queues t Q h)" by (auto simp: on_ring_def)
  then consider "h \<in> heads" "e \<in> set (Q h)" | b where "b \<in> set (visited t)" "e \<in> set (Q (Wheel b))"
    by (cases h) (auto simp: tick_queues_def split: if_splits)
  then show "on_ring heads Q e"
    by cases (use visited_range in \<open>force simp: on_ring_def heads_def\<close>)+
next
  assume "on_ring heads Q e"
  then obtain h where h: "h \<in> heads" "e \<in> set (Q h)" by (auto simp: on_ring_def)
  show "on_ring heads (tick_queues t Q) e"
  proof (cases "\<exists>b \<in> set (visited t). h = Wheel b")
    case True
    with h show ?thesis unfolding on_ring_def by (intro bexI [of _ Todo]) (auto simp: tick_queues_def)
  next
    case False
    with h show ?thesis unfolding on_ring_def by (intro bexI [of _ h]) (auto simp: tick_queues_def split: tq.split)
  qed
qed

lemma unat_pred: "0 < unat (r :: u_int) \<Longrightarrow> unat (r - 1) = unat r - 1"
  by (metis unat_gt_0 unat_pred_less word_gt_0)

lemma left_pos_iff: "0 < sint (r :: u_int) \<longleftrightarrow> 0 < unat r \<and> unat r < 2 ^ 31"
proof -
  define n where "n = unat r"
  have "n < 2 ^ 32" using unat_u_int_less [of r] by (simp add: n_def)
  then show ?thesis unfolding sint_u_int n_def [symmetric] by (auto split: if_splits)
qed

lemma sint_nonneg_iff: "0 \<le> sint (r :: u_int) \<longleftrightarrow> unat r < 2 ^ 31"
proof -
  define n where "n = unat r"
  have "n < 2 ^ 32" using unat_u_int_less [of r] by (simp add: n_def)
  then show ?thesis unfolding sint_u_int n_def [symmetric] by auto
qed

section \<open>Every operation keeps the invariant\<close>

lemma tick_placed:
  assumes "placed s Q"
  shows "placed (fst (timeout_hardclock_update s)) (tick_queues (ticks s + 1) Q)"
  unfolding placed_def
proof (intro allI impI ballI)
  fix b e assume b: "b < 1024" and e: "e \<in> set (tick_queues (ticks s + 1) Q (Wheel b))"
  let ?s = "fst (timeout_hardclock_update s)"
  have nv: "b \<notin> set (visited (ticks s + 1))" and q: "e \<in> set (Q (Wheel b))"
    using e by (auto simp: tick_queues_def split: if_splits)
  obtain k where k: "0 < sint (left s e)" "1 \<le> k" "k \<le> unat (left s e)" "b \<in> set (visited (ticks s + of_nat k))"
    using assms b q by (auto simp: placed_def well_placed_def)
  have "k \<noteq> 1" using k(4) nv by auto
  then have k1: "1 \<le> k - 1" "(of_nat k :: u_int) = of_nat (k - 1) + 1" using k(2) by (auto simp: of_nat_diff)
  have l: "left ?s e = left s e - 1" "ticks ?s = ticks s + 1"
    by (simp_all add: left_def hardclock_fold Let_def)
  have u: "unat (left s e - 1) = unat (left s e) - 1" using k by (intro unat_pred) auto
  have "b \<in> set (visited (ticks s + 1 + of_nat (k - 1)))" using k(4) k1(2) by (simp add: ac_simps)
  moreover have "0 < sint (left s e - 1)" using k k1(1) by (auto simp: left_pos_iff u)
  ultimately show "well_placed ?s e b"
    unfolding well_placed_def l using k k1(1) u by (intro conjI exI [of _ "k - 1"]) auto
qed

lemma hardclock_inv:
  assumes "tinv s"
  shows "tinv (fst (timeout_hardclock_update s))"
proof -
  from assms obtain Q where Q: "trep s Q" "placed s Q" by (auto simp: tinv_def)
  let ?s = "fst (timeout_hardclock_update s)"
  have "timeouts ?s = timeouts s" by (simp add: hardclock_fold Let_def)
  then have "trep ?s (tick_queues (ticks s + 1) Q)"
    using Q(1) hardclock_rings [of s Q] by (simp add: trep_def timeout_pending_def tick_on_ring)
  with tick_placed [OF Q(2)] show ?thesis by (auto simp: tinv_def)
qed

lemma well_placed_cong:
  "ticks s' = ticks s \<Longrightarrow> to_time (timeouts s' e) = to_time (timeouts s e) \<Longrightarrow> well_placed s' e b = well_placed s e b"
  by (simp add: well_placed_def left_def)

lemma placed_subset:
  assumes "placed s Q" "ticks s' = ticks s"
    and "\<And>b e. b < 1024 \<Longrightarrow> e \<in> set (Q' (Wheel b)) \<Longrightarrow> e \<in> set (Q (Wheel b)) \<and> to_time (timeouts s' e) = to_time (timeouts s e)"
  shows "placed s' Q'"
  using assms well_placed_cong [of s' s] by (fastforce simp: placed_def)

lemma trepD:
  assumes "trep s Q"
  shows "rings (links s) heads Q" "timeout_pending s e \<longleftrightarrow> on_ring heads Q e"
  using assms by (auto simp: trep_def)

text \<open>The three outcomes of \<open>timeout_add\<close> that are not a panic.\<close>

lemma timeout_add_cases:
  assumes "timeout_add e n s = Return s' ()"
  obtains (earlier) "timeout_pending s e" "sint n < sint (left s e)"
      "links s' = CIRCQ_INSERT (Elem e) (Head Todo) (CIRCQ_REMOVE (Elem e) (links s))"
    | (later) "timeout_pending s e" "sint (left s e) \<le> sint n" "links s' = links s"
    | (fresh) "\<not> timeout_pending s e" "links s' = CIRCQ_INSERT (Elem e) (Head Todo) (links s)"
  using assms by (auto simp: timeout_add_def Let_def timeout_pending_def left_def flag_simps split: if_splits)

lemma timeout_add_fields:
  assumes "timeout_add e n s = Return s' ()"
  shows "ticks s' = ticks s" "left s' e = n" "0 \<le> sint n" "timeout_pending s' e" "timeout_initialized s' e"
    "to_func (timeouts s' e) = to_func (timeouts s e)" "to_arg (timeouts s' e) = to_arg (timeouts s e)"
    "\<not> timeout_triggered s' e" "e' \<noteq> e \<Longrightarrow> timeouts s' e' = timeouts s e'"
  using assms
  by (auto simp: timeout_add_def Let_def timeout_pending_def timeout_initialized_def timeout_triggered_def left_def
      flag_simps split: if_splits)

lemma pending_other: "timeouts s' e = timeouts s e \<Longrightarrow> timeout_pending s' e = timeout_pending s e"
  by (simp add: timeout_pending_def)

lemma on_ring_insert: "k \<in> H \<Longrightarrow> on_ring H (Q(k := Q k @ [e])) x \<longleftrightarrow> on_ring H Q x \<or> x = e"
proof -
  assume k: "k \<in> H"
  have mem: "x \<in> set ((Q(k := Q k @ [e])) h) \<longleftrightarrow> x \<in> set (Q h) \<or> h = k \<and> x = e" for h by auto
  show ?thesis unfolding on_ring_def mem using k by blast
qed

lemma on_ring_remove:
  assumes "rings m H Q" "h \<in> H" "e \<in> set (Q h)"
  shows "on_ring H (Q(h := remove1 e (Q h))) x \<longleftrightarrow> on_ring H Q x \<and> x \<noteq> e"
proof (cases "x = e")
  case True
  then show ?thesis using cq.not_on_ring_removed [OF assms] by simp
next
  case False
  then have "x \<in> set ((Q(h := remove1 e (Q h))) k) \<longleftrightarrow> x \<in> set (Q k)" for k by simp
  with False show ?thesis unfolding on_ring_def by simp
qed

definition requeue :: "nat \<Rightarrow> tq \<Rightarrow> tq \<Rightarrow> (tq \<Rightarrow> nat list) \<Rightarrow> tq \<Rightarrow> nat list" where
  "requeue e h k Q = (let Q' = Q(h := remove1 e (Q h)) in Q'(k := Q' k @ [e]))"

lemma requeue_on_ring:
  assumes "e \<in> set (Q h)" "h \<in> H" "k \<in> H"
  shows "on_ring H (requeue e h k Q) e' \<longleftrightarrow> on_ring H Q e'"
proof (cases "e' = e")
  case True
  have "on_ring H (requeue e h k Q) e"
    unfolding on_ring_def requeue_def Let_def using assms(3) by (intro bexI [of _ k]) simp_all
  moreover have "on_ring H Q e" using assms(1,2) by (auto simp: on_ring_def)
  ultimately show ?thesis using True by simp
next
  case False
  then have "e' \<in> set (requeue e h k Q x) \<longleftrightarrow> e' \<in> set (Q x)" for x
    by (auto simp: requeue_def Let_def)
  then show ?thesis by (simp add: on_ring_def)
qed

lemma add_queues:
  assumes Q: "trep s Q" "placed s Q" and r: "timeout_add e n s = Return s' ()"
  shows "\<exists>Q'. trep s' Q' \<and> placed s' Q' \<and> set (Q' Todo) \<subseteq> insert e (set (Q Todo))"
proof -
  note R = trepD(1) [OF Q(1)] and P = trepD(2) [OF Q(1)]
  note F = timeout_add_fields [OF r]
  have pend: "timeout_pending s' x \<longleftrightarrow> timeout_pending s x \<or> x = e" for x
    using F(4) pending_other [OF F(9)] by (cases "x = e") simp_all
  from r show ?thesis
  proof (cases rule: timeout_add_cases)
    case earlier
    then obtain h where h: "h \<in> heads" "e \<in> set (Q h)" using P [of e] by (auto simp: on_ring_def)
    let ?Q = "requeue e h Todo Q"
    have "rings (links s') heads ?Q"
      unfolding earlier(3) requeue_def Let_def by (rule cq.rep_move [OF R h]) simp_all
    then have "trep s' ?Q"
      using pend P earlier(1) requeue_on_ring [of e Q h heads Todo] h by (auto simp: trep_def)
    moreover have "placed s' ?Q"
    proof (rule placed_subset [OF Q(2) F(1)])
      fix b x assume b: "b < 1024" and "x \<in> set (?Q (Wheel b))"
      then have x: "x \<in> set ((Q(h := remove1 e (Q h))) (Wheel b))" by (simp add: requeue_def Let_def)
      have "x \<noteq> e" using x b cq.not_on_ring_removed [OF R h] by (auto simp: on_ring_def heads_def)
      then show "x \<in> set (Q (Wheel b)) \<and> to_time (timeouts s' x) = to_time (timeouts s x)"
        using x F(9) by (auto split: if_splits dest: notin_set_remove1)
    qed
    moreover have "set (?Q Todo) \<subseteq> insert e (set (Q Todo))"
      using set_remove1_subset [of e "Q h"] by (auto simp: requeue_def Let_def)
    ultimately show ?thesis by blast
  next
    case later
    have "trep s' Q" using Q(1) later pend by (auto simp: trep_def)
    moreover have "placed s' Q"
      unfolding placed_def
    proof (intro allI impI ballI)
      fix b x assume b: "b < 1024" "x \<in> set (Q (Wheel b))"
      then have w: "well_placed s x b" using Q(2) by (simp add: placed_def)
      show "well_placed s' x b"
      proof (cases "x = e")
        case True
        have "0 < sint (left s e)" using w True by (simp add: well_placed_def)
        then have "unat (left s e) \<le> unat n" using later(2) by (simp add: sint_pos_unat nat_mono)
        with w True show ?thesis using F(1,2) later(2) by (force simp: well_placed_def)
      next
        case False
        then show ?thesis using w well_placed_cong [of s' s x b] F(1,9) by simp
      qed
    qed
    ultimately show ?thesis by blast
  next
    case fresh
    let ?Q = "Q(Todo := Q Todo @ [e])"
    have nr: "\<not> on_ring heads Q e" using fresh(1) P by simp
    then have "rings (links s') heads ?Q" unfolding fresh(2) by (intro rings_INSERT [OF R]) simp
    then have "trep s' ?Q" using P pend by (simp add: trep_def on_ring_insert)
    moreover have "placed s' ?Q"
    proof (rule placed_subset [OF Q(2) F(1)])
      fix b x assume "b < 1024" "x \<in> set (?Q (Wheel b))"
      moreover from this have "x \<noteq> e" using nr by (auto simp: on_ring_def heads_def)
      ultimately show "x \<in> set (Q (Wheel b)) \<and> to_time (timeouts s' x) = to_time (timeouts s x)"
        using F(9) by auto
    qed
    moreover have "set (?Q Todo) \<subseteq> insert e (set (Q Todo))" by simp
    ultimately show ?thesis by blast
  qed
qed

lemma add_inv: "tinv s \<Longrightarrow> timeout_add e n s = Return s' () \<Longrightarrow> tinv s'"
  using add_queues unfolding tinv_def by metis

lemma del_inv:
  assumes inv: "tinv s"
  shows "tinv (fst (timeout_del e s))"
proof -
  from inv obtain Q where Q: "trep s Q" "placed s Q" by (auto simp: tinv_def)
  note R = trepD(1) [OF Q(1)] and P = trepD(2) [OF Q(1)]
  let ?s = "fst (timeout_del e s)"
  have F: "ticks ?s = ticks s" "to_time (timeouts ?s x) = to_time (timeouts s x)" for x
    by (simp_all add: timeout_del_def Let_def)
  have pend: "timeout_pending ?s x \<longleftrightarrow> timeout_pending s x \<and> x \<noteq> e" for x
    by (simp add: timeout_del_def Let_def timeout_pending_def flag_simps)
  show ?thesis
  proof (cases "timeout_pending s e")
    case True
    then obtain h where h: "h \<in> heads" "e \<in> set (Q h)" using P [of e] by (auto simp: on_ring_def)
    let ?Q = "Q(h := remove1 e (Q h))"
    have "rings (links ?s) heads ?Q"
      using True rings_REMOVE [OF R h] by (simp add: timeout_del_def Let_def)
    then have "trep ?s ?Q" using pend P on_ring_remove [OF R h] by (simp add: trep_def)
    moreover have "placed ?s ?Q"
      by (rule placed_subset [OF Q(2) F(1)]) (use F(2) set_remove1_subset in \<open>fastforce split: if_splits\<close>)
    ultimately show ?thesis by (auto simp: tinv_def)
  next
    case False
    then have "links ?s = links s" by (simp add: timeout_del_def Let_def)
    moreover have "timeout_pending ?s x = timeout_pending s x" for x using pend False by auto
    ultimately have "trep ?s Q" using Q(1) by (simp add: trep_def)
    moreover have "placed ?s Q" by (rule placed_subset [OF Q(2) F(1)]) (use F(2) in auto)
    ultimately show ?thesis by (auto simp: tinv_def)
  qed
qed

lemma set_inv:
  assumes inv: "tinv s" and "\<not> timeout_pending s e"
  shows "tinv (timeout_set e f a s)"
proof -
  from inv obtain Q where Q: "trep s Q" "placed s Q" by (auto simp: tinv_def)
  let ?s = "timeout_set e f a s"
  have "timeout_pending ?s x = timeout_pending s x" for x
    using assms(2) by (simp add: timeout_set_def timeout_pending_def flag_simps)
  then have "trep ?s Q" using Q(1) by (simp add: trep_def timeout_set_def)
  moreover have "placed ?s Q" by (rule placed_subset [OF Q(2)]) (simp_all add: timeout_set_def)
  ultimately show ?thesis by (auto simp: tinv_def)
qed

text \<open>The first timeout of the worklist.\<close>

lemma todo_first:
  assumes "trep s Q"
  shows "CIRCQ_EMPTY (Head Todo) (links s) \<longleftrightarrow> Q Todo = []"
    and "Q Todo = e # es \<Longrightarrow> CIRCQ_FIRST (Head Todo) (links s) = Elem e"
  using rings_empty [OF trepD(1) [OF assms], of Todo] rings_first [OF trepD(1) [OF assms], of Todo] by simp_all

lemma soft_fields:
  assumes "CIRCQ_FIRST (Head Todo) (links s) = Elem e" "softclock_body s = (s', c)"
  shows "ticks s' = ticks s" "to_time (timeouts s' x) = to_time (timeouts s x)"
    "to_func (timeouts s' x) = to_func (timeouts s x)" "to_arg (timeouts s' x) = to_arg (timeouts s x)"
    "c = (if 0 < sint (left s e) then None else Some (to_func (timeouts s e), to_arg (timeouts s e)))"
    "timeout_pending s' x \<longleftrightarrow> timeout_pending s x \<and> (x = e \<longrightarrow> 0 < sint (left s e))"
    "timeout_initialized s' x = timeout_initialized s x"
    "links s' = (if 0 < sint (left s e) then CIRCQ_INSERT (Elem e) (Head (Wheel (BUCKET (left s e) (to_time (timeouts s e)))))
       (CIRCQ_REMOVE (Elem e) (links s)) else CIRCQ_REMOVE (Elem e) (links s))"
  using assms
  by (auto simp: softclock_body_def Let_def left_def timeout_pending_def timeout_initialized_def flag_simps split: if_splits)

lemma soft_queues:
  assumes Q: "trep s Q" "placed s Q" and first: "Q Todo = e # es" and r: "softclock_body s = (s', c)"
  defines "Q' \<equiv> (if 0 < sint (left s e) then requeue e Todo (Wheel (BUCKET (left s e) (to_time (timeouts s e)))) Q
    else Q(Todo := es))"
  shows "trep s' Q'" "placed s' Q'"
proof -
  note R = trepD(1) [OF Q(1)] and P = trepD(2) [OF Q(1)]
  note F = soft_fields [OF todo_first(2) [OF Q(1) first] r]
  have e: "e \<in> set (Q Todo)" using first by simp
  have rm: "remove1 e (Q Todo) = es" using first by simp
  have pe: "timeout_pending s e" using P e by (auto simp: on_ring_def heads_def)
  let ?b = "BUCKET (left s e) (to_time (timeouts s e))"
  have b: "Wheel ?b \<in> heads" by (simp add: BUCKET_range)
  show "trep s' Q'"
  proof (cases "0 < sint (left s e)")
    case True
    have "rings (links s') heads Q'"
      using cq.rep_move [OF R _ e b refl] True by (simp add: F(8) Q'_def requeue_def Let_def)
    moreover have "on_ring heads Q' x \<longleftrightarrow> on_ring heads Q x" for x
      using True requeue_on_ring [of e Q Todo heads, OF e _ b] by (simp add: Q'_def)
    ultimately show ?thesis using F(6) P True by (auto simp: trep_def)
  next
    case False
    have "rings (links s') heads Q'" using rings_REMOVE [OF R _ e] False by (simp add: F(8) Q'_def rm)
    moreover have "on_ring heads Q' x \<longleftrightarrow> on_ring heads Q x \<and> x \<noteq> e" for x
      using on_ring_remove [OF R _ e, of x] False by (simp add: Q'_def rm)
    ultimately show ?thesis using F(6) P False by (auto simp: trep_def)
  qed
  have cong: "well_placed s' x k = well_placed s x k" for x k by (rule well_placed_cong) (simp_all add: F(1,2))
  show "placed s' Q'"
    unfolding placed_def
  proof (intro allI impI ballI)
    fix k x assume k: "k < 1024" "x \<in> set (Q' (Wheel k))"
    show "well_placed s' x k"
    proof (cases "x \<in> set (Q (Wheel k))")
      case True
      then show ?thesis using k Q(2) cong by (auto simp: placed_def)
    next
      case False
      then have "x = e" "k = ?b" "0 < sint (left s e)"
        using k by (auto simp: Q'_def requeue_def Let_def split: if_splits)
      then show ?thesis
        using BUCKET_visit [of "left s e" "to_time (timeouts s e)" "ticks s"] cong by (simp add: well_placed_def left_def)
    qed
  qed
qed

lemma soft_inv:
  assumes "tinv s" "\<not> CIRCQ_EMPTY (Head Todo) (links s)" "softclock_body s = (s', c)"
  shows "tinv s'"
proof -
  from assms(1) obtain Q where Q: "trep s Q" "placed s Q" by (auto simp: tinv_def)
  with assms(2) obtain e es where "Q Todo = e # es" by (cases "Q Todo") (auto simp: todo_first)
  from soft_queues [OF Q this assms(3)] show ?thesis by (auto simp: tinv_def)
qed

end
