(* ===== verification/Runs.thy ===== *)
theory Runs
  imports Prelude
begin

text \<open>
  Runs of a labelled step relation and the contract of an invariant: the interface through which
  the components that are state machines state what holds in every reachable state.
\<close>

primrec lrun :: "('s \<Rightarrow> 'l \<Rightarrow> 's \<Rightarrow> bool) \<Rightarrow> 's \<Rightarrow> 'l list \<Rightarrow> 's \<Rightarrow> bool" where
  "lrun step s [] s' \<longleftrightarrow> s' = s"
| "lrun step s (l # ls) s' \<longleftrightarrow> (\<exists>u. step s l u \<and> lrun step u ls s')"

lemma lrun_append: "lrun step s (ls @ ks) s' \<longleftrightarrow> (\<exists>u. lrun step s ls u \<and> lrun step u ks s')"
  by (induction ls arbitrary: s) auto

lemma lrun_snoc: "lrun step s (ls @ [l]) s' \<longleftrightarrow> (\<exists>u. lrun step s ls u \<and> step u l s')"
  by (simp add: lrun_append)

locale inv_system =
  fixes step :: "'s \<Rightarrow> 'l \<Rightarrow> 's \<Rightarrow> bool" and inv :: "'s \<Rightarrow> bool"
  assumes step_inv: "inv s \<Longrightarrow> step s l s' \<Longrightarrow> inv s'"
begin

lemma run_inv: "inv s \<Longrightarrow> lrun step s ls s' \<Longrightarrow> inv s'"
  by (induction ls arbitrary: s) (auto dest: step_inv)

text \<open>A fact that every step keeps under the invariant holds along a run.\<close>

lemma run_keeps:
  assumes "inv s" "lrun step s ls s'" "P s" "\<And>u l u'. inv u \<Longrightarrow> l \<in> set ls \<Longrightarrow> step u l u' \<Longrightarrow> P u \<Longrightarrow> P u'"
  shows "P s'"
  using assms by (induction ls arbitrary: s) (auto, metis step_inv)

end

text \<open>
  A system with a counter that grows by at most one per step: the invariant holds as long as the
  number of steps keeps the counter below its bound.
\<close>

locale budget_system =
  fixes step :: "'s \<Rightarrow> 'l \<Rightarrow> 's \<Rightarrow> bool" and inv :: "'s \<Rightarrow> bool" and cost :: "'s \<Rightarrow> nat" and bound :: nat
  assumes budget_inv: "inv s \<Longrightarrow> Suc (cost s) < bound \<Longrightarrow> step s l s' \<Longrightarrow> inv s'"
    and budget_cost: "inv s \<Longrightarrow> step s l s' \<Longrightarrow> cost s' \<le> Suc (cost s)"
begin

lemma budget_run:
  assumes "inv s" "lrun step s ls s'" "cost s + length ls < bound"
  shows "inv s' \<and> cost s' \<le> cost s + length ls"
  using assms
proof (induction ls arbitrary: s)
  case (Cons l ls)
  then obtain u where u: "step s l u" "lrun step u ls s'" by auto
  have "inv u" using budget_inv [OF Cons.prems(1) _ u(1)] Cons.prems(3) by simp
  moreover have "cost u \<le> Suc (cost s)" by (rule budget_cost [OF Cons.prems(1) u(1)])
  ultimately show ?case using Cons.IH [OF _ u(2)] Cons.prems(3) by fastforce
qed simp

end

end
