(* ===== verification/Timeout_Steps.thy ===== *)
theory Timeout_Steps
  imports Timeout_Wheel Runs
begin

text \<open>
  Timeouts under any interleaving: callers, ticks of the clock and iterations of \<open>softclock\<close> in any
  order. A timeout runs never before its time, at most once per arming, and not later than the
  first time the worklist is drained after it is due.
\<close>

section \<open>Steps\<close>

text \<open>A timeout is set only while it is not pending: setting it would lose the queue flag.\<close>

datatype tlabel = TSet nat nat nat | TAdd nat u_int | TDel nat bool | TTick bool | TSoft nat "(nat \<times> nat) option"

inductive t_step :: "tstate \<Rightarrow> tlabel \<Rightarrow> tstate \<Rightarrow> bool" where
  set: "\<not> timeout_pending s e \<Longrightarrow> t_step s (TSet e f a) (timeout_set e f a s)"
| add: "timeout_add e n s = Return s' () \<Longrightarrow> t_step s (TAdd e n) s'"
| del: "timeout_del e s = (s', r) \<Longrightarrow> t_step s (TDel e r) s'"
| tick: "timeout_hardclock_update s = (s', r) \<Longrightarrow> t_step s (TTick r) s'"
| soft: "\<not> CIRCQ_EMPTY (Head Todo) (links s) \<Longrightarrow> CIRCQ_FIRST (Head Todo) (links s) = Elem e
    \<Longrightarrow> softclock_body s = (s', c) \<Longrightarrow> t_step s (TSoft e c) s'"

inductive_cases t_step_setE: "t_step s (TSet e f a) s'"
inductive_cases t_step_addE: "t_step s (TAdd e n) s'"
inductive_cases t_step_delE: "t_step s (TDel e r) s'"
inductive_cases t_step_tickE: "t_step s (TTick r) s'"
inductive_cases t_step_softE: "t_step s (TSoft e c) s'"

lemmas t_stepE = t_step_setE t_step_addE t_step_delE t_step_tickE t_step_softE

interpretation tw: inv_system t_step tinv
proof
  fix s l s' assume i: "tinv s" and "t_step s l s'"
  from this(2) show "tinv s'"
  proof cases
    case (set e f a)
    with i set_inv show ?thesis by simp
  next
    case (add e n)
    with i add_inv show ?thesis by blast
  next
    case (del e r)
    with del_inv [OF i, of e] show ?thesis by simp
  next
    case (tick r)
    with hardclock_inv [OF i] show ?thesis by simp
  next
    case (soft e c)
    with soft_inv [OF i] show ?thesis by blast
  qed
qed

section \<open>One armed timeout\<close>

fun touches :: "nat \<Rightarrow> tlabel \<Rightarrow> bool" where
  "touches e (TSet x f a) \<longleftrightarrow> x = e"
| "touches e (TAdd x n) \<longleftrightarrow> x = e"
| "touches e (TDel x r) \<longleftrightarrow> x = e"
| "touches e _ \<longleftrightarrow> False"

fun is_tick :: "tlabel \<Rightarrow> bool" where
  "is_tick (TTick r) \<longleftrightarrow> True"
| "is_tick _ \<longleftrightarrow> False"

fun fires :: "nat \<Rightarrow> tlabel \<Rightarrow> bool" where
  "fires e (TSoft x c) \<longleftrightarrow> x = e \<and> c \<noteq> None"
| "fires e _ \<longleftrightarrow> False"

definition nticks :: "tlabel list \<Rightarrow> nat" where
  "nticks ls = length (filter is_tick ls)"

definition nfires :: "nat \<Rightarrow> tlabel list \<Rightarrow> nat" where
  "nfires e ls = length (filter (fires e) ls)"

text \<open>What one step does to a timeout it does not touch.\<close>

lemma step_untouched:
  assumes "t_step s l s'" "\<not> touches e l"
  shows "to_time (timeouts s' e) = to_time (timeouts s e)" (is ?time)
    "to_func (timeouts s' e) = to_func (timeouts s e)" (is ?func)
    "to_arg (timeouts s' e) = to_arg (timeouts s e)" (is ?arg)
    "ticks s' = ticks s + (if is_tick l then 1 else 0)" (is ?ticks)
    "timeout_pending s' e \<longleftrightarrow> timeout_pending s e \<and> \<not> fires e l" (is ?pend)
    "fires e l \<Longrightarrow> \<not> 0 < sint (left s e)"
    "fires e l \<Longrightarrow> l = TSoft e (Some (to_func (timeouts s e), to_arg (timeouts s e)))"
proof -
  have "?time \<and> ?func \<and> ?arg \<and> ?ticks \<and> ?pend \<and> (fires e l \<longrightarrow> \<not> 0 < sint (left s e)
      \<and> l = TSoft e (Some (to_func (timeouts s e), to_arg (timeouts s e))))"
    using assms(1)
  proof cases
    case (set x f a)
    with assms(2) show ?thesis by (simp add: timeout_set_def timeout_pending_def)
  next
    case (add x n)
    with assms(2) have "x \<noteq> e" by simp
    with timeout_add_fields(1) [OF add(2)] timeout_add_fields(9) [OF add(2), of e] add(1) show ?thesis
      by (simp add: timeout_pending_def)
  next
    case (del x r)
    with assms(2) have "x \<noteq> e" by simp
    with del show ?thesis by (auto simp: timeout_del_def Let_def timeout_pending_def split: if_splits)
  next
    case (tick r)
    then have "s' = fst (timeout_hardclock_update s)" by simp
    with tick(1) show ?thesis by (simp add: hardclock_fold Let_def timeout_pending_def)
  next
    case (soft x c)
    note F = soft_fields [OF soft(3,4)]
    show ?thesis using F(1-5) F(6) [of e] soft(1) by (auto split: if_splits)
  qed
  then show ?time ?func ?arg ?ticks ?pend "fires e l \<Longrightarrow> \<not> 0 < sint (left s e)"
    "fires e l \<Longrightarrow> l = TSoft e (Some (to_func (timeouts s e), to_arg (timeouts s e)))" by auto
qed

lemma fires_pending:
  assumes "tinv s" "t_step s l s'" "fires e l"
  shows "timeout_pending s e"
proof -
  from assms(1) obtain Q where Q: "trep s Q" by (auto simp: tinv_def)
  obtain c where c: "l = TSoft e c" using assms(3) by (cases l) auto
  with assms(2) have t: "\<not> CIRCQ_EMPTY (Head Todo) (links s)" "CIRCQ_FIRST (Head Todo) (links s) = Elem e"
    by (auto elim: t_step_softE)
  with todo_first(1) [OF Q] obtain x xs where q: "Q Todo = x # xs" by (cases "Q Todo") auto
  with todo_first(2) [OF Q q] t(2) have "e \<in> set (Q Todo)" by simp
  then show ?thesis using trepD(2) [OF Q, of e] by (auto simp: on_ring_def heads_def)
qed

lemma run_untouched:
  assumes "lrun t_step s ls s'" "\<forall>l \<in> set ls. \<not> touches e l" "timeout_pending s e" "tinv s"
  shows "to_time (timeouts s' e) = to_time (timeouts s e) \<and> ticks s' = ticks s + of_nat (nticks ls)
    \<and> nfires e ls = (if timeout_pending s' e then 0 else 1)"
  using assms(1,2)
proof (induction ls arbitrary: s' rule: rev_induct)
  case Nil
  with assms(3) show ?case by (simp add: nticks_def nfires_def)
next
  case (snoc l ls)
  from snoc.prems(1) obtain u where u: "lrun t_step s ls u" "t_step u l s'" by (auto simp: lrun_snoc)
  have n: "\<not> touches e l" using snoc.prems(2) by simp
  have ih: "to_time (timeouts u e) = to_time (timeouts s e)" "ticks u = ticks s + of_nat (nticks ls)"
    "nfires e ls = (if timeout_pending u e then 0 else 1)"
    using snoc.IH [OF u(1)] snoc.prems(2) by auto
  have "timeout_pending u e" if "fires e l" by (rule fires_pending [OF tw.run_inv [OF assms(4) u(1)] u(2) that])
  with ih step_untouched [OF u(2) n] show ?case by (auto simp: nticks_def nfires_def)
qed

text \<open>The time left after some ticks, before and after the timeout is due.\<close>

lemma left_after:
  assumes "unat n < 2 ^ 31" "j < 2 ^ 31"
  shows "0 < sint (n - of_nat j :: u_int) \<longleftrightarrow> j < unat n"
proof -
  have j: "unat (of_nat j :: u_int) = j" using assms(2) by (simp add: unat_of_nat)
  show ?thesis
  proof (cases "j \<le> unat n")
    case True
    then have "unat (n - of_nat j) = unat n - j" using j by (simp add: unat_sub word_le_nat_alt)
    with assms show ?thesis by (auto simp: left_pos_iff)
  next
    case False
    then have "unat (n - of_nat j) = 2 ^ 32 + unat n - j"
      using j unat_sub_if' [of n "of_nat j"] by simp
    with False assms show ?thesis by (simp add: left_pos_iff)
  qed
qed

lemma not_early:
  assumes "lrun t_step s ls s'" "\<forall>l \<in> set ls. \<not> touches e l" "timeout_pending s e" "tinv s"
    and "nticks ls < unat (left s e)" "unat (left s e) < 2 ^ 31"
  shows "nfires e ls = 0"
  using assms(1,2,5)
proof (induction ls arbitrary: s' rule: rev_induct)
  case Nil
  then show ?case by (simp add: nfires_def)
next
  case (snoc l ls)
  from snoc.prems(1) obtain u where u: "lrun t_step s ls u" "t_step u l s'" by (auto simp: lrun_snoc)
  have j: "nticks ls < unat (left s e)" using snoc.prems(3) by (simp add: nticks_def split: if_splits)
  have t: "to_time (timeouts u e) = to_time (timeouts s e)" "ticks u = ticks s + of_nat (nticks ls)"
    using run_untouched [OF u(1) _ assms(3,4)] snoc.prems(2) by auto
  then have "left u e = left s e - of_nat (nticks ls)" by (simp add: left_def)
  then have "0 < sint (left u e)" using left_after [OF assms(6), of "nticks ls"] j assms(6) by simp
  then have "\<not> fires e l" using step_untouched(6) [OF u(2)] snoc.prems(2) by auto
  then show ?case using snoc.IH [OF u(1)] snoc.prems(2) j by (simp add: nfires_def)
qed

lemma pending_waits:
  assumes "tinv s" "CIRCQ_EMPTY (Head Todo) (links s)" "timeout_pending s e"
  shows "0 < sint (left s e)"
proof -
  from assms(1) obtain Q where Q: "trep s Q" "placed s Q" by (auto simp: tinv_def)
  from assms(3) trepD(2) [OF Q(1)] obtain h where h: "h \<in> heads" "e \<in> set (Q h)" by (auto simp: on_ring_def)
  have "Q Todo = []" using todo_first(1) [OF Q(1)] assms(2) by simp
  with h obtain b where "b < 1024" "e \<in> set (Q (Wheel b))" by (cases h) auto
  with Q(2) show ?thesis by (auto simp: placed_def well_placed_def)
qed

section \<open>Properties\<close>

text \<open>The state of a kernel at boot: the clock and the links are arbitrary, no timeout is set.\<close>

definition boot :: "tstate \<Rightarrow> bool" where
  "boot s \<longleftrightarrow> (\<forall>e. to_flags (timeouts s e) = 0)"

lemma boot_inv: "boot s \<Longrightarrow> tinv (timeout_startup s)"
  by (rule startup_inv) (simp add: boot_def)

text \<open>
  C25. After any interleaving of calls, ticks and softclock iterations since \<open>timeout_startup\<close>, the
  queues are disjoint rings that hold exactly the timeouts flagged as queued, every timeout in a
  bucket is due in the future and its bucket is moved to the worklist no later than it is due; when
  the worklist is empty, no pending timeout is due.
\<close>

theorem timeout_reachable_inv:
  assumes "boot s0" "lrun t_step (timeout_startup s0) ls s"
  shows "tinv s \<and> (CIRCQ_EMPTY (Head Todo) (links s) \<longrightarrow> (\<forall>e. timeout_pending s e \<longrightarrow> 0 < sint (left s e)))"
  using tw.run_inv [OF boot_inv [OF assms(1)] assms(2)] pending_waits by auto

text \<open>
  C24. A timeout added with \<open>n\<close> ticks and not touched again has not run as long as fewer than \<open>n\<close> ticks
  have passed, whatever happens meanwhile; once \<open>n\<close> ticks have passed and the worklist is empty it has
  run exactly once. The clock may wrap around.
\<close>

theorem timeout_exact:
  assumes "tinv s" "timeout_add e n s = Return s1 ()" "lrun t_step s1 ls s2"
    and "\<forall>l \<in> set ls. \<not> touches e l" "nticks ls < 2 ^ 31"
  shows "(nticks ls < unat n \<longrightarrow> nfires e ls = 0 \<and> timeout_pending s2 e)
    \<and> (unat n \<le> nticks ls \<and> CIRCQ_EMPTY (Head Todo) (links s2) \<longrightarrow> nfires e ls = 1 \<and> \<not> timeout_pending s2 e)
    \<and> nfires e ls \<le> 1"
proof -
  note F = timeout_add_fields [OF assms(2)]
  have inv: "tinv s1" "tinv s2" using add_inv [OF assms(1,2)] tw.run_inv assms(3) by auto
  have n: "unat n < 2 ^ 31" using F(3) by (simp add: sint_nonneg_iff)
  note U = run_untouched [OF assms(3,4) F(4) inv(1)]
  have l: "left s2 e = n - of_nat (nticks ls)" using U F(2) by (auto simp: left_def)
  have "nfires e ls = 0" if "nticks ls < unat n"
    using not_early [OF assms(3,4) F(4) inv(1)] that F(2) n by simp
  moreover have "\<not> timeout_pending s2 e" if "unat n \<le> nticks ls" "CIRCQ_EMPTY (Head Todo) (links s2)"
    using pending_waits [OF inv(2) that(2), of e] left_after [OF n assms(5)] l that(1) by auto
  ultimately show ?thesis using U by (auto split: if_splits)
qed

definition boot_state :: tstate where
  "boot_state = \<lparr>ticks = 0, links = \<lparr>cq_next = \<lambda>n. n, cq_prev = \<lambda>n. n\<rparr>,
     timeouts = \<lambda>_. \<lparr>to_func = 0, to_arg = 0, to_time = 0, to_flags = 0\<rparr>\<rparr>"

lemma boot_state: "boot boot_state"
  by (simp add: boot_def boot_state_def)

text \<open>A first timeout, set and added right after the start.\<close>

definition first_set :: tstate where
  "first_set = timeout_set 0 1 2 (timeout_startup boot_state)"

lemma first_set: "tinv first_set" "timeout_initialized first_set e = (e = 0)" "\<not> timeout_pending first_set e"
proof -
  have p: "\<not> timeout_pending (timeout_startup boot_state) x" for x
    by (simp add: timeout_pending_def timeout_startup_def boot_state_def)
  then show "tinv first_set" unfolding first_set_def by (rule set_inv [OF boot_inv [OF boot_state]])
  show "timeout_initialized first_set e = (e = 0)"
    by (simp add: first_set_def timeout_set_def timeout_initialized_def timeout_startup_def boot_state_def flag_simps)
  show "\<not> timeout_pending first_set e" using p [of e]
    by (simp add: first_set_def timeout_set_def timeout_pending_def flag_simps)
qed

lemma timeout_add_ok:
  assumes "timeout_initialized s e" "0 \<le> sint n"
  shows "\<exists>s'. timeout_add e n s = Return s' ()"
  using assms by (auto simp: timeout_add_def Let_def)

theorem timeout_reachable_inv_witness:
  "\<exists>s s'. timeout_add 0 5 s = Return s' () \<and> tinv s'
    \<and> (CIRCQ_EMPTY (Head Todo) (links s') \<longrightarrow> (\<forall>e. timeout_pending s' e \<longrightarrow> 0 < sint (left s' e)))"
proof -
  obtain s' where a: "timeout_add 0 5 first_set = Return s' ()" using timeout_add_ok [of first_set 0 5] first_set(2) by auto
  have "\<not> timeout_pending (timeout_startup boot_state) 0"
    by (simp add: timeout_pending_def timeout_startup_def boot_state_def)
  then have "lrun t_step (timeout_startup boot_state) [TSet 0 1 2, TAdd 0 5] s'"
    using a by (auto simp: first_set_def intro: t_step.intros)
  from a timeout_reachable_inv [OF boot_state this] show ?thesis by blast
qed

theorem timeout_exact_witness:
  "\<exists>s1 r s2. timeout_add 0 2 first_set = Return s1 () \<and> lrun t_step s1 [TTick r] s2
    \<and> nfires 0 [TTick r] = 0 \<and> timeout_pending s2 0"
proof -
  obtain s1 where a: "timeout_add 0 2 first_set = Return s1 ()" using timeout_add_ok [of first_set 0 2] first_set(2) by auto
  obtain s2 r where h: "timeout_hardclock_update s1 = (s2, r)" by (cases "timeout_hardclock_update s1")
  then have t: "lrun t_step s1 [TTick r] s2" by (auto intro: t_step.intros)
  have "nticks [TTick r] = 1" by (simp add: nticks_def)
  with a t timeout_exact [OF first_set(1) a t] show ?thesis by auto
qed

text \<open>
  \<open>timeout_del\<close> returns whether the timeout was pending; afterwards it does not run in any
  continuation that does not add it again.
\<close>

theorem timeout_del_stops:
  assumes "tinv s" "timeout_del e s = (s1, r)" "lrun t_step s1 ls s2" "\<forall>n. TAdd e n \<notin> set ls"
  shows "r = timeout_pending s e \<and> \<not> timeout_pending s1 e \<and> \<not> timeout_triggered s1 e
    \<and> \<not> timeout_pending s2 e \<and> nfires e ls = 0"
proof -
  have r: "r = timeout_pending s e" "\<not> timeout_pending s1 e" "\<not> timeout_triggered s1 e"
    using assms(2) by (auto simp: timeout_del_def Let_def timeout_pending_def timeout_triggered_def flag_simps split: if_splits)
  have inv: "tinv s1" using del_inv [OF assms(1), of e] assms(2) by simp
  have step: "\<not> timeout_pending u' e \<and> \<not> fires e l"
    if "tinv u" "l \<in> set ls" "t_step u l u'" "\<not> timeout_pending u e" for u l u'
  proof (cases "touches e l")
    case True
    with that(3) show ?thesis
      using assms(4) that(2)
      by (cases l) (auto elim!: t_stepE simp: timeout_set_def timeout_del_def Let_def timeout_pending_def flag_simps split: if_splits)
  next
    case False
    then show ?thesis using step_untouched(5) [OF that(3) False] fires_pending [OF that(1,3)] that(4) by auto
  qed
  have "\<not> timeout_pending s2 e \<and> nfires e ls = 0"
    using assms(3) step inv r(2)
  proof (induction ls arbitrary: s1)
    case (Cons l ls)
    then obtain u where u: "t_step s1 l u" "lrun t_step u ls s2" by auto
    have f: "\<not> timeout_pending u e" "\<not> fires e l" using Cons.prems(2) [OF Cons.prems(3) _ u(1) Cons.prems(4)] by simp_all
    have "\<not> timeout_pending s2 e \<and> nfires e ls = 0"
    proof (rule Cons.IH [OF u(2)])
      show "tinv u" by (rule tw.step_inv [OF Cons.prems(3) u(1)])
    qed (use Cons.prems(2) f(1) in auto)
    with f show ?case by (simp add: nfires_def)
  qed (simp add: nfires_def)
  with r show ?thesis by simp
qed

theorem timeout_del_stops_witness:
  "\<exists>s s1 b s2. timeout_pending s 0 \<and> timeout_del 0 s = (s1, True) \<and> lrun t_step s1 [TTick b] s2 \<and> \<not> timeout_pending s2 0"
proof -
  obtain s where a: "timeout_add 0 2 first_set = Return s ()" using timeout_add_ok [of first_set 0 2] first_set(2) by auto
  obtain s1 r where d: "timeout_del 0 s = (s1, r)" by (cases "timeout_del 0 s")
  obtain s2 b where h: "timeout_hardclock_update s1 = (s2, b)" by (cases "timeout_hardclock_update s1")
  then have t: "lrun t_step s1 [TTick b] s2" by (auto intro: t_step.intros)
  have "timeout_pending s 0" using timeout_add_fields(4) [OF a] .
  with d t timeout_del_stops [OF add_inv [OF first_set(1) a] d t] show ?thesis by auto
qed

section \<open>The loop of softclock\<close>

definition work :: "tstate \<Rightarrow> (tq \<Rightarrow> nat list) \<Rightarrow> nat" where
  "work s Q = (\<Sum>e \<leftarrow> Q Todo. if 0 < sint (left s e) then 1 else 2)"

lemma work_sum: "distinct (Q Todo) \<Longrightarrow> work s Q = (\<Sum>e \<in> set (Q Todo). if 0 < sint (left s e) then 1 else 2)"
  by (simp add: work_def sum_list_distinct_conv_sum_set)

lemma work_mono:
  assumes "rings m heads Q" "rings m' heads Q'" "set (Q' Todo) \<subseteq> insert e (set (Q Todo))"
    and "\<And>x. x \<noteq> e \<Longrightarrow> left s' x = left s x" "0 < sint (left s' e)"
  shows "work s' Q' \<le> work s Q + 1"
proof -
  let ?f = "\<lambda>s x. if 0 < sint (left s x) then 1 else 2 :: nat"
  have "work s' Q' \<le> (\<Sum>x \<in> insert e (set (Q Todo)). ?f s' x)"
    unfolding work_sum [of Q', OF rings_distinct [OF assms(2), of Todo, simplified]]
    by (rule sum_mono2) (use assms(3) in auto)
  also have "\<dots> = ?f s' e + (\<Sum>x \<in> set (Q Todo) - {e}. ?f s' x)" by (simp add: sum.insert_remove)
  also have "(\<Sum>x \<in> set (Q Todo) - {e}. ?f s' x) = (\<Sum>x \<in> set (Q Todo) - {e}. ?f s x)"
    by (rule sum.cong) (use assms(4) in auto)
  also have "\<dots> \<le> (\<Sum>x \<in> set (Q Todo). ?f s x)" by (rule sum_mono2) auto
  also have "\<dots> = work s Q" by (simp add: work_sum [of Q, OF rings_distinct [OF assms(1), of Todo, simplified]])
  finally show ?thesis using assms(5) by simp
qed

text \<open>
  A function that does nothing to the timeouts, or adds one of them (its own, say) with at least one
  tick.
\<close>

definition rearms :: "(nat \<Rightarrow> nat \<Rightarrow> tstate \<Rightarrow> tstate) \<Rightarrow> bool" where
  "rearms call \<longleftrightarrow> (\<forall>f a s. call f a s = s \<or> (\<exists>e n. 0 < sint n \<and> timeout_add e n s = Return (call f a s) ()))"

lemma call_queues:
  assumes "rearms call" "trep s Q" "placed s Q"
  shows "\<exists>Q'. trep (call f a s) Q' \<and> placed (call f a s) Q' \<and> work (call f a s) Q' \<le> work s Q + 1
    \<and> ticks (call f a s) = ticks s"
proof (cases "call f a s = s")
  case True
  with assms show ?thesis by auto
next
  case False
  with assms(1) obtain e n where n: "0 < sint n" "timeout_add e n s = Return (call f a s) ()"
    unfolding rearms_def by blast
  note F = timeout_add_fields [OF n(2)]
  from add_queues [OF assms(2,3) n(2)] obtain Q' where Q': "trep (call f a s) Q'" "placed (call f a s) Q'"
    "set (Q' Todo) \<subseteq> insert e (set (Q Todo))" by blast
  have "work (call f a s) Q' \<le> work s Q + 1"
    by (rule work_mono [OF trepD(1) [OF assms(2)] trepD(1) [OF Q'(1)] Q'(3)]) (use F n in \<open>auto simp: left_def\<close>)
  with Q' F(1) show ?thesis by blast
qed

lemma softclock_drains:
  assumes "rearms call" "trep s Q" "placed s Q"
  shows "\<exists>s'. softclock call s = Some s' \<and> tinv s' \<and> CIRCQ_EMPTY (Head Todo) (links s') \<and> ticks s' = ticks s"
  using assms(2,3)
proof (induction "work s Q" arbitrary: s Q rule: less_induct)
  case less
  show ?case
  proof (cases "Q Todo")
    case Nil
    then show ?thesis using todo_first(1) [OF less.prems(1)] less.prems
      by (subst softclock.simps) (auto simp: tinv_def)
  next
    case (Cons e es)
    obtain s1 c where b: "softclock_body s = (s1, c)" by (cases "softclock_body s")
    note F = soft_fields [OF todo_first(2) [OF less.prems(1) Cons] b]
    note S = soft_queues [OF less.prems Cons b]
    have ne: "\<not> CIRCQ_EMPTY (Head Todo) (links s)" using todo_first(1) [OF less.prems(1)] Cons by simp
    have l: "left s1 x = left s x" for x using F(1,2) by (simp add: left_def)
    show ?thesis
    proof (cases "0 < sint (left s e)")
      case True
      let ?Q = "requeue e Todo (Wheel (BUCKET (left s e) (to_time (timeouts s e)))) Q"
      have "work s1 ?Q < work s Q" using True Cons by (simp add: work_def l requeue_def Let_def)
      from less.hyps [OF this] S True obtain s' where "softclock call s1 = Some s'" "tinv s'"
        "CIRCQ_EMPTY (Head Todo) (links s')" "ticks s' = ticks s1" by auto
      with ne b F(1,5) True show ?thesis by (subst softclock.simps) simp
    next
      case False
      let ?Q = "Q(Todo := es)"
      let ?s = "call (to_func (timeouts s e)) (to_arg (timeouts s e)) s1"
      from call_queues [OF assms(1), of s1 ?Q "to_func (timeouts s e)" "to_arg (timeouts s e)"] S False
      obtain Q' where Q': "trep ?s Q'" "placed ?s Q'" "work ?s Q' \<le> work s1 ?Q + 1" "ticks ?s = ticks s1" by auto
      have "work s1 ?Q + 2 = work s Q" using False Cons by (simp add: work_def l)
      then have "work ?s Q' < work s Q" using Q'(3) by simp
      from less.hyps [OF this Q'(1,2)] obtain s' where "softclock call ?s = Some s'" "tinv s'"
        "CIRCQ_EMPTY (Head Todo) (links s')" "ticks s' = ticks ?s" by auto
      with ne b F(1,5) False Q'(4) show ?thesis by (subst softclock.simps) simp
    qed
  qed
qed

text \<open>
  C26. \<open>softclock\<close> returns whenever the timeout functions do nothing to the timeouts or re-arm one of
  them with at least one tick; then the worklist is empty and no pending timeout is due.
\<close>

theorem softclock_returns:
  assumes "tinv s" "rearms call"
  shows "\<exists>s'. softclock call s = Some s' \<and> tinv s' \<and> ticks s' = ticks s
    \<and> (\<forall>e. timeout_pending s' e \<longrightarrow> 0 < sint (left s' e))"
proof -
  from assms(1) obtain Q where Q: "trep s Q" "placed s Q" by (auto simp: tinv_def)
  from softclock_drains [OF assms(2) Q] show ?thesis using pending_waits by blast
qed

theorem softclock_returns_witness:
  "\<exists>s s'. timeout_pending s 0 \<and> softclock (\<lambda>f a s. s) s = Some s' \<and> (\<forall>e. timeout_pending s' e \<longrightarrow> 0 < sint (left s' e))"
proof -
  obtain s where a: "timeout_add 0 0 first_set = Return s ()" using timeout_add_ok [of first_set 0 0] first_set(2) by auto
  have "rearms (\<lambda>f a s. s)" by (simp add: rearms_def)
  from softclock_returns [OF add_inv [OF first_set(1) a] this] timeout_add_fields(4) [OF a] show ?thesis by blast
qed

section \<open>Conversions\<close>

lemma sint_word_of_int: "- (2 ^ 31) \<le> n \<Longrightarrow> n < 2 ^ 31 \<Longrightarrow> sint (word_of_int n :: u_int) = n"
  by (simp add: sint_uint uint_word_of_int_eq signed_take_bit_take_bit signed_take_bit_int_eq_self)

lemma sint_clip: "0 \<le> n \<Longrightarrow> sint (clip_ticks n) = min n INT_MAX"
  by (auto simp: clip_ticks_def INT_MAX_def sint_word_of_int)

lemma clip_added:
  "0 \<le> m \<Longrightarrow> r = timeout_add e (clip_ticks m) s \<Longrightarrow> \<exists>n. r = timeout_add e n s \<and> sint n = min m INT_MAX"
  using sint_clip [of m] by blast

lemma word_added:
  "0 \<le> m \<Longrightarrow> m < 2 ^ 31 \<Longrightarrow> r = timeout_add e (word_of_int m) s \<Longrightarrow> \<exists>n. r = timeout_add e n s \<and> sint n = m"
  using sint_word_of_int [of m] by force

lemma sdiv_nonneg_int: "0 \<le> a \<Longrightarrow> 0 < b \<Longrightarrow> a sdiv b = a div (b :: int)"
  by (auto simp: signed_divide_int_def sgn_if)

text \<open>
  For non-negative times, every conversion gives a number of ticks that \<open>timeout_add\<close> accepts,
  rounded down to whole ticks and clipped at the largest \<open>int\<close>.
\<close>

theorem timeout_conversions:
  assumes "0 < hz" "0 < tick" "0 \<le> secs" "0 \<le> part" "part < 2 ^ 31"
  shows "(\<exists>n. timeout_add_sec hz e secs s = timeout_add e n s \<and> sint n = min (hz * secs) INT_MAX)
    \<and> (\<exists>n. timeout_add_msec tick e secs s = timeout_add e n s \<and> sint n = min (secs * 1000 div tick) INT_MAX)
    \<and> (\<exists>n. timeout_add_usec tick e part s = timeout_add e n s \<and> sint n = part div tick)
    \<and> (\<exists>n. timeout_add_nsec tick e part s = timeout_add e n s \<and> sint n = part div (tick * 1000))
    \<and> (\<exists>n. timeout_add_tv hz tick e (secs, part) s = timeout_add e n s
      \<and> sint n = min (hz * secs + part div tick) INT_MAX)
    \<and> (\<exists>n. timeout_add_ts hz tick e (secs, part) s = timeout_add e n s
      \<and> sint n = min (hz * secs + part div (tick * 1000)) INT_MAX)"
proof -
  have d: "0 \<le> part div tick" "0 \<le> part div (tick * 1000)" "0 \<le> hz * secs" "0 \<le> secs * 1000 div tick"
    using assms by (simp_all add: pos_imp_zdiv_nonneg_iff)
  have m: "part div tick < 2 ^ 31" "part div (tick * 1000) < 2 ^ 31"
    using assms zdiv_mono2 [of part 1 tick] zdiv_mono2 [of part 1 "tick * 1000"] by simp_all
  show ?thesis
    by (intro conjI clip_added word_added)
      (use d m assms in \<open>simp_all add: timeout_add_sec_def timeout_add_msec_def timeout_add_usec_def
        timeout_add_nsec_def timeout_add_tv_def timeout_add_ts_def sdiv_nonneg_int\<close>)
qed

theorem timeout_conversions_witness:
  "\<exists>n. timeout_add_sec 100 0 30000000 first_set = timeout_add 0 n first_set \<and> sint n = INT_MAX"
  using timeout_conversions [of 100 10000 30000000 0 0 first_set] by (auto simp: INT_MAX_def)

end
