(* ===== verification/Rwlock.thy ===== *)
theory Rwlock
  imports Runs "HOL-Library.Multiset"
begin

text \<open>
  The reader/writer locks of kern/kern_rwlock.c on a multiprocessor: every read of
  \<open>rwl_owner\<close>, every compare-and-swap, every sleep and every wakeup of a thread is a step of its own,
  so the steps of different threads interleave freely. A thread is its \<open>struct proc\<close> address.
  \<open>sleep_setup\<close> takes the scheduler lock that \<open>wakeup\<close> needs too, so the swap that sets the wait bits
  and going to sleep are one step. The kernel is built with DIAGNOSTIC.
\<close>

section \<open>The lock word\<close>

definition RWLOCK_WAIT :: u_long where "RWLOCK_WAIT = 1"
definition RWLOCK_WRWANT :: u_long where "RWLOCK_WRWANT = 2"
definition RWLOCK_WRLOCK :: u_long where "RWLOCK_WRLOCK = 4"
definition RWLOCK_MASK :: u_long where "RWLOCK_MASK = 7"
definition RWLOCK_READ_INCR :: u_long where "RWLOCK_READ_INCR = push_bit 3 1"

definition RW_WRITE :: u_long where "RW_WRITE = 0"
definition RW_READ :: u_long where "RW_READ = 1"
definition RW_DOWNGRADE :: u_long where "RW_DOWNGRADE = 2"
definition RW_OPMASK :: u_long where "RW_OPMASK = 3"
definition RW_INTR :: u_long where "RW_INTR = 0x10"
definition RW_SLEEPFAIL :: u_long where "RW_SLEEPFAIL = 0x20"
definition RW_NOSLEEP :: u_long where "RW_NOSLEEP = 0x40"

definition RW_PROC :: "u_long \<Rightarrow> u_long" where
  "RW_PROC p = p AND NOT RWLOCK_MASK"

definition RWLOCK_OWNER :: "u_long \<Rightarrow> u_long" where
  "RWLOCK_OWNER owner = owner AND NOT RWLOCK_MASK"

record rwlock_op =
  op_inc :: u_long
  op_check :: u_long
  op_wait_set :: u_long
  op_proc_mult :: u_long

text \<open>The table has three entries; the fourth value of the mask is outside it.\<close>

definition rw_ops :: "u_long \<Rightarrow> rwlock_op option" where
  "rw_ops i =
     (if i = RW_WRITE then
        Some \<lparr>op_inc = RWLOCK_WRLOCK, op_check = - 1, op_wait_set = RWLOCK_WAIT OR RWLOCK_WRWANT, op_proc_mult = 1\<rparr>
      else if i = RW_READ then
        Some \<lparr>op_inc = RWLOCK_READ_INCR, op_check = RWLOCK_WRLOCK, op_wait_set = RWLOCK_WAIT, op_proc_mult = 0\<rparr>
      else if i = RW_DOWNGRADE then
        Some \<lparr>op_inc = RWLOCK_READ_INCR - RWLOCK_WRLOCK, op_check = 0, op_wait_set = 0, op_proc_mult = - 1\<rparr>
      else None)"

text \<open>
  The swap: the new contents and whether it failed. It is one step, as the machine-dependent versions give it; the fallback in
  kern/kern_rwlock.c is for one processor.
\<close>

definition rw_cas :: "u_long \<Rightarrow> u_long \<Rightarrow> u_long \<Rightarrow> u_long \<times> bool" where
  "rw_cas p o' n = (if p \<noteq> o' then (p, True) else (n, False))"

text \<open>The checks give the message of the panic, if any. The reads of the lock word in one check are one step.\<close>

definition rw_enter_diag :: "u_long \<Rightarrow> u_long \<Rightarrow> u_long \<Rightarrow> string option" where
  "rw_enter_diag curproc owner flags =
     (let i = flags AND RW_OPMASK in
      if i = RW_WRITE \<or> i = RW_READ then
        (if RW_PROC curproc = RW_PROC owner then Some ''rw_enter: locking against myself'' else None)
      else if i = RW_DOWNGRADE then
        (if owner AND RWLOCK_WRLOCK = 0 then Some ''rw_enter: downgrade of non-write lock''
         else if RW_PROC curproc \<noteq> RW_PROC owner then Some ''rw_enter: downgrade, not holder'' else None)
      else Some ''rw_enter: unknown op'')"

definition rw_assert_wrlock :: "u_long \<Rightarrow> u_long \<Rightarrow> string option" where
  "rw_assert_wrlock curproc owner =
     (if owner AND RWLOCK_WRLOCK = 0 then Some ''lock not held''
      else if RWLOCK_OWNER owner \<noteq> curproc AND NOT RWLOCK_MASK then Some ''lock not held by this process'' else None)"

definition rw_assert_rdlock :: "u_long \<Rightarrow> string option" where
  "rw_assert_rdlock owner =
     (if RWLOCK_OWNER owner = 0 \<or> owner AND RWLOCK_WRLOCK \<noteq> 0 then Some ''lock not shared'' else None)"

section \<open>Threads\<close>

text \<open>
  Where a thread stands. \<open>Idle r\<close>: outside the lock code, with the value the last call returned
  (None for 0). The names of the other points are those of the functions and of the statements.
\<close>

datatype rwpc =
    Idle "errno option"
  | Panicked string
  | EnterTop u_long
  | EnterDiag u_long u_long
  | EnterSleep u_long u_long
  | Asleep u_long
  | Woken u_long
  | EnterCas u_long u_long
  | EnterWake
  | ReadTop
  | ReadCas u_long
  | WriteCas
  | ExitTop
  | ExitAssert bool
  | ExitLoop bool
  | ExitCas bool u_long
  | ExitWake
  | ExitReadTop
  | ExitReadAssert u_long
  | ExitReadCas u_long
  | ExitWriteTop
  | ExitWriteAssert u_long
  | ExitWriteCas u_long

text \<open>
  The state of one lock. \<open>readers\<close> and \<open>writers\<close> record which threads have been granted the lock and
  have not given it up; no step looks at them.
\<close>

record rwstate =
  rwl_owner :: u_long
  rw_pc :: "u_long \<Rightarrow> rwpc"
  readers :: "u_long multiset"
  writers :: "u_long multiset"

definition goto :: "u_long \<Rightarrow> rwpc \<Rightarrow> rwstate \<Rightarrow> rwstate" where
  "goto t c s = s\<lparr>rw_pc := (rw_pc s)(t := c)\<rparr>"

definition goto_or_panic :: "string option \<Rightarrow> u_long \<Rightarrow> rwpc \<Rightarrow> rwstate \<Rightarrow> rwstate" where
  "goto_or_panic m t c s = (case m of None \<Rightarrow> goto t c s | Some e \<Rightarrow> goto t (Panicked e) s)"

definition rw_init :: "rwstate \<Rightarrow> rwstate" where
  "rw_init s = s\<lparr>rwl_owner := 0\<rparr>"

text \<open>\<open>wakeup\<close> on the address of the lock makes every thread that sleeps on it runnable.\<close>

definition wakeup :: "rwstate \<Rightarrow> rwstate" where
  "wakeup s = s\<lparr>rw_pc := (\<lambda>t. case rw_pc s t of Asleep f \<Rightarrow> Woken f | c \<Rightarrow> c)\<rparr>"

definition granted :: "u_long \<Rightarrow> u_long \<Rightarrow> rwstate \<Rightarrow> rwstate" where
  "granted t i s =
     (if i = RW_WRITE then s\<lparr>writers := add_mset t (writers s)\<rparr>
      else if i = RW_READ then s\<lparr>readers := add_mset t (readers s)\<rparr>
      else s\<lparr>writers := writers s - {#t#}, readers := add_mset t (readers s)\<rparr>)"

section \<open>rw_enter\<close>

definition enter_top :: "u_long \<Rightarrow> u_long \<Rightarrow> rwstate \<Rightarrow> rwstate" where
  "enter_top t flags s =
     (case rw_ops (flags AND RW_OPMASK) of
        None \<Rightarrow> goto t (Panicked ''rw_ops index'') s
      | Some op \<Rightarrow>
          let v = rwl_owner s
          in if v AND op_check op \<noteq> 0 then goto t (EnterDiag flags v) s else goto t (EnterCas flags v) s)"

definition enter_diag :: "u_long \<Rightarrow> u_long \<Rightarrow> u_long \<Rightarrow> rwstate \<Rightarrow> rwstate" where
  "enter_diag t flags v s =
     goto_or_panic (rw_enter_diag t (rwl_owner s) flags) t
       (if has_flag flags RW_NOSLEEP then Idle (Some EBUSY) else EnterSleep flags v) s"

definition enter_sleep :: "u_long \<Rightarrow> u_long \<Rightarrow> u_long \<Rightarrow> rwstate \<Rightarrow> rwstate" where
  "enter_sleep t flags v s =
     (case rw_ops (flags AND RW_OPMASK) of
        None \<Rightarrow> s
      | Some op \<Rightarrow>
          let (p, failed) = rw_cas (rwl_owner s) v (v OR op_wait_set op)
          in goto t (if failed then Woken flags else Asleep flags) (s\<lparr>rwl_owner := p\<rparr>))"

text \<open>After the sleep; \<open>sig\<close> is what \<open>sleep_finish_signal\<close> returns.\<close>

definition enter_woken :: "u_long \<Rightarrow> u_long \<Rightarrow> errno option \<Rightarrow> rwstate \<Rightarrow> rwstate" where
  "enter_woken t flags sig s =
     (if has_flag flags RW_INTR \<and> sig \<noteq> None then goto t (Idle sig) s
      else if has_flag flags RW_SLEEPFAIL then goto t (Idle (Some EAGAIN)) s
      else goto t (EnterTop flags) s)"

definition enter_cas :: "u_long \<Rightarrow> u_long \<Rightarrow> u_long \<Rightarrow> rwstate \<Rightarrow> rwstate" where
  "enter_cas t flags v s =
     (case rw_ops (flags AND RW_OPMASK) of
        None \<Rightarrow> s
      | Some op \<Rightarrow>
          let inc = op_inc op + RW_PROC t * op_proc_mult op;
              (p, failed) = rw_cas (rwl_owner s) v (v + inc)
          in if failed then goto t (EnterTop flags) s
             else let s = granted t (flags AND RW_OPMASK) (s\<lparr>rwl_owner := p\<rparr>)
                  in if v AND (RWLOCK_WRLOCK OR RWLOCK_WAIT) = RWLOCK_WRLOCK OR RWLOCK_WAIT
                     then goto t EnterWake s else goto t (Idle None) s)"

section \<open>The simple cases\<close>

definition read_top :: "u_long \<Rightarrow> rwstate \<Rightarrow> rwstate" where
  "read_top t s = (let owner = rwl_owner s in
     if owner AND RWLOCK_WRLOCK \<noteq> 0 then goto t (EnterTop RW_READ) s else goto t (ReadCas owner) s)"

definition read_cas :: "u_long \<Rightarrow> u_long \<Rightarrow> rwstate \<Rightarrow> rwstate" where
  "read_cas t owner s =
     (let (p, failed) = rw_cas (rwl_owner s) owner (owner + RWLOCK_READ_INCR)
      in if failed then goto t (EnterTop RW_READ) s
         else goto t (Idle None) (granted t RW_READ (s\<lparr>rwl_owner := p\<rparr>)))"

definition write_cas :: "u_long \<Rightarrow> rwstate \<Rightarrow> rwstate" where
  "write_cas t s =
     (let (p, failed) = rw_cas (rwl_owner s) 0 (RW_PROC t OR RWLOCK_WRLOCK)
      in if failed then goto t (EnterTop RW_WRITE) s
         else goto t (Idle None) (granted t RW_WRITE (s\<lparr>rwl_owner := p\<rparr>)))"

definition exit_read_assert :: "u_long \<Rightarrow> u_long \<Rightarrow> rwstate \<Rightarrow> rwstate" where
  "exit_read_assert t owner s =
     goto_or_panic (rw_assert_rdlock (rwl_owner s)) t
       (if owner AND RWLOCK_WAIT \<noteq> 0 then ExitTop else ExitReadCas owner) s"

definition exit_read_cas :: "u_long \<Rightarrow> u_long \<Rightarrow> rwstate \<Rightarrow> rwstate" where
  "exit_read_cas t owner s =
     (let (p, failed) = rw_cas (rwl_owner s) owner (owner - RWLOCK_READ_INCR)
      in if failed then goto t ExitTop s
         else goto t (Idle None) (s\<lparr>rwl_owner := p, readers := readers s - {#t#}\<rparr>))"

definition exit_write_assert :: "u_long \<Rightarrow> u_long \<Rightarrow> rwstate \<Rightarrow> rwstate" where
  "exit_write_assert t owner s =
     goto_or_panic (rw_assert_wrlock t (rwl_owner s)) t
       (if owner AND RWLOCK_WAIT \<noteq> 0 then ExitTop else ExitWriteCas owner) s"

definition exit_write_cas :: "u_long \<Rightarrow> u_long \<Rightarrow> rwstate \<Rightarrow> rwstate" where
  "exit_write_cas t owner s =
     (let (p, failed) = rw_cas (rwl_owner s) owner 0
      in if failed then goto t ExitTop s
         else goto t (Idle None) (s\<lparr>rwl_owner := p, writers := writers s - {#t#}\<rparr>))"

section \<open>rw_exit\<close>

definition exit_top :: "u_long \<Rightarrow> rwstate \<Rightarrow> rwstate" where
  "exit_top t s = goto t (ExitAssert (rwl_owner s AND RWLOCK_WRLOCK \<noteq> 0)) s"

definition exit_assert :: "u_long \<Rightarrow> bool \<Rightarrow> rwstate \<Rightarrow> rwstate" where
  "exit_assert t wrlock s =
     goto_or_panic (if wrlock then rw_assert_wrlock t (rwl_owner s) else rw_assert_rdlock (rwl_owner s)) t
       (ExitLoop wrlock) s"

definition exit_cas :: "u_long \<Rightarrow> bool \<Rightarrow> u_long \<Rightarrow> rwstate \<Rightarrow> rwstate" where
  "exit_cas t wrlock owner s =
     (let set = (if wrlock then 0 else (owner - RWLOCK_READ_INCR) AND NOT (RWLOCK_WAIT OR RWLOCK_WRWANT));
          (p, failed) = rw_cas (rwl_owner s) owner set
      in if failed then goto t (ExitLoop wrlock) s
         else let s = s\<lparr>rwl_owner := p\<rparr>;
                  s = (if wrlock then s\<lparr>writers := writers s - {#t#}\<rparr> else s\<lparr>readers := readers s - {#t#}\<rparr>)
              in if owner AND RWLOCK_WAIT \<noteq> 0 then goto t ExitWake s else goto t (Idle None) s)"

section \<open>Steps\<close>

text \<open>One step of a thread that is inside the lock code and not asleep.\<close>

fun rw_exec :: "u_long \<Rightarrow> errno option \<Rightarrow> rwpc \<Rightarrow> rwstate \<Rightarrow> rwstate" where
  "rw_exec t sig (EnterTop f) s = enter_top t f s"
| "rw_exec t sig (EnterDiag f v) s = enter_diag t f v s"
| "rw_exec t sig (EnterSleep f v) s = enter_sleep t f v s"
| "rw_exec t sig (Woken f) s = enter_woken t f sig s"
| "rw_exec t sig (EnterCas f v) s = enter_cas t f v s"
| "rw_exec t sig EnterWake s = goto t (Idle None) (wakeup s)"
| "rw_exec t sig ReadTop s = read_top t s"
| "rw_exec t sig (ReadCas v) s = read_cas t v s"
| "rw_exec t sig WriteCas s = write_cas t s"
| "rw_exec t sig ExitTop s = exit_top t s"
| "rw_exec t sig (ExitAssert w) s = exit_assert t w s"
| "rw_exec t sig (ExitLoop w) s = goto t (ExitCas w (rwl_owner s)) s"
| "rw_exec t sig (ExitCas w v) s = exit_cas t w v s"
| "rw_exec t sig ExitWake s = goto t (Idle None) (wakeup s)"
| "rw_exec t sig ExitReadTop s = goto t (ExitReadAssert (rwl_owner s)) s"
| "rw_exec t sig (ExitReadAssert v) s = exit_read_assert t v s"
| "rw_exec t sig (ExitReadCas v) s = exit_read_cas t v s"
| "rw_exec t sig ExitWriteTop s = goto t (ExitWriteAssert (rwl_owner s)) s"
| "rw_exec t sig (ExitWriteAssert v) s = exit_write_assert t v s"
| "rw_exec t sig (ExitWriteCas v) s = exit_write_cas t v s"
| "rw_exec t sig c s = s"

datatype rwcall = CEnter u_long | CEnterRead | CEnterWrite | CExit | CExitRead | CExitWrite

primrec entry :: "rwcall \<Rightarrow> rwpc" where
  "entry (CEnter f) = EnterTop f"
| "entry CEnterRead = ReadTop"
| "entry CEnterWrite = WriteCas"
| "entry CExit = ExitTop"
| "entry CExitRead = ExitReadTop"
| "entry CExitWrite = ExitWriteTop"

text \<open>
  What the callers keep to: a thread does not take the lock again while it holds it for writing, and
  gives up or downgrades only what it holds. Proc structures are aligned and in the upper half of the
  address space.
\<close>

definition proc_addr :: "u_long \<Rightarrow> bool" where
  "proc_addr t \<longleftrightarrow> RW_PROC t = t \<and> 2 ^ 63 \<le> unat t"

primrec allowed :: "rwstate \<Rightarrow> u_long \<Rightarrow> rwcall \<Rightarrow> bool" where
  "allowed s t (CEnter f) \<longleftrightarrow> (f AND RW_OPMASK \<in> {RW_WRITE, RW_READ} \<and> t \<notin># writers s)
     \<or> (f AND RW_OPMASK = RW_DOWNGRADE \<and> t \<in># writers s)"
| "allowed s t CEnterRead \<longleftrightarrow> t \<notin># writers s"
| "allowed s t CEnterWrite \<longleftrightarrow> t \<notin># writers s"
| "allowed s t CExit \<longleftrightarrow> t \<in># readers s + writers s"
| "allowed s t CExitRead \<longleftrightarrow> t \<in># readers s"
| "allowed s t CExitWrite \<longleftrightarrow> t \<in># writers s"

datatype rwlabel = Call u_long rwcall | Run u_long "errno option" | Signal u_long

inductive rw_step :: "rwstate \<Rightarrow> rwlabel \<Rightarrow> rwstate \<Rightarrow> bool" where
  call: "rw_pc s t = Idle r \<Longrightarrow> proc_addr t \<Longrightarrow> allowed s t c \<Longrightarrow> rw_step s (Call t c) (goto t (entry c) s)"
| run: "rw_step s (Run t sig) (rw_exec t sig (rw_pc s t) s)"
| signal: "rw_pc s t = Asleep f \<Longrightarrow> has_flag f RW_INTR \<Longrightarrow> rw_step s (Signal t) (goto t (Woken f) s)"

inductive_cases rw_step_callE: "rw_step s (Call t c) s'"
inductive_cases rw_step_runE: "rw_step s (Run t sig) s'"
inductive_cases rw_step_signalE: "rw_step s (Signal t) s'"

end
