(* ===== verification/Rwlock_Inv.thy ===== *)
theory Rwlock_Inv
  imports Rwlock
begin

text \<open>
  The invariant of a reader/writer lock under every interleaving: the lock word encodes the holders,
  every thread stands where its holds allow, and a sleeping thread is never forgotten.
\<close>

section \<open>Bits of the lock word\<close>

lemma unat_bit: "n < 64 \<Longrightarrow> bit (x :: u_long) n \<longleftrightarrow> odd (unat x div 2 ^ n)"
  using bit_unsigned_iff [of x n, where ?'a = nat] by (simp add: bit_iff_odd)

lemma and1_iff: "(x :: u_long) AND 1 = 0 \<longleftrightarrow> even (unat x)"
  using and_exp_eq_0_iff_not_bit [of x 0] unat_bit [of 0 x] by simp

lemma and4_iff: "(x :: u_long) AND 4 = 0 \<longleftrightarrow> even (unat x div 4)"
  using and_exp_eq_0_iff_not_bit [of x 2] unat_bit [of 2 x] by simp

lemma unat_and_not_mask: "n < 64 \<Longrightarrow> unat ((x :: u_long) AND NOT (mask n)) = unat x div 2 ^ n * 2 ^ n"
proof -
  assume n: "n < 64"
  have "x AND NOT (mask n) = push_bit n (drop_bit n x)" by (auto simp: bit_eq_iff bit_simps)
  then have e: "x AND NOT (mask n) = x - take_bit n x" using bits_ident [of n x] by (simp add: eq_diff_eq)
  have u: "unat (take_bit n x) = unat x mod 2 ^ n" by (metis take_bit_eq_mod unsigned_take_bit_eq)
  then have "unat (x - take_bit n x) = unat x - unat x mod 2 ^ n" by (simp add: unat_sub word_le_nat_alt)
  then show ?thesis by (simp add: e minus_mod_eq_div_mult)
qed

lemma unat_and_not7: "unat ((x :: u_long) AND - 8) = unat x div 8 * 8"
  using unat_and_not_mask [of 3 x] by (simp add: mask_eq_exp_minus_1)

lemma unat_and_not3: "unat ((x :: u_long) AND - 4) = unat x div 4 * 4"
  using unat_and_not_mask [of 2 x] by (simp add: mask_eq_exp_minus_1)

lemma nat_or3: "(n :: nat) OR 3 = n div 4 * 4 + 3"
proof -
  have "n mod 4 = 0 \<or> n mod 4 = 1 \<or> n mod 4 = 2 \<or> n mod 4 = 3" by linarith
  then have "take_bit 2 (n OR 3) = 3" by (auto simp: take_bit_or take_bit_eq_mod [of 2 n])
  moreover have "drop_bit 2 (n OR 3) = n div 4" by (simp add: drop_bit_or drop_bit_eq_div [of 2 n])
  ultimately show ?thesis using bits_ident [of 2 "n OR 3"] by (simp add: push_bit_eq_mult)
qed

lemma unat_or3: "unat ((x :: u_long) OR 3) = unat x div 4 * 4 + 3"
  using nat_or3 [of "unat x"] by (simp add: unsigned_or_eq)

lemma unat_or1: "unat ((x :: u_long) OR 1) = (if even (unat x) then unat x + 1 else unat x)"
proof -
  have e: "unat (x OR 1) = unat x OR 1" by (metis unsigned_1 unsigned_or_eq)
  have "unat x OR 1 = unat x + of_bool (even (unat x))" by (rule or_one_eq)
  then show ?thesis by (cases "even (unat x)") (simp_all only: e of_bool_eq if_True if_False add_0_right)
qed

section \<open>The encoding of the holders\<close>

text \<open>The wait bits: no waiter, readers waiting, or a writer waiting too.\<close>

definition enc :: "u_long \<Rightarrow> u_long multiset \<Rightarrow> u_long multiset \<Rightarrow> bool" where
  "enc x R W \<longleftrightarrow> (\<exists>w \<in> {0, 1, 3}.
      (W = {#} \<and> unat x = 8 * size R + w \<and> (R = {#} \<longrightarrow> w = 0) \<and> size R < 2 ^ 60)
    \<or> (\<exists>t. W = {#t#} \<and> R = {#} \<and> proc_addr t \<and> unat x = unat t + 4 + w))"

lemma encE:
  assumes "enc x R W"
  obtains (shared) w where "w \<in> {0, 1, 3}" "W = {#}" "unat x = 8 * size R + w" "R = {#} \<Longrightarrow> w = 0" "size R < 2 ^ 60"
  | (exclusive) w t where "w \<in> {0, 1, 3}" "W = {#t#}" "R = {#}" "proc_addr t" "unat x = unat t + 4 + w"
  using assms unfolding enc_def by blast

lemma encI:
  assumes "w \<in> {0, 1, 3 :: nat}" "unat x = 8 * size R + w" "R = {#} \<Longrightarrow> w = 0" "size R < 2 ^ 60"
  shows "enc x R {#}"
  using assms unfolding enc_def by blast

lemma encI_w: "w \<in> {0, 1, 3 :: nat} \<Longrightarrow> proc_addr t \<Longrightarrow> unat x = unat t + 4 + w \<Longrightarrow> enc x {#} {#t#}"
  unfolding enc_def by blast

text \<open>A proc address is a multiple of 8 in the upper half.\<close>

lemma proc_addrD:
  assumes "proc_addr t"
  shows "unat t = 8 * (unat t div 8)" "2 ^ 63 \<le> unat t" "unat t + 8 \<le> 2 ^ 64"
proof -
  have e: "unat (t AND - 8) = unat t" using assms by (simp add: proc_addr_def RW_PROC_def RWLOCK_MASK_def)
  then show m: "unat t = 8 * (unat t div 8)" unfolding unat_and_not7 by simp
  show "2 ^ 63 \<le> unat t" using assms by (simp add: proc_addr_def)
  have "8 * (unat t div 8) < 8 * 2 ^ 61" using unat_u_long_less [of t] m by simp
  then have "unat t div 8 < 2 ^ 61" by simp
  then have "8 * (unat t div 8) + 8 \<le> 8 * 2 ^ 61" by linarith
  with m show "unat t + 8 \<le> 2 ^ 64" by simp
qed

lemma enc_wrlock: "x AND 4 = 0 \<longleftrightarrow> W = {#}" if "enc x R W"
  using that
proof (cases rule: encE)
  case (shared w)
  then have "unat x div 4 = 2 * size R" by auto
  with shared show ?thesis by (simp add: and4_iff)
next
  case (exclusive w t)
  then have "unat x = 8 * (unat t div 8) + 4 + w" using proc_addrD(1) [of t] by simp
  then have "unat x div 4 = 2 * (unat t div 8) + 1" using exclusive(1) by auto
  with exclusive show ?thesis by (simp add: and4_iff)
qed

lemma word_zero_unat: "(x :: u_long) = 0 \<longleftrightarrow> unat x = 0"
  by (subst word_unat_eq_iff) simp

lemma enc_zero: "x = 0 \<longleftrightarrow> R = {#} \<and> W = {#}" if "enc x R W"
  using that
proof (cases rule: encE)
  case (shared w)
  then show ?thesis unfolding word_zero_unat shared(3) by auto
next
  case (exclusive w t)
  then show ?thesis unfolding word_zero_unat exclusive(5) by simp
qed

lemma enc_owner_shared: "enc x R {#} \<Longrightarrow> unat (x AND - 8) = 8 * size R"
  unfolding unat_and_not7 by (auto simp: enc_def)

lemma enc_owner_exclusive: "enc x R {#t#} \<Longrightarrow> x AND - 8 = t"
proof -
  assume "enc x R {#t#}"
  then obtain w where w: "w \<in> {0, 1, 3 :: nat}" "proc_addr t" "unat x = unat t + 4 + w" by (auto simp: enc_def)
  then have "unat x = 8 * (unat t div 8) + 4 + w" using proc_addrD(1) [of t] by simp
  then have "unat x div 8 = unat t div 8" using w(1) by auto
  then have "unat (x AND - 8) = unat t" unfolding unat_and_not7 using proc_addrD(1) [OF w(2)] by simp
  then show ?thesis by (simp only: word_unat_eq_iff)
qed

section \<open>Updates of the lock word\<close>

lemma enc_wait:
  assumes "enc x R W" "x \<noteq> 0" "v = 1 \<or> v = 3"
  shows "enc (x OR v) R W"
proof -
  have "\<exists>w' \<in> {0, 1, 3}. unat (x OR v) = n + w'" if "unat x = n + w" "n mod 4 = 0" "w \<in> {0, 1, 3}" for n w
  proof (cases "v = 1")
    case True
    have "even n" using that(2) by presburger
    with True that show ?thesis by (auto simp: unat_or1)
  next
    case False
    have "(n + w) div 4 * 4 = n" using that(2,3) by auto
    with False assms(3) that(1) show ?thesis by (simp add: unat_or3)
  qed
  note up = this
  from assms(1) show ?thesis
  proof (cases rule: encE)
    case (shared w)
    then obtain w' where "w' \<in> {0, 1, 3}" "unat (x OR v) = 8 * size R + w'" using up [of "8 * size R" w] by auto
    with shared show ?thesis using assms(2) enc_zero [OF assms(1)] unfolding shared(2) by (intro encI [of w']) auto
  next
    case (exclusive w t)
    have "(unat t + 4) mod 4 = 0" using proc_addrD(1) [OF exclusive(4)] by presburger
    from up [OF exclusive(5) this exclusive(1)] obtain w' where "w' \<in> {0, 1, 3}" "unat (x OR v) = unat t + 4 + w'" by blast
    with exclusive(4) show ?thesis unfolding exclusive(2,3) by (intro encI_w [of w'])
  qed
qed

lemma enc_read:
  assumes "enc x R {#}" "Suc (size R) < 2 ^ 60"
  shows "enc (x + 8) (add_mset t R) {#}"
proof -
  from assms(1) obtain w where w: "w \<in> {0, 1, 3}" "unat x = 8 * size R + w" by (auto simp: enc_def)
  then have "unat (x + 8) = 8 * Suc (size R) + w" using assms(2) by (subst unat_add_no_overflow) auto
  with w assms(2) show ?thesis by (intro encI [of w]) auto
qed

lemma unat_proc4: "proc_addr t \<Longrightarrow> unat (t + 4) = unat t + 4"
  using proc_addrD(3) [of t] by (subst unat_add_no_overflow) auto

lemma enc_write: "proc_addr t \<Longrightarrow> enc (t + 4) {#} {#t#}"
  by (rule encI_w [of 0]) (simp_all add: unat_proc4)

lemma proc_or4: "proc_addr t \<Longrightarrow> t OR 4 = t + 4"
proof -
  assume "proc_addr t"
  then have "even (unat t div 4)" using proc_addrD(1) [of t] by presburger
  then have "t AND 4 = 0" by (simp add: and4_iff)
  then show ?thesis by (simp add: disjunctive_add_eq_or)
qed

lemma enc_downgrade:
  assumes "enc x R {#t#}"
  shows "enc (x + (8 - 4 - t)) {#t#} {#}"
proof -
  from assms obtain w where w: "w \<in> {0, 1, 3}" "proc_addr t" "unat x = unat t + 4 + w" by (auto simp: enc_def)
  have "x = t + 4 + of_nat w" using w(3) by (metis of_nat_add of_nat_numeral of_nat_unat ucast_id)
  then have e: "x + (8 - 4 - t) = of_nat (8 + w)" by simp
  have "unat (of_nat (8 + w) :: u_long) = 8 + w" using w(1) by (auto simp: unat_of_nat)
  then have "unat (x + (8 - 4 - t)) = 8 + w" unfolding e .
  with w(1) show ?thesis by (intro encI [of w]) auto
qed

lemma enc_release:
  assumes "enc x R {#}" "t \<in># R"
  shows "enc ((x - 8) AND - 4) (R - {#t#}) {#}" "x AND 1 = 0 \<Longrightarrow> enc (x - 8) (R - {#t#}) {#}"
proof -
  from assms(1) obtain w where w: "w \<in> {0, 1, 3}" "unat x = 8 * size R + w" "size R < 2 ^ 60" by (auto simp: enc_def)
  obtain n where n: "size R = Suc n" "size (R - {#t#}) = n" using assms(2) by (metis size_Suc_Diff1)
  have u: "unat (x - 8) = 8 * n + w" using w n by (simp add: unat_sub word_le_nat_alt)
  then have "unat ((x - 8) AND - 4) = 8 * n" unfolding unat_and_not3 using w(1) by auto
  then show "enc ((x - 8) AND - 4) (R - {#t#}) {#}" using n w(3) by (intro encI [of 0]) auto
  assume "x AND 1 = 0"
  then have "w = 0" using w(1,2) by (auto simp: and1_iff)
  with u show "enc (x - 8) (R - {#t#}) {#}" using n w(3) by (intro encI [of 0]) auto
qed

lemma enc_free: "enc 0 {#} {#}"
  by (rule encI [of 0]) auto

section \<open>The invariant\<close>

text \<open>Where a thread may stand, given whether it holds the lock for writing (\<open>w\<close>) or reading (\<open>r\<close>).\<close>

fun loc :: "bool \<Rightarrow> bool \<Rightarrow> rwpc \<Rightarrow> bool" where
  "loc w r (Idle e) \<longleftrightarrow> True"
| "loc w r (Panicked m) \<longleftrightarrow> False"
| "loc w r (EnterTop f) \<longleftrightarrow> (f AND 3 = 0 \<and> \<not> w) \<or> (f AND 3 = 1 \<and> \<not> w) \<or> (f AND 3 = 2 \<and> w)"
| "loc w r (EnterDiag f v) \<longleftrightarrow> \<not> w \<and> ((f AND 3 = 0 \<and> v \<noteq> 0) \<or> (f AND 3 = 1 \<and> v AND 4 \<noteq> 0))"
| "loc w r (EnterSleep f v) \<longleftrightarrow> \<not> w \<and> ((f AND 3 = 0 \<and> v \<noteq> 0) \<or> (f AND 3 = 1 \<and> v AND 4 \<noteq> 0))"
| "loc w r (Asleep f) \<longleftrightarrow> \<not> w \<and> (f AND 3 = 0 \<or> f AND 3 = 1)"
| "loc w r (Woken f) \<longleftrightarrow> \<not> w \<and> (f AND 3 = 0 \<or> f AND 3 = 1)"
| "loc w r (EnterCas f v) \<longleftrightarrow> (f AND 3 = 0 \<and> \<not> w \<and> v = 0) \<or> (f AND 3 = 1 \<and> \<not> w \<and> v AND 4 = 0) \<or> (f AND 3 = 2 \<and> w)"
| "loc w r EnterWake \<longleftrightarrow> True"
| "loc w r ReadTop \<longleftrightarrow> \<not> w"
| "loc w r (ReadCas v) \<longleftrightarrow> \<not> w \<and> v AND 4 = 0"
| "loc w r WriteCas \<longleftrightarrow> \<not> w"
| "loc w r ExitTop \<longleftrightarrow> w \<or> r"
| "loc w r (ExitAssert x) \<longleftrightarrow> (if x then w else r)"
| "loc w r (ExitLoop x) \<longleftrightarrow> (if x then w else r)"
| "loc w r (ExitCas x v) \<longleftrightarrow> (if x then w else r)"
| "loc w r ExitWake \<longleftrightarrow> True"
| "loc w r ExitReadTop \<longleftrightarrow> r"
| "loc w r (ExitReadAssert v) \<longleftrightarrow> r"
| "loc w r (ExitReadCas v) \<longleftrightarrow> r \<and> v AND 1 = 0"
| "loc w r ExitWriteTop \<longleftrightarrow> w"
| "loc w r (ExitWriteAssert v) \<longleftrightarrow> w"
| "loc w r (ExitWriteCas v) \<longleftrightarrow> w \<and> v AND 1 = 0"

definition at :: "rwstate \<Rightarrow> u_long \<Rightarrow> rwpc \<Rightarrow> bool" where
  "at s t c \<longleftrightarrow> loc (t \<in># writers s) (t \<in># readers s) c \<and> ((\<exists>r. c = Idle r) \<or> proc_addr t)"

definition wakes :: "rwpc \<Rightarrow> bool" where
  "wakes c \<longleftrightarrow> c = EnterWake \<or> c = ExitWake"

text \<open>
  No lost wakeup: while a thread sleeps, the wait bit is set (and, for a reader, the lock is
  write-locked), or some thread is about to call \<open>wakeup\<close>.
\<close>

definition sleepers_ok :: "rwstate \<Rightarrow> bool" where
  "sleepers_ok s \<longleftrightarrow> (\<forall>t f. rw_pc s t = Asleep f \<longrightarrow> (\<exists>u. wakes (rw_pc s u))
     \<or> rwl_owner s AND 1 \<noteq> 0 \<and> (f AND 3 = 1 \<longrightarrow> rwl_owner s AND 4 \<noteq> 0))"

definition rwinv :: "rwstate \<Rightarrow> bool" where
  "rwinv s \<longleftrightarrow> enc (rwl_owner s) (readers s) (writers s) \<and> (\<forall>t. at s t (rw_pc s t)) \<and> sleepers_ok s"

lemma rwinvD:
  assumes "rwinv s"
  shows "enc (rwl_owner s) (readers s) (writers s)" "at s t (rw_pc s t)" "sleepers_ok s"
  using assms by (simp_all add: rwinv_def)

lemma goto_sel [simp]:
  "rwl_owner (goto t c s) = rwl_owner s" "readers (goto t c s) = readers s" "writers (goto t c s) = writers s"
  "rw_pc (goto t c s) = (rw_pc s)(t := c)"
  by (simp_all add: goto_def)

text \<open>
  A step of thread \<open>t\<close> to point \<open>c\<close> that changes the word to \<open>x\<close> and only its own holds.
\<close>

lemma rwinv_step:
  assumes inv: "rwinv s" and pc: "rw_pc s' = (rw_pc s)(t := c)"
    and e: "enc (rwl_owner s') (readers s') (writers s')"
    and other: "\<And>u. u \<noteq> t \<Longrightarrow> u \<in># writers s' \<longleftrightarrow> u \<in># writers s" "\<And>u. u \<noteq> t \<Longrightarrow> u \<in># readers s' \<longleftrightarrow> u \<in># readers s"
    and at: "at s' t c" and nw: "\<not> wakes (rw_pc s t)"
    and wait: "wakes c \<or> (rwl_owner s AND 1 \<noteq> 0 \<longrightarrow> rwl_owner s' AND 1 \<noteq> 0)
      \<and> (rwl_owner s AND 1 \<noteq> 0 \<and> rwl_owner s AND 4 \<noteq> 0 \<longrightarrow> rwl_owner s' AND 4 \<noteq> 0)"
    and sl: "\<And>f. c = Asleep f \<Longrightarrow> rwl_owner s' AND 1 \<noteq> 0 \<and> (f AND 3 = 1 \<longrightarrow> rwl_owner s' AND 4 \<noteq> 0)"
  shows "rwinv s'"
  unfolding rwinv_def
proof (intro conjI allI)
  show "enc (rwl_owner s') (readers s') (writers s')" by (rule e)
  show "at s' u (rw_pc s' u)" for u
    using at rwinvD(2) [OF inv, of u] other [of u] unfolding pc by (cases "u = t") (simp_all add: at_def)
  show "sleepers_ok s'"
    unfolding sleepers_ok_def
  proof (intro allI impI)
    fix u f assume a: "rw_pc s' u = Asleep f"
    show "(\<exists>u. wakes (rw_pc s' u)) \<or> rwl_owner s' AND 1 \<noteq> 0 \<and> (f AND 3 = 1 \<longrightarrow> rwl_owner s' AND 4 \<noteq> 0)"
    proof (cases "u = t \<or> wakes c")
      case True
      with a sl pc show ?thesis by auto
    next
      case False
      then have "rw_pc s u = Asleep f" using a pc by simp
      with rwinvD(3) [OF inv] have "(\<exists>v. wakes (rw_pc s v)) \<or> rwl_owner s AND 1 \<noteq> 0 \<and> (f AND 3 = 1 \<longrightarrow> rwl_owner s AND 4 \<noteq> 0)"
        unfolding sleepers_ok_def by blast
      then show ?thesis
      proof
        assume "\<exists>v. wakes (rw_pc s v)"
        then obtain v where v: "wakes (rw_pc s v)" by blast
        with nw have "v \<noteq> t" by auto
        with v pc have "wakes (rw_pc s' v)" by simp
        then show ?thesis by blast
      qed (use wait False in blast)
    qed
  qed
qed

text \<open>A step that only moves the thread.\<close>

lemma rwinv_goto:
  assumes "rwinv s" "at s t c" "\<not> wakes (rw_pc s t)" "\<And>f. c \<noteq> Asleep f"
  shows "rwinv (goto t c s)"
proof (rule rwinv_step [OF assms(1), of _ t c])
  show "at (goto t c s) t c" using assms(2) by (simp add: at_def)
qed (use assms rwinvD(1) [OF assms(1)] in simp_all)

lemma rwinv_wakeup:
  assumes "rwinv s"
  shows "rwinv (goto t (Idle None) (wakeup s))"
proof -
  have "loc w r (case c of Asleep f \<Rightarrow> Woken f | c \<Rightarrow> c)" if "loc w r c" for w r c
    using that by (cases c) simp_all
  moreover have "\<exists>r. c = Idle r" if "(case c of Asleep f \<Rightarrow> Woken f | c \<Rightarrow> c) = Idle r" for c r
    using that by (cases c) simp_all
  ultimately have "at (goto t (Idle None) (wakeup s)) u (rw_pc (goto t (Idle None) (wakeup s)) u)" for u
    using rwinvD(2) [OF assms, of u] by (auto simp: at_def wakeup_def)
  moreover have "(case c of Asleep f \<Rightarrow> Woken f | c \<Rightarrow> c) \<noteq> Asleep f" for c f by (cases c) simp_all
  then have "sleepers_ok (goto t (Idle None) (wakeup s))" by (auto simp: sleepers_ok_def wakeup_def)
  ultimately show ?thesis using rwinvD(1) [OF assms] by (simp add: rwinv_def wakeup_def)
qed

end
