(* ===== verification/Rwlock_Steps.thy ===== *)
theory Rwlock_Steps
  imports Rwlock_Inv
begin

text \<open>
  Every step keeps the invariant; what follows for the users of a lock.
\<close>

section \<open>Each step keeps the invariant\<close>

lemmas rw_consts = RWLOCK_WAIT_def RWLOCK_WRWANT_def RWLOCK_WRLOCK_def RWLOCK_MASK_def RWLOCK_READ_INCR_def
  RW_WRITE_def RW_READ_def RW_DOWNGRADE_def RW_OPMASK_def RW_PROC_def RWLOCK_OWNER_def

lemma READ_INCR_8: "RWLOCK_READ_INCR = 8"
  by (simp add: RWLOCK_READ_INCR_def)

lemma rw_ops_simps:
  "rw_ops 0 = Some \<lparr>op_inc = 4, op_check = - 1, op_wait_set = 3, op_proc_mult = 1\<rparr>"
  "rw_ops 1 = Some \<lparr>op_inc = 8, op_check = 4, op_wait_set = 1, op_proc_mult = 0\<rparr>"
  "rw_ops 2 = Some \<lparr>op_inc = 4, op_check = 0, op_wait_set = 0, op_proc_mult = - 1\<rparr>"
  by (simp_all add: rw_ops_def rw_consts)

lemma proc_addr_RW_PROC: "proc_addr t \<Longrightarrow> t AND - 8 = t"
  by (simp add: proc_addr_def RW_PROC_def RWLOCK_MASK_def)

lemma atD:
  assumes "rwinv s" "rw_pc s t = c"
  shows "loc (t \<in># writers s) (t \<in># readers s) c" "(\<forall>r. c \<noteq> Idle r) \<Longrightarrow> proc_addr t"
  using rwinvD(2) [OF assms(1), of t] assms(2) by (auto simp: at_def)

lemma enter_top_inv:
  assumes "rwinv s" "rw_pc s t = EnterTop f"
  shows "rwinv (enter_top t f s)"
proof -
  note a = atD [OF assms]
  have p: "proc_addr t" using a(2) by simp
  show ?thesis
    using a(1) p assms(2) by (auto simp: enter_top_def rw_ops_simps at_def RW_OPMASK_def Let_def wakes_def
      intro!: rwinv_goto [OF assms(1)])
qed

text \<open>The lock is never held for writing by a thread that is entering it.\<close>

lemma owner_differs:
  assumes "enc x R W" "proc_addr t" "t \<notin># W"
  shows "x AND - 8 \<noteq> t"
proof (cases "W = {#}")
  case True
  have "size R < 2 ^ 60" using assms(1) True by (auto simp: enc_def)
  then have "unat (x AND - 8) < 2 ^ 63" using enc_owner_shared [of x R] assms(1) True by simp
  then show ?thesis using proc_addrD(2) [OF assms(2)] by auto
next
  case False
  then obtain u where "W = {#u#}" using assms(1) by (auto simp: enc_def)
  with enc_owner_exclusive [of x R u] assms show ?thesis by auto
qed

lemma enter_diag_inv:
  assumes "rwinv s" "rw_pc s t = EnterDiag f v"
  shows "rwinv (enter_diag t f v s)"
proof -
  note a = atD [OF assms]
  have p: "proc_addr t" using a(2) by simp
  have "rwl_owner s AND - 8 \<noteq> t" using owner_differs [OF rwinvD(1) [OF assms(1)] p] a(1) by simp
  then have "rw_enter_diag t (rwl_owner s) f = None"
    using a(1) proc_addr_RW_PROC [OF p] by (auto simp: rw_enter_diag_def rw_consts Let_def)
  then have "\<exists>c. enter_diag t f v s = goto t c s \<and> at s t c \<and> (\<forall>f. c \<noteq> Asleep f)"
    using a(1) p by (auto simp: enter_diag_def goto_or_panic_def at_def)
  then show ?thesis using rwinv_goto [OF assms(1)] assms(2) by (auto simp: wakes_def)
qed

lemma or_keeps: "(x :: u_long) AND m \<noteq> 0 \<Longrightarrow> (x OR v) AND m \<noteq> 0"
  by (metis and_zero_eq bit.conj_disj_distrib2 or_eq_0_iff)

lemma enter_sleep_inv:
  assumes "rwinv s" "rw_pc s t = EnterSleep f v"
  shows "rwinv (enter_sleep t f v s)"
proof -
  note a = atD [OF assms]
  have p: "proc_addr t" using a(2) by simp
  obtain op where op: "rw_ops (f AND 3) = Some op" "op_wait_set op = 1 \<or> op_wait_set op = 3"
    using a(1) by (auto simp: rw_ops_simps)
  show ?thesis
  proof (cases "rwl_owner s = v")
    case False
    then have "enter_sleep t f v s = goto t (Woken f) s" using op by (simp add: enter_sleep_def rw_cas_def RW_OPMASK_def)
    moreover have "at s t (Woken f)" using a(1) p by (auto simp: at_def)
    ultimately show ?thesis using rwinv_goto [OF assms(1)] assms(2) by (simp add: wakes_def)
  next
    case True
    let ?x = "v OR op_wait_set op"
    have r: "enter_sleep t f v s = goto t (Asleep f) (s\<lparr>rwl_owner := ?x\<rparr>)"
      using op True by (simp add: enter_sleep_def rw_cas_def RW_OPMASK_def)
    have nz: "v \<noteq> 0" using a(1) by auto
    have e: "enc ?x (readers s) (writers s)" using enc_wait [of v] rwinvD(1) [OF assms(1)] True op(2) nz by auto
    have one: "?x AND 1 \<noteq> 0" using op(2) by (auto simp: bit.conj_disj_distrib2 or_eq_0_iff)
    have four: "v AND 4 \<noteq> 0 \<Longrightarrow> ?x AND 4 \<noteq> 0" by (rule or_keeps)
    show ?thesis
      unfolding r
    proof (rule rwinv_step [OF assms(1), of _ t "Asleep f"])
      show "at (goto t (Asleep f) (s\<lparr>rwl_owner := ?x\<rparr>)) t (Asleep f)" using a(1) p by (auto simp: at_def)
    qed (use e one four True a(1) assms(2) in \<open>auto simp: wakes_def\<close>)
  qed
qed

lemma enter_woken_inv:
  assumes "rwinv s" "rw_pc s t = Woken f"
  shows "rwinv (enter_woken t f sig s)"
proof -
  note a = atD [OF assms]
  have p: "proc_addr t" using a(2) by simp
  have "\<exists>c. enter_woken t f sig s = goto t c s \<and> at s t c \<and> (\<forall>f. c \<noteq> Asleep f)"
    using a(1) p by (auto simp: enter_woken_def at_def)
  then show ?thesis using rwinv_goto [OF assms(1)] assms(2) by (auto simp: wakes_def)
qed

lemma and_exp: "(x :: u_long) AND 2 ^ n = (if bit x n then 2 ^ n else 0)"
  by (rule bit_word_eqI) (auto simp: bit_and_iff bit_exp_iff)

lemma and5_iff: "(x :: u_long) AND 5 = 5 \<longleftrightarrow> x AND 4 \<noteq> 0 \<and> x AND 1 \<noteq> 0"
proof -
  have "x AND 5 = (x AND 4) OR (x AND 1)" using bit.conj_disj_distrib [of x 4 1] by simp
  then show ?thesis using and_exp [of x 2] and_exp [of x 0] by auto
qed

text \<open>The holders after each successful swap.\<close>

lemma reader_granted:
  assumes "rwinv s" "proc_addr t" "t \<notin># writers s" "rwl_owner s AND 4 = 0" "Suc (size (readers s)) < 2 ^ 60"
    and "\<not> wakes (rw_pc s t)"
  shows "rwinv (goto t (Idle None) (granted t RW_READ (s\<lparr>rwl_owner := rwl_owner s + 8\<rparr>)))"
proof (rule rwinv_step [OF assms(1), of _ t "Idle None"])
  have W: "writers s = {#}" using enc_wrlock [OF rwinvD(1) [OF assms(1)]] assms(4) by simp
  let ?s = "goto t (Idle None) (granted t RW_READ (s\<lparr>rwl_owner := rwl_owner s + 8\<rparr>))"
  have e: "enc (rwl_owner s) (readers s) {#}" using rwinvD(1) [OF assms(1)] W by simp
  show "enc (rwl_owner ?s) (readers ?s) (writers ?s)"
    using enc_read [OF e assms(5), of t] W by (simp add: granted_def rw_consts)
  obtain w where "w \<in> {0, 1, 3 :: nat}" "unat (rwl_owner s) = 8 * size (readers s) + w" using e by (auto simp: enc_def)
  then have "unat (rwl_owner s + 8) = unat (rwl_owner s) + 8" using assms(5) by (subst unat_add_no_overflow) auto
  then have "rwl_owner s AND 1 \<noteq> 0 \<longrightarrow> (rwl_owner s + 8) AND 1 \<noteq> 0" by (simp add: and1_iff)
  with assms(4) show "wakes (Idle None) \<or> (rwl_owner s AND 1 \<noteq> 0 \<longrightarrow> rwl_owner ?s AND 1 \<noteq> 0)
      \<and> (rwl_owner s AND 1 \<noteq> 0 \<and> rwl_owner s AND 4 \<noteq> 0 \<longrightarrow> rwl_owner ?s AND 4 \<noteq> 0)"
    by (simp add: granted_def rw_consts)
qed (use assms in \<open>auto simp: granted_def rw_consts at_def\<close>)

lemma writer_granted:
  assumes "rwinv s" "proc_addr t" "rwl_owner s = 0" "\<not> wakes (rw_pc s t)"
  shows "rwinv (goto t (Idle None) (granted t RW_WRITE (s\<lparr>rwl_owner := t + 4\<rparr>)))"
proof (rule rwinv_step [OF assms(1), of _ t "Idle None"])
  have W: "writers s = {#}" "readers s = {#}" using enc_zero [OF rwinvD(1) [OF assms(1)]] assms(3) by simp_all
  let ?s = "goto t (Idle None) (granted t RW_WRITE (s\<lparr>rwl_owner := t + 4\<rparr>))"
  show "enc (rwl_owner ?s) (readers ?s) (writers ?s)"
    using enc_write [OF assms(2)] W by (simp add: granted_def rw_consts)
qed (use assms in \<open>auto simp: granted_def rw_consts at_def\<close>)

lemma downgrade_granted:
  assumes "rwinv s" "proc_addr t" "t \<in># writers s" "\<not> wakes (rw_pc s t)"
  shows "rwinv (goto t (if rwl_owner s AND 1 \<noteq> 0 then EnterWake else Idle None)
    (granted t RW_DOWNGRADE (s\<lparr>rwl_owner := rwl_owner s + (8 - 4 - t)\<rparr>)))" (is "rwinv (goto t ?c ?u)")
proof (rule rwinv_step [OF assms(1), of _ t ?c])
  note e = rwinvD(1) [OF assms(1)]
  have W: "writers s = {#t#}" "readers s = {#}" using e assms(3) by (auto simp: enc_def)
  have "enc (rwl_owner s) {#} {#t#}" using e W by simp
  from enc_downgrade [OF this] show "enc (rwl_owner (goto t ?c ?u)) (readers (goto t ?c ?u)) (writers (goto t ?c ?u))"
    using W by (simp add: granted_def rw_consts)
  show "u \<noteq> t \<Longrightarrow> u \<in># writers (goto t ?c ?u) \<longleftrightarrow> u \<in># writers s" for u
    using W by (simp add: granted_def rw_consts)
qed (use assms in \<open>auto simp: granted_def rw_consts at_def wakes_def split: if_splits\<close>)

lemma release:
  assumes "rwinv s" "\<not> wakes (rw_pc s t)" "enc x R W" "c = Idle None \<or> c = ExitWake" "proc_addr t"
    and "\<And>u. u \<noteq> t \<Longrightarrow> u \<in># W \<longleftrightarrow> u \<in># writers s" "\<And>u. u \<noteq> t \<Longrightarrow> u \<in># R \<longleftrightarrow> u \<in># readers s"
    and "rwl_owner s AND 1 \<noteq> 0 \<Longrightarrow> c = ExitWake"
  shows "rwinv (goto t c (s\<lparr>rwl_owner := x, readers := R, writers := W\<rparr>))"
  by (rule rwinv_step [OF assms(1), of _ t c]) (use assms in \<open>auto simp: at_def wakes_def\<close>)

lemma enter_cas_inv:
  assumes "rwinv s" "rw_pc s t = EnterCas f v" "Suc (size (readers s)) < 2 ^ 60"
  shows "rwinv (enter_cas t f v s)"
proof -
  note a = atD [OF assms(1,2)]
  have p: "proc_addr t" using a(2) by simp
  note P = proc_addr_RW_PROC [OF p]
  have nw: "\<not> wakes (rw_pc s t)" using assms(2) by (simp add: wakes_def)
  have "f AND 3 = 0 \<or> f AND 3 = 1 \<or> f AND 3 = 2" using a(1) by auto
  then obtain op where op: "rw_ops (f AND 3) = Some op" by (auto simp: rw_ops_simps)
  show ?thesis
  proof (cases "rwl_owner s = v")
    case False
    then have "enter_cas t f v s = goto t (EnterTop f) s" using op by (simp add: enter_cas_def rw_cas_def RW_OPMASK_def)
    moreover have "at s t (EnterTop f)" using a(1) p by (auto simp: at_def)
    ultimately show ?thesis using rwinv_goto [OF assms(1)] nw by simp
  next
    case True
    from a(1) consider (w) "f AND 3 = 0" "t \<notin># writers s" "v = 0" | (r) "f AND 3 = 1" "t \<notin># writers s" "v AND 4 = 0"
      | (d) "f AND 3 = 2" "t \<in># writers s" by auto
    then show ?thesis
    proof cases
      case w
      then have "v AND 5 \<noteq> 5" by (simp add: and5_iff)
      then have "enter_cas t f v s = goto t (Idle None) (granted t RW_WRITE (s\<lparr>rwl_owner := v + (4 + t)\<rparr>))"
        using True P w(1) by (simp add: enter_cas_def rw_cas_def rw_ops_simps rw_consts)
      then show ?thesis using writer_granted [OF assms(1) p _ nw] True w by (simp add: add.commute)
    next
      case r
      then have "v AND 5 \<noteq> 5" by (simp add: and5_iff)
      then have "enter_cas t f v s = goto t (Idle None) (granted t RW_READ (s\<lparr>rwl_owner := rwl_owner s + 8\<rparr>))"
        using True r by (simp add: enter_cas_def rw_cas_def rw_ops_simps rw_consts)
      then show ?thesis using reader_granted [OF assms(1) p _ _ assms(3) nw] True r by simp
    next
      case d
      have "v AND 4 \<noteq> 0" using d(2) enc_wrlock [OF rwinvD(1) [OF assms(1)]] True by auto
      then have "enter_cas t f v s = goto t (if rwl_owner s AND 1 \<noteq> 0 then EnterWake else Idle None)
          (granted t RW_DOWNGRADE (s\<lparr>rwl_owner := rwl_owner s + (8 - 4 - t)\<rparr>))"
        using True P d by (auto simp: enter_cas_def rw_cas_def rw_ops_simps rw_consts and5_iff)
      then show ?thesis using downgrade_granted [OF assms(1) p d(2) nw] by simp
    qed
  qed
qed

lemma read_top_inv:
  assumes "rwinv s" "rw_pc s t = ReadTop"
  shows "rwinv (read_top t s)"
proof -
  note a = atD [OF assms]
  have p: "proc_addr t" using a(2) by simp
  show ?thesis
    using a(1) p assms(2) by (auto simp: read_top_def rw_consts at_def Let_def wakes_def intro!: rwinv_goto [OF assms(1)])
qed

lemma read_cas_inv:
  assumes "rwinv s" "rw_pc s t = ReadCas v" "Suc (size (readers s)) < 2 ^ 60"
  shows "rwinv (read_cas t v s)"
proof -
  note a = atD [OF assms(1,2)]
  have p: "proc_addr t" using a(2) by simp
  have nw: "\<not> wakes (rw_pc s t)" using assms(2) by (simp add: wakes_def)
  show ?thesis
  proof (cases "rwl_owner s = v")
    case True
    then have "read_cas t v s = goto t (Idle None) (granted t RW_READ (s\<lparr>rwl_owner := rwl_owner s + 8\<rparr>))"
      by (simp add: read_cas_def rw_cas_def READ_INCR_8)
    then show ?thesis using reader_granted [OF assms(1) p _ _ assms(3) nw] a(1) True by simp
  next
    case False
    then show ?thesis using a(1) p nw
      by (auto simp: read_cas_def rw_cas_def at_def RW_READ_def intro!: rwinv_goto [OF assms(1)])
  qed
qed

lemma write_cas_inv:
  assumes "rwinv s" "rw_pc s t = WriteCas"
  shows "rwinv (write_cas t s)"
proof -
  note a = atD [OF assms]
  have p: "proc_addr t" using a(2) by simp
  have nw: "\<not> wakes (rw_pc s t)" using assms(2) by (simp add: wakes_def)
  show ?thesis
  proof (cases "rwl_owner s = 0")
    case True
    then have "write_cas t s = goto t (Idle None) (granted t RW_WRITE (s\<lparr>rwl_owner := t + 4\<rparr>))"
      using proc_or4 [OF p] proc_addr_RW_PROC [OF p]
      by (simp add: write_cas_def rw_cas_def RW_PROC_def RWLOCK_MASK_def RWLOCK_WRLOCK_def)
    then show ?thesis using writer_granted [OF assms(1) p True nw] by simp
  next
    case False
    then show ?thesis using a(1) p nw
      by (auto simp: write_cas_def rw_cas_def at_def RW_WRITE_def intro!: rwinv_goto [OF assms(1)])
  qed
qed

text \<open>The assertions never fail for a holder.\<close>

lemma assert_rdlock_holder:
  assumes "rwinv s" "t \<in># readers s"
  shows "rw_assert_rdlock (rwl_owner s) = None" "rwl_owner s AND 4 = 0"
proof -
  note e = rwinvD(1) [OF assms(1)]
  have W: "writers s = {#}" using e assms(2) by (auto simp: enc_def)
  then show four: "rwl_owner s AND 4 = 0" using enc_wrlock [OF e] by simp
  have "readers s \<noteq> {#}" using assms(2) by auto
  then have "0 < unat (rwl_owner s AND - 8)" using enc_owner_shared [of "rwl_owner s" "readers s"] e W
    by (simp add: nonempty_has_size)
  then have "rwl_owner s AND - 8 \<noteq> 0" by auto
  with four show "rw_assert_rdlock (rwl_owner s) = None" by (simp add: rw_assert_rdlock_def rw_consts)
qed

lemma assert_wrlock_holder:
  assumes "rwinv s" "t \<in># writers s"
  shows "rw_assert_wrlock t (rwl_owner s) = None" "rwl_owner s AND 4 \<noteq> 0" "writers s = {#t#}" "readers s = {#}"
proof -
  note e = rwinvD(1) [OF assms(1)]
  show W: "writers s = {#t#}" "readers s = {#}" using e assms(2) by (auto simp: enc_def)
  then show four: "rwl_owner s AND 4 \<noteq> 0" using enc_wrlock [OF e] by simp
  have "proc_addr t" using e W by (auto simp: enc_def)
  then show "rw_assert_wrlock t (rwl_owner s) = None"
    using four enc_owner_exclusive [of "rwl_owner s" "readers s" t] e W proc_addr_RW_PROC [of t]
    by (simp add: rw_assert_wrlock_def rw_consts)
qed

lemma exit_top_inv:
  assumes "rwinv s" "rw_pc s t = ExitTop"
  shows "rwinv (exit_top t s)"
proof -
  note a = atD [OF assms]
  have p: "proc_addr t" using a(2) by simp
  have "if rwl_owner s AND 4 \<noteq> 0 then t \<in># writers s else t \<in># readers s"
    using a(1) assert_rdlock_holder(2) [OF assms(1), of t] assert_wrlock_holder(2) [OF assms(1), of t] by auto
  then have "at s t (ExitAssert (rwl_owner s AND 4 \<noteq> 0))" using p by (simp add: at_def)
  then show ?thesis using rwinv_goto [OF assms(1)] assms(2) by (simp add: exit_top_def rw_consts wakes_def)
qed

lemma exit_assert_inv:
  assumes "rwinv s" "rw_pc s t = ExitAssert w"
  shows "rwinv (exit_assert t w s)"
proof -
  note a = atD [OF assms]
  have p: "proc_addr t" using a(2) by simp
  have "exit_assert t w s = goto t (ExitLoop w) s"
    using a(1) assert_rdlock_holder(1) [OF assms(1), of t] assert_wrlock_holder(1) [OF assms(1), of t]
    by (auto simp: exit_assert_def goto_or_panic_def)
  moreover have "at s t (ExitLoop w)" using a(1) p by (simp add: at_def)
  ultimately show ?thesis using rwinv_goto [OF assms(1)] assms(2) by (simp add: wakes_def)
qed

lemma exit_cas_inv:
  assumes "rwinv s" "rw_pc s t = ExitCas w v"
  shows "rwinv (exit_cas t w v s)"
proof -
  note a = atD [OF assms]
  have p: "proc_addr t" using a(2) by simp
  have nw: "\<not> wakes (rw_pc s t)" using assms(2) by (simp add: wakes_def)
  show ?thesis
  proof (cases "rwl_owner s = v")
    case False
    then show ?thesis using a(1) p nw
      by (auto simp: exit_cas_def rw_cas_def at_def Let_def intro!: rwinv_goto [OF assms(1)])
  next
    case True
    let ?c = "if v AND 1 \<noteq> 0 then ExitWake else Idle None"
    show ?thesis
    proof (cases w)
      case True
      then have tw: "t \<in># writers s" using a(1) by simp
      note W = assert_wrlock_holder(3,4) [OF assms(1) tw]
      have "exit_cas t w v s = goto t ?c (s\<lparr>rwl_owner := 0, readers := {#}, writers := {#}\<rparr>)"
        using \<open>rwl_owner s = v\<close> True W by (simp add: exit_cas_def rw_cas_def Let_def RWLOCK_WAIT_def)
      moreover have "rwinv (goto t ?c (s\<lparr>rwl_owner := 0, readers := {#}, writers := {#}\<rparr>))"
        by (rule release [OF assms(1) nw enc_free]) (use W p \<open>rwl_owner s = v\<close> in auto)
      ultimately show ?thesis by simp
    next
      case False
      then have tr: "t \<in># readers s" using a(1) by simp
      have W: "writers s = {#}" using rwinvD(1) [OF assms(1)] tr by (auto simp: enc_def)
      let ?s = "s\<lparr>rwl_owner := (v - 8) AND - 4, readers := readers s - {#t#}, writers := {#}\<rparr>"
      have "exit_cas t w v s = goto t ?c ?s"
        using \<open>rwl_owner s = v\<close> False W by (simp add: exit_cas_def rw_cas_def Let_def rw_consts)
      moreover have "enc ((v - 8) AND - 4) (readers s - {#t#}) {#}"
        using enc_release(1) [of v "readers s" t] rwinvD(1) [OF assms(1)] W tr \<open>rwl_owner s = v\<close> by simp
      then have "rwinv (goto t ?c ?s)"
        by (rule release [OF assms(1) nw]) (use W p \<open>rwl_owner s = v\<close> in \<open>auto simp: in_diff_count\<close>)
      ultimately show ?thesis by simp
    qed
  qed
qed

lemma exit_read_assert_inv:
  assumes "rwinv s" "rw_pc s t = ExitReadAssert v"
  shows "rwinv (exit_read_assert t v s)"
proof -
  note a = atD [OF assms]
  have p: "proc_addr t" using a(2) by simp
  show ?thesis
    using a(1) p assert_rdlock_holder(1) [OF assms(1), of t] assms(2)
    by (auto simp: exit_read_assert_def goto_or_panic_def at_def wakes_def RWLOCK_WAIT_def intro!: rwinv_goto [OF assms(1)])
qed

lemma exit_write_assert_inv:
  assumes "rwinv s" "rw_pc s t = ExitWriteAssert v"
  shows "rwinv (exit_write_assert t v s)"
proof -
  note a = atD [OF assms]
  have p: "proc_addr t" using a(2) by simp
  show ?thesis
    using a(1) p assert_wrlock_holder(1) [OF assms(1), of t] assms(2)
    by (auto simp: exit_write_assert_def goto_or_panic_def at_def wakes_def RWLOCK_WAIT_def intro!: rwinv_goto [OF assms(1)])
qed

lemma exit_read_cas_inv:
  assumes "rwinv s" "rw_pc s t = ExitReadCas v"
  shows "rwinv (exit_read_cas t v s)"
proof -
  note a = atD [OF assms]
  have p: "proc_addr t" using a(2) by simp
  have nw: "\<not> wakes (rw_pc s t)" using assms(2) by (simp add: wakes_def)
  show ?thesis
  proof (cases "rwl_owner s = v")
    case False
    then show ?thesis using a(1) p nw
      by (auto simp: exit_read_cas_def rw_cas_def at_def intro!: rwinv_goto [OF assms(1)])
  next
    case True
    have tr: "t \<in># readers s" "v AND 1 = 0" using a(1) by simp_all
    have W: "writers s = {#}" using rwinvD(1) [OF assms(1)] tr(1) by (auto simp: enc_def)
    let ?s = "s\<lparr>rwl_owner := v - 8, readers := readers s - {#t#}, writers := {#}\<rparr>"
    have "exit_read_cas t v s = goto t (Idle None) ?s"
      using True W by (simp add: exit_read_cas_def rw_cas_def READ_INCR_8)
    moreover have "enc (v - 8) (readers s - {#t#}) {#}"
      using enc_release(2) [of v "readers s" t] rwinvD(1) [OF assms(1)] W tr True by simp
    then have "rwinv (goto t (Idle None) ?s)"
      by (rule release [OF assms(1) nw]) (use W p True tr in \<open>auto simp: in_diff_count\<close>)
    ultimately show ?thesis by simp
  qed
qed

lemma exit_write_cas_inv:
  assumes "rwinv s" "rw_pc s t = ExitWriteCas v"
  shows "rwinv (exit_write_cas t v s)"
proof -
  note a = atD [OF assms]
  have p: "proc_addr t" using a(2) by simp
  have nw: "\<not> wakes (rw_pc s t)" using assms(2) by (simp add: wakes_def)
  show ?thesis
  proof (cases "rwl_owner s = v")
    case False
    then show ?thesis using a(1) p nw
      by (auto simp: exit_write_cas_def rw_cas_def at_def intro!: rwinv_goto [OF assms(1)])
  next
    case True
    have tw: "t \<in># writers s" "v AND 1 = 0" using a(1) by simp_all
    note W = assert_wrlock_holder(3,4) [OF assms(1) tw(1)]
    have "exit_write_cas t v s = goto t (Idle None) (s\<lparr>rwl_owner := 0, readers := {#}, writers := {#}\<rparr>)"
      using True W by (simp add: exit_write_cas_def rw_cas_def)
    moreover have "rwinv (goto t (Idle None) (s\<lparr>rwl_owner := 0, readers := {#}, writers := {#}\<rparr>))"
      by (rule release [OF assms(1) nw enc_free]) (use W p True tw in auto)
    ultimately show ?thesis by simp
  qed
qed

lemma exec_goto:
  assumes "rwinv s" "rw_pc s t = c" "(\<forall>r. c \<noteq> Idle r)" "\<not> wakes c" "loc (t \<in># writers s) (t \<in># readers s) d" "\<And>f. d \<noteq> Asleep f"
  shows "rwinv (goto t d s)"
  using atD(2) [OF assms(1,2)] assms by (intro rwinv_goto) (auto simp: at_def)

lemma rw_exec_inv:
  assumes "rwinv s" "Suc (size (readers s)) < 2 ^ 60"
  shows "rwinv (rw_exec t sig (rw_pc s t) s)"
proof (cases "rw_pc s t")
  case (ExitLoop w)
  with assms atD(1) [OF assms(1) ExitLoop] show ?thesis by (auto intro!: exec_goto simp: wakes_def)
next
  case ExitReadTop
  with assms atD(1) [OF assms(1) ExitReadTop] show ?thesis by (auto intro!: exec_goto simp: wakes_def)
next
  case ExitWriteTop
  with assms atD(1) [OF assms(1) ExitWriteTop] show ?thesis by (auto intro!: exec_goto simp: wakes_def)
qed (use assms in \<open>simp_all add: enter_top_inv enter_diag_inv enter_sleep_inv enter_woken_inv enter_cas_inv rwinv_wakeup
  read_top_inv read_cas_inv write_cas_inv exit_top_inv exit_assert_inv exit_cas_inv exit_read_assert_inv exit_read_cas_inv
  exit_write_assert_inv exit_write_cas_inv\<close>)

lemma call_inv:
  assumes "rwinv s" "rw_pc s t = Idle r" "proc_addr t" "allowed s t c"
  shows "rwinv (goto t (entry c) s)"
  by (rule rwinv_goto [OF assms(1)]) (use assms in \<open>cases c; auto simp: at_def wakes_def rw_consts\<close>)+

lemma signal_inv:
  assumes "rwinv s" "rw_pc s t = Asleep f"
  shows "rwinv (goto t (Woken f) s)"
  using atD(1) [OF assms] assms by (intro exec_goto) (auto simp: wakes_def)

lemma rw_exec_cost: "size (readers (rw_exec t sig c s)) \<le> Suc (size (readers s))"
proof -
  have d: "size (M - {#t#}) \<le> size M" for M by (simp add: size_mset_mono)
  then have "size (M - {#t#}) \<le> Suc (size M)" for M using le_SucI by blast
  then show ?thesis
    by (cases c) (auto simp: enter_top_def enter_diag_def enter_sleep_def enter_woken_def enter_cas_def read_top_def
      read_cas_def write_cas_def exit_top_def exit_assert_def exit_cas_def exit_read_assert_def exit_read_cas_def
      exit_write_assert_def exit_write_cas_def goto_or_panic_def wakeup_def granted_def rw_cas_def Let_def
      split: option.split)
qed

interpretation rw: budget_system rw_step rwinv "\<lambda>s. size (readers s)" "2 ^ 60"
proof
  fix s l s' assume i: "rwinv s" and b: "Suc (size (readers s)) < 2 ^ 60" and "rw_step s l s'"
  from this(3) show "rwinv s'"
  proof cases
    case (call t r c)
    with call_inv [OF i] show ?thesis by simp
  next
    case (run t sig)
    with rw_exec_inv [OF i b] show ?thesis by simp
  next
    case (signal t f)
    with signal_inv [OF i] show ?thesis by simp
  qed
next
  fix s l s' assume "rw_step s l s'"
  then show "size (readers s') \<le> Suc (size (readers s))"
    by cases (simp_all add: rw_exec_cost)
qed

section \<open>Properties\<close>

text \<open>A lock after \<open>rw_init\<close>, with no thread inside the lock code.\<close>

definition fresh_lock :: rwstate where
  "fresh_lock = rw_init \<lparr>rwl_owner = 0, rw_pc = \<lambda>_. Idle None, readers = {#}, writers = {#}\<rparr>"

lemma fresh_inv: "rwinv fresh_lock"
  using enc_free by (simp add: fresh_lock_def rw_init_def rwinv_def at_def sleepers_ok_def)

lemma fresh_run:
  assumes "lrun rw_step fresh_lock ls s" "length ls < 2 ^ 60"
  shows "rwinv s"
  using rw.budget_run [OF fresh_inv assms(1)] assms(2) by (simp add: fresh_lock_def rw_init_def)

text \<open>
  C27. Mutual exclusion: after any interleaving of steps of any threads, a thread that was granted the
  lock for writing is the only holder, with its address and the write bit in the lock word; otherwise
  the word counts the readers exactly; the word is 0 exactly when nobody holds the lock.
\<close>

theorem rwlock_exclusion:
  assumes "lrun rw_step fresh_lock ls s" "length ls < 2 ^ 60"
  shows "(\<forall>t. t \<in># writers s \<longrightarrow> writers s = {#t#} \<and> readers s = {#} \<and> RWLOCK_OWNER (rwl_owner s) = t)
    \<and> (writers s = {#} \<longrightarrow> unat (RWLOCK_OWNER (rwl_owner s)) = 8 * size (readers s))
    \<and> (rwl_owner s AND RWLOCK_WRLOCK \<noteq> 0 \<longleftrightarrow> writers s \<noteq> {#})
    \<and> (rwl_owner s = 0 \<longleftrightarrow> readers s = {#} \<and> writers s = {#})"
proof -
  have i: "rwinv s" by (rule fresh_run [OF assms])
  note e = rwinvD(1) [OF i]
  show ?thesis
    using assert_wrlock_holder(3,4) [OF i] enc_owner_exclusive [of "rwl_owner s" "readers s"] enc_wrlock [OF e] enc_zero [OF e]
      enc_owner_shared [of "rwl_owner s" "readers s"] e
    by (auto simp: RWLOCK_OWNER_def RWLOCK_MASK_def RWLOCK_WRLOCK_def)
qed

text \<open>
  C28. No lost wakeup: whenever a thread sleeps on the lock, either some thread is about to call
  \<open>wakeup\<close>, or the wait bit is set and the lock is held (for a sleeping reader: held for writing), so
  the release will wake it. In particular nobody sleeps on a free lock unless a wakeup is under way.
\<close>

theorem rwlock_no_lost_wakeup:
  assumes "lrun rw_step fresh_lock ls s" "length ls < 2 ^ 60" "rw_pc s t = Asleep f"
  shows "(\<exists>u. rw_pc s u = EnterWake \<or> rw_pc s u = ExitWake)
    \<or> rwl_owner s AND RWLOCK_WAIT \<noteq> 0 \<and> readers s + writers s \<noteq> {#} \<and> (f AND RW_OPMASK = RW_READ \<longrightarrow> writers s \<noteq> {#})"
proof -
  have i: "rwinv s" by (rule fresh_run [OF assms(1,2)])
  note e = rwinvD(1) [OF i]
  have "(\<exists>u. wakes (rw_pc s u)) \<or> rwl_owner s AND 1 \<noteq> 0 \<and> (f AND 3 = 1 \<longrightarrow> rwl_owner s AND 4 \<noteq> 0)"
    using rwinvD(3) [OF i] assms(3) unfolding sleepers_ok_def by blast
  moreover have "readers s + writers s \<noteq> {#}" if "rwl_owner s AND 1 \<noteq> 0" using that enc_zero [OF e] by auto
  ultimately show ?thesis using enc_wrlock [OF e] by (auto simp: wakes_def RW_OPMASK_def RW_READ_def RWLOCK_WAIT_def)
qed

text \<open>
  C29. Threads that keep to the rules of use never panic: no thread is reported as locking against
  itself, and the assertions in the release paths hold. Nor does the count of readers run into the flag bits or over the
  end of the word: while no thread holds the lock for writing, the word is eight times the number of readers plus the bits
  RWLOCK_WAIT and RWLOCK_WRWANT, of which the second is only set with the first.
\<close>

theorem rwlock_no_panic:
  assumes "lrun rw_step fresh_lock ls s" "length ls < 2 ^ 60"
  shows "rw_pc s t \<noteq> Panicked m
    \<and> (writers s = {#} \<longrightarrow> (\<exists>w \<in> {0, unat RWLOCK_WAIT, unat RWLOCK_WAIT + unat RWLOCK_WRWANT}. unat (rwl_owner s) = 8 * size (readers s) + w))"
proof
  show "rw_pc s t \<noteq> Panicked m" using atD(1) [OF fresh_run [OF assms], of t] by (cases "rw_pc s t") auto
  show "writers s = {#} \<longrightarrow> (\<exists>w \<in> {0, unat RWLOCK_WAIT, unat RWLOCK_WAIT + unat RWLOCK_WRWANT}. unat (rwl_owner s) = 8 * size (readers s) + w)"
    using rwinvD(1) [OF fresh_run [OF assms]] by (auto elim!: encE simp: RWLOCK_WAIT_def RWLOCK_WRWANT_def)
qed

text \<open>
  A reader is granted a lock that is not write-locked in two steps of its own, whatever the other
  bits are: a waiting writer (RWLOCK_WRWANT) does not hold readers back. A writer is granted a free
  lock in two steps.
\<close>

theorem rwlock_granted:
  assumes "rw_pc s t = EnterTop f"
    and "f AND RW_OPMASK = RW_READ \<and> rwl_owner s AND RWLOCK_WRLOCK = 0 \<or> f AND RW_OPMASK = RW_WRITE \<and> rwl_owner s = 0"
  shows "\<exists>s'. lrun rw_step s [Run t None, Run t None] s' \<and> rw_pc s' t = Idle None
    \<and> (f AND RW_OPMASK = RW_READ \<longrightarrow> readers s' = add_mset t (readers s) \<and> rwl_owner s' = rwl_owner s + RWLOCK_READ_INCR)
    \<and> (f AND RW_OPMASK = RW_WRITE \<longrightarrow> writers s' = add_mset t (writers s) \<and> rwl_owner s' = RWLOCK_WRLOCK + RW_PROC t)"
proof -
  let ?u = "goto t (EnterCas f (rwl_owner s)) s"
  have top: "rw_exec t None (rw_pc s t) s = ?u"
    using assms by (auto simp: enter_top_def RW_OPMASK_def RW_READ_def RW_WRITE_def RWLOCK_WRLOCK_def rw_ops_simps)
  have "rw_step s (Run t None) ?u" using rw_step.run [of s t None] top by simp
  then have run: "lrun rw_step s [Run t None, Run t None] (enter_cas t f (rwl_owner s) ?u)"
    using rw_step.run [of ?u t None] by auto
  have "rwl_owner s AND 5 \<noteq> 5" using assms(2) by (auto simp: and5_iff RWLOCK_WRLOCK_def)
  then show ?thesis
    using assms(2) by (intro exI [of _ "enter_cas t f (rwl_owner s) ?u"] conjI [OF run])
      (auto simp: enter_cas_def rw_cas_def RW_OPMASK_def RW_READ_def RW_WRITE_def RWLOCK_WRLOCK_def RWLOCK_WAIT_def
        READ_INCR_8 rw_ops_simps granted_def Let_def)
qed

text \<open>
  A downgrade is never checked: the checks stand inside the loop that a downgrade does not enter,
  so a thread that downgrades a free lock gets 0 as the result and leaves a lock word with the bits of
  its negated address.
\<close>

theorem rwlock_downgrade_unchecked:
  assumes "rw_pc s t = EnterTop RW_DOWNGRADE" "rwl_owner s = 0"
  shows "\<exists>s'. lrun rw_step s [Run t None, Run t None] s' \<and> rw_pc s' t = Idle None \<and> rwl_owner s' = 4 - RW_PROC t"
proof -
  let ?u = "goto t (EnterCas RW_DOWNGRADE 0) s"
  have op: "rw_ops (RW_DOWNGRADE AND RW_OPMASK) = Some \<lparr>op_inc = 4, op_check = 0, op_wait_set = 0, op_proc_mult = - 1\<rparr>"
    using rw_ops_simps(3) by (simp add: RW_DOWNGRADE_def RW_OPMASK_def)
  have top: "rw_exec t None (rw_pc s t) s = ?u"
    using assms by (simp add: enter_top_def op)
  have "rw_step s (Run t None) ?u" using rw_step.run [of s t None] top by simp
  then have run: "lrun rw_step s [Run t None, Run t None] (enter_cas t RW_DOWNGRADE 0 ?u)"
    using rw_step.run [of ?u t None] by auto
  show ?thesis
    using assms(2) by (intro exI [of _ "enter_cas t RW_DOWNGRADE 0 ?u"] conjI [OF run])
      (simp_all add: enter_cas_def op rw_cas_def RWLOCK_WRLOCK_def RWLOCK_WAIT_def granted_def Let_def)
qed

section \<open>Witnesses\<close>

text \<open>One proc and a lock it wants.\<close>

definition proc1 :: u_long where "proc1 = 2 ^ 63"
definition proc2 :: u_long where "proc2 = 2 ^ 63 + 8"

lemma procs: "proc_addr proc1" "proc_addr proc2"
  by (simp_all add: proc_addr_def proc1_def proc2_def RW_PROC_def RWLOCK_MASK_def)

lemma write_run: "\<exists>s. lrun rw_step fresh_lock [Call proc1 CEnterWrite, Run proc1 None] s \<and> writers s = {#proc1#}"
proof -
  let ?u = "goto proc1 WriteCas fresh_lock"
  have "rw_step fresh_lock (Call proc1 CEnterWrite) ?u"
    using rw_step.call [of fresh_lock proc1 None CEnterWrite] procs by (simp add: fresh_lock_def rw_init_def)
  then have "lrun rw_step fresh_lock [Call proc1 CEnterWrite, Run proc1 None] (write_cas proc1 ?u)"
    using rw_step.run [of ?u proc1 None] by auto
  moreover have "writers (write_cas proc1 ?u) = {#proc1#}"
    by (simp add: write_cas_def rw_cas_def fresh_lock_def rw_init_def granted_def)
  ultimately show ?thesis by blast
qed

theorem rwlock_exclusion_witness:
  "\<exists>ls s. lrun rw_step fresh_lock ls s \<and> proc1 \<in># writers s \<and> readers s = {#} \<and> RWLOCK_OWNER (rwl_owner s) = proc1"
proof -
  obtain s where s: "lrun rw_step fresh_lock [Call proc1 CEnterWrite, Run proc1 None] s" "writers s = {#proc1#}"
    using write_run by blast
  from s rwlock_exclusion [OF s(1)] show ?thesis by (intro exI [of _ "[Call proc1 CEnterWrite, Run proc1 None]"] exI [of _ s]) simp
qed

theorem rwlock_no_panic_witness:
  "\<exists>ls s. lrun rw_step fresh_lock ls s \<and> writers s = {#proc1#} \<and> (\<forall>m. rw_pc s proc1 \<noteq> Panicked m)"
proof -
  obtain s where s: "lrun rw_step fresh_lock [Call proc1 CEnterWrite, Run proc1 None] s" "writers s = {#proc1#}"
    using write_run by blast
  have "rw_pc s proc1 \<noteq> Panicked m" for m using rwlock_no_panic [OF s(1), of proc1 m] by simp
  with s show ?thesis by blast
qed

theorem rwlock_granted_witness:
  "\<exists>s s'. rwl_owner s = 8 + 3 \<and> lrun rw_step s [Run proc2 None, Run proc2 None] s' \<and> rwl_owner s' = 16 + 3"
proof -
  let ?s = "goto proc2 (EnterTop RW_READ) (fresh_lock\<lparr>rwl_owner := 11, readers := {#proc1#}\<rparr>)"
  have "rw_pc ?s proc2 = EnterTop RW_READ" "RW_READ AND RW_OPMASK = RW_READ" "rwl_owner ?s AND RWLOCK_WRLOCK = 0"
    by (simp_all add: RW_READ_def RW_OPMASK_def RWLOCK_WRLOCK_def)
  with rwlock_granted [of ?s proc2 RW_READ] obtain s' where
    "lrun rw_step ?s [Run proc2 None, Run proc2 None] s'" "rwl_owner s' = rwl_owner ?s + RWLOCK_READ_INCR" by blast
  then show ?thesis by (intro exI [of _ ?s] exI [of _ s'] conjI) (simp_all add: READ_INCR_8)
qed

theorem rwlock_downgrade_unchecked_witness:
  "\<exists>s s'. lrun rw_step s [Run proc1 None, Run proc1 None] s' \<and> rw_pc s' proc1 = Idle None \<and> rwl_owner s' = 4 - proc1"
proof -
  let ?s = "goto proc1 (EnterTop RW_DOWNGRADE) fresh_lock"
  have "rw_pc ?s proc1 = EnterTop RW_DOWNGRADE" "rwl_owner ?s = 0" by (simp_all add: fresh_lock_def rw_init_def)
  moreover have "RW_PROC proc1 = proc1" using procs by (simp add: proc_addr_def)
  ultimately show ?thesis using rwlock_downgrade_unchecked [of ?s proc1] by metis
qed

text \<open>A second writer goes to sleep.\<close>

lemma sleep_run:
  assumes "rwl_owner s \<noteq> 0" "rw_pc s t = Idle r" "t \<notin># writers s" "proc_addr t" "RW_PROC (rwl_owner s) \<noteq> t"
  shows "\<exists>s'. lrun rw_step s [Call t (CEnter 0), Run t None, Run t None, Run t None] s' \<and> rw_pc s' t = Asleep 0"
proof -
  let ?v = "rwl_owner s"
  let ?s1 = "goto t (EnterTop 0) s" and ?s2 = "goto t (EnterDiag 0 ?v) (goto t (EnterTop 0) s)"
  let ?s3 = "goto t (EnterSleep 0 ?v) (goto t (EnterDiag 0 ?v) (goto t (EnterTop 0) s))"
  have P: "RW_PROC t = t" using assms(4) by (simp add: proc_addr_def)
  have 1: "rw_step s (Call t (CEnter 0)) ?s1"
    using rw_step.call [of s t r "CEnter 0"] assms by (simp add: RW_WRITE_def)
  have 2: "rw_step ?s1 (Run t None) ?s2"
    using rw_step.run [of ?s1 t None] assms(1) by (simp add: enter_top_def rw_ops_simps)
  have 3: "rw_step ?s2 (Run t None) ?s3"
    using rw_step.run [of ?s2 t None] assms(5) P
    by (simp add: enter_diag_def rw_enter_diag_def RW_WRITE_def goto_or_panic_def Let_def)
  have 4: "rw_step ?s3 (Run t None) (enter_sleep t 0 ?v ?s3)" using rw_step.run [of ?s3 t None] by simp
  have "rw_pc (enter_sleep t 0 ?v ?s3) t = Asleep 0" by (simp add: enter_sleep_def rw_ops_simps rw_cas_def)
  with 1 2 3 4 show ?thesis by (intro exI [of _ "enter_sleep t 0 ?v ?s3"]) (simp del: One_nat_def, blast)
qed

theorem rwlock_no_lost_wakeup_witness:
  "\<exists>ls s. lrun rw_step fresh_lock ls s \<and> rw_pc s proc2 = Asleep 0
    \<and> ((\<exists>u. rw_pc s u = EnterWake \<or> rw_pc s u = ExitWake) \<or> rwl_owner s AND RWLOCK_WAIT \<noteq> 0)"
proof -
  let ?u = "write_cas proc1 (goto proc1 WriteCas fresh_lock)"
  have w: "?u = goto proc1 (Idle None) (granted proc1 RW_WRITE (fresh_lock\<lparr>rwl_owner := proc1 + 4\<rparr>))"
    using proc_or4 [OF procs(1)] procs(1)
    by (simp add: write_cas_def rw_cas_def fresh_lock_def rw_init_def proc_addr_def RWLOCK_WRLOCK_def goto_def granted_def RW_WRITE_def)
  have "rw_step fresh_lock (Call proc1 CEnterWrite) (goto proc1 WriteCas fresh_lock)"
    using rw_step.call [of fresh_lock proc1 None CEnterWrite] procs by (simp add: fresh_lock_def rw_init_def)
  then have a: "lrun rw_step fresh_lock [Call proc1 CEnterWrite, Run proc1 None] ?u"
    using rw_step.run [of "goto proc1 WriteCas fresh_lock" proc1 None] by auto
  have "\<exists>s'. lrun rw_step ?u [Call proc2 (CEnter 0), Run proc2 None, Run proc2 None, Run proc2 None] s' \<and> rw_pc s' proc2 = Asleep 0"
  proof (rule sleep_run [of _ _ None])
    have f: "rwl_owner ?u = proc1 + 4" "rw_pc ?u proc2 = Idle None" "writers ?u = {#proc1#}"
      unfolding w by (simp_all add: granted_def fresh_lock_def rw_init_def RW_WRITE_def)
    show "rwl_owner ?u \<noteq> 0" unfolding f by (simp add: proc1_def)
    show "rw_pc ?u proc2 = Idle None" by (rule f)
    show "proc2 \<notin># writers ?u" unfolding f by (simp add: proc1_def proc2_def)
    show "RW_PROC (rwl_owner ?u) \<noteq> proc2" unfolding f by (simp add: proc1_def proc2_def RW_PROC_def RWLOCK_MASK_def)
  qed (rule procs)
  then obtain s where b: "lrun rw_step ?u [Call proc2 (CEnter 0), Run proc2 None, Run proc2 None, Run proc2 None] s"
    "rw_pc s proc2 = Asleep 0" by blast
  let ?ls = "[Call proc1 CEnterWrite, Run proc1 None] @ [Call proc2 (CEnter 0), Run proc2 None, Run proc2 None, Run proc2 None]"
  have r: "lrun rw_step fresh_lock ?ls s" using a b(1) by (subst lrun_append) blast
  from rwlock_no_lost_wakeup [OF r _ b(2)] r b(2) show ?thesis by (intro exI [of _ ?ls] exI [of _ s] conjI) auto
qed

end
