(* ===== verification/Lockf.thy ===== *)
theory Lockf
  imports Prelude
begin

text \<open>
  The advisory record locks of kern/vfs_lockf.c. A lock structure is named by its address; the list
  of an inode is the list of addresses the \<open>lf_next\<close> fields of held locks form, so a position in it is
  a pair of the part before \<open>prev\<close> and the part from there on. In a request that waits, \<open>lf_next\<close> is the
  lock it waits for. Offsets are of type \<open>off_t\<close>: integers with the wrap-around of 64 bits written out.
  The code runs under the kernel lock, so others run only while it sleeps: in \<open>tsleep\<close>, where a call is divided here, and in
  \<open>pool_get\<close>. A call that sleeps in the \<open>pool_get\<close> of \<open>lf_split\<close> is divided there in \<open>Lockf_Split\<close>; here that allocation does not sleep.
\<close>

section \<open>Data\<close>

datatype lftype = F_RDLCK | F_UNLCK | F_WRLCK

definition F_WAIT :: u_short where "F_WAIT = 0x10"
definition F_FLOCK :: u_short where "F_FLOCK = 0x20"
definition F_POSIX :: u_short where "F_POSIX = 0x40"

record lockf =
  lf_flags :: u_short
  lf_type :: lftype
  lf_start :: int
  lf_end :: int
  lf_id :: nat
  lf_head :: nat
  lf_next :: "nat option"
  lf_blkhd :: "nat list"
  lf_uid :: nat
  lf_pid :: int

record lfstate =
  lf_mem :: "nat \<Rightarrow> lockf"
  lf_heads :: "nat \<Rightarrow> nat list"
  ui_lockcnt :: "nat \<Rightarrow> int"
  p_wchan :: "nat \<Rightarrow> nat option"

definition maxlocksperuid :: int where "maxlocksperuid = 1024"
definition maxlockdepth :: nat where "maxlockdepth = 50"

definition off_wrap :: "int \<Rightarrow> int" where
  "off_wrap x = (x + 2 ^ 63) mod 2 ^ 64 - 2 ^ 63"

definition upd_lf :: "nat \<Rightarrow> (lockf \<Rightarrow> lockf) \<Rightarrow> lfstate \<Rightarrow> lfstate" where
  "upd_lf a f st = st\<lparr>lf_mem := (lf_mem st)(a := f (lf_mem st a))\<rparr>"

definition set_head :: "nat \<Rightarrow> nat list \<Rightarrow> lfstate \<Rightarrow> lfstate" where
  "set_head h l st = st\<lparr>lf_heads := (lf_heads st)(h := l)\<rparr>"

section \<open>Allocation\<close>

text \<open>
  \<open>pool_get\<close> supplies the address \<open>new\<close>. It may sleep first; for the request of a call, which is allocated before the lists are read, this
  only delays the call, with its structure counted already.
\<close>

definition lf_alloc :: "nat \<Rightarrow> nat \<Rightarrow> nat \<Rightarrow> lfstate \<Rightarrow> lfstate option" where
  "lf_alloc new uid allowfail st =
     (if uid \<noteq> 0 \<and> allowfail \<noteq> 0
         \<and> ui_lockcnt st uid > (if allowfail = 1 then maxlocksperuid else maxlocksperuid * 2)
      then None
      else Some (upd_lf new (\<lambda>l. l\<lparr>lf_uid := uid\<rparr>) (st\<lparr>ui_lockcnt := (ui_lockcnt st)(uid := ui_lockcnt st uid + 1)\<rparr>)))"

definition lf_free :: "nat \<Rightarrow> lfstate \<Rightarrow> lfstate" where
  "lf_free lock st = (let uid = lf_uid (lf_mem st lock)
     in st\<lparr>ui_lockcnt := (ui_lockcnt st)(uid := ui_lockcnt st uid - 1)\<rparr>)"

section \<open>Searching\<close>

text \<open>
  The first lock of the list that overlaps: the case, the locks passed over, and the list from the
  overlap on. \<open>self\<close> stands for the type SELF, its negation for OTHERS. None is the panic.
\<close>

primrec lf_findoverlap :: "(nat \<Rightarrow> lockf) \<Rightarrow> nat list \<Rightarrow> nat \<Rightarrow> bool \<Rightarrow> (nat \<times> nat list \<times> nat list) option" where
  "lf_findoverlap m [] lock self = Some (0, [], [])"
| "lf_findoverlap m (lf # lfs) lock self =
     (let start = lf_start (m lock); en = lf_end (m lock); l = m lf;
          skip = map_option (\<lambda>(c, sk, rest). (c, lf # sk, rest)) (lf_findoverlap m lfs lock self)
      in if (self \<and> lf_id l \<noteq> lf_id (m lock)) \<or> (\<not> self \<and> lf_id l = lf_id (m lock)) then skip
         else if (lf_end l \<noteq> - 1 \<and> start > lf_end l) \<or> (en \<noteq> - 1 \<and> lf_start l > en) then
           (if self \<and> en \<noteq> - 1 \<and> lf_start l > en then Some (0, [], lf # lfs) else skip)
         else if lf_start l = start \<and> lf_end l = en then Some (1, [], lf # lfs)
         else if lf_start l \<le> start \<and> (lf_end l = - 1 \<or> (en \<noteq> - 1 \<and> lf_end l \<ge> en)) then Some (2, [], lf # lfs)
         else if start \<le> lf_start l \<and> (en = - 1 \<or> (lf_end l \<noteq> - 1 \<and> en \<ge> lf_end l)) then Some (3, [], lf # lfs)
         else if lf_start l < start \<and> (lf_end l \<ge> start \<or> lf_end l = - 1) then Some (4, [], lf # lfs)
         else if lf_start l > start \<and> en \<noteq> - 1 \<and> (lf_end l > en \<or> lf_end l = - 1) then Some (5, [], lf # lfs)
         else None)"

lemma lf_findoverlap_parts: "lf_findoverlap m lfs lock self = Some (c, sk, rest) \<Longrightarrow> lfs = sk @ rest"
  by (induction lfs arbitrary: c sk rest) (auto simp: Let_def split: if_splits)

lemma lf_findoverlap_shorter: "lf_findoverlap m lfs lock self = Some (c, sk, o' # rst) \<Longrightarrow> length rst < length lfs"
  using lf_findoverlap_parts [of m lfs lock self c sk "o' # rst"] by simp

text \<open>The first lock that blocks; the outer None is the panic.\<close>

function lf_getblock :: "(nat \<Rightarrow> lockf) \<Rightarrow> nat list \<Rightarrow> nat \<Rightarrow> nat option option" where
  "lf_getblock m lfs lock =
     (case lf_findoverlap m lfs lock False of
        None \<Rightarrow> None
      | Some (c, sk, rest) \<Rightarrow>
          (case rest of
             [] \<Rightarrow> Some None
           | ov # rst \<Rightarrow>
               if c = 0 then Some None
               else if lf_type (m lock) = F_WRLCK \<or> lf_type (m ov) = F_WRLCK then Some (Some ov)
               else lf_getblock m rst lock))"
  by pat_completeness auto

termination
  by (relation "measure (\<lambda>(m, lfs, lock). length lfs)") (auto dest: lf_findoverlap_shorter)

declare lf_getblock.simps [simp del]

section \<open>Waking\<close>

text \<open>\<open>wakeup_one\<close> makes the process that sleeps on the request runnable.\<close>

definition wakeup_one :: "nat \<Rightarrow> lfstate \<Rightarrow> lfstate" where
  "wakeup_one w st = st\<lparr>p_wchan := (\<lambda>p. if p_wchan st p = Some w then None else p_wchan st p)\<rparr>"

primrec wake_all :: "nat list \<Rightarrow> lfstate \<Rightarrow> lfstate" where
  "wake_all [] st = st"
| "wake_all (w # ws) st = wake_all ws (wakeup_one w (upd_lf w (\<lambda>l. l\<lparr>lf_next := None\<rparr>) st))"

definition lf_wakelock :: "nat \<Rightarrow> lfstate \<Rightarrow> lfstate" where
  "lf_wakelock lock st = wake_all (lf_blkhd (lf_mem st lock)) (upd_lf lock (\<lambda>l. l\<lparr>lf_blkhd := []\<rparr>) st)"

section \<open>Splitting\<close>

text \<open>
  \<open>lf_split\<close> on a lock that is followed by \<open>rst\<close>: the list that starts at \<open>lock1\<close> afterwards. \<open>sp\<close> is the
  address of the new structure.
\<close>

definition lf_split :: "nat \<Rightarrow> nat \<Rightarrow> nat \<Rightarrow> nat list \<Rightarrow> lfstate \<Rightarrow> nat list \<times> lfstate" where
  "lf_split sp lock1 lock2 rst st =
     (let l1 = lf_mem st lock1; l2 = lf_mem st lock2 in
      if lf_start l1 = lf_start l2 then
        (lock1 # rst, upd_lf lock1 (\<lambda>l. l\<lparr>lf_start := off_wrap (lf_end l2 + 1)\<rparr>) st)
      else if lf_end l1 = lf_end l2 then
        (lock1 # lock2 # rst, upd_lf lock1 (\<lambda>l. l\<lparr>lf_end := off_wrap (lf_start l2 - 1)\<rparr>) st)
      else
        let st = upd_lf sp (\<lambda>_. l1\<lparr>lf_start := off_wrap (lf_end l2 + 1), lf_blkhd := []\<rparr>)
                   (st\<lparr>ui_lockcnt := (ui_lockcnt st)(lf_uid l1 := ui_lockcnt st (lf_uid l1) + 1)\<rparr>)
        in (lock1 # lock2 # sp # rst, upd_lf lock1 (\<lambda>l. l\<lparr>lf_end := off_wrap (lf_start l2 - 1)\<rparr>) st))"

section \<open>Adding a lock\<close>

text \<open>
  The loop of \<open>lf_setlock\<close> after the wait: \<open>pre\<close> is the list up to \<open>prev\<close>, \<open>blk\<close> the list from
  \<open>block\<close> on, \<open>need\<close> is \<open>needtolink\<close>. Linking a lock a second time (case 4 when it is linked
  already) would tear the list; the value is None, and the invariant excludes it.
\<close>

function lf_link :: "nat \<Rightarrow> nat \<Rightarrow> nat list \<Rightarrow> nat list \<Rightarrow> bool \<Rightarrow> lfstate \<Rightarrow> lfstate option" where
  "lf_link sp lock pre blk need st =
     (let h = lf_head (lf_mem st lock); k = lf_mem st lock in
      case lf_findoverlap (lf_mem st) blk lock True of
        None \<Rightarrow> None
      | Some (c, sk, []) \<Rightarrow> Some (set_head h (pre @ sk @ (if need then [lock] else [])) st)
      | Some (c, sk, ov # rst) \<Rightarrow>
          let l = lf_mem st ov; downgrade = (lf_type k = F_RDLCK \<and> lf_type l = F_WRLCK) in
          if c = 0 then Some (set_head h (pre @ sk @ (if need then [lock] else []) @ ov # rst) st)
          else if c = 1 then
            let st = (if downgrade then lf_wakelock ov st else st);
                st = upd_lf ov (\<lambda>l. l\<lparr>lf_type := lf_type k\<rparr>) st
            in Some (set_head h (pre @ sk @ ov # rst) (lf_free lock st))
          else if c = 2 then
            (if lf_type l = lf_type k then Some (set_head h (pre @ sk @ ov # rst) (lf_free lock st))
             else if lf_start l = lf_start k then
               let st = upd_lf ov (\<lambda>l. l\<lparr>lf_start := off_wrap (lf_end k + 1)\<rparr>) st
               in Some (set_head h (pre @ sk @ lock # ov # rst) (lf_wakelock ov st))
             else
               let (seg, st) = lf_split sp ov lock rst st
               in Some (set_head h (pre @ sk @ seg) (lf_wakelock ov st)))
          else if c = 3 then
            let st = (if downgrade then lf_wakelock ov st
                      else let ws = lf_blkhd l;
                               st = fold (\<lambda>w. upd_lf w (\<lambda>l. l\<lparr>lf_next := Some lock\<rparr>)) ws st;
                               st = upd_lf ov (\<lambda>l. l\<lparr>lf_blkhd := []\<rparr>) st
                           in upd_lf lock (\<lambda>l. l\<lparr>lf_blkhd := lf_blkhd l @ ws\<rparr>) st)
            in lf_link sp lock (pre @ sk @ (if need then [lock] else [])) rst False (lf_free ov st)
          else if c = 4 then
            (if need then
               let st = upd_lf ov (\<lambda>l. l\<lparr>lf_end := off_wrap (lf_start k - 1)\<rparr>) st
               in lf_link sp lock (pre @ sk @ [ov, lock]) rst False (lf_wakelock ov st)
             else None)
          else
            let st = upd_lf ov (\<lambda>l. l\<lparr>lf_start := off_wrap (lf_end k + 1)\<rparr>) st
            in Some (set_head h (pre @ sk @ (if need then [lock] else []) @ ov # rst) (lf_wakelock ov st)))"
  by pat_completeness auto

termination
  by (relation "measure (\<lambda>(sp, lock, pre, blk, need, st). length blk)") (auto dest: lf_findoverlap_shorter)

declare lf_link.simps [simp del]

section \<open>Removing a lock\<close>

function lf_unlink :: "nat \<Rightarrow> nat \<Rightarrow> nat list \<Rightarrow> nat list \<Rightarrow> lfstate \<Rightarrow> lfstate option" where
  "lf_unlink sp lock pre lf st =
     (let h = lf_head (lf_mem st lock); k = lf_mem st lock in
      case lf_findoverlap (lf_mem st) lf lock True of
        None \<Rightarrow> None
      | Some (c, sk, []) \<Rightarrow> Some (set_head h (pre @ sk) st)
      | Some (c, sk, ov # rst) \<Rightarrow>
          if c = 0 then Some (set_head h (pre @ sk @ ov # rst) st)
          else
            let st = lf_wakelock ov st; l = lf_mem st ov in
            if c = 1 then Some (set_head h (pre @ sk @ rst) (lf_free ov st))
            else if c = 2 then
              (if lf_start l = lf_start k
               then Some (set_head h (pre @ sk @ ov # rst) (upd_lf ov (\<lambda>l. l\<lparr>lf_start := off_wrap (lf_end k + 1)\<rparr>) st))
               else let (seg, st) = lf_split sp ov lock rst st
                    in Some (set_head h (pre @ sk @ remove1 lock seg) st))
            else if c = 3 then lf_unlink sp lock (pre @ sk) rst (lf_free ov st)
            else if c = 4 then
              lf_unlink sp lock (pre @ sk @ [ov]) rst (upd_lf ov (\<lambda>l. l\<lparr>lf_end := off_wrap (lf_start k - 1)\<rparr>) st)
            else Some (set_head h (pre @ sk @ ov # rst) (upd_lf ov (\<lambda>l. l\<lparr>lf_start := off_wrap (lf_end k + 1)\<rparr>) st)))"
  by pat_completeness auto

termination
  by (relation "measure (\<lambda>(sp, lock, pre, lf, st). length lf)") (auto dest: lf_findoverlap_shorter)

declare lf_unlink.simps [simp del]

definition lf_clearlock :: "nat \<Rightarrow> nat \<Rightarrow> lfstate \<Rightarrow> lfstate option" where
  "lf_clearlock sp lock st =
     (case lf_heads st (lf_head (lf_mem st lock)) of [] \<Rightarrow> Some st | lf # lfs \<Rightarrow> lf_unlink sp lock [] (lf # lfs) st)"

section \<open>Setting a lock\<close>

text \<open>
  Whether following the locks that processes wait for, from the process that owns the blocking lock,
  leads back to the requester; \<open>n\<close> is what is left of \<open>maxlockdepth\<close>. The code reads a process at the address \<open>lf_id\<close>; \<open>p_wchan\<close> is
  what it finds there. The second None is a null pointer that the code would follow: a request on which a process sleeps has
  \<open>lf_next\<close> set (\<open>reach_sleeper\<close> of \<open>Lockf_Calls\<close>).
\<close>

primrec lf_cycle :: "nat \<Rightarrow> lfstate \<Rightarrow> nat \<Rightarrow> nat \<Rightarrow> bool" where
  "lf_cycle 0 st wproc me = False"
| "lf_cycle (Suc n) st wproc me =
     (case p_wchan st wproc of
        None \<Rightarrow> False
      | Some req \<Rightarrow>
          (case lf_next (lf_mem st req) of
             None \<Rightarrow> False
           | Some wb \<Rightarrow>
               if \<not> has_flag (lf_flags (lf_mem st wb)) F_POSIX then False
               else if lf_id (lf_mem st wb) = me then True
               else lf_cycle n st (lf_id (lf_mem st wb)) me))"

datatype lfresult = LfError errno | LfOk

text \<open>
  One round of \<open>lf_setlock\<close> by process \<open>p\<close>: it returns, or sleeps on the request. A panic is Panic.
\<close>

definition lf_setlock :: "nat \<Rightarrow> nat \<Rightarrow> nat \<Rightarrow> lfstate \<Rightarrow> (lfstate, lfresult, nat) outcome" where
  "lf_setlock sp p lock st =
     (let k = lf_mem st lock; list = lf_heads st (lf_head k) in
      case lf_getblock (lf_mem st) list lock of
        None \<Rightarrow> Panic ''lf_findoverlap: default''
      | Some (Some block) \<Rightarrow>
          if \<not> has_flag (lf_flags k) F_WAIT then Return (lf_free lock st) (LfError EAGAIN)
          else if has_flag (lf_flags k) F_POSIX \<and> has_flag (lf_flags (lf_mem st block)) F_POSIX
               \<and> lf_cycle maxlockdepth st (lf_id (lf_mem st block)) (lf_id k)
          then Return (lf_free lock st) (LfError EDEADLK)
          else
            (case (if has_flag (lf_flags k) F_FLOCK \<and> lf_type k = F_WRLCK
                   then map_option (upd_lf lock (\<lambda>l. l\<lparr>lf_type := F_WRLCK\<rparr>))
                          (lf_clearlock sp lock (upd_lf lock (\<lambda>l. l\<lparr>lf_type := F_UNLCK\<rparr>) st))
                   else Some st) of
               None \<Rightarrow> Panic ''lf_findoverlap: default''
             | Some st \<Rightarrow>
                 let st = upd_lf lock (\<lambda>l. l\<lparr>lf_next := Some block\<rparr>) st;
                     st = upd_lf block (\<lambda>l. l\<lparr>lf_blkhd := lf_blkhd l @ [lock]\<rparr>) st
                 in Sleep (st\<lparr>p_wchan := (p_wchan st)(p := Some lock)\<rparr>) lock)
      | Some None \<Rightarrow>
          (case lf_link sp lock [] list True st of
             None \<Rightarrow> Panic ''lf_findoverlap: default''
           | Some st \<Rightarrow> Return st LfOk))"

text \<open>After \<open>tsleep\<close>, which returned \<open>error\<close> (None for 0).\<close>

definition lf_setlock_woken :: "nat \<Rightarrow> nat \<Rightarrow> nat \<Rightarrow> errno option \<Rightarrow> lfstate \<Rightarrow> (lfstate, lfresult, nat) outcome" where
  "lf_setlock_woken sp p lock error st =
     (let st = st\<lparr>p_wchan := (p_wchan st)(p := None)\<rparr>;
          st = (case lf_next (lf_mem st lock) of
                  None \<Rightarrow> st
                | Some b \<Rightarrow> upd_lf lock (\<lambda>l. l\<lparr>lf_next := None\<rparr>)
                    (upd_lf b (\<lambda>l. l\<lparr>lf_blkhd := removeAll lock (lf_blkhd l)\<rparr>) st))
      in case error of
           Some e \<Rightarrow> Return (lf_free lock st) (LfError e)
         | None \<Rightarrow> lf_setlock sp p lock st)"

section \<open>System calls\<close>

record flock =
  l_start :: int
  l_len :: int
  l_pid :: int
  l_type :: lftype
  l_whence :: nat

definition lf_getlock :: "nat \<Rightarrow> flock \<Rightarrow> lfstate \<Rightarrow> flock option" where
  "lf_getlock lock fl st =
     (case lf_getblock (lf_mem st) (lf_heads st (lf_head (lf_mem st lock))) lock of
        None \<Rightarrow> None
      | Some (Some block) \<Rightarrow>
          let b = lf_mem st block
          in Some (fl\<lparr>l_type := lf_type b, l_whence := 0, l_start := lf_start b,
               l_len := (if lf_end b = - 1 then 0 else off_wrap (lf_end b - lf_start b + 1)), l_pid := lf_pid b\<rparr>)
      | Some None \<Rightarrow> Some (fl\<lparr>l_type := F_UNLCK\<rparr>))"

datatype lfop = OpSetlk | OpUnlck | OpGetlk | OpOther

text \<open>The start and end of a request, or None for EINVAL.\<close>

definition flock_range :: "int \<Rightarrow> flock \<Rightarrow> (int \<times> int) option" where
  "flock_range sz fl =
     (case (if l_whence fl = 0 \<or> l_whence fl = 1 then Some (l_start fl)
            else if l_whence fl = 2 then Some (off_wrap (sz + l_start fl)) else None) of
        None \<Rightarrow> None
      | Some start \<Rightarrow>
          if start < 0 then None
          else if l_len fl = 0 then Some (start, - 1)
          else let en = off_wrap (start + l_len fl - 1) in if en < start then None else Some (start, en))"

text \<open>The process: its address, its pid and its user id.\<close>

record lfproc =
  pr_addr :: nat
  pr_pid :: int
  pr_uid :: nat

definition lf_advlock ::
  "nat \<Rightarrow> nat \<Rightarrow> lfproc \<Rightarrow> nat \<Rightarrow> int \<Rightarrow> nat \<Rightarrow> lfop \<Rightarrow> flock \<Rightarrow> u_short \<Rightarrow> lfstate \<Rightarrow> (lfstate, lfresult \<times> flock, nat) outcome" where
  "lf_advlock new sp p head sz ident op fl flags st =
     (case flock_range sz fl of
        None \<Rightarrow> Return st (LfError EINVAL, fl)
      | Some (start, en) \<Rightarrow>
          if lf_heads st head = [] \<and> op \<noteq> OpSetlk then Return st (LfOk, fl\<lparr>l_type := F_UNLCK\<rparr>)
          else
            (case lf_alloc new (pr_uid p) (if op = OpSetlk then 1 else 2) st of
               None \<Rightarrow> Return st (LfError ENOLCK, fl)
             | Some st \<Rightarrow>
                 let st = upd_lf new (\<lambda>l. l\<lparr>lf_start := start, lf_end := en, lf_id := ident, lf_head := head, lf_type := l_type fl,
                            lf_next := None, lf_blkhd := [], lf_flags := flags,
                            lf_pid := (if has_flag flags F_POSIX then pr_pid p else - 1)\<rparr>) st
                 in (case op of
                       OpSetlk \<Rightarrow>
                         (case lf_setlock sp (pr_addr p) new st of
                            Return st r \<Rightarrow> Return st (r, fl) | Panic m \<Rightarrow> Panic m | Sleep st k \<Rightarrow> Sleep st k)
                     | OpUnlck \<Rightarrow>
                         (case lf_clearlock sp new st of
                            None \<Rightarrow> Panic ''lf_findoverlap: default''
                          | Some st \<Rightarrow> Return (lf_free new st) (LfOk, fl))
                     | OpGetlk \<Rightarrow>
                         (case lf_getlock new fl st of
                            None \<Rightarrow> Panic ''lf_findoverlap: default''
                          | Some fl \<Rightarrow> Return (lf_free new st) (LfOk, fl))
                     | OpOther \<Rightarrow> Return (lf_free new st) (LfError EINVAL, fl))))"

end
