(* ===== verification/Lockf_Range.thy ===== *)
theory Lockf_Range
  imports Lockf
begin

text \<open>
  The byte ranges of record locks: what a list of locks means for each owner and byte, and what
  \<open>lf_findoverlap\<close> and \<open>lf_getblock\<close> find.
\<close>

section \<open>Views\<close>

text \<open>The part of a lock that determines its meaning.\<close>

record rng =
  r_id :: nat
  r_start :: int
  r_end :: int
  r_type :: lftype

definition core :: "lockf \<Rightarrow> rng" where
  "core l = \<lparr>r_id = lf_id l, r_start = lf_start l, r_end = lf_end l, r_type = lf_type l\<rparr>"

definition vw :: "lfstate \<Rightarrow> nat \<Rightarrow> rng" where
  "vw st a = core (lf_mem st a)"

definition covers :: "rng \<Rightarrow> int \<Rightarrow> bool" where
  "covers r b \<longleftrightarrow> r_start r \<le> b \<and> (r_end r = - 1 \<or> b \<le> r_end r)"

text \<open>Ranges a lock can have: the largest offset itself is left out (see the last theorem).\<close>

definition wf_rng :: "rng \<Rightarrow> bool" where
  "wf_rng r \<longleftrightarrow> 0 \<le> r_start r \<and> r_start r < 2 ^ 63 \<and> (r_end r = - 1 \<or> r_start r \<le> r_end r \<and> r_end r < 2 ^ 63 - 1)"

definition ends_before :: "rng \<Rightarrow> rng \<Rightarrow> bool" where
  "ends_before r k \<longleftrightarrow> r_end r \<noteq> - 1 \<and> r_end r < r_start k"

definition contains :: "rng \<Rightarrow> rng \<Rightarrow> bool" where
  "contains r k \<longleftrightarrow> r_start r \<le> r_start k \<and> (r_end r = - 1 \<or> r_end k \<noteq> - 1 \<and> r_end k \<le> r_end r)"

definition own :: "(nat \<Rightarrow> rng) \<Rightarrow> nat \<Rightarrow> nat list \<Rightarrow> nat list" where
  "own v i l = filter (\<lambda>a. r_id (v a) = i) l"

definition held :: "(nat \<Rightarrow> rng) \<Rightarrow> nat list \<Rightarrow> nat \<Rightarrow> int \<Rightarrow> lftype \<Rightarrow> bool" where
  "held v l i b ty \<longleftrightarrow> (\<exists>a \<in> set l. r_id (v a) = i \<and> covers (v a) b \<and> r_type (v a) = ty)"

definition chain :: "(nat \<Rightarrow> rng) \<Rightarrow> nat list \<Rightarrow> bool" where
  "chain v l \<longleftrightarrow> sorted_wrt (\<lambda>a c. ends_before (v a) (v c)) l \<and> (\<forall>a \<in> set l. wf_rng (v a))"

lemma own_simps [simp]:
  "own v i [] = []" "own v i (l @ l') = own v i l @ own v i l'"
  "own v i (a # l) = (if r_id (v a) = i then a # own v i l else own v i l)" "set (own v i l) = {a \<in> set l. r_id (v a) = i}"
  by (auto simp: own_def)

lemma chain_append:
  "chain v (l @ l') \<longleftrightarrow> chain v l \<and> chain v l' \<and> (\<forall>a \<in> set l. \<forall>c \<in> set l'. ends_before (v a) (v c))"
  by (auto simp: chain_def sorted_wrt_append)

lemma chain_Cons: "chain v (a # l) \<longleftrightarrow> wf_rng (v a) \<and> (\<forall>c \<in> set l. ends_before (v a) (v c)) \<and> chain v l"
  by (auto simp: chain_def)

lemma chain_Nil [simp]: "chain v []"
  by (simp add: chain_def)

lemma off_wrap_id: "- (2 ^ 63) \<le> x \<Longrightarrow> x < 2 ^ 63 \<Longrightarrow> off_wrap x = x"
  by (simp add: off_wrap_def)

section \<open>Finding an overlap\<close>

definition ovcase :: "nat \<Rightarrow> rng \<Rightarrow> rng \<Rightarrow> bool" where
  "ovcase c l k \<longleftrightarrow>
     (c = 1 \<and> r_start l = r_start k \<and> r_end l = r_end k)
   \<or> (c = 2 \<and> contains l k \<and> \<not> (r_start l = r_start k \<and> r_end l = r_end k))
   \<or> (c = 3 \<and> contains k l \<and> \<not> contains l k)
   \<or> (c = 4 \<and> r_start l < r_start k \<and> r_end l \<noteq> - 1 \<and> r_start k \<le> r_end l \<and> (r_end k = - 1 \<or> r_end l < r_end k))
   \<or> (c = 5 \<and> r_start k < r_start l \<and> r_end k \<noteq> - 1 \<and> r_start l \<le> r_end k \<and> (r_end l = - 1 \<or> r_end k < r_end l))"

text \<open>The case that the code finds for two ranges that overlap.\<close>

definition ov_num :: "rng \<Rightarrow> rng \<Rightarrow> nat option" where
  "ov_num l k =
     (if r_start l = r_start k \<and> r_end l = r_end k then Some 1
      else if r_start l \<le> r_start k \<and> (r_end l = - 1 \<or> (r_end k \<noteq> - 1 \<and> r_end l \<ge> r_end k)) then Some 2
      else if r_start k \<le> r_start l \<and> (r_end k = - 1 \<or> (r_end l \<noteq> - 1 \<and> r_end k \<ge> r_end l)) then Some 3
      else if r_start l < r_start k \<and> (r_end l \<ge> r_start k \<or> r_end l = - 1) then Some 4
      else if r_start l > r_start k \<and> r_end k \<noteq> - 1 \<and> (r_end l > r_end k \<or> r_end l = - 1) then Some 5
      else None)"

lemma ov_num_case:
  assumes "\<not> ends_before l k" "\<not> ends_before k l" "wf_rng l" "wf_rng k"
  shows "\<exists>c. ov_num l k = Some c \<and> c \<noteq> 0 \<and> ovcase c l k"
proof -
  have "ovcase c l k \<and> c \<noteq> 0" if "ov_num l k = Some c" for c
    using that assms by (auto simp: ov_num_def ovcase_def contains_def ends_before_def wf_rng_def split: if_splits)
  moreover have "ov_num l k \<noteq> None"
    using assms by (auto simp: ov_num_def ends_before_def wf_rng_def split: if_splits)
  ultimately show ?thesis by auto
qed

lemma findoverlap_hit:
  assumes "\<not> ends_before (core (m lf)) (core (m lock))" "\<not> ends_before (core (m lock)) (core (m lf))"
    and "self \<longleftrightarrow> lf_id (m lf) = lf_id (m lock)"
  shows "lf_findoverlap m (lf # l) lock self = map_option (\<lambda>c. (c, [], lf # l)) (ov_num (core (m lf)) (core (m lock)))"
  using assms by (auto simp: ends_before_def core_def ov_num_def Let_def)

lemma findoverlap_skip:
  assumes "(self \<longleftrightarrow> lf_id (m lf) \<noteq> lf_id (m lock)) \<or> ends_before (core (m lf)) (core (m lock))
      \<and> \<not> ends_before (core (m lock)) (core (m lf)) \<or> \<not> self \<and> ends_before (core (m lock)) (core (m lf))"
  shows "lf_findoverlap m (lf # l) lock self
    = map_option (\<lambda>(c, sk, rest). (c, lf # sk, rest)) (lf_findoverlap m l lock self)"
  using assms by (auto simp: ends_before_def core_def Let_def)

lemma ends_before_asym: "wf_rng r \<Longrightarrow> wf_rng k \<Longrightarrow> ends_before r k \<Longrightarrow> \<not> ends_before k r"
  by (auto simp: ends_before_def wf_rng_def)

text \<open>A lock of the owner is before, after or in one of the five cases.\<close>

lemma findoverlap_self:
  assumes "wf_rng (core (m lock))" "chain (core \<circ> m) (own (core \<circ> m) (lf_id (m lock)) l)"
  shows "\<exists>c sk rest. lf_findoverlap m l lock True = Some (c, sk, rest) \<and> l = sk @ rest
    \<and> (\<forall>a \<in> set sk. lf_id (m a) = lf_id (m lock) \<longrightarrow> ends_before (core (m a)) (core (m lock)))
    \<and> (c = 0 \<longrightarrow> (\<forall>a \<in> set rest. lf_id (m a) = lf_id (m lock) \<longrightarrow> ends_before (core (m lock)) (core (m a))))
    \<and> (c \<noteq> 0 \<longrightarrow> (\<exists>ov rst. rest = ov # rst \<and> lf_id (m ov) = lf_id (m lock) \<and> ovcase c (core (m ov)) (core (m lock))))"
  using assms(2)
proof (induction l)
  case Nil
  then show ?case by simp
next
  case (Cons lf l)
  let ?k = "core (m lock)"
  have IH: "\<exists>c sk rest. lf_findoverlap m l lock True = Some (c, sk, rest) \<and> l = sk @ rest
    \<and> (\<forall>a \<in> set sk. lf_id (m a) = lf_id (m lock) \<longrightarrow> ends_before (core (m a)) ?k)
    \<and> (c = 0 \<longrightarrow> (\<forall>a \<in> set rest. lf_id (m a) = lf_id (m lock) \<longrightarrow> ends_before ?k (core (m a))))
    \<and> (c \<noteq> 0 \<longrightarrow> (\<exists>ov rst. rest = ov # rst \<and> lf_id (m ov) = lf_id (m lock) \<and> ovcase c (core (m ov)) ?k))"
    using Cons.IH Cons.prems by (auto simp: chain_Cons split: if_splits)
  show ?case
  proof (cases "lf_id (m lf) = lf_id (m lock)")
    case False
    then show ?thesis using IH by fastforce
  next
    case True
    then have w: "wf_rng (core (m lf))" "\<forall>c \<in> set (own (core \<circ> m) (lf_id (m lock)) l). ends_before (core (m lf)) (core (m c))"
      using Cons.prems by (auto simp: chain_Cons core_def)
    consider (before) "ends_before (core (m lf)) ?k" | (after) "ends_before ?k (core (m lf))" "\<not> ends_before (core (m lf)) ?k"
      | (over) "\<not> ends_before (core (m lf)) ?k" "\<not> ends_before ?k (core (m lf))" by blast
    then show ?thesis
    proof cases
      case before
      then have "lf_findoverlap m (lf # l) lock True
          = map_option (\<lambda>(c, sk, rest). (c, lf # sk, rest)) (lf_findoverlap m l lock True)"
        using ends_before_asym [OF w(1) assms(1)] by (intro findoverlap_skip) simp
      then show ?thesis using IH before by fastforce
    next
      case after
      then have "lf_findoverlap m (lf # l) lock True = Some (0, [], lf # l)"
        using True w assms(1) by (auto simp: ends_before_def core_def Let_def wf_rng_def)
      moreover have "ends_before ?k (core (m a))" if "a \<in> set l" "lf_id (m a) = lf_id (m lock)" for a
        using after(1) w that assms(1) by (fastforce simp: ends_before_def core_def wf_rng_def)
      ultimately show ?thesis using after by auto
    next
      case over
      with ov_num_case [OF over w(1) assms(1)] findoverlap_hit [OF over, of True l] True
      obtain c where "lf_findoverlap m (lf # l) lock True = Some (c, [], lf # l)" "ovcase c (core (m lf)) ?k" "c \<noteq> 0"
        by (auto simp del: lf_findoverlap.simps)
      then show ?thesis using True by auto
    qed
  qed
qed

section \<open>Finding a blocking lock\<close>

definition overlaps :: "rng \<Rightarrow> rng \<Rightarrow> bool" where
  "overlaps l k \<longleftrightarrow> \<not> ends_before l k \<and> \<not> ends_before k l"

definition blocks :: "rng \<Rightarrow> rng \<Rightarrow> bool" where
  "blocks k l \<longleftrightarrow> r_id l \<noteq> r_id k \<and> overlaps l k \<and> (r_type k = F_WRLCK \<or> r_type l = F_WRLCK)"

lemma overlaps_covers:
  assumes "wf_rng l" "wf_rng k"
  shows "overlaps l k \<longleftrightarrow> (\<exists>b. covers l b \<and> covers k b)"
proof
  assume "overlaps l k"
  then have "covers l (max (r_start l) (r_start k)) \<and> covers k (max (r_start l) (r_start k))"
    using assms by (auto simp: overlaps_def ends_before_def covers_def wf_rng_def)
  then show "\<exists>b. covers l b \<and> covers k b" by blast
next
  assume "\<exists>b. covers l b \<and> covers k b"
  then show "overlaps l k" by (auto simp: overlaps_def ends_before_def covers_def)
qed

lemma overlaps_sym: "overlaps l k \<longleftrightarrow> overlaps k l"
  by (auto simp: overlaps_def)

lemma getblock_skip:
  assumes "lf_findoverlap m (lf # l) lock False = map_option (\<lambda>(c, sk, rest). (c, lf # sk, rest)) (lf_findoverlap m l lock False)"
  shows "lf_getblock m (lf # l) lock = lf_getblock m l lock"
  by (subst (1 2) lf_getblock.simps) (auto simp: assms simp del: lf_findoverlap.simps split: option.split list.split)

lemma getblock_Cons:
  assumes "wf_rng (core (m lf))" "wf_rng (core (m lock))"
  shows "lf_getblock m (lf # l) lock
    = (if blocks (core (m lock)) (core (m lf)) then Some (Some lf) else lf_getblock m l lock)"
proof (cases "lf_id (m lf) \<noteq> lf_id (m lock) \<and> overlaps (core (m lf)) (core (m lock))")
  case True
  then obtain c where c: "ov_num (core (m lf)) (core (m lock)) = Some c" "c \<noteq> 0"
    using ov_num_case assms by (auto simp: overlaps_def)
  then have "lf_findoverlap m (lf # l) lock False = Some (c, [], lf # l)"
    using True findoverlap_hit [of m lf lock False l] by (simp add: overlaps_def del: lf_findoverlap.simps)
  with c True show ?thesis
    by (subst lf_getblock.simps) (auto simp: blocks_def core_def simp del: lf_findoverlap.simps)
next
  case False
  then have "lf_findoverlap m (lf # l) lock False
      = map_option (\<lambda>(c, sk, rest). (c, lf # sk, rest)) (lf_findoverlap m l lock False)"
    using ends_before_asym [OF assms] by (intro findoverlap_skip) (auto simp: overlaps_def)
  moreover have "\<not> blocks (core (m lock)) (core (m lf))" using False by (auto simp: blocks_def core_def)
  ultimately show ?thesis using getblock_skip by (simp del: lf_findoverlap.simps)
qed

lemma getblock_find:
  assumes "wf_rng (core (m lock))" "\<forall>a \<in> set l. wf_rng (core (m a))"
  shows "lf_getblock m l lock = Some (find (\<lambda>a. blocks (core (m lock)) (core (m a))) l)"
  using assms(2)
proof (induction l)
  case Nil
  then show ?case by (simp add: lf_getblock.simps)
next
  case (Cons a l)
  then show ?case using assms(1) by (simp add: getblock_Cons)
qed

section \<open>Views of updates\<close>

lemma upd_lf_sel [simp]:
  "lf_mem (upd_lf a f st) = (lf_mem st)(a := f (lf_mem st a))" "lf_heads (upd_lf a f st) = lf_heads st"
  "ui_lockcnt (upd_lf a f st) = ui_lockcnt st" "p_wchan (upd_lf a f st) = p_wchan st"
  by (simp_all add: upd_lf_def)

lemma set_head_sel [simp]:
  "lf_mem (set_head h l st) = lf_mem st" "lf_heads (set_head h l st) = (lf_heads st)(h := l)"
  "ui_lockcnt (set_head h l st) = ui_lockcnt st" "p_wchan (set_head h l st) = p_wchan st"
  by (simp_all add: set_head_def)

lemma lf_free_sel [simp]:
  "lf_mem (lf_free a st) = lf_mem st" "lf_heads (lf_free a st) = lf_heads st" "p_wchan (lf_free a st) = p_wchan st"
  by (simp_all add: lf_free_def Let_def)

text \<open>Waking changes no range and no list.\<close>

definition same_core :: "lfstate \<Rightarrow> lfstate \<Rightarrow> bool" where
  "same_core st st' \<longleftrightarrow> (\<forall>a. core (lf_mem st' a) = core (lf_mem st a) \<and> lf_head (lf_mem st' a) = lf_head (lf_mem st a)
     \<and> lf_uid (lf_mem st' a) = lf_uid (lf_mem st a) \<and> lf_flags (lf_mem st' a) = lf_flags (lf_mem st a)
     \<and> lf_pid (lf_mem st' a) = lf_pid (lf_mem st a)) \<and> lf_heads st' = lf_heads st"

lemma same_core_refl: "same_core st st"
  by (simp add: same_core_def)

lemma same_core_trans: "same_core a b \<Longrightarrow> same_core b c \<Longrightarrow> same_core a c"
  by (simp add: same_core_def)

lemma same_core_upd_next: "same_core st (upd_lf w (\<lambda>l. l\<lparr>lf_next := x\<rparr>) st)"
  by (simp add: same_core_def core_def)

lemma same_core_upd_blkhd: "same_core st (upd_lf w (\<lambda>l. l\<lparr>lf_blkhd := g l\<rparr>) st)"
  by (simp add: same_core_def core_def)

lemma same_core_wakeup: "same_core st (wakeup_one w st)"
  by (simp add: same_core_def wakeup_one_def)

lemma same_core_free: "same_core st (lf_free a st)"
  by (simp add: same_core_def)

lemma same_core_wake_all: "same_core st (wake_all ws st)"
proof (induction ws arbitrary: st)
  case (Cons w ws)
  show ?case
    using same_core_trans [OF same_core_trans [OF same_core_upd_next same_core_wakeup] Cons] by simp
qed (simp add: same_core_refl)

lemma same_core_wakelock: "same_core st (lf_wakelock a st)"
  unfolding lf_wakelock_def by (rule same_core_trans [OF same_core_upd_blkhd same_core_wake_all])

lemma same_core_fold_next: "same_core st (fold (\<lambda>w. upd_lf w (\<lambda>l. l\<lparr>lf_next := x\<rparr>)) ws st)"
proof (induction ws arbitrary: st)
  case (Cons w ws)
  show ?case using same_core_trans [OF same_core_upd_next Cons] by simp
qed (simp add: same_core_refl)

lemma same_coreD:
  assumes "same_core st st'"
  shows "vw st' = vw st" "lf_heads st' = lf_heads st" "lf_head (lf_mem st' a) = lf_head (lf_mem st a)"
    "lf_uid (lf_mem st' a) = lf_uid (lf_mem st a)"
  using assms by (simp_all add: same_core_def vw_def fun_eq_iff)

lemmas wake_simps [simp] = same_coreD(1,2,3) [OF same_core_wakelock] same_coreD(1,2,3) [OF same_core_free]

lemma vw_fields:
  "r_id (vw st a) = lf_id (lf_mem st a)" "r_start (vw st a) = lf_start (lf_mem st a)"
  "r_end (vw st a) = lf_end (lf_mem st a)" "r_type (vw st a) = lf_type (lf_mem st a)"
  by (simp_all add: vw_def core_def)

lemma vw_set_head [simp]: "vw (set_head h l st) = vw st"
  by (simp add: vw_def fun_eq_iff)

lemma vw_upd [simp]:
  "vw (upd_lf a (\<lambda>l. l\<lparr>lf_start := x\<rparr>) st) = (vw st)(a := (vw st a)\<lparr>r_start := x\<rparr>)"
  "vw (upd_lf a (\<lambda>l. l\<lparr>lf_end := x\<rparr>) st) = (vw st)(a := (vw st a)\<lparr>r_end := x\<rparr>)"
  "vw (upd_lf a (\<lambda>l. l\<lparr>lf_type := t\<rparr>) st) = (vw st)(a := (vw st a)\<lparr>r_type := t\<rparr>)"
  "vw (upd_lf a (\<lambda>l. l\<lparr>lf_blkhd := g l\<rparr>) st) = vw st"
  "vw (upd_lf a (\<lambda>l. l\<lparr>lf_next := n\<rparr>) st) = vw st"
  by (auto simp: vw_def core_def fun_eq_iff)

end
