(* ===== verification/Lockf_Set.thy ===== *)
theory Lockf_Set
  imports Lockf_Range
begin

text \<open>
  What setting and clearing a lock does to the list of an inode: the owner holds exactly the
  requested type on the requested bytes and what it held elsewhere, other owners are unaffected, and
  the locks of each owner stay disjoint and in order.
\<close>

section \<open>Lists of one owner\<close>

definition hit :: "(nat \<Rightarrow> rng) \<Rightarrow> nat list \<Rightarrow> int \<Rightarrow> lftype \<Rightarrow> bool" where
  "hit v l b ty \<longleftrightarrow> (\<exists>a \<in> set l. covers (v a) b \<and> r_type (v a) = ty)"

lemma held_own: "held v l i b ty \<longleftrightarrow> hit v (own v i l) b ty"
  by (auto simp: held_def hit_def)

lemma hit_simps [simp]:
  "\<not> hit v [] b ty" "hit v (a # l) b ty \<longleftrightarrow> covers (v a) b \<and> r_type (v a) = ty \<or> hit v l b ty"
  "hit v (l @ l') b ty \<longleftrightarrow> hit v l b ty \<or> hit v l' b ty"
  by (auto simp: hit_def)

lemma hit_cong: "(\<And>a. a \<in> set l \<Longrightarrow> v' a = v a) \<Longrightarrow> hit v' l b ty = hit v l b ty"
  by (auto simp: hit_def)

lemma hit_upd: "a \<notin> set l \<Longrightarrow> hit (v(a := r)) l b ty = hit v l b ty"
  by (rule hit_cong) auto

lemma own_upd: "r_id r = r_id (v a) \<Longrightarrow> own (v(a := r)) i l = own v i l"
  by (auto simp: own_def intro: filter_cong)

lemma own_fresh: "a \<notin> set l \<Longrightarrow> own (v(a := r)) i l = own v i l"
  by (auto simp: own_def intro: filter_cong)

lemma chain_cong: "(\<And>a. a \<in> set l \<Longrightarrow> v' a = v a) \<Longrightarrow> chain v' l = chain v l"
  by (induction l) (simp_all add: chain_Cons)

lemma chain_upd: "a \<notin> set l \<Longrightarrow> chain (v(a := r)) l = chain v l"
  by (rule chain_cong) auto

text \<open>What holds before the rest of the list is searched for locks that overlap.\<close>

definition link_pre :: "(nat \<Rightarrow> rng) \<Rightarrow> nat \<Rightarrow> nat \<Rightarrow> nat list \<Rightarrow> nat list \<Rightarrow> bool \<Rightarrow> nat list \<Rightarrow> bool" where
  "link_pre v sp lock pre blk need ps \<longleftrightarrow>
     wf_rng (v lock) \<and> own v (r_id (v lock)) pre = ps @ (if need then [] else [lock])
   \<and> chain v (ps @ own v (r_id (v lock)) blk) \<and> (\<forall>p \<in> set ps. ends_before (v p) (v lock))
   \<and> (\<not> need \<longrightarrow> (\<forall>a \<in> set (own v (r_id (v lock)) blk). r_start (v lock) < r_start (v a)))
   \<and> distinct (pre @ blk) \<and> lock \<notin> set blk \<and> (need \<longrightarrow> lock \<notin> set pre) \<and> sp \<notin> set (pre @ blk) \<and> sp \<noteq> lock"

definition linked :: "(nat \<Rightarrow> rng) \<Rightarrow> nat list \<Rightarrow> rng \<Rightarrow> (nat \<Rightarrow> rng) \<Rightarrow> nat list \<Rightarrow> bool" where
  "linked v l k v' l' \<longleftrightarrow>
     chain v' (own v' (r_id k) l')
   \<and> (\<exists>a \<in> set l'. r_id (v' a) = r_id k \<and> contains (v' a) k \<and> r_type (v' a) = r_type k)
   \<and> (\<forall>b ty. \<not> covers k b \<longrightarrow> held v' l' (r_id k) b ty = held v l (r_id k) b ty)
   \<and> (\<forall>j. j \<noteq> r_id k \<longrightarrow> own v' j l' = own v j l) \<and> (\<forall>a \<in> set l. r_id (v a) \<noteq> r_id k \<longrightarrow> v' a = v a) \<and> distinct l'"

lemma linkedI:
  assumes "chain v' (own v' (r_id k) l')" "a \<in> set l'" "r_id (v' a) = r_id k" "contains (v' a) k" "r_type (v' a) = r_type k"
    and "\<And>b ty. \<not> covers k b \<Longrightarrow> held v' l' (r_id k) b ty = held v l (r_id k) b ty"
    and "\<And>j. j \<noteq> r_id k \<Longrightarrow> own v' j l' = own v j l" "\<And>a. a \<in> set l \<Longrightarrow> r_id (v a) \<noteq> r_id k \<Longrightarrow> v' a = v a" "distinct l'"
  shows "linked v l k v' l'"
  using assms unfolding linked_def by blast

lemma link_pre_ps:
  assumes "link_pre v sp lock pre blk need ps"
  shows "set ps \<subseteq> set pre" "a \<in> set blk \<Longrightarrow> a \<notin> set ps"
proof -
  have "set ps \<subseteq> set (own v (r_id (v lock)) pre)" using assms by (simp add: link_pre_def del: own_simps)
  then show "set ps \<subseteq> set pre" by auto
  then show "a \<in> set blk \<Longrightarrow> a \<notin> set ps" using assms by (auto simp: link_pre_def)
qed

lemma ends_before_start: "wf_rng a \<Longrightarrow> ends_before a k \<Longrightarrow> r_start a < r_start k"
  by (auto simp: ends_before_def wf_rng_def)

lemma link_pre_skip:
  assumes "link_pre v sp lock pre (sk @ rest) need ps"
    and "\<forall>a \<in> set sk. r_id (v a) = r_id (v lock) \<longrightarrow> ends_before (v a) (v lock)"
  shows "link_pre v sp lock (pre @ sk) rest need (ps @ own v (r_id (v lock)) sk)"
proof -
  have "own v (r_id (v lock)) sk = []" if "\<not> need"
  proof (rule ccontr)
    assume "own v (r_id (v lock)) sk \<noteq> []"
    then obtain a where a: "a \<in> set sk" "r_id (v a) = r_id (v lock)"
      by (metis (mono_tags) filter_False own_def)
    then have "wf_rng (v a)" "r_start (v lock) < r_start (v a)"
      using assms(1) that by (auto simp: link_pre_def chain_def)
    with a assms(2) ends_before_start [of "v a" "v lock"] show False by auto
  qed
  with assms show ?thesis by (auto simp: link_pre_def)
qed

text \<open>The end of the loop: case 0.\<close>

lemma linked_none:
  assumes P: "link_pre v sp lock pre rest need ps"
    and after: "\<forall>a \<in> set rest. r_id (v a) = r_id (v lock) \<longrightarrow> ends_before (v lock) (v a)"
  shows "linked v (pre @ rest) (v lock) v (pre @ (if need then [lock] else []) @ rest)"
proof -
  let ?i = "r_id (v lock)"
  let ?l = "pre @ (if need then [lock] else []) @ rest"
  have o: "own v ?i ?l = ps @ lock # own v ?i rest" "own v ?i (pre @ rest) = ps @ (if need then [] else [lock]) @ own v ?i rest"
    using P by (auto simp: link_pre_def)
  have "chain v (own v ?i ?l)"
    unfolding o using P after by (auto simp: link_pre_def chain_append chain_Cons)
  moreover have "lock \<in> set ?l"
  proof (cases need)
    case False
    then have "lock \<in> set (own v ?i pre)" using P by (simp add: link_pre_def)
    then show ?thesis by simp
  qed simp
  moreover have "contains (v lock) (v lock)" by (auto simp: contains_def)
  moreover have "held v ?l ?i b ty = held v (pre @ rest) ?i b ty" if "\<not> covers (v lock) b" for b ty
    unfolding held_own o using that by auto
  moreover have "distinct ?l" using P by (auto simp: link_pre_def)
  ultimately show ?thesis by (auto simp: linked_def)
qed

text \<open>Case 1 and the first half of case 2: the overlap takes the type or has it already.\<close>

lemma linked_contained:
  assumes P: "link_pre v sp lock pre (ov # rst) True ps" and id: "r_id (v ov) = r_id (v lock)"
    and c: "contains (v ov) (v lock)" and t: "r_type (v ov) = ty \<or> ovcase 1 (v ov) (v lock)" and ty: "ty = r_type (v lock)"
  shows "linked v (pre @ ov # rst) (v lock) (v(ov := (v ov)\<lparr>r_type := ty\<rparr>)) (pre @ ov # rst)"
proof -
  let ?i = "r_id (v lock)" and ?v = "v(ov := (v ov)\<lparr>r_type := ty\<rparr>)"
  have ids: "own ?v j l = own v j l" for j l by (rule own_upd) simp
  have o: "own v ?i (pre @ ov # rst) = ps @ ov # own v ?i rst" using P id by (auto simp: link_pre_def)
  have d: "ov \<notin> set ps" "ov \<notin> set rst" using link_pre_ps(2) [OF P] P by (auto simp: link_pre_def)
  have "chain v (ps @ ov # own v ?i rst)" using P id by (simp add: link_pre_def)
  then have "chain ?v (ps @ ov # own v ?i rst)"
    using d by (auto simp: chain_append chain_Cons chain_upd ends_before_def wf_rng_def)
  moreover have "held ?v (pre @ ov # rst) ?i b t' = held v (pre @ ov # rst) ?i b t'" if "\<not> covers (v lock) b" for b t'
  proof (cases "r_type (v ov) = ty")
    case True
    then have "?v = v" by (auto simp: fun_eq_iff)
    then show ?thesis by simp
  next
    case False
    then have "covers (v ov) b = covers (v lock) b" "covers ((v ov)\<lparr>r_type := ty\<rparr>) b = covers (v lock) b"
      using t by (auto simp: ovcase_def covers_def)
    then show ?thesis unfolding held_own ids o using that d by (auto simp: hit_upd)
  qed
  moreover have "contains (?v ov) (v lock)" using c by (auto simp: contains_def)
  moreover have "distinct (pre @ ov # rst)" using P by (auto simp: link_pre_def)
  ultimately show ?thesis using id ty unfolding linked_def ids o by auto
qed

text \<open>The overlap loses its first part: case 5 and case 2 with a common start.\<close>

lemma linked_tail:
  assumes P: "link_pre v sp lock pre (ov # rst) need ps" and id: "r_id (v ov) = r_id (v lock)"
    and s: "r_start (v lock) \<le> r_start (v ov)" "r_start (v ov) \<le> r_end (v lock)" "r_end (v lock) \<noteq> - 1"
    and e: "r_end (v ov) = - 1 \<or> r_end (v lock) < r_end (v ov)"
  shows "linked v (pre @ ov # rst) (v lock) (v(ov := (v ov)\<lparr>r_start := off_wrap (r_end (v lock) + 1)\<rparr>))
    (pre @ (if need then [lock] else []) @ ov # rst)"
proof -
  let ?i = "r_id (v lock)" and ?v = "v(ov := (v ov)\<lparr>r_start := off_wrap (r_end (v lock) + 1)\<rparr>)"
  let ?l = "pre @ (if need then [lock] else []) @ ov # rst"
  have wk: "wf_rng (v lock)" and wo: "wf_rng (v ov)" using P id by (auto simp: link_pre_def chain_append chain_Cons)
  have ow: "off_wrap (r_end (v lock) + 1) = r_end (v lock) + 1"
    using wk s by (intro off_wrap_id) (auto simp: wf_rng_def)
  have ids: "own ?v j l = own v j l" for j l by (rule own_upd) simp
  have d: "ov \<notin> set ps" "ov \<notin> set rst" "ov \<noteq> lock" using link_pre_ps(2) [OF P] P by (auto simp: link_pre_def)
  have o: "own v ?i ?l = ps @ lock # ov # own v ?i rst"
    "own v ?i (pre @ ov # rst) = ps @ (if need then [] else [lock]) @ ov # own v ?i rst"
    using P id by (auto simp: link_pre_def)
  have ch: "chain v ps" "chain v (own v ?i rst)" "\<forall>p \<in> set ps. ends_before (v p) (v lock)"
    "\<forall>p \<in> set ps. \<forall>a \<in> set (own v ?i rst). ends_before (v p) (v a)" "\<forall>a \<in> set (own v ?i rst). ends_before (v ov) (v a)"
    using P id by (auto simp: link_pre_def chain_append chain_Cons)
  have "chain ?v (ps @ lock # ov # own v ?i rst)"
    using d ch wk wo s e ow
    by (auto simp: chain_append chain_Cons chain_upd ends_before_def wf_rng_def)
  moreover have "lock \<in> set ?l"
  proof (cases need)
    case False
    then have "lock \<in> set (own v ?i pre)" using P by (simp add: link_pre_def)
    then show ?thesis by simp
  qed simp
  moreover have "contains (?v lock) (v lock)" using d by (auto simp: contains_def)
  moreover have "held ?v ?l ?i b t = held v (pre @ ov # rst) ?i b t" if b: "\<not> covers (v lock) b" for b t
  proof -
    have "covers (?v ov) b = covers (v ov) b" using b s e ow by (auto simp: covers_def)
    then show ?thesis unfolding held_own ids o using b d by (auto simp: hit_upd)
  qed
  moreover have "distinct ?l" using P by (auto simp: link_pre_def)
  ultimately show ?thesis using d id by (intro linkedI [where a = lock]) (auto simp: ids o simp del: own_simps, auto)
qed

text \<open>The overlap is split around the lock: case 2.\<close>

lemma linked_split:
  assumes P: "link_pre v sp lock pre (ov # rst) True ps" and id: "r_id (v ov) = r_id (v lock)"
    and s: "r_start (v ov) < r_start (v lock)" and c: "contains (v ov) (v lock)"
    and v': "v' = (if r_end (v ov) = r_end (v lock) then v else v(sp := (v ov)\<lparr>r_start := off_wrap (r_end (v lock) + 1)\<rparr>))
      (ov := (v ov)\<lparr>r_end := off_wrap (r_start (v lock) - 1)\<rparr>)"
  shows "linked v (pre @ ov # rst) (v lock) v' (pre @ ov # lock # (if r_end (v ov) = r_end (v lock) then rst else sp # rst))"
proof -
  let ?i = "r_id (v lock)"
  let ?l = "pre @ ov # lock # (if r_end (v ov) = r_end (v lock) then rst else sp # rst)"
  have wk: "wf_rng (v lock)" and wo: "wf_rng (v ov)" using P id by (auto simp: link_pre_def chain_append chain_Cons)
  have ow: "r_end (v ov) \<noteq> r_end (v lock) \<Longrightarrow> off_wrap (r_end (v lock) + 1) = r_end (v lock) + 1"
    "off_wrap (r_start (v lock) - 1) = r_start (v lock) - 1"
    using wk wo s c by (auto intro!: off_wrap_id simp: wf_rng_def contains_def)
  have d: "ov \<notin> set ps" "ov \<notin> set rst" "ov \<notin> set pre" "ov \<noteq> lock" "sp \<noteq> lock" "sp \<noteq> ov" "sp \<notin> set pre" "sp \<notin> set rst"
      "lock \<notin> set pre" "lock \<notin> set rst" "sp \<notin> set ps" "lock \<notin> set ps"
    using link_pre_ps [OF P] P by (auto simp: link_pre_def)
  have keep: "v' a = v a" if "a \<noteq> ov" "a \<noteq> sp" for a using that by (simp add: v')
  have ids: "own v' j l = own v j l" if "sp \<notin> set l" for j l
    using that by (auto simp: own_def v' intro!: filter_cong)
  have osp: "own v' ?i ?l = ps @ ov # lock # (if r_end (v ov) = r_end (v lock) then own v ?i rst else sp # own v ?i rst)"
    using P id d ids [of pre] ids [of rst] by (auto simp: link_pre_def v')
  have o: "own v ?i (pre @ ov # rst) = ps @ ov # own v ?i rst" using P id by (auto simp: link_pre_def)
  have ch: "chain v ps" "chain v (own v ?i rst)" "\<forall>p \<in> set ps. ends_before (v p) (v ov)"
    "\<forall>p \<in> set ps. \<forall>a \<in> set (own v ?i rst). ends_before (v p) (v a)" "\<forall>a \<in> set (own v ?i rst). ends_before (v ov) (v a)"
    "\<forall>p \<in> set ps. ends_before (v p) (v lock)"
    using P id by (auto simp: link_pre_def chain_append chain_Cons)
  have cc: "chain v' ps = chain v ps" "chain v' (own v ?i rst) = chain v (own v ?i rst)"
    using d by (auto intro!: chain_cong keep)
  have vo: "v' ov = (v ov)\<lparr>r_end := r_start (v lock) - 1\<rparr>" "v' lock = v lock"
    "r_end (v ov) \<noteq> r_end (v lock) \<Longrightarrow> v' sp = (v ov)\<lparr>r_start := r_end (v lock) + 1\<rparr>"
    using d ow by (auto simp: v')
  have kp: "p \<in> set ps \<Longrightarrow> v' p = v p" "a \<in> set rst \<Longrightarrow> v' a = v a" for p a using d by (auto intro!: keep)
  have "chain v' (own v' ?i ?l)"
    unfolding osp using ch cc wk wo s c vo kp
    by (auto simp: chain_append chain_Cons ends_before_def wf_rng_def contains_def split: if_splits)
  moreover have "contains (v' lock) (v lock)" using d by (auto simp: contains_def vo)
  moreover have "held v' ?l ?i b t = held v (pre @ ov # rst) ?i b t" if b: "\<not> covers (v lock) b" for b t
  proof -
    have "covers (v ov) b \<longleftrightarrow> covers (v' ov) b \<or> r_end (v ov) \<noteq> r_end (v lock) \<and> covers (v' sp) b"
      using b s c wk wo vo by (auto simp: covers_def contains_def wf_rng_def)
    moreover have "hit v' ps b t = hit v ps b t" "hit v' (own v ?i rst) b t = hit v (own v ?i rst) b t"
      using kp by (auto intro!: hit_cong)
    ultimately show ?thesis unfolding held_own osp o using b vo by auto
  qed
  moreover have "own v' j ?l = own v j (pre @ ov # rst)" if "j \<noteq> ?i" for j
    using that d ids [of pre] ids [of rst] id vo by auto
  moreover have "distinct ?l" using P d by (auto simp: link_pre_def)
  moreover have "\<forall>a \<in> set (pre @ ov # rst). r_id (v a) \<noteq> ?i \<longrightarrow> v' a = v a" using d id by (auto intro!: keep)
  ultimately show ?thesis using d vo by (intro linkedI [where a = lock]) auto
qed

section \<open>The loop that adds a lock\<close>

text \<open>A change of view and list that matters to nobody outside the range of the request.\<close>

lemma linked_trans:
  assumes L: "linked v1 l1 k v' l'"
    and h: "\<And>b ty. \<not> covers k b \<Longrightarrow> held v1 l1 (r_id k) b ty = held v l (r_id k) b ty"
    and o: "\<And>j. j \<noteq> r_id k \<Longrightarrow> own v1 j l1 = own v j l" and s: "\<And>a. a \<in> set l \<Longrightarrow> r_id (v a) \<noteq> r_id k \<Longrightarrow> v1 a = v a"
  shows "linked v l k v' l'"
proof -
  have "v' a = v a" if "a \<in> set l" "r_id (v a) \<noteq> r_id k" for a
  proof -
    have "a \<in> set (own v1 (r_id (v a)) l1)" using o [OF that(2)] that(1) by simp
    then have "a \<in> set l1" by auto
    with L s [OF that] that(2) show ?thesis by (auto simp: linked_def)
  qed
  with L h o show ?thesis by (simp add: linked_def)
qed

lemma link_pre_contained:
  assumes P: "link_pre v sp lock pre (ov # rst) need ps" and id: "r_id (v ov) = r_id (v lock)"
    and c: "contains (v lock) (v ov)"
  shows "link_pre v sp lock (pre @ (if need then [lock] else [])) rst False ps"
    and "linked v (pre @ (if need then [lock] else []) @ rst) (v lock) v' l' \<Longrightarrow> linked v (pre @ ov # rst) (v lock) v' l'"
proof -
  let ?i = "r_id (v lock)"
  have wo: "wf_rng (v ov)" "\<forall>a \<in> set (own v ?i rst). ends_before (v ov) (v a)"
    using P id by (auto simp: link_pre_def chain_append chain_Cons)
  have "r_start (v lock) < r_start (v a)" if "a \<in> set rst" "r_id (v a) = ?i" for a
    using wo that c by (fastforce simp: contains_def ends_before_def wf_rng_def)
  then show "link_pre v sp lock (pre @ (if need then [lock] else [])) rst False ps"
    using P id by (auto simp: link_pre_def chain_append chain_Cons)
  have cov: "covers (v lock) b" if "covers (v ov) b" for b
    using that c by (auto simp: covers_def contains_def)
  assume "linked v (pre @ (if need then [lock] else []) @ rst) (v lock) v' l'"
  then show "linked v (pre @ ov # rst) (v lock) v' l'"
    by (rule linked_trans) (use id cov in \<open>auto simp: held_own\<close>)
qed

lemma link_pre_head:
  assumes P: "link_pre v sp lock pre (ov # rst) True ps" and id: "r_id (v ov) = r_id (v lock)"
    and c: "ovcase 4 (v ov) (v lock)" and v1: "v1 = v(ov := (v ov)\<lparr>r_end := off_wrap (r_start (v lock) - 1)\<rparr>)"
  shows "link_pre v1 sp lock (pre @ [ov, lock]) rst False (ps @ [ov])" "v1 lock = v lock"
    and "linked v1 (pre @ [ov, lock] @ rst) (v lock) v' l' \<Longrightarrow> linked v (pre @ ov # rst) (v lock) v' l'"
proof -
  let ?i = "r_id (v lock)"
  have w: "wf_rng (v ov)" "wf_rng (v lock)" "\<forall>a \<in> set (own v ?i rst). ends_before (v ov) (v a)"
    using P id by (auto simp: link_pre_def chain_append chain_Cons)
  have s: "r_start (v ov) < r_start (v lock)" "r_start (v lock) \<le> r_end (v ov)" "r_end (v lock) = - 1 \<or> r_end (v ov) < r_end (v lock)"
    using c by (auto simp: ovcase_def)
  have ow: "off_wrap (r_start (v lock) - 1) = r_start (v lock) - 1"
    using w s by (intro off_wrap_id) (auto simp: wf_rng_def)
  have d: "ov \<notin> set ps" "ov \<notin> set rst" "ov \<noteq> lock" "ov \<notin> set pre" using link_pre_ps(2) [OF P] P by (auto simp: link_pre_def)
  show vl: "v1 lock = v lock" using d by (simp add: v1)
  have ids: "own v1 j l = own v j l" for j l unfolding v1 by (rule own_upd) simp
  have vo: "v1 ov = (v ov)\<lparr>r_end := r_start (v lock) - 1\<rparr>" "\<And>a. a \<noteq> ov \<Longrightarrow> v1 a = v a" using ow by (simp_all add: v1)
  have ch: "chain v1 ps = chain v ps" "chain v1 (own v ?i rst) = chain v (own v ?i rst)"
    using d by (auto simp: v1 chain_upd)
  have "r_start (v lock) < r_start (v a)" if "a \<in> set rst" "r_id (v a) = ?i" for a
    using w(3) that s by (fastforce simp: ends_before_def)
  moreover have P': "chain v ps" "chain v (own v ?i rst)" "\<forall>p \<in> set ps. ends_before (v p) (v ov)"
    "\<forall>p \<in> set ps. \<forall>a \<in> set (own v ?i rst). ends_before (v p) (v a)" "\<forall>p \<in> set ps. ends_before (v p) (v lock)"
    "own v ?i pre = ps"
    using P id by (auto simp: link_pre_def chain_append chain_Cons)
  moreover have np: "v1 p = v p" if "p \<in> set ps" for p using that d by (auto intro!: vo(2))
  moreover have nr: "v1 a = v a" if "a \<in> set rst" for a using that d by (auto intro!: vo(2))
  moreover have "chain v1 (ps @ [ov] @ own v ?i rst)"
    unfolding chain_append chain_Cons ch using P' w s vo np nr
    by (auto simp: ends_before_def wf_rng_def)
  moreover have "ends_before (v1 ov) (v lock)" using vo w s by (auto simp: ends_before_def wf_rng_def)
  ultimately show "link_pre v1 sp lock (pre @ [ov, lock]) rst False (ps @ [ov])"
    using P id d w unfolding link_pre_def vl ids by auto
  have cov: "covers (v1 ov) b = covers (v ov) b" if "\<not> covers (v lock) b" for b
    using that s w vo by (auto simp: covers_def wf_rng_def)
  assume "linked v1 (pre @ [ov, lock] @ rst) (v lock) v' l'"
  then show "linked v (pre @ ov # rst) (v lock) v' l'"
  proof (rule linked_trans)
    fix b ty assume b: "\<not> covers (v lock) b"
    have "hit v1 ps b ty = hit v ps b ty" "hit v1 (own v ?i rst) b ty = hit v (own v ?i rst) b ty"
      using np nr by (auto intro!: hit_cong)
    then show "held v1 (pre @ [ov, lock] @ rst) ?i b ty = held v (pre @ ov # rst) ?i b ty"
      unfolding held_own ids using P'(6) b cov [OF b] vo vl id by auto
  qed (use id d vl vo(1) in \<open>auto simp: ids intro!: vo(2)\<close>)
qed

text \<open>The blocked requests of a lock that is swallowed move to the new lock.\<close>

definition take_waiters :: "nat \<Rightarrow> nat \<Rightarrow> bool \<Rightarrow> lfstate \<Rightarrow> lfstate" where
  "take_waiters lock ov down st =
     (if down then lf_wakelock ov st
      else let ws = lf_blkhd (lf_mem st ov);
               st = fold (\<lambda>w. upd_lf w (\<lambda>l. l\<lparr>lf_next := Some lock\<rparr>)) ws st;
               st = upd_lf ov (\<lambda>l. l\<lparr>lf_blkhd := []\<rparr>) st
           in upd_lf lock (\<lambda>l. l\<lparr>lf_blkhd := lf_blkhd l @ ws\<rparr>) st)"

lemma same_core_take: "same_core st (take_waiters lock ov down st)"
proof (cases down)
  case True
  then show ?thesis by (simp add: take_waiters_def same_core_wakelock)
next
  case False
  show ?thesis unfolding take_waiters_def Let_def using False
    by (simp, intro same_core_trans [OF same_core_trans [OF same_core_fold_next same_core_upd_blkhd] same_core_upd_blkhd])
qed

text \<open>One iteration of the loop, case by case.\<close>

lemma lf_link_iter:
  assumes "lf_findoverlap (lf_mem st) blk lock True = Some (c, sk, rest)"
  shows "rest = [] \<Longrightarrow> lf_link sp lock pre blk need st
      = Some (set_head (lf_head (lf_mem st lock)) (pre @ sk @ (if need then [lock] else [])) st)"
    and "rest = ov # rst \<Longrightarrow> c = 0 \<Longrightarrow> lf_link sp lock pre blk need st
      = Some (set_head (lf_head (lf_mem st lock)) (pre @ sk @ (if need then [lock] else []) @ ov # rst) st)"
    and "rest = ov # rst \<Longrightarrow> c = 1 \<Longrightarrow> lf_link sp lock pre blk need st
      = Some (set_head (lf_head (lf_mem st lock)) (pre @ sk @ ov # rst) (lf_free lock
          (upd_lf ov (\<lambda>l. l\<lparr>lf_type := lf_type (lf_mem st lock)\<rparr>)
            (if lf_type (lf_mem st lock) = F_RDLCK \<and> lf_type (lf_mem st ov) = F_WRLCK then lf_wakelock ov st else st))))"
    and "rest = ov # rst \<Longrightarrow> c = 2 \<Longrightarrow> lf_link sp lock pre blk need st
      = (if lf_type (lf_mem st ov) = lf_type (lf_mem st lock)
         then Some (set_head (lf_head (lf_mem st lock)) (pre @ sk @ ov # rst) (lf_free lock st))
         else if lf_start (lf_mem st ov) = lf_start (lf_mem st lock)
         then Some (set_head (lf_head (lf_mem st lock)) (pre @ sk @ lock # ov # rst)
           (lf_wakelock ov (upd_lf ov (\<lambda>l. l\<lparr>lf_start := off_wrap (lf_end (lf_mem st lock) + 1)\<rparr>) st)))
         else Some (set_head (lf_head (lf_mem st lock)) (pre @ sk @ fst (lf_split sp ov lock rst st))
           (lf_wakelock ov (snd (lf_split sp ov lock rst st)))))"
    and "rest = ov # rst \<Longrightarrow> c = 3 \<Longrightarrow> lf_link sp lock pre blk need st
      = lf_link sp lock (pre @ sk @ (if need then [lock] else [])) rst False (lf_free ov
          (take_waiters lock ov (lf_type (lf_mem st lock) = F_RDLCK \<and> lf_type (lf_mem st ov) = F_WRLCK) st))"
    and "rest = ov # rst \<Longrightarrow> c = 4 \<Longrightarrow> need \<Longrightarrow> lf_link sp lock pre blk need st
      = lf_link sp lock (pre @ sk @ [ov, lock]) rst False
          (lf_wakelock ov (upd_lf ov (\<lambda>l. l\<lparr>lf_end := off_wrap (lf_start (lf_mem st lock) - 1)\<rparr>) st))"
    and "rest = ov # rst \<Longrightarrow> c = 5 \<Longrightarrow> lf_link sp lock pre blk need st
      = Some (set_head (lf_head (lf_mem st lock)) (pre @ sk @ (if need then [lock] else []) @ ov # rst)
          (lf_wakelock ov (upd_lf ov (\<lambda>l. l\<lparr>lf_start := off_wrap (lf_end (lf_mem st lock) + 1)\<rparr>) st)))"
  by (subst lf_link.simps, simp add: assms Let_def take_waiters_def split_beta)+

lemma vw_split:
  assumes "r_start (vw st ov) \<noteq> r_start (vw st lock)"
  shows "fst (lf_split sp ov lock rst st) = ov # lock # (if r_end (vw st ov) = r_end (vw st lock) then rst else sp # rst)"
    and "sp \<noteq> ov \<Longrightarrow> vw (snd (lf_split sp ov lock rst st)) = (if r_end (vw st ov) = r_end (vw st lock) then vw st
      else (vw st)(sp := (vw st ov)\<lparr>r_start := off_wrap (r_end (vw st lock) + 1)\<rparr>))
      (ov := (vw st ov)\<lparr>r_end := off_wrap (r_start (vw st lock) - 1)\<rparr>)"
    and "lf_heads (snd (lf_split sp ov lock rst st)) = lf_heads st"
    and "lf_head (lf_mem st ov) = h \<Longrightarrow> lf_head (lf_mem st lock) = h \<Longrightarrow> sp \<noteq> lock
      \<Longrightarrow> lf_head (lf_mem (snd (lf_split sp ov lock rst st)) lock) = h"
  using assms by (auto simp: lf_split_def Let_def vw_def core_def fun_eq_iff)

lemma findoverlap_vw:
  assumes "wf_rng (vw st lock)" "chain (vw st) (own (vw st) (r_id (vw st lock)) l)"
  shows "\<exists>c sk rest. lf_findoverlap (lf_mem st) l lock True = Some (c, sk, rest) \<and> l = sk @ rest
    \<and> (\<forall>a \<in> set sk. r_id (vw st a) = r_id (vw st lock) \<longrightarrow> ends_before (vw st a) (vw st lock))
    \<and> (c = 0 \<longrightarrow> (\<forall>a \<in> set rest. r_id (vw st a) = r_id (vw st lock) \<longrightarrow> ends_before (vw st lock) (vw st a)))
    \<and> (c \<noteq> 0 \<longrightarrow> (\<exists>ov rst. rest = ov # rst \<and> r_id (vw st ov) = r_id (vw st lock) \<and> ovcase c (vw st ov) (vw st lock)))"
proof -
  have cv: "core \<circ> lf_mem st = vw st" by (simp add: vw_def fun_eq_iff)
  show ?thesis
    using findoverlap_self [of "lf_mem st" lock l, unfolded cv vw_def [symmetric] vw_fields(1) [symmetric]] assms by blast
qed

lemma link_done:
  assumes "r = Some (set_head h l' st1)" "lf_heads st1 = lf_heads st" "linked v l k (vw st1) l'"
  shows "\<exists>st' l'. r = Some st' \<and> lf_heads st' = (lf_heads st)(h := l') \<and> linked v l k (vw st') l'"
  by (intro exI [of _ "set_head h l' st1"] exI [of _ l']) (simp add: assms)

lemma lf_link_correct:
  assumes "link_pre (vw st) sp lock pre blk need ps"
  shows "\<exists>st' l'. lf_link sp lock pre blk need st = Some st' \<and> lf_heads st' = (lf_heads st)(lf_head (lf_mem st lock) := l')
    \<and> linked (vw st) (pre @ blk) (vw st lock) (vw st') l'"
  using assms
proof (induction blk arbitrary: pre need st ps rule: length_induct)
  case (1 blk)
  let ?v = "vw st" and ?k = "vw st lock"
  have "wf_rng ?k" "chain ?v (own ?v (r_id ?k) blk)"
    using "1.prems" by (simp_all add: link_pre_def chain_append)
  from findoverlap_vw [OF this] obtain c sk rest where f: "lf_findoverlap (lf_mem st) blk lock True = Some (c, sk, rest)"
    "blk = sk @ rest" "\<forall>a \<in> set sk. r_id (?v a) = r_id ?k \<longrightarrow> ends_before (?v a) ?k"
    "c = 0 \<Longrightarrow> \<forall>a \<in> set rest. r_id (?v a) = r_id ?k \<longrightarrow> ends_before ?k (?v a)"
    "c \<noteq> 0 \<Longrightarrow> \<exists>ov rst. rest = ov # rst \<and> r_id (?v ov) = r_id ?k \<and> ovcase c (?v ov) ?k" by blast
  have P: "link_pre ?v sp lock (pre @ sk) rest need (ps @ own ?v (r_id ?k) sk)"
    using link_pre_skip "1.prems" f(2,3) by simp
  show ?case
  proof (cases "c = 0")
    case True
    have "linked ?v ((pre @ sk) @ rest) ?k ?v ((pre @ sk) @ (if need then [lock] else []) @ rest)"
      by (rule linked_none [OF P f(4) [OF True]])
    then have L: "linked ?v (pre @ blk) ?k ?v (pre @ sk @ (if need then [lock] else []) @ rest)" using f(2) by simp
    have "lf_link sp lock pre blk need st = Some (set_head (lf_head (lf_mem st lock)) (pre @ sk @ (if need then [lock] else []) @ rest) st)"
      using lf_link_iter(1,2) [OF f(1)] True by (cases rest) simp_all
    then show ?thesis by (rule link_done) (simp_all add: L)
  next
    case False
    from f(5) [OF this] obtain ov rst where ov: "rest = ov # rst" "r_id (?v ov) = r_id ?k" "ovcase c (?v ov) ?k" by blast
    note P = P [unfolded ov(1)]
    have len: "length rst < length blk" using f(2) ov(1) by simp
    have need: "need" if "c = 1 \<or> c = 2 \<or> c = 4"
    proof (rule ccontr)
      assume "\<not> need"
      then have "r_start ?k < r_start (?v ov)" using P ov(2) by (simp add: link_pre_def)
      with that ov(3) show False by (auto simp: ovcase_def contains_def)
    qed
    from ov(3) consider "c = 1" | "c = 2" | "c = 3" | "c = 4" | "c = 5" by (auto simp: ovcase_def)
    then show ?thesis
    proof cases
      assume c: "c = 1"
      have ct: "contains (?v ov) ?k" using c ov(3) by (auto simp: ovcase_def contains_def)
      have n: "need" using need c by simp
      have "linked ?v ((pre @ sk) @ ov # rst) ?k (?v(ov := (?v ov)\<lparr>r_type := r_type ?k\<rparr>)) ((pre @ sk) @ ov # rst)"
        by (rule linked_contained [OF P [unfolded eqTrueI [OF n]] ov(2) ct disjI2 [OF ov(3) [unfolded c]] refl])
      then show ?thesis using ov(1) f(2) by (intro link_done [OF lf_link_iter(3) [OF f(1) ov(1) c]]) (auto simp: vw_fields)
    next
      assume c: "c = 2"
      have ct: "contains (?v ov) ?k" "\<not> (r_start (?v ov) = r_start ?k \<and> r_end (?v ov) = r_end ?k)"
        using c ov(3) by (auto simp: ovcase_def)
      have n: "need" using need c by simp
      note P = P [unfolded eqTrueI [OF n]]
      show ?thesis
      proof (cases "lf_type (lf_mem st ov) = lf_type (lf_mem st lock)")
        case True
        then have "linked ?v ((pre @ sk) @ ov # rst) ?k ?v ((pre @ sk) @ ov # rst)"
          using linked_contained [OF P ov(2) ct(1), of "r_type ?k"] by (simp add: vw_fields fun_upd_idem)
        then show ?thesis using ov(1) f(2) True
          by (intro link_done [OF lf_link_iter(4) [OF f(1) ov(1) c, unfolded if_P [OF True]]]) simp_all
      next
        case tne: False
        show ?thesis
        proof (cases "r_start (?v ov) = r_start ?k")
          case True
          have w: "wf_rng ?k" "wf_rng (?v ov)" using P ov(2) by (auto simp: link_pre_def chain_append chain_Cons)
          have "r_end ?k \<noteq> - 1" "r_end (?v ov) = - 1 \<or> r_end ?k < r_end (?v ov)"
            using ct True by (auto simp: contains_def)
          then have "linked ?v ((pre @ sk) @ ov # rst) ?k (?v(ov := (?v ov)\<lparr>r_start := off_wrap (r_end ?k + 1)\<rparr>))
              ((pre @ sk) @ [lock] @ ov # rst)"
            using linked_tail [OF P ov(2)] True w by (auto simp: wf_rng_def)
          then show ?thesis using ov(1) f(2)
            by (intro link_done [OF lf_link_iter(4) [OF f(1) ov(1) c, unfolded if_not_P [OF tne]
                if_P [OF True [unfolded vw_fields]]]]) (simp_all add: vw_fields)
        next
          case sne: False
          have "r_start (?v ov) < r_start ?k" using ct(1) sne by (auto simp: contains_def)
          note L = linked_split [OF P ov(2) this ct(1) refl]
          have "sp \<noteq> ov" using P by (auto simp: link_pre_def)
          note V = vw_split [OF sne, where sp = sp and rst = rst]
          show ?thesis
            using ov(1) f(2) L V(2) [OF \<open>sp \<noteq> ov\<close>] V(1,3)
            by (intro link_done [OF lf_link_iter(4) [OF f(1) ov(1) c, unfolded if_not_P [OF tne]
                if_not_P [OF sne [unfolded vw_fields]]]]) (simp_all add: vw_fields)
        qed
      qed
    next
      assume c: "c = 3"
      have ct: "contains ?k (?v ov)" using c ov(3) by (auto simp: ovcase_def)
      let ?st = "lf_free ov (take_waiters lock ov (lf_type (lf_mem st lock) = F_RDLCK \<and> lf_type (lf_mem st ov) = F_WRLCK) st)"
      have sc: "same_core st ?st" by (rule same_core_trans [OF same_core_take same_core_free])
      note Q = link_pre_contained [OF P ov(2) ct]
      have "link_pre (vw ?st) sp lock ((pre @ sk) @ (if need then [lock] else [])) rst False (ps @ own ?v (r_id ?k) sk)"
        unfolding same_coreD(1) [OF sc] by (rule Q(1))
      from "1.IH" [rule_format, OF len this] same_coreD [OF sc]
      obtain st' l' where g: "lf_link sp lock ((pre @ sk) @ (if need then [lock] else [])) rst False ?st = Some st'"
        "lf_heads st' = (lf_heads st)(lf_head (lf_mem st lock) := l')"
        "linked ?v (((pre @ sk) @ (if need then [lock] else [])) @ rst) ?k (vw st') l'" by auto
      show ?thesis
      proof (intro exI conjI)
        show "lf_link sp lock pre blk need st = Some st'" using lf_link_iter(5) [OF f(1) ov(1) c] g(1) by simp
        show "linked ?v (pre @ blk) ?k (vw st') l'" using Q(2) g(3) ov(1) f(2) by simp
      qed (rule g(2))
    next
      assume c: "c = 4"
      have n: "need" using need c by simp
      note P = P [unfolded eqTrueI [OF n]]
      let ?u = "upd_lf ov (\<lambda>l. l\<lparr>lf_end := off_wrap (lf_start (lf_mem st lock) - 1)\<rparr>) st"
      let ?st = "lf_wakelock ov ?u"
      have v1: "vw ?st = ?v(ov := (?v ov)\<lparr>r_end := off_wrap (r_start ?k - 1)\<rparr>)" by (simp add: vw_fields)
      note Q = link_pre_head [OF P ov(2) ov(3) [unfolded c] v1]
      have h: "lf_head (lf_mem ?st lock) = lf_head (lf_mem st lock)" by simp
      from "1.IH" [rule_format, OF len Q(1)] Q(2) h
      obtain st' l' where g: "lf_link sp lock ((pre @ sk) @ [ov, lock]) rst False ?st = Some st'"
        "lf_heads st' = (lf_heads st)(lf_head (lf_mem st lock) := l')"
        "linked (vw ?st) (((pre @ sk) @ [ov, lock]) @ rst) ?k (vw st') l'" by auto
      show ?thesis
      proof (intro exI conjI)
        show "lf_link sp lock pre blk need st = Some st'" using lf_link_iter(6) [OF f(1) ov(1) c n] g(1) by simp
        show "linked ?v (pre @ blk) ?k (vw st') l'" using Q(3) g(3) ov(1) f(2) by simp
      qed (rule g(2))
    next
      assume c: "c = 5"
      then have "linked ?v ((pre @ sk) @ ov # rst) ?k (?v(ov := (?v ov)\<lparr>r_start := off_wrap (r_end ?k + 1)\<rparr>))
          ((pre @ sk) @ (if need then [lock] else []) @ ov # rst)"
        using linked_tail [OF P ov(2)] ov(3) by (auto simp: ovcase_def)
      then show ?thesis using ov(1) f(2) by (intro link_done [OF lf_link_iter(7) [OF f(1) ov(1) c]]) (simp_all add: vw_fields)
    qed
  qed
qed

end
