(* ===== verification/Lockf_Clear.thy ===== *)
theory Lockf_Clear
  imports Lockf_Set
begin

text \<open>
  What clearing does to the list of an inode: the owner holds nothing on the requested bytes and
  what it held elsewhere. The list is the one that adding the request would leave, without it.
\<close>

definition cleared :: "(nat \<Rightarrow> rng) \<Rightarrow> nat list \<Rightarrow> rng \<Rightarrow> (nat \<Rightarrow> rng) \<Rightarrow> nat list \<Rightarrow> bool" where
  "cleared v l k v' l' \<longleftrightarrow>
     chain v' (own v' (r_id k) l')
   \<and> (\<forall>b ty. held v' l' (r_id k) b ty \<longleftrightarrow> \<not> covers k b \<and> held v l (r_id k) b ty)
   \<and> (\<forall>j. j \<noteq> r_id k \<longrightarrow> own v' j l' = own v j l) \<and> (\<forall>a \<in> set l. r_id (v a) \<noteq> r_id k \<longrightarrow> v' a = v a) \<and> distinct l'"

lemma before_not_covers: "ends_before r k \<Longrightarrow> covers r b \<Longrightarrow> \<not> covers k b"
  by (auto simp: ends_before_def covers_def)

lemma linked_cleared:
  assumes L: "linked v l k v' (A @ lock # B)" and k: "v' lock = k"
  shows "cleared v l k v' (A @ B)"
proof -
  have ch: "chain v' (own v' (r_id k) A @ lock # own v' (r_id k) B)" using L k by (simp add: linked_def)
  then have out: "ends_before (v' a) k" if "a \<in> set (own v' (r_id k) A)" for a
    using that k by (auto simp: chain_append)
  have out': "ends_before k (v' a)" if "a \<in> set (own v' (r_id k) B)" for a
    using that ch k by (auto simp: chain_append chain_Cons)
  have no: "\<not> hit v' (own v' (r_id k) A) b ty" "\<not> hit v' (own v' (r_id k) B) b ty" if "covers k b" for b ty
    using out out' before_not_covers [of _ k b] before_not_covers [of k _ b] that unfolding hit_def by blast+
  have same: "held v' (A @ lock # B) (r_id k) b ty = held v l (r_id k) b ty" if "\<not> covers k b" for b ty
    using L that by (simp add: linked_def)
  have "held v' (A @ B) (r_id k) b ty \<longleftrightarrow> \<not> covers k b \<and> held v l (r_id k) b ty" for b ty
  proof (cases "covers k b")
    case True
    with no [OF True, of ty] show ?thesis by (simp add: held_own)
  next
    case False
    with same [OF False, of ty] k show ?thesis by (simp add: held_own)
  qed
  moreover have "chain v' (own v' (r_id k) (A @ B))" using ch by (auto simp: chain_append chain_Cons)
  ultimately show ?thesis using L k by (auto simp: cleared_def linked_def)
qed

lemma cleared_trans:
  assumes L: "cleared v1 l1 k v' l'"
    and h: "\<And>b ty. \<not> covers k b \<Longrightarrow> held v1 l1 (r_id k) b ty = held v l (r_id k) b ty"
    and o: "\<And>j. j \<noteq> r_id k \<Longrightarrow> own v1 j l1 = own v j l" and s: "\<And>a. a \<in> set l \<Longrightarrow> r_id (v a) \<noteq> r_id k \<Longrightarrow> v1 a = v a"
  shows "cleared v l k v' l'"
proof -
  have "v' a = v a" if "a \<in> set l" "r_id (v a) \<noteq> r_id k" for a
  proof -
    have "a \<in> set (own v1 (r_id (v a)) l1)" using o [OF that(2)] that(1) by simp
    then have "a \<in> set l1" by auto
    with L s [OF that] that(2) show ?thesis by (auto simp: cleared_def)
  qed
  with L h o show ?thesis by (auto simp: cleared_def)
qed

text \<open>The next iteration after a lock that the request contains, and after one that starts before it.\<close>

lemma clear_pre_contained:
  assumes P: "link_pre v sp lock pre (ov # rst) True ps" and id: "r_id (v ov) = r_id (v lock)"
    and c: "contains (v lock) (v ov)"
  shows "link_pre v sp lock pre rst True ps"
    and "cleared v (pre @ rst) (v lock) v' l' \<Longrightarrow> cleared v (pre @ ov # rst) (v lock) v' l'"
proof -
  show "link_pre v sp lock pre rst True ps" using P id by (auto simp: link_pre_def chain_append chain_Cons)
  have cov: "covers (v lock) b" if "covers (v ov) b" for b using that c by (auto simp: covers_def contains_def)
  assume "cleared v (pre @ rst) (v lock) v' l'"
  then show "cleared v (pre @ ov # rst) (v lock) v' l'"
    by (rule cleared_trans) (use id cov in \<open>auto simp: held_own\<close>)
qed

lemma clear_pre_head:
  assumes P: "link_pre v sp lock pre (ov # rst) True ps" and id: "r_id (v ov) = r_id (v lock)"
    and c: "ovcase 4 (v ov) (v lock)" and v1: "v1 = v(ov := (v ov)\<lparr>r_end := off_wrap (r_start (v lock) - 1)\<rparr>)"
  shows "link_pre v1 sp lock (pre @ [ov]) rst True (ps @ [ov])" "v1 lock = v lock"
    and "cleared v1 (pre @ [ov] @ rst) (v lock) v' l' \<Longrightarrow> cleared v (pre @ ov # rst) (v lock) v' l'"
proof -
  note H = link_pre_head(1,2) [OF P id c v1]
  show vl: "v1 lock = v lock" by (rule H(2))
  have ids: "own v1 j l = own v j l" for j l unfolding v1 by (rule own_upd) simp
  have i: "r_id (v1 ov) = r_id (v lock)" using id by (simp add: v1)
  have "link_pre v1 sp lock (pre @ [ov, lock]) rst False (ps @ [ov])" by (rule H(1))
  then show "link_pre v1 sp lock (pre @ [ov]) rst True (ps @ [ov])"
    using P i vl by (auto simp: link_pre_def)
  have w: "wf_rng (v ov)" "wf_rng (v lock)" using P id by (auto simp: link_pre_def chain_append chain_Cons)
  have s: "r_start (v ov) < r_start (v lock)" "r_end (v lock) = - 1 \<or> r_end (v ov) < r_end (v lock)"
    using c by (auto simp: ovcase_def)
  have ow: "off_wrap (r_start (v lock) - 1) = r_start (v lock) - 1"
    using w s by (intro off_wrap_id) (auto simp: wf_rng_def)
  have d: "ov \<notin> set rst" "ov \<notin> set pre" using P by (auto simp: link_pre_def)
  have cov: "covers (v1 ov) b = covers (v ov) b" if "\<not> covers (v lock) b" for b
    using that s c w ow by (auto simp: v1 covers_def wf_rng_def ovcase_def)
  assume "cleared v1 (pre @ [ov] @ rst) (v lock) v' l'"
  then show "cleared v (pre @ ov # rst) (v lock) v' l'"
  proof (rule cleared_trans)
    fix b ty assume b: "\<not> covers (v lock) b"
    have "hit v1 (own v (r_id (v lock)) pre) b ty = hit v (own v (r_id (v lock)) pre) b ty"
      "hit v1 (own v (r_id (v lock)) rst) b ty = hit v (own v (r_id (v lock)) rst) b ty"
      using d by (auto intro!: hit_cong simp: v1)
    then show "held v1 (pre @ [ov] @ rst) (r_id (v lock)) b ty = held v (pre @ ov # rst) (r_id (v lock)) b ty"
      unfolding held_own ids using cov [OF b] id i by (auto simp: v1)
  qed (use id i d in \<open>auto simp: ids\<close>, auto simp: v1)
qed

section \<open>The loop that removes locks\<close>

lemma lf_unlink_iter:
  assumes "lf_findoverlap (lf_mem st) blk lock True = Some (c, sk, rest)"
  shows "rest = [] \<or> c = 0 \<Longrightarrow> lf_unlink sp lock pre blk st = Some (set_head (lf_head (lf_mem st lock)) (pre @ sk @ rest) st)"
    and "rest = ov # rst \<Longrightarrow> c = 1 \<Longrightarrow> lf_unlink sp lock pre blk st
      = Some (set_head (lf_head (lf_mem st lock)) (pre @ sk @ rst) (lf_free ov (lf_wakelock ov st)))"
    and "rest = ov # rst \<Longrightarrow> c = 2 \<Longrightarrow> lf_unlink sp lock pre blk st
      = (if lf_start (lf_mem (lf_wakelock ov st) ov) = lf_start (lf_mem st lock)
         then Some (set_head (lf_head (lf_mem st lock)) (pre @ sk @ ov # rst)
           (upd_lf ov (\<lambda>l. l\<lparr>lf_start := off_wrap (lf_end (lf_mem st lock) + 1)\<rparr>) (lf_wakelock ov st)))
         else Some (set_head (lf_head (lf_mem st lock)) (pre @ sk @ remove1 lock (fst (lf_split sp ov lock rst (lf_wakelock ov st))))
           (snd (lf_split sp ov lock rst (lf_wakelock ov st)))))"
    and "rest = ov # rst \<Longrightarrow> c = 3 \<Longrightarrow> lf_unlink sp lock pre blk st
      = lf_unlink sp lock (pre @ sk) rst (lf_free ov (lf_wakelock ov st))"
    and "rest = ov # rst \<Longrightarrow> c = 4 \<Longrightarrow> lf_unlink sp lock pre blk st
      = lf_unlink sp lock (pre @ sk @ [ov]) rst
          (upd_lf ov (\<lambda>l. l\<lparr>lf_end := off_wrap (lf_start (lf_mem st lock) - 1)\<rparr>) (lf_wakelock ov st))"
    and "rest = ov # rst \<Longrightarrow> c = 5 \<Longrightarrow> lf_unlink sp lock pre blk st
      = Some (set_head (lf_head (lf_mem st lock)) (pre @ sk @ ov # rst)
          (upd_lf ov (\<lambda>l. l\<lparr>lf_start := off_wrap (lf_end (lf_mem st lock) + 1)\<rparr>) (lf_wakelock ov st)))"
  by (subst lf_unlink.simps, auto simp: assms Let_def split_beta split: list.split)+

lemma clear_done:
  assumes "r = Some (set_head h l' st1)" "lf_heads st1 = lf_heads st" "cleared v l k (vw st1) l'"
  shows "\<exists>st' l'. r = Some st' \<and> lf_heads st' = (lf_heads st)(h := l') \<and> cleared v l k (vw st') l'"
  by (intro exI [of _ "set_head h l' st1"] exI [of _ l']) (simp add: assms)

lemma wakelock_start: "lf_start (lf_mem (lf_wakelock ov st) a) = lf_start (lf_mem st a)"
  using same_core_wakelock [of st ov] by (simp add: same_core_def core_def)

lemma lf_unlink_correct:
  assumes "link_pre (vw st) sp lock pre blk True ps"
  shows "\<exists>st' l'. lf_unlink sp lock pre blk st = Some st' \<and> lf_heads st' = (lf_heads st)(lf_head (lf_mem st lock) := l')
    \<and> cleared (vw st) (pre @ blk) (vw st lock) (vw st') l'"
  using assms
proof (induction blk arbitrary: pre st ps rule: length_induct)
  case (1 blk)
  let ?v = "vw st" and ?k = "vw st lock"
  have "wf_rng ?k" "chain ?v (own ?v (r_id ?k) blk)"
    using "1.prems" by (simp_all add: link_pre_def chain_append)
  from findoverlap_vw [OF this] obtain c sk rest where f: "lf_findoverlap (lf_mem st) blk lock True = Some (c, sk, rest)"
    "blk = sk @ rest" "\<forall>a \<in> set sk. r_id (?v a) = r_id ?k \<longrightarrow> ends_before (?v a) ?k"
    "c = 0 \<Longrightarrow> \<forall>a \<in> set rest. r_id (?v a) = r_id ?k \<longrightarrow> ends_before ?k (?v a)"
    "c \<noteq> 0 \<Longrightarrow> \<exists>ov rst. rest = ov # rst \<and> r_id (?v ov) = r_id ?k \<and> ovcase c (?v ov) ?k" by blast
  have P: "link_pre ?v sp lock (pre @ sk) rest True (ps @ own ?v (r_id ?k) sk)"
    using link_pre_skip "1.prems" f(2,3) by simp
  show ?case
  proof (cases "c = 0")
    case True
    have "linked ?v ((pre @ sk) @ rest) ?k ?v ((pre @ sk) @ lock # rest)"
      using linked_none [OF P f(4) [OF True]] by simp
    from linked_cleared [OF this] have "cleared ?v (pre @ blk) ?k ?v (pre @ sk @ rest)" using f(2) by simp
    then show ?thesis by (intro clear_done [OF lf_unlink_iter(1) [OF f(1)]]) (simp_all add: True)
  next
    case False
    from f(5) [OF this] obtain ov rst where ov: "rest = ov # rst" "r_id (?v ov) = r_id ?k" "ovcase c (?v ov) ?k" by blast
    note P = P [unfolded ov(1)]
    have len: "length rst < length blk" using f(2) ov(1) by simp
    have w: "wf_rng ?k" "wf_rng (?v ov)" "\<forall>a \<in> set rst. r_id (?v a) = r_id ?k \<longrightarrow> ends_before (?v ov) (?v a)"
      using P ov(2) by (auto simp: link_pre_def chain_append chain_Cons)
    have ne: "ov \<noteq> lock" "sp \<noteq> ov" "lock \<notin> set rst" using P by (auto simp: link_pre_def)
    from ov(3) consider "c = 1" | "c = 2" | "c = 3" | "c = 4" | "c = 5" by (auto simp: ovcase_def)
    then show ?thesis
    proof cases
      assume c: "c = 1"
      have e: "contains ?k (?v ov)" "r_end (?v ov) = r_end ?k" using c ov(3) by (auto simp: ovcase_def contains_def)
      note Q = link_pre_contained [OF P ov(2) e(1)]
      have "\<forall>a \<in> set rst. r_id (?v a) = r_id ?k \<longrightarrow> ends_before ?k (?v a)" using w(3) e(2) by (auto simp: ends_before_def)
      from linked_none [OF Q(1) this] have "linked ?v ((pre @ sk) @ [lock] @ rst) ?k ?v ((pre @ sk) @ [lock] @ rst)" by simp
      with Q(2) have "linked ?v ((pre @ sk) @ ov # rst) ?k ?v ((pre @ sk) @ lock # rst)" by simp
      from linked_cleared [OF this] show ?thesis
        using ov(1) f(2) by (intro clear_done [OF lf_unlink_iter(2) [OF f(1) ov(1) c]]) simp_all
    next
      assume c: "c = 2"
      have ct: "contains (?v ov) ?k" "\<not> (r_start (?v ov) = r_start ?k \<and> r_end (?v ov) = r_end ?k)"
        using c ov(3) by (auto simp: ovcase_def)
      show ?thesis
      proof (cases "r_start (?v ov) = r_start ?k")
        case True
        have "r_end ?k \<noteq> - 1" "r_end (?v ov) = - 1 \<or> r_end ?k < r_end (?v ov)"
          using ct True by (auto simp: contains_def)
        then have "linked ?v ((pre @ sk) @ ov # rst) ?k (?v(ov := (?v ov)\<lparr>r_start := off_wrap (r_end ?k + 1)\<rparr>))
            ((pre @ sk) @ lock # ov # rst)"
          using linked_tail [OF P ov(2)] True w(1,2) by (auto simp: wf_rng_def)
        from linked_cleared [OF this] have L: "cleared ?v ((pre @ sk) @ ov # rst) ?k
            (?v(ov := (?v ov)\<lparr>r_start := off_wrap (r_end ?k + 1)\<rparr>)) ((pre @ sk) @ ov # rst)" using ne(1) by simp
        have t: "lf_start (lf_mem (lf_wakelock ov st) ov) = lf_start (lf_mem st lock)"
          using True by (simp add: wakelock_start vw_fields)
        show ?thesis using ov(1) f(2) L
          by (intro clear_done [OF lf_unlink_iter(3) [OF f(1) ov(1) c, unfolded if_P [OF t]]]) (simp_all add: vw_fields)
      next
        case sne: False
        have "r_start (?v ov) < r_start ?k" using ct(1) sne by (auto simp: contains_def)
        note L = linked_split [OF P ov(2) this ct(1) refl]
        let ?w = "lf_wakelock ov st"
        have sne': "r_start (vw ?w ov) \<noteq> r_start (vw ?w lock)" using sne by simp
        note V = vw_split [OF sne', where sp = sp and rst = rst]
        let ?v' = "(if r_end (?v ov) = r_end ?k then ?v else ?v(sp := (?v ov)\<lparr>r_start := off_wrap (r_end ?k + 1)\<rparr>))
          (ov := (?v ov)\<lparr>r_end := off_wrap (r_start ?k - 1)\<rparr>)"
        let ?t = "if r_end (?v ov) = r_end ?k then rst else sp # rst"
        have "?v' lock = ?k" using ne P by (auto simp: link_pre_def)
        with linked_cleared [of ?v _ ?k ?v' "pre @ sk @ [ov]" lock ?t] L
        have C: "cleared ?v ((pre @ sk) @ ov # rst) ?k ?v' (pre @ sk @ ov # ?t)" by simp
        have t: "lf_start (lf_mem ?w ov) \<noteq> lf_start (lf_mem st lock)" using sne by (simp add: wakelock_start vw_fields)
        have rm: "remove1 lock (fst (lf_split sp ov lock rst ?w)) = ov # ?t" using V(1) ne by simp
        have eq: "lf_unlink sp lock pre blk st = Some (set_head (lf_head (lf_mem st lock)) (pre @ sk @ ov # ?t)
            (snd (lf_split sp ov lock rst ?w)))"
          using lf_unlink_iter(3) [OF f(1) ov(1) c, where sp = sp and pre = pre] by (simp only: t if_False rm)
        have "cleared ?v (pre @ blk) ?k (vw (snd (lf_split sp ov lock rst ?w))) (pre @ sk @ ov # ?t)"
          unfolding V(2) [OF ne(2)] using C ov(1) f(2) by (cases "r_end (?v ov) = r_end ?k") simp_all
        with V(3) show ?thesis by (intro clear_done [OF eq]) simp_all
      qed
    next
      assume c: "c = 3"
      have ct: "contains ?k (?v ov)" using c ov(3) by (auto simp: ovcase_def)
      let ?st = "lf_free ov (lf_wakelock ov st)"
      note Q = clear_pre_contained [OF P ov(2) ct]
      have "link_pre (vw ?st) sp lock (pre @ sk) rst True (ps @ own ?v (r_id ?k) sk)" using Q(1) by simp
      from "1.IH" [rule_format, OF len this]
      obtain st' l' where g: "lf_unlink sp lock (pre @ sk) rst ?st = Some st'"
        "lf_heads st' = (lf_heads st)(lf_head (lf_mem st lock) := l')" "cleared ?v ((pre @ sk) @ rst) ?k (vw st') l'" by auto
      show ?thesis
      proof (intro exI conjI)
        show "lf_unlink sp lock pre blk st = Some st'" using lf_unlink_iter(4) [OF f(1) ov(1) c] g(1) by simp
        show "cleared ?v (pre @ blk) ?k (vw st') l'" using Q(2) g(3) ov(1) f(2) by simp
      qed (rule g(2))
    next
      assume c: "c = 4"
      let ?st = "upd_lf ov (\<lambda>l. l\<lparr>lf_end := off_wrap (lf_start (lf_mem st lock) - 1)\<rparr>) (lf_wakelock ov st)"
      have v1: "vw ?st = ?v(ov := (?v ov)\<lparr>r_end := off_wrap (r_start ?k - 1)\<rparr>)" by (simp add: vw_fields)
      note Q = clear_pre_head [OF P ov(2) ov(3) [unfolded c] v1]
      have h: "lf_head (lf_mem ?st lock) = lf_head (lf_mem st lock)" using ne by simp
      from "1.IH" [rule_format, OF len Q(1)] Q(2) h
      obtain st' l' where g: "lf_unlink sp lock ((pre @ sk) @ [ov]) rst ?st = Some st'"
        "lf_heads st' = (lf_heads st)(lf_head (lf_mem st lock) := l')"
        "cleared (vw ?st) (((pre @ sk) @ [ov]) @ rst) ?k (vw st') l'" by auto
      show ?thesis
      proof (intro exI conjI)
        show "lf_unlink sp lock pre blk st = Some st'" using lf_unlink_iter(5) [OF f(1) ov(1) c] g(1) by simp
        show "cleared ?v (pre @ blk) ?k (vw st') l'" using Q(3) g(3) ov(1) f(2) by simp
      qed (rule g(2))
    next
      assume c: "c = 5"
      then have "linked ?v ((pre @ sk) @ ov # rst) ?k (?v(ov := (?v ov)\<lparr>r_start := off_wrap (r_end ?k + 1)\<rparr>))
          ((pre @ sk) @ lock # ov # rst)"
        using linked_tail [OF P ov(2)] ov(3) by (auto simp: ovcase_def)
      from linked_cleared [OF this] show ?thesis
        using ov(1) f(2) ne by (intro clear_done [OF lf_unlink_iter(6) [OF f(1) ov(1) c]]) (simp_all add: vw_fields)
    qed
  qed
qed

end
