(* ===== verification/Lockf_Wait.thy ===== *)
theory Lockf_Wait
  imports Lockf_Clear
begin

text \<open>
  Requests that wait: every sleeping process is on the list of blocked requests of a lock that is
  held and that conflicts with its request, so the release of that lock wakes it. No request is left
  on the list of a lock that is freed.
\<close>

section \<open>The contract of the blocked lists\<close>

text \<open>
  A request waits when a process sleeps on it, or when it is one of the pending requests \<open>R\<close> and points
  to the lock it waits for.
\<close>

definition waiting :: "lfstate \<Rightarrow> nat set \<Rightarrow> nat \<Rightarrow> bool" where
  "waiting st R w \<longleftrightarrow> (\<exists>p. p_wchan st p = Some w) \<or> w \<in> R \<and> lf_next (lf_mem st w) \<noteq> None"

definition wq :: "lfstate \<Rightarrow> nat set \<Rightarrow> nat set \<Rightarrow> bool" where
  "wq st R live \<longleftrightarrow>
     (\<forall>b \<in> live. \<forall>w \<in> set (lf_blkhd (lf_mem st b)). lf_next (lf_mem st w) = Some b \<and> w \<notin> live \<and> blocks (vw st w) (vw st b))
   \<and> (\<forall>w. waiting st R w \<longrightarrow> (\<exists>b \<in> live. w \<in> set (lf_blkhd (lf_mem st b))))"

lemma wqD:
  assumes "wq st R live" "b \<in> live" "w \<in> set (lf_blkhd (lf_mem st b))"
  shows "lf_next (lf_mem st w) = Some b" "w \<notin> live" "blocks (vw st w) (vw st b)"
  using assms by (auto simp: wq_def)

lemma wq_sleeper:
  assumes "wq st R live" "waiting st R w"
  obtains b where "b \<in> live" "w \<in> set (lf_blkhd (lf_mem st b))"
  using assms unfolding wq_def by blast

text \<open>The effect of waking on the fields.\<close>

lemma wake_all_fields:
  "lf_blkhd (lf_mem (wake_all ws st) a) = lf_blkhd (lf_mem st a)"
  "lf_next (lf_mem (wake_all ws st) a) = (if a \<in> set ws then None else lf_next (lf_mem st a))"
  "p_wchan (wake_all ws st) p = (if \<exists>w \<in> set ws. p_wchan st p = Some w then None else p_wchan st p)"
  by (induction ws arbitrary: st) (auto simp: wakeup_one_def)

lemma wakelock_fields:
  "lf_blkhd (lf_mem (lf_wakelock b st) a) = (if a = b then [] else lf_blkhd (lf_mem st a))"
  "lf_next (lf_mem (lf_wakelock b st) a) = (if a \<in> set (lf_blkhd (lf_mem st b)) then None else lf_next (lf_mem st a))"
  "p_wchan (lf_wakelock b st) p = (if \<exists>w \<in> set (lf_blkhd (lf_mem st b)). p_wchan st p = Some w then None else p_wchan st p)"
  by (simp_all add: lf_wakelock_def wake_all_fields)

text \<open>Waking the requests blocked on one lock; afterwards its range may change freely.\<close>

lemma wq_wakelock:
  assumes "wq st R live" "b \<in> live"
  shows "wq (lf_wakelock b st) R live"
  unfolding wq_def
proof (intro conjI ballI allI impI)
  fix c w assume c: "c \<in> live" "w \<in> set (lf_blkhd (lf_mem (lf_wakelock b st) c))"
  then have w: "c \<noteq> b" "w \<in> set (lf_blkhd (lf_mem st c))" by (auto simp: wakelock_fields split: if_splits)
  note d = wqD [OF assms(1) c(1) w(2)]
  have "w \<notin> set (lf_blkhd (lf_mem st b))" using wqD(1) [OF assms(1,2)] d(1) w(1) by auto
  with d show "lf_next (lf_mem (lf_wakelock b st) w) = Some c" "w \<notin> live" "blocks (vw (lf_wakelock b st) w) (vw (lf_wakelock b st) c)"
    by (simp_all add: wakelock_fields)
next
  fix w assume "waiting (lf_wakelock b st) R w"
  then have "waiting st R w" "w \<notin> set (lf_blkhd (lf_mem st b))" by (auto simp: waiting_def wakelock_fields split: if_splits)
  with assms(1) obtain c where "c \<in> live" "w \<in> set (lf_blkhd (lf_mem st c))" "c \<noteq> b" unfolding wq_def by metis
  then show "\<exists>c \<in> live. w \<in> set (lf_blkhd (lf_mem (lf_wakelock b st) c))" by (auto simp: wakelock_fields)
qed

text \<open>A change that keeps the lists, and the ranges of all locks that have waiters and of the waiters.\<close>

lemma wq_cong:
  assumes "wq st R live" "p_wchan st' = p_wchan st"
    and "\<And>a. lf_blkhd (lf_mem st' a) = lf_blkhd (lf_mem st a)" "\<And>a. lf_next (lf_mem st' a) = lf_next (lf_mem st a)"
    and "\<And>b w. b \<in> live \<Longrightarrow> w \<in> set (lf_blkhd (lf_mem st b)) \<Longrightarrow> vw st' w = vw st w \<and> blocks (vw st w) (vw st' b)"
  shows "wq st' R live"
  using assms(1) unfolding wq_def waiting_def assms(2-4) using assms(5) by (metis (no_types, lifting))

lemma wq_free [simp]: "wq (lf_free a st) R live = wq st R live"
  by (simp add: wq_def waiting_def)

lemma wq_set_head [simp]: "wq (set_head h l st) R live = wq st R live"
  by (simp add: wq_def waiting_def)

text \<open>Locks without waiters come and go.\<close>

lemma wq_remove:
  assumes "wq st R live" "lf_blkhd (lf_mem st a) = []"
  shows "wq st R (live - {a})"
proof -
  have "b \<in> live - {a}" if "b \<in> live" "w \<in> set (lf_blkhd (lf_mem st b))" for b w using that assms(2) by auto
  with assms(1) show ?thesis unfolding wq_def by (metis DiffD1)
qed

lemma wq_add:
  assumes "wq st R live" "lf_blkhd (lf_mem st a) = []" "\<And>b. b \<in> live \<Longrightarrow> a \<notin> set (lf_blkhd (lf_mem st b))"
  shows "wq st R (insert a live)"
  using assms unfolding wq_def by fastforce

lemma fold_next_fields:
  "lf_blkhd (lf_mem (fold (\<lambda>w. upd_lf w (\<lambda>l. l\<lparr>lf_next := x\<rparr>)) ws st) a) = lf_blkhd (lf_mem st a)"
  "lf_next (lf_mem (fold (\<lambda>w. upd_lf w (\<lambda>l. l\<lparr>lf_next := x\<rparr>)) ws st) a) = (if a \<in> set ws then x else lf_next (lf_mem st a))"
  "p_wchan (fold (\<lambda>w. upd_lf w (\<lambda>l. l\<lparr>lf_next := x\<rparr>)) ws st) = p_wchan st"
  by (induction ws arbitrary: st) auto

lemma contains_blocks:
  assumes "blocks w l" "contains k l" "r_id l = r_id k" "r_type k = F_WRLCK \<or> r_type l \<noteq> F_WRLCK" "wf_rng w" "wf_rng l" "wf_rng k"
  shows "blocks w k"
proof -
  have "\<exists>b. covers l b \<and> covers w b" using assms by (simp add: blocks_def overlaps_covers)
  moreover have "covers k b" if "covers l b" for b using that assms(2) by (auto simp: covers_def contains_def)
  ultimately have "overlaps k w" using assms(5,7) overlaps_covers by blast
  with assms show ?thesis by (auto simp: blocks_def)
qed

text \<open>The requests blocked on a lock that is swallowed by a new lock move there or are woken.\<close>

lemma wq_take:
  assumes Q: "wq st R live" and live: "ov \<in> live" "lock \<in> live" "ov \<noteq> lock"
    and c: "contains (vw st lock) (vw st ov)" "r_id (vw st ov) = r_id (vw st lock)" "wf_rng (vw st lock)" "wf_rng (vw st ov)"
      "r_type (vw st lock) \<noteq> F_UNLCK"
    and w: "\<And>x. x \<in> set (lf_blkhd (lf_mem st ov)) \<Longrightarrow> wf_rng (vw st x)"
  shows "wq (take_waiters lock ov (lf_type (lf_mem st lock) = F_RDLCK \<and> lf_type (lf_mem st ov) = F_WRLCK) st) R live"
    and "lf_blkhd (lf_mem (take_waiters lock ov (lf_type (lf_mem st lock) = F_RDLCK \<and> lf_type (lf_mem st ov) = F_WRLCK) st) ov) = []"
proof -
  let ?down = "lf_type (lf_mem st lock) = F_RDLCK \<and> lf_type (lf_mem st ov) = F_WRLCK"
  let ?st = "take_waiters lock ov ?down st"
  have "wq ?st R live \<and> lf_blkhd (lf_mem ?st ov) = []"
  proof (cases ?down)
    case True
    then show ?thesis using wq_wakelock [OF Q live(1)] by (simp add: take_waiters_def wakelock_fields)
  next
    case False
    let ?ws = "lf_blkhd (lf_mem st ov)"
    have nw: "ov \<notin> set ?ws" "lock \<notin> set ?ws" using wqD(2) [OF Q live(1)] live by auto
    have f: "lf_blkhd (lf_mem ?st a) = (if a = lock then lf_blkhd (lf_mem st lock) @ ?ws else if a = ov then [] else lf_blkhd (lf_mem st a))"
      "lf_next (lf_mem ?st a) = (if a \<in> set ?ws then Some lock else lf_next (lf_mem st a))" "p_wchan ?st = p_wchan st" for a
      using False live(3) nw by (auto simp: take_waiters_def Let_def fold_next_fields)
    have v: "vw ?st = vw st" by (rule same_coreD(1) [OF same_core_take])
    have bl: "blocks (vw st x) (vw st lock)" if "x \<in> set ?ws" for x
      using contains_blocks [OF wqD(3) [OF Q live(1) that] c(1)] c w [OF that] False
      by (cases "lf_type (lf_mem st lock)") (auto simp: vw_fields)
    have "wq ?st R live"
      unfolding wq_def v
    proof (intro conjI ballI allI impI)
      fix b x assume b: "b \<in> live" "x \<in> set (lf_blkhd (lf_mem ?st b))"
      show "lf_next (lf_mem ?st x) = Some b" "x \<notin> live" "blocks (vw st x) (vw st b)"
      proof -
        consider (moved) "x \<in> set ?ws" "b = lock" | (kept) "x \<in> set (lf_blkhd (lf_mem st b))" "b \<noteq> ov"
          using b(2) live(3) by (auto simp: f split: if_splits)
        then have "lf_next (lf_mem ?st x) = Some b \<and> x \<notin> live \<and> blocks (vw st x) (vw st b)"
        proof cases
          case moved
          then show ?thesis using wqD [OF Q live(1) moved(1)] bl by (simp add: f)
        next
          case kept
          note d = wqD [OF Q b(1) kept(1)]
          have "x \<notin> set ?ws" using wqD(1) [OF Q live(1)] d(1) kept(2) by auto
          then show ?thesis using d by (simp add: f)
        qed
        then show "lf_next (lf_mem ?st x) = Some b" "x \<notin> live" "blocks (vw st x) (vw st b)" by auto
      qed
    next
      fix x assume "waiting ?st R x"
      then have "waiting st R x" using wqD(1) [OF Q live(1), of x] by (auto simp: waiting_def f split: if_splits)
      then obtain b where "b \<in> live" "x \<in> set (lf_blkhd (lf_mem st b))" by (rule wq_sleeper [OF Q])
      then show "\<exists>b \<in> live. x \<in> set (lf_blkhd (lf_mem ?st b))" using live by (cases "b = ov") (auto simp: f)
    qed
    then show ?thesis using live(3) by (simp add: f)
  qed
  then show "wq ?st R live" "lf_blkhd (lf_mem ?st ov) = []" by auto
qed

section \<open>Adding a lock\<close>

text \<open>A change of the range of a lock, followed by waking the requests blocked on it.\<close>

lemma wq_upd_wake:
  assumes "wq st R live" "b \<in> live" "\<And>l. lf_blkhd (f l) = lf_blkhd l" "\<And>l. lf_next (f l) = lf_next l"
  shows "wq (lf_wakelock b (upd_lf b f st)) R live"
  unfolding wq_def
proof (intro conjI ballI allI impI)
  let ?u = "upd_lf b f st"
  have same: "lf_blkhd (lf_mem ?u a) = lf_blkhd (lf_mem st a)" "lf_next (lf_mem ?u a) = lf_next (lf_mem st a)" for a
    using assms(3,4) by simp_all
  have vo: "vw ?u a = vw st a" if "a \<noteq> b" for a using that by (simp add: vw_def)
  fix c w assume c: "c \<in> live" "w \<in> set (lf_blkhd (lf_mem (lf_wakelock b ?u) c))"
  then have w: "c \<noteq> b" "w \<in> set (lf_blkhd (lf_mem st c))" by (auto simp: wakelock_fields same split: if_splits)
  note d = wqD [OF assms(1) c(1) w(2)]
  have "w \<notin> set (lf_blkhd (lf_mem st b))" using wqD(1) [OF assms(1,2)] d(1) w(1) by auto
  moreover have "w \<noteq> b" using d(2) assms(2) by auto
  ultimately show "lf_next (lf_mem (lf_wakelock b ?u) w) = Some c" "w \<notin> live" "blocks (vw (lf_wakelock b ?u) w) (vw (lf_wakelock b ?u) c)"
    using d w(1) by (simp_all add: wakelock_fields assms(3) vo)
next
  let ?u = "upd_lf b f st"
  have same: "lf_blkhd (lf_mem ?u a) = lf_blkhd (lf_mem st a)" for a using assms(3) by simp
  fix w assume "waiting (lf_wakelock b ?u) R w"
  then have "waiting st R w" "w \<notin> set (lf_blkhd (lf_mem st b))"
    by (auto simp: waiting_def wakelock_fields assms(3,4) split: if_splits)
  with assms(1) obtain c where "c \<in> live" "w \<in> set (lf_blkhd (lf_mem st c))" "c \<noteq> b" unfolding wq_def by metis
  then show "\<exists>c \<in> live. w \<in> set (lf_blkhd (lf_mem (lf_wakelock b ?u) c))" by (auto simp: wakelock_fields assms(3))
qed

text \<open>The new structure of a split has no waiters.\<close>

lemma lf_split_eq:
  assumes "lf_start (lf_mem st ov) \<noteq> lf_start (lf_mem st lock)"
  shows "snd (lf_split sp ov lock rst st) = upd_lf ov (\<lambda>l. l\<lparr>lf_end := off_wrap (lf_start (lf_mem st lock) - 1)\<rparr>)
    (if lf_end (lf_mem st ov) = lf_end (lf_mem st lock) then st
     else upd_lf sp (\<lambda>_. (lf_mem st ov)\<lparr>lf_start := off_wrap (lf_end (lf_mem st lock) + 1), lf_blkhd := []\<rparr>)
       (st\<lparr>ui_lockcnt := (ui_lockcnt st)(lf_uid (lf_mem st ov) := ui_lockcnt st (lf_uid (lf_mem st ov)) + 1)\<rparr>))"
  using assms by (simp add: lf_split_def Let_def)

lemma wq_sp:
  assumes "wq st R live" "sp \<notin> live" "\<forall>b \<in> live. sp \<notin> set (lf_blkhd (lf_mem st b))" "\<And>l. lf_blkhd (g l) = []" "sp \<notin> R"
  shows "wq (upd_lf sp g (st\<lparr>ui_lockcnt := r\<rparr>)) R (insert sp live)"
proof -
  let ?u = "upd_lf sp g (st\<lparr>ui_lockcnt := r\<rparr>)"
  have b: "lf_blkhd (lf_mem ?u b) = lf_blkhd (lf_mem st b)" if "b \<in> live" for b using that assms(2) by auto
  have v: "vw ?u a = vw st a" "lf_next (lf_mem ?u a) = lf_next (lf_mem st a)" if "a \<noteq> sp" for a using that by (simp_all add: vw_def)
  have "wq ?u R live"
    unfolding wq_def
  proof (intro conjI ballI allI impI)
    fix c w assume c: "c \<in> live" "w \<in> set (lf_blkhd (lf_mem ?u c))"
    then have w: "w \<in> set (lf_blkhd (lf_mem st c))" using b by simp
    have "w \<noteq> sp" "c \<noteq> sp" using w c(1) assms(2,3) by auto
    with wqD [OF assms(1) c(1) w] v show "lf_next (lf_mem ?u w) = Some c" "w \<notin> live" "blocks (vw ?u w) (vw ?u c)" by simp_all
  next
    fix w assume "waiting ?u R w"
    then have "waiting st R w" using assms(5) by (auto simp: waiting_def split: if_splits)
    then obtain c where "c \<in> live" "w \<in> set (lf_blkhd (lf_mem st c))" by (rule wq_sleeper [OF assms(1)])
    then show "\<exists>c \<in> live. w \<in> set (lf_blkhd (lf_mem ?u c))" using b by auto
  qed
  then show ?thesis using assms b by (intro wq_add) auto
qed

text \<open>The locks that count as held while the loop runs: the list, the new lock, and others.\<close>

lemma wq_subset:
  assumes "wq st R live" "live' \<subseteq> live" "\<And>a. a \<in> live - live' \<Longrightarrow> lf_blkhd (lf_mem st a) = []"
  shows "wq st R live'"
  unfolding wq_def
proof (intro conjI ballI allI impI)
  fix b w assume b: "b \<in> live'" "w \<in> set (lf_blkhd (lf_mem st b))"
  with assms(2) have "b \<in> live" by auto
  from wqD [OF assms(1) this b(2)] assms(2)
  show "lf_next (lf_mem st w) = Some b" "w \<notin> live'" "blocks (vw st w) (vw st b)" by auto
next
  fix w assume "waiting st R w"
  then obtain b where b: "b \<in> live" "w \<in> set (lf_blkhd (lf_mem st b))" by (rule wq_sleeper [OF assms(1)])
  with assms(3) [of b] have "b \<in> live'" by (cases "b \<in> live'") auto
  with b(2) show "\<exists>b \<in> live'. w \<in> set (lf_blkhd (lf_mem st b))" by blast
qed

lemma wq_type:
  assumes "wq st R live" "ov \<in> live" "t = F_WRLCK \<or> lf_type (lf_mem st ov) = t"
  shows "wq (upd_lf ov (\<lambda>l. l\<lparr>lf_type := t\<rparr>) st) R live"
proof (rule wq_cong [OF assms(1)])
  fix b w assume b: "b \<in> live" "w \<in> set (lf_blkhd (lf_mem st b))"
  note d = wqD [OF assms(1) b]
  have "w \<noteq> ov" using d(2) assms(2) by auto
  moreover have "blocks (vw st w) ((vw st ov)\<lparr>r_type := t\<rparr>)" if "b = ov"
  proof -
    have "overlaps ((vw st ov)\<lparr>r_type := t\<rparr>) (vw st w) = overlaps (vw st ov) (vw st w)"
      by (auto simp: overlaps_def ends_before_def)
    with d(3) that assms(3) show ?thesis by (auto simp: blocks_def vw_fields)
  qed
  ultimately show "vw (upd_lf ov (\<lambda>l. l\<lparr>lf_type := t\<rparr>) st) w = vw st w \<and> blocks (vw st w) (vw (upd_lf ov (\<lambda>l. l\<lparr>lf_type := t\<rparr>) st) b)"
    using d(3) by (auto simp: fun_upd_def)
qed simp_all

lemma wq_upd_empty:
  assumes "wq st R live" "a \<in> live" "lf_blkhd (lf_mem st a) = []" "\<And>l. lf_blkhd (f l) = lf_blkhd l" "\<And>l. lf_next (f l) = lf_next l"
  shows "wq (upd_lf a f st) R live"
proof (rule wq_cong [OF assms(1)])
  fix b w assume b: "b \<in> live" "w \<in> set (lf_blkhd (lf_mem st b))"
  note d = wqD [OF assms(1) b]
  have "w \<noteq> a" "b \<noteq> a" using d(2) assms(2,3) b by auto
  then show "vw (upd_lf a f st) w = vw st w \<and> blocks (vw st w) (vw (upd_lf a f st) b)"
    using d(3) by (simp add: vw_def)
qed (simp_all add: assms(4,5))

text \<open>What the loop needs to know of the waiting requests.\<close>

definition wait_pre :: "lfstate \<Rightarrow> nat set \<Rightarrow> nat \<Rightarrow> nat \<Rightarrow> nat set \<Rightarrow> bool" where
  "wait_pre st R sp lock live \<longleftrightarrow> wq st R live \<and> lock \<in> live \<and> sp \<notin> live \<and> sp \<notin> R \<and> r_type (vw st lock) \<noteq> F_UNLCK
     \<and> (\<forall>b \<in> live. \<forall>w \<in> set (lf_blkhd (lf_mem st b)). w \<noteq> sp \<and> wf_rng (vw st w))
     \<and> (\<forall>a \<in> live. r_type (vw st a) \<noteq> F_UNLCK)"

lemma wait_pre_wake:
  assumes "wait_pre st R sp lock live" "b \<in> live" "\<And>l. lf_blkhd (f l) = lf_blkhd l" "\<And>l. lf_next (f l) = lf_next l"
    and "\<And>l. lf_type (f l) = lf_type l"
  shows "wait_pre (lf_wakelock b (upd_lf b f st)) R sp lock live"
proof -
  let ?s = "lf_wakelock b (upd_lf b f st)"
  have Q: "wq st R live" using assms(1) by (simp add: wait_pre_def)
  have v: "vw (upd_lf b f st) a = vw st a" if "a \<noteq> b" for a using that by (simp add: vw_def)
  have t: "r_type (vw ?s a) = r_type (vw st a)" for a
    using assms(5) by (simp add: vw_def core_def)
  have bl: "set (lf_blkhd (lf_mem ?s a)) \<subseteq> set (lf_blkhd (lf_mem st a))" for a by (auto simp: wakelock_fields assms(3))
  have "w \<noteq> sp \<and> wf_rng (vw ?s w)" if "c \<in> live" "w \<in> set (lf_blkhd (lf_mem ?s c))" for c w
  proof -
    have w: "w \<in> set (lf_blkhd (lf_mem st c))" using bl that by auto
    then have "w \<noteq> b" using wqD(2) [OF Q that(1)] assms(2) by auto
    with w that(1) assms(1) show ?thesis by (simp add: v wait_pre_def)
  qed
  moreover have "wq ?s R live" by (rule wq_upd_wake [OF Q assms(2-4)])
  ultimately show ?thesis using assms(1) t by (auto simp: wait_pre_def)
qed

lemma wait_pre_take:
  assumes W: "wait_pre st R sp lock live" and ov: "ov \<in> live" "ov \<noteq> lock"
    and c: "contains (vw st lock) (vw st ov)" "r_id (vw st ov) = r_id (vw st lock)" "wf_rng (vw st lock)" "wf_rng (vw st ov)"
  shows "wait_pre (lf_free ov (take_waiters lock ov (lf_type (lf_mem st lock) = F_RDLCK \<and> lf_type (lf_mem st ov) = F_WRLCK) st))
    R sp lock (live - {ov})"
proof -
  let ?t = "take_waiters lock ov (lf_type (lf_mem st lock) = F_RDLCK \<and> lf_type (lf_mem st ov) = F_WRLCK) st"
  have Q: "wq st R live" "lock \<in> live" "r_type (vw st lock) \<noteq> F_UNLCK" using W by (simp_all add: wait_pre_def)
  have wf: "wf_rng (vw st x)" if "x \<in> set (lf_blkhd (lf_mem st ov))" for x using W ov(1) that by (simp add: wait_pre_def)
  note T = wq_take [OF Q(1) ov(1) Q(2) ov(2) c Q(3) wf]
  have v: "vw ?t = vw st" by (rule same_coreD(1) [OF same_core_take])
  have bl: "set (lf_blkhd (lf_mem ?t a)) \<subseteq> set (lf_blkhd (lf_mem st a)) \<union> (if a = lock then set (lf_blkhd (lf_mem st ov)) else {})" for a
    by (auto simp: take_waiters_def Let_def wakelock_fields fold_next_fields)
  have "w \<noteq> sp \<and> wf_rng (vw ?t w)" if "b \<in> live" "w \<in> set (lf_blkhd (lf_mem ?t b))" for b w
  proof -
    have "w \<in> set (lf_blkhd (lf_mem st b)) \<or> w \<in> set (lf_blkhd (lf_mem st ov))"
      using subsetD [OF bl that(2)] by (auto split: if_splits)
    then show ?thesis using W ov(1) that(1) v by (auto simp: wait_pre_def)
  qed
  then show ?thesis using W wq_remove [OF T] ov(2) v by (auto simp: wait_pre_def)
qed

lemma lf_link_waiters:
  assumes "link_pre (vw st) sp lock pre blk need ps" "wait_pre st R sp lock (insert lock (set (pre @ blk) \<union> O'))"
    "set (pre @ blk) \<inter> O' = {}" "lock \<notin> O'" "need \<Longrightarrow> lf_blkhd (lf_mem st lock) = []"
    "lf_link sp lock pre blk need st = Some st'"
  shows "wq st' R (set (lf_heads st' (lf_head (lf_mem st lock))) \<union> O')"
  using assms
proof (induction blk arbitrary: pre need st ps rule: length_induct)
  case (1 blk)
  let ?v = "vw st" and ?k = "vw st lock" and ?live = "insert lock (set (pre @ blk) \<union> O')" and ?h = "lf_head (lf_mem st lock)"
  have Q: "wq st R ?live" using "1.prems"(2) by (simp add: wait_pre_def)
  have "wf_rng ?k" "chain ?v (own ?v (r_id ?k) blk)"
    using "1.prems"(1) by (simp_all add: link_pre_def chain_append)
  from findoverlap_vw [OF this] obtain c sk rest where f: "lf_findoverlap (lf_mem st) blk lock True = Some (c, sk, rest)"
    "blk = sk @ rest" "\<forall>a \<in> set sk. r_id (?v a) = r_id ?k \<longrightarrow> ends_before (?v a) ?k"
    "c \<noteq> 0 \<Longrightarrow> \<exists>ov rst. rest = ov # rst \<and> r_id (?v ov) = r_id ?k \<and> ovcase c (?v ov) ?k" by blast
  have P: "link_pre ?v sp lock (pre @ sk) rest need (ps @ own ?v (r_id ?k) sk)"
    using link_pre_skip "1.prems"(1) f(2,3) by simp
  have lk: "need \<or> lock \<in> set pre"
  proof (cases need)
    case False
    then have "lock \<in> set (own ?v (r_id ?k) pre)" using "1.prems"(1) by (simp add: link_pre_def)
    then show ?thesis by simp
  qed simp
  show ?case
  proof (cases "c = 0")
    case True
    have "st' = set_head ?h (pre @ sk @ (if need then [lock] else []) @ rest) st"
      using lf_link_iter(1,2) [OF f(1)] True "1.prems"(6) by (cases rest) simp_all
    moreover have "set (pre @ sk @ (if need then [lock] else []) @ rest) \<union> O' = ?live" using f(2) lk by auto
    ultimately show ?thesis using Q by simp
  next
    case False
    from f(4) [OF this] obtain ov rst where ov: "rest = ov # rst" "r_id (?v ov) = r_id ?k" "ovcase c (?v ov) ?k" by blast
    note P = P [unfolded ov(1)]
    have len: "length rst < length blk" using f(2) ov(1) by simp
    have in': "ov \<in> ?live" using f(2) ov(1) by simp
    have ne: "ov \<noteq> lock" "sp \<noteq> ov" "sp \<noteq> lock" using P by (auto simp: link_pre_def)
    have w: "wf_rng ?k" "wf_rng (?v ov)" using P ov(2) by (auto simp: link_pre_def chain_append chain_Cons)
    have need: "need" if "c = 1 \<or> c = 2 \<or> c = 4"
    proof (rule ccontr)
      assume "\<not> need"
      then have "r_start ?k < r_start (?v ov)" using P ov(2) by (simp add: link_pre_def)
      with that ov(3) show False by (auto simp: ovcase_def contains_def)
    qed
    have drop: "?live - {lock} = set (pre @ sk @ ov # rst) \<union> O'" if need
      using f(2) ov(1) that "1.prems"(1,4) by (auto simp: link_pre_def)
    have full: "set (pre @ sk @ (if need then [lock] else []) @ ov # rst) \<union> O' = ?live" using f(2) ov(1) lk by auto
    from ov(3) consider "c = 1" | "c = 2" | "c = 3" | "c = 4" | "c = 5" by (auto simp: ovcase_def)
    then show ?thesis
    proof cases
      assume c: "c = 1"
      let ?dn = "lf_type (lf_mem st lock) = F_RDLCK \<and> lf_type (lf_mem st ov) = F_WRLCK"
      let ?u = "upd_lf ov (\<lambda>l. l\<lparr>lf_type := lf_type (lf_mem st lock)\<rparr>) (if ?dn then lf_wakelock ov st else st)"
      have n: need using need c by simp
      have tt: "lf_type (lf_mem st lock) \<noteq> F_UNLCK" "lf_type (lf_mem st ov) \<noteq> F_UNLCK"
        using "1.prems"(2) in' by (auto simp: wait_pre_def vw_fields)
      have "wq ?u R ?live"
      proof (cases ?dn)
        case True
        have "wq (upd_lf ov (\<lambda>l. l\<lparr>lf_type := lf_type (lf_mem st lock)\<rparr>) (lf_wakelock ov st)) R ?live"
          by (rule wq_upd_empty [OF wq_wakelock [OF Q in'] in']) (simp_all add: wakelock_fields)
        with True show ?thesis by simp
      next
        case False
        have "lf_type (lf_mem st lock) = F_WRLCK \<or> lf_type (lf_mem st ov) = lf_type (lf_mem st lock)"
          using tt False by (cases "lf_type (lf_mem st lock)"; cases "lf_type (lf_mem st ov)") auto
        from wq_type [OF Q in' this] show ?thesis unfolding if_not_P [OF False] .
      qed
      moreover have "lf_blkhd (lf_mem ?u lock) = []" using "1.prems"(5) n ne by (simp add: wakelock_fields)
      ultimately have "wq ?u R (?live - {lock})" by (rule wq_remove)
      moreover have "st' = set_head ?h (pre @ sk @ ov # rst) (lf_free lock ?u)"
        using lf_link_iter(3) [OF f(1) ov(1) c] "1.prems"(6) by simp
      ultimately show ?thesis using drop n by simp
    next
      assume c: "c = 2"
      have n: need using need c by simp
      note I = lf_link_iter(4) [OF f(1) ov(1) c, where sp = sp and pre = pre and need = need]
      show ?thesis
      proof (cases "lf_type (lf_mem st ov) = lf_type (lf_mem st lock)")
        case True
        then have "st' = set_head ?h (pre @ sk @ ov # rst) (lf_free lock st)" using I "1.prems"(6) by simp
        moreover have "wq st R (?live - {lock})" by (rule wq_remove [OF Q "1.prems"(5) [OF n]])
        ultimately show ?thesis using drop n by simp
      next
        case tne: False
        show ?thesis
        proof (cases "lf_start (lf_mem st ov) = lf_start (lf_mem st lock)")
          case True
          then have "st' = set_head ?h (pre @ sk @ lock # ov # rst)
              (lf_wakelock ov (upd_lf ov (\<lambda>l. l\<lparr>lf_start := off_wrap (lf_end (lf_mem st lock) + 1)\<rparr>) st))"
            using I "1.prems"(6) tne by simp
          with wq_upd_wake [OF Q in'] full n show ?thesis by simp
        next
          case sne: False
          let ?s = "snd (lf_split sp ov lock rst st)"
          have s: "st' = set_head ?h (pre @ sk @ fst (lf_split sp ov lock rst st)) (lf_wakelock ov ?s)"
            using I "1.prems"(6) tne sne by simp
          have sne': "r_start (?v ov) \<noteq> r_start ?k" using sne by (simp add: vw_fields)
          note V = vw_split(1) [OF sne', where sp = sp and rst = rst]
          show ?thesis
          proof (cases "r_end (?v ov) = r_end ?k")
            case True
            then have "set (pre @ sk @ fst (lf_split sp ov lock rst st)) \<union> O' = ?live" using V full n by auto
            moreover have "wq (lf_wakelock ov ?s) R ?live"
              unfolding lf_split_eq [OF sne] if_P [OF True [unfolded vw_fields]] by (rule wq_upd_wake [OF Q in']) simp_all
            ultimately show ?thesis by (simp add: s)
          next
            case False
            then have l: "set (pre @ sk @ fst (lf_split sp ov lock rst st)) \<union> O' = insert sp ?live" using V full n by auto
            have sp: "sp \<notin> ?live" "\<forall>b \<in> ?live. sp \<notin> set (lf_blkhd (lf_mem st b))" "sp \<notin> R"
              using "1.prems"(2) by (auto simp: wait_pre_def)
            have "wq (lf_wakelock ov ?s) R (insert sp ?live)"
              unfolding lf_split_eq [OF sne] if_not_P [OF False [unfolded vw_fields]]
              by (rule wq_upd_wake [OF wq_sp [OF Q sp(1,2) _ sp(3)]]) (use in' in simp_all)
            with l show ?thesis by (simp add: s)
          qed
        qed
      qed
    next
      assume c: "c = 3"
      have ct: "contains ?k (?v ov)" using c ov(3) by (auto simp: ovcase_def)
      let ?st = "lf_free ov (take_waiters lock ov (lf_type (lf_mem st lock) = F_RDLCK \<and> lf_type (lf_mem st ov) = F_WRLCK) st)"
      let ?pre = "(pre @ sk) @ (if need then [lock] else [])"
      have sc: "same_core st ?st" by (rule same_core_trans [OF same_core_take same_core_free])
      have lp: "link_pre (vw ?st) sp lock ?pre rst False (ps @ own ?v (r_id ?k) sk)"
        unfolding same_coreD(1) [OF sc] by (rule link_pre_contained(1) [OF P ov(2) ct])
      have eq: "insert lock (set (?pre @ rst) \<union> O') = ?live - {ov}"
        using f(2) ov(1) P ne "1.prems"(3) by (auto simp: link_pre_def)
      have wp: "wait_pre ?st R sp lock (insert lock (set (?pre @ rst) \<union> O'))"
        unfolding eq by (rule wait_pre_take [OF "1.prems"(2) in' ne(1) ct ov(2) w])
      have dj: "set (?pre @ rst) \<inter> O' = {}" using "1.prems"(3,4) f(2) ov(1) by auto
      have "lf_link sp lock ?pre rst False ?st = Some st'"
        using lf_link_iter(5) [OF f(1) ov(1) c] "1.prems"(6) by simp
      from "1.IH" [rule_format, OF len lp wp dj "1.prems"(4) _ this] show ?thesis using same_coreD(3) [OF sc] by simp
    next
      assume c: "c = 4"
      have n: need using need c by simp
      note P = P [unfolded eqTrueI [OF n]]
      let ?st = "lf_wakelock ov (upd_lf ov (\<lambda>l. l\<lparr>lf_end := off_wrap (lf_start (lf_mem st lock) - 1)\<rparr>) st)"
      let ?pre = "(pre @ sk) @ [ov, lock]"
      have v1: "vw ?st = ?v(ov := (?v ov)\<lparr>r_end := off_wrap (r_start ?k - 1)\<rparr>)" by (simp add: vw_fields)
      note lp = link_pre_head(1) [OF P ov(2) ov(3) [unfolded c] v1]
      have eq: "insert lock (set (?pre @ rst) \<union> O') = ?live" using f(2) ov(1) by auto
      have wp: "wait_pre ?st R sp lock (insert lock (set (?pre @ rst) \<union> O'))"
        unfolding eq by (rule wait_pre_wake [OF "1.prems"(2) in']) simp_all
      have dj: "set (?pre @ rst) \<inter> O' = {}" using "1.prems"(3,4) f(2) ov(1) by auto
      have "lf_link sp lock ?pre rst False ?st = Some st'"
        using lf_link_iter(6) [OF f(1) ov(1) c n] "1.prems"(6) by simp
      from "1.IH" [rule_format, OF len lp wp dj "1.prems"(4) _ this] ne show ?thesis by simp
    next
      assume c: "c = 5"
      have "st' = set_head ?h (pre @ sk @ (if need then [lock] else []) @ ov # rst)
          (lf_wakelock ov (upd_lf ov (\<lambda>l. l\<lparr>lf_start := off_wrap (lf_end (lf_mem st lock) + 1)\<rparr>) st))"
        using lf_link_iter(7) [OF f(1) ov(1) c] "1.prems"(6) by simp
      with wq_upd_wake [OF Q in'] full show ?thesis by simp
    qed
  qed
qed

section \<open>Removing locks\<close>

lemma lf_unlink_waiters:
  assumes "link_pre (vw st) sp lock pre blk True ps" "wq st R (set (pre @ blk) \<union> O')" "sp \<notin> O' \<union> R" "set (pre @ blk) \<inter> O' = {}"
    "\<forall>b \<in> set (pre @ blk) \<union> O'. sp \<notin> set (lf_blkhd (lf_mem st b))" "lf_unlink sp lock pre blk st = Some st'"
  shows "wq st' R (set (lf_heads st' (lf_head (lf_mem st lock))) \<union> O')"
  using assms
proof (induction blk arbitrary: pre st ps rule: length_induct)
  case (1 blk)
  let ?v = "vw st" and ?k = "vw st lock" and ?live = "set (pre @ blk) \<union> O'" and ?h = "lf_head (lf_mem st lock)"
  note Q = "1.prems"(2)
  have "wf_rng ?k" "chain ?v (own ?v (r_id ?k) blk)"
    using "1.prems"(1) by (simp_all add: link_pre_def chain_append)
  from findoverlap_vw [OF this] obtain c sk rest where f: "lf_findoverlap (lf_mem st) blk lock True = Some (c, sk, rest)"
    "blk = sk @ rest" "\<forall>a \<in> set sk. r_id (?v a) = r_id ?k \<longrightarrow> ends_before (?v a) ?k"
    "c \<noteq> 0 \<Longrightarrow> \<exists>ov rst. rest = ov # rst \<and> r_id (?v ov) = r_id ?k \<and> ovcase c (?v ov) ?k" by blast
  have P: "link_pre ?v sp lock (pre @ sk) rest True (ps @ own ?v (r_id ?k) sk)"
    using link_pre_skip "1.prems"(1) f(2,3) by simp
  show ?case
  proof (cases "c = 0")
    case True
    then have "st' = set_head ?h (pre @ sk @ rest) st" using lf_unlink_iter(1) [OF f(1)] "1.prems"(6) by simp
    then show ?thesis using Q f(2) by simp
  next
    case False
    from f(4) [OF this] obtain ov rst where ov: "rest = ov # rst" "r_id (?v ov) = r_id ?k" "ovcase c (?v ov) ?k" by blast
    note P = P [unfolded ov(1)]
    let ?w = "lf_wakelock ov st"
    have len: "length rst < length blk" using f(2) ov(1) by simp
    have in': "ov \<in> ?live" using f(2) ov(1) by simp
    have ne: "ov \<noteq> lock" "sp \<noteq> ov" "sp \<noteq> lock" "lock \<notin> set rst" using P by (auto simp: link_pre_def)
    have W: "wq ?w R ?live" by (rule wq_wakelock [OF Q in'])
    have e: "lf_blkhd (lf_mem ?w ov) = []" by (simp add: wakelock_fields)
    have full: "set (pre @ sk @ ov # rst) \<union> O' = ?live" using f(2) ov(1) by auto
    have drop: "set (pre @ sk @ rst) \<union> O' = ?live - {ov}"
      using f(2) ov(1) P "1.prems"(4) by (auto simp: link_pre_def)
    have spw: "\<forall>b \<in> ?live. sp \<notin> set (lf_blkhd (lf_mem ?w b))" using "1.prems"(5) by (auto simp: wakelock_fields)
    from ov(3) consider "c = 1" | "c = 2" | "c = 3" | "c = 4" | "c = 5" by (auto simp: ovcase_def)
    then show ?thesis
    proof cases
      assume c: "c = 1"
      have "st' = set_head ?h (pre @ sk @ rst) (lf_free ov ?w)" using lf_unlink_iter(2) [OF f(1) ov(1) c] "1.prems"(6) by simp
      moreover have "wq ?w R (?live - {ov})" by (rule wq_remove [OF W e])
      ultimately show ?thesis using drop by simp
    next
      assume c: "c = 2"
      note I = lf_unlink_iter(3) [OF f(1) ov(1) c, where sp = sp and pre = pre]
      show ?thesis
      proof (cases "lf_start (lf_mem ?w ov) = lf_start (lf_mem st lock)")
        case True
        then have "st' = set_head ?h (pre @ sk @ ov # rst) (upd_lf ov (\<lambda>l. l\<lparr>lf_start := off_wrap (lf_end (lf_mem st lock) + 1)\<rparr>) ?w)"
          using I "1.prems"(6) by simp
        with wq_upd_empty [OF W in' e] full show ?thesis by simp
      next
        case sne: False
        let ?s = "snd (lf_split sp ov lock rst ?w)"
        have s: "st' = set_head ?h (pre @ sk @ remove1 lock (fst (lf_split sp ov lock rst ?w))) ?s"
          using I "1.prems"(6) sne by simp
        have sne': "r_start (vw ?w ov) \<noteq> r_start (vw ?w lock)" "lf_start (lf_mem ?w ov) \<noteq> lf_start (lf_mem ?w lock)"
          using sne by (simp_all add: wakelock_start vw_fields)
        note V = vw_split(1) [OF sne'(1), where sp = sp and rst = rst]
        show ?thesis
        proof (cases "r_end (vw ?w ov) = r_end (vw ?w lock)")
          case True
          then have "set (pre @ sk @ remove1 lock (fst (lf_split sp ov lock rst ?w))) \<union> O' = ?live" using V full ne by simp
          moreover have "wq ?s R ?live"
            unfolding lf_split_eq [OF sne'(2)] if_P [OF True [unfolded vw_fields]] by (rule wq_upd_empty [OF W in' e]) simp_all
          ultimately show ?thesis by (simp add: s)
        next
          case False
          then have l: "set (pre @ sk @ remove1 lock (fst (lf_split sp ov lock rst ?w))) \<union> O' = insert sp ?live"
            using V full ne by auto
          have sp: "sp \<notin> ?live" "sp \<notin> R" using "1.prems"(1,3) by (auto simp: link_pre_def)
          have "wq ?s R (insert sp ?live)"
            unfolding lf_split_eq [OF sne'(2)] if_not_P [OF False [unfolded vw_fields]]
            by (rule wq_upd_empty [OF wq_sp [OF W sp(1) spw _ sp(2)]]) (use in' e ne in simp_all)
          with l show ?thesis by (simp add: s)
        qed
      qed
    next
      assume c: "c = 3"
      have ct: "contains ?k (?v ov)" using c ov(3) by (auto simp: ovcase_def)
      let ?st = "lf_free ov ?w"
      have lp: "link_pre (vw ?st) sp lock (pre @ sk) rst True (ps @ own ?v (r_id ?k) sk)"
        using clear_pre_contained(1) [OF P ov(2) ct] by simp
      have wp: "wq ?st R (set ((pre @ sk) @ rst) \<union> O')" using wq_remove [OF W e] drop by simp
      have "lf_unlink sp lock (pre @ sk) rst ?st = Some st'" using lf_unlink_iter(4) [OF f(1) ov(1) c] "1.prems"(6) by simp
      from "1.IH" [rule_format, OF len lp wp "1.prems"(3) _ _ this] spw drop "1.prems"(4) f(2) ov(1) show ?thesis by auto
    next
      assume c: "c = 4"
      let ?st = "upd_lf ov (\<lambda>l. l\<lparr>lf_end := off_wrap (lf_start (lf_mem st lock) - 1)\<rparr>) ?w"
      have v1: "vw ?st = ?v(ov := (?v ov)\<lparr>r_end := off_wrap (r_start ?k - 1)\<rparr>)" by (simp add: vw_fields)
      note lp = clear_pre_head(1) [OF P ov(2) ov(3) [unfolded c] v1]
      have "wq ?st R ?live" by (rule wq_upd_empty [OF W in' e]) simp_all
      then have wp: "wq ?st R (set (((pre @ sk) @ [ov]) @ rst) \<union> O')" using full by simp
      have "lf_unlink sp lock ((pre @ sk) @ [ov]) rst ?st = Some st'" using lf_unlink_iter(5) [OF f(1) ov(1) c] "1.prems"(6) by simp
      moreover have "lf_blkhd (lf_mem ?st b) = lf_blkhd (lf_mem ?w b)" for b by simp
      then have "\<forall>b \<in> set (((pre @ sk) @ [ov]) @ rst) \<union> O'. sp \<notin> set (lf_blkhd (lf_mem ?st b))" using spw full by auto
      moreover have "set (((pre @ sk) @ [ov]) @ rst) \<inter> O' = {}" using "1.prems"(4) f(2) ov(1) by auto
      ultimately have "wq st' R (set (lf_heads st' (lf_head (lf_mem ?st lock))) \<union> O')"
        using "1.IH" [rule_format, OF len lp wp "1.prems"(3)] by blast
      then show ?thesis using ne by simp
    next
      assume c: "c = 5"
      have "st' = set_head ?h (pre @ sk @ ov # rst) (upd_lf ov (\<lambda>l. l\<lparr>lf_start := off_wrap (lf_end (lf_mem st lock) + 1)\<rparr>) ?w)"
        using lf_unlink_iter(6) [OF f(1) ov(1) c] "1.prems"(6) by simp
      with wq_upd_empty [OF W in' e] full show ?thesis by simp
    qed
  qed
qed

end
