(* ===== verification/Lockf_Frame.thy ===== *)
theory Lockf_Frame
  imports Lockf_Wait
begin

text \<open>
  What the loops of \<open>lf_setlock\<close> and \<open>lf_clearlock\<close> leave alone: the locks of other inodes, the inode of
  every lock, and the requests that wait, which only move from one lock of the list to another or are
  woken.
\<close>

section \<open>The frame of a change\<close>

text \<open>Only the locks in \<open>A\<close> and the structure \<open>sp\<close> of a split change.\<close>

definition frm :: "nat set \<Rightarrow> nat \<Rightarrow> lfstate \<Rightarrow> lfstate \<Rightarrow> bool" where
  "frm A sp st st' \<longleftrightarrow>
     (\<forall>a. a \<noteq> sp \<longrightarrow> lf_head (lf_mem st' a) = lf_head (lf_mem st a))
   \<and> (\<forall>a. a \<notin> insert sp A \<longrightarrow> vw st' a = vw st a \<and> lf_blkhd (lf_mem st' a) = lf_blkhd (lf_mem st a))
   \<and> (\<forall>a \<in> A. set (lf_blkhd (lf_mem st' a)) \<subseteq> (\<Union>c \<in> A. set (lf_blkhd (lf_mem st c))))
   \<and> (\<forall>p w. p_wchan st' p = Some w \<longrightarrow> p_wchan st p = Some w)"

lemma frm_refl: "frm A sp st st"
  by (auto simp: frm_def)

lemma frmD:
  assumes "frm A sp st st'"
  shows "a \<noteq> sp \<Longrightarrow> lf_head (lf_mem st' a) = lf_head (lf_mem st a)"
    and "a \<notin> A \<Longrightarrow> a \<noteq> sp \<Longrightarrow> vw st' a = vw st a" "a \<notin> A \<Longrightarrow> a \<noteq> sp \<Longrightarrow> lf_blkhd (lf_mem st' a) = lf_blkhd (lf_mem st a)"
    and "a \<in> A \<Longrightarrow> w \<in> set (lf_blkhd (lf_mem st' a)) \<Longrightarrow> \<exists>c \<in> A. w \<in> set (lf_blkhd (lf_mem st c))"
    and "p_wchan st' p = Some w \<Longrightarrow> p_wchan st p = Some w"
proof -
  show "a \<noteq> sp \<Longrightarrow> lf_head (lf_mem st' a) = lf_head (lf_mem st a)" using assms by (simp add: frm_def)
  show "a \<notin> A \<Longrightarrow> a \<noteq> sp \<Longrightarrow> vw st' a = vw st a" "a \<notin> A \<Longrightarrow> a \<noteq> sp \<Longrightarrow> lf_blkhd (lf_mem st' a) = lf_blkhd (lf_mem st a)"
    using assms by (simp_all add: frm_def)
  show "p_wchan st' p = Some w \<Longrightarrow> p_wchan st p = Some w" using assms by (simp add: frm_def)
  assume "a \<in> A" "w \<in> set (lf_blkhd (lf_mem st' a))"
  moreover have "set (lf_blkhd (lf_mem st' a)) \<subseteq> (\<Union>c \<in> A. set (lf_blkhd (lf_mem st c)))" using assms \<open>a \<in> A\<close> by (simp add: frm_def)
  ultimately have "w \<in> (\<Union>c \<in> A. set (lf_blkhd (lf_mem st c)))" by (rule_tac subsetD)
  then show "\<exists>c \<in> A. w \<in> set (lf_blkhd (lf_mem st c))" by simp
qed

lemma frmI:
  assumes "\<And>a. a \<noteq> sp \<Longrightarrow> lf_head (lf_mem st' a) = lf_head (lf_mem st a)"
    and "\<And>a. a \<notin> A \<Longrightarrow> a \<noteq> sp \<Longrightarrow> vw st' a = vw st a"
    and "\<And>a. a \<notin> A \<Longrightarrow> a \<noteq> sp \<Longrightarrow> lf_blkhd (lf_mem st' a) = lf_blkhd (lf_mem st a)"
    and "\<And>a w. a \<in> A \<Longrightarrow> w \<in> set (lf_blkhd (lf_mem st' a)) \<Longrightarrow> \<exists>c \<in> A. w \<in> set (lf_blkhd (lf_mem st c))"
    and "\<And>p w. p_wchan st' p = Some w \<Longrightarrow> p_wchan st p = Some w"
  shows "frm A sp st st'"
  using assms unfolding frm_def subset_iff UN_iff by simp

lemma frm_trans:
  assumes "frm A sp s1 s2" "frm A sp s2 s3"
  shows "frm A sp s1 s3"
proof (rule frmI)
  fix a w assume "a \<in> A" "w \<in> set (lf_blkhd (lf_mem s3 a))"
  then obtain c where "c \<in> A" "w \<in> set (lf_blkhd (lf_mem s2 c))" using frmD(4) [OF assms(2)] by blast
  then show "\<exists>c \<in> A. w \<in> set (lf_blkhd (lf_mem s1 c))" by (rule frmD(4) [OF assms(1)])
qed (simp_all add: frmD [OF assms(1)] frmD [OF assms(2)])

lemma frm_same:
  assumes "same_core st st'" "\<And>a. a \<notin> A \<Longrightarrow> lf_blkhd (lf_mem st' a) = lf_blkhd (lf_mem st a)"
    and "\<And>a w. a \<in> A \<Longrightarrow> w \<in> set (lf_blkhd (lf_mem st' a)) \<Longrightarrow> \<exists>c \<in> A. w \<in> set (lf_blkhd (lf_mem st c))"
    and "\<And>p w. p_wchan st' p = Some w \<Longrightarrow> p_wchan st p = Some w"
  shows "frm A sp st st'"
  by (rule frmI) (simp_all add: assms(2-4) same_coreD(1,3) [OF assms(1)])

lemma frm_wakelock: "a \<in> A \<Longrightarrow> frm A sp st (lf_wakelock a st)"
  by (rule frm_same [OF same_core_wakelock]) (auto simp: wakelock_fields split: if_splits)

lemma frm_upd:
  assumes "a \<in> A" "\<And>l. lf_head (f l) = lf_head l" "\<And>l. lf_blkhd (f l) = lf_blkhd l"
  shows "frm A sp st (upd_lf a f st)"
  using assms by (auto simp: frm_def vw_def)

lemma frm_free: "frm A sp st (lf_free a st)"
  by (rule frm_same [OF same_core_free]) auto

lemma frm_set_head: "frm A sp st (set_head h l st)"
  by (auto simp: frm_def)

lemma frm_take:
  assumes "lock \<in> A" "ov \<in> A"
  shows "frm A sp st (take_waiters lock ov down st)"
  by (rule frm_same [OF same_core_take])
    (use assms in \<open>auto simp: take_waiters_def Let_def wakelock_fields fold_next_fields split: if_splits\<close>)

lemma frm_split:
  assumes "ov \<in> A" "sp \<notin> A"
  shows "frm A sp st (snd (lf_split sp ov lock rst st))"
  using assms by (auto simp: lf_split_def Let_def frm_def vw_def)

text \<open>The same, as steps that extend a change.\<close>

lemmas frm_intros =
  frm_trans [OF _ frm_wakelock] frm_trans [OF _ frm_upd] frm_trans [OF _ frm_free] frm_trans [OF _ frm_set_head]
  frm_trans [OF _ frm_take] frm_trans [OF _ frm_split] frm_refl

section \<open>The list after a loop\<close>

text \<open>The locks on the list afterwards were there before, or are the request, or the new half of a split.\<close>

definition from_list :: "nat set \<Rightarrow> nat \<Rightarrow> nat set \<Rightarrow> lfstate \<Rightarrow> bool" where
  "from_list A sp L st \<longleftrightarrow> L \<subseteq> insert sp A
     \<and> (sp \<in> L \<longrightarrow> lf_blkhd (lf_mem st sp) = [] \<and> (\<exists>c \<in> A. lf_head (lf_mem st sp) = lf_head (lf_mem st c)))"

lemma from_listI: "L \<subseteq> A \<Longrightarrow> sp \<notin> A \<Longrightarrow> from_list A sp L st"
  by (auto simp: from_list_def)

lemma split_sp:
  assumes "sp \<in> set (fst (lf_split sp ov lock rst st))" "sp \<notin> A" "ov \<in> A" "lock \<in> A" "set rst \<subseteq> A"
  shows "lf_blkhd (lf_mem (snd (lf_split sp ov lock rst st)) sp) = []"
    "lf_head (lf_mem (snd (lf_split sp ov lock rst st)) sp) = lf_head (lf_mem (snd (lf_split sp ov lock rst st)) ov)"
  using assms by (auto simp: lf_split_def Let_def split: if_splits)

lemma split_subset: "ov \<in> A \<Longrightarrow> lock \<in> A \<Longrightarrow> set rst \<subseteq> A \<Longrightarrow> set (fst (lf_split sp ov lock rst st)) \<subseteq> insert sp A"
  by (auto simp: lf_split_def Let_def)

lemma findoverlap_range:
  "lf_findoverlap m l lock self = Some (c, sk, rest) \<Longrightarrow> c \<le> 5 \<and> (rest = [] \<longrightarrow> c = 0)"
  by (induction l arbitrary: sk) (auto simp: Let_def split: if_splits)

lemma overlap_cases:
  assumes "lf_findoverlap m l lock self = Some (c, sk, rest)"
  obtains "rest = []" | ov rst where "rest = ov # rst" "c \<in> {0, 1, 2, 3, 4, 5}"
  using findoverlap_range [OF assms] by (cases rest) (auto simp: le_Suc_eq numeral_eq_Suc)

section \<open>The loops\<close>

lemma lf_link_frame:
  assumes "lf_link sp lock pre blk need st = Some st'" "insert lock (set (pre @ blk)) \<subseteq> A" "sp \<notin> A"
  shows "frm A sp st st' \<and> from_list A sp (set (lf_heads st' (lf_head (lf_mem st lock)))) st'"
  using assms(1,2)
proof (induction blk arbitrary: pre need st rule: length_induct)
  case (1 blk)
  let ?h = "lf_head (lf_mem st lock)"
  from "1.prems"(1) obtain c sk rest where f: "lf_findoverlap (lf_mem st) blk lock True = Some (c, sk, rest)"
    by (subst (asm) lf_link.simps) (auto simp: Let_def split: option.splits)
  have b: "blk = sk @ rest" by (rule lf_findoverlap_parts [OF f])
  note I = lf_link_iter [OF f, where sp = sp and pre = pre and need = need]
  from f show ?case
  proof (cases rule: overlap_cases)
    case 1
    then show ?thesis using I(1) "1.prems" b assms(3) by (auto intro!: frm_intros from_listI split: if_splits)
  next
    case (2 ov rst)
    have A: "ov \<in> A" "lock \<in> A" "set pre \<subseteq> A" "set sk \<subseteq> A" "set rst \<subseteq> A" using "1.prems"(2) b 2(1) by auto
    have len: "length rst < length blk" using b 2(1) by simp
    consider "c = 0" | "c = 1" | "c = 2" | "c = 3" | "c = 4" | "c = 5" using 2(2) by auto
    then show ?thesis
    proof cases
      assume c: "c = 0"
      show ?thesis using I(2) [OF 2(1) c] "1.prems"(1) A assms(3) by (auto intro!: frm_intros from_listI split: if_splits)
    next
      assume c: "c = 1"
      let ?s = "if lf_type (lf_mem st lock) = F_RDLCK \<and> lf_type (lf_mem st ov) = F_WRLCK then lf_wakelock ov st else st"
      have "frm A sp st ?s" using A by (auto intro!: frm_intros)
      moreover have "st' = set_head ?h (pre @ sk @ ov # rst) (lf_free lock (upd_lf ov (\<lambda>l. l\<lparr>lf_type := lf_type (lf_mem st lock)\<rparr>) ?s))"
        using I(3) [OF 2(1) c] "1.prems"(1) by simp
      ultimately show ?thesis using A assms(3) by (auto intro!: from_listI frm_intros)
    next
      assume c: "c = 2"
      note J = I(4) [OF 2(1) c, unfolded "1.prems"(1)]
      let ?p = "lf_split sp ov lock rst st"
      consider "st' = set_head ?h (pre @ sk @ ov # rst) (lf_free lock st)"
        | "st' = set_head ?h (pre @ sk @ lock # ov # rst) (lf_wakelock ov (upd_lf ov (\<lambda>l. l\<lparr>lf_start := off_wrap (lf_end (lf_mem st lock) + 1)\<rparr>) st))"
        | "st' = set_head ?h (pre @ sk @ fst ?p) (lf_wakelock ov (snd ?p))"
        using J by (auto split: if_splits)
      then show ?thesis
      proof cases
        case 3
        have "frm A sp st st'" unfolding 3
          by (intro frm_intros A assms(3))
        moreover have "from_list A sp (set (lf_heads st' ?h)) st'"
          using split_sp [OF _ assms(3) A(1,2,5)] split_subset [OF A(1,2,5)] A assms(3)
          by (auto simp: from_list_def 3 wakelock_fields)
        ultimately show ?thesis by simp
      qed (use A assms(3) in \<open>auto intro!: from_listI frm_intros\<close>)
    next
      assume c: "c = 3"
      let ?s = "lf_free ov (take_waiters lock ov (lf_type (lf_mem st lock) = F_RDLCK \<and> lf_type (lf_mem st ov) = F_WRLCK) st)"
      have F: "frm A sp st ?s" by (intro frm_intros A)
      have h: "lf_head (lf_mem ?s lock) = ?h" using frmD(1) [OF F, of lock] A assms(3) by metis
      have "lf_link sp lock (pre @ sk @ (if need then [lock] else [])) rst False ?s = Some st'"
        using I(5) [OF 2(1) c] "1.prems"(1) by simp
      from "1.IH" [rule_format, OF len this] A h show ?thesis by (auto intro: frm_trans [OF F])
    next
      assume c: "c = 4"
      show ?thesis
      proof (cases need)
        case True
        let ?s = "lf_wakelock ov (upd_lf ov (\<lambda>l. l\<lparr>lf_end := off_wrap (lf_start (lf_mem st lock) - 1)\<rparr>) st)"
        have F: "frm A sp st ?s" by (intro frm_intros A) simp_all
        have h: "lf_head (lf_mem ?s lock) = ?h" using frmD(1) [OF F, of lock] A assms(3) by metis
        have "lf_link sp lock (pre @ sk @ [ov, lock]) rst False ?s = Some st'"
          using I(6) [OF 2(1) c True] "1.prems"(1) by simp
        from "1.IH" [rule_format, OF len this] A h show ?thesis by (auto intro: frm_trans [OF F])
      next
        case False
        then show ?thesis using "1.prems"(1) f 2(1) c by (subst (asm) lf_link.simps) (simp add: Let_def)
      qed
    next
      assume c: "c = 5"
      show ?thesis using I(7) [OF 2(1) c] "1.prems"(1) A assms(3)
        by (auto intro!: from_listI frm_intros split: if_splits)
    qed
  qed
qed

lemma lf_unlink_frame:
  assumes "lf_unlink sp lock pre blk st = Some st'" "set (pre @ blk) \<subseteq> A" "lock \<notin> A" "sp \<notin> A" "sp \<noteq> lock"
  shows "frm A sp st st' \<and> from_list A sp (set (lf_heads st' (lf_head (lf_mem st lock)))) st'"
  using assms(1,2)
proof (induction blk arbitrary: pre st rule: length_induct)
  case (1 blk)
  let ?h = "lf_head (lf_mem st lock)"
  from "1.prems"(1) obtain c sk rest where f: "lf_findoverlap (lf_mem st) blk lock True = Some (c, sk, rest)"
    by (subst (asm) lf_unlink.simps) (auto simp: Let_def split: option.splits)
  have b: "blk = sk @ rest" by (rule lf_findoverlap_parts [OF f])
  note I = lf_unlink_iter [OF f, where sp = sp and pre = pre]
  show ?case
  proof (cases "rest = [] \<or> c = 0")
    case True
    then show ?thesis using I(1) "1.prems" b assms(4) by (auto intro!: frm_intros from_listI)
  next
    case False
    then obtain ov rst where r: "rest = ov # rst" by (cases rest) auto
    let ?w = "lf_wakelock ov st"
    have A: "ov \<in> A" "set pre \<subseteq> A" "set sk \<subseteq> A" "set rst \<subseteq> A" using "1.prems"(2) b r by auto
    have len: "length rst < length blk" using b r by simp
    have F: "frm A sp st ?w" by (intro frm_intros A)
    consider "c = 1" | "c = 2" | "c = 3" | "c = 4" | "c = 5"
      using findoverlap_range [OF f] False by (auto simp: le_Suc_eq numeral_eq_Suc)
    then show ?thesis
    proof cases
      assume c: "c = 1"
      show ?thesis using I(2) [OF r c] "1.prems"(1) A assms(4) by (auto intro!: from_listI frm_intros)
    next
      assume c: "c = 2"
      let ?p = "lf_split sp ov lock rst ?w"
      consider "st' = set_head ?h (pre @ sk @ ov # rst) (upd_lf ov (\<lambda>l. l\<lparr>lf_start := off_wrap (lf_end (lf_mem st lock) + 1)\<rparr>) ?w)"
        | "st' = set_head ?h (pre @ sk @ remove1 lock (fst ?p)) (snd ?p)"
        using I(3) [OF r c, unfolded "1.prems"(1)] by (auto split: if_splits)
      then show ?thesis
      proof cases
        case 2
        have "frm A sp st st'" unfolding 2 by (intro frm_intros A assms(4))
        moreover have "set (remove1 lock (fst ?p)) \<subseteq> insert sp A"
          using A assms(3) by (auto simp: lf_split_def Let_def subset_iff dest: subsetD [OF set_remove1_subset])
        moreover have "sp \<in> set (fst ?p)" if "sp \<in> set (remove1 lock (fst ?p))"
          using that by (rule subsetD [OF set_remove1_subset])
        ultimately have "frm A sp st st' \<and> from_list A sp (set (lf_heads st' ?h)) st'"
          using split_sp [of sp ov lock rst ?w "insert lock A"] A subset_insertI2 [OF A(4)] assms(4,5)
          by (auto simp: from_list_def 2)
        then show ?thesis by simp
      qed (use A assms(4) in \<open>auto intro!: from_listI frm_intros\<close>)
    next
      assume c: "c = 3"
      have h: "lf_head (lf_mem (lf_free ov ?w) lock) = ?h" by simp
      have "lf_unlink sp lock (pre @ sk) rst (lf_free ov ?w) = Some st'" using I(4) [OF r c] "1.prems"(1) by simp
      from "1.IH" [rule_format, OF len this] A h show ?thesis by (auto intro: frm_trans [OF frm_trans [OF F frm_free]])
    next
      assume c: "c = 4"
      let ?s = "upd_lf ov (\<lambda>l. l\<lparr>lf_end := off_wrap (lf_start (lf_mem st lock) - 1)\<rparr>) ?w"
      have G: "frm A sp st ?s" by (intro frm_intros A) simp_all
      have h: "lf_head (lf_mem ?s lock) = ?h" using frmD(1) [OF G, of lock] assms(5) by metis
      have "lf_unlink sp lock (pre @ sk @ [ov]) rst ?s = Some st'" using I(5) [OF r c] "1.prems"(1) by simp
      from "1.IH" [rule_format, OF len this] A h show ?thesis by (auto intro: frm_trans [OF G])
    next
      assume c: "c = 5"
      show ?thesis using I(6) [OF r c] "1.prems"(1) A assms(4) by (auto intro!: from_listI frm_intros)
    qed
  qed
qed

end
