(* ===== verification/Lockf_Inv.thy ===== *)
theory Lockf_Inv
  imports Lockf_Frame
begin

text \<open>
  The invariant of record locks: the lists of all inodes and the requests that wait. It says that
  conflicting locks are never held together, and it is kept by adding and removing locks, by going to
  sleep and by waking up.
\<close>

section \<open>What an owner holds afterwards\<close>

lemma chain_unique:
  assumes "chain v l" "a \<in> set l" "c \<in> set l" "covers (v a) b" "covers (v c) b"
  shows "a = c"
  using assms by (induction l) (auto simp: chain_Cons dest: before_not_covers)

lemma held_others:
  assumes "own v' j l' = own v j l" "\<forall>a \<in> set l. r_id (v a) = j \<longrightarrow> v' a = v a"
  shows "held v' l' j b ty = held v l j b ty"
  unfolding held_own assms(1) by (rule hit_cong) (use assms(2) in auto)

lemma linked_held:
  assumes L: "linked v l k v' l'"
  shows "held v' l' i b ty \<longleftrightarrow> (if i = r_id k \<and> covers k b then ty = r_type k else held v l i b ty)"
proof (cases "i = r_id k \<and> covers k b")
  case True
  from L obtain a where a: "a \<in> set l'" "r_id (v' a) = r_id k" "contains (v' a) k" "r_type (v' a) = r_type k"
    unfolding linked_def by blast
  have c: "covers (v' a) b" using True a(3) by (auto simp: covers_def contains_def)
  have "x = a" if "x \<in> set l'" "r_id (v' x) = r_id k" "covers (v' x) b" for x
    using chain_unique [of v' "own v' (r_id k) l'" x a b] L that a(1,2) c by (simp add: linked_def)
  then have "held v' l' (r_id k) b ty \<longleftrightarrow> r_type (v' a) = ty" unfolding held_def using a(1,2) c by metis
  then show ?thesis using True a(4) by auto
next
  case False
  then show ?thesis using L held_others [of v' i l' v l] by (cases "i = r_id k") (auto simp: linked_def)
qed

lemma cleared_held:
  assumes L: "cleared v l k v' l'"
  shows "held v' l' i b ty \<longleftrightarrow> \<not> (i = r_id k \<and> covers k b) \<and> held v l i b ty"
  using L held_others [of v' i l' v l] by (cases "i = r_id k") (auto simp: cleared_def)

lemma chain_others:
  assumes "own v' j l' = own v j l" "\<forall>a \<in> set l. r_id (v a) = j \<longrightarrow> v' a = v a" "chain v (own v j l)"
  shows "chain v' (own v' j l')"
  unfolding assms(1) by (subst chain_cong [of _ _ v]) (use assms(2,3) in auto)

lemma linked_chain: "linked v l k v' l' \<Longrightarrow> \<forall>i. chain v (own v i l) \<Longrightarrow> chain v' (own v' i l')"
  using chain_others [of v' i l' v l] by (cases "i = r_id k") (auto simp: linked_def)

lemma cleared_chain: "cleared v l k v' l' \<Longrightarrow> \<forall>i. chain v (own v i l) \<Longrightarrow> chain v' (own v' i l')"
  using chain_others [of v' i l' v l] by (cases "i = r_id k") (auto simp: cleared_def)

section \<open>The list of an inode\<close>

text \<open>Two owners never hold locks on the same byte of which one is exclusive.\<close>

definition exclusive :: "(nat \<Rightarrow> rng) \<Rightarrow> nat list \<Rightarrow> bool" where
  "exclusive v l \<longleftrightarrow> (\<forall>i j b ty. held v l i b F_WRLCK \<longrightarrow> held v l j b ty \<longrightarrow> i = j)"

lemma exclusiveD: "exclusive v l \<Longrightarrow> held v l i b F_WRLCK \<Longrightarrow> held v l j b ty \<Longrightarrow> i = j"
  unfolding exclusive_def by blast

lemma exclusiveI: "(\<And>i j b ty. held v l i b F_WRLCK \<Longrightarrow> held v l j b ty \<Longrightarrow> i = j) \<Longrightarrow> exclusive v l"
  unfolding exclusive_def by blast

definition view_ok :: "(nat \<Rightarrow> rng) \<Rightarrow> nat list \<Rightarrow> bool" where
  "view_ok v l \<longleftrightarrow> distinct l \<and> (\<forall>i. chain v (own v i l)) \<and> (\<forall>i b. \<not> held v l i b F_UNLCK) \<and> exclusive v l"

lemma view_ok_Nil [simp]: "view_ok v []"
  by (simp add: view_ok_def exclusive_def held_def)

lemma view_okD:
  assumes "view_ok v l" "a \<in> set l"
  shows "wf_rng (v a)" "r_type (v a) \<noteq> F_UNLCK"
proof -
  have "chain v (own v (r_id (v a)) l)" using assms(1) by (simp add: view_ok_def)
  then show w: "wf_rng (v a)" using assms(2) by (auto simp: chain_def)
  then have "covers (v a) (r_start (v a))" by (auto simp: covers_def wf_rng_def)
  then show "r_type (v a) \<noteq> F_UNLCK" using assms by (auto simp: view_ok_def held_def)
qed

lemma view_ok_cong:
  assumes "\<And>a. a \<in> set l \<Longrightarrow> v' a = v a"
  shows "view_ok v' l = view_ok v l"
proof -
  have o: "own v' i l = own v i l" for i unfolding own_def by (rule filter_cong) (simp_all add: assms)
  have "chain v' (own v i l) = chain v (own v i l)" for i by (rule chain_cong) (use assms in auto)
  moreover have "held v' l = held v l" by (simp add: fun_eq_iff held_def assms cong: bex_cong)
  ultimately show ?thesis by (simp add: view_ok_def exclusive_def o)
qed

lemma held_blocks:
  assumes "held v l j b ty" "\<forall>a \<in> set l. \<not> blocks k (v a)" "covers k b" "j \<noteq> r_id k"
  shows "ty \<noteq> F_WRLCK \<and> r_type k \<noteq> F_WRLCK"
proof -
  from assms(1) obtain a where a: "a \<in> set l" "r_id (v a) = j" "covers (v a) b" "r_type (v a) = ty" by (auto simp: held_def)
  then have "overlaps (v a) k" using assms(3) before_not_covers by (auto simp: overlaps_def)
  with a assms(2,4) show ?thesis by (auto simp: blocks_def)
qed

lemma linked_ok:
  assumes V: "view_ok v l" and L: "linked v l k v' l'" and n: "\<forall>a \<in> set l. \<not> blocks k (v a)" "r_type k \<noteq> F_UNLCK"
  shows "view_ok v' l'"
proof -
  note H = linked_held [OF L]
  note B = held_blocks [OF _ n(1)]
  have X: "exclusive v l" using V by (simp add: view_ok_def)
  have "i = j" if "held v' l' i b F_WRLCK" "held v' l' j b ty" for i j b ty
  proof (cases "covers k b")
    case True
    show ?thesis
    proof (rule ccontr)
      assume ne: "i \<noteq> j"
      have h: "i \<noteq> r_id k \<Longrightarrow> held v l i b F_WRLCK" "j \<noteq> r_id k \<Longrightarrow> held v l j b ty" "i = r_id k \<Longrightarrow> r_type k = F_WRLCK"
        using that True unfolding H by (simp_all split: if_splits)
      show False
      proof (cases "i = r_id k")
        case True
        with B [OF h(2) \<open>covers k b\<close>] h(3) ne show False by blast
      next
        case False
        with B [OF h(1) \<open>covers k b\<close>] show False by blast
      qed
    qed
  next
    case False
    then show ?thesis using that exclusiveD [OF X] unfolding H by simp
  qed
  then have "exclusive v' l'" by (rule exclusiveI)
  moreover have "\<not> held v' l' i b F_UNLCK" for i b using n(2) V by (auto simp: H view_ok_def)
  ultimately show ?thesis using linked_chain [OF L] L V by (simp add: view_ok_def linked_def)
qed

lemma cleared_ok:
  assumes V: "view_ok v l" and L: "cleared v l k v' l'"
  shows "view_ok v' l'"
proof -
  note H = cleared_held [OF L]
  have X: "exclusive v l" using V by (simp add: view_ok_def)
  have "exclusive v' l'" by (rule exclusiveI) (use exclusiveD [OF X] H in blast)
  moreover have "\<not> held v' l' i b F_UNLCK" for i b using V by (simp add: H view_ok_def)
  ultimately show ?thesis using cleared_chain [OF L] L V by (simp add: view_ok_def cleared_def)
qed

section \<open>The invariant\<close>

definition live :: "lfstate \<Rightarrow> nat set" where
  "live st = (\<Union>h. set (lf_heads st h))"

text \<open>A request that is not on a list yet.\<close>

definition req_ok :: "lfstate \<Rightarrow> nat \<Rightarrow> bool" where
  "req_ok st w \<longleftrightarrow> w \<notin> live st \<and> wf_rng (vw st w) \<and> r_type (vw st w) \<noteq> F_UNLCK \<and> lf_blkhd (lf_mem st w) = []"

text \<open>The map gives the request of each process that waits inside \<open>lf_setlock\<close>.\<close>

definition lfinv :: "lfstate \<times> (nat \<rightharpoonup> nat) \<Rightarrow> bool" where
  "lfinv = (\<lambda>(st, pend).
     (\<forall>h. view_ok (vw st) (lf_heads st h)) \<and> (\<forall>h. \<forall>a \<in> set (lf_heads st h). lf_head (lf_mem st a) = h)
   \<and> wq st (ran pend) (live st) \<and> (\<forall>w \<in> ran pend. req_ok st w)
   \<and> (\<forall>p w. p_wchan st p = Some w \<longrightarrow> pend p = Some w) \<and> inj_on pend (dom pend)
   \<and> (\<forall>b \<in> live st. \<forall>w \<in> set (lf_blkhd (lf_mem st b)). w \<in> ran pend \<and> lf_head (lf_mem st w) = lf_head (lf_mem st b)))"

lemma lfinvD:
  assumes "lfinv (st, pend)"
  shows "view_ok (vw st) (lf_heads st h)" "a \<in> set (lf_heads st h) \<Longrightarrow> lf_head (lf_mem st a) = h"
    "wq st (ran pend) (live st)" "w \<in> ran pend \<Longrightarrow> req_ok st w" "p_wchan st p = Some w \<Longrightarrow> pend p = Some w"
    "inj_on pend (dom pend)"
    "b \<in> live st \<Longrightarrow> w \<in> set (lf_blkhd (lf_mem st b)) \<Longrightarrow> w \<in> ran pend \<and> lf_head (lf_mem st w) = lf_head (lf_mem st b)"
  using assms by (simp_all add: lfinv_def)

lemma lfinvI:
  assumes "\<And>h. view_ok (vw st) (lf_heads st h)" "\<And>h a. a \<in> set (lf_heads st h) \<Longrightarrow> lf_head (lf_mem st a) = h"
    "wq st (ran pend) (live st)" "\<And>w. w \<in> ran pend \<Longrightarrow> req_ok st w" "\<And>p w. p_wchan st p = Some w \<Longrightarrow> pend p = Some w"
    "inj_on pend (dom pend)"
    "\<And>b w. b \<in> live st \<Longrightarrow> w \<in> set (lf_blkhd (lf_mem st b)) \<Longrightarrow> w \<in> ran pend \<and> lf_head (lf_mem st w) = lf_head (lf_mem st b)"
  shows "lfinv (st, pend)"
  using assms by (simp add: lfinv_def)

lemma lfinv_heads:
  assumes "lfinv (st, pend)" "a \<in> set (lf_heads st h)"
  shows "a \<in> live st" "h' \<noteq> h \<Longrightarrow> a \<notin> set (lf_heads st h')"
  using lfinvD(2) [OF assms] lfinvD(2) [OF assms(1), of a h'] assms(2) by (auto simp: live_def)

text \<open>A request and a structure for a split that are not in use.\<close>

definition unused :: "lfstate \<Rightarrow> (nat \<rightharpoonup> nat) \<Rightarrow> nat \<Rightarrow> bool" where
  "unused st pend a \<longleftrightarrow> a \<notin> live st \<and> a \<notin> ran pend"

lemma unused_blkhd: "lfinv (st, pend) \<Longrightarrow> unused st pend a \<Longrightarrow> b \<in> live st \<Longrightarrow> a \<notin> set (lf_blkhd (lf_mem st b))"
  using lfinvD(7) by (auto simp: unused_def)

definition others :: "lfstate \<Rightarrow> nat \<Rightarrow> nat set" where
  "others st h = (\<Union>h' \<in> - {h}. set (lf_heads st h'))"

lemma live_split: "live st = set (lf_heads st h) \<union> others st h"
  by (auto simp: live_def others_def)

lemma others_disjoint: "lfinv (st, pend) \<Longrightarrow> set (lf_heads st h) \<inter> others st h = {}"
  using lfinv_heads(2) by (fastforce simp: others_def)

lemma others_upd: "lf_heads st' = (lf_heads st)(h := l') \<Longrightarrow> others st' h = others st h"
  by (simp add: others_def)

lemma link_pre_start:
  assumes "lfinv (st, pend)" "wf_rng (vw st lock)" "unused st pend lock" "unused st pend sp" "sp \<noteq> lock"
  shows "link_pre (vw st) sp lock [] (lf_heads st h) True []"
  using lfinvD(1) [OF assms(1), of h] assms(2-5) by (auto simp: link_pre_def view_ok_def unused_def live_def)

section \<open>Changing the list of one inode\<close>

lemma lfinv_relist:
  assumes I: "lfinv (st, pend)" and F: "frm A sp st st'" "from_list A sp (set l') st'"
    and A: "A \<subseteq> insert lock (set (lf_heads st h))" "unused st pend lock" "unused st pend sp" "sp \<noteq> lock"
      "lf_blkhd (lf_mem st lock) = []" "lf_head (lf_mem st lock) = h"
    and L: "lf_heads st' = (lf_heads st)(h := l')" "view_ok (vw st') l'" "wq st' (ran pend) (live st')"
  shows "lfinv (st', pend)"
proof -
  have hA: "lf_head (lf_mem st' a) = h" if "a \<in> set l'" for a
  proof -
    have c: "lf_head (lf_mem st' c) = h" if "c \<in> A" for c
    proof -
      have "c = lock \<or> c \<in> set (lf_heads st h)" using A(1) that by auto
      then have "c \<noteq> sp" "lf_head (lf_mem st c) = h"
        using A(3,4,6) lfinvD(2) [OF I, of c h] lfinv_heads(1) [OF I, of c h] by (auto simp: unused_def)
      then show ?thesis using frmD(1) [OF F(1)] by simp
    qed
    then show ?thesis using that F(2) by (auto simp: from_list_def)
  qed
  have out: "a \<notin> A \<and> a \<noteq> sp" if "a \<in> set (lf_heads st h')" "h' \<noteq> h" for a h'
    using that lfinv_heads [OF I that(1)] A by (auto simp: unused_def)
  have "set l' \<subseteq> insert sp (insert lock (set (lf_heads st h)))" using F(2) A(1) unfolding from_list_def by blast
  then have live': "live st' \<subseteq> insert sp (insert lock (live st))"
    unfolding live_split [of st' h] live_split [of st h] others_upd [OF L(1)] by (auto simp: L(1))
  show ?thesis
  proof (rule lfinvI)
    fix h' show "view_ok (vw st') (lf_heads st' h')"
    proof (cases "h' = h")
      case False
      then have "vw st' a = vw st a" if "a \<in> set (lf_heads st h')" for a using frmD(2) [OF F(1)] out [OF that] by simp
      then show ?thesis using view_ok_cong [of _ "vw st'" "vw st"] lfinvD(1) [OF I] L(1) False by simp
    qed (simp add: L)
  next
    fix h' a assume "a \<in> set (lf_heads st' h')"
    then show "lf_head (lf_mem st' a) = h'"
      using hA out [of a h'] lfinvD(2) [OF I, of a h'] frmD(1) [OF F(1), of a] by (auto simp: L(1) split: if_splits)
  next
    fix w assume w: "w \<in> ran pend"
    have r: "req_ok st w" by (rule lfinvD(4) [OF I w])
    then have "w \<notin> A" "w \<noteq> sp" "w \<notin> live st'"
      using w A lfinv_heads(1) [OF I, of w h] live' by (auto simp: req_ok_def unused_def)
    then show "req_ok st' w" using r frmD(2,3) [OF F(1), of w] by (simp add: req_ok_def)
  next
    fix b w assume b: "b \<in> live st'" "w \<in> set (lf_blkhd (lf_mem st' b))"
    show "w \<in> ran pend \<and> lf_head (lf_mem st' w) = lf_head (lf_mem st' b)"
    proof (cases "b \<in> set l'")
      case True
      then have "b \<noteq> sp" "b \<in> A" using F(2) b(2) by (auto simp: from_list_def)
      with frmD(4) [OF F(1) _ b(2)] obtain c where c: "c \<in> A" "w \<in> set (lf_blkhd (lf_mem st c))" by blast
      then have "c \<in> set (lf_heads st h)" using A by auto
      then have "w \<in> ran pend" "lf_head (lf_mem st w) = h"
        using lfinvD(7) [OF I lfinv_heads(1) [OF I] c(2)] lfinvD(2) [OF I] by auto
      then show ?thesis using hA [OF True] frmD(1) [OF F(1), of w] A(3) by (auto simp: unused_def)
    next
      case False
      then obtain h' where h': "h' \<noteq> h" "b \<in> set (lf_heads st h')" using b(1) by (auto simp: live_def L(1) split: if_splits)
      note o = out [OF h'(2,1)]
      have "w \<in> ran pend \<and> lf_head (lf_mem st w) = lf_head (lf_mem st b)"
        using lfinvD(7) [OF I lfinv_heads(1) [OF I h'(2)]] b(2) frmD(3) [OF F(1), of b] o by simp
      then show ?thesis using frmD(1) [OF F(1), of w] frmD(1) [OF F(1), of b] A(3) o by (auto simp: unused_def)
    qed
  qed (use lfinvD(5,6) [OF I] frmD(5) [OF F(1)] L(3) in \<open>auto simp: ran_def\<close>)
qed

lemma link_inv:
  assumes I: "lfinv (st, pend)" and k: "req_ok st lock" "lock \<notin> ran pend" and sp: "unused st pend sp" "sp \<noteq> lock"
    and n: "\<forall>a \<in> set (lf_heads st (lf_head (lf_mem st lock))). \<not> blocks (vw st lock) (vw st a)"
  shows "\<exists>st'. lf_link sp lock [] (lf_heads st (lf_head (lf_mem st lock))) True st = Some st' \<and> lfinv (st', pend)
    \<and> frm (insert lock (set (lf_heads st (lf_head (lf_mem st lock))))) sp st st'
    \<and> (\<exists>l'. lf_heads st' = (lf_heads st)(lf_head (lf_mem st lock) := l')
       \<and> linked (vw st) (lf_heads st (lf_head (lf_mem st lock))) (vw st lock) (vw st') l')"
proof -
  let ?h = "lf_head (lf_mem st lock)" and ?l = "lf_heads st (lf_head (lf_mem st lock))" and ?O = "others st (lf_head (lf_mem st lock))"
  have u: "unused st pend lock" "wf_rng (vw st lock)" "lf_blkhd (lf_mem st lock) = []" "r_type (vw st lock) \<noteq> F_UNLCK"
    using k by (auto simp: req_ok_def unused_def)
  note P = link_pre_start [OF I u(2,1) sp, of ?h]
  from lf_link_correct [OF P] obtain st' l' where s: "lf_link sp lock [] ?l True st = Some st'"
    "lf_heads st' = (lf_heads st)(?h := l')" "linked (vw st) ?l (vw st lock) (vw st') l'" by auto
  have spA: "sp \<notin> insert lock (set ?l)" using sp by (auto simp: unused_def live_def)
  from lf_link_frame [OF s(1) _ spA] have F: "frm (insert lock (set ?l)) sp st st'" "from_list (insert lock (set ?l)) sp (set l') st'"
    by (simp_all add: s(2))
  have li: "insert lock (set ([] @ ?l) \<union> ?O) = insert lock (live st)" by (simp add: live_split [of st ?h])
  have "wq st (ran pend) (insert lock (live st))"
    using wq_add [OF lfinvD(3) [OF I] u(3)] unused_blkhd [OF I u(1)] by blast
  moreover have "w \<noteq> sp \<and> wf_rng (vw st w)" if "b \<in> insert lock (live st)" "w \<in> set (lf_blkhd (lf_mem st b))" for b w
    using that u(3) lfinvD(7) [OF I, of b w] lfinvD(4) [OF I, of w] sp(1) by (auto simp: unused_def req_ok_def)
  moreover have "r_type (vw st a) \<noteq> F_UNLCK" if "a \<in> insert lock (live st)" for a
    using that u(4) view_okD(2) [OF lfinvD(1) [OF I]] by (auto simp: live_def)
  ultimately have W: "wait_pre st (ran pend) sp lock (insert lock (set ([] @ ?l) \<union> ?O))"
    unfolding li wait_pre_def using sp u(4) by (auto simp: unused_def)
  have "lock \<notin> ?O" using u(1) by (auto simp: unused_def live_split [of st ?h])
  then have "wq st' (ran pend) (set (lf_heads st' ?h) \<union> ?O)"
    by (intro lf_link_waiters [OF P W _ _ _ s(1)]) (use others_disjoint [OF I] u(3) in simp_all)
  then have "wq st' (ran pend) (live st')" by (simp add: live_split [of st' ?h] others_upd [OF s(2)])
  then have "lfinv (st', pend)"
    by (intro lfinv_relist [OF I F _ u(1) sp u(3) refl s(2) linked_ok [OF lfinvD(1) [OF I] s(3) n u(4)]]) simp
  with s F(1) show ?thesis by blast
qed

lemma clear_inv:
  assumes I: "lfinv (st, pend)" and k: "unused st pend lock" "wf_rng (vw st lock)" "lf_blkhd (lf_mem st lock) = []"
    and sp: "unused st pend sp" "sp \<noteq> lock"
  shows "\<exists>st'. lf_clearlock sp lock st = Some st' \<and> lfinv (st', pend) \<and> frm (set (lf_heads st (lf_head (lf_mem st lock)))) sp st st'
    \<and> (\<exists>l'. lf_heads st' = (lf_heads st)(lf_head (lf_mem st lock) := l')
       \<and> cleared (vw st) (lf_heads st (lf_head (lf_mem st lock))) (vw st lock) (vw st') l'
       \<and> from_list (set (lf_heads st (lf_head (lf_mem st lock)))) sp (set l') st')"
proof -
  let ?h = "lf_head (lf_mem st lock)" and ?l = "lf_heads st (lf_head (lf_mem st lock))" and ?O = "others st (lf_head (lf_mem st lock))"
  have cl: "lf_clearlock sp lock st = lf_unlink sp lock [] ?l st" if "?l \<noteq> []"
    using that by (cases ?l) (simp_all add: lf_clearlock_def)
  have nil: "lf_unlink sp lock [] [] st = Some (set_head ?h [] st)" by (simp add: lf_unlink.simps)
  note P = link_pre_start [OF I k(2,1) sp, of ?h]
  from lf_unlink_correct [OF P] obtain st' l' where s: "lf_unlink sp lock [] ?l st = Some st'"
    "lf_heads st' = (lf_heads st)(?h := l')" "cleared (vw st) ?l (vw st lock) (vw st') l'" by auto
  have "lf_clearlock sp lock st = Some st'"
  proof (cases "?l = []")
    case True
    then have "set_head ?h [] st = st" by (simp add: set_head_def fun_upd_idem)
    then show ?thesis using nil s(1) True by (simp add: lf_clearlock_def)
  qed (use cl s(1) in simp)
  have out: "lock \<notin> set ?l" "sp \<notin> set ?l" using k(1) sp(1) by (auto simp: unused_def live_def)
  from lf_unlink_frame [OF s(1) _ out sp(2)] have F: "frm (set ?l) sp st st'" "from_list (set ?l) sp (set l') st'"
    by (simp_all add: s(2))
  have "wq st' (ran pend) (set (lf_heads st' ?h) \<union> ?O)"
    by (rule lf_unlink_waiters [OF P _ _ _ _ s(1)])
      (use lfinvD(3) [OF I] others_disjoint [OF I] unused_blkhd [OF I sp(1)] sp(1) in \<open>auto simp: live_split [of st ?h] unused_def\<close>)
  then have "wq st' (ran pend) (live st')" by (simp add: live_split [of st' ?h] others_upd [OF s(2)])
  then have "lfinv (st', pend)"
    by (intro lfinv_relist [OF I F _ k(1) sp k(3) refl s(2) cleared_ok [OF lfinvD(1) [OF I] s(3)]]) auto
  with \<open>lf_clearlock sp lock st = Some st'\<close> s F show ?thesis by blast
qed

end
