(* ===== verification/Lockf_Steps.thy ===== *)
theory Lockf_Steps
  imports Lockf_Inv Runs
begin

text \<open>
  Record locks as a system of processes: calls of \<open>lf_advlock\<close>, signals and the return from \<open>tsleep\<close> in
  any order. The invariant holds in every state that is reached; the properties of the component rest
  on it and on the contracts of the loops.
\<close>

section \<open>Going to sleep and waking up\<close>

definition lf_block :: "nat \<Rightarrow> nat \<Rightarrow> nat \<Rightarrow> lfstate \<Rightarrow> lfstate" where
  "lf_block p lock block st =
     (let st = upd_lf lock (\<lambda>l. l\<lparr>lf_next := Some block\<rparr>) st;
          st = upd_lf block (\<lambda>l. l\<lparr>lf_blkhd := lf_blkhd l @ [lock]\<rparr>) st
      in st\<lparr>p_wchan := (p_wchan st)(p := Some lock)\<rparr>)"

definition lf_unblock :: "nat \<Rightarrow> nat \<Rightarrow> lfstate \<Rightarrow> lfstate" where
  "lf_unblock p lock st =
     (let st = st\<lparr>p_wchan := (p_wchan st)(p := None)\<rparr>
      in case lf_next (lf_mem st lock) of
           None \<Rightarrow> st
         | Some b \<Rightarrow> upd_lf lock (\<lambda>l. l\<lparr>lf_next := None\<rparr>) (upd_lf b (\<lambda>l. l\<lparr>lf_blkhd := removeAll lock (lf_blkhd l)\<rparr>) st))"

lemma block_same: "same_core st (lf_block p lock block st)"
  by (simp add: lf_block_def Let_def same_core_def core_def)

lemma unblock_same: "same_core st (lf_unblock p lock st)"
  by (auto simp: lf_unblock_def Let_def same_core_def core_def split: option.split)

lemma same_core_live: "same_core st st' \<Longrightarrow> live st' = live st"
  by (simp add: live_def same_coreD)

lemma lfinv_same:
  assumes I: "lfinv (st, pend)" and S: "same_core st st'" and W: "wq st' (ran pend') (live st)"
    and R: "\<And>w. w \<in> ran pend' \<Longrightarrow> req_ok st w \<and> lf_blkhd (lf_mem st' w) = []"
    and P: "\<And>p w. p_wchan st' p = Some w \<Longrightarrow> pend' p = Some w" "inj_on pend' (dom pend')"
    and B: "\<And>b w. b \<in> live st \<Longrightarrow> w \<in> set (lf_blkhd (lf_mem st' b)) \<Longrightarrow> w \<in> ran pend' \<and> lf_head (lf_mem st w) = lf_head (lf_mem st b)"
  shows "lfinv (st', pend')"
proof (rule lfinvI)
  fix w assume "w \<in> ran pend'"
  then show "req_ok st' w" using R [of w] unfolding req_ok_def same_coreD(1) [OF S] same_core_live [OF S] by simp
next
  fix b w assume "b \<in> live st'" "w \<in> set (lf_blkhd (lf_mem st' b))"
  then show "w \<in> ran pend' \<and> lf_head (lf_mem st' w) = lf_head (lf_mem st' b)"
    using B unfolding same_coreD(3) [OF S] same_core_live [OF S] by simp
next
  show "wq st' (ran pend') (live st')" using W unfolding same_core_live [OF S] .
qed (use lfinvD(1,2) [OF I] in \<open>simp_all only: same_coreD(1-3) [OF S] P\<close>)

lemma block_fields:
  assumes "block \<noteq> lock"
  shows "lf_blkhd (lf_mem (lf_block p lock block st) a) = lf_blkhd (lf_mem st a) @ (if a = block then [lock] else [])"
    "lf_next (lf_mem (lf_block p lock block st) a) = (if a = lock then Some block else lf_next (lf_mem st a))"
    "p_wchan (lf_block p lock block st) q = (if q = p then Some lock else p_wchan st q)"
  using assms by (simp_all add: lf_block_def Let_def)

lemma block_inv:
  assumes I: "lfinv (st, pend)" and k: "req_ok st lock" "lock \<notin> ran pend" "pend p = None"
    and b: "block \<in> set (lf_heads st (lf_head (lf_mem st lock)))" "blocks (vw st lock) (vw st block)"
  shows "lfinv (lf_block p lock block st, pend(p \<mapsto> lock))"
proof (rule lfinv_same [OF I block_same])
  let ?s = "lf_block p lock block st"
  have r: "ran (pend(p \<mapsto> lock)) = insert lock (ran pend)" using k(3) by simp
  have lb: "block \<in> live st" "block \<noteq> lock" using lfinv_heads(1) [OF I b(1)] k(1) by (auto simp: req_ok_def)
  note f = block_fields [OF lb(2), of p st]
  have new: "w \<noteq> lock" if "w \<in> set (lf_blkhd (lf_mem st c))" "c \<in> live st" for w c using lfinvD(7) [OF I that(2,1)] k(2) by auto
  show "wq ?s (ran (pend(p \<mapsto> lock))) (live st)" unfolding wq_def
  proof (intro conjI ballI allI impI)
    fix c w assume c: "c \<in> live st" "w \<in> set (lf_blkhd (lf_mem ?s c))"
    then have "w = lock \<and> c = block \<or> w \<in> set (lf_blkhd (lf_mem st c)) \<and> w \<noteq> lock" using new by (auto simp: f split: if_splits)
    then show "lf_next (lf_mem ?s w) = Some c" "w \<notin> live st" "blocks (vw ?s w) (vw ?s c)"
      using wqD [OF lfinvD(3) [OF I] c(1)] k(1) b(2) by (auto simp: f same_coreD(1) [OF block_same] req_ok_def)
  next
    fix w assume w: "waiting ?s (ran (pend(p \<mapsto> lock))) w"
    show "\<exists>c \<in> live st. w \<in> set (lf_blkhd (lf_mem ?s c))"
    proof (cases "w = lock")
      case False
      then have "waiting st (ran pend) w" using w by (auto simp: waiting_def f r split: if_splits)
      from wq_sleeper [OF lfinvD(3) [OF I] this] show ?thesis by (auto simp: f)
    qed (use lb in \<open>auto simp: f\<close>)
  qed
  show "req_ok st w \<and> lf_blkhd (lf_mem ?s w) = []" if "w \<in> ran (pend(p \<mapsto> lock))" for w
    using that lfinvD(4) [OF I, of w] k(1) lb(1) unfolding r by (auto simp: f req_ok_def)
  show "inj_on (pend(p \<mapsto> lock)) (dom (pend(p \<mapsto> lock)))"
    using lfinvD(6) [OF I] k(2,3) by (auto simp: inj_on_def ran_def dom_def)
  show "(pend(p \<mapsto> lock)) q = Some w" if "p_wchan ?s q = Some w" for q w
    using that lfinvD(5) [OF I] by (auto simp: f split: if_splits)
  show "w \<in> ran (pend(p \<mapsto> lock)) \<and> lf_head (lf_mem st w) = lf_head (lf_mem st c)"
    if "c \<in> live st" "w \<in> set (lf_blkhd (lf_mem ?s c))" for c w
    using that lfinvD(7) [OF I, of c w] lfinvD(2) [OF I b(1)] unfolding r by (auto simp: f split: if_splits)
qed

lemma pending_next:
  assumes "lfinv (st, pend)" "lock \<in> ran pend" "lf_next (lf_mem st lock) = Some b"
  shows "b \<in> live st" "lock \<in> set (lf_blkhd (lf_mem st b))"
proof -
  have "waiting st (ran pend) lock" using assms by (simp add: waiting_def)
  from wq_sleeper [OF lfinvD(3) [OF assms(1)] this] obtain c where "c \<in> live st" "lock \<in> set (lf_blkhd (lf_mem st c))" .
  with wqD(1) [OF lfinvD(3) [OF assms(1)] this] assms(3) show "b \<in> live st" "lock \<in> set (lf_blkhd (lf_mem st b))" by auto
qed

lemma unblock_fields:
  assumes "lf_next (lf_mem st lock) \<noteq> Some lock"
  shows "lf_blkhd (lf_mem (lf_unblock p lock st) a)
      = (if lf_next (lf_mem st lock) = Some a then removeAll lock (lf_blkhd (lf_mem st a)) else lf_blkhd (lf_mem st a))"
    "lf_next (lf_mem (lf_unblock p lock st) a) = (if a = lock then None else lf_next (lf_mem st a))"
    "p_wchan (lf_unblock p lock st) q = (if q = p then None else p_wchan st q)"
  using assms by (auto simp: lf_unblock_def Let_def split: option.split)

lemma unblock_inv:
  assumes I: "lfinv (st, pend)" and k: "pend p = Some lock"
  shows "lfinv (lf_unblock p lock st, pend(p := None)) \<and> req_ok (lf_unblock p lock st) lock \<and> lock \<notin> ran (pend(p := None))"
proof -
  let ?s = "lf_unblock p lock st" and ?n = "pend(p := None)"
  have lr: "lock \<in> ran pend" using k by (rule ranI)
  have uniq: "q = p" if "pend q = Some lock" for q using inj_onD [OF lfinvD(6) [OF I], of q p] that k by (simp add: domI)
  have r: "ran ?n = ran pend - {lock}"
  proof
    show "ran ?n \<subseteq> ran pend - {lock}" using uniq by (auto simp: ran_def)
    show "ran pend - {lock} \<subseteq> ran ?n"
    proof
      fix w assume "w \<in> ran pend - {lock}"
      then obtain q where "pend q = Some w" "w \<noteq> lock" by (auto simp: ran_def)
      with k have "?n q = Some w" by auto
      then show "w \<in> ran ?n" by (rule ranI)
    qed
  qed
  have q: "req_ok st lock" by (rule lfinvD(4) [OF I lr])
  have "lf_next (lf_mem st lock) \<noteq> Some lock" using pending_next(1) [OF I lr] q by (auto simp: req_ok_def)
  note f = unblock_fields [OF this]
  have gone: "w \<in> set (lf_blkhd (lf_mem ?s c)) \<longleftrightarrow> w \<in> set (lf_blkhd (lf_mem st c)) \<and> w \<noteq> lock" if "c \<in> live st" for c w
    using wqD(1) [OF lfinvD(3) [OF I] that] by (auto simp: f)
  have "lfinv (?s, ?n)"
  proof (rule lfinv_same [OF I unblock_same])
    show "wq ?s (ran ?n) (live st)" unfolding wq_def
    proof (intro conjI ballI allI impI)
      fix c w assume c: "c \<in> live st" "w \<in> set (lf_blkhd (lf_mem ?s c))"
      then show "lf_next (lf_mem ?s w) = Some c" "w \<notin> live st" "blocks (vw ?s w) (vw ?s c)"
        using wqD [OF lfinvD(3) [OF I] c(1)] gone [OF c(1)] by (auto simp: f same_coreD(1) [OF unblock_same])
    next
      fix w assume "waiting ?s (ran ?n) w"
      then have "waiting st (ran pend) w" "w \<noteq> lock"
        using uniq lfinvD(5) [OF I] unfolding r by (auto simp: waiting_def f split: if_splits)
      with wq_sleeper [OF lfinvD(3) [OF I] this(1)] gone show "\<exists>c \<in> live st. w \<in> set (lf_blkhd (lf_mem ?s c))" by metis
    qed
    show "req_ok st w \<and> lf_blkhd (lf_mem ?s w) = []" if "w \<in> ran ?n" for w
      using that lfinvD(4) [OF I, of w] unfolding r by (auto simp: f req_ok_def)
    show "inj_on ?n (dom ?n)" using lfinvD(6) [OF I] by (auto simp: inj_on_def dom_def)
    show "?n q = Some w" if "p_wchan ?s q = Some w" for q w using that lfinvD(5) [OF I] by (auto simp: f split: if_splits)
    show "w \<in> ran ?n \<and> lf_head (lf_mem st w) = lf_head (lf_mem st c)"
      if "c \<in> live st" "w \<in> set (lf_blkhd (lf_mem ?s c))" for c w
      using that gone lfinvD(7) [OF I, of c w] unfolding r by auto
  qed
  moreover have "req_ok ?s lock" using q by (auto simp: req_ok_def f same_coreD(1) [OF unblock_same] same_core_live [OF unblock_same])
  ultimately show ?thesis unfolding r by simp
qed

section \<open>Setting a lock\<close>

lemma lfinv_free [simp]: "lfinv (lf_free a st, pend) = lfinv (st, pend)"
  by (simp add: lfinv_def req_ok_def live_def)

lemma lfinv_upd_unused:
  assumes I: "lfinv (st, pend)" and u: "unused st pend a"
  shows "lfinv (upd_lf a f st, pend)"
proof -
  let ?s = "upd_lf a f st"
  have l: "live ?s = live st" by (simp add: live_def)
  have m: "lf_mem ?s b = lf_mem st b" "vw ?s b = vw st b" if "b \<noteq> a" for b using that by (simp_all add: vw_def)
  have na: "b \<noteq> a" if "b \<in> live st \<or> b \<in> ran pend" for b using that u by (auto simp: unused_def)
  have wt: "waiting st (ran pend) w" if "waiting ?s (ran pend) w" for w
    using that m(1) [OF na, of w] by (auto simp: waiting_def)
  show ?thesis
  proof (rule lfinvI)
    fix h
    have "vw ?s b = vw st b" if "b \<in> set (lf_heads st h)" for b using m(2) [OF na] lfinv_heads(1) [OF I that] by blast
    then show "view_ok (vw ?s) (lf_heads ?s h)" using view_ok_cong [of _ "vw ?s" "vw st"] lfinvD(1) [OF I] by simp
    show "lf_head (lf_mem ?s b) = h" if "b \<in> set (lf_heads ?s h)" for b
      using m(1) [OF na, of b] that lfinvD(2) [OF I, of b h] lfinv_heads(1) [OF I, of b h] by simp
  next
    show "wq ?s (ran pend) (live ?s)" unfolding wq_def l
    proof (intro conjI ballI allI impI)
      fix b w assume b: "b \<in> live st" "w \<in> set (lf_blkhd (lf_mem ?s b))"
      then have w: "w \<in> set (lf_blkhd (lf_mem st b))" using m(1) [OF na, of b] by simp
      note d = wqD [OF lfinvD(3) [OF I] b(1) w]
      have "w \<noteq> a" "b \<noteq> a" using lfinvD(7) [OF I b(1) w] na b(1) by auto
      then show "lf_next (lf_mem ?s w) = Some b" "w \<notin> live st" "blocks (vw ?s w) (vw ?s b)" using d m by simp_all
    next
      fix w assume "waiting ?s (ran pend) w"
      from wq_sleeper [OF lfinvD(3) [OF I] wt [OF this]] show "\<exists>b \<in> live st. w \<in> set (lf_blkhd (lf_mem ?s b))"
        using m(1) [OF na] by (metis (no_types))
    qed
  next
    fix w assume "w \<in> ran pend"
    then show "req_ok ?s w" using lfinvD(4) [OF I, of w] m [OF na, of w] by (simp add: req_ok_def l)
  next
    fix b w assume b: "b \<in> live ?s" "w \<in> set (lf_blkhd (lf_mem ?s b))"
    then have "w \<in> ran pend \<and> lf_head (lf_mem st w) = lf_head (lf_mem st b)"
      using lfinvD(7) [OF I, of b w] m(1) [OF na, of b] l by simp
    then show "w \<in> ran pend \<and> lf_head (lf_mem ?s w) = lf_head (lf_mem ?s b)" using m(1) [OF na] b(1) l by simp
  qed (use lfinvD(5,6) [OF I] in \<open>auto\<close>)
qed

text \<open>Before an flock request for an exclusive lock sleeps, the locks of its owner are removed; the blocking lock stays.\<close>

lemma lfinv_release:
  assumes I: "lfinv (st, pend)" and k: "req_ok st lock" "lock \<notin> ran pend" "lf_type (lf_mem st lock) = F_WRLCK"
    and sp: "unused st pend sp" "sp \<noteq> lock" and b: "block \<in> set (lf_heads st (lf_head (lf_mem st lock)))" "blocks (vw st lock) (vw st block)"
  shows "\<exists>st1. lf_clearlock sp lock (upd_lf lock (\<lambda>l. l\<lparr>lf_type := F_UNLCK\<rparr>) st) = Some st1
    \<and> (let st2 = upd_lf lock (\<lambda>l. l\<lparr>lf_type := F_WRLCK\<rparr>) st1 in lfinv (st2, pend) \<and> req_ok st2 lock
        \<and> block \<in> set (lf_heads st2 (lf_head (lf_mem st2 lock))) \<and> blocks (vw st2 lock) (vw st2 block))"
proof -
  let ?s = "upd_lf lock (\<lambda>l. l\<lparr>lf_type := F_UNLCK\<rparr>) st" and ?h = "lf_head (lf_mem st lock)"
  have u: "unused st pend lock" using k by (simp add: unused_def req_ok_def)
  have l: "live ?s = live st" by (simp add: live_def)
  have bl: "block \<noteq> lock" using lfinv_heads(1) [OF I b(1)] u by (auto simp: unused_def)
  have w: "wf_rng (vw ?s lock)" using k(1) by (simp add: req_ok_def wf_rng_def)
  have J: "lfinv (?s, pend)" "unused ?s pend lock" "unused ?s pend sp" "lf_blkhd (lf_mem ?s lock) = []"
    using lfinv_upd_unused [OF I u] u sp k(1) by (simp_all add: unused_def l req_ok_def)
  from clear_inv [OF J(1,2) w J(4,3) sp(2)] obtain st1 l' where c: "lf_clearlock sp lock ?s = Some st1" "lfinv (st1, pend)"
    "frm (set (lf_heads st ?h)) sp ?s st1" "lf_heads st1 = (lf_heads st)(?h := l')"
    "cleared (vw ?s) (lf_heads st ?h) (vw ?s lock) (vw st1) l'" "from_list (set (lf_heads st ?h)) sp (set l') st1" by auto
  let ?t = "upd_lf lock (\<lambda>l. l\<lparr>lf_type := F_WRLCK\<rparr>) st1"
  have lo: "lock \<notin> set (lf_heads st ?h)" "lock \<noteq> sp" using u sp(2) by (auto simp: unused_def live_def)
  have v: "vw ?t lock = vw st lock" "lf_head (lf_mem ?t lock) = ?h" "lf_blkhd (lf_mem ?t lock) = []"
    using frmD(1-3) [OF c(3), of lock] lo k(1,3) by (auto simp: vw_fields req_ok_def)
  have nl: "lock \<notin> live st1"
  proof -
    have "lock \<notin> set l'" using c(6) lo by (auto simp: from_list_def)
    then show ?thesis using u by (auto simp: live_split [of st1 ?h] live_split [of st ?h] others_upd [OF c(4)] c(4) unused_def)
  qed
  then have "unused st1 pend lock" using u by (simp add: unused_def)
  note K = lfinv_upd_unused [OF c(2) this]
  have q: "req_ok ?t lock" using k(1) nl v by (simp add: req_ok_def live_def)
  have o: "r_id (vw ?s block) \<noteq> r_id (vw ?s lock)" "vw ?s block = vw st block"
    using b(2) bl by (auto simp: blocks_def)
  have "block \<in> set (own (vw st1) (r_id (vw ?s block)) l')" "vw st1 block = vw ?s block" using c(5) o(1) b(1) unfolding cleared_def by auto
  then have "block \<in> set (lf_heads ?t ?h)" "vw ?t block = vw st block" using bl o(2) by (simp_all add: c(4))
  then show ?thesis using c(1) K q v b(2) by (simp add: Let_def)
qed

text \<open>What a round of \<open>lf_setlock\<close> leaves behind.\<close>

definition settled :: "(nat \<rightharpoonup> nat) \<Rightarrow> nat \<Rightarrow> nat \<Rightarrow> (lfstate, 'r, nat) outcome \<Rightarrow> bool" where
  "settled pend p lock r \<longleftrightarrow> (case r of Return st _ \<Rightarrow> lfinv (st, pend) | Panic _ \<Rightarrow> False
     | Sleep st w \<Rightarrow> w = lock \<and> lfinv (st, pend(p \<mapsto> lock)))"

lemma getblock_inv:
  assumes "lfinv (st, pend)" "wf_rng (vw st lock)"
  shows "lf_getblock (lf_mem st) (lf_heads st h) lock = Some (find (\<lambda>a. blocks (vw st lock) (vw st a)) (lf_heads st h))"
  unfolding vw_def by (rule getblock_find) (use assms(2) view_okD(1) [OF lfinvD(1) [OF assms(1)]] in \<open>auto simp: vw_def\<close>)

lemma setlock_block:
  assumes I: "lfinv (st, pend)" and k: "req_ok st lock"
  obtains "lf_getblock (lf_mem st) (lf_heads st (lf_head (lf_mem st lock))) lock = Some None"
      "\<forall>a \<in> set (lf_heads st (lf_head (lf_mem st lock))). \<not> blocks (vw st lock) (vw st a)"
    | b where "lf_getblock (lf_mem st) (lf_heads st (lf_head (lf_mem st lock))) lock = Some (Some b)"
      "b \<in> set (lf_heads st (lf_head (lf_mem st lock)))" "blocks (vw st lock) (vw st b)"
proof -
  let ?l = "lf_heads st (lf_head (lf_mem st lock))"
  have G: "lf_getblock (lf_mem st) ?l lock = Some (find (\<lambda>a. blocks (vw st lock) (vw st a)) ?l)"
    using getblock_inv [OF I] k by (simp add: req_ok_def)
  show ?thesis
  proof (cases "find (\<lambda>a. blocks (vw st lock) (vw st a)) ?l")
    case None
    then show ?thesis using that(1) G by (auto simp: find_None_iff)
  next
    case (Some b)
    then have "b \<in> set ?l" "blocks (vw st lock) (vw st b)" by (auto simp: find_Some_iff)
    then show ?thesis using that(2) G Some by simp
  qed
qed

lemma setlock_blocked:
  assumes "lf_getblock (lf_mem st) (lf_heads st (lf_head (lf_mem st lock))) lock = Some (Some b)"
  shows "lf_setlock sp p lock st = (if \<not> has_flag (lf_flags (lf_mem st lock)) F_WAIT then Return (lf_free lock st) (LfError EAGAIN)
      else if has_flag (lf_flags (lf_mem st lock)) F_POSIX \<and> has_flag (lf_flags (lf_mem st b)) F_POSIX
           \<and> lf_cycle maxlockdepth st (lf_id (lf_mem st b)) (lf_id (lf_mem st lock))
      then Return (lf_free lock st) (LfError EDEADLK)
      else case (if has_flag (lf_flags (lf_mem st lock)) F_FLOCK \<and> lf_type (lf_mem st lock) = F_WRLCK
                 then map_option (upd_lf lock (\<lambda>l. l\<lparr>lf_type := F_WRLCK\<rparr>))
                        (lf_clearlock sp lock (upd_lf lock (\<lambda>l. l\<lparr>lf_type := F_UNLCK\<rparr>) st))
                 else Some st) of
             None \<Rightarrow> Panic ''lf_findoverlap: default'' | Some st \<Rightarrow> Sleep (lf_block p lock b st) lock)"
  by (simp add: lf_setlock_def Let_def assms lf_block_def cong: option.case_cong)

lemma setlock_settled:
  assumes I: "lfinv (st, pend)" and k: "req_ok st lock" "lock \<notin> ran pend" "pend p = None" and sp: "unused st pend sp" "sp \<noteq> lock"
  shows "settled pend p lock (lf_setlock sp p lock st)"
  using I k(1)
proof (cases rule: setlock_block)
  case 1
  from link_inv [OF I k(1,2) sp 1(2)] show ?thesis by (auto simp: settled_def lf_setlock_def Let_def 1(1))
next
  case (2 b)
  note B = setlock_blocked [OF 2(1), of sp p]
  show ?thesis
  proof (cases "has_flag (lf_flags (lf_mem st lock)) F_FLOCK \<and> lf_type (lf_mem st lock) = F_WRLCK")
    case True
    from lfinv_release [OF I k(1,2) conjunct2 [OF True] sp 2(2,3)] obtain st1 st2 where
      c: "lf_clearlock sp lock (upd_lf lock (\<lambda>l. l\<lparr>lf_type := F_UNLCK\<rparr>) st) = Some st1" "st2 = upd_lf lock (\<lambda>l. l\<lparr>lf_type := F_WRLCK\<rparr>) st1"
      and J: "lfinv (st2, pend)" "req_ok st2 lock" "b \<in> set (lf_heads st2 (lf_head (lf_mem st2 lock)))" "blocks (vw st2 lock) (vw st2 b)"
      unfolding Let_def by blast
    show ?thesis using block_inv [OF J(1,2) k(2,3) J(3,4)] I unfolding B settled_def if_P [OF True] c by simp
  next
    case False
    then show ?thesis using block_inv [OF I k 2(2,3)] I unfolding B settled_def if_not_P [OF False] by simp
  qed
qed

section \<open>The calls\<close>

text \<open>
  The arguments a caller may pass: a range that does not end at the largest offset, and a lock type for
  a request to lock.
\<close>

definition lf_args :: "int \<Rightarrow> lfop \<Rightarrow> flock \<Rightarrow> bool" where
  "lf_args sz op fl \<longleftrightarrow> (case flock_range sz fl of None \<Rightarrow> True | Some (start, en) \<Rightarrow> start < 2 ^ 63 \<and> en < 2 ^ 63 - 1)
     \<and> (op = OpSetlk \<longrightarrow> l_type fl \<noteq> F_UNLCK)"

lemma flock_range_wf:
  assumes "flock_range sz fl = Some (start, en)" "lf_args sz op fl"
  shows "0 \<le> start" "start < 2 ^ 63" "en = - 1 \<or> start \<le> en \<and> en < 2 ^ 63 - 1"
  using assms by (auto simp: flock_range_def lf_args_def Let_def split: option.splits if_splits)

text \<open>The request that \<open>lf_advlock\<close> fills in.\<close>

definition lf_request :: "nat \<Rightarrow> lfproc \<Rightarrow> nat \<Rightarrow> nat \<Rightarrow> int \<Rightarrow> int \<Rightarrow> lftype \<Rightarrow> u_short \<Rightarrow> lfstate \<Rightarrow> lfstate" where
  "lf_request new p head ident start en ty flags st =
     upd_lf new (\<lambda>l. l\<lparr>lf_start := start, lf_end := en, lf_id := ident, lf_head := head, lf_type := ty,
       lf_next := None, lf_blkhd := [], lf_flags := flags, lf_pid := (if has_flag flags F_POSIX then pr_pid p else - 1)\<rparr>)
     (upd_lf new (\<lambda>l. l\<lparr>lf_uid := pr_uid p\<rparr>) (st\<lparr>ui_lockcnt := (ui_lockcnt st)(pr_uid p := ui_lockcnt st (pr_uid p) + 1)\<rparr>))"

lemma lfinv_count [simp]: "lfinv (st\<lparr>ui_lockcnt := x\<rparr>, pend) = lfinv (st, pend)"
proof -
  have "vw (st\<lparr>ui_lockcnt := x\<rparr>) = vw st" by (simp add: vw_def fun_eq_iff)
  then show ?thesis by (simp add: lfinv_def req_ok_def live_def wq_def waiting_def)
qed

lemma request_fields:
  "lf_heads (lf_request new p head ident start en ty flags st) = lf_heads st"
  "lf_head (lf_mem (lf_request new p head ident start en ty flags st) new) = head"
  "vw (lf_request new p head ident start en ty flags st) = (vw st)(new := \<lparr>r_id = ident, r_start = start, r_end = en, r_type = ty\<rparr>)"
  "lf_blkhd (lf_mem (lf_request new p head ident start en ty flags st) new) = []"
  "lf_flags (lf_mem (lf_request new p head ident start en ty flags st) new) = flags"
  "a \<noteq> new \<Longrightarrow> lf_mem (lf_request new p head ident start en ty flags st) a = lf_mem st a"
  "p_wchan (lf_request new p head ident start en ty flags st) = p_wchan st"
  by (auto simp: lf_request_def vw_def core_def fun_eq_iff)

lemma request_live: "live (lf_request new p head ident start en ty flags st) = live st"
  by (simp add: live_def request_fields)

lemma request_inv:
  assumes "lfinv (st, pend)" "unused st pend new"
  shows "lfinv (lf_request new p head ident start en ty flags st, pend)"
    "unused (lf_request new p head ident start en ty flags st) pend a \<longleftrightarrow> unused st pend a"
proof -
  let ?c = "st\<lparr>ui_lockcnt := (ui_lockcnt st)(pr_uid p := ui_lockcnt st (pr_uid p) + 1)\<rparr>"
  have u: "unused ?c pend new" "unused (upd_lf new (\<lambda>l. l\<lparr>lf_uid := pr_uid p\<rparr>) ?c) pend new"
    using assms(2) by (simp_all add: unused_def live_def)
  show "lfinv (lf_request new p head ident start en ty flags st, pend)" unfolding lf_request_def
    by (intro lfinv_upd_unused u) (simp add: assms(1))
  show "unused (lf_request new p head ident start en ty flags st) pend a \<longleftrightarrow> unused st pend a"
    by (simp add: unused_def request_live)
qed

lemma request_ok:
  assumes "unused st pend new" "flock_range sz fl = Some (start, en)" "lf_args sz op fl" "ty \<noteq> F_UNLCK"
  shows "req_ok (lf_request new p head ident start en ty flags st) new"
  using assms flock_range_wf [OF assms(2,3)] by (auto simp: req_ok_def request_live request_fields unused_def wf_rng_def)

lemma advlock_eq:
  assumes "flock_range sz fl = Some (start, en)" "lf_alloc new (pr_uid p) (if op = OpSetlk then 1 else 2) st \<noteq> None"
    and "op = OpSetlk \<or> lf_heads st head \<noteq> []"
  shows "lf_advlock new sp p head sz ident op fl flags st =
    (let st1 = lf_request new p head ident start en (l_type fl) flags st in
     case op of
       OpSetlk \<Rightarrow> (case lf_setlock sp (pr_addr p) new st1 of
           Return st r \<Rightarrow> Return st (r, fl) | Panic m \<Rightarrow> Panic m | Sleep st k \<Rightarrow> Sleep st k)
     | OpUnlck \<Rightarrow> (case lf_clearlock sp new st1 of
           None \<Rightarrow> Panic ''lf_findoverlap: default'' | Some st \<Rightarrow> Return (lf_free new st) (LfOk, fl))
     | OpGetlk \<Rightarrow> (case lf_getlock new fl st1 of
           None \<Rightarrow> Panic ''lf_findoverlap: default'' | Some fl \<Rightarrow> Return (lf_free new st1) (LfOk, fl))
     | OpOther \<Rightarrow> Return (lf_free new st1) (LfError EINVAL, fl))"
  using assms unfolding lf_advlock_def lf_alloc_def lf_request_def
  by (auto simp: Let_def split: if_splits)

lemma advlock_refused:
  assumes "\<not> (\<exists>start en. flock_range sz fl = Some (start, en) \<and> (op = OpSetlk \<or> lf_heads st head \<noteq> [])
      \<and> lf_alloc new (pr_uid p) (if op = OpSetlk then 1 else 2) st \<noteq> None)"
  shows "\<exists>r. lf_advlock new sp p head sz ident op fl flags st = Return st r"
proof (cases "flock_range sz fl")
  case None
  then show ?thesis by (simp add: lf_advlock_def)
next
  case (Some x)
  then show ?thesis using assms by (cases x) (auto simp: lf_advlock_def)
qed

lemma advlock_settled:
  assumes I: "lfinv (st, pend)" and u: "unused st pend new" "unused st pend sp" "sp \<noteq> new" "pend (pr_addr p) = None"
    and a: "lf_args sz op fl"
  shows "settled pend (pr_addr p) new (lf_advlock new sp p head sz ident op fl flags st)"
proof (cases "\<exists>start en. flock_range sz fl = Some (start, en) \<and> (op = OpSetlk \<or> lf_heads st head \<noteq> [])
      \<and> lf_alloc new (pr_uid p) (if op = OpSetlk then 1 else 2) st \<noteq> None")
  case False
  from advlock_refused [OF this] obtain r where "lf_advlock new sp p head sz ident op fl flags st = Return st r" by blast
  then show ?thesis using I by (simp add: settled_def)
next
  case True
  then obtain start en where r: "flock_range sz fl = Some (start, en)" "op = OpSetlk \<or> lf_heads st head \<noteq> []"
    "lf_alloc new (pr_uid p) (if op = OpSetlk then 1 else 2) st \<noteq> None" by blast
  let ?s = "lf_request new p head ident start en (l_type fl) flags st"
  note E = advlock_eq [OF r(1,3,2), where sp = sp and ident = ident and flags = flags]
  note J = request_inv [OF I u(1), where p = p and head = head and ident = ident and start = start and en = en
      and ty = "l_type fl" and flags = flags]
  have ws: "wf_rng (vw ?s new)" using flock_range_wf [OF r(1) a] by (simp add: request_fields wf_rng_def)
  show ?thesis
  proof (cases op)
    case OpSetlk
    have "req_ok ?s new" using request_ok [OF u(1) r(1) a] a OpSetlk by (simp add: lf_args_def)
    from setlock_settled [OF J(1) this] have "settled pend (pr_addr p) new (lf_setlock sp (pr_addr p) new ?s)"
      using u J(2) by (simp add: unused_def)
    then show ?thesis unfolding E unfolding OpSetlk Let_def by (auto simp: settled_def split: outcome.splits)
  next
    case OpUnlck
    from clear_inv [OF J(1) _ ws] obtain st' where "lf_clearlock sp new ?s = Some st'" "lfinv (st', pend)"
      using u J(2) by (auto simp: request_fields)
    then show ?thesis unfolding E unfolding OpUnlck Let_def by (simp add: settled_def)
  next
    case OpGetlk
    have "lf_getblock (lf_mem ?s) (lf_heads ?s (lf_head (lf_mem ?s new))) new \<noteq> None"
      by (simp add: getblock_inv [OF J(1) ws])
    then show ?thesis unfolding E unfolding OpGetlk Let_def using J(1) by (auto simp: settled_def lf_getlock_def Let_def split: option.split)
  next
    case OpOther
    show ?thesis unfolding E unfolding OpOther Let_def using J(1) by (simp add: settled_def)
  qed
qed

lemma woken_settled:
  assumes I: "lfinv (st, pend)" and k: "pend p = Some lock" and sp: "unused st pend sp"
  shows "settled (pend(p := None)) p lock (lf_setlock_woken sp p lock error st)"
proof -
  have E: "lf_setlock_woken sp p lock error st = (case error of Some e \<Rightarrow> Return (lf_free lock (lf_unblock p lock st)) (LfError e)
      | None \<Rightarrow> lf_setlock sp p lock (lf_unblock p lock st))"
    by (simp add: lf_setlock_woken_def lf_unblock_def Let_def cong: option.case_cong)
  note J = unblock_inv [OF I k]
  have "lock \<in> ran pend" using k by (rule ranI)
  then have "sp \<noteq> lock" "unused (lf_unblock p lock st) (pend(p := None)) sp"
    using sp by (auto simp: unused_def same_core_live [OF unblock_same] ran_def)
  with setlock_settled [of _ "pend(p := None)" lock p sp] J show ?thesis by (auto simp: E settled_def split: option.split)
qed

end
