(* ===== verification/Lockf_Calls.thy ===== *)
theory Lockf_Calls
  imports Lockf_Steps
begin

text \<open>
  The properties of record locks. The reachable states are those of a step relation whose steps are the
  calls, the signals and the returns from \<open>tsleep\<close> of all processes in any order; each call refines an
  update of the map that gives, for an inode, an owner and a byte, the type of the lock held.
\<close>

section \<open>The step relation\<close>

datatype lf_event =
    LfCall nat nat lfproc nat int nat lfop flock u_short
  | LfSignal nat
  | LfWake nat nat "errno option"

definition lf_ready :: "nat \<Rightarrow> nat \<Rightarrow> nat \<Rightarrow> lfstate \<times> (nat \<rightharpoonup> nat) \<Rightarrow> bool" where
  "lf_ready new sp p = (\<lambda>(st, pend). unused st pend new \<and> unused st pend sp \<and> sp \<noteq> new \<and> pend p = None)"

inductive lf_step :: "lfstate \<times> (nat \<rightharpoonup> nat) \<Rightarrow> lf_event \<Rightarrow> lfstate \<times> (nat \<rightharpoonup> nat) \<Rightarrow> bool" where
  call_returns: "lf_ready new sp (pr_addr p) (st, pend) \<Longrightarrow> lf_args sz op fl
    \<Longrightarrow> lf_advlock new sp p head sz ident op fl flags st = Return st' r
    \<Longrightarrow> lf_step (st, pend) (LfCall new sp p head sz ident op fl flags) (st', pend)"
| call_sleeps: "lf_ready new sp (pr_addr p) (st, pend) \<Longrightarrow> lf_args sz op fl
    \<Longrightarrow> lf_advlock new sp p head sz ident op fl flags st = Sleep st' w
    \<Longrightarrow> lf_step (st, pend) (LfCall new sp p head sz ident op fl flags) (st', pend(pr_addr p \<mapsto> w))"
| signal: "pend p = Some w \<Longrightarrow> lf_step (st, pend) (LfSignal p) (st\<lparr>p_wchan := (p_wchan st)(p := None)\<rparr>, pend)"
| wake_returns: "pend p = Some w \<Longrightarrow> p_wchan st p = None \<Longrightarrow> unused st pend sp
    \<Longrightarrow> lf_setlock_woken sp p w error st = Return st' r \<Longrightarrow> lf_step (st, pend) (LfWake sp p error) (st', pend(p := None))"
| wake_sleeps: "pend p = Some w \<Longrightarrow> p_wchan st p = None \<Longrightarrow> unused st pend sp
    \<Longrightarrow> lf_setlock_woken sp p w error st = Sleep st' w' \<Longrightarrow> lf_step (st, pend) (LfWake sp p error) (st', pend(p \<mapsto> w'))"

lemma lf_signal_inv:
  assumes I: "lfinv (st, pend)"
  shows "lfinv (st\<lparr>p_wchan := (p_wchan st)(p := None)\<rparr>, pend)"
proof (rule lfinv_same [OF I])
  let ?s = "st\<lparr>p_wchan := (p_wchan st)(p := None)\<rparr>"
  have "vw ?s = vw st" by (simp add: vw_def fun_eq_iff)
  then show "wq ?s (ran pend) (live st)"
    using lfinvD(3) [OF I] unfolding wq_def waiting_def by (auto split: if_splits)
  show "same_core st ?s" by (simp add: same_core_def)
  show "inj_on pend (dom pend)" by (rule lfinvD(6) [OF I])
  show "pend q = Some w" if "p_wchan ?s q = Some w" for q w using that lfinvD(5) [OF I] by (simp split: if_splits)
  show "req_ok st w \<and> lf_blkhd (lf_mem ?s w) = []" if "w \<in> ran pend" for w using lfinvD(4) [OF I that] by (simp add: req_ok_def)
  show "w \<in> ran pend \<and> lf_head (lf_mem st w) = lf_head (lf_mem st b)"
    if "b \<in> live st" "w \<in> set (lf_blkhd (lf_mem ?s b))" for b w using lfinvD(7) [OF I that(1)] that(2) by simp
qed

lemma lf_step_inv:
  assumes "lfinv s" "lf_step s e s'"
  shows "lfinv s'"
  using assms(2,1)
proof cases
  case (call_returns new sp p st pend sz op fl head ident flags st' r)
  then show ?thesis using advlock_settled [of st pend new sp p sz op fl head ident flags] assms(1)
    by (simp add: settled_def lf_ready_def)
next
  case (call_sleeps new sp p st pend sz op fl head ident flags st' w)
  then show ?thesis using advlock_settled [of st pend new sp p sz op fl head ident flags] assms(1)
    by (simp add: settled_def lf_ready_def)
next
  case (signal pend p w st)
  then show ?thesis using lf_signal_inv assms(1) by simp
next
  case (wake_returns pend p w st sp error st' r)
  then show ?thesis using woken_settled [of st pend p w sp error] assms(1) by (simp add: settled_def)
next
  case (wake_sleeps pend p w st sp error st' w')
  then show ?thesis using woken_settled [of st pend p w sp error] assms(1) by (simp add: settled_def)
qed

interpretation lf: inv_system lf_step lfinv
  by unfold_locales (rule lf_step_inv)

definition lf_fresh :: "lfstate \<Rightarrow> bool" where
  "lf_fresh st \<longleftrightarrow> (\<forall>h. lf_heads st h = []) \<and> (\<forall>p. p_wchan st p = None)"

definition lf_reach :: "lfstate \<Rightarrow> (nat \<rightharpoonup> nat) \<Rightarrow> bool" where
  "lf_reach st pend \<longleftrightarrow> (\<exists>st0 evs. lf_fresh st0 \<and> lrun lf_step (st0, Map.empty) evs (st, pend))"

lemma lf_fresh_inv: "lf_fresh st \<Longrightarrow> lfinv (st, Map.empty)"
  by (simp add: lf_fresh_def lfinv_def live_def wq_def waiting_def)

lemma reach_inv: "lf_reach st pend \<Longrightarrow> lfinv (st, pend)"
  unfolding lf_reach_def using lf.run_inv lf_fresh_inv by blast

lemma reach_fresh: "lf_fresh st \<Longrightarrow> lf_reach st Map.empty"
  unfolding lf_reach_def by (intro exI [of _ st] exI [of _ "[]"]) simp

lemma reach_step: "lf_reach st pend \<Longrightarrow> lf_step (st, pend) e (st', pend') \<Longrightarrow> lf_reach st' pend'"
  unfolding lf_reach_def using lrun_snoc by metis

section \<open>The locks as a map\<close>

definition locked :: "lfstate \<Rightarrow> nat \<Rightarrow> nat \<Rightarrow> int \<Rightarrow> lftype option" where
  "locked st h i b = map_option (\<lambda>a. lf_type (lf_mem st a)) (find (\<lambda>a. lf_id (lf_mem st a) = i \<and> covers (vw st a) b) (lf_heads st h))"

definition in_range :: "int \<Rightarrow> int \<Rightarrow> int \<Rightarrow> bool" where
  "in_range start en b \<longleftrightarrow> start \<le> b \<and> (en = - 1 \<or> b \<le> en)"

definition set_range :: "nat \<Rightarrow> nat \<Rightarrow> int \<Rightarrow> int \<Rightarrow> lftype option \<Rightarrow> (nat \<Rightarrow> nat \<Rightarrow> int \<Rightarrow> lftype option)
    \<Rightarrow> nat \<Rightarrow> nat \<Rightarrow> int \<Rightarrow> lftype option" where
  "set_range head ident start en v L = (\<lambda>h i b. if h = head \<and> i = ident \<and> in_range start en b then v else L h i b)"

text \<open>Another owner holds a lock on a byte of the range, and one of the two locks is exclusive.\<close>

definition conflicts :: "(nat \<Rightarrow> nat \<Rightarrow> int \<Rightarrow> lftype option) \<Rightarrow> nat \<Rightarrow> nat \<Rightarrow> int \<Rightarrow> int \<Rightarrow> lftype \<Rightarrow> bool" where
  "conflicts L head ident start en ty \<longleftrightarrow>
     (\<exists>j b t. j \<noteq> ident \<and> in_range start en b \<and> L head j b = Some t \<and> (ty = F_WRLCK \<or> t = F_WRLCK))"

lemma locked_held:
  assumes "view_ok (vw st) (lf_heads st h)"
  shows "locked st h i b = Some ty \<longleftrightarrow> held (vw st) (lf_heads st h) i b ty"
proof -
  let ?P = "\<lambda>a. lf_id (lf_mem st a) = i \<and> covers (vw st a) b" and ?l = "lf_heads st h"
  have uniq: "a = c" if "a \<in> set ?l" "?P a" "c \<in> set ?l" "?P c" for a c
    using chain_unique [of "vw st" "own (vw st) i ?l" a c b] assms that by (simp add: view_ok_def vw_fields)
  show ?thesis
  proof (cases "find ?P ?l")
    case None
    then have "\<forall>a \<in> set ?l. \<not> ?P a" by (auto simp: find_None_iff)
    then have "\<not> held (vw st) ?l i b ty" unfolding held_def vw_fields by blast
    then show ?thesis using None by (simp add: locked_def)
  next
    case (Some a)
    then have a: "a \<in> set ?l" "?P a" by (auto simp: find_Some_iff)
    have "held (vw st) ?l i b ty \<longleftrightarrow> lf_type (lf_mem st a) = ty"
      unfolding held_def vw_fields using a uniq [OF a] by (metis (no_types, lifting))
    then show ?thesis using Some by (simp add: locked_def)
  qed
qed

lemma option_ext: "(\<And>v. x = Some v \<longleftrightarrow> y = Some v) \<Longrightarrow> x = y"
  by (cases x; cases y) auto

text \<open>What a change of one list means for the map.\<close>

lemma locked_relist:
  assumes I: "lfinv (st, pend)" "lfinv (st', pend)" and F: "frm A sp st st'" "A \<inter> others st head = {}" "unused st pend sp"
    and L: "lf_heads st' = (lf_heads st)(head := l')"
    and H: "\<And>i b ty. held (vw st') l' i b ty
      \<longleftrightarrow> (if i = ident \<and> in_range start en b then v = Some ty else held (vw st) (lf_heads st head) i b ty)"
  shows "locked st' = set_range head ident start en v (locked st)"
proof (intro ext)
  fix h i b
  show "locked st' h i b = set_range head ident start en v (locked st) h i b"
  proof (rule option_ext)
    fix ty
    have S: "locked st h i b = Some ty \<longleftrightarrow> held (vw st) (lf_heads st h) i b ty" by (rule locked_held [OF lfinvD(1) [OF I(1)]])
    have "locked st' h i b = Some ty \<longleftrightarrow> held (vw st') (lf_heads st' h) i b ty" by (rule locked_held [OF lfinvD(1) [OF I(2)]])
    moreover have "held (vw st') (lf_heads st h) i b ty \<longleftrightarrow> held (vw st) (lf_heads st h) i b ty" if "h \<noteq> head"
    proof -
      have "vw st' a = vw st a" if "a \<in> set (lf_heads st h)" for a
        using that \<open>h \<noteq> head\<close> F(2,3) frmD(2) [OF F(1), of a] by (auto simp: others_def unused_def live_def)
      then show ?thesis by (simp add: held_def cong: bex_cong)
    qed
    ultimately show "locked st' h i b = Some ty \<longleftrightarrow> set_range head ident start en v (locked st) h i b = Some ty"
      using H [of i b ty] S by (auto simp: set_range_def L)
  qed
qed

lemma request_locked:
  assumes "unused st pend new"
  shows "locked (lf_request new p head ident start en ty flags st) = locked st"
proof (intro ext)
  fix h i b
  let ?s = "lf_request new p head ident start en ty flags st"
  have m: "lf_mem ?s a = lf_mem st a" "vw ?s a = vw st a" if "a \<in> set (lf_heads st h)" for a
  proof -
    have "a \<noteq> new" using that assms by (auto simp: unused_def live_def)
    then show "lf_mem ?s a = lf_mem st a" "vw ?s a = vw st a" by (simp_all add: request_fields)
  qed
  have f: "find (\<lambda>a. lf_id (lf_mem ?s a) = i \<and> covers (vw ?s a) b) (lf_heads st h)
      = find (\<lambda>a. lf_id (lf_mem st a) = i \<and> covers (vw st a) b) (lf_heads st h)"
    by (rule find_cong) (simp_all add: m)
  have "lf_type (lf_mem ?s a) = lf_type (lf_mem st a)"
    if "find (\<lambda>a. lf_id (lf_mem st a) = i \<and> covers (vw st a) b) (lf_heads st h) = Some a" for a
    using that m by (auto simp: find_Some_iff)
  then show "locked ?s h i b = locked st h i b"
    unfolding locked_def request_fields(1) f by (auto intro: option.map_cong)
qed

lemma free_locked [simp]: "locked (lf_free a st) = locked st"
  by (simp add: locked_def fun_eq_iff)

lemma conflicts_blocks:
  assumes I: "lfinv (st, pend)" and w: "wf_rng r"
  shows "conflicts (locked st) head (r_id r) (r_start r) (r_end r) (r_type r) \<longleftrightarrow> (\<exists>a \<in> set (lf_heads st head). blocks r (vw st a))"
proof -
  have c: "in_range (r_start r) (r_end r) b \<longleftrightarrow> covers r b" for b by (simp add: in_range_def covers_def)
  have "blocks r (vw st a) \<longleftrightarrow> r_id (vw st a) \<noteq> r_id r \<and> (\<exists>b. covers (vw st a) b \<and> covers r b)
      \<and> (r_type r = F_WRLCK \<or> r_type (vw st a) = F_WRLCK)" if "a \<in> set (lf_heads st head)" for a
    using overlaps_covers [OF view_okD(1) [OF lfinvD(1) [OF I] that] w] by (simp add: blocks_def)
  then show ?thesis
    unfolding conflicts_def c locked_held [OF lfinvD(1) [OF I]] held_def by (metis (no_types, lifting))
qed

lemma setlock_exact:
  assumes I: "lfinv (st, pend)" and k: "req_ok st lock" "lock \<notin> ran pend" "pend p = None" and sp: "unused st pend sp" "sp \<noteq> lock"
    and n: "\<forall>a \<in> set (lf_heads st (lf_head (lf_mem st lock))). \<not> blocks (vw st lock) (vw st a)"
  shows "\<exists>st'. lf_setlock sp p lock st = Return st' LfOk
    \<and> locked st' = set_range (lf_head (lf_mem st lock)) (lf_id (lf_mem st lock)) (lf_start (lf_mem st lock)) (lf_end (lf_mem st lock))
        (Some (lf_type (lf_mem st lock))) (locked st)"
proof -
  let ?h = "lf_head (lf_mem st lock)"
  from link_inv [OF I k(1,2) sp n] obtain st' l' where s: "lf_link sp lock [] (lf_heads st ?h) True st = Some st'"
    "lfinv (st', pend)" "frm (insert lock (set (lf_heads st ?h))) sp st st'" "lf_heads st' = (lf_heads st)(?h := l')"
    "linked (vw st) (lf_heads st ?h) (vw st lock) (vw st') l'" by blast
  have "lf_setlock sp p lock st = Return st' LfOk"
    by (rule setlock_block [OF I k(1)]) (use n in \<open>auto simp: lf_setlock_def Let_def s(1)\<close>)
  moreover have "lock \<notin> others st ?h" using k(1) by (auto simp: req_ok_def live_split [of st ?h])
  then have dis: "insert lock (set (lf_heads st ?h)) \<inter> others st ?h = {}" using others_disjoint [OF I] by simp
  have "locked st' = set_range ?h (lf_id (lf_mem st lock)) (lf_start (lf_mem st lock)) (lf_end (lf_mem st lock))
      (Some (lf_type (lf_mem st lock))) (locked st)"
    by (rule locked_relist [OF I s(2,3) dis sp(1) s(4)])
      (auto simp: linked_held [OF s(5)] vw_fields covers_def in_range_def)
  ultimately show ?thesis by blast
qed

section \<open>The deadlock check\<close>

text \<open>
  One hop of the walk: from a process to the owner of the lock it waits for. As in the code, the owner
  of a POSIX lock is taken to be the address of a process.
\<close>

definition waits_for :: "lfstate \<Rightarrow> nat \<Rightarrow> nat option" where
  "waits_for st p = (case p_wchan st p of None \<Rightarrow> None | Some req \<Rightarrow> (case lf_next (lf_mem st req) of None \<Rightarrow> None
     | Some wb \<Rightarrow> if has_flag (lf_flags (lf_mem st wb)) F_POSIX then Some (lf_id (lf_mem st wb)) else None))"

primrec hops :: "lfstate \<Rightarrow> nat \<Rightarrow> nat \<Rightarrow> nat option" where
  "hops st 0 p = Some p"
| "hops st (Suc n) p = Option.bind (waits_for st p) (hops st n)"

lemma cycle_hops: "lf_cycle n st p me \<longleftrightarrow> (\<exists>k. 1 \<le> k \<and> k \<le> n \<and> hops st k p = Some me)"
proof (induction n arbitrary: p)
  case (Suc n)
  have step: "(\<exists>k. 1 \<le> k \<and> k \<le> Suc n \<and> hops st k p = Some me)
      \<longleftrightarrow> (\<exists>q. waits_for st p = Some q \<and> (\<exists>k \<le> n. hops st k q = Some me))"
  proof
    assume "\<exists>k. 1 \<le> k \<and> k \<le> Suc n \<and> hops st k p = Some me"
    then obtain k where "1 \<le> k" "k \<le> Suc n" "hops st k p = Some me" by blast
    then show "\<exists>q. waits_for st p = Some q \<and> (\<exists>k \<le> n. hops st k q = Some me)"
      by (cases k) (auto split: bind_splits)
  next
    assume "\<exists>q. waits_for st p = Some q \<and> (\<exists>k \<le> n. hops st k q = Some me)"
    then obtain q k where "waits_for st p = Some q" "k \<le> n" "hops st k q = Some me" by blast
    then show "\<exists>k. 1 \<le> k \<and> k \<le> Suc n \<and> hops st k p = Some me" by (intro exI [of _ "Suc k"]) simp
  qed
  have "(\<exists>k \<le> n. hops st k q = Some me) \<longleftrightarrow> q = me \<or> lf_cycle n st q me" for q
  proof -
    have "(\<exists>k \<le> n. hops st k q = Some me) \<longleftrightarrow> hops st 0 q = Some me \<or> (\<exists>k. 1 \<le> k \<and> k \<le> n \<and> hops st k q = Some me)"
      by (metis One_nat_def Suc_leI le_zero_eq linorder_le_less_linear not_one_le_zero zero_le)
    then show ?thesis using Suc by simp
  qed
  then show ?case unfolding step by (auto simp: waits_for_def split: option.splits)
qed simp

lemma lf_cycle_awake: "p_wchan st p = None \<Longrightarrow> \<not> lf_cycle n st p me"
  by (cases n) simp_all

lemma request_hops:
  assumes I: "lfinv (st, pend)" and u: "unused st pend new"
  shows "hops (lf_request new p head ident start en ty flags st) n q = hops st n q"
proof -
  let ?s = "lf_request new p head ident start en ty flags st"
  have "waits_for ?s q = waits_for st q" for q
  proof (cases "p_wchan st q")
    case (Some w)
    then have w: "w \<in> ran pend" using lfinvD(5) [OF I] by (auto simp: ran_def)
    then have m: "lf_mem ?s w = lf_mem st w" using u by (intro request_fields(6)) (auto simp: unused_def)
    have "lf_mem ?s b = lf_mem st b" if "lf_next (lf_mem st w) = Some b" for b
      using pending_next(1) [OF I w that] u by (intro request_fields(6)) (auto simp: unused_def)
    then show ?thesis using Some m by (auto simp: waits_for_def request_fields(7) split: option.split)
  qed (simp add: waits_for_def request_fields)
  then show ?thesis by (induction n arbitrary: q) (auto split: bind_splits)
qed

section \<open>Properties\<close>

text \<open>
  In every reachable state two owners never hold locks on the same byte of an inode of which one is
  exclusive.
\<close>

lemma reach_exclusion:
  assumes "lf_reach st pend" "locked st h i b = Some F_WRLCK" "locked st h j b = Some ty"
  shows "i = j"
  using exclusiveD [of "vw st" "lf_heads st h" i b j ty] lfinvD(1) [OF reach_inv [OF assms(1)], of h] assms(2,3)
  by (simp add: locked_held view_ok_def)

text \<open>
  In every reachable state a process that sleeps in \<open>lf_setlock\<close> is on the list of blocked requests of
  a lock that is held on the inode and conflicts with its request, so that releasing or changing
  that lock wakes it.
\<close>

lemma reach_sleeper:
  assumes "lf_reach st pend" "p_wchan st p = Some w"
  shows "\<exists>b \<in> set (lf_heads st (lf_head (lf_mem st w))). w \<in> set (lf_blkhd (lf_mem st b))
    \<and> lf_next (lf_mem st w) = Some b \<and> blocks (vw st w) (vw st b)"
proof -
  note I = reach_inv [OF assms(1)]
  have "waiting st (ran pend) w" using assms(2) by (auto simp: waiting_def)
  from wq_sleeper [OF lfinvD(3) [OF I] this] obtain b where b: "b \<in> live st" "w \<in> set (lf_blkhd (lf_mem st b))" .
  then have "b \<in> set (lf_heads st (lf_head (lf_mem st b)))" using lfinvD(2) [OF I, of b] by (auto simp: live_def)
  then show ?thesis using b wqD [OF lfinvD(3) [OF I] b] lfinvD(7) [OF I b] by auto
qed

text \<open>
  C31. A request to lock refines an update of the map of locks. When no other owner holds a conflicting
  lock it returns 0 and the owner then holds exactly the requested type on the requested bytes, whatever it
  held there before, while all else is unchanged; with a conflict and without \<open>F_WAIT\<close> it returns
  \<open>EAGAIN\<close> and changes nothing. A request that conflicts and may wait is not covered here.
\<close>

theorem lockf_set_refines:
  assumes "lf_reach st pend" "lf_ready new sp (pr_addr p) (st, pend)" "lf_args sz OpSetlk fl"
    and "flock_range sz fl = Some (start, en)" "lf_alloc new (pr_uid p) 1 st \<noteq> None"
    and "conflicts (locked st) head ident start en (l_type fl) \<longrightarrow> \<not> has_flag flags F_WAIT"
  shows "\<exists>st'. lf_advlock new sp p head sz ident OpSetlk fl flags st
      = Return st' (if conflicts (locked st) head ident start en (l_type fl) then LfError EAGAIN else LfOk, fl)
    \<and> locked st' = (if conflicts (locked st) head ident start en (l_type fl) then locked st
        else set_range head ident start en (Some (l_type fl)) (locked st))"
proof -
  let ?s = "lf_request new p head ident start en (l_type fl) flags st"
  note I = reach_inv [OF assms(1)]
  have u: "unused st pend new" "unused st pend sp" "sp \<noteq> new" "pend (pr_addr p) = None" using assms(2) by (simp_all add: lf_ready_def)
  note J = request_inv [OF I u(1), where p = p and head = head and ident = ident and start = start and en = en
      and ty = "l_type fl" and flags = flags]
  have q: "req_ok ?s new" using request_ok [OF u(1) assms(4,3)] assms(3) by (simp add: lf_args_def)
  have E: "lf_advlock new sp p head sz ident OpSetlk fl flags st = (case lf_setlock sp (pr_addr p) new ?s of
      Return st r \<Rightarrow> Return st (r, fl) | Panic m \<Rightarrow> Panic m | Sleep st k \<Rightarrow> Sleep st k)"
    using advlock_eq [OF assms(4), of new p OpSetlk st head] assms(5) by (simp add: Let_def)
  have L: "locked ?s = locked st" by (rule request_locked [OF u(1)])
  have C: "conflicts (locked st) head ident start en (l_type fl)
      \<longleftrightarrow> (\<exists>a \<in> set (lf_heads ?s (lf_head (lf_mem ?s new))). blocks (vw ?s new) (vw ?s a))"
    using conflicts_blocks [OF J(1), of "vw ?s new" head] q L by (simp add: request_fields req_ok_def)
  have nr: "new \<notin> ran pend" "unused ?s pend sp" using u by (simp_all add: unused_def request_live)
  have f: "lf_id (lf_mem ?s new) = ident" "lf_start (lf_mem ?s new) = start" "lf_end (lf_mem ?s new) = en" "lf_type (lf_mem ?s new) = l_type fl"
    by (simp_all add: lf_request_def)
  show ?thesis
  proof (cases "conflicts (locked st) head ident start en (l_type fl)")
    case True
    have "lf_setlock sp (pr_addr p) new ?s = Return (lf_free new ?s) (LfError EAGAIN)"
      by (rule setlock_block [OF J(1) q]) (use True C assms(6) in \<open>auto simp: lf_setlock_def Let_def request_fields\<close>)
    then show ?thesis using True L E by simp
  next
    case False
    with C have "\<forall>a \<in> set (lf_heads ?s (lf_head (lf_mem ?s new))). \<not> blocks (vw ?s new) (vw ?s a)" by blast
    from setlock_exact [OF J(1) q nr(1) u(4) nr(2) u(3) this] False L E show ?thesis
      by (auto simp: request_fields f)
  qed
qed

lemma unlock_exact:
  assumes "lf_reach st pend" "lf_ready new sp (pr_addr p) (st, pend)" "lf_args sz OpUnlck fl"
    and "flock_range sz fl = Some (start, en)" "lf_alloc new (pr_uid p) 2 st \<noteq> None"
  shows "\<exists>st' fl'. lf_advlock new sp p head sz ident OpUnlck fl flags st = Return st' (LfOk, fl')
    \<and> locked st' = set_range head ident start en None (locked st)"
proof (cases "lf_heads st head = []")
  case True
  then have "lf_advlock new sp p head sz ident OpUnlck fl flags st = Return st (LfOk, fl\<lparr>l_type := F_UNLCK\<rparr>)"
    by (simp add: lf_advlock_def assms(4))
  moreover have "locked st = set_range head ident start en None (locked st)"
    using True by (auto simp: set_range_def locked_def fun_eq_iff)
  ultimately show ?thesis by blast
next
  case False
  let ?s = "lf_request new p head ident start en (l_type fl) flags st"
  note I = reach_inv [OF assms(1)]
  have u: "unused st pend new" "unused st pend sp" "sp \<noteq> new" using assms(2) by (simp_all add: lf_ready_def)
  note J = request_inv(1) [OF I u(1), of p head ident start en "l_type fl" flags]
  have U: "unused ?s pend new" "unused ?s pend sp" using u by (simp_all add: unused_def request_live)
  have E: "lf_advlock new sp p head sz ident OpUnlck fl flags st = (case lf_clearlock sp new ?s of
      None \<Rightarrow> Panic ''lf_findoverlap: default'' | Some st \<Rightarrow> Return (lf_free new st) (LfOk, fl))"
    using advlock_eq [OF assms(4), of new p OpUnlck st head] assms(5) False by (simp add: Let_def)
  have w: "wf_rng (vw ?s new)" using flock_range_wf [OF assms(4,3)] by (simp add: request_fields wf_rng_def)
  from clear_inv [OF J U(1) w _ U(2) u(3)] obtain st' l' where s: "lf_clearlock sp new ?s = Some st'" "lfinv (st', pend)"
    "frm (set (lf_heads ?s head)) sp ?s st'" "lf_heads st' = (lf_heads ?s)(head := l')"
    "cleared (vw ?s) (lf_heads ?s head) (vw ?s new) (vw st') l'" by (auto simp: request_fields)
  have "locked st' = set_range head ident start en None (locked ?s)"
    by (rule locked_relist [OF J s(2,3) others_disjoint [OF J] U(2) s(4)])
      (auto simp: cleared_held [OF s(5)] request_fields(3) covers_def in_range_def)
  then show ?thesis using E s(1) request_locked [OF u(1)] by simp
qed

text \<open>
  C32. A request to unlock refines the removal of the requested bytes from the locks of the owner on the
  inode; all else is unchanged.
\<close>

theorem lockf_unlock_refines:
  assumes "lf_reach st pend" "lf_ready new sp (pr_addr p) (st, pend)" "lf_args sz OpUnlck fl"
    and "flock_range sz fl = Some (start, en)" "lf_alloc new (pr_uid p) 2 st \<noteq> None"
  shows "\<exists>st' fl'. lf_advlock new sp p head sz ident OpUnlck fl flags st = Return st' (LfOk, fl')
    \<and> locked st' = set_range head ident start en None (locked st)"
  by (rule unlock_exact [OF assms])

text \<open>
  C35. A query never panics and changes no lock. It reports \<open>F_UNLCK\<close> exactly when the lock could be set;
  otherwise it describes a lock that another owner holds on every byte of the range reported, and that conflicts.
\<close>

theorem lockf_query_exact:
  assumes "lf_reach st pend" "lf_ready new sp (pr_addr p) (st, pend)" "lf_args sz OpGetlk fl"
    and "flock_range sz fl = Some (start, en)" "lf_alloc new (pr_uid p) 2 st \<noteq> None" "l_type fl \<noteq> F_UNLCK"
  shows "\<exists>st' fl'. lf_advlock new sp p head sz ident OpGetlk fl flags st = Return st' (LfOk, fl') \<and> locked st' = locked st
    \<and> (l_type fl' = F_UNLCK \<longleftrightarrow> \<not> conflicts (locked st) head ident start en (l_type fl))
    \<and> (l_type fl' \<noteq> F_UNLCK \<longrightarrow> (l_type fl = F_WRLCK \<or> l_type fl' = F_WRLCK)
        \<and> (\<exists>j. j \<noteq> ident \<and> (\<forall>b. l_start fl' \<le> b \<and> (l_len fl' = 0 \<or> b < l_start fl' + l_len fl') \<longrightarrow> locked st head j b = Some (l_type fl'))))"
proof (cases "lf_heads st head = []")
  case True
  then have "lf_advlock new sp p head sz ident OpGetlk fl flags st = Return st (LfOk, fl\<lparr>l_type := F_UNLCK\<rparr>)"
    by (simp add: lf_advlock_def assms(4))
  moreover have "\<not> conflicts (locked st) head ident start en (l_type fl)" using True by (simp add: conflicts_def locked_def)
  ultimately show ?thesis by auto
next
  case False
  let ?s = "lf_request new p head ident start en (l_type fl) flags st" and ?l = "lf_heads st head"
  let ?r = "\<lparr>r_id = ident, r_start = start, r_end = en, r_type = l_type fl\<rparr>"
  note I = reach_inv [OF assms(1)]
  have u: "unused st pend new" "new \<notin> set ?l" using assms(2) by (auto simp: lf_ready_def unused_def live_def)
  note J = request_inv(1) [OF I u(1), of p head ident start en "l_type fl" flags]
  have E: "lf_advlock new sp p head sz ident OpGetlk fl flags st = (case lf_getlock new fl ?s of
      None \<Rightarrow> Panic ''lf_findoverlap: default'' | Some fl \<Rightarrow> Return (lf_free new ?s) (LfOk, fl))"
    using advlock_eq [OF assms(4), of new p OpGetlk st head] assms(5) False by (simp add: Let_def)
  have w: "wf_rng ?r" using flock_range_wf [OF assms(4,3)] by (simp add: wf_rng_def)
  have L: "locked (lf_free new ?s) = locked st" using request_locked [OF u(1)] by simp
  have v: "vw ?s new = ?r" by (simp add: request_fields)
  have "find (\<lambda>a. blocks (vw ?s new) (vw ?s a)) ?l = find (\<lambda>a. blocks ?r (vw st a)) ?l"
    by (rule find_cong) (use u(2) in \<open>auto simp: request_fields\<close>)
  then have G: "lf_getblock (lf_mem ?s) ?l new = Some (find (\<lambda>a. blocks ?r (vw st a)) ?l)"
    using getblock_inv [OF J, of new head] w v by (simp add: request_fields(1))
  have C: "conflicts (locked st) head ident start en (l_type fl) \<longleftrightarrow> (\<exists>a \<in> set ?l. blocks ?r (vw st a))"
    using conflicts_blocks [OF I w, of head] by simp
  show ?thesis
  proof (cases "find (\<lambda>a. blocks ?r (vw st a)) ?l")
    case None
    then have "lf_getlock new fl ?s = Some (fl\<lparr>l_type := F_UNLCK\<rparr>)" using G by (simp add: lf_getlock_def request_fields)
    moreover have "\<not> (\<exists>a \<in> set ?l. blocks ?r (vw st a))" using None by (auto simp: find_None_iff)
    ultimately show ?thesis using E L C by simp
  next
    case (Some a)
    then have a: "a \<in> set ?l" "blocks ?r (vw st a)" by (auto simp: find_Some_iff)
    have m: "lf_mem ?s a = lf_mem st a" using a(1) u(2) by (intro request_fields(6)) auto
    have wa: "wf_rng (vw st a)" "r_type (vw st a) \<noteq> F_UNLCK" by (rule view_okD [OF lfinvD(1) [OF I] a(1)])+
    let ?n = "if lf_end (lf_mem st a) = - 1 then 0 else lf_end (lf_mem st a) - lf_start (lf_mem st a) + 1"
    have "off_wrap (lf_end (lf_mem st a) - lf_start (lf_mem st a) + 1) = lf_end (lf_mem st a) - lf_start (lf_mem st a) + 1"
      if "lf_end (lf_mem st a) \<noteq> - 1" using wa(1) that by (intro off_wrap_id) (auto simp: wf_rng_def vw_fields)
    then have g: "lf_getlock new fl ?s = Some (fl\<lparr>l_type := lf_type (lf_mem st a), l_whence := 0, l_start := lf_start (lf_mem st a),
        l_len := ?n, l_pid := lf_pid (lf_mem st a)\<rparr>)"
      using G Some by (simp add: lf_getlock_def request_fields(1,2) m Let_def)
    have "locked st head (lf_id (lf_mem st a)) b = Some (lf_type (lf_mem st a))"
      if "lf_start (lf_mem st a) \<le> b" "?n = 0 \<or> b < lf_start (lf_mem st a) + ?n" for b
    proof -
      have "covers (vw st a) b" using that wa(1) by (auto simp: covers_def vw_fields wf_rng_def split: if_splits)
      then show ?thesis using a(1) unfolding locked_held [OF lfinvD(1) [OF I]] held_def vw_fields by blast
    qed
    moreover have "l_type fl = F_WRLCK \<or> lf_type (lf_mem st a) = F_WRLCK" "lf_id (lf_mem st a) \<noteq> ident"
      using a(2) by (auto simp: blocks_def vw_fields)
    moreover have "\<exists>a \<in> set ?l. blocks ?r (vw st a)" using a by blast
    ultimately show ?thesis using E g L C wa(2) by (auto simp: vw_fields)
  qed
qed

text \<open>
  A request that conflicts and may wait meets a blocking lock. It is refused with \<open>EDEADLK\<close>, and
  nothing changes, exactly when both are POSIX locks and the chain of waits from the owner of the blocking lock leads
  to the requester within 50 hops; otherwise the process sleeps on the request. The walk takes the owner of a lock for a process;
  \<open>Lockf_Deadlock\<close> shows what it finds for the owners the callers pass.
\<close>

theorem lockf_deadlock_check:
  assumes "lf_reach st pend" "lf_ready new sp (pr_addr p) (st, pend)" "lf_args sz OpSetlk fl"
    and "flock_range sz fl = Some (start, en)" "lf_alloc new (pr_uid p) 1 st \<noteq> None"
    and "conflicts (locked st) head ident start en (l_type fl)" "has_flag flags F_WAIT"
  shows "\<exists>b st'. b \<in> set (lf_heads st head) \<and> blocks \<lparr>r_id = ident, r_start = start, r_end = en, r_type = l_type fl\<rparr> (vw st b)
    \<and> (if has_flag flags F_POSIX \<and> has_flag (lf_flags (lf_mem st b)) F_POSIX
           \<and> (\<exists>k. 1 \<le> k \<and> k \<le> 50 \<and> hops st k (lf_id (lf_mem st b)) = Some ident)
        then lf_advlock new sp p head sz ident OpSetlk fl flags st = Return st' (LfError EDEADLK, fl) \<and> locked st' = locked st
        else lf_advlock new sp p head sz ident OpSetlk fl flags st = Sleep st' new \<and> p_wchan st' (pr_addr p) = Some new)"
proof -
  let ?s = "lf_request new p head ident start en (l_type fl) flags st"
  let ?r = "\<lparr>r_id = ident, r_start = start, r_end = en, r_type = l_type fl\<rparr>"
  note I = reach_inv [OF assms(1)]
  have u: "unused st pend new" "unused st pend sp" "sp \<noteq> new" "pend (pr_addr p) = None" using assms(2) by (simp_all add: lf_ready_def)
  note J = request_inv(1) [OF I u(1), of p head ident start en "l_type fl" flags]
  have q: "req_ok ?s new" using request_ok [OF u(1) assms(4,3)] assms(3) by (simp add: lf_args_def)
  have E: "lf_advlock new sp p head sz ident OpSetlk fl flags st = (case lf_setlock sp (pr_addr p) new ?s of
      Return st r \<Rightarrow> Return st (r, fl) | Panic m \<Rightarrow> Panic m | Sleep st k \<Rightarrow> Sleep st k)"
    using advlock_eq [OF assms(4), of new p OpSetlk st head] assms(5) by (simp add: Let_def)
  have L: "locked (lf_free new ?s) = locked st" using request_locked [OF u(1)] by simp
  have v: "vw ?s new = ?r" "lf_head (lf_mem ?s new) = head" "lf_heads ?s = lf_heads st" "lf_flags (lf_mem ?s new) = flags"
    "lf_id (lf_mem ?s new) = ident" by (simp_all add: request_fields) (simp add: lf_request_def)
  obtain b where b: "lf_getblock (lf_mem ?s) (lf_heads ?s (lf_head (lf_mem ?s new))) new = Some (Some b)"
    "b \<in> set (lf_heads st head)" "blocks ?r (vw ?s b)"
    using conflicts_blocks [OF J, of ?r head] q assms(6) request_locked [OF u(1)]
    by (cases rule: setlock_block [OF J q]) (auto simp: v req_ok_def)
  have ne: "b \<noteq> new" using b(2) u(1) by (auto simp: unused_def live_def)
  have m: "lf_mem ?s b = lf_mem st b" "vw ?s b = vw st b" using ne by (simp_all add: request_fields)
  have H: "lf_cycle maxlockdepth ?s (lf_id (lf_mem ?s b)) ident \<longleftrightarrow> (\<exists>k. 1 \<le> k \<and> k \<le> 50 \<and> hops st k (lf_id (lf_mem st b)) = Some ident)"
    by (simp add: cycle_hops request_hops [OF I u(1)] m(1) maxlockdepth_def)
  have "settled pend (pr_addr p) new (lf_setlock sp (pr_addr p) new ?s)"
    by (rule setlock_settled [OF J q]) (use u in \<open>simp_all add: unused_def request_live\<close>)
  then have S: "\<exists>st'. lf_setlock sp (pr_addr p) new ?s = Sleep st' new \<and> p_wchan st' (pr_addr p) = Some new"
    if "\<not> (has_flag flags F_POSIX \<and> has_flag (lf_flags (lf_mem ?s b)) F_POSIX \<and> lf_cycle maxlockdepth ?s (lf_id (lf_mem ?s b)) ident)"
    using setlock_blocked [OF b(1), of sp "pr_addr p"] assms(7) that
    by (auto simp: v settled_def lf_block_def Let_def split: option.splits)
  have R: "lf_setlock sp (pr_addr p) new ?s = Return (lf_free new ?s) (LfError EDEADLK)"
    if "has_flag flags F_POSIX \<and> has_flag (lf_flags (lf_mem ?s b)) F_POSIX \<and> lf_cycle maxlockdepth ?s (lf_id (lf_mem ?s b)) ident"
    using setlock_blocked [OF b(1), of sp "pr_addr p"] assms(7) that by (simp add: v)
  show ?thesis
  proof (cases "has_flag flags F_POSIX \<and> has_flag (lf_flags (lf_mem st b)) F_POSIX
      \<and> (\<exists>k. 1 \<le> k \<and> k \<le> 50 \<and> hops st k (lf_id (lf_mem st b)) = Some ident)")
    case True
    then have "lf_advlock new sp p head sz ident OpSetlk fl flags st = Return (lf_free new ?s) (LfError EDEADLK, fl)"
      using R [unfolded H, unfolded m(1)] E by simp
    then show ?thesis using b(2,3) m(2) L by (intro exI [of _ b] exI [of _ "lf_free new ?s"] conjI) (simp_all only: if_P [OF True] simp_thms)
  next
    case False
    then obtain st' where "lf_advlock new sp p head sz ident OpSetlk fl flags st = Sleep st' new" "p_wchan st' (pr_addr p) = Some new"
      using S [unfolded H, unfolded m(1)] E by auto
    then show ?thesis using b(2,3) m(2) by (intro exI [of _ b] exI [of _ st'] conjI) (simp_all only: if_not_P [OF False] simp_thms)
  qed
qed

text \<open>
  C36. Unlocking up to the largest offset frees nothing: for a lock that extends to the end of the file,
  the start of the part after the range is the largest offset plus one, which wraps to the
  most negative one, so that the part covers every byte. The call returns 0.
\<close>

theorem lockf_unlock_wraps:
  assumes "lf_heads st head = [a]" "lf_id (lf_mem st a) = ident" "lf_end (lf_mem st a) = - 1"
    and "flock_range sz fl = Some (start, 2 ^ 63 - 1)" "lf_start (lf_mem st a) < start"
    and "lf_alloc new (pr_uid p) 2 st \<noteq> None" "distinct [a, new, sp]"
  shows "\<exists>st'. lf_advlock new sp p head sz ident OpUnlck fl flags st = Return st' (LfOk, fl)
    \<and> (\<forall>b \<ge> 0. locked st' head ident b = Some (lf_type (lf_mem st a)))"
proof -
  let ?s = "lf_request new p head ident start (2 ^ 63 - 1) (l_type fl) flags st"
  have E: "lf_advlock new sp p head sz ident OpUnlck fl flags st = (case lf_clearlock sp new ?s of
      None \<Rightarrow> Panic ''lf_findoverlap: default'' | Some st \<Rightarrow> Return (lf_free new st) (LfOk, fl))"
    using advlock_eq [OF assms(4), of new p OpUnlck st head] assms(1,6) by (simp add: Let_def)
  have m: "lf_mem ?s a = lf_mem st a" using assms(7) by (intro request_fields(6)) simp
  have n: "lf_start (lf_mem ?s new) = start" "lf_end (lf_mem ?s new) = 2 ^ 63 - 1" "lf_id (lf_mem ?s new) = ident" "lf_head (lf_mem ?s new) = head"
    by (simp_all add: lf_request_def)
  have "start \<le> 2 ^ 63 - 1" using assms(4) by (auto simp: flock_range_def Let_def split: option.splits if_splits)
  then have f: "lf_findoverlap (lf_mem ?s) [a] new True = Some (2, [], [a])" using assms(2,3,5) m n by (simp add: Let_def)
  let ?w = "lf_wakelock a ?s" and ?p = "lf_split sp a new [] (lf_wakelock a ?s)"
  have k: "lf_start (lf_mem ?w x) = lf_start (lf_mem ?s x)" "lf_end (lf_mem ?w x) = lf_end (lf_mem ?s x)"
    "lf_id (lf_mem ?w x) = lf_id (lf_mem ?s x)" "lf_type (lf_mem ?w x) = lf_type (lf_mem ?s x)" for x
    using same_core_wakelock [of ?s a] by (simp_all add: same_core_def core_def)
  have ne: "r_start (vw ?w a) \<noteq> r_start (vw ?w new)" "r_end (vw ?w a) \<noteq> r_end (vw ?w new)"
    using assms(3,5) m n by (simp_all add: vw_fields)
  have c: "lf_clearlock sp new ?s = Some (set_head head [a, sp] (snd ?p))"
    using lf_unlink_iter(3) [OF f refl refl, of sp "[]"] vw_split(1) [OF ne(1), of sp "[]"] ne assms(1,5,7) k m n
    by (simp add: lf_clearlock_def request_fields(1) vw_fields)
  let ?v = "vw (snd ?p)"
  have va: "?v a = (vw ?w a)\<lparr>r_end := off_wrap (start - 1)\<rparr>" "?v sp = (vw ?w a)\<lparr>r_start := off_wrap (2 ^ 63)\<rparr>"
    using vw_split(2) [OF ne(1), of sp "[]"] ne(2) assms(7) k n by (simp_all add: vw_fields)
  have "covers (?v sp) b" if "0 \<le> b" for b
    using that va(2) assms(3) k m by (simp add: covers_def off_wrap_def vw_fields)
  moreover have "lf_type (lf_mem (snd ?p) x) = lf_type (lf_mem st a)" "lf_id (lf_mem (snd ?p) x) = ident" if "x = a \<or> x = sp" for x
    using that va m k assms(2) vw_fields(1,4) [of "snd ?p" x] vw_fields(1,4) [of ?w a] by auto
  ultimately have "locked (lf_free new (set_head head [a, sp] (snd ?p))) head ident b = Some (lf_type (lf_mem st a))" if "0 \<le> b" for b
    using that by (simp add: locked_def)
  then show ?thesis using E c by simp
qed

section \<open>Witnesses\<close>

text \<open>
  Two processes and one inode: process 10 locks the bytes 0 to 99, process 11 the bytes 100 to 199, then
  10 waits for a byte of 11.
\<close>

definition demo_proc :: "nat \<Rightarrow> lfproc" where
  "demo_proc a = \<lparr>pr_addr = a, pr_pid = int a, pr_uid = 0\<rparr>"

definition demo_fl :: "lftype \<Rightarrow> int \<Rightarrow> int \<Rightarrow> flock" where
  "demo_fl ty start len = \<lparr>l_start = start, l_len = len, l_pid = 0, l_type = ty, l_whence = 0\<rparr>"

definition demo_lock :: "nat \<Rightarrow> int \<Rightarrow> int \<Rightarrow> u_short \<Rightarrow> nat option \<Rightarrow> nat list \<Rightarrow> lockf" where
  "demo_lock i start en flags nx bl = \<lparr>lf_flags = flags, lf_type = F_WRLCK, lf_start = start, lf_end = en, lf_id = i, lf_head = 0,
     lf_next = nx, lf_blkhd = bl, lf_uid = 0, lf_pid = int i\<rparr>"

definition demo0 :: lfstate where
  "demo0 = \<lparr>lf_mem = (\<lambda>_. demo_lock 0 0 0 0 None []), lf_heads = (\<lambda>_. []), ui_lockcnt = (\<lambda>_. 0), p_wchan = (\<lambda>_. None)\<rparr>"

definition demo1 :: lfstate where
  "demo1 = demo0\<lparr>lf_mem := (lf_mem demo0)(1 := demo_lock 10 0 99 F_POSIX None []), lf_heads := (lf_heads demo0)(0 := [1]),
     ui_lockcnt := (ui_lockcnt demo0)(0 := 1)\<rparr>"

definition demo2 :: lfstate where
  "demo2 = demo1\<lparr>lf_mem := (lf_mem demo1)(2 := demo_lock 11 100 199 F_POSIX None []), lf_heads := (lf_heads demo1)(0 := [1, 2]),
     ui_lockcnt := (ui_lockcnt demo1)(0 := 2)\<rparr>"

definition demo3 :: lfstate where
  "demo3 = demo2\<lparr>lf_mem := (lf_mem demo2)(3 := demo_lock 10 150 150 (F_POSIX OR F_WAIT) (Some 2) [], 2 := demo_lock 11 100 199 F_POSIX None [3]),
     ui_lockcnt := (ui_lockcnt demo2)(0 := 3), p_wchan := (p_wchan demo2)(10 := Some 3)\<rparr>"

lemmas demo_defs = demo_proc_def demo_fl_def demo_lock_def lf_advlock_def lf_alloc_def flock_range_def off_wrap_def lf_setlock_def
  lf_getblock.simps lf_link.simps set_head_def upd_lf_def F_POSIX_def F_WAIT_def F_FLOCK_def has_flag_def lf_args_def lf_ready_def
  unused_def live_def maxlockdepth_def Let_def

lemma demo1_run: "lf_step (demo0, Map.empty) (LfCall 1 9 (demo_proc 10) 0 0 10 OpSetlk (demo_fl F_WRLCK 0 100) F_POSIX) (demo1, Map.empty)"
  by (rule call_returns) (simp_all add: demo0_def demo1_def demo_defs)

lemma demo2_run: "lf_step (demo1, Map.empty) (LfCall 2 9 (demo_proc 11) 0 0 11 OpSetlk (demo_fl F_WRLCK 100 100) F_POSIX) (demo2, Map.empty)"
  by (rule call_returns) (simp_all add: demo0_def demo1_def demo2_def demo_defs)

lemma demo3_run: "lf_step (demo2, Map.empty) (LfCall 3 9 (demo_proc 10) 0 0 10 OpSetlk (demo_fl F_WRLCK 150 1) (F_POSIX OR F_WAIT)) (demo3, [10 \<mapsto> 3])"
  using call_sleeps [of 3 9 "demo_proc 10" demo2 Map.empty 0 OpSetlk "demo_fl F_WRLCK 150 1" 0 10 "F_POSIX OR F_WAIT" demo3 3]
  by (simp add: demo0_def demo1_def demo2_def demo3_def demo_defs lf_cycle_awake)

lemma demo_reach: "lf_reach demo1 Map.empty" "lf_reach demo2 Map.empty" "lf_reach demo3 [10 \<mapsto> 3]"
proof -
  have "lf_fresh demo0" by (simp add: lf_fresh_def demo0_def)
  from reach_step [OF reach_fresh [OF this] demo1_run] show r: "lf_reach demo1 Map.empty" .
  from reach_step [OF r demo2_run] show r: "lf_reach demo2 Map.empty" .
  from reach_step [OF r demo3_run] show "lf_reach demo3 [10 \<mapsto> 3]" .
qed

lemma demo_locked:
  "locked demo1 h i b = (if h = 0 \<and> i = 10 \<and> 0 \<le> b \<and> b \<le> 99 then Some F_WRLCK else None)"
  "locked demo2 h i b = (if h = 0 \<and> (i = 10 \<and> 0 \<le> b \<and> b \<le> 99 \<or> i = 11 \<and> 100 \<le> b \<and> b \<le> 199) then Some F_WRLCK else None)"
  "locked demo3 h i b = locked demo2 h i b"
  by (auto simp: locked_def demo0_def demo1_def demo2_def demo3_def demo_lock_def covers_def vw_fields)

theorem lockf_set_refines_witness:
  "\<exists>st'. lf_advlock 2 9 (demo_proc 11) 0 0 11 OpSetlk (demo_fl F_RDLCK 50 0) 0 demo1 = Return st' (LfError EAGAIN, demo_fl F_RDLCK 50 0)
     \<and> locked st' = locked demo1"
proof -
  have "conflicts (locked demo1) 0 11 50 (- 1) F_RDLCK"
    unfolding conflicts_def by (intro exI [of _ 10] exI [of _ 60] exI [of _ F_WRLCK]) (simp add: demo_locked in_range_def)
  then show ?thesis
    using lockf_set_refines [OF demo_reach(1), of 2 9 "demo_proc 11" 0 "demo_fl F_RDLCK 50 0" 50 "- 1" 0 11 0]
    by (simp add: demo0_def demo1_def demo_proc_def demo_fl_def demo_lock_def lf_alloc_def flock_range_def lf_args_def lf_ready_def
        unused_def live_def has_flag_def)
qed

theorem lockf_unlock_refines_witness:
  "\<exists>st' fl'. lf_advlock 2 9 (demo_proc 10) 0 0 10 OpUnlck (demo_fl F_UNLCK 20 10) F_POSIX demo1 = Return st' (LfOk, fl')
     \<and> locked st' = set_range 0 10 20 29 None (locked demo1)"
  using lockf_unlock_refines [OF demo_reach(1), of 2 9 "demo_proc 10" 0 "demo_fl F_UNLCK 20 10" 20 29 0 10 F_POSIX]
  by (simp add: demo0_def demo1_def demo_proc_def demo_fl_def demo_lock_def lf_alloc_def flock_range_def lf_args_def lf_ready_def
      unused_def live_def off_wrap_def)

theorem lockf_query_exact_witness:
  "\<exists>st' fl'. lf_advlock 2 9 (demo_proc 11) 0 0 11 OpGetlk (demo_fl F_RDLCK 20 10) F_POSIX demo1 = Return st' (LfOk, fl')
     \<and> l_type fl' \<noteq> F_UNLCK \<and> locked st' = locked demo1"
proof -
  have "conflicts (locked demo1) 0 11 20 29 F_RDLCK"
    unfolding conflicts_def by (intro exI [of _ 10] exI [of _ 25] exI [of _ F_WRLCK]) (simp add: demo_locked in_range_def)
  then show ?thesis
    using lockf_query_exact [OF demo_reach(1), of 2 9 "demo_proc 11" 0 "demo_fl F_RDLCK 20 10" 20 29 0 11 F_POSIX]
    by (auto simp: demo0_def demo1_def demo_proc_def demo_fl_def demo_lock_def lf_alloc_def flock_range_def lf_args_def lf_ready_def
        unused_def live_def off_wrap_def)
qed

text \<open>Process 11 asks for a byte of process 10, which waits for it.\<close>

theorem lockf_deadlock_check_witness:
  "\<exists>st'. lf_advlock 4 9 (demo_proc 11) 0 0 11 OpSetlk (demo_fl F_WRLCK 50 1) (F_POSIX OR F_WAIT) demo3
     = Return st' (LfError EDEADLK, demo_fl F_WRLCK 50 1) \<and> locked st' = locked demo3"
proof -
  have "conflicts (locked demo3) 0 11 50 50 F_WRLCK" unfolding conflicts_def
    by (intro exI [of _ 10] exI [of _ 50] exI [of _ F_WRLCK]) (simp add: demo_locked in_range_def)
  moreover have "hops demo3 1 10 = Some 11"
    by (simp add: waits_for_def demo0_def demo1_def demo2_def demo3_def demo_lock_def has_flag_def F_POSIX_def)
  then have "\<exists>k. 1 \<le> k \<and> k \<le> 50 \<and> hops demo3 k 10 = Some 11" by (intro exI [of _ 1]) simp
  moreover have "lf_heads demo3 0 = [1, 2]" "lf_id (lf_mem demo3 2) = 11" "lf_id (lf_mem demo3 1) = 10" "lf_flags (lf_mem demo3 1) = F_POSIX"
    "lf_ready 4 9 11 (demo3, [10 \<mapsto> 3])" "lf_alloc 4 0 1 demo3 \<noteq> None"
    by (simp_all add: demo0_def demo1_def demo2_def demo3_def demo_lock_def lf_ready_def unused_def live_def lf_alloc_def)
  moreover have "has_flag (F_POSIX OR F_WAIT) F_POSIX" "has_flag (F_POSIX OR F_WAIT) F_WAIT" "has_flag F_POSIX F_POSIX"
    by (simp_all add: has_flag_def F_POSIX_def F_WAIT_def)
  moreover have "flock_range 0 (demo_fl F_WRLCK 50 1) = Some (50, 50)" "lf_args 0 OpSetlk (demo_fl F_WRLCK 50 1)"
    "l_type (demo_fl F_WRLCK 50 1) = F_WRLCK" "pr_addr (demo_proc 11) = 11" "pr_uid (demo_proc 11) = 0"
    by (simp_all add: demo_proc_def demo_fl_def flock_range_def lf_args_def off_wrap_def)
  ultimately show ?thesis
    using lockf_deadlock_check [OF demo_reach(3), of 4 9 "demo_proc 11" 0 "demo_fl F_WRLCK 50 1" 50 50 0 11 "F_POSIX OR F_WAIT"]
    by (auto simp: blocks_def vw_fields split: if_splits)
qed

theorem lockf_unlock_wraps_witness:
  "\<exists>st'. lf_advlock 2 9 (demo_proc 10) 0 0 10 OpUnlck (demo_fl F_UNLCK 100 (2 ^ 63 - 100)) F_POSIX
       (demo1\<lparr>lf_mem := (lf_mem demo1)(1 := demo_lock 10 0 (- 1) F_POSIX None [])\<rparr>) = Return st' (LfOk, demo_fl F_UNLCK 100 (2 ^ 63 - 100))
     \<and> locked st' 0 10 100 = Some F_WRLCK \<and> locked st' 0 10 (2 ^ 62) = Some F_WRLCK"
  using lockf_unlock_wraps [of "demo1\<lparr>lf_mem := (lf_mem demo1)(1 := demo_lock 10 0 (- 1) F_POSIX None [])\<rparr>" 0 1 10 0
      "demo_fl F_UNLCK 100 (2 ^ 63 - 100)" 100 2 "demo_proc 10" 9 F_POSIX]
  by (fastforce simp: demo0_def demo1_def demo_proc_def demo_fl_def demo_lock_def lf_alloc_def flock_range_def off_wrap_def)

end
