(* ===== verification/Lockf_Split.thy ===== *)
theory Lockf_Split
  imports Lockf_Calls
begin

text \<open>
  The sleep inside \<open>lf_split\<close>. Its structure comes from \<open>pool_get\<close> with \<open>PR_WAITOK\<close> (kern/subr_pool.c), which sleeps when the pool
  has none; then other processes run between the search for blocking locks and the change of the list. The step relation of this
  theory has that sleep as an event. Exclusion and the absence of lost wakeups are shown for all runs without such an event,
  and shown to fail with one. The request itself is allocated before anything is looked up, so a sleep there only delays the call.
\<close>

section \<open>The two halves of a split\<close>

text \<open>The lock that \<open>lf_split\<close> cuts in three for \<open>lock\<close>: the first lock of the owner that overlaps contains it, with room on both sides.\<close>

definition split_from :: "nat \<Rightarrow> lfstate \<Rightarrow> nat option" where
  "split_from lock st =
     (case lf_findoverlap (lf_mem st) (lf_heads st (lf_head (lf_mem st lock))) lock True of
        Some (c, sk, ov # rst) \<Rightarrow>
          if c = 2 \<and> lf_start (lf_mem st ov) \<noteq> lf_start (lf_mem st lock) \<and> lf_end (lf_mem st ov) \<noteq> lf_end (lf_mem st lock)
          then Some ov else None
      | _ \<Rightarrow> None)"

text \<open>In \<open>lf_setlock\<close> nothing blocks the request, and the type is another one.\<close>

definition set_splits :: "nat \<Rightarrow> lfstate \<Rightarrow> nat option" where
  "set_splits lock st =
     (if lf_getblock (lf_mem st) (lf_heads st (lf_head (lf_mem st lock))) lock = Some None
      then (case split_from lock st of
              Some ov \<Rightarrow> if lf_type (lf_mem st ov) \<noteq> lf_type (lf_mem st lock) then Some ov else None
            | None \<Rightarrow> None)
      else None)"

text \<open>\<open>lf_alloc\<close> counts the structure before \<open>pool_get\<close>.\<close>

definition split_count :: "nat \<Rightarrow> lfstate \<Rightarrow> lfstate" where
  "split_count ov st = (let uid = lf_uid (lf_mem st ov) in st\<lparr>ui_lockcnt := (ui_lockcnt st)(uid := ui_lockcnt st uid + 1)\<rparr>)"

text \<open>
  The rest of \<open>lf_split\<close> and of its caller, once \<open>pool_get\<close> has returned \<open>sp\<close>, on the list as it then is. None when
  \<open>ov\<close> is no longer on it: it was freed, and the code goes on with freed memory.
\<close>

definition lf_resume :: "nat \<Rightarrow> bool \<Rightarrow> nat \<Rightarrow> nat \<Rightarrow> lfstate \<Rightarrow> lfstate option" where
  "lf_resume sp setting ov lock st =
     (let h = lf_head (lf_mem st lock); l = lf_heads st h; l1 = lf_mem st ov; l2 = lf_mem st lock;
          pre = takeWhile (\<lambda>a. a \<noteq> ov) l; rst = tl (dropWhile (\<lambda>a. a \<noteq> ov) l) in
      if ov \<notin> set l then None
      else
        let st = upd_lf sp (\<lambda>_. l1\<lparr>lf_start := off_wrap (lf_end l2 + 1), lf_blkhd := []\<rparr>) st;
            st = upd_lf ov (\<lambda>l. l\<lparr>lf_end := off_wrap (lf_start l2 - 1)\<rparr>) st
        in Some (if setting then set_head h (pre @ ov # lock # sp # rst) (lf_wakelock ov st)
                 else lf_free lock (set_head h (pre @ ov # sp # rst) st)))"

text \<open>When \<open>pool_get\<close> does not sleep, the two halves make up the call.\<close>

lemma find_takeWhile:
  assumes "lf_findoverlap m l lock self = Some (c, sk, ov # rst)" "distinct l"
  shows "ov \<in> set l" "takeWhile (\<lambda>a. a \<noteq> ov) l = sk" "tl (dropWhile (\<lambda>a. a \<noteq> ov) l) = rst"
proof -
  have l: "l = sk @ ov # rst" by (rule lf_findoverlap_parts [OF assms(1)])
  then have "ov \<notin> set sk" using assms(2) by auto
  then have "\<And>x. x \<in> set sk \<Longrightarrow> x \<noteq> ov" by blast
  then show "ov \<in> set l" "takeWhile (\<lambda>a. a \<noteq> ov) l = sk" "tl (dropWhile (\<lambda>a. a \<noteq> ov) l) = rst"
    unfolding l by (simp_all add: takeWhile_append2 dropWhile_append2)
qed

lemma split_fromE:
  assumes "split_from lock st = Some ov"
  obtains sk rst where "lf_findoverlap (lf_mem st) (lf_heads st (lf_head (lf_mem st lock))) lock True = Some (2, sk, ov # rst)"
    "lf_start (lf_mem st ov) \<noteq> lf_start (lf_mem st lock)" "lf_end (lf_mem st ov) \<noteq> lf_end (lf_mem st lock)"
  using assms by (auto simp: split_from_def split: option.splits prod.splits list.splits if_splits)

lemma set_immediate:
  assumes "set_splits lock st = Some ov" "distinct (lf_heads st (lf_head (lf_mem st lock)))"
  shows "\<exists>st'. lf_resume sp True ov lock (split_count ov st) = Some st' \<and> lf_setlock sp p lock st = Return st' LfOk"
proof -
  have g: "lf_getblock (lf_mem st) (lf_heads st (lf_head (lf_mem st lock))) lock = Some None"
    and s: "split_from lock st = Some ov" and t: "lf_type (lf_mem st ov) \<noteq> lf_type (lf_mem st lock)"
    using assms(1) by (auto simp: set_splits_def split: if_splits option.splits)
  from s obtain sk rst where f: "lf_findoverlap (lf_mem st) (lf_heads st (lf_head (lf_mem st lock))) lock True = Some (2, sk, ov # rst)"
    "lf_start (lf_mem st ov) \<noteq> lf_start (lf_mem st lock)" "lf_end (lf_mem st ov) \<noteq> lf_end (lf_mem st lock)" by (rule split_fromE)
  note k = find_takeWhile [OF f(1) assms(2)]
  show ?thesis using f t k
    by (auto simp: lf_setlock_def lf_resume_def split_count_def g Let_def lf_link.simps [of sp lock "[]"] lf_split_def upd_lf_def)
qed

lemma clear_immediate:
  assumes "split_from lock st = Some ov" "distinct (lf_heads st (lf_head (lf_mem st lock)))" "lock \<noteq> ov"
  shows "\<exists>st'. lf_resume sp False ov lock (split_count ov (lf_wakelock ov st)) = Some st'
    \<and> map_option (lf_free lock) (lf_clearlock sp lock st) = Some st'"
proof -
  let ?w = "lf_wakelock ov st" and ?h = "lf_head (lf_mem st lock)"
  from assms(1) obtain sk rst where f: "lf_findoverlap (lf_mem st) (lf_heads st ?h) lock True = Some (2, sk, ov # rst)"
    "lf_start (lf_mem st ov) \<noteq> lf_start (lf_mem st lock)" "lf_end (lf_mem st ov) \<noteq> lf_end (lf_mem st lock)" by (rule split_fromE)
  note k = find_takeWhile [OF f(1) assms(2)]
  have c: "lf_start (lf_mem ?w x) = lf_start (lf_mem st x)" "lf_end (lf_mem ?w x) = lf_end (lf_mem st x)"
    "lf_head (lf_mem ?w x) = lf_head (lf_mem st x)" "lf_heads ?w = lf_heads st" for x
    using same_core_wakelock [of st ov] by (simp_all add: same_core_def core_def)
  have "lf_heads st ?h \<noteq> []" using k(1) by auto
  then have "lf_clearlock sp lock st = lf_unlink sp lock [] (lf_heads st ?h) st"
    by (auto simp: lf_clearlock_def split: list.split)
  then show ?thesis using f k c assms(3)
    by (simp add: lf_resume_def split_count_def Let_def lf_unlink.simps [of sp lock "[]"] lf_split_def upd_lf_def)
qed

section \<open>Steps with a sleep in a split\<close>

text \<open>
  The states also have, for each process that sleeps in \<open>lf_split\<close>, whether it sets or clears, the lock it splits and its request. The
  events are the steps that run to their end, the call (to lock or unlock) or the return from \<open>tsleep\<close> that sleeps in a split, and its end.
\<close>

type_synonym splits = "nat \<rightharpoonup> (bool \<times> nat \<times> nat)"

datatype lfp_event =
    Whole lf_event
  | SetSplit nat lfproc nat int nat flock u_short
  | ClearSplit nat lfproc nat int nat flock u_short
  | WokenSplit nat
  | SplitEnd nat nat

definition off_splits :: "splits \<Rightarrow> nat \<Rightarrow> bool" where
  "off_splits spl a \<longleftrightarrow> (\<forall>q s ov lock. spl q = Some (s, ov, lock) \<longrightarrow> a \<noteq> lock)"

definition apart_splits :: "splits \<Rightarrow> lf_event \<Rightarrow> bool" where
  "apart_splits spl e = (case e of
       LfCall new sp p head sz ident op fl flags \<Rightarrow> spl (pr_addr p) = None \<and> off_splits spl new \<and> off_splits spl sp
     | LfSignal p \<Rightarrow> True
     | LfWake sp p error \<Rightarrow> off_splits spl sp)"

inductive lfp_step :: "lfstate \<times> (nat \<rightharpoonup> nat) \<times> splits \<Rightarrow> lfp_event \<Rightarrow> lfstate \<times> (nat \<rightharpoonup> nat) \<times> splits \<Rightarrow> bool" where
  whole: "lf_step (st, pend) e (st', pend') \<Longrightarrow> apart_splits spl e \<Longrightarrow> lfp_step (st, pend, spl) (Whole e) (st', pend', spl)"
| set_split: "unused st pend new \<Longrightarrow> off_splits spl new \<Longrightarrow> pend (pr_addr p) = None \<Longrightarrow> spl (pr_addr p) = None \<Longrightarrow> lf_args sz OpSetlk fl
    \<Longrightarrow> flock_range sz fl = Some (start, en) \<Longrightarrow> lf_alloc new (pr_uid p) 1 st \<noteq> None
    \<Longrightarrow> set_splits new (lf_request new p head ident start en (l_type fl) flags st) = Some ov
    \<Longrightarrow> lfp_step (st, pend, spl) (SetSplit new p head sz ident fl flags)
      (split_count ov (lf_request new p head ident start en (l_type fl) flags st), pend, spl(pr_addr p \<mapsto> (True, ov, new)))"
| clear_split: "unused st pend new \<Longrightarrow> off_splits spl new \<Longrightarrow> pend (pr_addr p) = None \<Longrightarrow> spl (pr_addr p) = None \<Longrightarrow> lf_args sz OpUnlck fl
    \<Longrightarrow> flock_range sz fl = Some (start, en) \<Longrightarrow> lf_alloc new (pr_uid p) 2 st \<noteq> None
    \<Longrightarrow> split_from new (lf_request new p head ident start en (l_type fl) flags st) = Some ov
    \<Longrightarrow> lfp_step (st, pend, spl) (ClearSplit new p head sz ident fl flags)
      (split_count ov (lf_wakelock ov (lf_request new p head ident start en (l_type fl) flags st)), pend, spl(pr_addr p \<mapsto> (False, ov, new)))"
| woken_split: "pend p = Some w \<Longrightarrow> p_wchan st p = None \<Longrightarrow> set_splits w (lf_unblock p w st) = Some ov
    \<Longrightarrow> lfp_step (st, pend, spl) (WokenSplit p) (split_count ov (lf_unblock p w st), pend(p := None), spl(p \<mapsto> (True, ov, w)))"
| split_end: "spl p = Some (setting, ov, lock) \<Longrightarrow> unused st pend sp \<Longrightarrow> off_splits spl sp \<Longrightarrow> lf_resume sp setting ov lock st = Some st'
    \<Longrightarrow> lfp_step (st, pend, spl) (SplitEnd sp p) (st', pend, spl(p := None))"

inductive_cases wholeE: "lfp_step (st, pend, spl) (Whole e) s'"

definition pool_sleeps :: "lfp_event \<Rightarrow> bool" where
  "pool_sleeps e = (case e of Whole _ \<Rightarrow> False | SplitEnd _ _ \<Rightarrow> False | _ \<Rightarrow> True)"

text \<open>Without a sleep in a split the runs are those of whole steps.\<close>

lemma awake_run:
  assumes "lf_fresh t0" "lrun lfp_step (t0, Map.empty, Map.empty) evs (st, pend, spl)" "\<forall>e \<in> set evs. \<not> pool_sleeps e"
  shows "lf_reach st pend"
proof -
  have "spl = Map.empty \<and> lf_reach st pend"
    if "lrun lfp_step (t, pd, Map.empty) evs (st, pend, spl)" "lf_reach t pd" "\<forall>e \<in> set evs. \<not> pool_sleeps e" for t pd
    using that
  proof (induction evs arbitrary: t pd)
    case (Cons e evs)
    from Cons.prems(1) obtain u where u: "lfp_step (t, pd, Map.empty) e u" "lrun lfp_step u evs (st, pend, spl)" by auto
    have "\<not> pool_sleeps e" using Cons.prems(3) by simp
    with u(1) obtain t' pd' where "u = (t', pd', Map.empty)" "lf_reach t' pd'"
      by cases (use Cons.prems(2) reach_step in \<open>auto simp: pool_sleeps_def\<close>)
    then show ?case using Cons.IH u(2) Cons.prems(3) by simp
  qed simp
  then show ?thesis using assms reach_fresh [OF assms(1)] by blast
qed

section \<open>Exclusion and wakeups\<close>

text \<open>
  C30. As long as no \<open>pool_get\<close> in \<open>lf_split\<close> sleeps, two owners never hold locks on the same byte of an inode of which one is
  exclusive, after any interleaving of the calls, signals and wakeups of all processes.
\<close>

theorem lockf_exclusion:
  assumes "lf_fresh t0" "lrun lfp_step (t0, Map.empty, Map.empty) evs (st, pend, spl)" "\<forall>e \<in> set evs. \<not> pool_sleeps e"
    and "locked st h i b = Some F_WRLCK" "locked st h j b = Some ty"
  shows "i = j"
  by (rule reach_exclusion [OF awake_run [OF assms(1-3)] assms(4,5)])

text \<open>
  C33. As long as no \<open>pool_get\<close> in \<open>lf_split\<close> sleeps, a process that sleeps in \<open>lf_setlock\<close> is on the list of blocked requests of
  a lock that is held on the inode and conflicts with its request, so that releasing or changing
  that lock wakes it; after any interleaving of the calls, signals and wakeups of all processes.
\<close>

theorem lockf_no_lost_wakeup:
  assumes "lf_fresh t0" "lrun lfp_step (t0, Map.empty, Map.empty) evs (st, pend, spl)" "\<forall>e \<in> set evs. \<not> pool_sleeps e"
    and "p_wchan st p = Some w"
  shows "\<exists>b \<in> set (lf_heads st (lf_head (lf_mem st w))). w \<in> set (lf_blkhd (lf_mem st b))
    \<and> lf_next (lf_mem st w) = Some b \<and> blocks (vw st w) (vw st b)"
  by (rule reach_sleeper [OF awake_run [OF assms(1-3)] assms(4)])

text \<open>The three steps of the example, with two owners and a sleeper.\<close>

lemma demo_whole:
  "lrun lfp_step (demo0, Map.empty, Map.empty)
     [Whole (LfCall 1 9 (demo_proc 10) 0 0 10 OpSetlk (demo_fl F_WRLCK 0 100) F_POSIX),
      Whole (LfCall 2 9 (demo_proc 11) 0 0 11 OpSetlk (demo_fl F_WRLCK 100 100) F_POSIX),
      Whole (LfCall 3 9 (demo_proc 10) 0 0 10 OpSetlk (demo_fl F_WRLCK 150 1) (F_POSIX OR F_WAIT))] (demo3, [10 \<mapsto> 3], Map.empty)"
proof -
  have a: "apart_splits Map.empty e" for e by (simp add: apart_splits_def off_splits_def split: lf_event.split)
  show ?thesis using whole [OF demo1_run a] whole [OF demo2_run a] whole [OF demo3_run a] unfolding lrun.simps by blast
qed

lemma demo_fresh: "lf_fresh demo0"
  by (simp add: lf_fresh_def demo0_def)

theorem lockf_exclusion_witness: "locked demo3 0 10 50 = Some F_WRLCK \<and> locked demo3 0 11 50 = None"
proof
  show l: "locked demo3 0 10 50 = Some F_WRLCK" by (simp add: demo_locked)
  show "locked demo3 0 11 50 = None"
  proof (rule ccontr)
    assume "locked demo3 0 11 50 \<noteq> None"
    then obtain ty where t: "locked demo3 0 11 50 = Some ty" by blast
    have "(10 :: nat) = 11" by (rule lockf_exclusion [OF demo_fresh demo_whole _ l t]) (simp add: pool_sleeps_def)
    then show False by simp
  qed
qed

theorem lockf_no_lost_wakeup_witness: "p_wchan demo3 10 = Some 3 \<and> 3 \<in> set (lf_blkhd (lf_mem demo3 2)) \<and> blocks (vw demo3 3) (vw demo3 2)"
  using lockf_no_lost_wakeup [OF demo_fresh demo_whole, of 10 3]
  by (simp add: demo0_def demo1_def demo2_def demo3_def demo_lock_def pool_sleeps_def)

section \<open>The races\<close>

text \<open>
  Owner 10 has a shared lock on the bytes 0 to 99, asks for an exclusive one on 40 to 50, and sleeps in the split. Owner 11 is
  then granted a shared lock on these bytes.
\<close>

definition race1 :: lfstate where
  "race1 = demo0\<lparr>lf_mem := (lf_mem demo0)(1 := (demo_lock 10 0 99 F_POSIX None [])\<lparr>lf_type := F_RDLCK\<rparr>), lf_heads := (lf_heads demo0)(0 := [1]),
     ui_lockcnt := (ui_lockcnt demo0)(0 := 1)\<rparr>"

definition race2 :: lfstate where
  "race2 = race1\<lparr>lf_mem := (lf_mem race1)(2 := demo_lock 10 40 50 F_POSIX None []), ui_lockcnt := (ui_lockcnt race1)(0 := 3)\<rparr>"

definition race3 :: lfstate where
  "race3 = race2\<lparr>lf_mem := (lf_mem race2)(3 := (demo_lock 11 40 50 F_POSIX None [])\<lparr>lf_type := F_RDLCK\<rparr>), lf_heads := (lf_heads race2)(0 := [1, 3]),
     ui_lockcnt := (ui_lockcnt race2)(0 := 4)\<rparr>"

definition race4 :: lfstate where
  "race4 = race3\<lparr>lf_mem := (lf_mem race3)(4 := (demo_lock 10 51 99 F_POSIX None [])\<lparr>lf_type := F_RDLCK\<rparr>,
       1 := (demo_lock 10 0 39 F_POSIX None [])\<lparr>lf_type := F_RDLCK\<rparr>), lf_heads := (lf_heads race3)(0 := [1, 2, 4, 3])\<rparr>"

lemmas race_defs = demo0_def race1_def race2_def race3_def race4_def

lemma race_steps:
  "lfp_step (demo0, Map.empty, Map.empty) (Whole (LfCall 1 9 (demo_proc 10) 0 0 10 OpSetlk (demo_fl F_RDLCK 0 100) F_POSIX)) (race1, Map.empty, Map.empty)"
  "lfp_step (race1, Map.empty, Map.empty) (SetSplit 2 (demo_proc 10) 0 0 10 (demo_fl F_WRLCK 40 11) F_POSIX) (race2, Map.empty, [10 \<mapsto> (True, 1, 2)])"
  "lfp_step (race2, Map.empty, [10 \<mapsto> (True, 1, 2)]) (Whole (LfCall 3 9 (demo_proc 11) 0 0 11 OpSetlk (demo_fl F_RDLCK 40 11) F_POSIX))
     (race3, Map.empty, [10 \<mapsto> (True, 1, 2)])"
  "lfp_step (race3, Map.empty, [10 \<mapsto> (True, 1, 2)]) (SplitEnd 4 10) (race4, Map.empty, Map.empty)"
proof -
  show "lfp_step (demo0, Map.empty, Map.empty) (Whole (LfCall 1 9 (demo_proc 10) 0 0 10 OpSetlk (demo_fl F_RDLCK 0 100) F_POSIX)) (race1, Map.empty, Map.empty)"
    by (rule whole, rule call_returns) (simp_all add: race_defs demo_defs apart_splits_def off_splits_def)
  have r: "lf_request 2 (demo_proc 10) 0 10 40 50 F_WRLCK F_POSIX race1 = race1\<lparr>lf_mem := (lf_mem race1)(2 := demo_lock 10 40 50 F_POSIX None []),
      ui_lockcnt := (ui_lockcnt race1)(0 := 2)\<rparr>"
    by (simp add: lf_request_def race_defs demo_defs)
  have "set_splits 2 (lf_request 2 (demo_proc 10) 0 10 40 50 F_WRLCK F_POSIX race1) = Some 1"
    unfolding r by (simp add: set_splits_def split_from_def race_defs demo_defs)
  moreover have "split_count 1 (lf_request 2 (demo_proc 10) 0 10 40 50 F_WRLCK F_POSIX race1) = race2"
    unfolding r by (simp add: split_count_def race_defs demo_defs)
  moreover have "flock_range 0 (demo_fl F_WRLCK 40 11) = Some (40, 50)" "l_type (demo_fl F_WRLCK 40 11) = F_WRLCK" "pr_addr (demo_proc 10) = 10"
    by (simp_all add: demo_defs)
  moreover have "unused race1 Map.empty 2" "lf_args 0 OpSetlk (demo_fl F_WRLCK 40 11)" "lf_alloc 2 (pr_uid (demo_proc 10)) 1 race1 \<noteq> None"
    by (simp_all add: race_defs demo_defs)
  ultimately show "lfp_step (race1, Map.empty, Map.empty) (SetSplit 2 (demo_proc 10) 0 0 10 (demo_fl F_WRLCK 40 11) F_POSIX)
      (race2, Map.empty, [10 \<mapsto> (True, 1, 2)])"
    using set_split [of race1 Map.empty 2 Map.empty "demo_proc 10" 0 "demo_fl F_WRLCK 40 11" 40 50 0 10 F_POSIX 1]
    by (simp add: off_splits_def)
  show "lfp_step (race2, Map.empty, [10 \<mapsto> (True, 1, 2)]) (Whole (LfCall 3 9 (demo_proc 11) 0 0 11 OpSetlk (demo_fl F_RDLCK 40 11) F_POSIX))
      (race3, Map.empty, [10 \<mapsto> (True, 1, 2)])"
    by (rule whole, rule call_returns) (simp_all add: race_defs demo_defs apart_splits_def off_splits_def)
  have "lf_resume 4 True 1 2 race3 = Some race4"
    by (simp add: lf_resume_def lf_wakelock_def race_defs demo_defs fun_eq_iff)
  then show "lfp_step (race3, Map.empty, [10 \<mapsto> (True, 1, 2)]) (SplitEnd 4 10) (race4, Map.empty, Map.empty)"
    using split_end [of "[10 \<mapsto> (True, 1, 2)]" 10 True 1 2 race3 Map.empty 4 race4]
    by (simp add: off_splits_def race_defs demo_defs fun_upd_idem)
qed

text \<open>With a sleep in a split, two owners can end with conflicting locks on the same bytes.\<close>

theorem lockf_split_race:
  "\<exists>evs st. lrun lfp_step (demo0, Map.empty, Map.empty) evs (st, Map.empty, Map.empty)
     \<and> locked st 0 10 45 = Some F_WRLCK \<and> locked st 0 11 45 = Some F_RDLCK"
proof -
  have "lrun lfp_step (demo0, Map.empty, Map.empty)
      [Whole (LfCall 1 9 (demo_proc 10) 0 0 10 OpSetlk (demo_fl F_RDLCK 0 100) F_POSIX),
       SetSplit 2 (demo_proc 10) 0 0 10 (demo_fl F_WRLCK 40 11) F_POSIX,
       Whole (LfCall 3 9 (demo_proc 11) 0 0 11 OpSetlk (demo_fl F_RDLCK 40 11) F_POSIX), SplitEnd 4 10] (race4, Map.empty, Map.empty)"
    using race_steps unfolding lrun.simps by blast
  moreover have "locked race4 0 10 45 = Some F_WRLCK" "locked race4 0 11 45 = Some F_RDLCK"
    by (simp_all add: locked_def race_defs demo_lock_def covers_def vw_fields)
  ultimately show ?thesis by blast
qed

text \<open>
  Owner 10 has an exclusive lock on the bytes 0 to 99, unlocks 40 to 50, and sleeps in the split after the wakeups of
  \<open>lf_clearlock\<close>. Owner 11 asks for byte 45 and waits for the lock that is being split.
\<close>

definition lost2 :: lfstate where
  "lost2 = demo1\<lparr>lf_mem := (lf_mem demo1)(2 := (demo_lock 10 40 50 F_POSIX None [])\<lparr>lf_type := F_UNLCK\<rparr>), ui_lockcnt := (ui_lockcnt demo1)(0 := 3)\<rparr>"

definition lost3 :: lfstate where
  "lost3 = lost2\<lparr>lf_mem := (lf_mem lost2)(3 := demo_lock 11 45 45 (F_POSIX OR F_WAIT) (Some 1) [], 1 := demo_lock 10 0 99 F_POSIX None [3]),
     ui_lockcnt := (ui_lockcnt lost2)(0 := 4), p_wchan := (p_wchan lost2)(11 := Some 3)\<rparr>"

definition lost4 :: lfstate where
  "lost4 = lost3\<lparr>lf_mem := (lf_mem lost3)(4 := demo_lock 10 51 99 F_POSIX None [], 1 := demo_lock 10 0 39 F_POSIX None [3]),
     lf_heads := (lf_heads lost3)(0 := [1, 4]), ui_lockcnt := (ui_lockcnt lost3)(0 := 3)\<rparr>"

lemmas lost_defs = demo0_def demo1_def lost2_def lost3_def lost4_def

lemma lost_steps:
  "lfp_step (demo1, Map.empty, Map.empty) (ClearSplit 2 (demo_proc 10) 0 0 10 (demo_fl F_UNLCK 40 11) F_POSIX) (lost2, Map.empty, [10 \<mapsto> (False, 1, 2)])"
  "lfp_step (lost2, Map.empty, [10 \<mapsto> (False, 1, 2)]) (Whole (LfCall 3 9 (demo_proc 11) 0 0 11 OpSetlk (demo_fl F_WRLCK 45 1) (F_POSIX OR F_WAIT)))
     (lost3, [11 \<mapsto> 3], [10 \<mapsto> (False, 1, 2)])"
  "lfp_step (lost3, [11 \<mapsto> 3], [10 \<mapsto> (False, 1, 2)]) (SplitEnd 4 10) (lost4, [11 \<mapsto> 3], Map.empty)"
proof -
  have r: "lf_request 2 (demo_proc 10) 0 10 40 50 F_UNLCK F_POSIX demo1 = demo1\<lparr>lf_mem := (lf_mem demo1)(2 := (demo_lock 10 40 50 F_POSIX None [])\<lparr>lf_type := F_UNLCK\<rparr>),
      ui_lockcnt := (ui_lockcnt demo1)(0 := 2)\<rparr>"
    by (simp add: lf_request_def lost_defs demo_defs)
  have "split_from 2 (lf_request 2 (demo_proc 10) 0 10 40 50 F_UNLCK F_POSIX demo1) = Some 1"
    unfolding r by (simp add: split_from_def lost_defs demo_defs)
  moreover have "split_count 1 (lf_wakelock 1 (lf_request 2 (demo_proc 10) 0 10 40 50 F_UNLCK F_POSIX demo1)) = lost2"
    unfolding r by (simp add: split_count_def lf_wakelock_def lost_defs demo_defs fun_eq_iff)
  moreover have "flock_range 0 (demo_fl F_UNLCK 40 11) = Some (40, 50)" "l_type (demo_fl F_UNLCK 40 11) = F_UNLCK" "pr_addr (demo_proc 10) = 10"
    by (simp_all add: demo_defs)
  moreover have "unused demo1 Map.empty 2" "lf_args 0 OpUnlck (demo_fl F_UNLCK 40 11)" "lf_alloc 2 (pr_uid (demo_proc 10)) 2 demo1 \<noteq> None"
    by (simp_all add: lost_defs demo_defs)
  ultimately show "lfp_step (demo1, Map.empty, Map.empty) (ClearSplit 2 (demo_proc 10) 0 0 10 (demo_fl F_UNLCK 40 11) F_POSIX)
      (lost2, Map.empty, [10 \<mapsto> (False, 1, 2)])"
    using clear_split [of demo1 Map.empty 2 Map.empty "demo_proc 10" 0 "demo_fl F_UNLCK 40 11" 40 50 0 10 F_POSIX 1]
    by (simp add: off_splits_def)
  show "lfp_step (lost2, Map.empty, [10 \<mapsto> (False, 1, 2)]) (Whole (LfCall 3 9 (demo_proc 11) 0 0 11 OpSetlk (demo_fl F_WRLCK 45 1) (F_POSIX OR F_WAIT)))
      (lost3, [11 \<mapsto> 3], [10 \<mapsto> (False, 1, 2)])"
    using whole [OF call_sleeps, of 3 9 "demo_proc 11" lost2 Map.empty 0 OpSetlk "demo_fl F_WRLCK 45 1" 0 11 "F_POSIX OR F_WAIT" lost3 3 "[10 \<mapsto> (False, 1, 2)]"]
    by (simp add: lost_defs demo_defs lf_cycle_awake apart_splits_def off_splits_def)
  have "lf_resume 4 False 1 2 lost3 = Some lost4"
    by (simp add: lf_resume_def lf_free_def lost_defs demo_defs fun_eq_iff)
  then show "lfp_step (lost3, [11 \<mapsto> 3], [10 \<mapsto> (False, 1, 2)]) (SplitEnd 4 10) (lost4, [11 \<mapsto> 3], Map.empty)"
    using split_end [of "[10 \<mapsto> (False, 1, 2)]" 10 False 1 2 lost3 "[11 \<mapsto> 3]" 4 lost4]
    by (simp add: off_splits_def lost_defs demo_defs fun_upd_idem)
qed

text \<open>Then owner 11 sleeps although nobody holds a lock on the byte it asks for, on a lock that does not conflict.\<close>

theorem lockf_split_lost_wakeup:
  "\<exists>evs st pend. lrun lfp_step (demo0, Map.empty, Map.empty) evs (st, pend, Map.empty)
     \<and> p_wchan st 11 = Some 3 \<and> lf_start (lf_mem st 3) = 45 \<and> lf_end (lf_mem st 3) = 45 \<and> (\<forall>i. locked st 0 i 45 = None)"
proof -
  have "lfp_step (demo0, Map.empty, Map.empty) (Whole (LfCall 1 9 (demo_proc 10) 0 0 10 OpSetlk (demo_fl F_WRLCK 0 100) F_POSIX)) (demo1, Map.empty, Map.empty)"
    by (rule whole [OF demo1_run]) (simp add: apart_splits_def off_splits_def)
  then have "lrun lfp_step (demo0, Map.empty, Map.empty)
      [Whole (LfCall 1 9 (demo_proc 10) 0 0 10 OpSetlk (demo_fl F_WRLCK 0 100) F_POSIX),
       ClearSplit 2 (demo_proc 10) 0 0 10 (demo_fl F_UNLCK 40 11) F_POSIX,
       Whole (LfCall 3 9 (demo_proc 11) 0 0 11 OpSetlk (demo_fl F_WRLCK 45 1) (F_POSIX OR F_WAIT)), SplitEnd 4 10] (lost4, [11 \<mapsto> 3], Map.empty)"
    using lost_steps unfolding lrun.simps by blast
  moreover have "p_wchan lost4 11 = Some 3" "lf_start (lf_mem lost4 3) = 45" "lf_end (lf_mem lost4 3) = 45" "\<And>i. locked lost4 0 i 45 = None"
    by (simp_all add: locked_def lost_defs demo_lock_def covers_def vw_fields)
  ultimately show ?thesis by blast
qed

end
