(* ===== verification/Lockf_Owner.thy ===== *)
theory Lockf_Owner
  imports Lockf_Calls
begin

text \<open>
  A step of the system of record locks changes the locks of one owner on one inode only, and leaves the
  requests of the other processes as they are.
\<close>

definition touch :: "nat \<Rightarrow> nat \<Rightarrow> nat set \<Rightarrow> lfstate \<Rightarrow> lfstate \<Rightarrow> bool" where
  "touch head ident R st st' \<longleftrightarrow>
     (\<forall>h i b. h \<noteq> head \<or> i \<noteq> ident \<longrightarrow> locked st' h i b = locked st h i b)
   \<and> (\<forall>w \<in> R. lf_id (lf_mem st' w) = lf_id (lf_mem st w) \<and> lf_head (lf_mem st' w) = lf_head (lf_mem st w))"

lemma touchD:
  assumes "touch head ident R st st'"
  shows "h \<noteq> head \<or> i \<noteq> ident \<Longrightarrow> locked st' h i b = locked st h i b"
    "w \<in> R \<Longrightarrow> lf_id (lf_mem st' w) = lf_id (lf_mem st w)" "w \<in> R \<Longrightarrow> lf_head (lf_mem st' w) = lf_head (lf_mem st w)"
  using assms by (simp_all add: touch_def)

lemma touch_trans: "touch head ident R a b \<Longrightarrow> touch head ident R b c \<Longrightarrow> touch head ident R a c"
  unfolding touch_def by simp

lemma touch_refl: "touch head ident R st st"
  by (simp add: touch_def)

lemma locked_same_core:
  assumes "same_core st st'"
  shows "locked st' = locked st"
proof -
  have "vw st' = vw st" "lf_heads st' = lf_heads st" using same_coreD [OF assms] by auto
  moreover have "lf_type (lf_mem st' a) = lf_type (lf_mem st a)" "lf_id (lf_mem st' a) = lf_id (lf_mem st a)" for a
    using assms by (simp_all add: same_core_def core_def)
  ultimately show ?thesis by (simp add: locked_def fun_eq_iff)
qed

lemma touch_same_core:
  assumes "same_core st st'"
  shows "touch head ident R st st'"
  unfolding touch_def locked_same_core [OF assms] using assms by (simp add: same_core_def core_def)

text \<open>A structure that is on no list.\<close>

lemma locked_upd_unused:
  assumes "unused st pend a"
  shows "locked (upd_lf a f st) = locked st"
proof (intro ext)
  fix h i b
  let ?s = "upd_lf a f st"
  have m: "lf_mem ?s c = lf_mem st c" "vw ?s c = vw st c" if "c \<in> set (lf_heads st h)" for c
  proof -
    have "c \<noteq> a" using that assms by (auto simp: unused_def live_def)
    then show "lf_mem ?s c = lf_mem st c" "vw ?s c = vw st c" by (simp_all add: vw_def)
  qed
  have f: "find (\<lambda>c. lf_id (lf_mem ?s c) = i \<and> covers (vw ?s c) b) (lf_heads st h)
      = find (\<lambda>c. lf_id (lf_mem st c) = i \<and> covers (vw st c) b) (lf_heads st h)"
    by (rule find_cong) (simp_all only: m)
  have "lf_type (lf_mem ?s c) = lf_type (lf_mem st c)"
    if "find (\<lambda>c. lf_id (lf_mem st c) = i \<and> covers (vw st c) b) (lf_heads st h) = Some c" for c
  proof -
    have "c \<in> set (lf_heads st h)" using that by (auto simp: find_Some_iff)
    then show ?thesis by (simp only: m(1))
  qed
  moreover have "lf_heads ?s = lf_heads st" by simp
  ultimately show "locked ?s h i b = locked st h i b"
    unfolding locked_def by (auto simp only: f intro: option.map_cong)
qed

lemma touch_upd_unused:
  assumes "unused st pend a"
  shows "touch head ident (ran pend) st (upd_lf a f st)"
  using assms by (auto simp: touch_def locked_upd_unused [OF assms] unused_def)

lemma touch_request:
  assumes "unused st pend new"
  shows "touch head ident (ran pend) st (lf_request new p h i start en ty flags st)"
proof -
  have "w \<noteq> new" if "w \<in> ran pend" for w using that assms by (auto simp: unused_def)
  then show ?thesis by (simp add: touch_def request_locked [OF assms] request_fields)
qed

lemma frm_requests:
  assumes "lfinv (st, pend)" "frm A sp st st'" "A \<subseteq> insert lock (live st)" "lock \<notin> ran pend" "unused st pend sp" "w \<in> ran pend"
  shows "lf_id (lf_mem st' w) = lf_id (lf_mem st w) \<and> lf_head (lf_mem st' w) = lf_head (lf_mem st w)"
proof -
  have "w \<notin> live st" using lfinvD(4) [OF assms(1,6)] by (simp add: req_ok_def)
  then have "w \<notin> A" "w \<noteq> sp" using assms(3-6) by (auto simp: unused_def)
  then show ?thesis using frmD(1) [OF assms(2), of w] frmD(2) [OF assms(2), of w] vw_fields(1) [of st' w] vw_fields(1) [of st w] by simp
qed

lemma touch_list:
  assumes "lfinv (st, pend)" "frm A sp st st'" "A \<subseteq> insert lock (live st)" "lock \<notin> ran pend" "unused st pend sp"
    and "locked st' = set_range head ident start en v (locked st)"
  shows "touch head ident (ran pend) st st'"
  unfolding touch_def assms(6) using frm_requests [OF assms(1-5)] by (auto simp: set_range_def)

text \<open>No lock is new.\<close>

definition fewer :: "lfstate \<Rightarrow> lfstate \<Rightarrow> bool" where
  "fewer st st' \<longleftrightarrow> (\<forall>h i b. locked st' h i b \<noteq> None \<longrightarrow> locked st h i b \<noteq> None)"

lemma fewer_same: "locked st' = locked st \<Longrightarrow> fewer st st'"
  by (simp add: fewer_def)

lemma fewer_trans: "fewer a b \<Longrightarrow> fewer b c \<Longrightarrow> fewer a c"
  by (simp add: fewer_def)

section \<open>Setting and clearing\<close>

lemma clear_touch:
  assumes I: "lfinv (st, pend)" and k: "unused st pend lock" "wf_rng (vw st lock)" "lf_blkhd (lf_mem st lock) = []"
    and sp: "unused st pend sp" "sp \<noteq> lock" and c: "lf_clearlock sp lock st = Some st'"
  shows "touch (lf_head (lf_mem st lock)) (lf_id (lf_mem st lock)) (ran pend) st st'" "fewer st st'"
proof -
  let ?h = "lf_head (lf_mem st lock)"
  from clear_inv [OF I k sp] c obtain l' where s: "lfinv (st', pend)" "frm (set (lf_heads st ?h)) sp st st'"
    "lf_heads st' = (lf_heads st)(?h := l')" "cleared (vw st) (lf_heads st ?h) (vw st lock) (vw st') l'" by auto
  have r: "locked st' = set_range ?h (lf_id (lf_mem st lock)) (lf_start (lf_mem st lock)) (lf_end (lf_mem st lock)) None (locked st)"
    by (rule locked_relist [OF I s(1,2) others_disjoint [OF I] sp(1) s(3)])
      (auto simp: cleared_held [OF s(4)] vw_fields covers_def in_range_def)
  then show "touch ?h (lf_id (lf_mem st lock)) (ran pend) st st'" using k(1) by (intro touch_list [OF I s(2) _ _ sp(1)]) (auto simp: live_def unused_def)
  show "fewer st st'" unfolding fewer_def r by (simp add: set_range_def)
qed

lemma link_touch:
  assumes I: "lfinv (st, pend)" and k: "req_ok st lock" "lock \<notin> ran pend" and sp: "unused st pend sp" "sp \<noteq> lock"
    and n: "\<forall>a \<in> set (lf_heads st (lf_head (lf_mem st lock))). \<not> blocks (vw st lock) (vw st a)"
    and c: "lf_link sp lock [] (lf_heads st (lf_head (lf_mem st lock))) True st = Some st'"
  shows "touch (lf_head (lf_mem st lock)) (lf_id (lf_mem st lock)) (ran pend) st st'"
proof -
  let ?h = "lf_head (lf_mem st lock)"
  from link_inv [OF I k sp n] c obtain l' where s: "lfinv (st', pend)" "frm (insert lock (set (lf_heads st ?h))) sp st st'"
    "lf_heads st' = (lf_heads st)(?h := l')" "linked (vw st) (lf_heads st ?h) (vw st lock) (vw st') l'" by auto
  have "lock \<notin> others st ?h" using k(1) by (auto simp: req_ok_def live_split [of st ?h])
  then have dis: "insert lock (set (lf_heads st ?h)) \<inter> others st ?h = {}" using others_disjoint [OF I] by simp
  have "locked st' = set_range ?h (lf_id (lf_mem st lock)) (lf_start (lf_mem st lock)) (lf_end (lf_mem st lock))
      (Some (lf_type (lf_mem st lock))) (locked st)"
    by (rule locked_relist [OF I s(1,2) dis sp(1) s(3)])
      (auto simp: linked_held [OF s(4)] vw_fields covers_def in_range_def)
  then show ?thesis using k(2) by (intro touch_list [OF I s(2) _ _ sp(1)]) (auto simp: live_def)
qed

text \<open>A round of \<open>lf_setlock\<close>; what sleeps keeps its owner and inode.\<close>

definition touches :: "nat \<Rightarrow> nat \<Rightarrow> nat set \<Rightarrow> nat \<Rightarrow> lfstate \<Rightarrow> (lfstate, 'r, nat) outcome \<Rightarrow> bool" where
  "touches head ident R lock st r \<longleftrightarrow> (case r of Return st' _ \<Rightarrow> touch head ident R st st' | Panic _ \<Rightarrow> False
     | Sleep st' w \<Rightarrow> w = lock \<and> touch head ident R st st' \<and> fewer st st' \<and> lf_id (lf_mem st' lock) = ident \<and> lf_head (lf_mem st' lock) = head)"

lemma touches_step: "touch head ident R a b \<Longrightarrow> fewer a b \<Longrightarrow> touches head ident R lock b r \<Longrightarrow> touches head ident R lock a r"
  by (auto simp: touches_def split: outcome.splits intro: touch_trans fewer_trans)

lemma setlock_touch:
  assumes I: "lfinv (st, pend)" and k: "req_ok st lock" "lock \<notin> ran pend" and sp: "unused st pend sp" "sp \<noteq> lock"
  shows "touches (lf_head (lf_mem st lock)) (lf_id (lf_mem st lock)) (ran pend) lock st (lf_setlock sp p lock st)"
  using I k(1)
proof (cases rule: setlock_block)
  case 1
  from link_inv [OF I k sp 1(2)] obtain st' where s: "lf_link sp lock [] (lf_heads st (lf_head (lf_mem st lock))) True st = Some st'" by blast
  have "lf_setlock sp p lock st = Return st' LfOk" using s by (simp add: lf_setlock_def Let_def 1(1))
  then show ?thesis using link_touch [OF I k sp 1(2) s] by (simp add: touches_def)
next
  case (2 b)
  let ?h = "lf_head (lf_mem st lock)" and ?i = "lf_id (lf_mem st lock)"
  note B = setlock_blocked [OF 2(1), of sp p]
  have u: "unused st pend lock" using k by (simp add: unused_def req_ok_def)
  have free: "touch ?h ?i (ran pend) st (lf_free lock st)" by (rule touch_same_core [OF same_core_free])
  have blk: "touches ?h ?i (ran pend) lock st (Sleep (lf_block p lock b st1) lock)"
    if "touch ?h ?i (ran pend) st st1" "fewer st st1" "lf_id (lf_mem st1 lock) = ?i" "lf_head (lf_mem st1 lock) = ?h" for st1
    using touch_trans [OF that(1) touch_same_core [OF block_same]] fewer_trans [OF that(2) fewer_same [OF locked_same_core [OF block_same]]]
      that(3,4) block_same [of st1 p lock b] by (simp add: touches_def same_core_def core_def)
  show ?thesis
  proof (cases "has_flag (lf_flags (lf_mem st lock)) F_FLOCK \<and> lf_type (lf_mem st lock) = F_WRLCK")
    case False
    then show ?thesis using free blk [OF touch_refl fewer_same [OF refl]] unfolding B if_not_P [OF False] by (simp add: touches_def)
  next
    case True
    let ?s = "upd_lf lock (\<lambda>l. l\<lparr>lf_type := F_UNLCK\<rparr>) st"
    from lfinv_release [OF I k conjunct2 [OF True] sp 2(2,3)] obtain st1 where c: "lf_clearlock sp lock ?s = Some st1" by blast
    have l: "live ?s = live st" by (simp add: live_def)
    have J: "lfinv (?s, pend)" "unused ?s pend lock" "wf_rng (vw ?s lock)" "lf_blkhd (lf_mem ?s lock) = []" "unused ?s pend sp"
      using lfinv_upd_unused [OF I u] u sp k(1) by (simp_all add: unused_def l req_ok_def wf_rng_def)
    have t1: "touch ?h ?i (ran pend) ?s st1" "fewer ?s st1" using clear_touch [OF J(1-4) J(5) sp(2) c] by simp_all
    from clear_inv [OF J(1-4) J(5) sp(2)] c obtain l' where f: "frm (set (lf_heads ?s ?h)) sp ?s st1"
      "lf_heads st1 = (lf_heads ?s)(?h := l')" "from_list (set (lf_heads ?s ?h)) sp (set l') st1" by auto
    have lo: "lock \<notin> set (lf_heads ?s ?h)" "lock \<noteq> sp" using u sp(2) by (auto simp: unused_def live_def)
    have e: "lf_id (lf_mem st1 lock) = ?i" "lf_head (lf_mem st1 lock) = ?h"
      using frmD(1,2) [OF f(1), of lock] lo vw_fields(1) [of st1 lock] vw_fields(1) [of ?s lock] by simp_all
    have "lock \<notin> set l'" using f(3) lo by (auto simp: from_list_def)
    then have u1: "unused st1 pend lock"
      using u by (auto simp: unused_def live_split [of st1 ?h] live_split [of st ?h] others_upd [OF f(2)] f(2) others_def)
    note t2 = touch_upd_unused [OF u1, of ?h ?i "\<lambda>l. l\<lparr>lf_type := F_WRLCK\<rparr>"]
    have t: "touch ?h ?i (ran pend) st (upd_lf lock (\<lambda>l. l\<lparr>lf_type := F_WRLCK\<rparr>) st1)"
      by (rule touch_trans [OF touch_trans [OF touch_upd_unused [OF u] t1(1)] t2])
    have "fewer st (upd_lf lock (\<lambda>l. l\<lparr>lf_type := F_WRLCK\<rparr>) st1)"
      by (rule fewer_trans [OF fewer_trans [OF fewer_same [OF locked_upd_unused [OF u]] t1(2)] fewer_same [OF locked_upd_unused [OF u1]]])
    then show ?thesis using free blk [OF t] e unfolding B if_P [OF True] c by (simp add: touches_def)
  qed
qed

section \<open>Steps\<close>

lemma advlock_touch:
  assumes I: "lfinv (st, pend)" and u: "unused st pend new" "unused st pend sp" "sp \<noteq> new" and a: "lf_args sz op fl"
  shows "touches head ident (ran pend) new st (lf_advlock new sp p head sz ident op fl flags st)"
proof (cases "\<exists>start en. flock_range sz fl = Some (start, en) \<and> (op = OpSetlk \<or> lf_heads st head \<noteq> [])
      \<and> lf_alloc new (pr_uid p) (if op = OpSetlk then 1 else 2) st \<noteq> None")
  case False
  from advlock_refused [OF this] obtain r where "lf_advlock new sp p head sz ident op fl flags st = Return st r" by blast
  then show ?thesis by (simp add: touches_def touch_refl)
next
  case True
  then obtain start en where r: "flock_range sz fl = Some (start, en)" "op = OpSetlk \<or> lf_heads st head \<noteq> []"
    "lf_alloc new (pr_uid p) (if op = OpSetlk then 1 else 2) st \<noteq> None" by blast
  let ?s = "lf_request new p head ident start en (l_type fl) flags st"
  note E = advlock_eq [OF r(1,3,2), where sp = sp and ident = ident and flags = flags]
  note J = request_inv [OF I u(1), where p = p and head = head and ident = ident and start = start and en = en
      and ty = "l_type fl" and flags = flags]
  have ws: "wf_rng (vw ?s new)" using flock_range_wf [OF r(1) a] by (simp add: request_fields wf_rng_def)
  have t0: "touch head ident (ran pend) st ?s" by (rule touch_request [OF u(1)])
  have U: "unused ?s pend new" "unused ?s pend sp" using u J(2) by simp_all
  have f: "lf_head (lf_mem ?s new) = head" "lf_id (lf_mem ?s new) = ident" by (simp_all add: lf_request_def)
  have free: "touch head ident (ran pend) ?s (lf_free new ?s)" by (rule touch_same_core [OF same_core_free])
  show ?thesis
  proof (rule touches_step [OF t0 fewer_same [OF request_locked [OF u(1)]]], cases op)
    case OpSetlk
    have "req_ok ?s new" using request_ok [OF u(1) r(1) a] a OpSetlk by (simp add: lf_args_def)
    from setlock_touch [OF J(1) this _ U(2) u(3), of "pr_addr p"] U(1)
    have "touches head ident (ran pend) new ?s (lf_setlock sp (pr_addr p) new ?s)" by (simp add: f unused_def)
    then show "touches head ident (ran pend) new ?s (lf_advlock new sp p head sz ident op fl flags st)"
      unfolding E unfolding OpSetlk Let_def by (auto simp: touches_def split: outcome.splits)
  next
    case OpUnlck
    from clear_inv [OF J(1) U(1) ws _ U(2) u(3)] obtain st' where c: "lf_clearlock sp new ?s = Some st'" by (auto simp: request_fields)
    from clear_touch(1) [OF J(1) U(1) ws _ U(2) u(3) c] have "touch head ident (ran pend) ?s st'" by (simp add: f request_fields)
    from touch_trans [OF this touch_same_core [OF same_core_free]] c
    show "touches head ident (ran pend) new ?s (lf_advlock new sp p head sz ident op fl flags st)"
      unfolding E unfolding OpUnlck Let_def by (simp add: touches_def)
  next
    case OpGetlk
    have "lf_getblock (lf_mem ?s) (lf_heads ?s (lf_head (lf_mem ?s new))) new \<noteq> None" by (simp add: getblock_inv [OF J(1) ws])
    then show "touches head ident (ran pend) new ?s (lf_advlock new sp p head sz ident op fl flags st)"
      unfolding E unfolding OpGetlk Let_def using free by (auto simp: touches_def lf_getlock_def Let_def split: option.split)
  next
    case OpOther
    show "touches head ident (ran pend) new ?s (lf_advlock new sp p head sz ident op fl flags st)"
      unfolding E unfolding OpOther Let_def using free by (simp add: touches_def)
  qed
qed

lemma woken_touch:
  assumes I: "lfinv (st, pend)" and k: "pend p = Some lock" and sp: "unused st pend sp"
  shows "touches (lf_head (lf_mem st lock)) (lf_id (lf_mem st lock)) (ran (pend(p := None))) lock st (lf_setlock_woken sp p lock error st)"
proof -
  let ?s = "lf_unblock p lock st"
  have E: "lf_setlock_woken sp p lock error st = (case error of Some e \<Rightarrow> Return (lf_free lock ?s) (LfError e)
      | None \<Rightarrow> lf_setlock sp p lock ?s)"
    by (simp add: lf_setlock_woken_def lf_unblock_def Let_def cong: option.case_cong)
  note J = unblock_inv [OF I k]
  have "lock \<in> ran pend" using k by (rule ranI)
  then have U: "sp \<noteq> lock" "unused ?s (pend(p := None)) sp"
    using sp by (auto simp: unused_def same_core_live [OF unblock_same] ran_def)
  have f: "lf_head (lf_mem ?s lock) = lf_head (lf_mem st lock)" "lf_id (lf_mem ?s lock) = lf_id (lf_mem st lock)"
    using unblock_same [of st p lock] by (simp_all add: same_core_def core_def)
  show ?thesis
  proof (rule touches_step [OF touch_same_core [OF unblock_same] fewer_same [OF locked_same_core [OF unblock_same]]])
    show "touches (lf_head (lf_mem st lock)) (lf_id (lf_mem st lock)) (ran (pend(p := None))) lock ?s (lf_setlock_woken sp p lock error st)"
      using setlock_touch [OF conjunct1 [OF J] _ _ U(2,1), of p] J touch_same_core [OF same_core_free]
      by (auto simp: E f touches_def split: option.split)
  qed
qed

text \<open>The requests of other processes than \<open>me\<close> are not made for the owner \<open>i\<close>.\<close>

definition foreign :: "nat \<Rightarrow> nat \<Rightarrow> lfstate \<Rightarrow> (nat \<rightharpoonup> nat) \<Rightarrow> bool" where
  "foreign me i st pend \<longleftrightarrow> (\<forall>q w. pend q = Some w \<longrightarrow> q \<noteq> me \<longrightarrow> lf_id (lf_mem st w) \<noteq> i)"

text \<open>A step of another process, for another owner.\<close>

definition lf_other :: "nat \<Rightarrow> nat \<Rightarrow> lf_event \<Rightarrow> bool" where
  "lf_other me i e = (case e of
       LfCall new sp p head sz ident op fl flags \<Rightarrow> pr_addr p \<noteq> me \<and> ident \<noteq> i
     | LfSignal p \<Rightarrow> True
     | LfWake sp p error \<Rightarrow> p \<noteq> me)"

lemma foreign_touch:
  assumes "foreign me i st pend" "touch head ident R st st'" "ran pend \<subseteq> R"
  shows "foreign me i st' pend"
  using assms(1) touchD(2) [OF assms(2) subsetD [OF assms(3) ranI]] by (auto simp: foreign_def)

lemma foreign_clear: "foreign me i st pend \<Longrightarrow> foreign me i st (pend(q := None))"
  by (auto simp: foreign_def split: if_splits)

lemma foreign_set: "foreign me i st (pend(q := None)) \<Longrightarrow> lf_id (lf_mem st w) \<noteq> i \<or> q = me \<Longrightarrow> foreign me i st (pend(q \<mapsto> w))"
  unfolding foreign_def by (metis fun_upd_apply option.inject)

text \<open>What such a step keeps for the owner \<open>i\<close> and the process \<open>me\<close>.\<close>

definition unmoved :: "nat \<Rightarrow> nat \<Rightarrow> lfstate \<times> (nat \<rightharpoonup> nat) \<Rightarrow> lfstate \<times> (nat \<rightharpoonup> nat) \<Rightarrow> bool" where
  "unmoved me i = (\<lambda>(st, pend) (st', pend'). (\<forall>h b. locked st' h i b = locked st h i b) \<and> pend' me = pend me \<and> foreign me i st' pend'
     \<and> (\<forall>w. pend me = Some w \<longrightarrow> lf_id (lf_mem st' w) = lf_id (lf_mem st w) \<and> lf_head (lf_mem st' w) = lf_head (lf_mem st w)))"

lemma unmoved_returns:
  assumes "touch head ident (ran (pend(q := None))) st st'" "ident \<noteq> i" "q \<noteq> me" "foreign me i st pend"
  shows "unmoved me i (st, pend) (st', pend(q := None))"
proof -
  have "w \<in> ran (pend(q := None))" if "pend me = Some w" for w using that assms(3) by (intro ranI [of _ me]) simp
  then show ?thesis using assms foreign_touch [OF foreign_clear [OF assms(4)] assms(1) order_refl] touchD [OF assms(1)]
    by (simp add: unmoved_def)
qed

lemma unmoved_sleeps:
  assumes "touch head ident (ran (pend(q := None))) st st'" "ident \<noteq> i" "q \<noteq> me" "foreign me i st pend" "lf_id (lf_mem st' w) = ident"
  shows "unmoved me i (st, pend) (st', pend(q \<mapsto> w))"
  using unmoved_returns [OF assms(1-4)] foreign_set [of me i st' pend q w] assms(2,3,5) by (simp add: unmoved_def)

lemma other_step:
  assumes S: "lf_step (st, pend) e (st', pend')" and I: "lfinv (st, pend)" and F: "foreign me i st pend" and O: "lf_other me i e"
  shows "unmoved me i (st, pend) (st', pend')"
  using S
proof cases
  case (call_returns new sp p sz op fl head ident flags r)
  have n: "pend(pr_addr p := None) = pend" using call_returns by (auto simp: lf_ready_def fun_upd_idem)
  have "touches head ident (ran pend) new st (Return st' r)"
    using advlock_touch [OF I, of new sp sz op fl head ident p flags] call_returns by (simp add: lf_ready_def)
  then show ?thesis using unmoved_returns [of head ident pend "pr_addr p" st st' i me] F O call_returns by (simp add: touches_def n lf_other_def)
next
  case (call_sleeps new sp p sz op fl head ident flags w)
  have n: "pend(pr_addr p := None) = pend" using call_sleeps by (auto simp: lf_ready_def fun_upd_idem)
  have "touch head ident (ran pend) st st' \<and> lf_id (lf_mem st' w) = ident"
    using advlock_touch [OF I, of new sp sz op fl head ident p flags] call_sleeps by (auto simp: lf_ready_def touches_def)
  then show ?thesis using unmoved_sleeps [of head ident pend "pr_addr p" st st' i me w] F O call_sleeps by (simp add: n lf_other_def)
next
  case (signal p w)
  have c: "same_core st st'" using signal by (simp add: same_core_def)
  then have "foreign me i st' pend'" using foreign_touch [OF F touch_same_core [OF c, of 0 0 UNIV]] signal by simp
  then show ?thesis unfolding unmoved_def prod.case locked_same_core [OF c] using signal by simp
next
  case (wake_returns p w sp error r)
  have "touches (lf_head (lf_mem st w)) (lf_id (lf_mem st w)) (ran (pend(p := None))) w st (Return st' r)"
    using woken_touch [OF I, of p w sp error] wake_returns by simp
  moreover have "p \<noteq> me" "lf_id (lf_mem st w) \<noteq> i" using F O wake_returns by (auto simp: lf_other_def foreign_def)
  ultimately show ?thesis using unmoved_returns [of "lf_head (lf_mem st w)" "lf_id (lf_mem st w)" pend p st st' i me] F wake_returns
    by (simp add: touches_def)
next
  case (wake_sleeps p w sp error w')
  have "touch (lf_head (lf_mem st w)) (lf_id (lf_mem st w)) (ran (pend(p := None))) st st' \<and> lf_id (lf_mem st' w') = lf_id (lf_mem st w)"
    using woken_touch [OF I, of p w sp error] wake_sleeps by (auto simp: touches_def)
  moreover have "p \<noteq> me" "lf_id (lf_mem st w) \<noteq> i" using F O wake_sleeps by (auto simp: lf_other_def foreign_def)
  ultimately show ?thesis using unmoved_sleeps [of "lf_head (lf_mem st w)" "lf_id (lf_mem st w)" pend p st st' i me w'] F wake_sleeps
    by simp
qed

end
