(* ===== verification/Lockf_Deadlock.thy ===== *)
theory Lockf_Deadlock
  imports Lockf_Owner
begin

text \<open>
  The deadlock check of \<open>lf_setlock\<close> with the owners its callers pass. The check reads the wait channel of a process at the address
  \<open>lf_id\<close>, but \<open>sys_fcntl\<close> and \<open>closef\<close> pass the descriptor table of the process, and \<open>sys_flock\<close> the file
  (kern/kern_descrip.c). So \<open>p_wchan\<close> at such an address stands for what the code reads there. It is taken to be no wait
  for a lock: the words of a table at the places of \<open>p_wchan\<close> and \<open>p_wmesg\<close> would have to be a pointer and the
  address of the string of \<open>lf_setlock\<close>.
\<close>

section \<open>Owners that are not processes\<close>








section \<open>The check finds nothing\<close>










end
