(* ===== verification/Fd_Bitmap.thy ===== *)
theory Fd_Bitmap
  imports Prelude
begin

text \<open>
  The search for a clear bit in the descriptor bitmaps of kern/kern_descrip.c, with the
  \<open>ffs\<close> of lib/libkern. A read outside the bitmap is the value None.
\<close>

section \<open>Find first set\<close>

definition ffs_table :: "int list" where
  "ffs_table = [-28, 1, 2, 1, 3, 1, 2, 1, 4, 1, 2, 1, 3, 1, 2, 1]"

definition ffs :: "u_int \<Rightarrow> int" where
  "ffs msk =
     (let (bit0, r0) = (0, msk);
          (bit1, r1) = (if r0 AND 0xffff = 0 then (bit0 + 16, drop_bit 16 r0) else (bit0, r0));
          (bit2, r2) = (if r1 AND 0xff = 0 then (bit1 + 8, drop_bit 8 r1) else (bit1, r1));
          (bit3, r3) = (if r2 AND 0xf = 0 then (bit2 + 4, drop_bit 4 r2) else (bit2, r2))
      in bit3 + ffs_table ! unat (r3 AND 0xf))"

text \<open>The lowest set bit.\<close>

definition low_bit :: "u_int \<Rightarrow> nat \<Rightarrow> bool" where
  "low_bit w n \<longleftrightarrow> bit w n \<and> (\<forall>m < n. \<not> bit w m)"

lemma low_bit_shift:
  assumes "w AND mask k = 0"
  shows "low_bit (drop_bit k w) n \<longleftrightarrow> low_bit w (k + n)"
proof -
  have z: "\<not> bit w m" if "m < k" for m
  proof -
    have "bit (w AND mask k) m \<longleftrightarrow> bit w m"
      using that by (auto simp: bit_and_iff bit_mask_iff dest: bit_imp_le_length)
    with assms show ?thesis by simp
  qed
  have "(\<forall>m < n. \<not> bit w (k + m)) \<longleftrightarrow> (\<forall>m < k + n. \<not> bit w m)"
  proof
    assume a: "\<forall>m < n. \<not> bit w (k + m)"
    show "\<forall>m < k + n. \<not> bit w m"
    proof (intro allI impI)
      fix m assume "m < k + n"
      show "\<not> bit w m"
      proof (cases "m < k")
        case False
        with a [rule_format, of "m - k"] \<open>m < k + n\<close> show ?thesis by simp
      qed (rule z)
    qed
  qed auto
  then show ?thesis by (auto simp: low_bit_def bit_drop_bit_eq)
qed

lemma ffs_nibble_table: "\<forall>x \<in> set [1..<16]. low_bit (of_nat x) (nat (ffs_table ! x - 1)) \<and>
    ffs_table ! x \<in> {1, 2, 3, 4}"
  by code_simp

lemma low_bit_nibble:
  assumes "n < 4"
  shows "low_bit (w AND 0xf) n \<longleftrightarrow> low_bit w n"
proof -
  have m: "(0xf :: u_int) = mask 4" by (simp add: mask_eq_exp_minus_1)
  have "bit (w AND 0xf) i \<longleftrightarrow> bit w i" if "i < 4" for i
    unfolding m using that by (simp add: bit_and_iff bit_mask_iff)
  with assms show ?thesis by (auto simp: low_bit_def)
qed

lemma ffs_nibble:
  fixes r :: u_int
  assumes "r AND 0xf \<noteq> 0"
  shows "low_bit r (nat (ffs_table ! unat (r AND 0xf) - 1)) \<and> 1 \<le> ffs_table ! unat (r AND 0xf)"
proof -
  let ?x = "unat (r AND 0xf)"
  have "r AND 0xf \<le> 0xf" by (rule word_and_le1)
  then have "?x < 16" by (simp add: word_le_nat_alt)
  moreover have "?x \<noteq> 0" using assms by (metis unat_eq_zero)
  ultimately have t: "low_bit (r AND 0xf) (nat (ffs_table ! ?x - 1))" "ffs_table ! ?x \<in> {1, 2, 3, 4}"
    using bspec [OF ffs_nibble_table, of ?x] by auto
  then show ?thesis using low_bit_nibble [of "nat (ffs_table ! ?x - 1)" r] by auto
qed

lemma low_bit_unique: "low_bit w m \<Longrightarrow> low_bit w n \<Longrightarrow> m = n"
  unfolding low_bit_def by (metis linorder_neqE_nat)

lemma low_bit_mask: "low_bit w n \<Longrightarrow> w AND mask k = 0 \<longleftrightarrow> k \<le> n"
proof -
  assume l: "low_bit w n"
  then have n: "n < 32" using bit_imp_le_length [of w n] by (simp add: low_bit_def)
  show ?thesis
  proof
    assume z: "w AND mask k = 0"
    show "k \<le> n"
    proof (rule ccontr)
      assume "\<not> k \<le> n"
      then have "bit (w AND mask k) n" using l n by (simp add: low_bit_def bit_and_iff bit_mask_iff)
      with z show False by simp
    qed
  next
    assume "k \<le> n"
    with l show "w AND mask k = 0"
      by (intro bit_word_eqI) (auto simp: low_bit_def bit_and_iff bit_mask_iff)
  qed
qed

lemma low_bit_exists: "w \<noteq> 0 \<Longrightarrow> \<exists>n. low_bit w n"
proof -
  assume "w \<noteq> 0"
  then obtain i where "bit w i" using bit_word_eqI [of w 0] by fastforce
  then have "bit w (LEAST i. bit w i)" by (rule LeastI)
  moreover have "\<not> bit w m" if "m < (LEAST i. bit w i)" for m using that by (rule not_less_Least)
  ultimately show ?thesis unfolding low_bit_def by blast
qed

lemma ffs_stage:
  assumes "low_bit r m" "m < 2 * k"
  shows "\<exists>m'. (case (if r AND mask k = 0 then (b + int k, drop_bit k r) else (b, r)) of
    (b', r') \<Rightarrow> low_bit r' m' \<and> m' < k \<and> b' + int m' = b + int m)"
proof (cases "r AND mask k = 0")
  case True
  then have "k \<le> m" using low_bit_mask [OF assms(1)] by simp
  moreover have "low_bit (drop_bit k r) (m - k)"
    using low_bit_shift [OF True, of "m - k"] assms(1) \<open>k \<le> m\<close> by simp
  ultimately show ?thesis using True assms(2) by (intro exI [of _ "m - k"]) auto
next
  case False
  then show ?thesis using low_bit_mask [OF assms(1)] assms by (intro exI [of _ m]) auto
qed

lemma ffs_low_bit:
  assumes "low_bit w n"
  shows "ffs w = int n + 1"
proof -
  have masks: "(0xffff :: u_int) = mask 16" "(0xff :: u_int) = mask 8" "(0xf :: u_int) = mask 4"
    by (simp_all add: mask_eq_exp_minus_1)
  have "n < 2 * 16" using assms bit_imp_le_length [of w n] by (simp add: low_bit_def)
  from ffs_stage [OF assms this, of 0] obtain b1 r1 m1 where
    s1: "(if w AND mask 16 = 0 then (0 + int 16, drop_bit 16 w) else (0, w)) = (b1, r1)"
      "low_bit r1 m1" "m1 < 2 * 8" "b1 + int m1 = int n" by auto
  from ffs_stage [OF s1(2,3), of b1] obtain b2 r2 m2 where
    s2: "(if r1 AND mask 8 = 0 then (b1 + int 8, drop_bit 8 r1) else (b1, r1)) = (b2, r2)"
      "low_bit r2 m2" "m2 < 2 * 4" "b2 + int m2 = int n" using s1(4) by auto
  from ffs_stage [OF s2(2,3), of b2] obtain b3 r3 m3 where
    s3: "(if r2 AND mask 4 = 0 then (b2 + int 4, drop_bit 4 r2) else (b2, r2)) = (b3, r3)"
      "low_bit r3 m3" "m3 < 4" "b3 + int m3 = int n" using s2(4) by auto
  have "r3 AND 0xf \<noteq> 0" using low_bit_mask [OF s3(2), of 4] s3(3) by (simp add: masks)
  from ffs_nibble [OF this] s3(2) have t: "ffs_table ! unat (r3 AND 0xf) = int m3 + 1"
    using low_bit_unique [of r3 m3] by fastforce
  have "ffs w = b3 + ffs_table ! unat (r3 AND 0xf)"
    using s1(1) s2(1) s3(1) by (simp only: ffs_def Let_def prod.case masks of_nat_numeral)
  with t s3(4) show ?thesis by simp
qed

section \<open>The bitmap search\<close>

definition NDENTRIES :: nat where "NDENTRIES = 32"

definition NDREDUCE :: "nat \<Rightarrow> nat" where "NDREDUCE x = (x + NDENTRIES - 1) div NDENTRIES"

definition NDHISLOTS :: "nat \<Rightarrow> nat" where "NDHISLOTS x = NDREDUCE (NDREDUCE x)"

definition NDLOSLOTS :: "nat \<Rightarrow> nat" where "NDLOSLOTS x = NDHISLOTS x * NDENTRIES"

definition zero_in :: "u_int \<Rightarrow> nat \<Rightarrow> nat" where
  "zero_in sub off = nat (int (off * NDENTRIES) + ffs (NOT sub) - 1)"

text \<open>The \<open>while\<close> loop; \<open>Some None\<close> is the result -1.\<close>

function find_zero_from :: "u_int list \<Rightarrow> nat \<Rightarrow> nat \<Rightarrow> nat option option" where
  "find_zero_from bitmap off maxoff =
     (if off < maxoff then
        (if off < length bitmap then
           (if bitmap ! off \<noteq> -1 then Some (Some (zero_in (bitmap ! off) off))
            else find_zero_from bitmap (off + 1) maxoff)
         else None)
      else Some None)"
  by pat_completeness auto

termination
  by (relation "measure (\<lambda>(bitmap, off, maxoff). maxoff - off)") auto

declare find_zero_from.simps [simp del]

definition find_next_zero :: "u_int list \<Rightarrow> nat \<Rightarrow> nat \<Rightarrow> nat option option" where
  "find_next_zero bitmap want bits =
     (if want > bits then Some None
      else
        let off = want div NDENTRIES; i = want mod NDENTRIES in
        if i \<noteq> 0 then
          (if off < length bitmap then
             let sub = bitmap ! off OR drop_bit (NDENTRIES - i) (-1) in
             if sub \<noteq> -1 then Some (Some (zero_in sub off))
             else find_zero_from bitmap (off + 1) (NDLOSLOTS bits)
           else None)
        else find_zero_from bitmap off (NDLOSLOTS bits))"

definition ubit :: "u_int list \<Rightarrow> nat \<Rightarrow> bool" where
  "ubit m n = bit (m ! (n div 32)) (n mod 32)"

text \<open>The first clear bit at or above \<open>a\<close>.\<close>

definition first_zero :: "u_int list \<Rightarrow> nat \<Rightarrow> nat \<Rightarrow> bool" where
  "first_zero m a n \<longleftrightarrow> a \<le> n \<and> n < 32 * length m \<and> \<not> ubit m n \<and> (\<forall>i. a \<le> i \<and> i < n \<longrightarrow> ubit m i)"

lemma low_zero:
  assumes "sub \<noteq> (-1 :: u_int)"
  obtains n where "n < 32" "zero_in sub off = 32 * off + n" "\<not> bit sub n" "\<forall>m < n. bit sub m"
proof -
  have "NOT sub \<noteq> 0" using assms by (metis bit.double_compl bit.compl_zero)
  then obtain n where n: "low_bit (NOT sub) n" using low_bit_exists by blast
  then have b: "n < 32" using bit_imp_le_length [of "NOT sub" n] by (simp add: low_bit_def)
  have "zero_in sub off = 32 * off + n"
    using ffs_low_bit [OF n] by (simp add: zero_in_def NDENTRIES_def)
  moreover have "\<not> bit sub n" "\<forall>m < n. bit sub m"
    using n b by (auto simp: low_bit_def bit_not_iff)
  ultimately show thesis using that b by blast
qed

lemma full_word: "m ! off = -1 \<Longrightarrow> i div 32 = off \<Longrightarrow> ubit m i"
  by (simp add: ubit_def)

lemma find_zero_from_spec:
  assumes "32 * off \<le> z" "z < 32 * length m" "\<not> ubit m z"
  shows "case find_zero_from m off maxoff of
      None \<Rightarrow> False
    | Some None \<Rightarrow> \<forall>i. 32 * off \<le> i \<and> i < 32 * maxoff \<longrightarrow> ubit m i
    | Some (Some n) \<Rightarrow> first_zero m (32 * off) n"
  using assms
proof (induction m off maxoff rule: find_zero_from.induct)
  case (1 m off maxoff)
  show ?case
  proof (cases "off < maxoff")
    case False
    then show ?thesis by (subst find_zero_from.simps) auto
  next
    case lt: True
    have len: "off < length m" using "1.prems"(1,2) by linarith
    show ?thesis
    proof (cases "m ! off = -1")
      case False
      obtain n where n: "n < 32" "zero_in (m ! off) off = 32 * off + n" "\<not> bit (m ! off) n"
        "\<forall>j < n. bit (m ! off) j" using low_zero [OF False, of off] by blast
      have "ubit m i" if "32 * off \<le> i" "i < 32 * off + n" for i
      proof -
        define j where "j = i - 32 * off"
        have j: "i = j + 32 * off" "j < n" using that by (auto simp: j_def)
        then have "i div 32 = off" "i mod 32 = j" using n(1) by auto
        with n(4) j show ?thesis by (simp add: ubit_def)
      qed
      moreover have "\<not> ubit m (32 * off + n)" using n by (simp add: ubit_def)
      ultimately have "first_zero m (32 * off) (32 * off + n)" using len n(1) by (auto simp: first_zero_def)
      then show ?thesis using lt len False n(2) by (subst find_zero_from.simps) simp
    next
      case True
      have z: "32 * (off + 1) \<le> z"
      proof (rule ccontr)
        assume "\<not> ?thesis"
        then have "z div 32 = off" using "1.prems"(1) by (intro div_nat_eqI) auto
        with True full_word "1.prems"(3) show False by blast
      qed
      have below: "ubit m i" if "32 * off \<le> i" "i < 32 * (off + 1)" for i
      proof -
        have "i div 32 = off" using that by (intro div_nat_eqI) auto
        with True show ?thesis by (rule full_word)
      qed
      from "1.IH" [OF lt len] True "1.prems"(2,3) z have ih: "case find_zero_from m (off + 1) maxoff of
          None \<Rightarrow> False
        | Some None \<Rightarrow> \<forall>i. 32 * (off + 1) \<le> i \<and> i < 32 * maxoff \<longrightarrow> ubit m i
        | Some (Some n) \<Rightarrow> first_zero m (32 * (off + 1)) n" by simp
      have "find_zero_from m off maxoff = find_zero_from m (off + 1) maxoff"
        using lt len True by (subst find_zero_from.simps) simp
      with ih show ?thesis
        using below by (auto simp: first_zero_def not_le split: option.splits) (metis not_le)+
    qed
  qed
qed

lemma bit_low_mask:
  assumes "0 < i" "i < 32"
  shows "bit (w OR drop_bit (32 - i) (-1 :: u_int)) j \<longleftrightarrow> bit w j \<or> j < i"
proof -
  have "bit (drop_bit (32 - i) (-1 :: u_int)) j \<longleftrightarrow> j < i"
    using assms by (auto simp: bit_drop_bit_eq bit_minus_1_iff possible_bit_def bit_mask_iff)
  then show ?thesis by (simp add: bit_or_iff)
qed

lemma first_zero_later:
  assumes "first_zero m b n" "a \<le> b" "\<forall>i. a \<le> i \<and> i < b \<longrightarrow> ubit m i"
  shows "first_zero m a n"
  using assms by (auto simp: first_zero_def) (metis not_le)

lemma find_next_zero_spec:
  assumes "want \<le> bits" and z: "want \<le> z" "z < 32 * length m" "\<not> ubit m z"
  shows "case find_next_zero m want bits of
      None \<Rightarrow> False
    | Some None \<Rightarrow> \<forall>i. want \<le> i \<and> i < 32 * NDLOSLOTS bits \<longrightarrow> ubit m i
    | Some (Some n) \<Rightarrow> first_zero m want n"
proof -
  define off where "off = want div 32"
  define i where "i = want mod 32"
  have want: "want = 32 * off + i" "i < 32" by (simp_all add: off_def i_def)
  show ?thesis
  proof (cases "i = 0")
    case True
    then have "find_next_zero m want bits = find_zero_from m off (NDLOSLOTS bits)"
      using assms(1) by (simp add: find_next_zero_def NDENTRIES_def Let_def off_def i_def)
    moreover have w: "want = 32 * off" using want True by simp
    ultimately show ?thesis
      using find_zero_from_spec [of off z m "NDLOSLOTS bits"] z by (simp only: w simp_thms)
  next
    case False
    have len: "off < length m" using z(1,2) want by linarith
    let ?sub = "m ! off OR drop_bit (32 - i) (-1)"
    have sub: "bit ?sub j \<longleftrightarrow> bit (m ! off) j \<or> j < i" for j
      using bit_low_mask [of i "m ! off" j] False want(2) by simp
    have at: "ubit m (32 * off + j) \<longleftrightarrow> bit (m ! off) j" if "j < 32" for j
      using that by (simp add: ubit_def)
    have eq: "find_next_zero m want bits = (if ?sub \<noteq> -1 then Some (Some (zero_in ?sub off))
        else find_zero_from m (off + 1) (NDLOSLOTS bits))"
      using assms(1) False len by (simp add: find_next_zero_def NDENTRIES_def Let_def off_def i_def)
    show ?thesis
    proof (cases "?sub = -1")
      case nfull: False
      obtain n where n: "n < 32" "zero_in ?sub off = 32 * off + n" "\<not> bit ?sub n" "\<forall>j < n. bit ?sub j"
        using low_zero [OF nfull, of off] by blast
      have "i \<le> n" "\<not> bit (m ! off) n" using n(3) sub [of n] by auto
      moreover have "ubit m k" if "want \<le> k" "k < 32 * off + n" for k
      proof -
        define j where "j = k - 32 * off"
        have j: "k = 32 * off + j" using want(1) that(1) by (simp add: j_def)
        with n(1) that at [of j] n(4) sub [of j] want show ?thesis by auto
      qed
      ultimately have "first_zero m want (32 * off + n)"
        using want n(1) len at [of n] by (auto simp: first_zero_def)
      with eq nfull n(2) show ?thesis by simp
    next
      case full: True
      have rest: "ubit m k" if "want \<le> k" "k < 32 * (off + 1)" for k
      proof -
        define j where "j = k - 32 * off"
        have j: "k = 32 * off + j" using want(1) that(1) by (simp add: j_def)
        have "bit ?sub j" using full j that(2) by (simp add: bit_minus_1_iff possible_bit_def)
        with j at [of j] sub [of j] want that show ?thesis by auto
      qed
      have "32 * (off + 1) \<le> z" using rest z by (meson not_le)
      from find_zero_from_spec [OF this z(2,3), of "NDLOSLOTS bits"] rest eq full want show ?thesis
        by (auto split: option.splits intro: first_zero_later) (metis not_le)
    qed
  qed
qed

lemma find_zero_from_ge: "find_zero_from m off maxoff = Some (Some n) \<Longrightarrow> 32 * off \<le> n"
proof (induction m off maxoff rule: find_zero_from.induct)
  case (1 m off maxoff)
  show ?case
  proof (cases "m ! off = -1")
    case True
    then have "off < maxoff \<and> off < length m \<and> find_zero_from m (off + 1) maxoff = Some (Some n)"
      using "1.prems" by (subst (asm) find_zero_from.simps) (auto split: if_splits)
    with "1.IH" True show ?thesis by fastforce
  next
    case False
    then have "n = zero_in (m ! off) off"
      using "1.prems" by (subst (asm) find_zero_from.simps) (auto split: if_splits)
    moreover obtain k where "zero_in (m ! off) off = 32 * off + k" using low_zero [OF False] by blast
    ultimately show ?thesis by simp
  qed
qed

text \<open>Whatever the map holds, a result is at or above the start, and the start was in range.\<close>

lemma find_next_zero_ge:
  assumes "find_next_zero m want bits = Some (Some n)"
  shows "want \<le> n \<and> want \<le> bits"
proof -
  define off where "off = want div 32"
  define i where "i = want mod 32"
  let ?sub = "m ! off OR drop_bit (32 - i) (-1)"
  have want: "want = 32 * off + i" "i < 32" by (simp_all add: off_def i_def)
  have b: "want \<le> bits" using assms by (auto simp: find_next_zero_def split: if_splits)
  have eq: "find_next_zero m want bits = (if i \<noteq> 0
      then (if off < length m
        then (if ?sub \<noteq> -1 then Some (Some (zero_in ?sub off)) else find_zero_from m (off + 1) (NDLOSLOTS bits))
        else None)
      else find_zero_from m off (NDLOSLOTS bits))"
    using b by (simp only: find_next_zero_def NDENTRIES_def Let_def off_def i_def not_less [symmetric] if_False)
  consider (here) "i \<noteq> 0" "?sub \<noteq> -1" "n = zero_in ?sub off"
    | (rest) "i \<noteq> 0" "find_zero_from m (off + 1) (NDLOSLOTS bits) = Some (Some n)"
    | (all) "i = 0" "find_zero_from m off (NDLOSLOTS bits) = Some (Some n)"
    using assms unfolding eq by (metis option.inject option.simps(3))
  then have "want \<le> n"
  proof cases
    case here
    obtain k where k: "zero_in ?sub off = 32 * off + k" "\<not> bit ?sub k" using low_zero [OF here(2)] by metis
    then have "i \<le> k" using bit_low_mask [of i "m ! off" k] here(1) want(2) by auto
    with here(3) k(1) want show ?thesis by simp
  next
    case rest
    with find_zero_from_ge [OF rest(2)] want show ?thesis by simp
  next
    case all
    with find_zero_from_ge [OF all(2)] want show ?thesis by simp
  qed
  with b show ?thesis by simp
qed

lemma ubit_drop: "k \<le> length m \<Longrightarrow> ubit (drop k m) j = ubit m (32 * k + j)"
  by (simp add: ubit_def)

text \<open>
  \<open>find_next_zero\<close> bounds its loop by \<open>NDLOSLOTS(bits)\<close>, a number of words for that many
  words, where \<open>bits\<close> counts bits. On a full map of 32 bits in one word it reads past
  the end of the map instead of returning -1.
\<close>

theorem find_next_zero_overrun: "find_next_zero [-1] 0 32 = None \<and> NDLOSLOTS 32 = 32"
proof -
  have n: "NDLOSLOTS 32 = 32" by (simp add: NDLOSLOTS_def NDHISLOTS_def NDREDUCE_def NDENTRIES_def)
  have "find_zero_from [-1] (Suc 0) 32 = None" by (subst find_zero_from.simps) simp
  then have "find_zero_from [-1] 0 32 = None" by (subst find_zero_from.simps) simp
  with n show ?thesis by (simp add: find_next_zero_def NDENTRIES_def)
qed

end
