(* ===== verification/Fdesc.thy ===== *)
theory Fdesc
  imports Fd_Bitmap
begin

text \<open>
  The descriptor table of a process, kern/kern_descrip.c: the table and its bitmaps, the
  allocation of the lowest free descriptor, growing, duplicating, closing, copying and freeing a
  table. The open files are a store indexed by address; \<open>filehead\<close> lists the live ones, and a
  freed file keeps its last contents, as memory does. The calls that leave the component are
  kept in order in \<open>k_calls\<close>. The value None stands for an access outside
  an array, for a panic, and for a sleep until other users of a file let go of it.
\<close>

section \<open>Data\<close>

type_synonym fid = nat

record kfile =
  f_flag :: u_int
  f_type :: nat
  f_count :: int
  f_cred :: nat
  f_ops :: bool
  f_iflags :: u_int
  f_usecount :: int

record filedesc =
  fd_ofiles :: "fid option list"
  fd_ofileflags :: "u_char list"
  fd_cdir :: "nat option"
  fd_rdir :: "nat option"
  fd_nfiles :: nat
  fd_himap :: "u_int list"
  fd_lomap :: "u_int list"
  fd_lastfile :: nat
  fd_freefile :: nat
  fd_cmask :: u_short
  fd_refcnt :: u_short
  fd_knlistsize :: int
  fd_flags :: u_int

datatype fdcall =
    Knote_fdclose nat | Advlock_unlock fid | Fo_close fid | Wakeup fid
  | Crhold nat | Crfree nat | Vref nat | Vrele nat | Tablefull
  | Ioctl_FIONBIO fid u_int | Ioctl_FIOASYNC fid u_int

record kfs =
  k_file :: "fid \<Rightarrow> kfile"
  filehead :: "fid list"
  nfiles :: int
  maxfiles :: nat
  p_fd :: filedesc
  rlim_nofile :: u_long
  p_ucred :: nat
  k_calls :: "fdcall list"

definition NDFILE :: nat where "NDFILE = 20"
definition NDEXTENT :: nat where "NDEXTENT = 50"
definition UF_EXCLOSE :: u_char where "UF_EXCLOSE = 1"
definition FD_ADVLOCK :: u_int where "FD_ADVLOCK = 1"
definition FIF_WANTCLOSE :: u_int where "FIF_WANTCLOSE = 1"
definition FIF_LARVAL :: u_int where "FIF_LARVAL = 2"
definition DTYPE_VNODE :: nat where "DTYPE_VNODE = 1"
definition DTYPE_KQUEUE :: nat where "DTYPE_KQUEUE = 4"
definition F_COUNT_MAX :: int where "F_COUNT_MAX = 2 ^ 63 - 1 - 2"

definition FILE_IS_USABLE :: "kfile \<Rightarrow> bool" where
  "FILE_IS_USABLE f \<longleftrightarrow> \<not> has_flag (f_iflags f) (FIF_WANTCLOSE OR FIF_LARVAL)"

section \<open>References to a file\<close>

definition upd_file :: "kfs \<Rightarrow> fid \<Rightarrow> (kfile \<Rightarrow> kfile) \<Rightarrow> kfs" where
  "upd_file s fp u = s\<lparr>k_file := (k_file s)(fp := u (k_file s fp))\<rparr>"

definition call :: "kfs \<Rightarrow> fdcall \<Rightarrow> kfs" where
  "call s c = s\<lparr>k_calls := k_calls s @ [c]\<rparr>"

definition FREF :: "kfs \<Rightarrow> fid \<Rightarrow> kfs" where
  "FREF s fp = upd_file s fp (\<lambda>f. f\<lparr>f_usecount := f_usecount f + 1\<rparr>)"

definition FRELE :: "kfs \<Rightarrow> fid \<Rightarrow> kfs" where
  "FRELE s fp =
     (let s1 = upd_file s fp (\<lambda>f. f\<lparr>f_usecount := f_usecount f - 1\<rparr>)
      in if has_flag (f_iflags (k_file s1 fp)) FIF_WANTCLOSE then call s1 (Wakeup fp) else s1)"

definition FILE_SET_MATURE :: "kfs \<Rightarrow> fid \<Rightarrow> kfs" where
  "FILE_SET_MATURE s fp =
     FRELE (upd_file s fp (\<lambda>f. f\<lparr>f_iflags := f_iflags f AND NOT FIF_LARVAL\<rparr>)) fp"

section \<open>Marking descriptors\<close>

fun scan_words :: "u_int list \<Rightarrow> nat \<Rightarrow> nat option option" where
  "scan_words bitmap 0 = Some None"
| "scan_words bitmap (Suc off) =
     (if off < length bitmap then
        (if bitmap ! off = 0 then scan_words bitmap off else Some (Some off))
      else None)"

fun scan_files :: "fid option list \<Rightarrow> nat \<Rightarrow> nat option" where
  "scan_files ofiles 0 = Some 0"
| "scan_files ofiles (Suc i) =
     (if Suc i < length ofiles then
        (if ofiles ! Suc i = None then scan_files ofiles i else Some (Suc i))
      else None)"

text \<open>For \<open>lst\<close> 0 the first word is number -1, and the search finds nothing.\<close>

definition find_last_set :: "filedesc \<Rightarrow> nat \<Rightarrow> nat option" where
  "find_last_set fd lst =
     (let start = (if lst = 0 then 0 else (lst - 1) div NDENTRIES + 1) in
      case scan_words (fd_lomap fd) start of
        None \<Rightarrow> None
      | Some None \<Rightarrow> Some 0
      | Some (Some off) \<Rightarrow>
          let i = (off + 1) * NDENTRIES - 1;
              i' = (if i \<ge> lst then lst - 1 else i)
          in scan_files (fd_ofiles fd) i')"

definition fd_used :: "filedesc \<Rightarrow> nat \<Rightarrow> filedesc option" where
  "fd_used fdp fd =
     (let off = fd div NDENTRIES in
      if off < length (fd_lomap fdp) then
        let w = fd_lomap fdp ! off OR push_bit (fd mod NDENTRIES) 1;
            fdp1 = fdp\<lparr>fd_lomap := (fd_lomap fdp)[off := w]\<rparr>;
            h = off div NDENTRIES
        in if w = -1 \<and> length (fd_himap fdp1) \<le> h then None
           else
             let fdp2 = (if w = -1
                   then fdp1\<lparr>fd_himap := (fd_himap fdp1)[h := fd_himap fdp1 ! h OR push_bit (off mod NDENTRIES) 1]\<rparr>
                   else fdp1)
             in Some (if fd > fd_lastfile fdp2 then fdp2\<lparr>fd_lastfile := fd\<rparr> else fdp2)
      else None)"

definition fd_unused :: "filedesc \<Rightarrow> nat \<Rightarrow> filedesc option" where
  "fd_unused fdp fd =
     (let off = fd div NDENTRIES;
          fdp0 = (if fd < fd_freefile fdp then fdp\<lparr>fd_freefile := fd\<rparr> else fdp)
      in
      if off < length (fd_lomap fdp0) then
        let w = fd_lomap fdp0 ! off; h = off div NDENTRIES
        in if w = -1 \<and> length (fd_himap fdp0) \<le> h then None
           else
             let fdp1 = (if w = -1
                   then fdp0\<lparr>fd_himap := (fd_himap fdp0)[h := fd_himap fdp0 ! h AND NOT (push_bit (off mod NDENTRIES) 1)]\<rparr>
                   else fdp0);
                 fdp2 = fdp1\<lparr>fd_lomap := (fd_lomap fdp1)[off := w AND NOT (push_bit (fd mod NDENTRIES) 1)]\<rparr>
             in if fd > fd_lastfile fdp2 then None
                else if fd = fd_lastfile fdp2
                then map_option (\<lambda>l. fdp2\<lparr>fd_lastfile := l\<rparr>) (find_last_set fdp2 fd)
                else Some fdp2
      else None)"

definition fd_getfile :: "kfs \<Rightarrow> nat \<Rightarrow> fid option" where
  "fd_getfile s fd =
     (if fd \<ge> fd_nfiles (p_fd s) then None
      else
        case fd_ofiles (p_fd s) ! fd of
          None \<Rightarrow> None
        | Some fp \<Rightarrow> if FILE_IS_USABLE (k_file s fp) then Some fp else None)"

section \<open>Allocating a descriptor\<close>

definition p_lim :: "kfs \<Rightarrow> nat" where
  "p_lim s = min (unat (ucast (rlim_nofile s) :: u_int)) (maxfiles s)"

definition full_errno :: "filedesc \<Rightarrow> nat \<Rightarrow> errno" where
  "full_errno fdp lim = (if fd_nfiles fdp \<ge> lim then EMFILE else ENOSPC)"

function fdalloc_from :: "filedesc \<Rightarrow> nat \<Rightarrow> nat \<Rightarrow> (filedesc \<times> (errno + nat)) option" where
  "fdalloc_from fdp lim want =
     (let lst = min (fd_nfiles fdp) lim;
          i = (if want < fd_freefile fdp then fd_freefile fdp else want);
          off = i div NDENTRIES
      in
      case find_next_zero (fd_himap fdp) off ((lst + NDENTRIES - 1) div NDENTRIES) of
        None \<Rightarrow> None
      | Some None \<Rightarrow> Some (fdp, Inl (full_errno fdp lim))
      | Some (Some new) \<Rightarrow>
          (case find_next_zero (drop new (fd_lomap fdp)) (if new > off then 0 else i mod NDENTRIES) NDENTRIES of
             None \<Rightarrow> None
           | Some None \<Rightarrow> fdalloc_from fdp lim ((new + 1) * NDENTRIES)
           | Some (Some j) \<Rightarrow>
               let i' = j + new * NDENTRIES in
               if i' < lst then
                 map_option (\<lambda>fdp1.
                   (if want \<le> fd_freefile fdp1 then fdp1\<lparr>fd_freefile := i'\<rparr> else fdp1, Inr i'))
                   (fd_used fdp i')
               else Some (fdp, Inl (full_errno fdp lim))))"
  by pat_completeness auto

termination
proof (relation "measure (\<lambda>(fdp, lim, want). Suc (min (fd_nfiles fdp) lim + 31) div 32 + 1
    - (max want (fd_freefile fdp)) div 32)", goal_cases)
  case 1
  show ?case by simp
next
  case (2 fdp lim want lst i off z new y)
  have f: "find_next_zero (fd_himap fdp) off ((lst + NDENTRIES - 1) div NDENTRIES) = Some (Some new)"
    using 2(4) unfolding 2(5) .
  have i: "i = max want (fd_freefile fdp)" unfolding 2(2) by simp
  have g: "off \<le> new" "off \<le> (lst + 31) div 32" using find_next_zero_ge [OF f] by (auto simp: NDENTRIES_def)
  have off: "off = max want (fd_freefile fdp) div 32" unfolding 2(3) i NDENTRIES_def ..
  have "(new + 1) * 32 div 32 \<le> max ((new + 1) * 32) (fd_freefile fdp) div 32"
    by (rule div_le_mono) simp
  then have "off + 1 \<le> max ((new + 1) * 32) (fd_freefile fdp) div 32" using g by simp
  moreover have "(lst + 31) div 32 \<le> Suc (min (fd_nfiles fdp) lim + 31) div 32"
    unfolding 2(1) by (intro div_le_mono) simp
  ultimately have "off < max ((new + 1) * 32) (fd_freefile fdp) div 32"
      "off < Suc (min (fd_nfiles fdp) lim + 31) div 32 + 1" using g(2) by auto
  then show ?case unfolding off in_measure prod.case NDENTRIES_def by (rule diff_less_mono2)
qed

declare fdalloc_from.simps [simp del]

definition fdalloc :: "kfs \<Rightarrow> nat \<Rightarrow> (kfs \<times> (errno + nat)) option" where
  "fdalloc s want =
     map_option (\<lambda>(fdp, r). (s\<lparr>p_fd := fdp\<rparr>, r)) (fdalloc_from (p_fd s) (p_lim s) want)"

definition fdexpand :: "filedesc \<Rightarrow> filedesc" where
  "fdexpand fdp =
     (let n = (if fd_nfiles fdp < NDEXTENT then NDEXTENT else 2 * fd_nfiles fdp);
          newofile = take (fd_nfiles fdp) (fd_ofiles fdp) @ replicate (n - fd_nfiles fdp) None;
          newofileflags = take (fd_nfiles fdp) (fd_ofileflags fdp) @ replicate (n - fd_nfiles fdp) 0;
          oldhi = NDHISLOTS (fd_nfiles fdp); oldlo = NDLOSLOTS (fd_nfiles fdp);
          fdp1 = (if NDHISLOTS n > oldhi
            then fdp\<lparr>fd_himap := take oldhi (fd_himap fdp) @ replicate (NDHISLOTS n - oldhi) 0,
                     fd_lomap := take oldlo (fd_lomap fdp) @ replicate (NDLOSLOTS n - oldlo) 0\<rparr>
            else fdp)
      in fdp1\<lparr>fd_ofiles := newofile, fd_ofileflags := newofileflags, fd_nfiles := n\<rparr>)"

section \<open>Closing\<close>

text \<open>
  The result of \<open>closef\<close> is None when it sleeps until the other users of the file are gone.
  \<open>fo_close\<close> is the close routine of the file's type, \<open>p\<close> says whether a process is given.
\<close>

definition closef :: "(fid \<Rightarrow> errno option) \<Rightarrow> bool \<Rightarrow> kfs \<Rightarrow> fid option \<Rightarrow> (kfs \<times> errno option) option" where
  "closef fo_close p s ofp =
     (case ofp of
        None \<Rightarrow> Some (s, None)
      | Some fp \<Rightarrow>
          let want = has_flag (f_iflags (k_file s fp)) FIF_WANTCLOSE;
              s1 = (if want then s else upd_file s fp (\<lambda>f. f\<lparr>f_count := f_count f - 1\<rparr>));
              references_left = (want \<or> f_count (k_file s1 fp) > 0);
              s2 = (if references_left then s1
                    else upd_file s1 fp (\<lambda>f. f\<lparr>f_iflags := f_iflags f OR FIF_WANTCLOSE\<rparr>))
          in if \<not> references_left \<and> f_count (k_file s1 fp) < 0 then None
             else if \<not> references_left \<and> f_usecount (k_file s2 fp) > 1 then None
             else
               let s3 = (if p \<and> has_flag (fd_flags (p_fd s2)) FD_ADVLOCK \<and> f_type (k_file s2 fp) = DTYPE_VNODE
                         then call s2 (Advlock_unlock fp) else s2)
               in if references_left then Some (FRELE s3 fp, None)
                  else
                    let error = (if f_ops (k_file s3 fp) then fo_close fp else None);
                        s4 = (if f_ops (k_file s3 fp) then call s3 (Fo_close fp) else s3);
                        s5 = call (s4\<lparr>filehead := remove1 fp (filehead s4)\<rparr>) (Crfree (f_cred (k_file s4 fp)))
                    in if f_count (k_file s5 fp) \<noteq> 0 \<or> f_usecount (k_file s5 fp) \<noteq> 1 then None
                       else Some (s5\<lparr>nfiles := nfiles s5 - 1\<rparr>, error))"

definition fdremove :: "filedesc \<Rightarrow> nat \<Rightarrow> filedesc option" where
  "fdremove fdp fd =
     (if fd < length (fd_ofiles fdp) then fd_unused (fdp\<lparr>fd_ofiles := (fd_ofiles fdp)[fd := None]\<rparr>) fd
      else None)"

definition knote_check :: "kfs \<Rightarrow> nat \<Rightarrow> kfs" where
  "knote_check s fd = (if int fd < fd_knlistsize (p_fd s) then call s (Knote_fdclose fd) else s)"

definition fdrelease :: "(fid \<Rightarrow> errno option) \<Rightarrow> kfs \<Rightarrow> nat \<Rightarrow> (kfs \<times> errno option) option" where
  "fdrelease fo_close s fd =
     (if fd < length (fd_ofiles (p_fd s)) then
        (case fd_ofiles (p_fd s) ! fd of
           None \<Rightarrow> Some (s, Some EBADF)
         | Some fp \<Rightarrow>
             let s1 = FREF s fp;
                 fdp = (p_fd s1)\<lparr>fd_ofiles := (fd_ofiles (p_fd s1))[fd := None],
                                 fd_ofileflags := (fd_ofileflags (p_fd s1))[fd := 0]\<rparr>
             in case fd_unused fdp fd of
                  None \<Rightarrow> None
                | Some fdp1 \<Rightarrow> closef fo_close True (knote_check (s1\<lparr>p_fd := fdp1\<rparr>) fd) (Some fp))
      else None)"

definition sys_close :: "(fid \<Rightarrow> errno option) \<Rightarrow> kfs \<Rightarrow> nat \<Rightarrow> (kfs \<times> errno option) option" where
  "sys_close fo_close s fd =
     (if fd_getfile s fd = None then Some (s, Some EBADF) else fdrelease fo_close s fd)"

section \<open>Duplicating\<close>

definition finishdup ::
  "(fid \<Rightarrow> errno option) \<Rightarrow> kfs \<Rightarrow> fid \<Rightarrow> nat \<Rightarrow> nat \<Rightarrow> (kfs \<times> (errno + nat)) option" where
  "finishdup fo_close s fp old new =
     (if f_count (k_file s fp) = F_COUNT_MAX then Some (FRELE s fp, Inl EDEADLK)
      else if new < length (fd_ofiles (p_fd s)) \<and> old < length (fd_ofileflags (p_fd s)) then
        let oldfp = fd_ofiles (p_fd s) ! new;
            s1 = (case oldfp of None \<Rightarrow> s | Some ofp \<Rightarrow> FREF s ofp);
            fdp = (p_fd s1)\<lparr>fd_ofiles := (fd_ofiles (p_fd s1))[new := Some fp],
                            fd_ofileflags := (fd_ofileflags (p_fd s1))
                              [new := fd_ofileflags (p_fd s1) ! old AND NOT UF_EXCLOSE]\<rparr>;
            s2 = FRELE (upd_file (s1\<lparr>p_fd := fdp\<rparr>) fp (\<lambda>f. f\<lparr>f_count := f_count f + 1\<rparr>)) fp
        in case oldfp of
             None \<Rightarrow> map_option (\<lambda>fdp1. (s2\<lparr>p_fd := fdp1\<rparr>, Inr new)) (fd_used (p_fd s2) new)
           | Some ofp \<Rightarrow>
               map_option (\<lambda>(s3, e). (s3, Inr new)) (closef fo_close True (knote_check s2 new) (Some ofp))
      else None)"

text \<open>
  The three calls start over after \<open>fdexpand\<close>; the table then has grown, and it grows only
  while it is smaller than the limit.
\<close>

lemma fdalloc_from_ENOSPC:
  "fdalloc_from fdp lim want = Some (fdp', Inl e) \<Longrightarrow> fdp' = fdp \<and> e = full_errno fdp lim"
proof (induction fdp lim want rule: fdalloc_from.induct)
  case (1 fdp lim want)
  show ?case
    using "1.prems" "1.IH"
    by (subst (asm) (1) fdalloc_from.simps) (auto simp: Let_def split: option.splits if_splits)
qed

lemma fdalloc_ENOSPC: "fdalloc s want = Some (s', Inl ENOSPC) \<Longrightarrow> s' = s \<and> fd_nfiles (p_fd s) < p_lim s"
  by (auto simp: fdalloc_def full_errno_def dest!: fdalloc_from_ENOSPC split: if_splits)

lemma fdexpand_nfiles: "fd_nfiles fdp < fd_nfiles (fdexpand fdp)"
  by (simp add: fdexpand_def Let_def NDEXTENT_def)

lemma p_lim_ext [simp]:
  "p_lim (FREF s fp) = p_lim s" "p_lim (FRELE s fp) = p_lim s" "p_lim (s\<lparr>p_fd := d\<rparr>) = p_lim s"
  by (simp_all add: FREF_def FRELE_def upd_file_def call_def p_lim_def Let_def)

lemma p_fd_ext [simp]: "p_fd (FREF s fp) = p_fd s" "p_fd (FRELE s fp) = p_fd s"
  by (simp_all add: FREF_def FRELE_def upd_file_def call_def Let_def)

lemma grow_measure:
  assumes "fdalloc (FREF s fp) want = Some (s1, Inl ENOSPC)"
  shows "p_lim (FRELE s1 fp) - fd_nfiles (fdexpand (p_fd (FRELE s1 fp))) < p_lim s - fd_nfiles (p_fd s)"
  using fdalloc_ENOSPC [OF assms] fdexpand_nfiles [of "p_fd s"] by auto

function sys_dup :: "(fid \<Rightarrow> errno option) \<Rightarrow> kfs \<Rightarrow> nat \<Rightarrow> (kfs \<times> (errno + nat)) option" where
  "sys_dup fo_close s old =
     (case fd_getfile s old of
        None \<Rightarrow> Some (s, Inl EBADF)
      | Some fp \<Rightarrow>
          (case fdalloc (FREF s fp) 0 of
             None \<Rightarrow> None
           | Some (s1, Inl error) \<Rightarrow>
               let s2 = FRELE s1 fp in
               if error = ENOSPC then sys_dup fo_close (s2\<lparr>p_fd := fdexpand (p_fd s2)\<rparr>) old
               else Some (s2, Inl error)
           | Some (s1, Inr new) \<Rightarrow> finishdup fo_close s1 fp old new))"
  by pat_completeness auto

termination
  by (relation "measure (\<lambda>(fo_close, s, old). p_lim s - fd_nfiles (p_fd s))") (auto dest: grow_measure)

function sys_dup2 :: "(fid \<Rightarrow> errno option) \<Rightarrow> kfs \<Rightarrow> nat \<Rightarrow> nat \<Rightarrow> (kfs \<times> (errno + nat)) option" where
  "sys_dup2 fo_close s old new =
     (case fd_getfile s old of
        None \<Rightarrow> Some (s, Inl EBADF)
      | Some fp \<Rightarrow>
          if new \<ge> unat (rlim_nofile s) \<or> new \<ge> maxfiles s then Some (s, Inl EBADF)
          else if old = new then Some (s, Inr new)
          else if new \<ge> fd_nfiles (p_fd s) then
            (case fdalloc (FREF s fp) new of
               None \<Rightarrow> None
             | Some (s1, Inl error) \<Rightarrow>
                 let s2 = FRELE s1 fp in
                 if error = ENOSPC then sys_dup2 fo_close (s2\<lparr>p_fd := fdexpand (p_fd s2)\<rparr>) old new
                 else Some (s2, Inl error)
             | Some (s1, Inr i) \<Rightarrow>
                 if new \<noteq> i then None else finishdup fo_close s1 fp old new)
          else finishdup fo_close (FREF s fp) fp old new)"
  by pat_completeness auto

termination
  by (relation "measure (\<lambda>(fo_close, s, old, new). p_lim s - fd_nfiles (p_fd s))") (auto dest: grow_measure)

function fcntl_dupfd :: "(fid \<Rightarrow> errno option) \<Rightarrow> kfs \<Rightarrow> nat \<Rightarrow> nat \<Rightarrow> (kfs \<times> (errno + nat)) option" where
  "fcntl_dupfd fo_close s fd newmin =
     (case fd_getfile s fd of
        None \<Rightarrow> Some (s, Inl EBADF)
      | Some fp \<Rightarrow>
          if newmin \<ge> unat (rlim_nofile s) \<or> newmin \<ge> maxfiles s then Some (FRELE (FREF s fp) fp, Inl EINVAL)
          else
            (case fdalloc (FREF s fp) newmin of
               None \<Rightarrow> None
             | Some (s1, Inl error) \<Rightarrow>
                 if error = ENOSPC then
                   fcntl_dupfd fo_close (FRELE (s1\<lparr>p_fd := fdexpand (p_fd s1)\<rparr>) fp) fd newmin
                 else Some (FRELE s1 fp, Inl error)
             | Some (s1, Inr i) \<Rightarrow> finishdup fo_close s1 fp fd i))"
  by pat_completeness auto

termination
proof (relation "measure (\<lambda>(fo_close, s, fd, newmin). p_lim s - fd_nfiles (p_fd s))", goal_cases)
  case 1
  show ?case by simp
next
  case (2 fo_close s fd newmin fp p s1 r error)
  then show ?case using grow_measure [of s fp newmin s1] by simp
qed

declare sys_dup.simps [simp del] sys_dup2.simps [simp del] fcntl_dupfd.simps [simp del]

end
