(* ===== verification/Fdesc_Maps.thy ===== *)
theory Fdesc_Maps
  imports Fdesc
begin

text \<open>
  The invariant of a descriptor table: its bitmaps, its high-water mark and its hint describe
  the set of used descriptors. \<open>fd_used\<close>, \<open>fd_unused\<close> and \<open>fdexpand\<close> keep it, and \<open>fdalloc\<close>
  finds the lowest free descriptor.
\<close>

section \<open>Sizes\<close>

text \<open>Tables have 20 entries or 50 doubled; up to 12800 entries the bitmaps have a spare word.\<close>

definition table_sizes :: "nat list" where
  "table_sizes = [20, 50, 100, 200, 400, 800, 1600, 3200, 6400, 12800]"

lemma table_slack: "n \<in> set table_sizes \<Longrightarrow> NDREDUCE n < NDLOSLOTS n \<and> 20 \<le> n"
  by (auto simp: table_sizes_def NDREDUCE_def NDLOSLOTS_def NDHISLOTS_def NDENTRIES_def)

lemma table_grow: "n \<in> set table_sizes \<Longrightarrow> n < 12800 \<Longrightarrow>
    (if n < NDEXTENT then NDEXTENT else 2 * n) \<in> set table_sizes"
  by (auto simp: table_sizes_def NDEXTENT_def)

lemma NDREDUCE_le: "k \<le> 32 * NDREDUCE k"
  unfolding NDREDUCE_def NDENTRIES_def by linarith

lemma NDREDUCE_mono: "m \<le> n \<Longrightarrow> NDREDUCE m \<le> NDREDUCE n"
  unfolding NDREDUCE_def NDENTRIES_def by (intro div_le_mono) simp

lemma NDHISLOTS_mono: "m \<le> n \<Longrightarrow> NDHISLOTS m \<le> NDHISLOTS n"
  unfolding NDHISLOTS_def by (intro NDREDUCE_mono)

lemma NDLOSLOTS_hi: "NDLOSLOTS n = 32 * NDHISLOTS n"
  by (simp add: NDLOSLOTS_def NDENTRIES_def)

section \<open>The invariant\<close>

definition fd_shape :: "filedesc \<Rightarrow> bool" where
  "fd_shape d \<longleftrightarrow> fd_nfiles d \<in> set table_sizes
     \<and> length (fd_ofiles d) = fd_nfiles d \<and> length (fd_ofileflags d) = fd_nfiles d
     \<and> length (fd_himap d) = NDHISLOTS (fd_nfiles d) \<and> length (fd_lomap d) = NDLOSLOTS (fd_nfiles d)"

definition fd_bits :: "nat set \<Rightarrow> filedesc \<Rightarrow> bool" where
  "fd_bits U d \<longleftrightarrow> U \<subseteq> {..<fd_nfiles d}
     \<and> (\<forall>n < 32 * length (fd_lomap d). ubit (fd_lomap d) n \<longleftrightarrow> n \<in> U)
     \<and> (\<forall>b < length (fd_lomap d). ubit (fd_himap d) b \<longleftrightarrow> fd_lomap d ! b = -1)"

definition fd_marks :: "nat set \<Rightarrow> filedesc \<Rightarrow> bool" where
  "fd_marks U d \<longleftrightarrow> (\<forall>n \<in> U. n \<le> fd_lastfile d) \<and> (fd_lastfile d = 0 \<or> fd_lastfile d \<in> U)
     \<and> {..<fd_freefile d} \<subseteq> U"

definition fd_map :: "nat set \<Rightarrow> filedesc \<Rightarrow> bool" where
  "fd_map U d \<longleftrightarrow> fd_shape d \<and> fd_bits U d \<and> fd_marks U d"

definition open_fds :: "filedesc \<Rightarrow> nat set" where
  "open_fds d = {n. n < length (fd_ofiles d) \<and> fd_ofiles d ! n \<noteq> None}"

text \<open>\<open>fd_inv R d\<close>: the used descriptors are the open ones and those reserved in \<open>R\<close>.\<close>

definition fd_inv :: "nat set \<Rightarrow> filedesc \<Rightarrow> bool" where
  "fd_inv R d \<longleftrightarrow> fd_map (open_fds d \<union> R) d"

lemma fd_map_len:
  assumes "fd_map U d"
  shows "length (fd_ofiles d) = fd_nfiles d" "length (fd_ofileflags d) = fd_nfiles d"
    "length (fd_lomap d) = 32 * length (fd_himap d)" "fd_nfiles d \<le> 32 * length (fd_lomap d)"
    "NDREDUCE (fd_nfiles d) < length (fd_lomap d)" "U \<subseteq> {..<fd_nfiles d}"
proof -
  have s: "fd_shape d" and b: "fd_bits U d" using assms by (auto simp: fd_map_def)
  show "length (fd_ofiles d) = fd_nfiles d" "length (fd_ofileflags d) = fd_nfiles d"
    "length (fd_lomap d) = 32 * length (fd_himap d)"
    using s by (auto simp: fd_shape_def NDLOSLOTS_hi)
  show sl: "NDREDUCE (fd_nfiles d) < length (fd_lomap d)"
    using s table_slack by (auto simp: fd_shape_def)
  show "fd_nfiles d \<le> 32 * length (fd_lomap d)" using NDREDUCE_le [of "fd_nfiles d"] sl by linarith
  show "U \<subseteq> {..<fd_nfiles d}" using b by (simp add: fd_bits_def)
qed

lemma fd_map_bit: "fd_map U d \<Longrightarrow> n < 32 * length (fd_lomap d) \<Longrightarrow> ubit (fd_lomap d) n \<longleftrightarrow> n \<in> U"
  by (simp add: fd_map_def fd_bits_def)

lemma fd_map_hi: "fd_map U d \<Longrightarrow> b < length (fd_lomap d) \<Longrightarrow> ubit (fd_himap d) b \<longleftrightarrow> fd_lomap d ! b = -1"
  by (simp add: fd_map_def fd_bits_def)

lemma fd_off:
  assumes "fd_shape d" "n < fd_nfiles d"
  shows "n div 32 < length (fd_lomap d)" "length (fd_lomap d) = 32 * length (fd_himap d)"
    "n div 32 div 32 < length (fd_himap d)"
proof -
  have "NDREDUCE (fd_nfiles d) < NDLOSLOTS (fd_nfiles d)" using assms(1) table_slack by (auto simp: fd_shape_def)
  moreover have "n < 32 * NDREDUCE (fd_nfiles d)" using NDREDUCE_le [of "fd_nfiles d"] assms(2) by linarith
  ultimately show off: "n div 32 < length (fd_lomap d)" using assms(1) by (simp add: fd_shape_def)
  show len: "length (fd_lomap d) = 32 * length (fd_himap d)" using assms(1) by (simp add: fd_shape_def NDLOSLOTS_hi)
  show "n div 32 div 32 < length (fd_himap d)" using off len by linarith
qed

section \<open>Setting and clearing one bit\<close>

lemma bit_push_1: "j < 32 \<Longrightarrow> bit (2 ^ k :: u_int) j \<longleftrightarrow> j = k"
  by (auto simp: bit_exp_iff possible_bit_def)

lemma ubit_set:
  assumes "n div 32 < length m" "i < 32 * length m"
  shows "ubit (m[n div 32 := m ! (n div 32) OR push_bit (n mod 32) 1]) i \<longleftrightarrow> ubit m i \<or> i = n"
proof -
  have "i div 32 = n div 32 \<Longrightarrow> i mod 32 = n mod 32 \<Longrightarrow> i = n" by (metis div_mult_mod_eq)
  then show ?thesis
    using assms by (cases "i div 32 = n div 32") (auto simp: ubit_def bit_or_iff bit_push_1)
qed

lemma ubit_clear:
  assumes "n div 32 < length m" "i < 32 * length m"
  shows "ubit (m[n div 32 := m ! (n div 32) AND NOT (push_bit (n mod 32) 1)]) i \<longleftrightarrow> ubit m i \<and> i \<noteq> n"
proof -
  have "i div 32 = n div 32 \<Longrightarrow> i mod 32 = n mod 32 \<Longrightarrow> i = n" by (metis div_mult_mod_eq)
  then show ?thesis
    using assms by (cases "i div 32 = n div 32") (auto simp: ubit_def bit_and_iff bit_not_iff bit_push_1)
qed

lemma clear_not_full: "k < 32 \<Longrightarrow> w AND NOT (push_bit k 1) \<noteq> (-1 :: u_int)"
proof
  assume "k < 32" "w AND NOT (push_bit k 1) = -1"
  then have "bit (w AND NOT (push_bit k 1)) k" by (simp add: bit_minus_1_iff possible_bit_def)
  with \<open>k < 32\<close> show False by (simp add: bit_and_iff bit_not_iff bit_push_1)
qed

section \<open>Marking a descriptor used\<close>

text \<open>What \<open>fd_used\<close> does, once its accesses are in range.\<close>

definition fd_used_val :: "filedesc \<Rightarrow> nat \<Rightarrow> filedesc" where
  "fd_used_val d n =
     (let off = n div 32; w = fd_lomap d ! off OR push_bit (n mod 32) 1 in
      d\<lparr>fd_lomap := (fd_lomap d)[off := w],
        fd_himap := (if w = -1 then (fd_himap d)[off div 32 := fd_himap d ! (off div 32) OR push_bit (off mod 32) 1]
                     else fd_himap d),
        fd_lastfile := max (fd_lastfile d) n\<rparr>)"

lemma fd_used_val_frame [simp]:
  "fd_ofiles (fd_used_val d n) = fd_ofiles d" "fd_ofileflags (fd_used_val d n) = fd_ofileflags d"
  "fd_nfiles (fd_used_val d n) = fd_nfiles d" "fd_freefile (fd_used_val d n) = fd_freefile d"
  "fd_lastfile (fd_used_val d n) = max (fd_lastfile d) n" "fd_flags (fd_used_val d n) = fd_flags d"
  "fd_knlistsize (fd_used_val d n) = fd_knlistsize d" "fd_refcnt (fd_used_val d n) = fd_refcnt d"
  "fd_cdir (fd_used_val d n) = fd_cdir d" "fd_rdir (fd_used_val d n) = fd_rdir d"
  by (simp_all add: fd_used_val_def Let_def)

lemma fd_used_eq:
  assumes "fd_shape d" "n < fd_nfiles d"
  shows "fd_used d n = Some (fd_used_val d n)"
  using fd_off [OF assms] by (cases d) (simp add: fd_used_def fd_used_val_def Let_def NDENTRIES_def max_def)

lemma fd_used_bits:
  assumes "fd_shape d" "fd_bits U d" "n < fd_nfiles d"
  shows "fd_bits (insert n U) (fd_used_val d n)"
proof -
  let ?lo = "fd_lomap d" and ?off = "n div 32"
  let ?w = "?lo ! ?off OR push_bit (n mod 32) 1"
  note off = fd_off(1) [OF assms(1,3)] and len = fd_off(2) [OF assms(1,3)]
  have lo: "fd_lomap (fd_used_val d n) = ?lo[?off := ?w]" by (simp add: fd_used_val_def Let_def)
  have hi: "fd_himap (fd_used_val d n) = (if ?w = -1
      then (fd_himap d)[?off div 32 := fd_himap d ! (?off div 32) OR push_bit (?off mod 32) 1] else fd_himap d)"
    unfolding fd_used_val_def Let_def by simp
  have hib: "ubit (fd_himap d) b \<longleftrightarrow> ?lo ! b = -1" if "b < length ?lo" for b
    using assms(2) that by (simp add: fd_bits_def)
  have "ubit (fd_himap (fd_used_val d n)) b \<longleftrightarrow> ?lo[?off := ?w] ! b = -1" if b: "b < length ?lo" for b
  proof (cases "?w = -1")
    case True
    have "?off div 32 < length (fd_himap d)" using off len by linarith
    from ubit_set [OF this, of b] b len
    have "ubit (fd_himap (fd_used_val d n)) b \<longleftrightarrow> ubit (fd_himap d) b \<or> b = ?off" by (simp only: hi True if_True simp_thms)
    moreover have "?lo[?off := ?w] ! b = (if b = ?off then ?w else ?lo ! b)" using b by (auto simp: nth_list_update)
    ultimately show ?thesis using hib [OF b] True by metis
  next
    case False
    then have "?lo ! ?off \<noteq> -1" by auto
    with False hi hib [OF b] b off show ?thesis by (cases "b = ?off") auto
  qed
  moreover have "ubit (?lo[?off := ?w]) i \<longleftrightarrow> i \<in> insert n U" if "i < 32 * length ?lo" for i
    using ubit_set [OF off that] assms(2) that by (auto simp: fd_bits_def)
  ultimately show ?thesis using assms(2,3) by (auto simp: fd_bits_def lo)
qed

lemma fd_used_map:
  assumes "fd_map U d" "n < fd_nfiles d"
  shows "fd_map (insert n U) (fd_used_val d n)"
proof -
  have "fd_shape (fd_used_val d n)"
    using assms(1) by (auto simp: fd_map_def fd_shape_def) (simp_all add: fd_used_val_def Let_def)
  moreover have "fd_marks (insert n U) (fd_used_val d n)"
    using assms(1) by (auto simp: fd_map_def fd_marks_def max_def)
  ultimately show ?thesis using assms fd_used_bits by (auto simp: fd_map_def)
qed

section \<open>Marking a descriptor unused\<close>

lemma scan_words_spec:
  "n \<le> length m \<Longrightarrow> case scan_words m n of
      None \<Rightarrow> False
    | Some None \<Rightarrow> \<forall>i < n. m ! i = 0
    | Some (Some off) \<Rightarrow> off < n \<and> m ! off \<noteq> 0 \<and> (\<forall>i. off < i \<and> i < n \<longrightarrow> m ! i = 0)"
  by (induction n) (auto split: option.splits simp: less_Suc_eq)

lemma scan_files_spec:
  "n < length fs \<Longrightarrow> \<exists>l. scan_files fs n = Some l \<and> l \<le> n \<and> (l = 0 \<or> fs ! l \<noteq> None)
     \<and> (\<forall>i. l < i \<and> i \<le> n \<longrightarrow> fs ! i = None)"
  by (induction n) (auto simp: le_Suc_eq)

text \<open>With the bitmap describing the open files, the search gives the highest one below \<open>l\<close>.\<close>

lemma find_last_set_spec:
  assumes "fd_shape d" and bits: "\<forall>n < 32 * length (fd_lomap d). ubit (fd_lomap d) n \<longleftrightarrow> n \<in> open_fds d"
    and below: "\<forall>n \<in> open_fds d. n < l" and l: "l < fd_nfiles d"
  shows "\<exists>k. find_last_set d l = Some k \<and> (\<forall>n \<in> open_fds d. n \<le> k) \<and> (k = 0 \<or> k \<in> open_fds d)"
proof (cases "l = 0")
  case True
  with below show ?thesis by (auto simp: find_last_set_def)
next
  case False
  let ?st = "(l - 1) div 32 + 1"
  have len: "length (fd_ofiles d) = fd_nfiles d" using assms(1) by (simp add: fd_shape_def)
  have "l - 1 < fd_nfiles d" using l by simp
  from fd_off(1) [OF assms(1) this] have st: "?st \<le> length (fd_lomap d)" by simp
  have mem: "n div 32 < ?st \<and> bit (fd_lomap d ! (n div 32)) (n mod 32)" if "n \<in> open_fds d" for n
  proof -
    have "n \<le> l - 1" using below that False by auto
    then have "n div 32 < ?st" using div_le_mono [of n "l - 1" 32] by simp
    moreover have "n < 32 * length (fd_lomap d)" using \<open>n div 32 < ?st\<close> st by linarith
    ultimately show ?thesis using bits that by (auto simp: ubit_def)
  qed
  from scan_words_spec [OF st] consider (none) "scan_words (fd_lomap d) ?st = Some None" "\<forall>i < ?st. fd_lomap d ! i = 0"
    | (some) off where "scan_words (fd_lomap d) ?st = Some (Some off)" "off < ?st" "fd_lomap d ! off \<noteq> 0"
      "\<forall>i. off < i \<and> i < ?st \<longrightarrow> fd_lomap d ! i = 0"
    by (auto split: option.splits)
  then show ?thesis
  proof cases
    case none
    have "open_fds d = {}" using mem none(2) by fastforce
    with none(1) False show ?thesis by (auto simp: find_last_set_def Let_def NDENTRIES_def)
  next
    case (some off)
    let ?i = "if (off + 1) * 32 - 1 \<ge> l then l - 1 else (off + 1) * 32 - 1"
    have i: "?i < length (fd_ofiles d)" using l len by auto
    have eq: "find_last_set d l = scan_files (fd_ofiles d) ?i"
      using some(1) False by (simp add: find_last_set_def Let_def NDENTRIES_def)
    from scan_files_spec [OF i] obtain k where k: "scan_files (fd_ofiles d) ?i = Some k" "k \<le> ?i"
      "k = 0 \<or> fd_ofiles d ! k \<noteq> None" "\<forall>j. k < j \<and> j \<le> ?i \<longrightarrow> fd_ofiles d ! j = None" by blast
    have up: "n \<le> ?i" if "n \<in> open_fds d" for n
    proof -
      have "n div 32 \<le> off"
      proof (rule ccontr)
        assume "\<not> n div 32 \<le> off"
        with some(4) mem [OF that] have "fd_lomap d ! (n div 32) = 0" by simp
        with mem [OF that] show False by simp
      qed
      then have "n < (off + 1) * 32" using div_less_iff_less_mult [of 32 n "off + 1"] by simp
      then have "n \<le> (off + 1) * 32 - 1" by simp
      with below that show ?thesis by fastforce
    qed
    have "\<forall>n \<in> open_fds d. n \<le> k"
      using up k(4) by (auto simp: open_fds_def) (metis not_le option.distinct(1))
    moreover have "k = 0 \<or> k \<in> open_fds d" using k(2,3) i by (auto simp: open_fds_def)
    ultimately show ?thesis using eq k(1) by auto
  qed
qed

lemma fd_unused_map:
  assumes m: "fd_map (insert n (open_fds d)) d" and n: "n \<notin> open_fds d"
  shows "\<exists>d'. fd_unused d n = Some d' \<and> fd_map (open_fds d) d' \<and> fd_ofiles d' = fd_ofiles d
    \<and> fd_ofileflags d' = fd_ofileflags d \<and> fd_nfiles d' = fd_nfiles d \<and> fd_flags d' = fd_flags d
    \<and> fd_knlistsize d' = fd_knlistsize d \<and> fd_refcnt d' = fd_refcnt d
    \<and> fd_cdir d' = fd_cdir d \<and> fd_rdir d' = fd_rdir d"
proof -
  let ?U = "insert n (open_fds d)" and ?lo = "fd_lomap d" and ?off = "n div 32"
  have sh: "fd_shape d" and bt: "fd_bits ?U d" and mk: "fd_marks ?U d" using m by (auto simp: fd_map_def)
  have nn: "n < fd_nfiles d" using bt by (simp add: fd_bits_def)
  note off = fd_off [OF sh nn]
  define w where "w = ?lo ! ?off AND NOT (push_bit (n mod 32) 1)"
  define hi where "hi = (if ?lo ! ?off = -1
     then (fd_himap d)[?off div 32 := fd_himap d ! (?off div 32) AND NOT (push_bit (?off mod 32) 1)] else fd_himap d)"
  define d2 where "d2 = d\<lparr>fd_himap := hi, fd_lomap := ?lo[?off := w], fd_freefile := min (fd_freefile d) n\<rparr>"
  have wne: "w \<noteq> -1" unfolding w_def by (rule clear_not_full) simp
  have hib: "ubit (fd_himap d) b \<longleftrightarrow> ?lo ! b = -1" if "b < length ?lo" for b
    using bt that by (simp add: fd_bits_def)
  have lo: "ubit (?lo[?off := w]) i \<longleftrightarrow> i \<in> open_fds d" if "i < 32 * length ?lo" for i
    using ubit_clear [OF off(1) that] bt that n by (auto simp: fd_bits_def w_def)
  have "ubit hi b \<longleftrightarrow> ?lo[?off := w] ! b = -1" if b: "b < length ?lo" for b
  proof (cases "?lo ! ?off = -1")
    case True
    have "ubit hi b \<longleftrightarrow> ubit (fd_himap d) b \<and> b \<noteq> ?off"
      unfolding hi_def using ubit_clear [OF off(3), of b] b off(2) True by (simp only: if_True simp_thms)
    moreover have "?lo[?off := w] ! b = (if b = ?off then w else ?lo ! b)" using b by (auto simp: nth_list_update)
    ultimately show ?thesis using hib [OF b] wne by metis
  next
    case False
    with hib [OF b] wne b show ?thesis by (cases "b = ?off") (simp_all add: hi_def)
  qed
  then have bits: "fd_bits (open_fds d) d2" using bt lo by (auto simp: fd_bits_def d2_def)
  have shape: "fd_shape d2" using sh by (auto simp: fd_shape_def d2_def hi_def)
  have op: "open_fds d2 = open_fds d" by (simp add: open_fds_def d2_def)
  have free: "{..<fd_freefile d2} \<subseteq> open_fds d" using mk by (auto simp: fd_marks_def d2_def)
  have le: "n \<le> fd_lastfile d" using mk by (simp add: fd_marks_def)
  have un: "fd_unused d n = (if n = fd_lastfile d
      then map_option (\<lambda>l. d2\<lparr>fd_lastfile := l\<rparr>) (find_last_set d2 n) else Some d2)"
    using off le by (cases d) (auto simp: fd_unused_def Let_def NDENTRIES_def d2_def hi_def w_def min_def)
  show ?thesis
  proof (cases "n = fd_lastfile d")
    case True
    have "\<forall>i \<in> open_fds d2. i < n" using mk n True by (auto simp: op fd_marks_def order.order_iff_strict)
    moreover have "\<forall>i < 32 * length (fd_lomap d2). ubit (fd_lomap d2) i \<longleftrightarrow> i \<in> open_fds d2"
      using bits by (simp add: fd_bits_def op)
    moreover have "n < fd_nfiles d2" using nn by (simp add: d2_def)
    ultimately obtain k where k: "find_last_set d2 n = Some k" "\<forall>i \<in> open_fds d. i \<le> k" "k = 0 \<or> k \<in> open_fds d"
      using find_last_set_spec [OF shape] op by metis
    have "fd_map (open_fds d) (d2\<lparr>fd_lastfile := k\<rparr>)"
      using bits shape k(2,3) free by (auto simp: fd_map_def fd_bits_def fd_shape_def fd_marks_def)
    with un True k(1) show ?thesis by (auto simp: d2_def)
  next
    case False
    have "fd_marks (open_fds d) d2" using mk False free by (auto simp: fd_marks_def d2_def)
    with bits shape have "fd_map (open_fds d) d2" by (simp add: fd_map_def)
    with un False show ?thesis by (auto simp: d2_def)
  qed
qed

section \<open>Growing the table\<close>

lemma ubit_append_0:
  "i < 32 * (length m + k) \<Longrightarrow> ubit (m @ replicate k 0) i \<longleftrightarrow> i < 32 * length m \<and> ubit m i"
  by (auto simp: ubit_def nth_append)

lemma fdexpand_frame [simp]:
  "fd_lastfile (fdexpand d) = fd_lastfile d" "fd_freefile (fdexpand d) = fd_freefile d"
  "fd_flags (fdexpand d) = fd_flags d" "fd_knlistsize (fdexpand d) = fd_knlistsize d"
  "fd_refcnt (fdexpand d) = fd_refcnt d" "fd_cdir (fdexpand d) = fd_cdir d" "fd_rdir (fdexpand d) = fd_rdir d"
  by (simp_all add: fdexpand_def Let_def)

lemma fdexpand_tables:
  assumes "fd_shape d"
  shows "fd_ofiles (fdexpand d) = fd_ofiles d @ replicate (fd_nfiles (fdexpand d) - fd_nfiles d) None"
    "fd_ofileflags (fdexpand d) = fd_ofileflags d @ replicate (fd_nfiles (fdexpand d) - fd_nfiles d) 0"
    "fd_himap (fdexpand d) = fd_himap d @ replicate (NDHISLOTS (fd_nfiles (fdexpand d)) - NDHISLOTS (fd_nfiles d)) 0"
    "fd_lomap (fdexpand d) = fd_lomap d @ replicate (NDLOSLOTS (fd_nfiles (fdexpand d)) - NDLOSLOTS (fd_nfiles d)) 0"
  using assms by (auto simp: fdexpand_def Let_def fd_shape_def NDLOSLOTS_hi)

lemma open_fds_expand: "fd_shape d \<Longrightarrow> open_fds (fdexpand d) = open_fds d"
proof (rule set_eqI)
  fix n
  assume "fd_shape d"
  then show "n \<in> open_fds (fdexpand d) \<longleftrightarrow> n \<in> open_fds d"
    by (cases "n < length (fd_ofiles d)") (auto simp: open_fds_def fdexpand_tables nth_append)
qed

lemma fdexpand_map:
  assumes "fd_map U d" "fd_nfiles d < 12800"
  shows "fd_map U (fdexpand d)"
proof -
  let ?e = "fdexpand d" and ?k = "NDLOSLOTS (fd_nfiles (fdexpand d)) - NDLOSLOTS (fd_nfiles d)"
  have sh: "fd_shape d" and bt: "fd_bits U d" and mk: "fd_marks U d" using assms(1) by (auto simp: fd_map_def)
  have nf: "fd_nfiles ?e = (if fd_nfiles d < NDEXTENT then NDEXTENT else 2 * fd_nfiles d)"
    by (simp add: fdexpand_def Let_def)
  have size: "fd_nfiles ?e \<in> set table_sizes"
    unfolding nf using sh assms(2) by (intro table_grow) (simp_all add: fd_shape_def)
  have lt: "fd_nfiles d < fd_nfiles ?e" by (rule fdexpand_nfiles)
  have hi: "NDHISLOTS (fd_nfiles d) \<le> NDHISLOTS (fd_nfiles ?e)" using lt by (intro NDHISLOTS_mono) simp
  have shape: "fd_shape ?e"
    using sh size lt hi by (auto simp: fd_shape_def fdexpand_tables [OF sh] NDLOSLOTS_hi)
  note ln = fd_map_len [OF assms(1)]
  have "ubit (fd_lomap ?e) n \<longleftrightarrow> n \<in> U" if "n < 32 * length (fd_lomap ?e)" for n
  proof -
    have "ubit (fd_lomap ?e) n \<longleftrightarrow> n < 32 * length (fd_lomap d) \<and> ubit (fd_lomap d) n"
      using that unfolding fdexpand_tables [OF sh] by (intro ubit_append_0) simp
    with fd_map_bit [OF assms(1), of n] ln(4,6) show ?thesis by auto
  qed
  moreover have "ubit (fd_himap ?e) b \<longleftrightarrow> fd_lomap ?e ! b = -1" if b: "b < length (fd_lomap ?e)" for b
  proof -
    have "32 * length (fd_himap ?e) = length (fd_lomap ?e)" using shape by (simp add: fd_shape_def NDLOSLOTS_hi)
    then have "ubit (fd_himap ?e) b \<longleftrightarrow> b < 32 * length (fd_himap d) \<and> ubit (fd_himap d) b"
      using b unfolding fdexpand_tables(3) [OF sh] by (intro ubit_append_0) simp
    moreover have "fd_lomap ?e ! b = (if b < length (fd_lomap d) then fd_lomap d ! b else 0)"
      using b unfolding fdexpand_tables [OF sh] by (auto simp: nth_append)
    ultimately show ?thesis using fd_map_hi [OF assms(1), of b] ln(3) by auto
  qed
  ultimately have "fd_bits U ?e" using bt lt by (auto simp: fd_bits_def)
  moreover have "fd_marks U ?e" using mk by (simp add: fd_marks_def)
  ultimately show ?thesis using shape by (simp add: fd_map_def)
qed

section \<open>Allocation\<close>

text \<open>A full word of the low map and a set bit of the high map cover 32 used descriptors.\<close>

lemma full_block:
  assumes "fd_map U d" "b < length (fd_lomap d)" "ubit (fd_himap d) b" "n div 32 = b"
  shows "n \<in> U"
proof -
  have "fd_lomap d ! b = -1" using fd_map_hi [OF assms(1,2)] assms(3) by simp
  then have "ubit (fd_lomap d) n" using assms(4) by (rule full_word)
  moreover have "n < 32 * length (fd_lomap d)" using assms(2,4) by linarith
  ultimately show ?thesis using fd_map_bit [OF assms(1)] by simp
qed

lemma first_search:
  assumes m: "fd_map U d" and lst: "lst \<le> fd_nfiles d"
  shows "case find_next_zero (fd_himap d) off (NDREDUCE lst) of
      None \<Rightarrow> False
    | Some None \<Rightarrow> \<forall>n. 32 * off \<le> n \<and> n < lst \<longrightarrow> n \<in> U
    | Some (Some new) \<Rightarrow> off \<le> new \<and> new \<le> NDREDUCE (fd_nfiles d) \<and> (\<forall>n. 32 * off \<le> n \<and> n < 32 * new \<longrightarrow> n \<in> U)"
proof (cases "off \<le> NDREDUCE lst")
  case False
  then have "lst \<le> 32 * off" using NDREDUCE_le [of lst] by linarith
  with False show ?thesis by (auto simp: find_next_zero_def)
next
  case True
  let ?z = "NDREDUCE (fd_nfiles d)"
  note ln = fd_map_len [OF m]
  have le: "NDREDUCE lst \<le> ?z" using lst by (rule NDREDUCE_mono)
  have "fd_lomap d ! ?z \<noteq> -1"
  proof
    assume "fd_lomap d ! ?z = -1"
    then have "32 * ?z \<in> U" using full_word [of "fd_lomap d" ?z "32 * ?z"] fd_map_bit [OF m, of "32 * ?z"] ln(5) by auto
    with ln(6) NDREDUCE_le [of "fd_nfiles d"] show False by fastforce
  qed
  then have z: "\<not> ubit (fd_himap d) ?z" using fd_map_hi [OF m ln(5)] by simp
  have "?z < 32 * length (fd_himap d)" using ln(3,5) by simp
  with find_next_zero_spec [OF True _ _ z] True le
  have sp: "case find_next_zero (fd_himap d) off (NDREDUCE lst) of
      None \<Rightarrow> False
    | Some None \<Rightarrow> \<forall>i. off \<le> i \<and> i < 32 * NDLOSLOTS (NDREDUCE lst) \<longrightarrow> ubit (fd_himap d) i
    | Some (Some n) \<Rightarrow> first_zero (fd_himap d) off n" by simp
  have cover: "NDREDUCE lst \<le> 32 * NDLOSLOTS (NDREDUCE lst)"
    using NDREDUCE_le [of "NDREDUCE (NDREDUCE lst)"] NDREDUCE_le [of "NDREDUCE lst"]
    by (simp add: NDLOSLOTS_hi NDHISLOTS_def)
  have blk: "n div 32 < NDREDUCE lst" if "n < lst" for n
    using that NDREDUCE_le [of lst] by linarith
  show ?thesis
  proof (cases "find_next_zero (fd_himap d) off (NDREDUCE lst)")
    case None
    with sp show ?thesis by simp
  next
    case (Some r)
    show ?thesis
    proof (cases r)
      case None
      have "n \<in> U" if "32 * off \<le> n" "n < lst" for n
      proof (rule full_block [OF m _ _ refl])
        show "n div 32 < length (fd_lomap d)" using blk [OF that(2)] le ln(5) by linarith
        have "off \<le> n div 32" using that(1) by linarith
        with sp Some None blk [OF that(2)] cover show "ubit (fd_himap d) (n div 32)" by auto
      qed
      with Some None show ?thesis by simp
    next
      case new: (Some new)
      then have fz: "first_zero (fd_himap d) off new" using sp Some by simp
      have nz: "new \<le> ?z"
        using fz z True le by (auto simp: first_zero_def) (metis le_trans not_le)
      have "n \<in> U" if "32 * off \<le> n" "n < 32 * new" for n
      proof (rule full_block [OF m _ _ refl])
        show "n div 32 < length (fd_lomap d)" using that(2) nz ln(5) by linarith
        have "off \<le> n div 32" "n div 32 < new" using that by linarith+
        with fz show "ubit (fd_himap d) (n div 32)" by (auto simp: first_zero_def)
      qed
      with Some new nz fz show ?thesis by (simp add: first_zero_def)
    qed
  qed
qed

lemma NDLOSLOTS_32: "NDLOSLOTS 32 = 32"
  by (simp add: NDLOSLOTS_def NDHISLOTS_def NDREDUCE_def NDENTRIES_def)

lemma second_search:
  assumes m: "fd_map U d" and new: "new \<le> NDREDUCE (fd_nfiles d)" and st: "st < 32"
  shows "case find_next_zero (drop new (fd_lomap d)) st 32 of
      None \<Rightarrow> False
    | Some None \<Rightarrow> \<forall>n. 32 * new + st \<le> n \<and> n < 32 * (new + 1) \<longrightarrow> n \<in> U
    | Some (Some j) \<Rightarrow> st \<le> j \<and> 32 * new + j \<notin> U \<and> (\<forall>n. 32 * new + st \<le> n \<and> n < 32 * new + j \<longrightarrow> n \<in> U)"
proof -
  let ?m = "drop new (fd_lomap d)" and ?spare = "NDREDUCE (fd_nfiles d)"
  let ?z = "32 * (?spare - new) + st"
  note ln = fd_map_len [OF m]
  have nl: "new \<le> length (fd_lomap d)" using new ln(5) by simp
  have u: "ubit ?m j \<longleftrightarrow> 32 * new + j \<in> U" if "j < 32 * length ?m" for j
    using that nl fd_map_bit [OF m, of "32 * new + j"] by (simp add: ubit_drop)
  have zl: "?z < 32 * length ?m" using st new ln(5) by simp
  have "32 * new + ?z = 32 * ?spare + st" using new by simp
  then have "32 * new + ?z \<notin> U" using ln(6) NDREDUCE_le [of "fd_nfiles d"] by fastforce
  then have "\<not> ubit ?m ?z" using u [OF zl] by simp
  from find_next_zero_spec [OF _ _ zl this, of st 32] st
  have sp: "case find_next_zero ?m st 32 of
      None \<Rightarrow> False
    | Some None \<Rightarrow> \<forall>i. st \<le> i \<and> i < 32 * NDLOSLOTS 32 \<longrightarrow> ubit ?m i
    | Some (Some n) \<Rightarrow> first_zero ?m st n" by simp
  have one: "32 \<le> 32 * length ?m" using new ln(5) by simp
  have none: "n \<in> U" if "\<forall>i. st \<le> i \<and> i < 32 * NDLOSLOTS 32 \<longrightarrow> ubit ?m i" "32 * new + st \<le> n" "n < 32 * (new + 1)" for n
  proof -
    have n: "n = 32 * new + (n - 32 * new)" "n - 32 * new < 32" "st \<le> n - 32 * new" using that(2,3) by auto
    have "ubit ?m (n - 32 * new)" using that(1) n by (simp add: NDLOSLOTS_32)
    with u [of "n - 32 * new"] n one show ?thesis by simp
  qed
  have some: "st \<le> j \<and> 32 * new + j \<notin> U \<and> (\<forall>n. 32 * new + st \<le> n \<and> n < 32 * new + j \<longrightarrow> n \<in> U)"
    if fz: "first_zero ?m st j" for j
  proof (intro conjI allI impI)
    show "st \<le> j" "32 * new + j \<notin> U" using fz u [of j] by (auto simp: first_zero_def)
    fix n assume n: "32 * new + st \<le> n \<and> n < 32 * new + j"
    then have e: "n = 32 * new + (n - 32 * new)" "st \<le> n - 32 * new" "n - 32 * new < j" by auto
    have "ubit ?m (n - 32 * new)" "n - 32 * new < 32 * length ?m" using fz e by (auto simp: first_zero_def)
    with u e(1) show "n \<in> U" by metis
  qed
  show ?thesis
  proof (cases "find_next_zero ?m st 32")
    case None
    with sp show ?thesis by simp
  next
    case (Some r)
    then show ?thesis
    proof (cases r)
      case None
      with sp Some none show ?thesis by simp
    next
      case j: (Some j)
      with sp Some some [of j] show ?thesis by simp
    qed
  qed
qed

text \<open>The two searches together, as \<open>fdalloc\<close> runs them from descriptor \<open>i\<close>.\<close>

definition fd_search :: "filedesc \<Rightarrow> nat \<Rightarrow> nat \<Rightarrow> (nat \<times> nat option) option option" where
  "fd_search d lst i = (case find_next_zero (fd_himap d) (i div 32) (NDREDUCE lst) of
       None \<Rightarrow> None
     | Some None \<Rightarrow> Some None
     | Some (Some new) \<Rightarrow> map_option (\<lambda>j. Some (new, j))
         (find_next_zero (drop new (fd_lomap d)) (if new > i div 32 then 0 else i mod 32) 32))"

lemma fd_search_cases:
  assumes m: "fd_map U d" and lst: "lst \<le> fd_nfiles d"
  obtains (full) "fd_search d lst i = Some None" "\<forall>n. i \<le> n \<and> n < lst \<longrightarrow> n \<in> U"
    | (again) new where "fd_search d lst i = Some (Some (new, None))" "i \<le> 32 * (new + 1)"
        "\<forall>n. i \<le> n \<and> n < 32 * (new + 1) \<longrightarrow> n \<in> U"
    | (found) new j where "fd_search d lst i = Some (Some (new, Some j))" "i \<le> 32 * new + j" "32 * new + j \<notin> U"
        "\<forall>n. i \<le> n \<and> n < 32 * new + j \<longrightarrow> n \<in> U"
proof -
  have io: "32 * (i div 32) \<le> i" "i < 32 * (i div 32 + 1)" using dividend_less_times_div [of 32 i] by simp_all
  from first_search [OF m lst, of "i div 32"]
  consider (full) "find_next_zero (fd_himap d) (i div 32) (NDREDUCE lst) = Some None"
      "\<forall>n. 32 * (i div 32) \<le> n \<and> n < lst \<longrightarrow> n \<in> U"
    | (blk) new where "find_next_zero (fd_himap d) (i div 32) (NDREDUCE lst) = Some (Some new)"
      "i div 32 \<le> new" "new \<le> NDREDUCE (fd_nfiles d)" "\<forall>n. 32 * (i div 32) \<le> n \<and> n < 32 * new \<longrightarrow> n \<in> U"
    by (auto split: option.splits)
  then show thesis
  proof cases
    case full
    then have "\<forall>n. i \<le> n \<and> n < lst \<longrightarrow> n \<in> U" using io(1) by (metis le_trans)
    moreover have "fd_search d lst i = Some None" using full(1) by (simp add: fd_search_def)
    ultimately show thesis by (rule that(1) [rotated])
  next
    case (blk new)
    define st where "st = (if new > i div 32 then 0 else i mod 32)"
    have st: "st < 32" "32 * new + st = i \<or> new > i div 32 \<and> st = 0"
      using blk(2) by (auto simp: st_def)
    have le: "i \<le> 32 * new + st" using st(2) io by auto
    have upto: "n \<in> U" if "i \<le> n" "n < 32 * new + st" for n
      using that blk(4) st(2) io by auto
    have eq: "fd_search d lst i = map_option (\<lambda>j. Some (new, j)) (find_next_zero (drop new (fd_lomap d)) st 32)"
      using blk(1) by (simp add: fd_search_def st_def)
    from second_search [OF m blk(3) st(1)] consider
        (rest) "find_next_zero (drop new (fd_lomap d)) st 32 = Some None"
          "\<forall>n. 32 * new + st \<le> n \<and> n < 32 * (new + 1) \<longrightarrow> n \<in> U"
      | (found) j where "find_next_zero (drop new (fd_lomap d)) st 32 = Some (Some j)" "st \<le> j" "32 * new + j \<notin> U"
          "\<forall>n. 32 * new + st \<le> n \<and> n < 32 * new + j \<longrightarrow> n \<in> U"
      by (auto split: option.splits)
    then show thesis
    proof cases
      case rest
      then have "\<forall>n. i \<le> n \<and> n < 32 * (new + 1) \<longrightarrow> n \<in> U" using upto by (metis not_le)
      moreover have "fd_search d lst i = Some (Some (new, None))" using rest(1) eq by simp
      ultimately show thesis using that(2) [of new] le st(1) by simp
    next
      case (found j)
      then have "\<forall>n. i \<le> n \<and> n < 32 * new + j \<longrightarrow> n \<in> U" using upto by (metis not_le)
      moreover have "fd_search d lst i = Some (Some (new, Some j))" using found(1) eq by simp
      moreover have "i \<le> 32 * new + j" using le found(2) by simp
      ultimately show thesis using that(3) [of new j] found(3) by blast
    qed
  qed
qed

lemma fdalloc_from_search:
  "fdalloc_from d lim want = (case fd_search d (min (fd_nfiles d) lim) (max want (fd_freefile d)) of
      None \<Rightarrow> None
    | Some None \<Rightarrow> Some (d, Inl (full_errno d lim))
    | Some (Some (new, None)) \<Rightarrow> fdalloc_from d lim ((new + 1) * 32)
    | Some (Some (new, Some j)) \<Rightarrow>
        if 32 * new + j < min (fd_nfiles d) lim then
          map_option (\<lambda>d1. (if want \<le> fd_freefile d1 then d1\<lparr>fd_freefile := 32 * new + j\<rparr> else d1, Inr (32 * new + j)))
            (fd_used d (32 * new + j))
        else Some (d, Inl (full_errno d lim)))"
proof -
  have i: "(if want < fd_freefile d then fd_freefile d else want) = max want (fd_freefile d)" by simp
  have c: "j + new * 32 = 32 * new + j" for j new :: nat by simp
  have h: "(min (fd_nfiles d) lim + 32 - 1) div 32 = NDREDUCE (min (fd_nfiles d) lim)"
    by (simp add: NDREDUCE_def NDENTRIES_def)
  show ?thesis
    unfolding fd_search_def
    by (subst fdalloc_from.simps)
      (simp only: Let_def NDENTRIES_def i c h split: option.split, simp)
qed

lemma fdalloc_induct:
  assumes step: "\<And>d lim want.
    (\<And>new. fd_search d (min (fd_nfiles d) lim) (max want (fd_freefile d)) = Some (Some (new, None)) \<Longrightarrow>
      P d lim ((new + 1) * 32)) \<Longrightarrow> P d lim want"
  shows "P d lim want"
proof (induction d lim want rule: fdalloc_from.induct)
  case (1 d lim want)
  show ?case
  proof (rule step)
    fix new
    assume s: "fd_search d (min (fd_nfiles d) lim) (max want (fd_freefile d)) = Some (Some (new, None))"
    have i: "(if want < fd_freefile d then fd_freefile d else want) = max want (fd_freefile d)" by simp
    from s have z: "find_next_zero (fd_himap d) (max want (fd_freefile d) div 32) (NDREDUCE (min (fd_nfiles d) lim)) = Some (Some new)"
        "find_next_zero (drop new (fd_lomap d))
           (if new > max want (fd_freefile d) div 32 then 0 else max want (fd_freefile d) mod 32) 32 = Some None"
      by (auto simp: fd_search_def split: option.splits)
    show "P d lim ((new + 1) * 32)"
      using "1.IH" [OF refl refl refl _ refl _ refl, of new] z
      unfolding i NDENTRIES_def NDREDUCE_def by blast
  qed
qed

definition fdalloc_val :: "filedesc \<Rightarrow> nat \<Rightarrow> bool \<Rightarrow> filedesc" where
  "fdalloc_val d n b = (if b then (fd_used_val d n)\<lparr>fd_freefile := n\<rparr> else fd_used_val d n)"

text \<open>The lowest unused descriptor at or above \<open>want\<close> and below the limit, or the error.\<close>

definition fdalloc_ok :: "nat set \<Rightarrow> filedesc \<Rightarrow> nat \<Rightarrow> nat \<Rightarrow> filedesc \<times> (errno + nat) \<Rightarrow> bool" where
  "fdalloc_ok U d lim want r = (case r of
       (d', Inr n) \<Rightarrow> want \<le> n \<and> n < min (fd_nfiles d) lim \<and> n \<notin> U \<and> (\<forall>i. want \<le> i \<and> i < n \<longrightarrow> i \<in> U)
         \<and> (\<exists>b. d' = fdalloc_val d n b) \<and> fd_map (insert n U) d'
     | (d', Inl e) \<Rightarrow> d' = d \<and> e = full_errno d lim \<and> (\<forall>i. want \<le> i \<and> i < min (fd_nfiles d) lim \<longrightarrow> i \<in> U))"

lemma fdalloc_val_map:
  assumes "fd_map U d" "n < fd_nfiles d" "b \<Longrightarrow> {..<n} \<subseteq> U"
  shows "fd_map (insert n U) (fdalloc_val d n b)"
proof -
  have m: "fd_map (insert n U) (fd_used_val d n)" using assms(1,2) by (rule fd_used_map)
  then show ?thesis
    using assms(3) by (auto simp: fdalloc_val_def fd_map_def fd_shape_def fd_bits_def fd_marks_def)
qed

lemma fdalloc_ok_later:
  assumes "fdalloc_ok U d lim w r" "want \<le> w" "\<forall>n. want \<le> n \<and> n < w \<longrightarrow> n \<in> U"
  shows "fdalloc_ok U d lim want r"
proof (cases r)
  case (Pair d' e)
  show ?thesis
    using assms unfolding Pair fdalloc_ok_def prod.case by (cases e) (auto, (metis not_le)+)
qed

lemma fdalloc_from_spec:
  assumes "fd_map U d"
  shows "\<exists>r. fdalloc_from d lim want = Some r \<and> fdalloc_ok U d lim want r"
  using assms
proof (induction d lim want rule: fdalloc_induct)
  case (1 d lim want)
  let ?lst = "min (fd_nfiles d) lim" and ?i = "max want (fd_freefile d)"
  have sh: "fd_shape d" using "1.prems" by (simp add: fd_map_def)
  have wi: "n \<in> U" if "want \<le> n" "n < ?i" for n
    using "1.prems" that by (auto simp: fd_map_def fd_marks_def)
  have ff: "{..<fd_freefile d} \<subseteq> U" using "1.prems" by (simp add: fd_map_def fd_marks_def)
  have le: "?lst \<le> fd_nfiles d" by simp
  show ?case
  proof (cases rule: fd_search_cases [OF "1.prems" le, where i = ?i, case_names full again found])
    case full
    then have "\<forall>n. want \<le> n \<and> n < ?lst \<longrightarrow> n \<in> U" using wi by (metis not_le)
    with full(1) show ?thesis by (subst fdalloc_from_search) (simp add: fdalloc_ok_def)
  next
    case (again new)
    obtain r where r: "fdalloc_from d lim ((new + 1) * 32) = Some r" "fdalloc_ok U d lim ((new + 1) * 32) r"
      using "1.IH" [OF again(1) "1.prems"] by blast
    have "\<forall>n. want \<le> n \<and> n < (new + 1) * 32 \<longrightarrow> n \<in> U" using wi again(3) by (metis mult.commute not_le)
    with r(2) have "fdalloc_ok U d lim want r" using again(2) by (elim fdalloc_ok_later) auto
    with r(1) again(1) show ?thesis by (subst fdalloc_from_search) simp
  next
    case (found new j)
    define n where "n = 32 * new + j"
    have all: "\<forall>k. want \<le> k \<and> k < n \<longrightarrow> k \<in> U" using wi found(4) by (metis n_def not_le)
    show ?thesis
    proof (cases "n < ?lst")
      case True
      then have nn: "n < fd_nfiles d" by simp
      have eq: "fdalloc_from d lim want = Some (fdalloc_val d n (want \<le> fd_freefile d), Inr n)"
        using found(1) True fd_used_eq [OF sh nn] by (subst fdalloc_from_search) (simp add: fdalloc_val_def n_def)
      have "fd_map (insert n U) (fdalloc_val d n (want \<le> fd_freefile d))"
      proof (rule fdalloc_val_map [OF "1.prems" nn])
        assume "want \<le> fd_freefile d"
        then show "{..<n} \<subseteq> U" using all ff by (metis lessThan_iff less_le_trans not_le subset_iff)
      qed
      with True found(2,3) all have "fdalloc_ok U d lim want (fdalloc_val d n (want \<le> fd_freefile d), Inr n)"
        unfolding fdalloc_ok_def prod.case sum.case n_def by auto
      with eq show ?thesis by blast
    next
      case False
      with found(1) all show ?thesis by (subst fdalloc_from_search) (auto simp: fdalloc_ok_def n_def)
    qed
  qed
qed

end
