(* ===== verification/Fdesc_Ops.thy ===== *)
theory Fdesc_Ops
  imports Fdesc_Maps
begin

text \<open>
  The calls that duplicate and close descriptors against the abstract table, a map from
  descriptors to files. \<open>kfs_inv\<close> relates the table, the reference counts and the list of
  open files while no call is in progress.
\<close>

section \<open>The abstract table\<close>

definition tab :: "kfs \<Rightarrow> nat \<Rightarrow> fid option" where
  "tab s n = (if n < fd_nfiles (p_fd s) then fd_ofiles (p_fd s) ! n else None)"

definition lowest :: "kfs \<Rightarrow> nat \<Rightarrow> nat" where
  "lowest s want = (LEAST n. want \<le> n \<and> tab s n = None)"

definition refs :: "kfs \<Rightarrow> fid \<Rightarrow> nat" where
  "refs s fp = count_list (fd_ofiles (p_fd s)) (Some fp)"

text \<open>A file the table refers to: it is live, usable and not in use by a call.\<close>

definition file_ok :: "kfs \<Rightarrow> fid \<Rightarrow> bool" where
  "file_ok s fp \<longleftrightarrow> fp \<in> set (filehead s) \<and> FILE_IS_USABLE (k_file s fp) \<and> f_usecount (k_file s fp) = 0
     \<and> int (refs s fp) \<le> f_count (k_file s fp) \<and> f_count (k_file s fp) \<le> F_COUNT_MAX"

definition kfs_inv :: "kfs \<Rightarrow> bool" where
  "kfs_inv s \<longleftrightarrow> fd_inv {} (p_fd s) \<and> unat (rlim_nofile s) < 2 ^ 32 \<and> p_lim s \<le> 12800
     \<and> distinct (filehead s) \<and> nfiles s = int (length (filehead s))
     \<and> (\<forall>fp. Some fp \<in> set (fd_ofiles (p_fd s)) \<longrightarrow> file_ok s fp)"

lemma count_list_update:
  "n < length xs \<Longrightarrow> count_list (xs[n := y]) z + (if xs ! n = z then 1 else 0) = count_list xs z + (if y = z then 1 else 0)"
proof (induction xs arbitrary: n)
  case (Cons x xs)
  show ?case
  proof (cases n)
    case 0
    then show ?thesis by simp
  next
    case (Suc k)
    with Cons.prems Cons.IH [of k] show ?thesis by (simp split: if_splits)
  qed
qed simp

lemma p_lim_eq: "kfs_inv s \<Longrightarrow> p_lim s = min (unat (rlim_nofile s)) (maxfiles s)"
proof -
  assume "kfs_inv s"
  then have "unat (rlim_nofile s) < 2 ^ 32" by (simp add: kfs_inv_def)
  then have "unat (ucast (rlim_nofile s) :: u_int) = unat (rlim_nofile s)"
    by (simp add: unsigned_ucast_eq take_bit_nat_eq_self_iff)
  then show ?thesis by (simp add: p_lim_def)
qed

lemma kfs_map: "kfs_inv s \<Longrightarrow> fd_map (open_fds (p_fd s)) (p_fd s)"
  by (simp add: kfs_inv_def fd_inv_def)

lemma kfs_shape: "kfs_inv s \<Longrightarrow> fd_shape (p_fd s)"
  using kfs_map by (simp add: fd_map_def)

lemma tab_open: "fd_shape (p_fd s) \<Longrightarrow> tab s n \<noteq> None \<longleftrightarrow> n \<in> open_fds (p_fd s)"
  by (auto simp: tab_def open_fds_def fd_shape_def)

lemma kfs_file:
  assumes "kfs_inv s" "tab s n = Some fp"
  shows "file_ok s fp" "n < fd_nfiles (p_fd s)" "fd_ofiles (p_fd s) ! n = Some fp" "0 < refs s fp"
proof -
  have len: "length (fd_ofiles (p_fd s)) = fd_nfiles (p_fd s)" using kfs_shape [OF assms(1)] by (simp add: fd_shape_def)
  show n: "n < fd_nfiles (p_fd s)" "fd_ofiles (p_fd s) ! n = Some fp"
    using assms(2) by (auto simp: tab_def split: if_splits)
  then have "Some fp \<in> set (fd_ofiles (p_fd s))" using len by (metis nth_mem)
  then show "file_ok s fp" "0 < refs s fp"
    using assms(1) by (auto simp: kfs_inv_def refs_def count_list_0_iff intro: Suc_leI gr0I)
qed

lemma fd_getfile_tab: "kfs_inv s \<Longrightarrow> fd_getfile s n = tab s n"
proof (cases "tab s n")
  case None
  then show ?thesis by (auto simp: fd_getfile_def tab_def split: option.splits if_splits)
next
  case (Some fp)
  assume "kfs_inv s"
  from kfs_file [OF this Some] Some show ?thesis by (auto simp: fd_getfile_def file_ok_def)
qed

lemma tab_finite: "kfs_inv s \<Longrightarrow> \<exists>n. want \<le> n \<and> tab s n = None"
  by (rule exI [of _ "max want (fd_nfiles (p_fd s))"]) (simp add: tab_def)

lemma lowest_spec:
  assumes "kfs_inv s"
  shows "want \<le> lowest s want" "tab s (lowest s want) = None" "want \<le> i \<Longrightarrow> i < lowest s want \<Longrightarrow> tab s i \<noteq> None"
proof -
  from tab_finite [OF assms] have "want \<le> lowest s want \<and> tab s (lowest s want) = None"
    unfolding lowest_def by (rule LeastI_ex)
  then show "want \<le> lowest s want" "tab s (lowest s want) = None" by auto
  show "tab s i \<noteq> None" if "want \<le> i" "i < lowest s want"
    using not_less_Least [of i "\<lambda>n. want \<le> n \<and> tab s n = None"] that by (auto simp: lowest_def)
qed

lemma lowestI:
  "want \<le> n \<Longrightarrow> tab s n = None \<Longrightarrow> (\<And>i. want \<le> i \<Longrightarrow> i < n \<Longrightarrow> tab s i \<noteq> None) \<Longrightarrow> lowest s want = n"
  unfolding lowest_def by (rule Least_equality) (auto, metis not_le option.distinct(1))

section \<open>Growing\<close>

lemma grow_inv:
  assumes "kfs_inv s" "fd_nfiles (p_fd s) < p_lim s"
  shows "kfs_inv (s\<lparr>p_fd := fdexpand (p_fd s)\<rparr>)" "tab (s\<lparr>p_fd := fdexpand (p_fd s)\<rparr>) = tab s"
    "refs (s\<lparr>p_fd := fdexpand (p_fd s)\<rparr>) = refs s"
proof -
  let ?d = "p_fd s" and ?s = "s\<lparr>p_fd := fdexpand (p_fd s)\<rparr>"
  note sh = kfs_shape [OF assms(1)]
  have "fd_nfiles ?d < 12800" using assms by (simp add: kfs_inv_def)
  then have m: "fd_map (open_fds ?d) (fdexpand ?d)" using kfs_map [OF assms(1)] by (intro fdexpand_map)
  show r: "refs ?s = refs s"
    by (rule ext) (simp add: refs_def fdexpand_tables(1) [OF sh])
  show "tab ?s = tab s"
  proof (rule ext)
    fix n
    show "tab ?s n = tab s n"
      using sh fdexpand_nfiles [of ?d]
      by (auto simp: tab_def fdexpand_tables(1) [OF sh] nth_append fd_shape_def)
  qed
  have "file_ok ?s fp \<longleftrightarrow> file_ok s fp" for fp by (simp add: file_ok_def r)
  moreover have "Some fp \<in> set (fd_ofiles (fdexpand ?d)) \<longleftrightarrow> Some fp \<in> set (fd_ofiles ?d)" for fp
    by (auto simp: fdexpand_tables(1) [OF sh])
  ultimately show "kfs_inv ?s"
    using assms(1) m open_fds_expand [OF sh] by (auto simp: kfs_inv_def fd_inv_def)
qed

section \<open>Uses of a file\<close>

lemma has_flag_or_right: "has_flag w (a OR b) \<longleftrightarrow> has_flag w a \<or> has_flag w b"
  by (auto simp: has_flag_def bit_eq_iff bit_simps)

lemma usable_flags: "FILE_IS_USABLE f \<Longrightarrow> \<not> has_flag (f_iflags f) FIF_WANTCLOSE"
  by (simp add: FILE_IS_USABLE_def has_flag_or_right)

lemma FRELE_FREF: "FILE_IS_USABLE (k_file s fp) \<Longrightarrow> FRELE (FREF s fp) fp = s"
  by (drule usable_flags) (simp add: FRELE_def FREF_def upd_file_def Let_def)

section \<open>Dropping a reference\<close>

text \<open>What \<open>closef\<close> leaves behind when it drops the reference of a descriptor.\<close>

definition adv_unlock :: "kfs \<Rightarrow> fid \<Rightarrow> fdcall list" where
  "adv_unlock s fp = (if has_flag (fd_flags (p_fd s)) FD_ADVLOCK \<and> f_type (k_file s fp) = DTYPE_VNODE
     then [Advlock_unlock fp] else [])"

definition drop_ref :: "kfs \<Rightarrow> fid \<Rightarrow> kfs" where
  "drop_ref s fp =
     (if f_count (k_file s fp) > 1
      then s\<lparr>k_file := (k_file s)(fp := (k_file s fp)\<lparr>f_count := f_count (k_file s fp) - 1\<rparr>),
             k_calls := k_calls s @ adv_unlock s fp\<rparr>
      else s\<lparr>k_file := (k_file s)(fp := (k_file s fp)\<lparr>f_count := 0, f_iflags := f_iflags (k_file s fp) OR FIF_WANTCLOSE,
               f_usecount := 1\<rparr>),
             filehead := remove1 fp (filehead s), nfiles := nfiles s - 1,
             k_calls := k_calls s @ adv_unlock s fp @ (if f_ops (k_file s fp) then [Fo_close fp] else [])
               @ [Crfree (f_cred (k_file s fp))]\<rparr>)"

definition close_errno :: "(fid \<Rightarrow> errno option) \<Rightarrow> kfs \<Rightarrow> fid \<Rightarrow> errno option" where
  "close_errno fo_close s fp = (if f_count (k_file s fp) = 1 \<and> f_ops (k_file s fp) then fo_close fp else None)"

lemma closef_eq:
  assumes "FILE_IS_USABLE (k_file s fp)" "f_usecount (k_file s fp) = 0" "1 \<le> f_count (k_file s fp)"
  shows "closef fo_close True (FREF s fp) (Some fp) = Some (drop_ref s fp, close_errno fo_close s fp)"
proof -
  have w: "\<not> has_flag (f_iflags (k_file s fp)) FIF_WANTCLOSE" using assms(1) by (rule usable_flags)
  show ?thesis
  proof (cases "f_count (k_file s fp) > 1")
    case True
    then show ?thesis
      using w assms(2)
      by (cases s; cases "k_file s fp")
        (simp add: closef_def FREF_def FRELE_def upd_file_def call_def drop_ref_def adv_unlock_def close_errno_def Let_def)
  next
    case False
    then have "f_count (k_file s fp) = 1" using assms(3) by simp
    with w assms(2) show ?thesis
      by (cases s; cases "k_file s fp")
        (simp add: closef_def FREF_def upd_file_def call_def drop_ref_def adv_unlock_def close_errno_def Let_def)
  qed
qed

lemma drop_ref_frame [simp]:
  "p_fd (drop_ref s fp) = p_fd s" "maxfiles (drop_ref s fp) = maxfiles s"
  "rlim_nofile (drop_ref s fp) = rlim_nofile s" "p_ucred (drop_ref s fp) = p_ucred s"
  "p_lim (drop_ref s fp) = p_lim s" "refs (drop_ref s fp) = refs s" "tab (drop_ref s fp) = tab s"
  by (simp_all add: drop_ref_def p_lim_def refs_def tab_def fun_eq_iff)

text \<open>
  A state with one reference more than the table accounts for: \<open>fp\<close> was taken out of the table
  or is about to be dropped.
\<close>

lemma drop_ref_inv:
  assumes inv: "fd_inv {} (p_fd s)" "unat (rlim_nofile s) < 2 ^ 32" "p_lim s \<le> 12800"
      "distinct (filehead s)" "nfiles s = int (length (filehead s))"
    and files: "\<forall>g. Some g \<in> set (fd_ofiles (p_fd s)) \<longrightarrow> file_ok s g"
    and fp: "fp \<in> set (filehead s)" "int (refs s fp) < f_count (k_file s fp)"
  shows "kfs_inv (drop_ref s fp)"
proof -
  have d: "distinct (filehead (drop_ref s fp))" "nfiles (drop_ref s fp) = int (length (filehead (drop_ref s fp)))"
    using inv(4,5) fp(1) length_pos_if_in_set [OF fp(1)]
    by (auto simp: drop_ref_def length_remove1 of_nat_diff Suc_le_eq)
  have ok: "file_ok (drop_ref s fp) g" if g: "Some g \<in> set (fd_ofiles (p_fd s))" for g
  proof (cases "g = fp")
    case False
    with files g show ?thesis by (auto simp: file_ok_def drop_ref_def refs_def)
  next
    case True
    have "refs s g \<noteq> 0" using g by (simp add: refs_def count_list_0_iff)
    then have "f_count (k_file s fp) > 1" using fp(2) True by simp
    with files g True fp(2) show ?thesis by (auto simp: file_ok_def drop_ref_def FILE_IS_USABLE_def refs_def)
  qed
  show ?thesis using inv d ok by (simp add: kfs_inv_def)
qed

section \<open>Closing a descriptor\<close>

lemma knote_check_frame [simp]:
  "p_fd (knote_check s n) = p_fd s" "k_file (knote_check s n) = k_file s" "filehead (knote_check s n) = filehead s"
  "nfiles (knote_check s n) = nfiles s" "rlim_nofile (knote_check s n) = rlim_nofile s"
  "maxfiles (knote_check s n) = maxfiles s" "p_lim (knote_check s n) = p_lim s" "refs (knote_check s n) = refs s"
  "tab (knote_check s n) = tab s"
  by (simp_all add: knote_check_def call_def p_lim_def refs_def tab_def fun_eq_iff)

lemma knote_check_FREF: "knote_check (FREF s fp) n = FREF (knote_check s n) fp"
  by (simp add: knote_check_def call_def FREF_def upd_file_def)

lemma FREF_p_fd: "(FREF s fp)\<lparr>p_fd := d\<rparr> = FREF (s\<lparr>p_fd := d\<rparr>) fp"
  by (simp add: FREF_def upd_file_def)

lemma fd_map_ofiles:
  "fd_map U d \<Longrightarrow> length fs = length (fd_ofiles d) \<Longrightarrow> length fl = length (fd_ofileflags d) \<Longrightarrow>
    fd_map U (d\<lparr>fd_ofiles := fs, fd_ofileflags := fl\<rparr>)"
  by (simp add: fd_map_def fd_shape_def fd_bits_def fd_marks_def)

lemma set_update_None: "Some g \<in> set (xs[n := None]) \<Longrightarrow> Some g \<in> set xs"
  using set_update_subset_insert [of xs n None] by auto

text \<open>Taking descriptor \<open>n\<close> out of the table.\<close>

lemma unlink_fd:
  assumes "kfs_inv s" "tab s n = Some fp"
  shows "\<exists>d. fd_unused ((p_fd s)\<lparr>fd_ofiles := (fd_ofiles (p_fd s))[n := None],
             fd_ofileflags := (fd_ofileflags (p_fd s))[n := 0]\<rparr>) n = Some d
     \<and> fd_inv {} d \<and> fd_nfiles d = fd_nfiles (p_fd s) \<and> fd_ofiles d = (fd_ofiles (p_fd s))[n := None]
     \<and> fd_ofileflags d = (fd_ofileflags (p_fd s))[n := 0] \<and> fd_flags d = fd_flags (p_fd s)
     \<and> fd_knlistsize d = fd_knlistsize (p_fd s)"
proof -
  let ?d = "(p_fd s)\<lparr>fd_ofiles := (fd_ofiles (p_fd s))[n := None], fd_ofileflags := (fd_ofileflags (p_fd s))[n := 0]\<rparr>"
  note f = kfs_file [OF assms]
  have len: "length (fd_ofiles (p_fd s)) = fd_nfiles (p_fd s)" using kfs_shape [OF assms(1)] by (simp add: fd_shape_def)
  have o: "n \<notin> open_fds ?d" "insert n (open_fds ?d) = open_fds (p_fd s)"
    using f(2,3) len by (auto simp: open_fds_def nth_list_update)
  have "fd_map (insert n (open_fds ?d)) ?d" unfolding o(2) using kfs_map [OF assms(1)] by (rule fd_map_ofiles) simp_all
  from fd_unused_map [OF this o(1)] obtain d where d: "fd_unused ?d n = Some d" "fd_map (open_fds ?d) d"
    "fd_ofiles d = fd_ofiles ?d" "fd_ofileflags d = fd_ofileflags ?d" "fd_nfiles d = fd_nfiles ?d"
    "fd_flags d = fd_flags ?d" "fd_knlistsize d = fd_knlistsize ?d" by blast
  have "open_fds d = open_fds ?d" unfolding open_fds_def d(3) ..
  with d show ?thesis by (intro exI [of _ d]) (simp add: fd_inv_def)
qed

text \<open>\<open>closed s n fp d\<close>: the state after the close of descriptor \<open>n\<close> with the new table \<open>d\<close>.\<close>

lemma fdrelease_spec:
  assumes "kfs_inv s" "tab s n = Some fp"
  shows "\<exists>d s'. fdrelease fo_close s n = Some (s', close_errno fo_close s fp)
     \<and> s' = drop_ref (knote_check (s\<lparr>p_fd := d\<rparr>) n) fp \<and> kfs_inv s' \<and> tab s' = (tab s)(n := None)
     \<and> fd_ofiles d = (fd_ofiles (p_fd s))[n := None] \<and> fd_ofileflags d = (fd_ofileflags (p_fd s))[n := 0]
     \<and> fd_nfiles d = fd_nfiles (p_fd s) \<and> fd_flags d = fd_flags (p_fd s)"
proof -
  note f = kfs_file [OF assms]
  have len: "length (fd_ofiles (p_fd s)) = fd_nfiles (p_fd s)" using kfs_shape [OF assms(1)] by (simp add: fd_shape_def)
  obtain d where d: "fd_unused ((p_fd s)\<lparr>fd_ofiles := (fd_ofiles (p_fd s))[n := None],
      fd_ofileflags := (fd_ofileflags (p_fd s))[n := 0]\<rparr>) n = Some d"
    "fd_inv {} d" "fd_nfiles d = fd_nfiles (p_fd s)" "fd_ofiles d = (fd_ofiles (p_fd s))[n := None]"
    "fd_ofileflags d = (fd_ofileflags (p_fd s))[n := 0]" "fd_flags d = fd_flags (p_fd s)" using unlink_fd [OF assms] by blast
  define t where "t = knote_check (s\<lparr>p_fd := d\<rparr>) n"
  have tf: "k_file t = k_file s" "p_fd t = d" "filehead t = filehead s" "nfiles t = nfiles s"
    "rlim_nofile t = rlim_nofile s" "p_lim t = p_lim s"
    by (simp_all add: t_def)
  have r: "refs t g + (if g = fp then 1 else 0) = refs s g" for g
    using count_list_update [of n "fd_ofiles (p_fd s)" None "Some g"] f(2,3) len by (auto simp: refs_def tf d(4) split: if_splits)
  have cnt: "int (refs t fp) < f_count (k_file t fp)" "1 \<le> f_count (k_file t fp)"
    using r [of fp] f(1,4) by (auto simp: file_ok_def tf)
  have "closef fo_close True (FREF t fp) (Some fp) = Some (drop_ref t fp, close_errno fo_close t fp)"
    using f(1) cnt(2) by (intro closef_eq) (auto simp: file_ok_def tf)
  then have e: "fdrelease fo_close s n = Some (drop_ref t fp, close_errno fo_close s fp)"
    using f(2,3) len d(1) by (simp add: fdrelease_def Let_def FREF_p_fd knote_check_FREF t_def close_errno_def)
  have "file_ok t g" if "Some g \<in> set (fd_ofiles (p_fd t))" for g
  proof -
    have "Some g \<in> set (fd_ofiles (p_fd s))" using that by (auto simp: tf d(4) dest: set_update_None)
    then have "file_ok s g" using assms(1) by (simp add: kfs_inv_def)
    with r [of g] show ?thesis by (auto simp: file_ok_def tf split: if_splits)
  qed
  then have "kfs_inv (drop_ref t fp)"
    using assms(1) d(2) f(1) cnt by (intro drop_ref_inv) (auto simp: kfs_inv_def tf file_ok_def)
  moreover have "tab t = (tab s)(n := None)"
    using f(2) len d(3,4) by (auto simp: tab_def tf fun_eq_iff nth_list_update)
  ultimately show ?thesis using e d by (auto simp: t_def)
qed

end
