(* ===== verification/Fdesc_Dup.thy ===== *)
theory Fdesc_Dup
  imports Fdesc_Ops
begin

text \<open>
  \<open>dup\<close>, \<open>dup2\<close> and \<open>fcntl(F_DUPFD)\<close>: they return, and what they do to the abstract table,
  to the reference counts and to the close-on-exec flag.
\<close>

section \<open>Installing a file in a descriptor\<close>

definition put_file :: "filedesc \<Rightarrow> nat \<Rightarrow> nat \<Rightarrow> fid \<Rightarrow> filedesc" where
  "put_file d old n fp = d\<lparr>fd_ofiles := (fd_ofiles d)[n := Some fp],
     fd_ofileflags := (fd_ofileflags d)[n := fd_ofileflags d ! old AND NOT UF_EXCLOSE]\<rparr>"

definition inc_count :: "kfs \<Rightarrow> fid \<Rightarrow> kfs" where
  "inc_count s fp = upd_file s fp (\<lambda>f. f\<lparr>f_count := f_count f + 1\<rparr>)"

lemma inc_count_frame [simp]:
  "p_fd (inc_count s fp) = p_fd s" "filehead (inc_count s fp) = filehead s" "nfiles (inc_count s fp) = nfiles s"
  "rlim_nofile (inc_count s fp) = rlim_nofile s" "maxfiles (inc_count s fp) = maxfiles s"
  "p_lim (inc_count s fp) = p_lim s" "refs (inc_count s fp) = refs s" "tab (inc_count s fp) = tab s"
  "k_calls (inc_count s fp) = k_calls s"
  by (simp_all add: inc_count_def upd_file_def p_lim_def refs_def tab_def fun_eq_iff)

lemma inc_count_file:
  "k_file (inc_count s fp) g = (if g = fp then (k_file s fp)\<lparr>f_count := f_count (k_file s fp) + 1\<rparr> else k_file s g)"
  by (simp add: inc_count_def upd_file_def)

lemma put_file_frame [simp]:
  "fd_nfiles (put_file d old n fp) = fd_nfiles d" "fd_knlistsize (put_file d old n fp) = fd_knlistsize d"
  "fd_flags (put_file d old n fp) = fd_flags d"
  "fd_ofiles (put_file d old n fp) = (fd_ofiles d)[n := Some fp]"
  by (simp_all add: put_file_def)

lemma put_file_flag:
  "n < length (fd_ofileflags d) \<Longrightarrow> \<not> has_flag (fd_ofileflags (put_file d old n fp) ! n) UF_EXCLOSE"
  by (simp add: put_file_def)

lemma FRELE_inc_FREF:
  "FILE_IS_USABLE (k_file s fp) \<Longrightarrow>
    FRELE (upd_file ((FREF s fp)\<lparr>p_fd := d\<rparr>) fp (\<lambda>f. f\<lparr>f_count := f_count f + 1\<rparr>)) fp = inc_count (s\<lparr>p_fd := d\<rparr>) fp"
  by (drule usable_flags) (cases s, auto simp: FRELE_def FREF_def inc_count_def upd_file_def Let_def fun_eq_iff)

lemma FRELE_inc_FREF_FREF:
  assumes "FILE_IS_USABLE (k_file s fp)"
  shows "FRELE (upd_file ((FREF (FREF s fp) g)\<lparr>p_fd := d\<rparr>) fp (\<lambda>f. f\<lparr>f_count := f_count f + 1\<rparr>)) fp
    = FREF (inc_count (s\<lparr>p_fd := d\<rparr>) fp) g"
proof -
  have w: "\<not> has_flag (f_iflags (k_file s fp)) FIF_WANTCLOSE" using assms by (rule usable_flags)
  then show ?thesis
    by (cases s) (auto simp: FRELE_def FREF_def inc_count_def upd_file_def Let_def fun_eq_iff)
qed

lemma put_refs:
  assumes "fd_ofiles d = fd_ofiles (p_fd s)" "n < length (fd_ofiles (p_fd s))"
  shows "count_list (fd_ofiles (put_file d old n fp)) (Some g)
    + (if fd_ofiles (p_fd s) ! n = Some g then 1 else 0) = refs s g + (if g = fp then 1 else 0)"
  using count_list_update [of n "fd_ofiles (p_fd s)" "Some fp" "Some g"] assms by (simp add: refs_def put_file_def)

text \<open>The state after a file was installed in the free descriptor \<open>n\<close> of table \<open>d\<close>.\<close>

definition dup_state :: "kfs \<Rightarrow> filedesc \<Rightarrow> nat \<Rightarrow> nat \<Rightarrow> fid \<Rightarrow> kfs" where
  "dup_state s d old n fp = inc_count (s\<lparr>p_fd := fd_used_val (put_file d old n fp) n\<rparr>) fp"

lemma dup_state_inv:
  assumes inv: "kfs_inv s" and fp: "tab s old = Some fp" and n: "n < fd_nfiles (p_fd s)" "tab s n = None"
    and cnt: "f_count (k_file s fp) < F_COUNT_MAX"
    and d: "fd_map U d" "insert n U = insert n (open_fds (p_fd s))" "fd_ofiles d = fd_ofiles (p_fd s)"
      "fd_nfiles d = fd_nfiles (p_fd s)"
  shows "kfs_inv (dup_state s d old n fp)" "tab (dup_state s d old n fp) = (tab s)(n \<mapsto> fp)"
proof -
  let ?s = "dup_state s d old n fp"
  note f = kfs_file [OF inv fp]
  have len: "length (fd_ofiles (p_fd s)) = fd_nfiles (p_fd s)" using kfs_shape [OF inv] by (simp add: fd_shape_def)
  have nn: "n < fd_nfiles d" using n d(4) by simp
  have of: "fd_ofiles (p_fd ?s) = (fd_ofiles (p_fd s))[n := Some fp]" by (simp add: dup_state_def d(3))
  have none: "fd_ofiles (p_fd s) ! n = None" using n by (simp add: tab_def)
  have "fd_map (insert n U) (fd_used_val (put_file d old n fp) n)"
    unfolding put_file_def using d(1) nn by (intro fd_used_map fd_map_ofiles) simp_all
  moreover have "open_fds (p_fd ?s) = insert n U"
    unfolding d(2) using n len by (auto simp: open_fds_def of nth_list_update)
  ultimately have m: "fd_inv {} (p_fd ?s)" by (simp add: fd_inv_def dup_state_def)
  have r: "refs ?s g = refs s g + (if g = fp then 1 else 0)" for g
    using put_refs [OF d(3), of n old fp g] n len none by (simp add: refs_def dup_state_def)
  have "file_ok ?s g" if "Some g \<in> set (fd_ofiles (p_fd ?s))" for g
  proof -
    have "g = fp \<or> Some g \<in> set (fd_ofiles (p_fd s))" using that set_update_subset_insert by (fastforce simp: of)
    then have "file_ok s g" using inv f(1) by (auto simp: kfs_inv_def)
    with cnt r [of g] show ?thesis by (auto simp: file_ok_def dup_state_def inc_count_file FILE_IS_USABLE_def)
  qed
  then show "kfs_inv ?s" using inv m by (simp add: kfs_inv_def) (simp add: dup_state_def)
  show "tab ?s = (tab s)(n \<mapsto> fp)" using n len d(4) by (auto simp: tab_def fun_eq_iff of) (simp_all add: dup_state_def)
qed

lemma finishdup_free:
  assumes inv: "kfs_inv s" and fp: "tab s old = Some fp" and n: "n < fd_nfiles (p_fd s)" "tab s n = None"
    and cnt: "f_count (k_file s fp) < F_COUNT_MAX"
    and d: "fd_map U d" "fd_ofiles d = fd_ofiles (p_fd s)" "fd_nfiles d = fd_nfiles (p_fd s)"
  shows "finishdup fo_close ((FREF s fp)\<lparr>p_fd := d\<rparr>) fp old n = Some (dup_state s d old n fp, Inr n)"
proof -
  note f = kfs_file [OF inv fp]
  note ln = fd_map_len [OF d(1)]
  have us: "FILE_IS_USABLE (k_file s fp)" using f(1) by (simp add: file_ok_def)
  have none: "fd_ofiles d ! n = None" using n d(2) by (simp add: tab_def)
  have "fd_shape (put_file d old n fp)" using d(1) by (simp add: put_file_def fd_map_def fd_shape_def)
  then have "fd_used (put_file d old n fp) n = Some (fd_used_val (put_file d old n fp) n)"
    using n d(3) by (intro fd_used_eq) simp_all
  moreover have "inc_count (s\<lparr>p_fd := a\<rparr>) fp\<lparr>p_fd := b\<rparr> = inc_count (s\<lparr>p_fd := b\<rparr>) fp" for a b
    by (simp add: inc_count_def upd_file_def)
  moreover have "f_count (k_file ((FREF s fp)\<lparr>p_fd := d\<rparr>) fp) = f_count (k_file s fp)"
    by (simp add: FREF_def upd_file_def)
  ultimately show ?thesis
    using FRELE_inc_FREF [OF us, of "put_file d old n fp"] cnt none n f(2) ln(1,2) d(3)
    by (simp add: finishdup_def Let_def dup_state_def put_file_def)
qed

lemma finishdup_open:
  assumes inv: "kfs_inv s" and fp: "tab s old = Some fp" and n: "tab s n = Some ofp"
    and cnt: "f_count (k_file s fp) < F_COUNT_MAX"
  defines "t \<equiv> knote_check (inc_count (s\<lparr>p_fd := put_file (p_fd s) old n fp\<rparr>) fp) n"
  shows "finishdup fo_close (FREF s fp) fp old n = Some (drop_ref t ofp, Inr n)"
    "kfs_inv (drop_ref t ofp)" "tab (drop_ref t ofp) = (tab s)(n \<mapsto> fp)"
proof -
  note f = kfs_file [OF inv fp] and g = kfs_file [OF inv n]
  note ln = fd_map_len [OF kfs_map [OF inv]]
  have t: "k_file t = k_file (inc_count s fp)" "p_fd t = put_file (p_fd s) old n fp" "filehead t = filehead s"
    "nfiles t = nfiles s" "rlim_nofile t = rlim_nofile s" "p_lim t = p_lim s"
    by (simp_all add: t_def inc_count_def upd_file_def p_lim_def)
  have us: "FILE_IS_USABLE (k_file s fp)" using f(1) by (simp add: file_ok_def)
  have r: "refs t h + (if h = ofp then 1 else 0) = refs s h + (if h = fp then 1 else 0)" for h
    using put_refs [OF refl, of n s old fp h] g(2,3) ln(1) by (auto simp: refs_def t split: if_splits)
  have ok: "file_ok t h" if "Some h \<in> set (fd_ofiles (p_fd t))" for h
  proof -
    have "h = fp \<or> Some h \<in> set (fd_ofiles (p_fd s))" using that set_update_subset_insert by (fastforce simp: t)
    then have "file_ok s h" using inv f(1) by (auto simp: kfs_inv_def)
    with cnt r [of h] show ?thesis by (auto simp: file_ok_def t inc_count_file FILE_IS_USABLE_def split: if_splits)
  qed
  have ofp: "FILE_IS_USABLE (k_file t ofp)" "f_usecount (k_file t ofp) = 0" "ofp \<in> set (filehead t)"
    "int (refs t ofp) < f_count (k_file t ofp)"
    using g(1) r [of ofp] by (auto simp: file_ok_def t inc_count_file FILE_IS_USABLE_def split: if_splits)
  then have "closef fo_close True (FREF t ofp) (Some ofp) = Some (drop_ref t ofp, close_errno fo_close t ofp)"
    by (intro closef_eq) auto
  moreover have "f_count (k_file (FREF s fp) fp) = f_count (k_file s fp)" by (simp add: FREF_def upd_file_def)
  ultimately show "finishdup fo_close (FREF s fp) fp old n = Some (drop_ref t ofp, Inr n)"
    using FRELE_inc_FREF_FREF [OF us, where g = ofp and d = "put_file (p_fd s) old n fp"] cnt f(2) g(2,3) ln(1,2)
    by (simp add: finishdup_def Let_def t_def put_file_def knote_check_FREF)
  have "open_fds (p_fd t) = open_fds (p_fd s)" using g(2,3) ln(1) by (auto simp: open_fds_def t nth_list_update)
  then have "fd_inv {} (p_fd t)"
    using kfs_map [OF inv] unfolding fd_inv_def t(2) put_file_def by (simp add: fd_map_ofiles)
  then show "kfs_inv (drop_ref t ofp)" using inv ofp(3,4) ok by (intro drop_ref_inv) (auto simp: kfs_inv_def t)
  show "tab (drop_ref t ofp) = (tab s)(n \<mapsto> fp)" using g(2) ln(1) by (auto simp: tab_def fun_eq_iff t)
qed

section \<open>Allocation over the abstract table\<close>

lemma fdalloc_p_fd: "p_fd t = p_fd s \<Longrightarrow> p_lim t = p_lim s \<Longrightarrow> fdalloc t want
    = map_option (\<lambda>(d, r). (t\<lparr>p_fd := d\<rparr>, r)) (fdalloc_from (p_fd s) (p_lim s) want)"
  by (simp add: fdalloc_def)

lemma fdalloc_tab:
  assumes "kfs_inv s" and t: "p_fd t = p_fd s" "p_lim t = p_lim s"
  obtains (full) "fdalloc t want = Some (t, Inl EMFILE)" "p_lim s \<le> fd_nfiles (p_fd s)"
      "p_lim s \<le> lowest s want"
    | (grow) "fdalloc t want = Some (t, Inl ENOSPC)" "fd_nfiles (p_fd s) < p_lim s"
        "fd_nfiles (p_fd s) \<le> lowest s want"
    | (found) d U where "fdalloc t want = Some (t\<lparr>p_fd := d\<rparr>, Inr (lowest s want))"
        "lowest s want < min (fd_nfiles (p_fd s)) (p_lim s)" "tab s (lowest s want) = None"
        "fd_map U d" "U = insert (lowest s want) (open_fds (p_fd s))" "fd_ofiles d = fd_ofiles (p_fd s)"
        "fd_nfiles d = fd_nfiles (p_fd s)" "fd_ofileflags d = fd_ofileflags (p_fd s)"
proof -
  note to = tab_open [OF kfs_shape [OF assms(1)]]
  have tt: "t\<lparr>p_fd := p_fd s\<rparr> = t" unfolding t(1) [symmetric] by simp
  from fdalloc_from_spec [OF kfs_map [OF assms(1)], of "p_lim s" want] obtain d r where
    r: "fdalloc_from (p_fd s) (p_lim s) want = Some (d, r)" "fdalloc_ok (open_fds (p_fd s)) (p_fd s) (p_lim s) want (d, r)"
    by (metis surj_pair)
  show thesis
  proof (cases r)
    case (Inr n)
    with r(2) have n: "want \<le> n" "n < min (fd_nfiles (p_fd s)) (p_lim s)" "n \<notin> open_fds (p_fd s)"
      "\<forall>i. want \<le> i \<and> i < n \<longrightarrow> i \<in> open_fds (p_fd s)" "\<exists>b. d = fdalloc_val (p_fd s) n b"
      "fd_map (insert n (open_fds (p_fd s))) d" by (auto simp: fdalloc_ok_def)
    have tn: "tab s n = None" "\<And>i. want \<le> i \<Longrightarrow> i < n \<Longrightarrow> tab s i \<noteq> None" using n(3,4) to by blast+
    have low: "lowest s want = n" using n(1) tn by (rule lowestI)
    have "fd_ofiles d = fd_ofiles (p_fd s)" "fd_nfiles d = fd_nfiles (p_fd s)" "fd_ofileflags d = fd_ofileflags (p_fd s)"
      using n(5) by (auto simp: fdalloc_val_def)
    with r(1) Inr n(2,6) low tn(1) show thesis
      by (intro found [of d "insert n (open_fds (p_fd s))"]) (simp_all add: fdalloc_p_fd [OF t])
  next
    case (Inl e)
    with r(2) have e: "d = p_fd s" "e = full_errno (p_fd s) (p_lim s)"
      "\<forall>i. want \<le> i \<and> i < min (fd_nfiles (p_fd s)) (p_lim s) \<longrightarrow> i \<in> open_fds (p_fd s)" by (auto simp: fdalloc_ok_def)
    have eq: "fdalloc t want = Some (t, Inl e)" using r(1) Inl e(1) tt by (simp add: fdalloc_p_fd [OF t])
    show thesis
    proof (cases "fd_nfiles (p_fd s) < p_lim s")
      case True
      have "fd_nfiles (p_fd s) \<le> lowest s want"
        using e(3) True lowest_spec [OF assms(1), of want] to [of "lowest s want"]
        by (metis min.strict_order_iff not_le)
      with True eq e(2) show thesis by (intro grow) (simp_all add: full_errno_def)
    next
      case False
      have "p_lim s \<le> lowest s want"
        using e(3) False lowest_spec [OF assms(1), of want] to [of "lowest s want"] by (metis min.absorb2 not_le)
      with False eq e(2) show thesis by (intro full) (simp_all add: full_errno_def)
    qed
  qed
qed

section \<open>The calls\<close>

text \<open>
  What a successful duplication of \<open>fp\<close> from \<open>old\<close> to the free descriptor \<open>n\<close> gives.
\<close>

definition dup_ok :: "kfs \<Rightarrow> fid \<Rightarrow> nat \<Rightarrow> kfs \<Rightarrow> bool" where
  "dup_ok s fp n s' \<longleftrightarrow> kfs_inv s' \<and> tab s' = (tab s)(n \<mapsto> fp)
     \<and> k_file s' = (k_file s)(fp := (k_file s fp)\<lparr>f_count := f_count (k_file s fp) + 1\<rparr>)
     \<and> filehead s' = filehead s \<and> k_calls s' = k_calls s
     \<and> \<not> has_flag (fd_ofileflags (p_fd s') ! n) UF_EXCLOSE"

lemma dup_state_ok:
  assumes "kfs_inv s" "tab s old = Some fp" "n < fd_nfiles (p_fd s)" "tab s n = None"
    "f_count (k_file s fp) < F_COUNT_MAX"
    "fd_map U d" "insert n U = insert n (open_fds (p_fd s))" "fd_ofiles d = fd_ofiles (p_fd s)"
    "fd_nfiles d = fd_nfiles (p_fd s)"
  shows "dup_ok s fp n (dup_state s d old n fp)"
proof -
  have "n < length (fd_ofileflags d)" using fd_map_len [OF assms(6)] assms(3,9) by simp
  from put_file_flag [OF this, of old fp] dup_state_inv [OF assms] show ?thesis
    by (simp add: dup_ok_def) (simp add: dup_state_def inc_count_def upd_file_def)
qed

text \<open>Growing the table leaves everything the calls promise as it was.\<close>

lemma lowest_cong: "tab s = tab t \<Longrightarrow> lowest s want = lowest t want"
  by (simp add: lowest_def)

lemma dup_ok_grow:
  assumes "kfs_inv s" "fd_nfiles (p_fd s) < p_lim s" "dup_ok (s\<lparr>p_fd := fdexpand (p_fd s)\<rparr>) fp n s'"
  shows "dup_ok s fp n s'"
  using assms(3) grow_inv(2) [OF assms(1,2)] by (simp add: dup_ok_def)

text \<open>
  The specification of \<open>dup\<close> and \<open>F_DUPFD\<close>: the lowest free descriptor from \<open>want\<close> on, below the
  limit, refers to the file of \<open>old\<close>.
\<close>

definition dup_spec :: "kfs \<Rightarrow> nat \<Rightarrow> nat \<Rightarrow> kfs \<times> (errno + nat) \<Rightarrow> bool" where
  "dup_spec s old want r = (case tab s old of
       None \<Rightarrow> r = (s, Inl EBADF)
     | Some fp \<Rightarrow>
         if p_lim s \<le> lowest s want
         then snd r = Inl EMFILE \<and> kfs_inv (fst r) \<and> tab (fst r) = tab s \<and> k_file (fst r) = k_file s
         else snd r = Inr (lowest s want) \<and> dup_ok s fp (lowest s want) (fst r))"

lemma sys_dup_spec:
  assumes "kfs_inv s" "\<forall>fp. tab s old = Some fp \<longrightarrow> f_count (k_file s fp) < F_COUNT_MAX"
  shows "\<exists>r. sys_dup fo_close s old = Some r \<and> dup_spec s old 0 r"
  using assms
proof (induction fo_close s old rule: sys_dup.induct)
  case (1 fo_close s old)
  note inv = "1.prems"(1)
  show ?case
  proof (cases "tab s old")
    case None
    then show ?thesis by (subst sys_dup.simps) (simp add: fd_getfile_tab [OF inv] dup_spec_def)
  next
    case (Some fp)
    have gf: "fd_getfile s old = Some fp" using Some fd_getfile_tab [OF inv] by simp
    have us: "FILE_IS_USABLE (k_file s fp)" using kfs_file(1) [OF inv Some] by (simp add: file_ok_def)
    have cnt: "f_count (k_file s fp) < F_COUNT_MAX" using "1.prems"(2) Some by simp
    show ?thesis
    proof (cases rule: fdalloc_tab [OF inv p_fd_ext(1) [of s fp] p_lim_ext(1) [of s fp], where want = 0, case_names full grow found])
      case full
      then have "sys_dup fo_close s old = Some (s, Inl EMFILE)"
        using gf by (subst sys_dup.simps) (simp add: FRELE_FREF [OF us])
      with full Some inv show ?thesis by (simp add: dup_spec_def)
    next
      case grow
      let ?s = "s\<lparr>p_fd := fdexpand (p_fd s)\<rparr>"
      note g = grow_inv [OF inv grow(2)]
      have eq: "sys_dup fo_close s old = sys_dup fo_close ?s old"
        using gf grow(1) by (subst sys_dup.simps) (simp add: FRELE_FREF [OF us])
      have "\<exists>r. sys_dup fo_close ?s old = Some r \<and> dup_spec ?s old 0 r"
        using "1.IH" [OF gf grow(1) refl refl refl refl] g "1.prems"(2) by (simp add: FRELE_FREF [OF us])
      then obtain r where r: "sys_dup fo_close ?s old = Some r" "dup_spec ?s old 0 r" by blast
      have "dup_spec s old 0 r"
        using r(2) Some g(2) dup_ok_grow [OF inv grow(2)] by (auto simp: dup_spec_def lowest_cong [OF g(2)])
      with eq r(1) show ?thesis by simp
    next
      case (found d U)
      let ?n = "lowest s 0"
      have n: "?n < fd_nfiles (p_fd s)" using found(2) by simp
      have "sys_dup fo_close s old = Some (dup_state s d old ?n fp, Inr ?n)"
        using gf found(1) finishdup_free [OF inv Some n found(3) cnt found(4,6,7)]
        by (subst sys_dup.simps) simp
      moreover have "dup_ok s fp ?n (dup_state s d old ?n fp)"
        using found(5) by (intro dup_state_ok [OF inv Some n found(3) cnt found(4) _ found(6,7)]) auto
      ultimately show ?thesis using Some found(2) by (simp add: dup_spec_def)
    qed
  qed
qed

lemma lim_reached: "kfs_inv s \<Longrightarrow> unat (rlim_nofile s) \<le> n \<or> maxfiles s \<le> n \<longleftrightarrow> p_lim s \<le> n"
  by (auto simp: p_lim_eq)

lemma fcntl_dupfd_spec:
  assumes "kfs_inv s" "\<forall>fp. tab s fd = Some fp \<longrightarrow> f_count (k_file s fp) < F_COUNT_MAX" "newmin < p_lim s"
  shows "\<exists>r. fcntl_dupfd fo_close s fd newmin = Some r \<and> dup_spec s fd newmin r"
  using assms
proof (induction fo_close s fd newmin rule: fcntl_dupfd.induct)
  case (1 fo_close s fd newmin)
  note inv = "1.prems"(1)
  have lim: "\<not> (unat (rlim_nofile s) \<le> newmin \<or> maxfiles s \<le> newmin)"
    using "1.prems"(3) lim_reached [OF inv, of newmin] by simp
  show ?case
  proof (cases "tab s fd")
    case None
    then show ?thesis by (subst fcntl_dupfd.simps) (simp add: fd_getfile_tab [OF inv] dup_spec_def)
  next
    case (Some fp)
    have gf: "fd_getfile s fd = Some fp" using Some fd_getfile_tab [OF inv] by simp
    have us: "FILE_IS_USABLE (k_file s fp)" using kfs_file(1) [OF inv Some] by (simp add: file_ok_def)
    have cnt: "f_count (k_file s fp) < F_COUNT_MAX" using "1.prems"(2) Some by simp
    show ?thesis
    proof (cases rule: fdalloc_tab [OF inv p_fd_ext(1) [of s fp] p_lim_ext(1) [of s fp], where want = newmin, case_names full grow found])
      case full
      then have "fcntl_dupfd fo_close s fd newmin = Some (s, Inl EMFILE)"
        using gf lim by (subst fcntl_dupfd.simps) (simp add: FRELE_FREF [OF us])
      with full Some inv show ?thesis by (simp add: dup_spec_def)
    next
      case grow
      let ?s = "s\<lparr>p_fd := fdexpand (p_fd s)\<rparr>"
      note g = grow_inv [OF inv grow(2)]
      have fr: "FRELE ((FREF s fp)\<lparr>p_fd := fdexpand (p_fd s)\<rparr>) fp = ?s"
        using FRELE_FREF [of ?s fp] us by (simp add: FREF_p_fd)
      have eq: "fcntl_dupfd fo_close s fd newmin = fcntl_dupfd fo_close ?s fd newmin"
        using gf grow(1) lim by (subst fcntl_dupfd.simps) (simp add: fr)
      have "\<exists>r. fcntl_dupfd fo_close ?s fd newmin = Some r \<and> dup_spec ?s fd newmin r"
        using "1.IH" [OF gf lim grow(1) refl refl refl] g "1.prems"(2,3) by (simp add: fr)
      then obtain r where r: "fcntl_dupfd fo_close ?s fd newmin = Some r" "dup_spec ?s fd newmin r" by blast
      have "dup_spec s fd newmin r"
        using r(2) Some g(2) dup_ok_grow [OF inv grow(2)] by (auto simp: dup_spec_def lowest_cong [OF g(2)])
      with eq r(1) show ?thesis by simp
    next
      case (found d U)
      let ?n = "lowest s newmin"
      have n: "?n < fd_nfiles (p_fd s)" using found(2) by simp
      have "fcntl_dupfd fo_close s fd newmin = Some (dup_state s d fd ?n fp, Inr ?n)"
        using gf lim found(1) finishdup_free [OF inv Some n found(3) cnt found(4,6,7)]
        by (subst fcntl_dupfd.simps) simp
      moreover have "dup_ok s fp ?n (dup_state s d fd ?n fp)"
        using found(5) by (intro dup_state_ok [OF inv Some n found(3) cnt found(4) _ found(6,7)]) auto
      ultimately show ?thesis using Some found(2) by (simp add: dup_spec_def)
    qed
  qed
qed

text \<open>
  Conservation of references: what a file's count exceeds the references of this table by belongs
  to other tables and to messages.
\<close>

definition ext :: "kfs \<Rightarrow> fid \<Rightarrow> int" where
  "ext s fp = f_count (k_file s fp) - int (refs s fp)"

definition refs_kept :: "kfs \<Rightarrow> kfs \<Rightarrow> bool" where
  "refs_kept s s' \<longleftrightarrow> set (filehead s') \<subseteq> set (filehead s) \<and> (\<forall>fp \<in> set (filehead s'). ext s' fp = ext s fp)"

lemma drop_ref_count:
  "distinct (filehead s) \<Longrightarrow> g \<in> set (filehead (drop_ref s fp)) \<Longrightarrow>
    f_count (k_file (drop_ref s fp) g) = f_count (k_file s g) - (if g = fp then 1 else 0)"
  by (auto simp: drop_ref_def split: if_splits)

lemma drop_ref_subset: "set (filehead (drop_ref s fp)) \<subseteq> set (filehead s)"
  by (auto simp: drop_ref_def dest: set_remove1_subset [THEN subsetD])

definition dup2_ok :: "kfs \<Rightarrow> fid \<Rightarrow> nat \<Rightarrow> kfs \<Rightarrow> bool" where
  "dup2_ok s fp n s' \<longleftrightarrow> kfs_inv s' \<and> tab s' = (tab s)(n \<mapsto> fp) \<and> refs_kept s s'
     \<and> \<not> has_flag (fd_ofileflags (p_fd s') ! n) UF_EXCLOSE"

lemma refs_tab: "kfs_inv s \<Longrightarrow> refs s fp = card {n. tab s n = Some fp}"
proof -
  assume "kfs_inv s"
  then have len: "length (fd_ofiles (p_fd s)) = fd_nfiles (p_fd s)" using kfs_shape by (simp add: fd_shape_def)
  have "{n. tab s n = Some fp} = {n. n < length (fd_ofiles (p_fd s)) \<and> fd_ofiles (p_fd s) ! n = Some fp}"
    by (auto simp: tab_def len split: if_splits)
  moreover have "count_list xs y = card {n. n < length xs \<and> xs ! n = y}" for xs and y :: "fid option"
    unfolding count_list_eq_length_filter length_filter_conv_card by (rule arg_cong [where f = card]) auto
  ultimately show ?thesis by (simp add: refs_def)
qed

lemma dup_ok_dup2:
  assumes "kfs_inv s" "tab s n = None" "dup_ok s fp n s'"
  shows "dup2_ok s fp n s'"
proof -
  have "refs s' g = refs s g + (if g = fp then 1 else 0)" for g
  proof -
    have t: "tab s' = (tab s)(n \<mapsto> fp)" "kfs_inv s'" using assms(3) by (auto simp: dup_ok_def)
    have fin: "finite {m. tab s m = Some g}"
      by (rule finite_subset [of _ "{..<fd_nfiles (p_fd s)}"]) (auto simp: tab_def split: if_splits)
    have "{m. tab s' m = Some g} = (if g = fp then insert n {m. tab s m = Some g} else {m. tab s m = Some g})"
      using assms(2) by (auto simp: t)
    moreover have "card (insert n {m. tab s m = Some g}) = Suc (card {m. tab s m = Some g})"
      using fin assms(2) by (intro card_insert_disjoint) simp_all
    ultimately show ?thesis unfolding refs_tab [OF t(2)] refs_tab [OF assms(1)] by (cases "g = fp") simp_all
  qed
  with assms(3) show ?thesis by (auto simp: dup2_ok_def dup_ok_def refs_kept_def ext_def)
qed

lemma dup2_ok_open:
  assumes inv: "kfs_inv s" and fp: "tab s old = Some fp" and n: "tab s n = Some ofp"
    and cnt: "f_count (k_file s fp) < F_COUNT_MAX"
  shows "\<exists>s'. finishdup fo_close (FREF s fp) fp old n = Some (s', Inr n) \<and> dup2_ok s fp n s'"
proof -
  define t where "t = knote_check (inc_count (s\<lparr>p_fd := put_file (p_fd s) old n fp\<rparr>) fp) n"
  note f = finishdup_open [OF assms, folded t_def]
  note ln = fd_map_len [OF kfs_map [OF inv]]
  have nn: "n < fd_nfiles (p_fd s)" "fd_ofiles (p_fd s) ! n = Some ofp" using kfs_file [OF inv n] by auto
  have t: "p_fd t = put_file (p_fd s) old n fp" "filehead t = filehead s"
    "\<And>g. f_count (k_file t g) = f_count (k_file s g) + (if g = fp then 1 else 0)"
    by (simp_all add: t_def inc_count_def upd_file_def)
  have r: "refs t g + (if g = ofp then 1 else 0) = refs s g + (if g = fp then 1 else 0)" for g
    using put_refs [OF refl, of n s old fp g] nn ln(1) by (auto simp: refs_def t split: if_splits)
  have dist: "distinct (filehead t)" using inv by (simp add: kfs_inv_def t)
  have "refs_kept s (drop_ref t ofp)"
    unfolding refs_kept_def ext_def
  proof (intro conjI ballI)
    show "set (filehead (drop_ref t ofp)) \<subseteq> set (filehead s)" using drop_ref_subset [of t ofp] by (simp add: t)
    fix g assume "g \<in> set (filehead (drop_ref t ofp))"
    from drop_ref_count [OF dist this] r [of g] t(3) [of g]
    show "f_count (k_file (drop_ref t ofp) g) - int (refs (drop_ref t ofp) g) = f_count (k_file s g) - int (refs s g)"
      by (simp split: if_splits)
  qed
  moreover have "\<not> has_flag (fd_ofileflags (p_fd (drop_ref t ofp)) ! n) UF_EXCLOSE"
    using put_file_flag [of n "p_fd s" old fp] nn(1) ln(2) by (simp add: t)
  ultimately show ?thesis using f by (auto simp: dup2_ok_def)
qed

lemma dup2_ok_grow:
  assumes "kfs_inv s" "fd_nfiles (p_fd s) < p_lim s" "dup2_ok (s\<lparr>p_fd := fdexpand (p_fd s)\<rparr>) fp n s'"
  shows "dup2_ok s fp n s'"
  using assms(3) grow_inv(2,3) [OF assms(1,2)] by (simp add: dup2_ok_def refs_kept_def ext_def)

text \<open>The specification of \<open>dup2\<close>.\<close>

definition dup2_spec :: "kfs \<Rightarrow> nat \<Rightarrow> nat \<Rightarrow> kfs \<times> (errno + nat) \<Rightarrow> bool" where
  "dup2_spec s old new r = (case tab s old of
       None \<Rightarrow> r = (s, Inl EBADF)
     | Some fp \<Rightarrow>
         if p_lim s \<le> new then r = (s, Inl EBADF)
         else if old = new then r = (s, Inr new)
         else snd r = Inr new \<and> dup2_ok s fp new (fst r))"

lemma sys_dup2_in_table:
  assumes inv: "kfs_inv s" and fp: "tab s old = Some fp" and cnt: "f_count (k_file s fp) < F_COUNT_MAX"
    and new: "new < p_lim s" "old \<noteq> new" "new < fd_nfiles (p_fd s)"
  shows "\<exists>r. sys_dup2 fo_close s old new = Some r \<and> dup2_spec s old new r"
proof -
  have gf: "fd_getfile s old = Some fp" using fp fd_getfile_tab [OF inv] by simp
  have lim: "\<not> (unat (rlim_nofile s) \<le> new \<or> maxfiles s \<le> new)" using new(1) lim_reached [OF inv, of new] by simp
  have eq: "sys_dup2 fo_close s old new = finishdup fo_close (FREF s fp) fp old new"
    using gf lim new by (subst sys_dup2.simps) simp
  show ?thesis
  proof (cases "tab s new")
    case None
    have p: "(FREF s fp)\<lparr>p_fd := p_fd s\<rparr> = FREF s fp" by (simp add: FREF_p_fd)
    have "finishdup fo_close (FREF s fp) fp old new = Some (dup_state s (p_fd s) old new fp, Inr new)"
      using finishdup_free [OF inv fp new(3) None cnt kfs_map [OF inv]] by (simp add: p)
    moreover have "dup_ok s fp new (dup_state s (p_fd s) old new fp)"
      using dup_state_ok [OF inv fp new(3) None cnt kfs_map [OF inv]] by simp
    ultimately show ?thesis
      using eq fp new dup_ok_dup2 [OF inv None] by (simp add: dup2_spec_def)
  next
    case (Some ofp)
    with dup2_ok_open [OF inv fp Some cnt, of fo_close] eq fp new show ?thesis by (auto simp: dup2_spec_def)
  qed
qed

lemma sys_dup2_spec:
  assumes "kfs_inv s" "\<forall>fp. tab s old = Some fp \<longrightarrow> f_count (k_file s fp) < F_COUNT_MAX"
  shows "\<exists>r. sys_dup2 fo_close s old new = Some r \<and> dup2_spec s old new r"
  using assms
proof (induction fo_close s old new rule: sys_dup2.induct)
  case (1 fo_close s old new)
  note inv = "1.prems"(1)
  show ?case
  proof (cases "tab s old")
    case None
    then show ?thesis by (subst sys_dup2.simps) (simp add: fd_getfile_tab [OF inv] dup2_spec_def)
  next
    case (Some fp)
    have gf: "fd_getfile s old = Some fp" using Some fd_getfile_tab [OF inv] by simp
    have us: "FILE_IS_USABLE (k_file s fp)" using kfs_file(1) [OF inv Some] by (simp add: file_ok_def)
    have cnt: "f_count (k_file s fp) < F_COUNT_MAX" using "1.prems"(2) Some by simp
    consider (lim) "p_lim s \<le> new" | (same) "new < p_lim s" "old = new"
      | (small) "new < p_lim s" "old \<noteq> new" "new < fd_nfiles (p_fd s)"
      | (big) "new < p_lim s" "old \<noteq> new" "fd_nfiles (p_fd s) \<le> new" by linarith
    then show ?thesis
    proof cases
      case lim
      then show ?thesis
        using gf Some lim_reached [OF inv, of new] by (subst sys_dup2.simps) (simp add: dup2_spec_def)
    next
      case same
      then show ?thesis
        using gf Some lim_reached [OF inv, of new] by (subst sys_dup2.simps) (simp add: dup2_spec_def)
    next
      case small
      then show ?thesis using sys_dup2_in_table [OF inv Some cnt] by blast
    next
      case big
      have lim: "\<not> (unat (rlim_nofile s) \<le> new \<or> maxfiles s \<le> new)" using big(1) lim_reached [OF inv, of new] by simp
      have grow: "fdalloc (FREF s fp) new = Some (FREF s fp, Inl ENOSPC)" "fd_nfiles (p_fd s) < p_lim s"
        using lowest_spec(1) [OF inv, of new] big
        by (cases rule: fdalloc_tab [OF inv p_fd_ext(1) [of s fp] p_lim_ext(1) [of s fp], where want = new]; simp)+
      let ?s = "s\<lparr>p_fd := fdexpand (p_fd s)\<rparr>"
      note g = grow_inv [OF inv grow(2)]
      have eq: "sys_dup2 fo_close s old new = sys_dup2 fo_close ?s old new"
        using gf lim big grow(1) by (subst sys_dup2.simps) (simp add: FRELE_FREF [OF us])
      have "\<exists>r. sys_dup2 fo_close ?s old new = Some r \<and> dup2_spec ?s old new r"
        using "1.IH" [OF gf lim big(2,3) grow(1) refl refl refl refl] g "1.prems"(2) by (simp add: FRELE_FREF [OF us])
      then obtain r where r: "sys_dup2 fo_close ?s old new = Some r" "dup2_spec ?s old new r" by blast
      have "dup2_spec s old new r"
        using r(2) Some g(2) big dup2_ok_grow [OF inv grow(2)] by (simp add: dup2_spec_def)
      with eq r(1) show ?thesis by simp
    qed
  qed
qed

section \<open>Close\<close>

definition close_spec :: "(fid \<Rightarrow> errno option) \<Rightarrow> kfs \<Rightarrow> nat \<Rightarrow> kfs \<times> errno option \<Rightarrow> bool" where
  "close_spec fo_close s fd r = (case tab s fd of
       None \<Rightarrow> r = (s, Some EBADF)
     | Some fp \<Rightarrow> kfs_inv (fst r) \<and> tab (fst r) = (tab s)(fd := None) \<and> refs_kept s (fst r)
         \<and> snd r = close_errno fo_close s fp
         \<and> (Fo_close fp \<in> set (drop (length (k_calls s)) (k_calls (fst r))) \<longleftrightarrow> f_count (k_file s fp) = 1 \<and> f_ops (k_file s fp))
         \<and> set (filehead (fst r)) = set (filehead s) - (if f_count (k_file s fp) = 1 then {fp} else {}))"

lemma drop_ref_calls:
  "1 \<le> f_count (k_file s fp) \<Longrightarrow> k_calls (drop_ref s fp) = k_calls s @ adv_unlock s fp @
    (if f_count (k_file s fp) = 1 then (if f_ops (k_file s fp) then [Fo_close fp] else []) @ [Crfree (f_cred (k_file s fp))] else [])"
  by (auto simp: drop_ref_def)

lemma fdrelease_close:
  assumes inv: "kfs_inv s" and fp: "tab s fd = Some fp"
  shows "\<exists>r. fdrelease fo_close s fd = Some r \<and> close_spec fo_close s fd r"
proof -
  note f = kfs_file [OF assms] and ln = fd_map_len [OF kfs_map [OF inv]]
  obtain d s' where r: "fdrelease fo_close s fd = Some (s', close_errno fo_close s fp)"
    "s' = drop_ref (knote_check (s\<lparr>p_fd := d\<rparr>) fd) fp" "kfs_inv s'" "tab s' = (tab s)(fd := None)"
    "fd_ofiles d = (fd_ofiles (p_fd s))[fd := None]" using fdrelease_spec [OF assms, of fo_close] by blast
  define t where "t = knote_check (s\<lparr>p_fd := d\<rparr>) fd"
  have t: "p_fd t = d" "filehead t = filehead s" "k_file t = k_file s" by (simp_all add: t_def)
  have c: "1 \<le> f_count (k_file s fp)" using f(1,4) by (auto simp: file_ok_def)
  have dist: "distinct (filehead t)" using inv by (simp add: kfs_inv_def t)
  have rf: "refs t g + (if g = fp then 1 else 0) = refs s g" for g
    using count_list_update [of fd "fd_ofiles (p_fd s)" None "Some g"] f(2,3) ln(1)
    by (auto simp: refs_def t r(5) split: if_splits)
  have kept: "refs_kept s s'"
    unfolding refs_kept_def ext_def
  proof (intro conjI ballI)
    show "set (filehead s') \<subseteq> set (filehead s)" using drop_ref_subset [of t fp] by (simp add: r(2) t_def)
    fix g assume "g \<in> set (filehead s')"
    from drop_ref_count [OF dist, of g fp] this rf [of g]
    show "f_count (k_file s' g) - int (refs s' g) = f_count (k_file s g) - int (refs s g)"
      by (simp add: r(2) t_def [symmetric] t split: if_splits)
  qed
  obtain pre where kn: "k_calls t = k_calls s @ pre" "Fo_close fp \<notin> set pre"
    by (cases "int fd < fd_knlistsize d") (auto simp: t_def knote_check_def call_def)
  have calls: "Fo_close fp \<in> set (drop (length (k_calls s)) (k_calls s')) \<longleftrightarrow> f_count (k_file s fp) = 1 \<and> f_ops (k_file s fp)"
    using drop_ref_calls [of t fp] c kn by (auto simp: r(2) t_def [symmetric] t adv_unlock_def)
  have "set (filehead s') = set (filehead s) - (if f_count (k_file s fp) = 1 then {fp} else {})"
    using c dist by (auto simp: r(2) t_def [symmetric] drop_ref_def t)
  with r(1,3,4) kept calls fp show ?thesis by (auto simp: close_spec_def)
qed

lemma sys_close_spec:
  assumes "kfs_inv s"
  shows "\<exists>r. sys_close fo_close s fd = Some r \<and> close_spec fo_close s fd r"
proof (cases "tab s fd")
  case None
  then show ?thesis using assms by (simp add: sys_close_def fd_getfile_tab close_spec_def)
next
  case (Some fp)
  with fdrelease_close [OF assms Some, of fo_close] assms show ?thesis by (simp add: sys_close_def fd_getfile_tab)
qed

end
