(* ===== verification/Fdesc_Table.thy ===== *)
theory Fdesc_Table
  imports Fdesc
begin

text \<open>
  The rest of kern/kern_descrip.c: descriptor flags, the allocation of a new file, and the
  operations on a whole table (create, share, copy at fork, free, close on exec, closefrom,
  the /dev/fd driver).
\<close>

section \<open>Descriptor and file flags\<close>

definition FREAD :: u_int where "FREAD = 0x0001"
definition FWRITE :: u_int where "FWRITE = 0x0002"
definition FNONBLOCK :: u_int where "FNONBLOCK = 0x0004"
definition FAPPEND :: u_int where "FAPPEND = 0x0008"
definition FASYNC :: u_int where "FASYNC = 0x0040"
definition FFSYNC :: u_int where "FFSYNC = 0x0080"
definition O_ACCMODE :: u_int where "O_ACCMODE = 0x0003"
definition FCNTLFLAGS :: u_int where "FCNTLFLAGS = FAPPEND OR FASYNC OR FFSYNC OR FNONBLOCK"

definition FFLAGS :: "u_int \<Rightarrow> u_int" where
  "FFLAGS oflags = (oflags AND NOT O_ACCMODE) OR ((oflags + 1) AND O_ACCMODE)"

definition OFLAGS :: "u_int \<Rightarrow> u_int" where
  "OFLAGS fflags = (fflags AND NOT O_ACCMODE) OR ((fflags - 1) AND O_ACCMODE)"

datatype fcntl_cmd = F_DUPFD nat | F_GETFD | F_SETFD u_int | F_GETFL | F_SETFL u_int | F_BAD

text \<open>
  \<open>fo_ioctl\<close> gives the error of the file's \<open>ioctl\<close> routine for one of the two requests. The value a
  command returns is a number; for commands without one it is 0.
\<close>

definition fcntl_setfl :: "(fdcall \<Rightarrow> errno option) \<Rightarrow> kfs \<Rightarrow> fid \<Rightarrow> u_int \<Rightarrow> kfs \<times> errno option" where
  "fcntl_setfl fo_ioctl s fp arg =
     (let s1 = upd_file s fp (\<lambda>f. f\<lparr>f_flag := (f_flag f AND NOT FCNTLFLAGS) OR (FFLAGS arg AND FCNTLFLAGS)\<rparr>);
          nbio = Ioctl_FIONBIO fp (f_flag (k_file s1 fp) AND FNONBLOCK);
          s2 = call s1 nbio
      in case fo_ioctl nbio of
           Some e \<Rightarrow> (s2, Some e)
         | None \<Rightarrow>
             let async = Ioctl_FIOASYNC fp (f_flag (k_file s2 fp) AND FASYNC);
                 s3 = call s2 async
             in case fo_ioctl async of
                  None \<Rightarrow> (s3, None)
                | Some e \<Rightarrow>
                    (call (upd_file s3 fp (\<lambda>f. f\<lparr>f_flag := f_flag f AND NOT FNONBLOCK\<rparr>)) (Ioctl_FIONBIO fp 0), Some e))"

definition sys_fcntl :: "(fid \<Rightarrow> errno option) \<Rightarrow> (fdcall \<Rightarrow> errno option) \<Rightarrow> kfs \<Rightarrow> nat \<Rightarrow> fcntl_cmd \<Rightarrow>
    (kfs \<times> (errno + nat)) option" where
  "sys_fcntl fo_close fo_ioctl s fd cmd =
     (case fd_getfile s fd of
        None \<Rightarrow> Some (s, Inl EBADF)
      | Some fp \<Rightarrow>
          let s1 = FREF s fp in
          (case cmd of
             F_DUPFD newmin \<Rightarrow> fcntl_dupfd fo_close s fd newmin
           | F_GETFD \<Rightarrow>
               Some (FRELE s1 fp, Inr (if has_flag (fd_ofileflags (p_fd s1) ! fd) UF_EXCLOSE then 1 else 0))
           | F_SETFD arg \<Rightarrow>
               let fl = fd_ofileflags (p_fd s1) ! fd;
                   fl' = (if has_flag arg 1 then fl OR UF_EXCLOSE else fl AND NOT UF_EXCLOSE)
               in Some (FRELE (s1\<lparr>p_fd := (p_fd s1)\<lparr>fd_ofileflags := (fd_ofileflags (p_fd s1))[fd := fl']\<rparr>\<rparr>) fp, Inr 0)
           | F_GETFL \<Rightarrow> Some (FRELE s1 fp, Inr (unat (OFLAGS (f_flag (k_file s1 fp)))))
           | F_SETFL arg \<Rightarrow>
               (case fcntl_setfl fo_ioctl s1 fp arg of
                  (s2, Some e) \<Rightarrow> Some (FRELE s2 fp, Inl e)
                | (s2, None) \<Rightarrow> Some (FRELE s2 fp, Inr 0))
           | F_BAD \<Rightarrow> Some (FRELE s1 fp, Inl EINVAL)))"

section \<open>A new file\<close>

fun insert_after :: "'a \<Rightarrow> 'a \<Rightarrow> 'a list \<Rightarrow> 'a list" where
  "insert_after a x [] = []"
| "insert_after a x (y # ys) = (if y = a then y # x # ys else y # insert_after a x ys)"

text \<open>\<open>fp\<close> is the address \<open>pool_get\<close> returns.\<close>

definition falloc_file :: "kfs \<Rightarrow> fid \<Rightarrow> nat \<Rightarrow> kfs" where
  "falloc_file s fp i =
     (let new = \<lparr>f_flag = 0, f_type = 0, f_count = 1, f_cred = p_ucred s, f_ops = False,
                 f_iflags = FIF_LARVAL, f_usecount = 0\<rparr>;
          s1 = s\<lparr>nfiles := nfiles s + 1, k_file := (k_file s)(fp := new),
                 filehead := (case fd_ofiles (p_fd s) ! 0 of
                    Some fq \<Rightarrow> insert_after fq fp (filehead s) | None \<Rightarrow> fp # filehead s),
                 p_fd := (p_fd s)\<lparr>fd_ofiles := (fd_ofiles (p_fd s))[i := Some fp]\<rparr>\<rparr>
      in FREF (call s1 (Crhold (p_ucred s))) fp)"

function falloc :: "kfs \<Rightarrow> fid \<Rightarrow> (kfs \<times> (errno + nat)) option" where
  "falloc s fp =
     (case fdalloc s 0 of
        None \<Rightarrow> None
      | Some (s1, Inl error) \<Rightarrow>
          if error = ENOSPC then falloc (s1\<lparr>p_fd := fdexpand (p_fd s1)\<rparr>) fp
          else Some (s1, Inl error)
      | Some (s1, Inr i) \<Rightarrow>
          if nfiles s1 \<ge> int (maxfiles s1) then
            map_option (\<lambda>d. (call (s1\<lparr>p_fd := d\<rparr>) Tablefull, Inl ENFILE)) (fd_unused (p_fd s1) i)
          else if 0 < length (fd_ofiles (p_fd s1)) \<and> i < length (fd_ofiles (p_fd s1))
          then Some (falloc_file s1 fp i, Inr i)
          else None)"
  by pat_completeness auto

termination
proof (relation "measure (\<lambda>(s, fp). p_lim s - fd_nfiles (p_fd s))", goal_cases)
  case 1
  show ?case by simp
next
  case (2 s fp p s1 r error)
  then have "s1 = s \<and> fd_nfiles (p_fd s) < p_lim s" using fdalloc_ENOSPC [of s 0 s1] by simp
  then show ?case using fdexpand_nfiles [of "p_fd s"] by auto
qed

declare falloc.simps [simp del]

section \<open>Whole tables\<close>

text \<open>The error an open of a device returned, as \<open>dupfdopen\<close> distinguishes it.\<close>

datatype dupfd_error = Dup_ENODEV | Dup_ENXIO | Dup_other errno

text \<open>\<open>fdinit\<close> with the table of the process it takes the directories from.\<close>

definition fdinit :: "filedesc option \<Rightarrow> u_short \<Rightarrow> (filedesc \<times> fdcall list) option" where
  "fdinit p cmask =
     (let dirs = (case p of
            None \<Rightarrow> Some (None, None, [])
          | Some fdp \<Rightarrow>
              (case fd_cdir fdp of
                 None \<Rightarrow> None
               | Some c \<Rightarrow> Some (Some c, fd_rdir fdp,
                   Vref c # (case fd_rdir fdp of None \<Rightarrow> [] | Some v \<Rightarrow> [Vref v]))))
      in map_option (\<lambda>(c, r, vrefs).
          (\<lparr>fd_ofiles = replicate NDFILE None, fd_ofileflags = replicate NDFILE 0,
            fd_cdir = c, fd_rdir = r, fd_nfiles = NDFILE,
            fd_himap = replicate (NDENTRIES div 32) 0, fd_lomap = replicate NDENTRIES 0,
            fd_lastfile = 0, fd_freefile = 0, fd_cmask = cmask, fd_refcnt = 1,
            fd_knlistsize = -1, fd_flags = 0\<rparr>, vrefs)) dirs)"

definition fdshare :: "kfs \<Rightarrow> kfs" where
  "fdshare s = s\<lparr>p_fd := (p_fd s)\<lparr>fd_refcnt := fd_refcnt (p_fd s) + 1\<rparr>\<rparr>"

function fdcopy_size :: "nat \<Rightarrow> nat \<Rightarrow> nat" where
  "fdcopy_size i lastfile =
     (if i \<ge> 2 * NDEXTENT \<and> i > lastfile * 2 then fdcopy_size (i div 2) lastfile else i)"
  by pat_completeness auto

termination
  by (relation "measure fst") (auto simp: NDEXTENT_def)

declare fdcopy_size.simps [simp del]

lemma fd_unused_ofiles: "fd_unused d n = Some d' \<Longrightarrow> fd_ofiles d' = fd_ofiles d"
  by (auto simp: fd_unused_def Let_def split: if_splits)

lemma fdremove_length: "fdremove d n = Some d' \<Longrightarrow> length (fd_ofiles d') = length (fd_ofiles d)"
  by (auto simp: fdremove_def dest: fd_unused_ofiles split: if_splits)

function kq_remove :: "(fid \<Rightarrow> kfile) \<Rightarrow> filedesc \<Rightarrow> nat \<Rightarrow> filedesc option" where
  "kq_remove files d i =
     (if i \<le> fd_lastfile d then
        (if i < length (fd_ofiles d) then
           (case fd_ofiles d ! i of
              None \<Rightarrow> kq_remove files d (i + 1)
            | Some fp \<Rightarrow>
                if f_type (files fp) = DTYPE_KQUEUE then
                  (case fdremove d i of None \<Rightarrow> None | Some d' \<Rightarrow> kq_remove files d' (i + 1))
                else kq_remove files d (i + 1))
         else None)
      else Some d)"
  by pat_completeness auto

termination
  by (relation "measure (\<lambda>(files, d, i). length (fd_ofiles d) - i)") (auto dest: fdremove_length)

function count_refs :: "kfs \<Rightarrow> filedesc \<Rightarrow> nat \<Rightarrow> (kfs \<times> filedesc) option" where
  "count_refs s d i =
     (if i \<le> fd_lastfile d then
        (if i < length (fd_ofiles d) then
           (case fd_ofiles d ! i of
              None \<Rightarrow> count_refs s d (i + 1)
            | Some fp \<Rightarrow>
                if f_count (k_file s fp) = F_COUNT_MAX then
                  (case fdremove d i of None \<Rightarrow> None | Some d' \<Rightarrow> count_refs s d' (i + 1))
                else count_refs (upd_file s fp (\<lambda>f. f\<lparr>f_count := f_count f + 1\<rparr>)) d (i + 1))
         else None)
      else Some (s, d))"
  by pat_completeness auto

termination
  by (relation "measure (\<lambda>(s, d, i). length (fd_ofiles d) - i)") (auto dest: fdremove_length)

declare kq_remove.simps [simp del] count_refs.simps [simp del]

definition fdcopy :: "kfs \<Rightarrow> (kfs \<times> filedesc) option" where
  "fdcopy s =
     (let fdp = p_fd s;
          i = (if fd_lastfile fdp < NDFILE then NDFILE else fdcopy_size (fd_nfiles fdp) (fd_lastfile fdp));
          s1 = (case fd_cdir fdp of None \<Rightarrow> s | Some v \<Rightarrow> call s (Vref v));
          s2 = (case fd_rdir fdp of None \<Rightarrow> s1 | Some v \<Rightarrow> call s1 (Vref v));
          new = fdp\<lparr>fd_refcnt := 1, fd_nfiles := i,
                    fd_ofiles := take i (fd_ofiles fdp), fd_ofileflags := take i (fd_ofileflags fdp),
                    fd_himap := take (NDHISLOTS i) (fd_himap fdp), fd_lomap := take (NDLOSLOTS i) (fd_lomap fdp)\<rparr>
      in case (if fd_knlistsize new \<noteq> -1
               then map_option (\<lambda>d. d\<lparr>fd_knlistsize := -1\<rparr>) (kq_remove (k_file s2) new 0)
               else Some new) of
           None \<Rightarrow> None
         | Some new1 \<Rightarrow> count_refs s2 new1 0)"

text \<open>
  The loop of \<open>fdfree\<close>: \<open>k\<close> slots from slot \<open>j\<close> on. The second component of the result of \<open>fdfree\<close>
  says whether the table was freed.
\<close>

fun fdfree_loop :: "(fid \<Rightarrow> errno option) \<Rightarrow> kfs \<Rightarrow> nat \<Rightarrow> nat \<Rightarrow> kfs option" where
  "fdfree_loop fo_close s j 0 = Some s"
| "fdfree_loop fo_close s j (Suc k) =
     (if j < length (fd_ofiles (p_fd s)) then
        (case fd_ofiles (p_fd s) ! j of
           None \<Rightarrow> fdfree_loop fo_close s (j + 1) k
         | Some fp \<Rightarrow>
             let s1 = FREF s fp;
                 s2 = s1\<lparr>p_fd := (p_fd s1)\<lparr>fd_ofiles := (fd_ofiles (p_fd s1))[j := None]\<rparr>\<rparr>
             in case closef fo_close True s2 (Some fp) of
                  None \<Rightarrow> None
                | Some (s3, e) \<Rightarrow> fdfree_loop fo_close s3 (j + 1) k)
      else None)"

definition fdfree :: "(fid \<Rightarrow> errno option) \<Rightarrow> kfs \<Rightarrow> (kfs \<times> bool) option" where
  "fdfree fo_close s =
     (let s1 = s\<lparr>p_fd := (p_fd s)\<lparr>fd_refcnt := fd_refcnt (p_fd s) - 1\<rparr>\<rparr> in
      if fd_refcnt (p_fd s1) > 0 then Some (s1, False)
      else
        map_option (\<lambda>s2.
          let s3 = (case fd_cdir (p_fd s2) of None \<Rightarrow> s2 | Some v \<Rightarrow> call s2 (Vrele v));
              s4 = (case fd_rdir (p_fd s2) of None \<Rightarrow> s3 | Some v \<Rightarrow> call s3 (Vrele v))
          in (s4, True))
          (fdfree_loop fo_close s1 0 (fd_lastfile (p_fd s1) + 1)))"

text \<open>
  \<open>dupfdopen\<close>: \<open>sugid\<close> tells whether the process runs with changed ids, \<open>descfd\<close> and \<open>dupfd\<close> are the
  fields \<open>p_descfd\<close> and \<open>p_dupfd\<close> of the current process.
\<close>

definition dupfdopen :: "bool \<Rightarrow> int \<Rightarrow> int \<Rightarrow> kfs \<Rightarrow> nat \<Rightarrow> nat \<Rightarrow> u_int \<Rightarrow> dupfd_error \<Rightarrow> (kfs \<times> errno option) option" where
  "dupfdopen sugid descfd dupfd s indx dfd mode error =
     (if sugid \<and> (descfd = 255 \<or> descfd \<noteq> dupfd) then Some (s, Some EPERM)
      else
        case fd_getfile s dfd of
          None \<Rightarrow> Some (s, Some EBADF)
        | Some w \<Rightarrow>
            let d = p_fd s in
            (case error of
               Dup_ENODEV \<Rightarrow>
                 if (mode AND (FREAD OR FWRITE)) OR f_flag (k_file s w) \<noteq> f_flag (k_file s w)
                 then Some (s, Some EACCES)
                 else if f_count (k_file s w) = F_COUNT_MAX then Some (s, Some EDEADLK)
                 else if indx < length (fd_ofiles d) then
                   let s1 = upd_file (s\<lparr>p_fd := d\<lparr>fd_ofiles := (fd_ofiles d)[indx := Some w],
                              fd_ofileflags := (fd_ofileflags d)[indx := fd_ofileflags d ! dfd]\<rparr>\<rparr>)
                              w (\<lambda>f. f\<lparr>f_count := f_count f + 1\<rparr>)
                   in map_option (\<lambda>d1. (s1\<lparr>p_fd := d1\<rparr>, None)) (fd_used (p_fd s1) indx)
                 else None
             | Dup_ENXIO \<Rightarrow>
                 if indx < length (fd_ofiles d) then
                   let d1 = d\<lparr>fd_ofiles := (fd_ofiles d)[indx := fd_ofiles d ! dfd],
                              fd_ofileflags := (fd_ofileflags d)[indx := fd_ofileflags d ! dfd]\<rparr>;
                       d2 = d1\<lparr>fd_ofiles := (fd_ofiles d1)[dfd := None],
                               fd_ofileflags := (fd_ofileflags d1)[dfd := 0]\<rparr>
                   in case fd_used d2 indx of
                        None \<Rightarrow> None
                      | Some d3 \<Rightarrow> map_option (\<lambda>d4. (s\<lparr>p_fd := d4\<rparr>, None)) (fd_unused d3 dfd)
                 else None
             | Dup_other e \<Rightarrow> Some (s, Some e)))"

section \<open>Closing many descriptors\<close>

lemma closef_p_fd: "closef fo_close p s ofp = Some (s', e) \<Longrightarrow> p_fd s' = p_fd s"
  by (auto simp: closef_def Let_def upd_file_def call_def split: option.splits if_splits)

lemma fdrelease_length:
  assumes "fdrelease fo_close s n = Some (s', e)"
  shows "length (fd_ofiles (p_fd s')) = length (fd_ofiles (p_fd s))"
  using assms
  by (auto simp: fdrelease_def Let_def knote_check_def call_def dest!: closef_p_fd fd_unused_ofiles
      split: option.splits if_splits)

function fdcloseexec_from :: "(fid \<Rightarrow> errno option) \<Rightarrow> kfs \<Rightarrow> nat \<Rightarrow> kfs option" where
  "fdcloseexec_from fo_close s fd =
     (if fd \<le> fd_lastfile (p_fd s) then
        (if fd < length (fd_ofiles (p_fd s)) then
           (if has_flag (fd_ofileflags (p_fd s) ! fd) UF_EXCLOSE then
              (case fdrelease fo_close s fd of
                 None \<Rightarrow> None
               | Some (s1, e) \<Rightarrow> fdcloseexec_from fo_close s1 (fd + 1))
            else fdcloseexec_from fo_close s (fd + 1))
         else None)
      else Some s)"
  by pat_completeness auto

termination
  by (relation "measure (\<lambda>(fo_close, s, fd). length (fd_ofiles (p_fd s)) - fd)") (auto dest: fdrelease_length)

definition fdcloseexec :: "(fid \<Rightarrow> errno option) \<Rightarrow> kfs \<Rightarrow> kfs option" where
  "fdcloseexec fo_close s = fdcloseexec_from fo_close s 0"

function closefrom_loop :: "(fid \<Rightarrow> errno option) \<Rightarrow> kfs \<Rightarrow> nat \<Rightarrow> kfs option" where
  "closefrom_loop fo_close s i =
     (if i \<le> fd_lastfile (p_fd s) then
        (if i < length (fd_ofiles (p_fd s)) then
           (case fdrelease fo_close s i of
              None \<Rightarrow> None
            | Some (s1, e) \<Rightarrow> closefrom_loop fo_close s1 (i + 1))
         else None)
      else Some s)"
  by pat_completeness auto

termination
  by (relation "measure (\<lambda>(fo_close, s, i). length (fd_ofiles (p_fd s)) - i)") (auto dest: fdrelease_length)

declare fdcloseexec_from.simps [simp del] closefrom_loop.simps [simp del]

definition sys_closefrom :: "(fid \<Rightarrow> errno option) \<Rightarrow> kfs \<Rightarrow> nat \<Rightarrow> (kfs \<times> errno option) option" where
  "sys_closefrom fo_close s startfd =
     (if startfd > fd_lastfile (p_fd s) then Some (s, Some EBADF)
      else map_option (\<lambda>s1. (s1, None)) (closefrom_loop fo_close s startfd))"

end
