(* ===== verification/Fdesc_Calls.thy ===== *)
theory Fdesc_Calls
  imports Fdesc_Dup Fdesc_Table
begin

text \<open>
  New files, \<open>closefrom\<close>, close-on-exec and the copy of a table at fork against the abstract
  table, and the invariant over every sequence of descriptor calls.
\<close>

section \<open>Opening a file\<close>

text \<open>What the callers of \<open>falloc\<close> do with the new file before it becomes visible.\<close>

definition mature :: "kfs \<Rightarrow> fid \<Rightarrow> u_int \<Rightarrow> nat \<Rightarrow> bool \<Rightarrow> kfs" where
  "mature s fp flag ty ops =
     FILE_SET_MATURE (upd_file s fp (\<lambda>f. f\<lparr>f_flag := flag, f_type := ty, f_ops := ops\<rparr>)) fp"

lemma set_insert_after: "a \<in> set xs \<Longrightarrow> set (insert_after a x xs) = insert x (set xs)"
  by (induction xs) auto

lemma distinct_insert_after: "distinct xs \<Longrightarrow> x \<notin> set xs \<Longrightarrow> a \<in> set xs \<Longrightarrow> distinct (insert_after a x xs)"
  by (induction xs) (auto simp: set_insert_after)

lemma length_insert_after: "a \<in> set xs \<Longrightarrow> length (insert_after a x xs) = Suc (length xs)"
  by (induction xs) auto

definition new_filehead :: "kfs \<Rightarrow> fid \<Rightarrow> fid list" where
  "new_filehead s fp = (case fd_ofiles (p_fd s) ! 0 of
     Some fq \<Rightarrow> insert_after fq fp (filehead s) | None \<Rightarrow> fp # filehead s)"

lemma new_filehead_props:
  assumes "kfs_inv s" "fp \<notin> set (filehead s)"
  shows "set (new_filehead s fp) = insert fp (set (filehead s))" "distinct (new_filehead s fp)"
    "length (new_filehead s fp) = Suc (length (filehead s))"
proof -
  have "fq \<in> set (filehead s)" if "fd_ofiles (p_fd s) ! 0 = Some fq" for fq
  proof -
    have "0 < fd_nfiles (p_fd s)"
      using kfs_shape [OF assms(1)] table_slack [of "fd_nfiles (p_fd s)"] by (auto simp: fd_shape_def)
    with that have "tab s 0 = Some fq" by (simp add: tab_def)
    from kfs_file(1) [OF assms(1) this] show ?thesis by (simp add: file_ok_def)
  qed
  then show "set (new_filehead s fp) = insert fp (set (filehead s))" "distinct (new_filehead s fp)"
    "length (new_filehead s fp) = Suc (length (filehead s))"
    using assms by (auto simp: new_filehead_def kfs_inv_def set_insert_after distinct_insert_after length_insert_after
        split: option.splits)
qed

lemma mature_falloc:
  assumes "fd_ofiles d = fd_ofiles (p_fd s)"
  shows "k_file (mature (falloc_file (s\<lparr>p_fd := d\<rparr>) fp n) fp flag ty ops) = (k_file s)(fp :=
      \<lparr>f_flag = flag, f_type = ty, f_count = 1, f_cred = p_ucred s, f_ops = ops, f_iflags = 0, f_usecount = 0\<rparr>)"
    "p_fd (mature (falloc_file (s\<lparr>p_fd := d\<rparr>) fp n) fp flag ty ops) = d\<lparr>fd_ofiles := (fd_ofiles d)[n := Some fp]\<rparr>"
    "filehead (mature (falloc_file (s\<lparr>p_fd := d\<rparr>) fp n) fp flag ty ops) = new_filehead s fp"
    "nfiles (mature (falloc_file (s\<lparr>p_fd := d\<rparr>) fp n) fp flag ty ops) = nfiles s + 1"
    "rlim_nofile (mature (falloc_file (s\<lparr>p_fd := d\<rparr>) fp n) fp flag ty ops) = rlim_nofile s"
    "maxfiles (mature (falloc_file (s\<lparr>p_fd := d\<rparr>) fp n) fp flag ty ops) = maxfiles s"
  using assms
  by (simp_all add: mature_def FILE_SET_MATURE_def FRELE_def FREF_def falloc_file_def upd_file_def call_def Let_def
      new_filehead_def fun_upd_def fun_eq_iff split: option.split)

lemma falloc_new_inv:
  assumes inv: "kfs_inv s" and fp: "fp \<notin> set (filehead s)" and n: "n < fd_nfiles (p_fd s)" "tab s n = None"
    and d: "fd_map (insert n (open_fds (p_fd s))) d" "fd_ofiles d = fd_ofiles (p_fd s)" "fd_nfiles d = fd_nfiles (p_fd s)"
    and t_def: "t = mature (falloc_file (s\<lparr>p_fd := d\<rparr>) fp n) fp flag ty ops"
  shows "kfs_inv t" "tab t = (tab s)(n \<mapsto> fp)"
proof -
  note t = mature_falloc [OF d(2), of fp n flag ty ops, folded t_def]
  note ln = fd_map_len [OF kfs_map [OF inv]] and fh = new_filehead_props [OF inv fp]
  have none: "fd_ofiles (p_fd s) ! n = None" using n by (simp add: tab_def)
  have "Some fp \<notin> set (fd_ofiles (p_fd s))" using inv fp by (auto simp: kfs_inv_def file_ok_def)
  then have r: "refs t g = refs s g + (if g = fp then 1 else 0)" "refs s fp = 0" for g
    using count_list_update [of n "fd_ofiles (p_fd s)" "Some fp" "Some g"] n(1) ln(1) none
    by (auto simp: refs_def t d(2))
  have o: "open_fds (p_fd t) = insert n (open_fds (p_fd s))"
    using n(1) ln(1) by (auto simp: open_fds_def t d(2) nth_list_update)
  have "fd_map (insert n (open_fds (p_fd s))) (p_fd t)"
    using d(1) unfolding t by (simp add: fd_map_def fd_shape_def fd_bits_def fd_marks_def)
  then have m: "fd_inv {} (p_fd t)" by (simp add: fd_inv_def o)
  have "file_ok t g" if "Some g \<in> set (fd_ofiles (p_fd t))" for g
  proof (cases "g = fp")
    case True
    then show ?thesis using r by (simp add: file_ok_def t fh(1) FILE_IS_USABLE_def F_COUNT_MAX_def)
  next
    case False
    then have "Some g \<in> set (fd_ofiles (p_fd s))" using that set_update_subset_insert by (fastforce simp: t d(2))
    then have "file_ok s g" using inv by (simp add: kfs_inv_def)
    with False r show ?thesis by (simp add: file_ok_def t fh(1))
  qed
  with inv m fh show "kfs_inv t" by (simp add: kfs_inv_def t p_lim_def)
  show "tab t = (tab s)(n \<mapsto> fp)" using n ln(1) d(3) by (auto simp: tab_def fun_eq_iff t d(2))
qed

text \<open>\<open>falloc\<close>: the lowest free descriptor, unless the limit or the file table is full.\<close>

definition falloc_spec :: "kfs \<Rightarrow> fid \<Rightarrow> kfs \<times> (errno + nat) \<Rightarrow> bool" where
  "falloc_spec s fp r \<longleftrightarrow>
     (if p_lim s \<le> lowest s 0 then snd r = Inl EMFILE \<and> kfs_inv (fst r) \<and> tab (fst r) = tab s \<and> k_file (fst r) = k_file s
      else if nfiles s \<ge> int (maxfiles s)
      then snd r = Inl ENFILE \<and> kfs_inv (fst r) \<and> tab (fst r) = tab s \<and> k_file (fst r) = k_file s
      else snd r = Inr (lowest s 0) \<and> tab (fst r) = (tab s)(lowest s 0 \<mapsto> fp)
        \<and> \<not> FILE_IS_USABLE (k_file (fst r) fp)
        \<and> (\<forall>flag ty ops. kfs_inv (mature (fst r) fp flag ty ops)
             \<and> tab (mature (fst r) fp flag ty ops) = (tab s)(lowest s 0 \<mapsto> fp)
             \<and> (\<forall>g. g \<noteq> fp \<longrightarrow> k_file (mature (fst r) fp flag ty ops) g = k_file s g)))"

lemma falloc_ok:
  assumes "kfs_inv s" "fp \<notin> set (filehead s)"
  shows "\<exists>r. falloc s fp = Some r \<and> falloc_spec s fp r"
  using assms
proof (induction s fp rule: falloc.induct)
  case (1 s fp)
  note inv = "1.prems"(1)
  show ?case
  proof (cases rule: fdalloc_tab [OF inv refl refl, where want = 0, case_names full grow found])
    case full
    then have "falloc s fp = Some (s, Inl EMFILE)" by (subst falloc.simps) simp
    with full inv show ?thesis by (simp add: falloc_spec_def)
  next
    case grow
    let ?s = "s\<lparr>p_fd := fdexpand (p_fd s)\<rparr>"
    note g = grow_inv [OF inv grow(2)]
    have eq: "falloc s fp = falloc ?s fp" using grow(1) by (subst falloc.simps) simp
    have "\<exists>r. falloc ?s fp = Some r \<and> falloc_spec ?s fp r"
      using "1.IH" [OF grow(1) refl refl refl] g "1.prems"(2) by simp
    then obtain r where r: "falloc ?s fp = Some r" "falloc_spec ?s fp r" by blast
    have "falloc_spec s fp r" using r(2) g(2) lowest_cong [OF g(2)] unfolding falloc_spec_def by simp
    with eq r(1) show ?thesis by simp
  next
    case (found d U)
    let ?n = "lowest s 0" and ?s = "s\<lparr>p_fd := d\<rparr>"
    have n: "?n < fd_nfiles (p_fd s)" using found(2) by simp
    have m: "fd_map (insert ?n (open_fds (p_fd s))) d" using found(4,5) by simp
    have od: "open_fds d = open_fds (p_fd s)" by (simp add: open_fds_def found(6))
    have nn: "?n \<notin> open_fds d" using found(3) tab_open [OF kfs_shape [OF inv], of ?n] od by simp
    have len: "length (fd_ofiles d) = fd_nfiles (p_fd s)" using fd_map_len [OF m] found(7) by simp
    show ?thesis
    proof (cases "nfiles s \<ge> int (maxfiles s)")
      case True
      from fd_unused_map [OF m [folded od] nn] obtain d' where d': "fd_unused d ?n = Some d'"
        "fd_map (open_fds d) d'" "fd_ofiles d' = fd_ofiles d" "fd_nfiles d' = fd_nfiles d" by blast
      let ?t = "call (s\<lparr>p_fd := d'\<rparr>) Tablefull"
      have eq: "falloc s fp = Some (?t, Inl ENFILE)" using found(1) True d'(1) by (subst falloc.simps) simp
      have o': "open_fds d' = open_fds d" by (simp add: open_fds_def d'(3))
      have rt: "refs ?t = refs s" by (simp add: refs_def fun_eq_iff call_def d'(3) found(6))
      then have "file_ok ?t g \<longleftrightarrow> file_ok s g" for g by (simp add: file_ok_def) (simp add: call_def)
      then have "kfs_inv ?t"
        using inv d'(2,3) found(6) o' by (simp add: kfs_inv_def fd_inv_def call_def p_lim_def)
      moreover have "tab ?t = tab s" by (simp add: tab_def fun_eq_iff call_def d'(3,4) found(6,7))
      ultimately show ?thesis using eq True found(2) by (simp add: falloc_spec_def) (simp add: call_def)
    next
      case False
      have eq: "falloc s fp = Some (falloc_file ?s fp ?n, Inr ?n)"
        using found(1) False n len by (subst falloc.simps) auto
      have larval: "\<not> FILE_IS_USABLE (k_file (falloc_file ?s fp ?n) fp)"
        by (simp add: falloc_file_def Let_def FREF_def upd_file_def call_def FILE_IS_USABLE_def has_flag_def
            FIF_LARVAL_def FIF_WANTCLOSE_def)
      have tab: "tab (falloc_file ?s fp ?n) = (tab s)(?n \<mapsto> fp)"
        using n len found(6,7) by (auto simp: tab_def fun_eq_iff falloc_file_def Let_def FREF_def upd_file_def call_def)
      note new = falloc_new_inv [OF inv "1.prems"(2) n found(3) m found(6,7) refl]
      show ?thesis
        using eq False found(2) larval tab new mature_falloc(1) [OF found(6)] by (simp add: falloc_spec_def)
    qed
  qed
qed

section \<open>Closing many descriptors\<close>

lemma refs_kept_refl: "refs_kept s s"
  by (simp add: refs_kept_def)

lemma refs_kept_trans: "refs_kept s t \<Longrightarrow> refs_kept t u \<Longrightarrow> refs_kept s u"
  by (auto simp: refs_kept_def)

lemma lastfile_bound:
  assumes "kfs_inv s"
  shows "fd_lastfile (p_fd s) < fd_nfiles (p_fd s)" "fd_lastfile (p_fd s) < n \<Longrightarrow> tab s n = None"
proof -
  have m: "fd_map (open_fds (p_fd s)) (p_fd s)" using assms by (rule kfs_map)
  have "0 < fd_nfiles (p_fd s)"
    using kfs_shape [OF assms] table_slack [of "fd_nfiles (p_fd s)"] by (auto simp: fd_shape_def)
  with m fd_map_len(6) [OF m] show "fd_lastfile (p_fd s) < fd_nfiles (p_fd s)"
    by (auto simp: fd_map_def fd_marks_def)
  have "n \<notin> open_fds (p_fd s)" if "fd_lastfile (p_fd s) < n"
    using m that by (auto simp: fd_map_def fd_marks_def)
  then show "fd_lastfile (p_fd s) < n \<Longrightarrow> tab s n = None" using tab_open [OF kfs_shape [OF assms], of n] by blast
qed

text \<open>\<open>fdrelease\<close> on any descriptor inside the table.\<close>

lemma fdrelease_any:
  assumes inv: "kfs_inv s" and n: "n < fd_nfiles (p_fd s)"
  shows "\<exists>s' e. fdrelease fo_close s n = Some (s', e) \<and> kfs_inv s' \<and> tab s' = (tab s)(n := None) \<and> refs_kept s s'
     \<and> (\<forall>i. i \<noteq> n \<longrightarrow> fd_ofileflags (p_fd s') ! i = fd_ofileflags (p_fd s) ! i) \<and> fd_nfiles (p_fd s') = fd_nfiles (p_fd s)"
proof (cases "tab s n")
  case None
  have "length (fd_ofiles (p_fd s)) = fd_nfiles (p_fd s)" using kfs_shape [OF inv] by (simp add: fd_shape_def)
  with None n have "fdrelease fo_close s n = Some (s, Some EBADF)" by (simp add: fdrelease_def tab_def)
  with None inv show ?thesis by (auto simp: refs_kept_refl)
next
  case (Some fp)
  obtain d s' where r: "fdrelease fo_close s n = Some (s', close_errno fo_close s fp)"
    "s' = drop_ref (knote_check (s\<lparr>p_fd := d\<rparr>) n) fp" "kfs_inv s'" "tab s' = (tab s)(n := None)"
    "fd_ofileflags d = (fd_ofileflags (p_fd s))[n := 0]" "fd_nfiles d = fd_nfiles (p_fd s)"
    using fdrelease_spec [OF inv Some, of fo_close] by blast
  have "refs_kept s s'" using fdrelease_close [OF inv Some, of fo_close] r(1) Some by (auto simp: close_spec_def)
  with r show ?thesis by auto
qed

lemma closefrom_loop_ok:
  assumes "kfs_inv s"
  shows "\<exists>s'. closefrom_loop fo_close s i = Some s' \<and> kfs_inv s' \<and> refs_kept s s'
    \<and> tab s' = (\<lambda>n. if i \<le> n then None else tab s n)"
  using assms
proof (induction fo_close s i rule: closefrom_loop.induct)
  case (1 fo_close s i)
  note lf = lastfile_bound [OF "1.prems"]
  have len: "length (fd_ofiles (p_fd s)) = fd_nfiles (p_fd s)" using kfs_shape [OF "1.prems"] by (simp add: fd_shape_def)
  show ?case
  proof (cases "i \<le> fd_lastfile (p_fd s)")
    case False
    then have "closefrom_loop fo_close s i = Some s" by (subst closefrom_loop.simps) simp
    moreover have "tab s = (\<lambda>n. if i \<le> n then None else tab s n)" using False lf(2) by (auto simp: fun_eq_iff)
    ultimately show ?thesis using "1.prems" refs_kept_refl by auto
  next
    case True
    then have i: "i < fd_nfiles (p_fd s)" using lf(1) by simp
    obtain t e where t: "fdrelease fo_close s i = Some (t, e)" "kfs_inv t" "tab t = (tab s)(i := None)" "refs_kept s t"
      using fdrelease_any [OF "1.prems" i, of fo_close] by blast
    from "1.IH" [OF True _ t(1) refl t(2)] i len obtain s' where
      s': "closefrom_loop fo_close t (i + 1) = Some s'" "kfs_inv s'" "refs_kept t s'"
        "tab s' = (\<lambda>n. if i + 1 \<le> n then None else tab t n)" by auto
    have "closefrom_loop fo_close s i = Some s'" using True i len t(1) s'(1) by (subst closefrom_loop.simps) simp
    moreover have "tab s' = (\<lambda>n. if i \<le> n then None else tab s n)" by (auto simp: s'(4) t(3) fun_eq_iff)
    ultimately show ?thesis using s'(2) refs_kept_trans [OF t(4) s'(3)] by auto
  qed
qed

lemma closeexec_loop_ok:
  assumes "kfs_inv s"
  shows "\<exists>s'. fdcloseexec_from fo_close s i = Some s' \<and> kfs_inv s' \<and> refs_kept s s'
    \<and> tab s' = (\<lambda>n. if i \<le> n \<and> n < fd_nfiles (p_fd s) \<and> has_flag (fd_ofileflags (p_fd s) ! n) UF_EXCLOSE then None else tab s n)"
  using assms
proof (induction fo_close s i rule: fdcloseexec_from.induct)
  case (1 fo_close s i)
  note lf = lastfile_bound [OF "1.prems"]
  have len: "length (fd_ofiles (p_fd s)) = fd_nfiles (p_fd s)" using kfs_shape [OF "1.prems"] by (simp add: fd_shape_def)
  show ?case
  proof (cases "i \<le> fd_lastfile (p_fd s)")
    case False
    then have "fdcloseexec_from fo_close s i = Some s" by (subst fdcloseexec_from.simps) simp
    with "1.prems" refs_kept_refl show ?thesis using False lf(2) by (auto simp: fun_eq_iff)
  next
    case True
    then have i: "i < fd_nfiles (p_fd s)" "i < length (fd_ofiles (p_fd s))" using lf(1) len by simp_all
    show ?thesis
    proof (cases "has_flag (fd_ofileflags (p_fd s) ! i) UF_EXCLOSE")
      case x: True
      obtain t e where t: "fdrelease fo_close s i = Some (t, e)" "kfs_inv t" "tab t = (tab s)(i := None)" "refs_kept s t"
        "\<forall>j. j \<noteq> i \<longrightarrow> fd_ofileflags (p_fd t) ! j = fd_ofileflags (p_fd s) ! j" "fd_nfiles (p_fd t) = fd_nfiles (p_fd s)"
        using fdrelease_any [OF "1.prems" i(1), of fo_close] by blast
      from "1.IH"(1) [OF True i(2) x t(1) refl t(2)] obtain s' where
        s': "fdcloseexec_from fo_close t (i + 1) = Some s'" "kfs_inv s'" "refs_kept t s'"
          "tab s' = (\<lambda>n. if i + 1 \<le> n \<and> n < fd_nfiles (p_fd t) \<and> has_flag (fd_ofileflags (p_fd t) ! n) UF_EXCLOSE
             then None else tab t n)" by auto
      have "fdcloseexec_from fo_close s i = Some s'"
        using True i x t(1) s'(1) by (subst fdcloseexec_from.simps) simp
      moreover have "tab s' = (\<lambda>n. if i \<le> n \<and> n < fd_nfiles (p_fd s) \<and> has_flag (fd_ofileflags (p_fd s) ! n) UF_EXCLOSE
          then None else tab s n)"
        using x i(1) t(5) by (auto simp: s'(4) t(3,6) fun_eq_iff le_Suc_eq)
      ultimately show ?thesis using s'(2) refs_kept_trans [OF t(4) s'(3)] by auto
    next
      case x: False
      from "1.IH"(2) [OF True i(2) x "1.prems"] obtain s' where
        s': "fdcloseexec_from fo_close s (i + 1) = Some s'" "kfs_inv s'" "refs_kept s s'"
          "tab s' = (\<lambda>n. if i + 1 \<le> n \<and> n < fd_nfiles (p_fd s) \<and> has_flag (fd_ofileflags (p_fd s) ! n) UF_EXCLOSE
             then None else tab s n)" by auto
      have "fdcloseexec_from fo_close s i = Some s'" using True i x s'(1) by (subst fdcloseexec_from.simps) simp
      moreover have "tab s' = (\<lambda>n. if i \<le> n \<and> n < fd_nfiles (p_fd s) \<and> has_flag (fd_ofileflags (p_fd s) ! n) UF_EXCLOSE
          then None else tab s n)"
        using x by (auto simp: s'(4) fun_eq_iff Suc_le_eq order.order_iff_strict)
      ultimately show ?thesis using s'(2,3) by auto
    qed
  qed
qed

end
