(* ===== verification/Fdesc_Fork.thy ===== *)
theory Fdesc_Fork
  imports Fdesc_Calls
begin

text \<open>
  The copy of a descriptor table at fork: the size of the new table, the truncated copy, the
  removal of event queues and the new references.
\<close>

section \<open>The size of the copy\<close>

lemma table_halve:
  assumes "n \<in> set (tl table_sizes)" "100 \<le> n" "l * 2 < n"
  shows "n div 2 \<in> set (tl table_sizes) \<and> l < n div 2"
proof -
  have "even n" "n div 2 \<in> set (tl table_sizes)" using assms(1,2) by (auto simp: table_sizes_def)
  with assms(3) show ?thesis by auto
qed

lemma fdcopy_size_ok:
  assumes "n \<in> set (tl table_sizes)" "l < n"
  shows "fdcopy_size n l \<in> set (tl table_sizes) \<and> l < fdcopy_size n l \<and> fdcopy_size n l \<le> n"
  using assms
proof (induction n l rule: fdcopy_size.induct)
  case (1 n l)
  show ?case
  proof (cases "2 * NDEXTENT \<le> n \<and> l * 2 < n")
    case True
    then have h: "n div 2 \<in> set (tl table_sizes)" "l < n div 2"
      using table_halve [OF "1.prems"(1), of l] by (auto simp: NDEXTENT_def)
    from "1.IH" [OF True h] True show ?thesis by (subst (1 2 3) fdcopy_size.simps) auto
  next
    case False
    with "1.prems" show ?thesis by (subst (1 2 3) fdcopy_size.simps) auto
  qed
qed

definition copy_size :: "filedesc \<Rightarrow> nat" where
  "copy_size d = (if fd_lastfile d < NDFILE then NDFILE else fdcopy_size (fd_nfiles d) (fd_lastfile d))"

lemma copy_size_ok:
  assumes "fd_map U d"
  shows "copy_size d \<in> set table_sizes" "fd_lastfile d < copy_size d" "copy_size d \<le> fd_nfiles d" "U \<subseteq> {..<copy_size d}"
proof -
  have sz: "fd_nfiles d \<in> set table_sizes" using assms by (simp add: fd_map_def fd_shape_def)
  have lf: "fd_lastfile d < fd_nfiles d"
    using assms fd_map_len(6) [OF assms] table_slack [OF sz] by (auto simp: fd_map_def fd_marks_def)
  have "copy_size d \<in> set table_sizes \<and> fd_lastfile d < copy_size d \<and> copy_size d \<le> fd_nfiles d"
  proof (cases "fd_lastfile d < NDFILE")
    case True
    then show ?thesis using table_slack [OF sz] by (simp add: copy_size_def NDFILE_def) (simp add: table_sizes_def)
  next
    case False
    then have "fd_nfiles d \<in> set (tl table_sizes)" using sz lf by (auto simp: table_sizes_def NDFILE_def)
    from fdcopy_size_ok [OF this lf] False show ?thesis by (auto simp: copy_size_def table_sizes_def)
  qed
  then show "copy_size d \<in> set table_sizes" and lt: "fd_lastfile d < copy_size d" and "copy_size d \<le> fd_nfiles d" by auto
  show "U \<subseteq> {..<copy_size d}" using assms lt by (auto simp: fd_map_def fd_marks_def)
qed

section \<open>The truncated copy\<close>

lemma ubit_take: "n < 32 * k \<Longrightarrow> ubit (take k m) n = ubit m n"
  by (simp add: ubit_def less_mult_imp_div_less mult.commute)

definition copy_table :: "filedesc \<Rightarrow> filedesc" where
  "copy_table d = (let i = copy_size d in
     d\<lparr>fd_refcnt := 1, fd_nfiles := i, fd_ofiles := take i (fd_ofiles d), fd_ofileflags := take i (fd_ofileflags d),
       fd_himap := take (NDHISLOTS i) (fd_himap d), fd_lomap := take (NDLOSLOTS i) (fd_lomap d)\<rparr>)"

lemma copy_table_frame [simp]:
  "fd_lastfile (copy_table d) = fd_lastfile d" "fd_freefile (copy_table d) = fd_freefile d"
  "fd_nfiles (copy_table d) = copy_size d" "fd_knlistsize (copy_table d) = fd_knlistsize d"
  "fd_ofiles (copy_table d) = take (copy_size d) (fd_ofiles d)"
  "fd_ofileflags (copy_table d) = take (copy_size d) (fd_ofileflags d)"
  "fd_himap (copy_table d) = take (NDHISLOTS (copy_size d)) (fd_himap d)"
  "fd_lomap (copy_table d) = take (NDLOSLOTS (copy_size d)) (fd_lomap d)"
  by (simp_all add: copy_table_def Let_def)

lemma copy_table_map:
  assumes "fd_map U d"
  shows "fd_map U (copy_table d)"
proof -
  note c = copy_size_ok [OF assms]
  have sh: "fd_shape d" and mk: "fd_marks U d" using assms by (auto simp: fd_map_def)
  have hi: "NDHISLOTS (copy_size d) \<le> NDHISLOTS (fd_nfiles d)" using c(3) by (rule NDHISLOTS_mono)
  have shape: "fd_shape (copy_table d)" using sh c hi by (auto simp: fd_shape_def NDLOSLOTS_hi)
  let ?k = "NDLOSLOTS (copy_size d)"
  have k: "?k \<le> length (fd_lomap d)" "?k = 32 * NDHISLOTS (copy_size d)"
    using sh hi by (simp_all add: fd_shape_def NDLOSLOTS_hi)
  have len: "length (fd_lomap (copy_table d)) = ?k" using k by simp
  have "ubit (fd_lomap (copy_table d)) n \<longleftrightarrow> n \<in> U" if "n < 32 * ?k" for n
    using that k fd_map_bit [OF assms, of n] ubit_take [OF that, of "fd_lomap d"] by simp
  moreover have "ubit (fd_himap (copy_table d)) b \<longleftrightarrow> fd_lomap (copy_table d) ! b = -1" if "b < ?k" for b
    using that k fd_map_hi [OF assms, of b] ubit_take [of b "NDHISLOTS (copy_size d)" "fd_himap d"] by simp
  ultimately have "fd_bits U (copy_table d)" using c(4) unfolding fd_bits_def len by simp
  moreover have "fd_marks U (copy_table d)" using mk by (simp add: fd_marks_def)
  ultimately show ?thesis using shape by (simp add: fd_map_def)
qed

lemma open_fds_copy:
  assumes "fd_map (open_fds d) d"
  shows "open_fds (copy_table d) = open_fds d"
  using copy_size_ok(4) [OF assms] by (auto simp: open_fds_def)

section \<open>Event queues\<close>

lemma fdremove_inv:
  assumes inv: "fd_inv {} d" and n: "n \<in> open_fds d"
  shows "\<exists>d'. fdremove d n = Some d' \<and> fd_inv {} d' \<and> fd_ofiles d' = (fd_ofiles d)[n := None]
    \<and> fd_ofileflags d' = fd_ofileflags d \<and> fd_nfiles d' = fd_nfiles d"
proof -
  let ?d = "d\<lparr>fd_ofiles := (fd_ofiles d)[n := None]\<rparr>"
  have m: "fd_map (open_fds d) d" using inv by (simp add: fd_inv_def)
  have len: "n < length (fd_ofiles d)" using n by (simp add: open_fds_def)
  have o: "n \<notin> open_fds ?d" "insert n (open_fds ?d) = open_fds d"
    using n len by (auto simp: open_fds_def nth_list_update)
  have "fd_map (insert n (open_fds ?d)) ?d"
    unfolding o(2) using m by (simp add: fd_map_def fd_shape_def fd_bits_def fd_marks_def)
  from fd_unused_map [OF this o(1)] obtain d' where d': "fd_unused ?d n = Some d'" "fd_map (open_fds ?d) d'"
    "fd_ofiles d' = fd_ofiles ?d" "fd_ofileflags d' = fd_ofileflags ?d" "fd_nfiles d' = fd_nfiles ?d" by blast
  have "open_fds d' = open_fds ?d" unfolding open_fds_def d'(3) ..
  with d' len show ?thesis by (simp add: fd_inv_def fdremove_def)
qed

definition no_kq :: "(fid \<Rightarrow> kfile) \<Rightarrow> fid option \<Rightarrow> fid option" where
  "no_kq files o_fp = (case o_fp of None \<Rightarrow> None | Some fp \<Rightarrow> if f_type (files fp) = DTYPE_KQUEUE then None else Some fp)"

lemma inv_lastfile:
  assumes "fd_inv {} d"
  shows "fd_lastfile d < length (fd_ofiles d)" "fd_lastfile d < n \<Longrightarrow> n < length (fd_ofiles d) \<Longrightarrow> fd_ofiles d ! n = None"
proof -
  have m: "fd_map (open_fds d) d" using assms by (simp add: fd_inv_def)
  have "0 < fd_nfiles d" using m table_slack [of "fd_nfiles d"] by (auto simp: fd_map_def fd_shape_def)
  with m fd_map_len [OF m] show "fd_lastfile d < length (fd_ofiles d)" by (auto simp: fd_map_def fd_marks_def)
  show "fd_ofiles d ! n = None" if "fd_lastfile d < n" "n < length (fd_ofiles d)"
    using m that by (auto simp: fd_map_def fd_marks_def open_fds_def)
qed

lemma kq_remove_ok:
  assumes "fd_inv {} d"
  shows "\<exists>d'. kq_remove files d i = Some d' \<and> fd_inv {} d' \<and> fd_nfiles d' = fd_nfiles d
    \<and> fd_ofileflags d' = fd_ofileflags d \<and> length (fd_ofiles d') = length (fd_ofiles d)
    \<and> (\<forall>n < length (fd_ofiles d). fd_ofiles d' ! n = (if i \<le> n then no_kq files (fd_ofiles d ! n) else fd_ofiles d ! n))"
  using assms
proof (induction files d i rule: kq_remove.induct)
  case (1 files d i)
  note lf = inv_lastfile [OF "1.prems"]
  show ?case
  proof (cases "i \<le> fd_lastfile d")
    case False
    then have "kq_remove files d i = Some d" by (subst kq_remove.simps) simp
    with "1.prems" False lf(2) show ?thesis by (auto simp: no_kq_def)
  next
    case True
    then have i: "i < length (fd_ofiles d)" using lf(1) by simp
    show ?thesis
    proof (cases "no_kq files (fd_ofiles d ! i) = fd_ofiles d ! i")
      case keep: True
      have eq: "kq_remove files d i = kq_remove files d (i + 1)"
        using keep True i by (subst kq_remove.simps) (auto simp: no_kq_def split: option.splits if_splits)
      have "\<exists>d'. kq_remove files d (i + 1) = Some d' \<and> fd_inv {} d' \<and> fd_nfiles d' = fd_nfiles d
          \<and> fd_ofileflags d' = fd_ofileflags d \<and> length (fd_ofiles d') = length (fd_ofiles d)
          \<and> (\<forall>n < length (fd_ofiles d). fd_ofiles d' ! n = (if i + 1 \<le> n then no_kq files (fd_ofiles d ! n) else fd_ofiles d ! n))"
      proof (cases "fd_ofiles d ! i")
        case None
        from "1.IH"(1) [OF True i None "1.prems"] show ?thesis .
      next
        case (Some fp)
        with keep have "f_type (files fp) \<noteq> DTYPE_KQUEUE" by (auto simp: no_kq_def)
        from "1.IH"(3) [OF True i Some this "1.prems"] show ?thesis .
      qed
      then obtain d' where d': "kq_remove files d (i + 1) = Some d'" "fd_inv {} d'" "fd_nfiles d' = fd_nfiles d"
        "fd_ofileflags d' = fd_ofileflags d" "length (fd_ofiles d') = length (fd_ofiles d)"
        "\<forall>n < length (fd_ofiles d). fd_ofiles d' ! n = (if i + 1 \<le> n then no_kq files (fd_ofiles d ! n) else fd_ofiles d ! n)"
        by blast
      have "fd_ofiles d' ! n = (if i \<le> n then no_kq files (fd_ofiles d ! n) else fd_ofiles d ! n)"
        if "n < length (fd_ofiles d)" for n
        using d'(6) that keep by (cases "n = i") auto
      with eq d' show ?thesis by simp
    next
      case False
      then obtain fp where fp: "fd_ofiles d ! i = Some fp" "f_type (files fp) = DTYPE_KQUEUE"
        by (auto simp: no_kq_def split: option.splits if_splits)
      have "i \<in> open_fds d" using fp i by (simp add: open_fds_def)
      from fdremove_inv [OF "1.prems" this] obtain t where t: "fdremove d i = Some t" "fd_inv {} t"
        "fd_ofiles t = (fd_ofiles d)[i := None]" "fd_ofileflags t = fd_ofileflags d" "fd_nfiles t = fd_nfiles d" by blast
      from "1.IH"(2) [OF True i fp t(1,2)] obtain d' where d': "kq_remove files t (i + 1) = Some d'" "fd_inv {} d'"
        "fd_nfiles d' = fd_nfiles d" "fd_ofileflags d' = fd_ofileflags d" "length (fd_ofiles d') = length (fd_ofiles d)"
        "\<forall>n < length (fd_ofiles d). fd_ofiles d' ! n = (if i + 1 \<le> n then no_kq files (fd_ofiles t ! n) else fd_ofiles t ! n)"
        using t(3,4,5) by auto
      have "kq_remove files d i = Some d'" using True i fp t(1) d'(1) by (subst kq_remove.simps) simp
      moreover have "fd_ofiles d' ! n = (if i \<le> n then no_kq files (fd_ofiles d ! n) else fd_ofiles d ! n)"
        if "n < length (fd_ofiles d)" for n
        using d'(6) that fp i by (cases "n = i") (auto simp: t(3) no_kq_def)
      ultimately show ?thesis using d' by simp
    qed
  qed
qed

section \<open>The new references\<close>

lemma count_list_drop:
  "i < length xs \<Longrightarrow> count_list (drop i xs) y = (if xs ! i = y then 1 else 0) + count_list (drop (i + 1) xs) y"
  by (simp add: Cons_nth_drop_Suc [symmetric])

lemma count_refs_ok:
  assumes "fd_inv {} d" "\<forall>fp. f_count (k_file s fp) + int (count_list (drop i (fd_ofiles d)) (Some fp)) \<le> F_COUNT_MAX"
  shows "\<exists>s'. count_refs s d i = Some (s', d) \<and> p_fd s' = p_fd s \<and> filehead s' = filehead s \<and> nfiles s' = nfiles s
    \<and> (\<forall>fp. k_file s' fp = (k_file s fp)\<lparr>f_count := f_count (k_file s fp) + int (count_list (drop i (fd_ofiles d)) (Some fp))\<rparr>)"
  using assms
proof (induction s d i rule: count_refs.induct)
  case (1 s d i)
  note lf = inv_lastfile [OF "1.prems"(1)]
  show ?case
  proof (cases "i \<le> fd_lastfile d")
    case False
    have "count_list (drop i (fd_ofiles d)) (Some fp) = 0" for fp
      unfolding count_list_0_iff using False lf(2) by (force simp: in_set_conv_nth)
    moreover have "count_refs s d i = Some (s, d)" using False by (subst count_refs.simps) simp
    ultimately show ?thesis by simp
  next
    case True
    then have i: "i < length (fd_ofiles d)" using lf(1) by simp
    note cd = count_list_drop [OF i]
    show ?thesis
    proof (cases "fd_ofiles d ! i")
      case None
      have "count_refs s d i = count_refs s d (i + 1)" using True i None by (subst count_refs.simps) simp
      with "1.IH"(1) [OF True i None "1.prems"(1)] "1.prems"(2) None show ?thesis by (simp add: cd)
    next
      case (Some fp)
      let ?s = "upd_file s fp (\<lambda>f. f\<lparr>f_count := f_count f + 1\<rparr>)"
      have ne: "f_count (k_file s fp) \<noteq> F_COUNT_MAX"
        using "1.prems"(2) [rule_format, of fp] Some by (simp add: cd)
      have eq: "count_refs s d i = count_refs ?s d (i + 1)" using True i Some ne by (subst count_refs.simps) simp
      have "f_count (k_file ?s g) + int (count_list (drop (i + 1) (fd_ofiles d)) (Some g)) \<le> F_COUNT_MAX" for g
        using "1.prems"(2) [rule_format, of g] Some by (auto simp: cd upd_file_def)
      from "1.IH"(3) [OF True i Some ne "1.prems"(1)] this obtain s' where
        s': "count_refs ?s d (i + 1) = Some (s', d)" "p_fd s' = p_fd ?s" "filehead s' = filehead ?s" "nfiles s' = nfiles ?s"
          "\<forall>g. k_file s' g = (k_file ?s g)\<lparr>f_count := f_count (k_file ?s g) + int (count_list (drop (i + 1) (fd_ofiles d)) (Some g))\<rparr>"
        by blast
      have "k_file s' g = (k_file s g)\<lparr>f_count := f_count (k_file s g) + int (count_list (drop i (fd_ofiles d)) (Some g))\<rparr>" for g
        using s'(5) Some by (auto simp: cd upd_file_def)
      with eq s' show ?thesis by (simp add: upd_file_def)
    qed
  qed
qed

lemma count_refs_frame:
  "count_refs s d i = Some (s', d') \<Longrightarrow> rlim_nofile s' = rlim_nofile s \<and> maxfiles s' = maxfiles s"
proof (induction s d i rule: count_refs.induct)
  case (1 s d i)
  show ?case
    using "1.prems" "1.IH"
    by (subst (asm) (1) count_refs.simps) (auto simp: upd_file_def split: if_splits option.splits)
qed

section \<open>Fork\<close>

lemma fdcopy_eq:
  "\<exists>calls. fdcopy s = (case (if fd_knlistsize (p_fd s) \<noteq> -1
      then map_option (\<lambda>d. d\<lparr>fd_knlistsize := -1\<rparr>) (kq_remove (k_file s) (copy_table (p_fd s)) 0)
      else Some (copy_table (p_fd s))) of
    None \<Rightarrow> None | Some d \<Rightarrow> count_refs (s\<lparr>k_calls := calls\<rparr>) d 0)"
  by (rule exI [of _ "k_calls s @ (case fd_cdir (p_fd s) of None \<Rightarrow> [] | Some v \<Rightarrow> [Vref v])
      @ (case fd_rdir (p_fd s) of None \<Rightarrow> [] | Some v \<Rightarrow> [Vref v])"])
    (simp add: fdcopy_def copy_table_def copy_size_def Let_def call_def split: option.split)

text \<open>The entry of the copy for an entry of the parent.\<close>

definition forked :: "kfs \<Rightarrow> fid option \<Rightarrow> fid option" where
  "forked s o_fp = (if fd_knlistsize (p_fd s) \<noteq> -1 then no_kq (k_file s) o_fp else o_fp)"

lemma copy_inv: "kfs_inv s \<Longrightarrow> fd_inv {} (copy_table (p_fd s))"
  using copy_table_map [OF kfs_map] open_fds_copy [OF kfs_map] by (simp add: fd_inv_def)

text \<open>The table of the child before the references are counted.\<close>

lemma copy_step:
  assumes "kfs_inv s"
  shows "\<exists>d. (if fd_knlistsize (p_fd s) \<noteq> -1
      then map_option (\<lambda>d. d\<lparr>fd_knlistsize := -1\<rparr>) (kq_remove (k_file s) (copy_table (p_fd s)) 0)
      else Some (copy_table (p_fd s))) = Some d \<and> fd_inv {} d \<and> fd_nfiles d = copy_size (p_fd s)
    \<and> fd_ofileflags d = take (copy_size (p_fd s)) (fd_ofileflags (p_fd s))
    \<and> fd_ofiles d = map (forked s) (take (copy_size (p_fd s)) (fd_ofiles (p_fd s)))"
proof (cases "fd_knlistsize (p_fd s) = -1")
  case True
  moreover have "map (forked s) xs = xs" for xs using True by (simp add: forked_def map_idI)
  ultimately show ?thesis using copy_inv [OF assms] by simp
next
  case False
  from kq_remove_ok [OF copy_inv [OF assms], of "k_file s" 0] obtain d where
    d: "kq_remove (k_file s) (copy_table (p_fd s)) 0 = Some d" "fd_inv {} d" "fd_nfiles d = copy_size (p_fd s)"
      "fd_ofileflags d = fd_ofileflags (copy_table (p_fd s))" "length (fd_ofiles d) = length (fd_ofiles (copy_table (p_fd s)))"
      "\<forall>n < length (fd_ofiles (copy_table (p_fd s))). fd_ofiles d ! n = no_kq (k_file s) (fd_ofiles (copy_table (p_fd s)) ! n)"
    by auto
  have "fd_ofiles d = map (forked s) (take (copy_size (p_fd s)) (fd_ofiles (p_fd s)))"
    using d(5,6) False by (intro nth_equalityI) (auto simp: forked_def)
  moreover have "open_fds (d\<lparr>fd_knlistsize := -1\<rparr>) = open_fds d" by (simp add: open_fds_def)
  then have "fd_inv {} (d\<lparr>fd_knlistsize := -1\<rparr>)"
    using d(2) by (simp add: fd_inv_def fd_map_def fd_shape_def fd_bits_def fd_marks_def)
  ultimately show ?thesis using False d by simp
qed

lemma count_list_forked: "count_list (map (forked s) xs) (Some fp) \<le> count_list xs (Some fp)"
  by (induction xs) (auto simp: forked_def no_kq_def split: option.splits if_splits)

lemma count_list_take: "count_list (take n xs) y \<le> count_list xs y"
  by (metis append_take_drop_id count_list_append le_add1)

text \<open>What \<open>fdcopy\<close> gives: the state with the new references, and the table of the child.\<close>

definition fork_spec :: "kfs \<Rightarrow> kfs \<Rightarrow> filedesc \<Rightarrow> bool" where
  "fork_spec s s' d \<longleftrightarrow> kfs_inv s' \<and> kfs_inv (s'\<lparr>p_fd := d\<rparr>) \<and> p_fd s' = p_fd s \<and> filehead s' = filehead s
     \<and> tab (s'\<lparr>p_fd := d\<rparr>) = (\<lambda>n. forked s (tab s n))
     \<and> (\<forall>fp. f_count (k_file s' fp) = f_count (k_file s fp) + int (refs (s'\<lparr>p_fd := d\<rparr>) fp))"

lemma fdcopy_ok:
  assumes inv: "kfs_inv s" and room: "\<forall>fp. f_count (k_file s fp) + int (refs s fp) \<le> F_COUNT_MAX"
  shows "\<exists>s' d. fdcopy s = Some (s', d) \<and> fork_spec s s' d
    \<and> fd_ofileflags d = take (copy_size (p_fd s)) (fd_ofileflags (p_fd s))
    \<and> nfiles s' = nfiles s \<and> maxfiles s' = maxfiles s \<and> p_lim s' = p_lim s"
proof -
  let ?k = "copy_size (p_fd s)"
  obtain d where d: "(if fd_knlistsize (p_fd s) \<noteq> -1
      then map_option (\<lambda>d. d\<lparr>fd_knlistsize := -1\<rparr>) (kq_remove (k_file s) (copy_table (p_fd s)) 0)
      else Some (copy_table (p_fd s))) = Some d" "fd_inv {} d" "fd_nfiles d = ?k"
    "fd_ofileflags d = take ?k (fd_ofileflags (p_fd s))" "fd_ofiles d = map (forked s) (take ?k (fd_ofiles (p_fd s)))"
    using copy_step [OF inv] by blast
  obtain calls where c: "fdcopy s = count_refs (s\<lparr>k_calls := calls\<rparr>) d 0" using fdcopy_eq [of s] d(1) by auto
  have le: "count_list (fd_ofiles d) (Some fp) \<le> refs s fp" for fp
    unfolding d(5) refs_def using count_list_forked count_list_take by (rule le_trans)
  have "f_count (k_file s fp) + int (count_list (fd_ofiles d) (Some fp)) \<le> F_COUNT_MAX" for fp
    using room [rule_format, of fp] le [of fp] by linarith
  with count_refs_ok [OF d(2), of "s\<lparr>k_calls := calls\<rparr>" 0] c obtain s' where
    s': "fdcopy s = Some (s', d)" "p_fd s' = p_fd s" "filehead s' = filehead s" "nfiles s' = nfiles s"
      "\<And>fp. k_file s' fp = (k_file s fp)\<lparr>f_count := f_count (k_file s fp) + int (count_list (fd_ofiles d) (Some fp))\<rparr>"
    by auto
  have lim: "rlim_nofile s' = rlim_nofile s" "maxfiles s' = maxfiles s"
    using count_refs_frame [of "s\<lparr>k_calls := calls\<rparr>" d 0 s' d] c s'(1) by simp_all
  have ok: "file_ok s' fp" "int (count_list (fd_ofiles d) (Some fp)) \<le> f_count (k_file s' fp)" if "file_ok s fp" for fp
    using that room [rule_format, of fp] le [of fp] s'
    by (auto simp: file_ok_def refs_def FILE_IS_USABLE_def)
  have "Some fp \<in> set (fd_ofiles d) \<Longrightarrow> Some fp \<in> set (fd_ofiles (p_fd s))" for fp
    using le [of fp] by (metis count_list_0_iff le_zero_eq refs_def)
  moreover have "file_ok (s'\<lparr>p_fd := d\<rparr>) fp" if "file_ok s fp" for fp
    using ok [OF that] unfolding file_ok_def refs_def by simp
  ultimately have k: "kfs_inv s'" "kfs_inv (s'\<lparr>p_fd := d\<rparr>)"
    using inv d(2) ok(1) s'(2,3,4) lim by (simp_all add: kfs_inv_def p_lim_def)
  have "tab (s'\<lparr>p_fd := d\<rparr>) n = forked s (tab s n)" for n
  proof (cases "n < ?k")
    case True
    with copy_size_ok(3) [OF kfs_map [OF inv]] fd_map_len(1) [OF kfs_map [OF inv]] show ?thesis
      by (simp add: tab_def d(3,5))
  next
    case False
    with copy_size_ok(2) [OF kfs_map [OF inv]] lastfile_bound(2) [OF inv, of n] show ?thesis
      by (simp add: tab_def d(3) forked_def no_kq_def)
  qed
  with s' k d(4) lim show ?thesis by (auto simp: fork_spec_def refs_def p_lim_def)
qed

end
