(* ===== verification/Fdesc_Steps.thy ===== *)
theory Fdesc_Steps
  imports Fdesc_Fork
begin

text \<open>
  The descriptor calls of a process as steps, and the properties of the descriptor table.
\<close>

section \<open>fcntl\<close>

text \<open>The invariant looks only at some fields.\<close>

lemma kfs_inv_cong:
  assumes "kfs_inv s" "fd_inv {} (p_fd s')" "fd_ofiles (p_fd s') = fd_ofiles (p_fd s)"
    "rlim_nofile s' = rlim_nofile s" "maxfiles s' = maxfiles s" "filehead s' = filehead s" "nfiles s' = nfiles s"
    "\<forall>g. f_iflags (k_file s' g) = f_iflags (k_file s g) \<and> f_usecount (k_file s' g) = f_usecount (k_file s g)
      \<and> f_count (k_file s' g) = f_count (k_file s g)"
  shows "kfs_inv s'"
proof -
  have "file_ok s' g \<longleftrightarrow> file_ok s g" for g
    using assms(3,6,8) by (simp add: file_ok_def refs_def FILE_IS_USABLE_def)
  with assms show ?thesis by (simp add: kfs_inv_def p_lim_def)
qed

text \<open>A minimum at or above the limit.\<close>

lemma dupfd_limit:
  assumes "kfs_inv s" "\<not> newmin < p_lim s"
  shows "fcntl_dupfd fo_close s fd newmin = Some (s, Inl (if tab s fd = None then EBADF else EINVAL))"
proof (cases "tab s fd")
  case None
  then show ?thesis by (subst fcntl_dupfd.simps) (simp add: fd_getfile_tab [OF assms(1)])
next
  case (Some fp)
  have "FILE_IS_USABLE (k_file s fp)" using kfs_file(1) [OF assms(1) Some] by (simp add: file_ok_def)
  then show ?thesis using Some assms(2) lim_reached [OF assms(1), of newmin]
    by (subst fcntl_dupfd.simps) (simp add: fd_getfile_tab [OF assms(1)] FRELE_FREF)
qed

lemma fd_inv_flags: "fd_inv {} d \<Longrightarrow> length fl = length (fd_ofileflags d) \<Longrightarrow> fd_inv {} (d\<lparr>fd_ofileflags := fl\<rparr>)"
proof -
  assume a: "fd_inv {} d" "length fl = length (fd_ofileflags d)"
  have "open_fds (d\<lparr>fd_ofileflags := fl\<rparr>) = open_fds d" by (simp add: open_fds_def)
  with a show ?thesis by (simp add: fd_inv_def fd_map_def fd_shape_def fd_bits_def fd_marks_def)
qed

lemma setfl_file:
  assumes "fcntl_setfl fo_ioctl s fp arg = (s', e)"
  shows "p_fd s' = p_fd s" "rlim_nofile s' = rlim_nofile s" "maxfiles s' = maxfiles s" "filehead s' = filehead s"
    "nfiles s' = nfiles s" "f_iflags (k_file s' g) = f_iflags (k_file s g)"
    "f_usecount (k_file s' g) = f_usecount (k_file s g)" "f_count (k_file s' g) = f_count (k_file s g)"
  using assms by (auto simp: fcntl_setfl_def Let_def upd_file_def call_def split: option.splits)

lemma FRELE_fields:
  assumes "\<not> has_flag (f_iflags (k_file s fp)) FIF_WANTCLOSE"
  shows "FRELE s fp = upd_file s fp (\<lambda>f. f\<lparr>f_usecount := f_usecount f - 1\<rparr>)"
  using assms by (simp add: FRELE_def Let_def upd_file_def)

lemma sys_fcntl_inv:
  assumes inv: "kfs_inv s" and room: "\<forall>fp. f_count (k_file s fp) < F_COUNT_MAX"
  shows "\<exists>s' r. sys_fcntl fo_close fo_ioctl s fd cmd = Some (s', r) \<and> kfs_inv s'"
proof (cases "tab s fd")
  case None
  then show ?thesis using inv by (simp add: sys_fcntl_def fd_getfile_tab [OF inv])
next
  case (Some fp)
  have gf: "fd_getfile s fd = Some fp" using Some fd_getfile_tab [OF inv] by simp
  have us: "FILE_IS_USABLE (k_file s fp)" using kfs_file(1) [OF inv Some] by (simp add: file_ok_def)
  show ?thesis
  proof (cases cmd)
    case (F_DUPFD newmin)
    show ?thesis
    proof (cases "newmin < p_lim s")
      case True
      obtain r where "fcntl_dupfd fo_close s fd newmin = Some r" "dup_spec s fd newmin r"
        using fcntl_dupfd_spec [OF inv _ True, of fd fo_close] room by blast
      then show ?thesis using gf F_DUPFD inv Some
        by (cases r) (auto simp: sys_fcntl_def dup_spec_def dup_ok_def split: if_splits)
    next
      case False
      then have "fcntl_dupfd fo_close s fd newmin = Some (s, Inl EINVAL)" using dupfd_limit [OF inv, of newmin] Some by simp
      with gf F_DUPFD inv show ?thesis by (simp add: sys_fcntl_def)
    qed
  next
    case (F_SETFD arg)
    have fr: "FRELE ((FREF s fp)\<lparr>p_fd := d\<rparr>) fp = s\<lparr>p_fd := d\<rparr>" for d
      using FRELE_FREF [of "s\<lparr>p_fd := d\<rparr>" fp] us by (simp add: FREF_p_fd)
    have "kfs_inv (s\<lparr>p_fd := (p_fd s)\<lparr>fd_ofileflags := (fd_ofileflags (p_fd s))[fd := x]\<rparr>\<rparr>)" for x
      using inv by (intro kfs_inv_cong [OF inv]) (auto simp: kfs_inv_def intro: fd_inv_flags)
    with gf F_SETFD show ?thesis by (simp add: sys_fcntl_def Let_def fr)
  next
    case (F_SETFL arg)
    obtain s2 e where s2: "fcntl_setfl fo_ioctl (FREF s fp) fp arg = (s2, e)" by (metis surj_pair)
    note f = setfl_file [OF s2]
    have w: "\<not> has_flag (f_iflags (k_file s2 fp)) FIF_WANTCLOSE"
      using usable_flags [OF us] f(6) [of fp] by (simp add: FREF_def upd_file_def)
    have "kfs_inv (FRELE s2 fp)"
      using inv f by (intro kfs_inv_cong [OF inv]) (simp_all add: FRELE_fields [OF w] upd_file_def FREF_def kfs_inv_def)
    then show ?thesis using gf F_SETFL s2 by (cases e) (simp_all add: sys_fcntl_def Let_def)
  qed (use gf inv in \<open>simp_all add: sys_fcntl_def Let_def FRELE_FREF [OF us]\<close>)
qed

section \<open>Steps\<close>

definition room :: "kfs \<Rightarrow> bool" where
  "room s \<longleftrightarrow> (\<forall>fp. f_count (k_file s fp) + int (refs s fp) < F_COUNT_MAX)"

inductive fd_step :: "(fid \<Rightarrow> errno option) \<Rightarrow> (fdcall \<Rightarrow> errno option) \<Rightarrow> kfs \<Rightarrow> kfs \<Rightarrow> bool"
  for fo_close fo_ioctl where
  dup: "room s \<Longrightarrow> sys_dup fo_close s old = Some (s', r) \<Longrightarrow> fd_step fo_close fo_ioctl s s'"
| dup2: "room s \<Longrightarrow> sys_dup2 fo_close s old new = Some (s', r) \<Longrightarrow> fd_step fo_close fo_ioctl s s'"
| fcntl: "room s \<Longrightarrow> sys_fcntl fo_close fo_ioctl s fd cmd = Some (s', r) \<Longrightarrow> fd_step fo_close fo_ioctl s s'"
| close: "sys_close fo_close s fd = Some (s', e) \<Longrightarrow> fd_step fo_close fo_ioctl s s'"
| opened: "fp \<notin> set (filehead s) \<Longrightarrow> falloc s fp = Some (s', Inr n) \<Longrightarrow>
    fd_step fo_close fo_ioctl s (mature s' fp flag ty ops)"
| not_opened: "fp \<notin> set (filehead s) \<Longrightarrow> falloc s fp = Some (s', Inl e) \<Longrightarrow> fd_step fo_close fo_ioctl s s'"
| closefrom: "sys_closefrom fo_close s fd = Some (s', e) \<Longrightarrow> fd_step fo_close fo_ioctl s s'"
| exec: "fdcloseexec fo_close s = Some s' \<Longrightarrow> fd_step fo_close fo_ioctl s s'"
| fork_parent: "room s \<Longrightarrow> fdcopy s = Some (s', d) \<Longrightarrow> fd_step fo_close fo_ioctl s s'"
| fork_child: "room s \<Longrightarrow> fdcopy s = Some (s', d) \<Longrightarrow> fd_step fo_close fo_ioctl s (s'\<lparr>p_fd := d\<rparr>)"

lemma room_max: "kfs_inv s \<Longrightarrow> room s \<Longrightarrow> f_count (k_file s fp) < F_COUNT_MAX"
  unfolding room_def by (metis add_increasing2 le_less_trans linorder_not_le of_nat_0_le_iff order_refl)

lemma fd_step_inv:
  assumes "fd_step fo_close fo_ioctl s s'" "kfs_inv s"
  shows "kfs_inv s'"
  using assms
proof (cases rule: fd_step.cases)
  case (dup old r)
  from sys_dup_spec [OF assms(2), of old fo_close] room_max [OF assms(2) dup(1)] dup(2) assms(2)
  show ?thesis by (auto simp: dup_spec_def dup_ok_def split: option.splits if_splits)
next
  case (dup2 old new r)
  from sys_dup2_spec [OF assms(2), of old fo_close new] room_max [OF assms(2) dup2(1)] dup2(2) assms(2)
  show ?thesis by (auto simp: dup2_spec_def dup2_ok_def split: option.splits if_splits)
next
  case (fcntl fd cmd r)
  from sys_fcntl_inv [OF assms(2), of fo_close fo_ioctl fd cmd] room_max [OF assms(2) fcntl(1)] fcntl(2)
  show ?thesis by auto
next
  case (close fd e)
  with sys_close_spec [OF assms(2), of fo_close fd] assms(2)
  show ?thesis by (auto simp: close_spec_def split: option.splits)
next
  case (opened fp t n flag ty ops)
  with falloc_ok [OF assms(2) opened(2)] show ?thesis by (auto simp: falloc_spec_def split: if_splits)
next
  case (not_opened fp e)
  with falloc_ok [OF assms(2) not_opened(1)] show ?thesis by (auto simp: falloc_spec_def split: if_splits)
next
  case (closefrom fd e)
  with closefrom_loop_ok [OF assms(2), of fo_close fd] assms(2)
  show ?thesis by (auto simp: sys_closefrom_def split: if_splits)
next
  case exec
  with closeexec_loop_ok [OF assms(2), of fo_close 0] show ?thesis by (auto simp: fdcloseexec_def)
next
  case (fork_parent d)
  with fdcopy_ok [OF assms(2)] show ?thesis by (fastforce simp: fork_spec_def room_def intro: less_imp_le)
next
  case (fork_child t d)
  with fdcopy_ok [OF assms(2)] show ?thesis by (fastforce simp: fork_spec_def room_def intro: less_imp_le)
qed

section \<open>Concrete states\<close>

text \<open>A process with the table \<open>fdinit\<close> makes, and the same process with one open file.\<close>

definition fd_table0 :: filedesc where
  "fd_table0 = fst (the (fdinit None 0))"

definition no_file :: kfile where
  "no_file = \<lparr>f_flag = 0, f_type = 0, f_count = 0, f_cred = 0, f_ops = False, f_iflags = 0, f_usecount = 0\<rparr>"

definition st0 :: kfs where
  "st0 = \<lparr>k_file = \<lambda>fp. no_file, filehead = [], nfiles = 0, maxfiles = 100, p_fd = fd_table0,
     rlim_nofile = 64, p_ucred = 0, k_calls = []\<rparr>"

definition st1 :: "nat \<Rightarrow> kfs" where
  "st1 ty = mature (falloc_file (st0\<lparr>p_fd := fd_used_val fd_table0 0\<rparr>) 0 0) 0 3 ty True"

lemma fd_table0_fields:
  "fd_ofiles fd_table0 = replicate 20 None" "fd_ofileflags fd_table0 = replicate 20 0" "fd_nfiles fd_table0 = 20"
  "fd_himap fd_table0 = [0]" "fd_lomap fd_table0 = replicate 32 0" "fd_lastfile fd_table0 = 0"
  "fd_freefile fd_table0 = 0" "fd_knlistsize fd_table0 = -1"
  by (simp_all add: fd_table0_def fdinit_def NDFILE_def NDENTRIES_def)

lemma open_fds_table0: "open_fds fd_table0 = {}"
  by (simp add: open_fds_def fd_table0_fields)

lemma fd_table0_map: "fd_map {} fd_table0"
proof -
  have "ubit (replicate 32 0) n \<longleftrightarrow> False" if "n < 1024" for n using that by (simp add: ubit_def)
  moreover have "ubit [0] b \<longleftrightarrow> False" if "b < 32" for b using that by (simp add: ubit_def)
  ultimately show ?thesis
    by (simp add: fd_map_def fd_shape_def fd_bits_def fd_marks_def fd_table0_fields table_sizes_def
        NDHISLOTS_def NDLOSLOTS_def NDREDUCE_def NDENTRIES_def)
qed

lemma st0_inv: "kfs_inv st0"
proof -
  have "unat (ucast (64 :: u_long) :: u_int) = 64" by simp
  then show ?thesis
    using fd_table0_map by (simp add: kfs_inv_def st0_def fd_inv_def open_fds_table0 p_lim_def fd_table0_fields)
qed

lemma st1_inv: "kfs_inv (st1 ty)" "tab (st1 ty) = [0 \<mapsto> 0]"
proof -
  have t: "tab st0 n = None" for n by (simp add: tab_def st0_def fd_table0_fields)
  have m: "fd_map (insert 0 (open_fds (p_fd st0))) (fd_used_val fd_table0 0)"
    using fd_used_map [OF fd_table0_map, of 0] by (simp add: st0_def open_fds_table0 fd_table0_fields)
  have p: "0 \<notin> set (filehead st0)" "0 < fd_nfiles (p_fd st0)"
    "fd_ofiles (fd_used_val fd_table0 0) = fd_ofiles (p_fd st0)" "fd_nfiles (fd_used_val fd_table0 0) = fd_nfiles (p_fd st0)"
    by (simp_all add: st0_def fd_table0_fields)
  note f = falloc_new_inv [OF st0_inv p(1,2) t m p(3,4) st1_def]
  show "kfs_inv (st1 ty)" by (rule f(1))
  show "tab (st1 ty) = [0 \<mapsto> 0]" using f(2) t by auto
qed

lemma st1_fields:
  "k_file (st1 ty) = (\<lambda>fp. no_file)(0 := \<lparr>f_flag = 3, f_type = ty, f_count = 1, f_cred = 0, f_ops = True,
     f_iflags = 0, f_usecount = 0\<rparr>)"
  "length (fd_ofiles (p_fd (st1 ty))) = 20" "fd_ofileflags (p_fd (st1 ty)) = replicate 20 0" "fd_nfiles (p_fd (st1 ty)) = 20"
  "p_lim (st1 ty) = 64" "filehead (st1 ty) = [0]" "nfiles (st1 ty) = 1" "maxfiles (st1 ty) = 100"
proof -
  have d: "fd_ofiles (fd_used_val fd_table0 0) = fd_ofiles (p_fd st0)" by (simp add: st0_def)
  note m = mature_falloc [OF d, of 0 0 3 ty True, folded st1_def]
  show "k_file (st1 ty) = (\<lambda>fp. no_file)(0 := \<lparr>f_flag = 3, f_type = ty, f_count = 1, f_cred = 0, f_ops = True,
     f_iflags = 0, f_usecount = 0\<rparr>)"
    "length (fd_ofiles (p_fd (st1 ty))) = 20" "fd_ofileflags (p_fd (st1 ty)) = replicate 20 0" "fd_nfiles (p_fd (st1 ty)) = 20"
    "filehead (st1 ty) = [0]" "nfiles (st1 ty) = 1" "maxfiles (st1 ty) = 100"
    by (simp_all add: m) (simp_all add: st0_def fd_table0_fields new_filehead_def)
  have "unat (ucast (64 :: u_long) :: u_int) = 64" by simp
  then show "p_lim (st1 ty) = 64" by (simp add: p_lim_def m) (simp add: st0_def)
qed

lemma st1_room: "room (st1 ty)"
proof -
  have r: "refs (st1 ty) fp \<le> 20" for fp
    using count_le_length [of "fd_ofiles (p_fd (st1 ty))" "Some fp"] by (simp add: refs_def st1_fields)
  have "f_count (k_file (st1 ty) fp) \<le> 1" for fp by (simp add: st1_fields no_file_def)
  then have "f_count (k_file (st1 ty) fp) + int (refs (st1 ty) fp) \<le> 21" for fp
    using r [of fp] add_mono [of "f_count (k_file (st1 ty) fp)" 1 "int (refs (st1 ty) fp)" 20] by simp
  then show ?thesis unfolding room_def F_COUNT_MAX_def by (rule allI [OF le_less_trans]) simp
qed

section \<open>Properties\<close>

text \<open>
  C16. \<open>fdalloc\<close> always returns: it marks and returns the lowest descriptor at or above \<open>want\<close>
  that is free, if that is inside the table and below the limit of the process. Otherwise it changes
  nothing and asks for a larger table (ENOSPC), or fails with EMFILE when the table has reached
  the limit.
\<close>

theorem fdalloc_lowest:
  assumes "kfs_inv s"
  shows "\<exists>s' r. fdalloc s want = Some (s', r) \<and>
    (if lowest s want < min (fd_nfiles (p_fd s)) (p_lim s)
     then r = Inr (lowest s want) \<and> tab s' = tab s \<and> fd_inv {lowest s want} (p_fd s')
     else s' = s \<and> r = Inl (if p_lim s \<le> fd_nfiles (p_fd s) then EMFILE else ENOSPC))"
proof (cases rule: fdalloc_tab [OF assms refl refl, where want = want, case_names full grow found])
  case (found d U)
  then have "open_fds d = open_fds (p_fd s)" by (simp add: open_fds_def)
  with found show ?thesis by (auto simp: fd_inv_def tab_def fun_eq_iff)
qed auto

theorem fdalloc_lowest_witness:
  "kfs_inv st0 \<and> (\<exists>s' r. fdalloc st0 3 = Some (s', r) \<and>
    (if lowest st0 3 < min (fd_nfiles (p_fd st0)) (p_lim st0)
     then r = Inr (lowest st0 3) \<and> tab s' = tab st0 \<and> fd_inv {lowest st0 3} (p_fd s')
     else s' = st0 \<and> r = Inl (if p_lim st0 \<le> fd_nfiles (p_fd st0) then EMFILE else ENOSPC)))"
  using fdalloc_lowest [OF st0_inv, of 3] st0_inv by blast

text \<open>
  C17. \<open>dup\<close> and \<open>fcntl(F_DUPFD)\<close> return after finitely many enlargements of the table. They give the
  lowest free descriptor (from the requested minimum on), which then refers to the same file
  with its reference count raised by one and close-on-exec clear, every other descriptor is as
  before; or EBADF for a closed descriptor, or EMFILE when no descriptor below the limit is free.
  A minimum at or above the limit is refused with EINVAL, changing nothing.
\<close>

theorem dup_refines:
  assumes "kfs_inv s" "room s"
  shows "(\<exists>r. sys_dup fo_close s old = Some r \<and> dup_spec s old 0 r)
    \<and> (\<exists>r. sys_fcntl fo_close fo_ioctl s old (F_DUPFD newmin) = Some r
        \<and> (if newmin < p_lim s then dup_spec s old newmin r
           else r = (s, Inl (if tab s old = None then EBADF else EINVAL))))"
proof -
  have r: "\<forall>fp. tab s old = Some fp \<longrightarrow> f_count (k_file s fp) < F_COUNT_MAX" using room_max [OF assms(1,2)] by blast
  have "sys_fcntl fo_close fo_ioctl s old (F_DUPFD newmin) = fcntl_dupfd fo_close s old newmin"
    by (cases "fd_getfile s old") (simp_all add: sys_fcntl_def Let_def fcntl_dupfd.simps [of _ _ _ newmin])
  with fcntl_dupfd_spec [OF assms(1) r, of newmin fo_close] dupfd_limit [OF assms(1), of newmin fo_close old]
  have "\<exists>r. sys_fcntl fo_close fo_ioctl s old (F_DUPFD newmin) = Some r
    \<and> (if newmin < p_lim s then dup_spec s old newmin r else r = (s, Inl (if tab s old = None then EBADF else EINVAL)))"
    by (cases "newmin < p_lim s") simp_all
  with sys_dup_spec [OF assms(1) r] show ?thesis by blast
qed

theorem dup_refines_witness:
  "kfs_inv (st1 1) \<and> room (st1 1) \<and> (\<exists>r. sys_dup (\<lambda>fp. None) (st1 1) 0 = Some r \<and> dup_spec (st1 1) 0 0 r)
    \<and> (\<exists>r. sys_fcntl (\<lambda>fp. None) (\<lambda>c. None) (st1 1) 0 (F_DUPFD 30) = Some r \<and> dup_spec (st1 1) 0 30 r)
    \<and> sys_fcntl (\<lambda>fp. None) (\<lambda>c. None) (st1 1) 0 (F_DUPFD 64) = Some (st1 1, Inl EINVAL)"
  using dup_refines [OF st1_inv(1) st1_room, where fo_close = "\<lambda>fp. None" and fo_ioctl = "\<lambda>c. None" and old = 0 and newmin = 30 and ty1 = 1]
    dup_refines [OF st1_inv(1) st1_room, where fo_close = "\<lambda>fp. None" and fo_ioctl = "\<lambda>c. None" and old = 0 and newmin = 64 and ty1 = 1]
    st1_inv [of 1] st1_room [of 1] by (simp add: st1_fields)

text \<open>
  C18. \<open>dup2\<close> returns, never reaches its panic, and makes \<open>new\<close> refer to the file of \<open>old\<close>, closing
  what \<open>new\<close> referred to: every other descriptor is as before, close-on-exec of \<open>new\<close> is clear, and the
  reference counts of all files follow the table. It fails with EBADF, changing nothing, when
  \<open>old\<close> is closed or \<open>new\<close> is at the limit; \<open>old\<close> = \<open>new\<close> changes nothing.
\<close>

theorem dup2_refines:
  assumes "kfs_inv s" "room s"
  shows "\<exists>r. sys_dup2 fo_close s old new = Some r \<and> dup2_spec s old new r"
  using sys_dup2_spec [OF assms(1)] room_max [OF assms] by blast

theorem dup2_refines_witness:
  "kfs_inv (st1 1) \<and> room (st1 1) \<and> (\<exists>r. sys_dup2 (\<lambda>fp. None) (st1 1) 0 40 = Some r \<and> dup2_spec (st1 1) 0 40 r)"
  using dup2_refines [OF st1_inv(1) st1_room, of "\<lambda>fp. None" 1 0 40] st1_inv(1) st1_room by blast

text \<open>
  C19. \<open>close\<close> returns. It frees the descriptor and drops one reference of its file; the close routine
  of the file runs, and the file leaves the list of open files, exactly when that was the last
  reference. The counts of all files keep following the table.
\<close>

theorem close_refines:
  assumes "kfs_inv s"
  shows "\<exists>r. sys_close fo_close s fd = Some r \<and> close_spec fo_close s fd r"
  using sys_close_spec [OF assms] .

theorem close_refines_witness:
  "kfs_inv (st1 1) \<and> (\<exists>r. sys_close (\<lambda>fp. Some EIO) (st1 1) 0 = Some r \<and> close_spec (\<lambda>fp. Some EIO) (st1 1) 0 r)"
  using close_refines [OF st1_inv(1), of "\<lambda>fp. Some EIO" 1 0] st1_inv(1) by blast

text \<open>
  C20. The invariant of the descriptor table holds after every sequence of descriptor calls (open, dup,
  dup2, fcntl, close, closefrom, close-on-exec and fork, on the side of the parent or of the
  child): the bitmaps, the high-water mark and the hint describe the open descriptors, every
  descriptor refers to a live file, and no file has fewer references than the table holds.
\<close>

theorem fd_reachable_inv:
  assumes "(fd_step fo_close fo_ioctl)\<^sup>*\<^sup>* s s'" "kfs_inv s"
  shows "kfs_inv s'"
  using assms by (induction rule: rtranclp_induct) (auto intro: fd_step_inv)

theorem fd_reachable_inv_witness:
  "\<exists>s'. (fd_step (\<lambda>fp. None) (\<lambda>c. None))\<^sup>*\<^sup>* (st1 1) s' \<and> kfs_inv s' \<and> tab s' 0 = None"
proof -
  obtain r where r: "sys_close (\<lambda>fp. None) (st1 1) 0 = Some r" "close_spec (\<lambda>fp. None) (st1 1) 0 r"
    using sys_close_spec [OF st1_inv(1), of "\<lambda>fp. None" 1 0] by blast
  then have st: "(fd_step (\<lambda>fp. None) (\<lambda>c. None))\<^sup>*\<^sup>* (st1 1) (fst r)"
    by (intro r_into_rtranclp fd_step.close [of _ _ 0 _ "snd r"]) simp
  with fd_reachable_inv [OF st st1_inv(1)] r(2) show ?thesis by (auto simp: close_spec_def st1_inv(2))
qed

text \<open>
  \<open>closefrom\<close> closes exactly the descriptors at or above its argument, and \<open>fdcloseexec\<close> exactly
  those marked close-on-exec; both return, and the reference counts follow the table.
\<close>

theorem close_many:
  assumes "kfs_inv s"
  shows "(\<exists>s'. fdcloseexec fo_close s = Some s' \<and> kfs_inv s' \<and> refs_kept s s' \<and>
      (\<forall>n. tab s' n = (if n < fd_nfiles (p_fd s) \<and> has_flag (fd_ofileflags (p_fd s) ! n) UF_EXCLOSE then None else tab s n)))
    \<and> (\<exists>s' e. sys_closefrom fo_close s fd = Some (s', e) \<and> kfs_inv s' \<and> refs_kept s s' \<and>
      (\<forall>n. tab s' n = (if fd \<le> n then None else tab s n)) \<and> (e = None \<or> s' = s \<and> e = Some EBADF))"
proof
  show "\<exists>s'. fdcloseexec fo_close s = Some s' \<and> kfs_inv s' \<and> refs_kept s s' \<and>
      (\<forall>n. tab s' n = (if n < fd_nfiles (p_fd s) \<and> has_flag (fd_ofileflags (p_fd s) ! n) UF_EXCLOSE then None else tab s n))"
    using closeexec_loop_ok [OF assms, of fo_close 0] by (auto simp: fdcloseexec_def)
  show "\<exists>s' e. sys_closefrom fo_close s fd = Some (s', e) \<and> kfs_inv s' \<and> refs_kept s s' \<and>
      (\<forall>n. tab s' n = (if fd \<le> n then None else tab s n)) \<and> (e = None \<or> s' = s \<and> e = Some EBADF)"
  proof (cases "fd_lastfile (p_fd s) < fd")
    case True
    then show ?thesis using assms lastfile_bound(2) [OF assms] by (auto simp: sys_closefrom_def refs_kept_refl)
  next
    case False
    with closefrom_loop_ok [OF assms, of fo_close fd] show ?thesis by (auto simp: sys_closefrom_def)
  qed
qed

theorem close_many_witness:
  "kfs_inv (st1 1) \<and> (\<exists>s' e. sys_closefrom (\<lambda>fp. None) (st1 1) 0 = Some (s', e) \<and> kfs_inv s' \<and> tab s' 0 = None)"
  using close_many [OF st1_inv(1), of "\<lambda>fp. None" 1 0] st1_inv(1) by (auto 4 4)

text \<open>
  C21. \<open>fdcopy\<close>, at fork, returns. The child's table maps the same descriptors to the same files as the
  parent's, without the event queues; every file gains as many references as the child's table holds;
  the parent's table is unchanged, and both tables satisfy the invariant.
\<close>

theorem fork_refines:
  assumes "kfs_inv s" "room s"
  shows "\<exists>s' d. fdcopy s = Some (s', d) \<and> fork_spec s s' d"
proof -
  have "\<forall>fp. f_count (k_file s fp) + int (refs s fp) \<le> F_COUNT_MAX" using assms(2) by (simp add: room_def less_imp_le)
  from fdcopy_ok [OF assms(1) this] show ?thesis by blast
qed

theorem fork_refines_witness:
  "kfs_inv (st1 1) \<and> room (st1 1) \<and> (\<exists>s' d. fdcopy (st1 1) = Some (s', d) \<and> fork_spec (st1 1) s' d)"
  using fork_refines [OF st1_inv(1) st1_room, of 1] st1_inv(1) st1_room by blast

text \<open>
  \<open>dup\<close> followed by \<open>close\<close> of the new descriptor gives back the table, the list of open files and all
  reference counts, and calls no close routine.
\<close>

theorem dup_close_roundtrip:
  assumes inv: "kfs_inv s" and rm: "room s" and dup: "sys_dup fo_close s old = Some (s1, Inr n)"
  shows "\<exists>s2. sys_close fo_close s1 n = Some (s2, None) \<and> kfs_inv s2 \<and> tab s2 = tab s
    \<and> set (filehead s2) = set (filehead s) \<and> (\<forall>fp \<in> set (filehead s). f_count (k_file s2 fp) = f_count (k_file s fp))"
proof -
  from sys_dup_spec [OF inv, of old fo_close] room_max [OF inv rm] dup obtain fp where
    fp: "tab s old = Some fp" "n = lowest s 0" "dup_ok s fp n s1"
    by (auto simp: dup_spec_def split: option.splits if_splits)
  then have s1: "kfs_inv s1" "tab s1 = (tab s)(n \<mapsto> fp)" "filehead s1 = filehead s"
    "f_count (k_file s1 fp) = f_count (k_file s fp) + 1" by (auto simp: dup_ok_def)
  have tn: "tab s n = None" using lowest_spec(2) [OF inv] fp(2) by simp
  have two: "f_count (k_file s1 fp) \<noteq> 1" using kfs_file(1,4) [OF inv fp(1)] s1(4) by (auto simp: file_ok_def)
  obtain r where r: "sys_close fo_close s1 n = Some r" "close_spec fo_close s1 n r"
    using sys_close_spec [OF s1(1)] by blast
  then have s2: "snd r = None" "kfs_inv (fst r)" "tab (fst r) = (tab s1)(n := None)" "refs_kept s1 (fst r)"
    "set (filehead (fst r)) = set (filehead s1)"
    using s1(2) two by (auto simp: close_spec_def close_errno_def)
  have t: "tab (fst r) = tab s" using s2(3) s1(2) tn by (auto simp: fun_eq_iff)
  have "refs_kept s (fst r)" using dup_ok_dup2 [OF inv tn fp(3)] s2(4) by (auto simp: dup2_ok_def intro: refs_kept_trans)
  moreover have "refs (fst r) g = refs s g" for g by (simp add: refs_tab [OF inv] refs_tab [OF s2(2)] t)
  ultimately have "\<forall>g \<in> set (filehead s). f_count (k_file (fst r) g) = f_count (k_file s g)"
    using s2(5) s1(3) by (auto simp: refs_kept_def ext_def)
  with r(1) s2 t s1(3) show ?thesis by (intro exI [of _ "fst r"]) (auto simp: prod_eq_iff)
qed

theorem dup_close_roundtrip_witness:
  "\<exists>s1 s2. sys_dup (\<lambda>fp. None) (st1 1) 0 = Some (s1, Inr 1) \<and> sys_close (\<lambda>fp. None) s1 1 = Some (s2, None)
    \<and> tab s2 = [0 \<mapsto> 0]"
proof -
  have low: "lowest (st1 1) 0 = 1" by (rule lowestI) (auto simp: st1_inv(2))
  obtain r where r: "sys_dup (\<lambda>fp. None) (st1 1) 0 = Some r" "dup_spec (st1 1) 0 0 r"
    using sys_dup_spec [OF st1_inv(1), of 1 0 "\<lambda>fp. None"] room_max [OF st1_inv(1) st1_room] by blast
  then have e: "sys_dup (\<lambda>fp. None) (st1 1) 0 = Some (fst r, Inr 1)"
    by (cases r) (simp add: dup_spec_def low st1_inv(2) st1_fields del: One_nat_def)
  from dup_close_roundtrip [OF st1_inv(1) st1_room e] e show ?thesis by (auto simp: st1_inv(2))
qed

lemma falloc_keeps_flags:
  assumes inv: "kfs_inv s" and n: "lowest s 0 < fd_nfiles (p_fd s)" "lowest s 0 < p_lim s" and nf: "nfiles s < int (maxfiles s)"
  shows "\<exists>s'. falloc s fp = Some (s', Inr (lowest s 0)) \<and> tab s' (lowest s 0) = Some fp
    \<and> fd_ofileflags (p_fd s') = fd_ofileflags (p_fd s)"
proof (cases rule: fdalloc_tab [OF inv refl refl, where want = 0, case_names full grow found])
  case (found d U)
  have len: "length (fd_ofiles d) = fd_nfiles (p_fd s)" using fd_map_len [OF found(4)] found(7) by simp
  then have "falloc s fp = Some (falloc_file (s\<lparr>p_fd := d\<rparr>) fp (lowest s 0), Inr (lowest s 0))"
    using found(1) nf n by (subst falloc.simps) auto
  with found(7,8) len n show ?thesis by (auto simp: falloc_file_def Let_def FREF_def upd_file_def call_def tab_def)
qed (use n in auto)

text \<open>
  A descriptor of an event queue that is marked close-on-exec is closed in the copy that fork makes,
  but its mark stays. When the child's next open gets that descriptor, the new file is marked
  close-on-exec, although nobody asked for it.
\<close>

theorem fork_leaves_exclose:
  assumes inv: "kfs_inv s" and rm: "room s" and kn: "fd_knlistsize (p_fd s) \<noteq> -1"
    and fp: "tab s n = Some fp" "f_type (k_file s fp) = DTYPE_KQUEUE"
    and ex: "has_flag (fd_ofileflags (p_fd s) ! n) UF_EXCLOSE"
    and fork: "fdcopy s = Some (s', d)"
  shows "tab (s'\<lparr>p_fd := d\<rparr>) n = None \<and> has_flag (fd_ofileflags d ! n) UF_EXCLOSE \<and>
    (lowest (s'\<lparr>p_fd := d\<rparr>) 0 = n \<and> n < p_lim s \<and> nfiles s < int (maxfiles s) \<longrightarrow>
      (\<exists>c. falloc (s'\<lparr>p_fd := d\<rparr>) g = Some (c, Inr n) \<and> tab c n = Some g \<and> has_flag (fd_ofileflags (p_fd c) ! n) UF_EXCLOSE))"
proof -
  let ?c = "s'\<lparr>p_fd := d\<rparr>"
  have "\<forall>fp. f_count (k_file s fp) + int (refs s fp) \<le> F_COUNT_MAX" using rm by (simp add: room_def less_imp_le)
  from fdcopy_ok [OF inv this] fork have f: "fork_spec s s' d" "nfiles s' = nfiles s" "maxfiles s' = maxfiles s"
    "fd_ofileflags d = take (copy_size (p_fd s)) (fd_ofileflags (p_fd s))" "p_lim s' = p_lim s" by auto
  have "n \<in> open_fds (p_fd s)" using fp(1) tab_open [OF kfs_shape [OF inv], of n] by simp
  then have nc: "n < copy_size (p_fd s)" using copy_size_ok(4) [OF kfs_map [OF inv]] by auto
  have inv': "kfs_inv ?c" using f(1) by (simp add: fork_spec_def)
  have len: "length (fd_ofileflags d) = fd_nfiles d" using fd_map_len(2) [OF kfs_map [OF inv']] by simp
  moreover have "length (fd_ofileflags d) = copy_size (p_fd s)"
    using f(4) copy_size_ok(3) [OF kfs_map [OF inv]] fd_map_len(2) [OF kfs_map [OF inv]] by simp
  ultimately have nf: "n < fd_nfiles d" using nc by simp
  have "tab ?c n = None" using f(1) fp kn by (simp add: fork_spec_def forked_def no_kq_def)
  moreover have fl: "has_flag (fd_ofileflags d ! n) UF_EXCLOSE" using ex nc f(4) by simp
  moreover have "\<exists>c. falloc ?c g = Some (c, Inr n) \<and> tab c n = Some g \<and> has_flag (fd_ofileflags (p_fd c) ! n) UF_EXCLOSE"
    if "lowest ?c 0 = n" "n < p_lim s" "nfiles s < int (maxfiles s)"
    using falloc_keeps_flags [OF inv', of g] that nf f fl by auto
  ultimately show ?thesis by blast
qed

definition st2 :: kfs where
  "st2 = (st1 DTYPE_KQUEUE)\<lparr>p_fd := (p_fd (st1 DTYPE_KQUEUE))\<lparr>fd_ofileflags := (replicate 20 0)[0 := UF_EXCLOSE], fd_knlistsize := 0\<rparr>\<rparr>"

lemma st2_inv: "kfs_inv st2" "room st2" "tab st2 = [0 \<mapsto> 0]"
proof -
  have "open_fds (p_fd st2) = open_fds (p_fd (st1 DTYPE_KQUEUE))" by (simp add: st2_def open_fds_def)
  then have "fd_inv {} (p_fd st2)"
    using kfs_map [OF st1_inv(1), of DTYPE_KQUEUE]
    by (simp add: fd_inv_def) (simp add: st2_def fd_map_def fd_shape_def fd_bits_def fd_marks_def st1_fields(4))
  then show "kfs_inv st2"
    by (rule kfs_inv_cong [OF st1_inv(1), of _ DTYPE_KQUEUE]) (simp_all add: st2_def)
  have "refs st2 = refs (st1 DTYPE_KQUEUE)" by (simp add: refs_def st2_def fun_eq_iff)
  then show "room st2" using st1_room [of DTYPE_KQUEUE] by (simp add: room_def) (simp add: st2_def)
  have "tab st2 = tab (st1 DTYPE_KQUEUE)" by (simp add: tab_def st2_def fun_eq_iff)
  then show "tab st2 = [0 \<mapsto> 0]" by (simp add: st1_inv(2))
qed

theorem fork_leaves_exclose_witness:
  "\<exists>s' d c. fdcopy st2 = Some (s', d) \<and> falloc (s'\<lparr>p_fd := d\<rparr>) 7 = Some (c, Inr 0) \<and> tab c 0 = Some 7
    \<and> has_flag (fd_ofileflags (p_fd c) ! 0) UF_EXCLOSE"
proof -
  have "\<forall>fp. f_count (k_file st2 fp) + int (refs st2 fp) \<le> F_COUNT_MAX" using st2_inv(2) by (simp add: room_def less_imp_le)
  from fdcopy_ok [OF st2_inv(1) this] obtain s' d where f: "fdcopy st2 = Some (s', d)" by blast
  have p: "fd_knlistsize (p_fd st2) \<noteq> -1" "f_type (k_file st2 0) = DTYPE_KQUEUE"
    "has_flag (fd_ofileflags (p_fd st2) ! 0) UF_EXCLOSE" "0 < p_lim st2" "nfiles st2 < int (maxfiles st2)"
    using st1_fields(5,7,8) [of DTYPE_KQUEUE]
    by (simp_all add: st2_def st1_fields UF_EXCLOSE_def has_flag_def p_lim_def)
  have t: "tab st2 0 = Some 0" by (simp add: st2_inv(3))
  note x = fork_leaves_exclose [OF st2_inv(1,2) p(1) t p(2,3) f, of 7]
  then have "lowest (s'\<lparr>p_fd := d\<rparr>) 0 = 0" by (intro lowestI) auto
  with x p(4,5) f show ?thesis by blast
qed

end
