(* ===== verification/Posix_Locks.thy ===== *)
theory Posix_Locks
  imports Fdesc_Steps Lockf_Owner
begin

text \<open>
  Record locks through descriptors: the lock commands of \<open>fcntl\<close> and the release of the locks by \<open>close\<close>
  (kern/kern_descrip.c), which reach the lists of an inode through the vnode operation (ufs/ufs/ufs_vnops.c). The owner of a
  POSIX lock is the descriptor table \<open>fdp\<close> of the process.
\<close>

section \<open>The calls\<close>

text \<open>What the vnode of a file gives: the list of locks and the size of its inode; and the offset of the file.\<close>

record vnodes =
  vn_lockf :: "fid \<Rightarrow> nat"
  vn_size :: "fid \<Rightarrow> int"
  vn_offset :: "fid \<Rightarrow> int"

definition ufs_advlock :: "nat \<Rightarrow> nat \<Rightarrow> lfproc \<Rightarrow> vnodes \<Rightarrow> fid \<Rightarrow> nat \<Rightarrow> lfop \<Rightarrow> flock \<Rightarrow> u_short \<Rightarrow> lfstate
    \<Rightarrow> (lfstate, lfresult \<times> flock, nat) outcome" where
  "ufs_advlock new sp p vn fp ident op fl flags st = lf_advlock new sp p (vn_lockf vn fp) (vn_size vn fp) ident op fl flags st"

text \<open>Offsets relative to the position of the file, with the case of \<open>lockf(3)\<close>.\<close>

definition seek_cur :: "int \<Rightarrow> flock \<Rightarrow> flock" where
  "seek_cur off fl =
     (if l_whence fl = 1 then
        (if l_start fl = 0 \<and> l_len fl < 0
         then let len = off_wrap (- l_len fl) in fl\<lparr>l_len := len, l_start := off_wrap (off - len)\<rparr>
         else fl\<lparr>l_start := off_wrap (l_start fl + off)\<rparr>)
      else fl)"

definition whole_file :: "flock \<Rightarrow> flock" where
  "whole_file fl = fl\<lparr>l_whence := 0, l_start := 0, l_len := 0\<rparr>"

text \<open>
  The end of F_SETLK and F_SETLKW. When the descriptor was closed or reused in the meantime the lock is given up.
  \<open>new\<close> and \<open>sp\<close> are addresses for the structures of that call.
\<close>

definition setlk_done :: "nat \<Rightarrow> nat \<Rightarrow> lfproc \<Rightarrow> nat \<Rightarrow> vnodes \<Rightarrow> kfs \<Rightarrow> nat \<Rightarrow> fid \<Rightarrow> flock \<Rightarrow> lfresult \<Rightarrow> lfstate
    \<Rightarrow> (kfs \<times> lfstate, lfresult, nat) outcome" where
  "setlk_done new sp p fdp vn s fd fp fl r st =
     (if fd_getfile s fd \<noteq> Some fp
      then (case ufs_advlock new sp p vn fp fdp OpUnlck (whole_file fl) F_POSIX st of
              Return st _ \<Rightarrow> Return (FRELE s fp, st) r | Panic m \<Rightarrow> Panic m | Sleep st w \<Rightarrow> Sleep (s, st) w)
      else Return (FRELE s fp, st) r)"

definition set_advlock :: "kfs \<Rightarrow> kfs" where
  "set_advlock s = s\<lparr>p_fd := (p_fd s)\<lparr>fd_flags := fd_flags (p_fd s) OR FD_ADVLOCK\<rparr>\<rparr>"

text \<open>
  F_SETLK, and F_SETLKW when \<open>wait\<close>. The argument is what \<open>copyin\<close> gives. The type \<open>lftype\<close> has the three types the code
  accepts; any other is EINVAL.
\<close>

definition fcntl_setlk :: "nat \<Rightarrow> nat \<Rightarrow> nat \<Rightarrow> nat \<Rightarrow> lfproc \<Rightarrow> nat \<Rightarrow> vnodes \<Rightarrow> bool \<Rightarrow> kfs \<Rightarrow> nat \<Rightarrow> errno + flock \<Rightarrow> lfstate
    \<Rightarrow> (kfs \<times> lfstate, lfresult, nat) outcome" where
  "fcntl_setlk new sp new' sp' p fdp vn wait s fd arg st =
     (case fd_getfile s fd of
        None \<Rightarrow> Return (s, st) (LfError EBADF)
      | Some fp \<Rightarrow>
          let s = FREF s fp; flg = (if wait then F_POSIX OR F_WAIT else F_POSIX) in
          if f_type (k_file s fp) \<noteq> DTYPE_VNODE then Return (FRELE s fp, st) (LfError EBADF)
          else
            (case arg of
               Inl e \<Rightarrow> Return (FRELE s fp, st) (LfError e)
             | Inr fl \<Rightarrow>
                 let fl = seek_cur (vn_offset vn fp) fl in
                 if l_type fl = F_UNLCK then
                   (case ufs_advlock new sp p vn fp fdp OpUnlck fl F_POSIX st of
                      Return st (r, _) \<Rightarrow> Return (FRELE s fp, st) r | Panic m \<Rightarrow> Panic m | Sleep st w \<Rightarrow> Sleep (s, st) w)
                 else if \<not> has_flag (f_flag (k_file s fp)) (if l_type fl = F_RDLCK then FREAD else FWRITE)
                 then Return (FRELE s fp, st) (LfError EBADF)
                 else
                   let s = set_advlock s in
                   (case ufs_advlock new sp p vn fp fdp OpSetlk fl flg st of
                      Return st (r, _) \<Rightarrow> setlk_done new' sp' p fdp vn s fd fp fl r st
                    | Panic m \<Rightarrow> Panic m | Sleep st w \<Rightarrow> Sleep (s, st) w)))"

text \<open>After the sleep in \<open>lf_setlock\<close>, which returned \<open>error\<close>.\<close>

definition fcntl_setlk_woken :: "nat \<Rightarrow> nat \<Rightarrow> nat \<Rightarrow> lfproc \<Rightarrow> nat \<Rightarrow> vnodes \<Rightarrow> kfs \<Rightarrow> nat \<Rightarrow> fid \<Rightarrow> flock \<Rightarrow> nat \<Rightarrow> errno option \<Rightarrow> lfstate
    \<Rightarrow> (kfs \<times> lfstate, lfresult, nat) outcome" where
  "fcntl_setlk_woken sp new' sp' p fdp vn s fd fp fl w error st =
     (case lf_setlock_woken sp (pr_addr p) w error st of
        Return st r \<Rightarrow> setlk_done new' sp' p fdp vn s fd fp fl r st | Panic m \<Rightarrow> Panic m | Sleep st w \<Rightarrow> Sleep (s, st) w)"

text \<open>The calls of the vnode operation that \<open>closef\<close> makes; their result is ignored.\<close>

definition close_flock :: "int \<Rightarrow> flock" where
  "close_flock pid = \<lparr>l_start = 0, l_len = 0, l_pid = pid, l_type = F_UNLCK, l_whence = 0\<rparr>"

primrec run_advlocks :: "nat \<Rightarrow> nat \<Rightarrow> lfproc \<Rightarrow> nat \<Rightarrow> vnodes \<Rightarrow> int \<Rightarrow> fdcall list \<Rightarrow> lfstate \<Rightarrow> (lfstate, unit, nat) outcome" where
  "run_advlocks new sp p fdp vn pid [] st = Return st ()"
| "run_advlocks new sp p fdp vn pid (c # cs) st =
     (case c of
        Advlock_unlock fp \<Rightarrow>
          (case ufs_advlock new sp p vn fp fdp OpUnlck (close_flock pid) F_POSIX st of
             Return st _ \<Rightarrow> run_advlocks new sp p fdp vn pid cs st | Panic m \<Rightarrow> Panic m | Sleep st w \<Rightarrow> Sleep st w)
      | _ \<Rightarrow> run_advlocks new sp p fdp vn pid cs st)"

text \<open>\<open>close\<close> with the calls it makes; \<open>pid\<close> is what the uninitialized field \<open>l_pid\<close> holds.\<close>

definition close_locks :: "(fid \<Rightarrow> errno option) \<Rightarrow> nat \<Rightarrow> nat \<Rightarrow> lfproc \<Rightarrow> nat \<Rightarrow> vnodes \<Rightarrow> int \<Rightarrow> kfs \<Rightarrow> nat \<Rightarrow> lfstate
    \<Rightarrow> (kfs \<times> errno option \<times> (lfstate, unit, nat) outcome) option" where
  "close_locks fo_close new sp p fdp vn pid s fd st =
     map_option (\<lambda>(s', e). (s', e, run_advlocks new sp p fdp vn pid (drop (length (k_calls s)) (k_calls s')) st)) (sys_close fo_close s fd)"

section \<open>The release by close\<close>

lemma locked_nonneg:
  assumes "lfinv (st, pend)" "locked st h i b = Some ty"
  shows "0 \<le> b"
proof -
  from assms(2) obtain a where a: "a \<in> set (lf_heads st h)" "covers (vw st a) b" using nth_mem by (fastforce simp: locked_def find_Some_iff)
  from view_okD(1) [OF lfinvD(1) [OF assms(1)] a(1)] a(2) show ?thesis by (auto simp: wf_rng_def covers_def)
qed

lemma unlock_all:
  assumes R: "lf_reach st pend" and y: "lf_ready new sp (pr_addr p) (st, pend)" and a: "lf_alloc new (pr_uid p) 2 st \<noteq> None"
    and fl: "l_whence fl = 0" "l_start fl = 0" "l_len fl = 0"
  shows "\<exists>st' fl'. ufs_advlock new sp p vn fp fdp OpUnlck fl flags st = Return st' (LfOk, fl')
    \<and> locked st' = (\<lambda>h i b. if h = vn_lockf vn fp \<and> i = fdp then None else locked st h i b)"
proof -
  have r: "flock_range (vn_size vn fp) fl = Some (0, - 1)" using fl by (simp add: flock_range_def)
  then have "lf_args (vn_size vn fp) OpUnlck fl" by (simp add: lf_args_def)
  from unlock_exact [OF R y this r a, of "vn_lockf vn fp" fdp flags] obtain st' fl' where
    s: "ufs_advlock new sp p vn fp fdp OpUnlck fl flags st = Return st' (LfOk, fl')"
    "locked st' = set_range (vn_lockf vn fp) fdp 0 (- 1) None (locked st)" unfolding ufs_advlock_def by blast
  have "locked st h i b = None" if "b < 0" for h i b
    using locked_nonneg [OF reach_inv [OF R], of h i b] that by (cases "locked st h i b") auto
  then show ?thesis using s by (auto simp: set_range_def in_range_def fun_eq_iff not_le)
qed

text \<open>The calls that a close makes, and the parts of the table it leaves alone.\<close>

lemma close_calls:
  assumes "kfs_inv s" "tab s fd = Some fp"
  shows "\<exists>s' e. sys_close fo_close s fd = Some (s', e) \<and> kfs_inv s' \<and> tab s' = (tab s)(fd := None) \<and> fd_flags (p_fd s') = fd_flags (p_fd s)
    \<and> (\<forall>g. f_type (k_file s' g) = f_type (k_file s g))
    \<and> run_advlocks new sp p fdp vn pid (drop (length (k_calls s)) (k_calls s')) st = run_advlocks new sp p fdp vn pid (adv_unlock s fp) st"
proof -
  from fdrelease_spec [OF assms, of fo_close] obtain d s' where r: "fdrelease fo_close s fd = Some (s', close_errno fo_close s fp)"
    "s' = drop_ref (knote_check (s\<lparr>p_fd := d\<rparr>) fd) fp" "kfs_inv s'" "tab s' = (tab s)(fd := None)" "fd_flags d = fd_flags (p_fd s)" by blast
  let ?t = "knote_check (s\<lparr>p_fd := d\<rparr>) fd"
  have t: "p_fd ?t = d" "k_file ?t = k_file s" by simp_all
  have c: "1 \<le> f_count (k_file ?t fp)" using kfs_file(1,4) [OF assms] by (auto simp: t file_ok_def)
  have a: "adv_unlock ?t fp = adv_unlock s fp" by (simp add: adv_unlock_def t r(5))
  have k: "\<exists>ks. k_calls ?t = k_calls s @ ks \<and> (\<forall>x \<in> set ks. \<forall>g. x \<noteq> Advlock_unlock g)"
    by (auto simp: knote_check_def call_def)
  then obtain ks where ks: "k_calls ?t = k_calls s @ ks" "\<And>x g. x \<in> set ks \<Longrightarrow> x \<noteq> Advlock_unlock g" by blast
  have skip: "run_advlocks new sp p fdp vn pid (ks @ l) st = run_advlocks new sp p fdp vn pid l st"
    if "\<And>x g. x \<in> set ks \<Longrightarrow> x \<noteq> Advlock_unlock g" for ks l and st :: lfstate
    using that by (induction ks) (auto split: fdcall.split)
  have tail: "run_advlocks new sp p fdp vn pid (adv_unlock s fp @ l) st = run_advlocks new sp p fdp vn pid (adv_unlock s fp) st"
    if "\<And>x g. x \<in> set l \<Longrightarrow> x \<noteq> Advlock_unlock g" for l
    using skip [OF that, of _ "[]"] by (auto simp: adv_unlock_def split: outcome.split)
  have "run_advlocks new sp p fdp vn pid (drop (length (k_calls s)) (k_calls s')) st = run_advlocks new sp p fdp vn pid (adv_unlock s fp) st"
    unfolding r(2) drop_ref_calls [OF c] a ks(1) by (auto simp: skip [OF ks(2)] intro!: tail)
  moreover have "f_type (k_file s' g) = f_type (k_file s g)" for g by (simp add: r(2) drop_ref_def t)
  moreover have "fd_flags (p_fd s') = fd_flags (p_fd s)" by (simp add: r(2) drop_ref_def t r(5))
  ultimately show ?thesis using r(1,3,4) assms by (auto simp: sys_close_def fd_getfile_tab)
qed

lemma close_unlocks:
  assumes "kfs_inv s" "lf_reach st pend" "tab s fd = Some fp" "f_type (k_file s fp) = DTYPE_VNODE" "has_flag (fd_flags (p_fd s)) FD_ADVLOCK"
    and "lf_ready new sp (pr_addr p) (st, pend)" "lf_alloc new (pr_uid p) 2 st \<noteq> None"
  shows "\<exists>s' e st'. close_locks fo_close new sp p fdp vn pid s fd st = Some (s', e, Return st' ())
    \<and> kfs_inv s' \<and> tab s' = (tab s)(fd := None)
    \<and> locked st' = (\<lambda>h i b. if h = vn_lockf vn fp \<and> i = fdp then None else locked st h i b)"
proof -
  from close_calls [OF assms(1,3), where fo_close = fo_close and new = new and sp = sp and p = p and fdp = fdp and vn = vn and pid = pid and st = st]
  obtain s' e where c: "sys_close fo_close s fd = Some (s', e)" "kfs_inv s'" "tab s' = (tab s)(fd := None)"
    "run_advlocks new sp p fdp vn pid (drop (length (k_calls s)) (k_calls s')) st = run_advlocks new sp p fdp vn pid (adv_unlock s fp) st" by blast
  have "l_whence (close_flock pid) = 0" "l_start (close_flock pid) = 0" "l_len (close_flock pid) = 0" by (simp_all add: close_flock_def)
  from unlock_all [OF assms(2,6,7) this, of vn fp fdp F_POSIX] obtain st' fl' where
    "ufs_advlock new sp p vn fp fdp OpUnlck (close_flock pid) F_POSIX st = Return st' (LfOk, fl')"
    "locked st' = (\<lambda>h i b. if h = vn_lockf vn fp \<and> i = fdp then None else locked st h i b)" by blast
  then show ?thesis using c assms(4,5) by (simp add: close_locks_def adv_unlock_def)
qed

text \<open>
  The result of the unlock in \<open>closef\<close> is ignored. A user other than root above the limit of \<open>lf_alloc\<close> for unlocks gets ENOLCK, so
  the descriptor is closed and all locks stay.
\<close>

lemma close_keeps_locks:
  assumes "kfs_inv s" "tab s fd = Some fp" "pr_uid p \<noteq> 0" "ui_lockcnt st (pr_uid p) > 2 * maxlocksperuid"
  shows "\<exists>s' e. close_locks fo_close new sp p fdp vn pid s fd st = Some (s', e, Return st ()) \<and> tab s' = (tab s)(fd := None)"
proof -
  have "lf_alloc new (pr_uid p) 2 st = None" using assms(3,4) by (simp add: lf_alloc_def)
  then have "\<exists>r. ufs_advlock new sp p vn fp fdp OpUnlck (close_flock pid) F_POSIX st = Return st r"
    unfolding ufs_advlock_def by (intro advlock_refused) simp
  then have "run_advlocks new sp p fdp vn pid (adv_unlock s fp) st = Return st ()" by (auto simp: adv_unlock_def)
  with close_calls [OF assms(1,2), where fo_close = fo_close and new = new and sp = sp and p = p and fdp = fdp and vn = vn and pid = pid and st = st]
  show ?thesis by (auto simp: close_locks_def)
qed

section \<open>Closing a file that a call uses\<close>

lemma drop_ref_FREF: "g \<noteq> fp \<Longrightarrow> drop_ref (FREF t fp) g = FREF (drop_ref t g) fp"
  by (simp add: drop_ref_def FREF_def upd_file_def adv_unlock_def fun_upd_twist)

text \<open>\<open>closef\<close> while a call uses the file \<open>fp\<close>: the last reference to that file is not dropped until the call has ended.\<close>

lemma closef_in_use:
  assumes "FILE_IS_USABLE (k_file t g)" "f_usecount (k_file t g) = 0" "1 \<le> f_count (k_file t g)"
    and c: "closef fo_close True (FREF (FREF t fp) g) (Some g) = Some (s', e)"
  shows "s' = FREF (drop_ref t g) fp \<and> e = close_errno fo_close t g \<and> (g = fp \<longrightarrow> 1 < f_count (k_file t g))"
proof (cases "g = fp")
  case False
  then have k: "k_file (FREF t fp) g = k_file t g" by (simp add: FREF_def upd_file_def)
  with assms(1-3) closef_eq [of "FREF t fp" g fo_close] c False
  have "s' = drop_ref (FREF t fp) g" "e = close_errno fo_close (FREF t fp) g" by simp_all
  then show ?thesis using drop_ref_FREF [OF False] False k by (simp add: close_errno_def)
next
  case True
  have w: "\<not> has_flag (f_iflags (k_file t g)) FIF_WANTCLOSE" using assms(1) by (rule usable_flags)
  show ?thesis
  proof (cases "f_count (k_file t g) > 1")
    case count: True
    with w assms(2) c True show ?thesis
      by (cases t; cases "k_file t g")
        (auto simp: closef_def FREF_def FRELE_def upd_file_def call_def drop_ref_def adv_unlock_def close_errno_def Let_def)
  next
    case False
    then have "f_count (k_file t g) = 1" using assms(3) by simp
    with w assms(2) c True show ?thesis by (simp add: closef_def FREF_def upd_file_def Let_def)
  qed
qed

lemma close_in_use:
  assumes inv: "kfs_inv s" and c: "sys_close fo_close (FREF s fp) n = Some (s', e)"
  shows "\<exists>s1. sys_close fo_close s n = Some (s1, e) \<and> s' = FREF s1 fp
    \<and> (FILE_IS_USABLE (k_file s fp) \<longrightarrow> FILE_IS_USABLE (k_file s1 fp))"
proof (cases "tab s n")
  have g: "fd_getfile (FREF s fp) n = fd_getfile s n"
    by (auto simp: fd_getfile_def FREF_def upd_file_def FILE_IS_USABLE_def split: option.split)
  {
    case None
    then show ?thesis using c g inv by (simp add: sys_close_def fd_getfile_tab)
  next
    case (Some f)
    note k = kfs_file [OF inv Some]
    have len: "length (fd_ofiles (p_fd s)) = fd_nfiles (p_fd s)" using kfs_shape [OF inv] by (simp add: fd_shape_def)
    obtain d where d: "fd_unused ((p_fd s)\<lparr>fd_ofiles := (fd_ofiles (p_fd s))[n := None],
      fd_ofileflags := (fd_ofileflags (p_fd s))[n := 0]\<rparr>) n = Some d" using unlink_fd [OF inv Some] by blast
    define t where "t = knote_check (s\<lparr>p_fd := d\<rparr>) n"
    have tf: "FILE_IS_USABLE (k_file t f)" "f_usecount (k_file t f) = 0" "1 \<le> f_count (k_file t f)" "k_file t = k_file s"
      using k(1,4) by (auto simp: t_def file_ok_def)
    have fp: "p_fd (FREF u x) = p_fd u" for u x by (simp add: FREF_def upd_file_def)
    have r: "sys_close fo_close (FREF s fp) n = closef fo_close True (FREF (FREF t fp) f) (Some f)"
      "sys_close fo_close s n = closef fo_close True (FREF t f) (Some f)"
      using Some g inv k(2,3) len d
      by (simp_all add: sys_close_def fd_getfile_tab fdrelease_def Let_def fp FREF_p_fd knote_check_FREF t_def)
    from closef_in_use [OF tf(1-3), of fo_close fp s' e] c r(1)
    have s': "s' = FREF (drop_ref t f) fp" "e = close_errno fo_close t f" "f = fp \<longrightarrow> 1 < f_count (k_file t f)" by simp_all
    have "FILE_IS_USABLE (k_file (drop_ref t f) fp)" if "FILE_IS_USABLE (k_file s fp)"
      using that s'(3) tf(4) by (auto simp: drop_ref_def FILE_IS_USABLE_def)
    then show ?thesis using r(2) closef_eq [OF tf(1-3)] s' by simp
  }
qed

section \<open>Locks and open descriptors\<close>

text \<open>The process may hold locks on the inode with list \<open>h\<close>: it has the flag, and a descriptor for the inode.\<close>

definition may_hold :: "vnodes \<Rightarrow> kfs \<Rightarrow> nat \<Rightarrow> bool" where
  "may_hold vn s h \<longleftrightarrow> has_flag (fd_flags (p_fd s)) FD_ADVLOCK
     \<and> (\<exists>n fp. tab s n = Some fp \<and> f_type (k_file s fp) = DTYPE_VNODE \<and> vn_lockf vn fp = h)"

text \<open>
  The states: the descriptors of the process, the locks, the pending requests of all processes, and the descriptor, file and
  argument of the lock command the process waits in.
\<close>

type_synonym plstate = "kfs \<times> lfstate \<times> (nat \<rightharpoonup> nat) \<times> (nat \<times> fid \<times> flock) option"

datatype pl_event =
    PlSetlk nat nat nat nat bool nat "errno + flock"
  | PlWake nat nat nat "errno option"
  | PlClose lfproc nat nat int nat
  | PlOther lf_event

definition setlk_args :: "vnodes \<Rightarrow> kfs \<Rightarrow> nat \<Rightarrow> errno + flock \<Rightarrow> bool" where
  "setlk_args vn s fd arg \<longleftrightarrow> (case fd_getfile s fd of None \<Rightarrow> True | Some fp \<Rightarrow> (case arg of Inl e \<Rightarrow> True
     | Inr fl \<Rightarrow> let fl = seek_cur (vn_offset vn fp) fl in lf_args (vn_size vn fp) (if l_type fl = F_UNLCK then OpUnlck else OpSetlk) fl))"

text \<open>
  When the descriptor was closed or reused while the lock command waited, the unlock that follows finds fresh addresses and a structure.
\<close>

definition race_ready :: "lfproc \<Rightarrow> nat \<Rightarrow> nat \<Rightarrow> kfs \<Rightarrow> nat \<Rightarrow> fid \<Rightarrow> (nat \<rightharpoonup> nat) \<Rightarrow> (lfstate, lfresult, nat) outcome \<Rightarrow> bool" where
  "race_ready p new sp s fd fp pend r \<longleftrightarrow> fd_getfile s fd \<noteq> Some fp \<longrightarrow>
     (case r of Return st _ \<Rightarrow> lf_ready new sp (pr_addr p) (st, pend) \<and> lf_alloc new (pr_uid p) 2 st \<noteq> None | _ \<Rightarrow> True)"

text \<open>
  The steps: lock commands of one thread, closes by any thread of the process, also while the lock command waits, and any steps of other
  processes for other owners, in any order. A close and the unlock after a lost race find a structure for their request. A close that has to
  wait until the lock command no longer uses the file (\<open>closef\<close> at the last reference) is not a step before that.
\<close>

inductive pl_step :: "lfproc \<Rightarrow> nat \<Rightarrow> vnodes \<Rightarrow> (fid \<Rightarrow> errno option) \<Rightarrow> plstate \<Rightarrow> pl_event \<Rightarrow> plstate \<Rightarrow> bool"
  for p fdp vn fo_close where
  set_returns: "lf_ready new sp (pr_addr p) (st, pend) \<Longrightarrow> setlk_args vn s fd arg
    \<Longrightarrow> fcntl_setlk new sp new' sp' p fdp vn wait s fd arg st = Return (s', st') r
    \<Longrightarrow> pl_step p fdp vn fo_close (s, st, pend, None) (PlSetlk new sp new' sp' wait fd arg) (s', st', pend, None)"
| set_sleeps: "lf_ready new sp (pr_addr p) (st, pend) \<Longrightarrow> setlk_args vn s fd (Inr fl) \<Longrightarrow> fd_getfile s fd = Some fp
    \<Longrightarrow> fcntl_setlk new sp new' sp' p fdp vn wait s fd (Inr fl) st = Sleep (s', st') w
    \<Longrightarrow> pl_step p fdp vn fo_close (s, st, pend, None) (PlSetlk new sp new' sp' wait fd (Inr fl)) (s', st', pend(pr_addr p \<mapsto> w), Some (fd, fp, fl))"
| woken_returns: "pend (pr_addr p) = Some w \<Longrightarrow> p_wchan st (pr_addr p) = None \<Longrightarrow> unused st pend sp
    \<Longrightarrow> race_ready p new' sp' s fd fp (pend(pr_addr p := None)) (lf_setlock_woken sp (pr_addr p) w error st)
    \<Longrightarrow> fcntl_setlk_woken sp new' sp' p fdp vn s fd fp fl w error st = Return (s', st') r
    \<Longrightarrow> pl_step p fdp vn fo_close (s, st, pend, Some (fd, fp, fl)) (PlWake sp new' sp' error) (s', st', pend(pr_addr p := None), None)"
| woken_sleeps: "pend (pr_addr p) = Some w \<Longrightarrow> p_wchan st (pr_addr p) = None \<Longrightarrow> unused st pend sp
    \<Longrightarrow> race_ready p new' sp' s fd fp (pend(pr_addr p := None)) (lf_setlock_woken sp (pr_addr p) w error st)
    \<Longrightarrow> fcntl_setlk_woken sp new' sp' p fdp vn s fd fp fl w error st = Sleep (s', st') w'
    \<Longrightarrow> pl_step p fdp vn fo_close (s, st, pend, Some (fd, fp, fl)) (PlWake sp new' sp' error) (s', st', pend(pr_addr p \<mapsto> w'), Some (fd, fp, fl))"
| close: "lf_ready new sp (pr_addr q) (st, pend) \<Longrightarrow> lf_alloc new (pr_uid q) 2 st \<noteq> None
    \<Longrightarrow> close_locks fo_close new sp q fdp vn pid s fd st = Some (s', e, Return st' ())
    \<Longrightarrow> pl_step p fdp vn fo_close (s, st, pend, blk) (PlClose q new sp pid fd) (s', st', pend, blk)"
| other: "lf_step (st, pend) e (st', pend') \<Longrightarrow> lf_other (pr_addr p) fdp e
    \<Longrightarrow> pl_step p fdp vn fo_close (s, st, pend, blk) (PlOther e) (s, st', pend', blk)"

text \<open>The table between calls, with the file that a waiting lock command uses.\<close>

definition in_use :: "(nat \<times> fid \<times> flock) option \<Rightarrow> kfs \<Rightarrow> kfs" where
  "in_use blk s = (case blk of None \<Rightarrow> s | Some (fd, fp, fl) \<Rightarrow> FREF s fp)"

definition use_ok :: "(nat \<times> fid \<times> flock) option \<Rightarrow> kfs \<Rightarrow> bool" where
  "use_ok blk s \<longleftrightarrow> kfs_inv s \<and> (case blk of None \<Rightarrow> True | Some (fd, fp, fl) \<Rightarrow> FILE_IS_USABLE (k_file s fp)
     \<and> f_type (k_file s fp) = DTYPE_VNODE \<and> has_flag (fd_flags (p_fd s)) FD_ADVLOCK)"

definition owned :: "nat \<Rightarrow> vnodes \<Rightarrow> kfs \<Rightarrow> lfstate \<Rightarrow> bool" where
  "owned fdp vn s st \<longleftrightarrow> (\<forall>h b. locked st h fdp b \<noteq> None \<longrightarrow> may_hold vn s h)"

definition blocked_ok :: "lfproc \<Rightarrow> nat \<Rightarrow> vnodes \<Rightarrow> lfstate \<Rightarrow> (nat \<rightharpoonup> nat) \<Rightarrow> (nat \<times> fid \<times> flock) option \<Rightarrow> bool" where
  "blocked_ok p fdp vn st pend blk = (case blk of
       None \<Rightarrow> pend (pr_addr p) = None
     | Some (fd, fp, fl) \<Rightarrow> (\<exists>w. pend (pr_addr p) = Some w \<and> lf_id (lf_mem st w) = fdp \<and> lf_head (lf_mem st w) = vn_lockf vn fp))"

definition plinv :: "lfproc \<Rightarrow> nat \<Rightarrow> vnodes \<Rightarrow> plstate \<Rightarrow> bool" where
  "plinv p fdp vn = (\<lambda>(s, st, pend, blk). lf_reach st pend \<and> foreign (pr_addr p) fdp st pend \<and> owned fdp vn s st
     \<and> (\<exists>s0. s = in_use blk s0 \<and> use_ok blk s0) \<and> blocked_ok p fdp vn st pend blk)"

lemma FREF_fields [simp]: "p_fd (FREF s fp) = p_fd s" "tab (FREF s fp) = tab s" "f_type (k_file (FREF s fp) g) = f_type (k_file s g)"
  by (simp_all add: FREF_def upd_file_def tab_def fun_eq_iff)

lemma may_hold_FREF [simp]: "may_hold vn (FREF s fp) h = may_hold vn s h"
  by (simp add: may_hold_def)

lemma has_advlock: "has_flag (x OR FD_ADVLOCK) FD_ADVLOCK"
proof -
  have "(x OR FD_ADVLOCK) AND FD_ADVLOCK = FD_ADVLOCK" by (simp add: bit_eq_iff bit_simps)
  then show ?thesis by (simp add: has_flag_def FD_ADVLOCK_def)
qed

lemma set_advlock_fields [simp]: "tab (set_advlock s) = tab s" "k_file (set_advlock s) = k_file s"
  "has_flag (fd_flags (p_fd (set_advlock s))) FD_ADVLOCK" "set_advlock (FREF s fp) = FREF (set_advlock s) fp"
  by (simp_all add: set_advlock_def tab_def has_advlock fun_eq_iff FREF_def upd_file_def)

lemma fd_inv_advlock: "fd_inv U (d\<lparr>fd_flags := x\<rparr>) = fd_inv U d"
  by (simp add: fd_inv_def fd_map_def fd_shape_def fd_bits_def fd_marks_def open_fds_def)

lemma set_advlock_inv: "kfs_inv (set_advlock s) = kfs_inv s"
  by (simp add: kfs_inv_def set_advlock_def fd_inv_advlock p_lim_def file_ok_def refs_def)

lemma may_hold_mono: "may_hold vn s h \<Longrightarrow> may_hold vn (set_advlock s) h"
  by (auto simp: may_hold_def)

lemma may_hold_set: "tab s fd = Some fp \<Longrightarrow> f_type (k_file s fp) = DTYPE_VNODE \<Longrightarrow> may_hold vn (set_advlock s) (vn_lockf vn fp)"
  by (auto simp: may_hold_def)

lemma FREF_getfile: "kfs_inv s \<Longrightarrow> fd_getfile (FREF s fp) fd = tab s fd"
  using fd_getfile_tab [of s fd] by (auto simp: fd_getfile_def FREF_def upd_file_def FILE_IS_USABLE_def split: if_splits option.splits)

lemma in_use_frame [simp]: "may_hold vn (in_use blk s) h = may_hold vn s h" "k_calls (in_use blk s) = k_calls s"
  by (simp_all add: in_use_def FREF_def upd_file_def may_hold_FREF [unfolded FREF_def upd_file_def] split: option.split)

lemma owned_in_use [simp]: "owned fdp vn (in_use blk s) st = owned fdp vn s st"
  by (simp add: owned_def)

lemma FRELE_getfile: "kfs_inv s \<Longrightarrow> tab s fd = Some fp \<Longrightarrow> FRELE (FREF s fp) fp = s"
  using kfs_file(1) [of s fd fp] by (simp add: FRELE_FREF file_ok_def)

lemma setlk_done_open: "kfs_inv s \<Longrightarrow> tab s fd = Some fp \<Longrightarrow> setlk_done new sp p fdp vn (FREF s fp) fd fp fl r st = Return (s, st) r"
  by (simp add: setlk_done_def FREF_getfile FRELE_getfile)

text \<open>The calls of the process itself.\<close>

lemma own_requests:
  assumes R: "lf_reach st pend" and y: "lf_ready new sp (pr_addr q) (st, pend)" "lf_args (vn_size vn fp) op fl"
    and c: "ufs_advlock new sp q vn fp fdp op fl flags st = Return st' x"
  shows "touch (vn_lockf vn fp) fdp (ran pend) st st'"
    "w \<in> ran pend \<Longrightarrow> lf_id (lf_mem st' w) = lf_id (lf_mem st w) \<and> lf_head (lf_mem st' w) = lf_head (lf_mem st w)"
proof -
  have a: "lf_advlock new sp q (vn_lockf vn fp) (vn_size vn fp) fdp op fl flags st = Return st' x" using c by (simp add: ufs_advlock_def)
  have "touches (vn_lockf vn fp) fdp (ran pend) new st (Return st' x)"
    using advlock_touch [OF reach_inv [OF R(1)], of new sp "vn_size vn fp" op fl "vn_lockf vn fp" fdp q flags] y a by (simp add: lf_ready_def)
  then show t: "touch (vn_lockf vn fp) fdp (ran pend) st st'" by (simp add: touches_def)
  show "w \<in> ran pend \<Longrightarrow> lf_id (lf_mem st' w) = lf_id (lf_mem st w) \<and> lf_head (lf_mem st' w) = lf_head (lf_mem st w)"
    using touchD(2,3) [OF t] by simp
qed

lemma other_returns:
  assumes R: "lf_reach st pend" "foreign me fdp st pend" and y: "lf_ready new sp (pr_addr q) (st, pend)" "lf_args (vn_size vn fp) op fl"
    and c: "ufs_advlock new sp q vn fp fdp op fl flags st = Return st' x"
  shows "lf_reach st' pend" "foreign me fdp st' pend"
proof -
  have a: "lf_advlock new sp q (vn_lockf vn fp) (vn_size vn fp) fdp op fl flags st = Return st' x" using c by (simp add: ufs_advlock_def)
  show "lf_reach st' pend" by (rule reach_step [OF R(1) call_returns [OF y a]])
  show "foreign me fdp st' pend" by (rule foreign_touch [OF R(2) own_requests(1) [OF R(1) y c] order_refl])
qed

lemma own_returns:
  assumes R: "lf_reach st pend" "foreign (pr_addr p) fdp st pend" and y: "lf_ready new sp (pr_addr p) (st, pend)" "lf_args (vn_size vn fp) op fl"
    and c: "ufs_advlock new sp p vn fp fdp op fl flags st = Return st' x"
  shows "lf_reach st' pend" "foreign (pr_addr p) fdp st' pend" "h \<noteq> vn_lockf vn fp \<Longrightarrow> locked st' h fdp b = locked st h fdp b"
  using other_returns [OF R y c] touchD(1) [OF own_requests(1) [OF R(1) y c]] by simp_all

lemma own_sleeps:
  assumes R: "lf_reach st pend" "foreign (pr_addr p) fdp st pend" and y: "lf_ready new sp (pr_addr p) (st, pend)" "lf_args (vn_size vn fp) op fl"
    and c: "ufs_advlock new sp p vn fp fdp op fl flags st = Sleep st' w"
  shows "lf_reach st' (pend(pr_addr p \<mapsto> w))" "foreign (pr_addr p) fdp st' (pend(pr_addr p \<mapsto> w))"
    "h \<noteq> vn_lockf vn fp \<Longrightarrow> locked st' h fdp b = locked st h fdp b" "lf_id (lf_mem st' w) = fdp" "lf_head (lf_mem st' w) = vn_lockf vn fp"
proof -
  have a: "lf_advlock new sp p (vn_lockf vn fp) (vn_size vn fp) fdp op fl flags st = Sleep st' w" using c by (simp add: ufs_advlock_def)
  show "lf_reach st' (pend(pr_addr p \<mapsto> w))" by (rule reach_step [OF R(1) call_sleeps [OF y a]])
  have t: "touch (vn_lockf vn fp) fdp (ran pend) st st'" and "lf_id (lf_mem st' w) = fdp" "lf_head (lf_mem st' w) = vn_lockf vn fp"
    using advlock_touch [OF reach_inv [OF R(1)], of new sp "vn_size vn fp" op fl "vn_lockf vn fp" fdp p flags] y a
    by (auto simp: lf_ready_def touches_def)
  then show "lf_id (lf_mem st' w) = fdp" "lf_head (lf_mem st' w) = vn_lockf vn fp" by simp_all
  show "h \<noteq> vn_lockf vn fp \<Longrightarrow> locked st' h fdp b = locked st h fdp b" using touchD(1) [OF t] by simp
  have "foreign (pr_addr p) fdp st' (pend(pr_addr p := None))" by (rule foreign_clear [OF foreign_touch [OF R(2) t order_refl]])
  then show "foreign (pr_addr p) fdp st' (pend(pr_addr p \<mapsto> w))" by (rule foreign_set) simp
qed

lemma own_unlock:
  assumes "lf_reach st pend" "lf_ready new sp (pr_addr p) (st, pend)" "lf_args (vn_size vn fp) OpUnlck fl"
  shows "\<exists>st' x. ufs_advlock new sp p vn fp fdp OpUnlck fl flags st = Return st' x
    \<and> (\<forall>h b. locked st' h fdp b \<noteq> None \<longrightarrow> locked st h fdp b \<noteq> None)"
proof (cases "\<exists>start en. flock_range (vn_size vn fp) fl = Some (start, en) \<and> lf_alloc new (pr_uid p) 2 st \<noteq> None")
  case True
  then obtain start en where r: "flock_range (vn_size vn fp) fl = Some (start, en)" "lf_alloc new (pr_uid p) 2 st \<noteq> None" by blast
  from unlock_exact [OF assms(1-3) r, of "vn_lockf vn fp" fdp flags] obtain st' fl' where
    s: "lf_advlock new sp p (vn_lockf vn fp) (vn_size vn fp) fdp OpUnlck fl flags st = Return st' (LfOk, fl')"
    "locked st' = set_range (vn_lockf vn fp) fdp start en None (locked st)" by blast
  have "\<forall>h b. locked st' h fdp b \<noteq> None \<longrightarrow> locked st h fdp b \<noteq> None" unfolding s(2) by (simp add: set_range_def)
  then show ?thesis using s(1) by (simp add: ufs_advlock_def)
next
  case False
  then obtain x where "lf_advlock new sp p (vn_lockf vn fp) (vn_size vn fp) fdp OpUnlck fl flags st = Return st x"
    using advlock_refused [of "vn_size vn fp" fl OpUnlck st "vn_lockf vn fp" new p sp fdp flags] by auto
  then show ?thesis by (simp add: ufs_advlock_def)
qed

lemma owned_more:
  assumes "owned fdp vn s st" "\<And>h. may_hold vn s h \<Longrightarrow> may_hold vn s' h" "may_hold vn s' (vn_lockf vn fp)"
    and "\<And>h b. h \<noteq> vn_lockf vn fp \<Longrightarrow> locked st' h fdp b = locked st h fdp b"
  shows "owned fdp vn s' st'"
  unfolding owned_def
proof (intro allI impI)
  fix h b assume "locked st' h fdp b \<noteq> None"
  then show "may_hold vn s' h" using assms by (cases "h = vn_lockf vn fp") (auto simp: owned_def)
qed

section \<open>Every step keeps the invariant\<close>

text \<open>The ways through F_SETLK with an open descriptor.\<close>

definition setlk_locks :: "kfs \<Rightarrow> fid \<Rightarrow> flock \<Rightarrow> bool" where
  "setlk_locks s fp fl \<longleftrightarrow> f_type (k_file s fp) = DTYPE_VNODE \<and> l_type fl \<noteq> F_UNLCK
     \<and> has_flag (f_flag (k_file s fp)) (if l_type fl = F_RDLCK then FREAD else FWRITE)"

lemma FREF_flag [simp]: "f_flag (k_file (FREF s fp) g) = f_flag (k_file s g)"
  by (simp add: FREF_def upd_file_def)

lemma setlk_locking:
  assumes "kfs_inv s" "tab s fd = Some fp" "setlk_locks s fp (seek_cur (vn_offset vn fp) fl)"
  shows "fcntl_setlk new sp new' sp' p fdp vn wait s fd (Inr fl) st =
    (case ufs_advlock new sp p vn fp fdp OpSetlk (seek_cur (vn_offset vn fp) fl) (if wait then F_POSIX OR F_WAIT else F_POSIX) st of
       Return st (r, _) \<Rightarrow> Return (set_advlock s, st) r | Panic m \<Rightarrow> Panic m | Sleep st w \<Rightarrow> Sleep (FREF (set_advlock s) fp, st) w)"
  using assms setlk_done_open [of "set_advlock s" fd fp]
  by (simp add: fcntl_setlk_def fd_getfile_tab Let_def setlk_locks_def set_advlock_inv split: outcome.split)

lemma setlk_not_locking:
  assumes "kfs_inv s" "\<And>fp fl. tab s fd = Some fp \<Longrightarrow> arg = Inr fl \<Longrightarrow> \<not> setlk_locks s fp (seek_cur (vn_offset vn fp) fl)"
  shows "(\<exists>r. fcntl_setlk new sp new' sp' p fdp vn wait s fd arg st = Return (s, st) r)
    \<or> (\<exists>fp fl. tab s fd = Some fp \<and> arg = Inr fl \<and> l_type (seek_cur (vn_offset vn fp) fl) = F_UNLCK
        \<and> fcntl_setlk new sp new' sp' p fdp vn wait s fd arg st =
          (case ufs_advlock new sp p vn fp fdp OpUnlck (seek_cur (vn_offset vn fp) fl) F_POSIX st of
             Return st (r, _) \<Rightarrow> Return (s, st) r | Panic m \<Rightarrow> Panic m | Sleep st w \<Rightarrow> Sleep (FREF s fp, st) w))"
proof (cases "tab s fd")
  case None
  then show ?thesis using assms(1) by (simp add: fcntl_setlk_def fd_getfile_tab)
next
  case (Some fp)
  note F = FRELE_getfile [OF assms(1) Some]
  show ?thesis
  proof (cases arg)
    case (Inl e)
    then show ?thesis using assms(1) Some by (simp add: fcntl_setlk_def fd_getfile_tab Let_def F)
  next
    case (Inr fl)
    show ?thesis
    proof (cases "f_type (k_file s fp) = DTYPE_VNODE \<and> l_type (seek_cur (vn_offset vn fp) fl) = F_UNLCK")
      case True
      then show ?thesis using assms(1) Some Inr
        by (intro disjI2) (simp add: fcntl_setlk_def fd_getfile_tab Let_def F split: outcome.split prod.split)
    next
      case False
      then show ?thesis using assms(1) assms(2) [OF Some Inr] Some Inr
        by (auto simp: fcntl_setlk_def fd_getfile_tab Let_def F setlk_locks_def)
    qed
  qed
qed

lemma plinv_idle:
  "plinv p fdp vn (s, st, pend, None) \<longleftrightarrow> lf_reach st pend \<and> foreign (pr_addr p) fdp st pend \<and> owned fdp vn s st \<and> kfs_inv s \<and> pend (pr_addr p) = None"
  by (auto simp: plinv_def blocked_ok_def in_use_def use_ok_def)

lemma set_returns_inv:
  assumes I: "plinv p fdp vn (s, st, pend, None)" and y: "lf_ready new sp (pr_addr p) (st, pend)" "setlk_args vn s fd arg"
    and c: "fcntl_setlk new sp new' sp' p fdp vn wait s fd arg st = Return (s', st') r"
  shows "plinv p fdp vn (s', st', pend, None)"
proof (cases "\<exists>fp fl. tab s fd = Some fp \<and> arg = Inr fl \<and> setlk_locks s fp (seek_cur (vn_offset vn fp) fl)")
  case True
  note J = I [unfolded plinv_idle]
  from True obtain fp fl where t: "tab s fd = Some fp" "arg = Inr fl" "setlk_locks s fp (seek_cur (vn_offset vn fp) fl)" by blast
  let ?fl = "seek_cur (vn_offset vn fp) fl"
  have a: "lf_args (vn_size vn fp) OpSetlk ?fl" using y(2) t J by (simp add: setlk_args_def fd_getfile_tab Let_def setlk_locks_def)
  from c setlk_locking [of s fd fp vn fl] t J obtain x where
    u: "ufs_advlock new sp p vn fp fdp OpSetlk ?fl (if wait then F_POSIX OR F_WAIT else F_POSIX) st = Return st' x" "s' = set_advlock s"
    by (auto split: outcome.splits)
  note O = own_returns [OF _ _ y(1) a u(1)]
  have "owned fdp vn s' st'" unfolding u(2)
    by (rule owned_more [of fdp vn s st _ fp]) (use J O may_hold_mono may_hold_set [OF t(1)] t(3) in \<open>auto simp: setlk_locks_def\<close>)
  then show ?thesis using J O by (simp add: plinv_idle u(2) set_advlock_inv)
next
  case False
  note J = I [unfolded plinv_idle]
  from setlk_not_locking [of s fd arg vn new sp new' sp' p fdp wait st] False J c
  consider "s' = s" "st' = st" | fp fl where "tab s fd = Some fp" "arg = Inr fl" "l_type (seek_cur (vn_offset vn fp) fl) = F_UNLCK"
      "(case ufs_advlock new sp p vn fp fdp OpUnlck (seek_cur (vn_offset vn fp) fl) F_POSIX st of
             Return st (r, _) \<Rightarrow> Return (s, st) r | Panic m \<Rightarrow> Panic m | Sleep st w \<Rightarrow> Sleep (FREF s fp, st) w) = Return (s', st') r" by auto
  then show ?thesis
  proof cases
    case 2
    let ?fl = "seek_cur (vn_offset vn fp) fl"
    have a: "lf_args (vn_size vn fp) OpUnlck ?fl" using y(2) 2 J by (simp add: setlk_args_def fd_getfile_tab Let_def)
    from own_unlock [OF conjunct1 [OF J] y(1) a, of fdp F_POSIX] 2(4) obtain x where
      u: "ufs_advlock new sp p vn fp fdp OpUnlck ?fl F_POSIX st = Return st' x" "s' = s"
      "\<And>h b. locked st' h fdp b \<noteq> None \<Longrightarrow> locked st h fdp b \<noteq> None" by (auto split: prod.splits)
    have "owned fdp vn s st'" using J u(3) unfolding owned_def by blast
    then show ?thesis using J own_returns(1,2) [OF _ _ y(1) a u(1)] by (simp add: plinv_idle u(2))
  qed (use I in simp)
qed

lemma set_sleeps_inv:
  assumes I: "plinv p fdp vn (s, st, pend, None)" and y: "lf_ready new sp (pr_addr p) (st, pend)" "setlk_args vn s fd (Inr fl)"
    and f: "fd_getfile s fd = Some fp" and c: "fcntl_setlk new sp new' sp' p fdp vn wait s fd (Inr fl) st = Sleep (s', st') w"
  shows "plinv p fdp vn (s', st', pend(pr_addr p \<mapsto> w), Some (fd, fp, fl))"
proof -
  note J = I [unfolded plinv_idle]
  let ?fl = "seek_cur (vn_offset vn fp) fl"
  have t: "tab s fd = Some fp" using f J by (simp add: fd_getfile_tab)
  have L: "setlk_locks s fp ?fl"
  proof (rule ccontr)
    assume "\<not> setlk_locks s fp ?fl"
    then have n: "\<not> setlk_locks s fp' (seek_cur (vn_offset vn fp') fl')" if "tab s fd = Some fp'" "Inr fl = (Inr fl' :: errno + flock)" for fp' fl'
      using that t by simp
    have k: "kfs_inv s" using J by simp
    from setlk_not_locking [of s fd "Inr fl" vn new sp new' sp' p fdp wait st, OF k n] t
    have u: "l_type ?fl = F_UNLCK" "Sleep (s', st') w = (case ufs_advlock new sp p vn fp fdp OpUnlck ?fl F_POSIX st of
             Return st (r, _) \<Rightarrow> Return (s, st) r | Panic m \<Rightarrow> Panic m | Sleep st w \<Rightarrow> Sleep (FREF s fp, st) w)"
      unfolding c by simp_all
    have "lf_args (vn_size vn fp) OpUnlck ?fl" using y(2) u(1) f by (simp add: setlk_args_def Let_def)
    from own_unlock [OF conjunct1 [OF J] y(1) this, of fdp F_POSIX] u(2) show False by (auto split: prod.splits)
  qed
  have a: "lf_args (vn_size vn fp) OpSetlk ?fl" using y(2) f L by (simp add: setlk_args_def Let_def setlk_locks_def)
  from c setlk_locking [of s fd fp vn fl] t L J have
    u: "ufs_advlock new sp p vn fp fdp OpSetlk ?fl (if wait then F_POSIX OR F_WAIT else F_POSIX) st = Sleep st' w" "s' = FREF (set_advlock s) fp"
    by (auto split: outcome.splits prod.splits)
  note O = own_sleeps [OF _ _ y(1) a u(1)]
  have m: "may_hold vn s' (vn_lockf vn fp)" unfolding u(2) using may_hold_set [OF t] L by (simp add: setlk_locks_def)
  have "owned fdp vn s' st'"
    by (rule owned_more [of fdp vn s st _ fp]) (use J O m may_hold_mono in \<open>auto simp: u(2)\<close>)
  moreover have "use_ok (Some (fd, fp, fl)) (set_advlock s)" "s' = in_use (Some (fd, fp, fl)) (set_advlock s)"
    using J L kfs_file(1) [OF _ t] by (simp_all add: use_ok_def in_use_def set_advlock_inv setlk_locks_def file_ok_def u(2))
  ultimately show ?thesis using J O unfolding plinv_def blocked_ok_def by auto
qed

lemma blockedD:
  assumes "plinv p fdp vn (s, st, pend, Some (fd, fp, fl))" "pend (pr_addr p) = Some w"
  shows "lf_reach st pend" "foreign (pr_addr p) fdp st pend" "owned fdp vn s st"
    "\<exists>s0. s = FREF s0 fp \<and> kfs_inv s0 \<and> use_ok (Some (fd, fp, fl)) s0" "lf_id (lf_mem st w) = fdp" "lf_head (lf_mem st w) = vn_lockf vn fp"
  using assms by (auto simp: plinv_def blocked_ok_def in_use_def use_ok_def)

text \<open>The end of the lock command: the descriptor is still there, or all locks on the inode are given up.\<close>

lemma setlk_done_inv:
  assumes R: "lf_reach st pend" "foreign (pr_addr p) fdp st pend" and o: "owned fdp vn s t"
    and t: "\<And>h b. h \<noteq> vn_lockf vn fp \<Longrightarrow> locked st h fdp b = locked t h fdp b"
    and u: "use_ok (Some (fd, fp, fl)) s" and r: "race_ready p new sp (FREF s fp) fd fp pend (Return st x)"
    and c: "setlk_done new sp p fdp vn (FREF s fp) fd fp fl' y st = z"
  shows "\<exists>st'. z = Return (s, st') y \<and> lf_reach st' pend \<and> foreign (pr_addr p) fdp st' pend \<and> owned fdp vn s st'"
proof -
  have k: "kfs_inv s" "f_type (k_file s fp) = DTYPE_VNODE" "has_flag (fd_flags (p_fd s)) FD_ADVLOCK" "FRELE (FREF s fp) fp = s"
    using u by (auto simp: use_ok_def FRELE_FREF)
  show ?thesis
  proof (cases "tab s fd = Some fp")
    case True
    then have m: "may_hold vn s (vn_lockf vn fp)" using k(2,3) by (auto simp: may_hold_def)
    have "owned fdp vn s st" by (rule owned_more [OF o, of s fp]) (use m t in auto)
    moreover have "z = Return (s, st) y" using c True k(1,4) by (simp add: setlk_done_def FREF_getfile)
    ultimately show ?thesis using R by blast
  next
    case False
    then have y: "lf_ready new sp (pr_addr p) (st, pend)" "lf_alloc new (pr_uid p) 2 st \<noteq> None"
      using r k(1) by (simp_all add: race_ready_def FREF_getfile)
    have w: "l_whence (whole_file fl') = 0" "l_start (whole_file fl') = 0" "l_len (whole_file fl') = 0" by (simp_all add: whole_file_def)
    then have a: "lf_args (vn_size vn fp) OpUnlck (whole_file fl')" by (simp add: lf_args_def flock_range_def)
    from unlock_all [OF R(1) y w, of vn fp fdp F_POSIX] obtain st' x where
      v: "ufs_advlock new sp p vn fp fdp OpUnlck (whole_file fl') F_POSIX st = Return st' x"
      "locked st' = (\<lambda>h i b. if h = vn_lockf vn fp \<and> i = fdp then None else locked st h i b)" by blast
    have "may_hold vn s h" if "locked st' h fdp b \<noteq> None" for h b
    proof -
      have "h \<noteq> vn_lockf vn fp" "locked st h fdp b \<noteq> None" using that unfolding v(2) by (auto split: if_splits)
      then show ?thesis using o t unfolding owned_def by metis
    qed
    then have "owned fdp vn s st'" unfolding owned_def by blast
    moreover have "z = Return (s, st') y" using c False k(1,4) v(1) by (cases x) (simp add: setlk_done_def FREF_getfile)
    ultimately show ?thesis using own_returns(1,2) [OF R y(1) a v(1)] by blast
  qed
qed

lemma woken_returns_inv:
  assumes I: "plinv p fdp vn (s, st, pend, Some (fd, fp, fl))" and y: "pend (pr_addr p) = Some w" "p_wchan st (pr_addr p) = None" "unused st pend sp"
    and r: "race_ready p new' sp' s fd fp (pend(pr_addr p := None)) (lf_setlock_woken sp (pr_addr p) w error st)"
    and c: "fcntl_setlk_woken sp new' sp' p fdp vn s fd fp fl w error st = Return (s', st') r'"
  shows "plinv p fdp vn (s', st', pend(pr_addr p := None), None)"
proof -
  note J = blockedD [OF I y(1)]
  obtain s0 where s0: "s = FREF s0 fp" "kfs_inv s0" "use_ok (Some (fd, fp, fl)) s0" using J(4) by blast
  obtain st1 x where u: "lf_setlock_woken sp (pr_addr p) w error st = Return st1 x"
    "setlk_done new' sp' p fdp vn (FREF s0 fp) fd fp fl x st1 = Return (s', st') r'"
    using c by (auto simp: fcntl_setlk_woken_def s0(1) split: outcome.splits)
  have R: "lf_reach st1 (pend(pr_addr p := None))" by (rule reach_step [OF J(1) wake_returns [OF y u(1)]])
  have t: "touch (vn_lockf vn fp) fdp (ran (pend(pr_addr p := None))) st st1"
    using woken_touch [OF reach_inv [OF J(1)] y(1,3), of error] J(5,6) u(1) by (simp add: touches_def)
  have o: "owned fdp vn s0 st" using J(3) by (simp add: s0(1) owned_def)
  from setlk_done_inv [OF R foreign_touch [OF foreign_clear [OF J(2)] t order_refl] o _ s0(3) r [unfolded u(1) s0(1)] u(2)] touchD(1) [OF t]
  show ?thesis using s0(2) by (auto simp: plinv_idle)
qed

lemma woken_sleeps_inv:
  assumes I: "plinv p fdp vn (s, st, pend, Some (fd, fp, fl))" and y: "pend (pr_addr p) = Some w" "p_wchan st (pr_addr p) = None" "unused st pend sp"
    and r: "race_ready p new' sp' s fd fp (pend(pr_addr p := None)) (lf_setlock_woken sp (pr_addr p) w error st)"
    and c: "fcntl_setlk_woken sp new' sp' p fdp vn s fd fp fl w error st = Sleep (s', st') w'"
  shows "plinv p fdp vn (s', st', pend(pr_addr p \<mapsto> w'), Some (fd, fp, fl))"
proof -
  note J = blockedD [OF I y(1)]
  obtain s0 where s0: "s = FREF s0 fp" "kfs_inv s0" "use_ok (Some (fd, fp, fl)) s0" using J(4) by blast
  have o: "owned fdp vn s0 st" using J(3) by (simp add: s0(1) owned_def)
  have n: "setlk_done new' sp' p fdp vn (FREF s0 fp) fd fp fl x st1 \<noteq> Sleep (s', st') w'"
    if u: "lf_setlock_woken sp (pr_addr p) w error st = Return st1 x" for st1 x
  proof -
    have R: "lf_reach st1 (pend(pr_addr p := None))" by (rule reach_step [OF J(1) wake_returns [OF y u]])
    have t: "touch (vn_lockf vn fp) fdp (ran (pend(pr_addr p := None))) st st1"
      using woken_touch [OF reach_inv [OF J(1)] y(1,3), of error] J(5,6) u by (simp add: touches_def)
    from setlk_done_inv [OF R foreign_touch [OF foreign_clear [OF J(2)] t order_refl] o _ s0(3) r [unfolded u s0(1)] refl, of fl x] touchD(1) [OF t]
    show ?thesis by auto
  qed
  have u: "lf_setlock_woken sp (pr_addr p) w error st = Sleep st' w'" "s' = s"
    using c n by (auto simp: fcntl_setlk_woken_def s0(1) split: outcome.splits)
  have R: "lf_reach st' (pend(pr_addr p \<mapsto> w'))" by (rule reach_step [OF J(1) wake_sleeps [OF y u(1)]])
  have t: "touch (vn_lockf vn fp) fdp (ran (pend(pr_addr p := None))) st st'" "lf_id (lf_mem st' w') = fdp" "lf_head (lf_mem st' w') = vn_lockf vn fp"
    "fewer st st'" using woken_touch [OF reach_inv [OF J(1)] y(1,3), of error] J(5,6) u(1) by (auto simp: touches_def)
  have "owned fdp vn s st'" using J(3) t(4) unfolding owned_def fewer_def by blast
  moreover have "foreign (pr_addr p) fdp st' (pend(pr_addr p \<mapsto> w'))"
    by (rule foreign_set [OF foreign_touch [OF foreign_clear [OF J(2)] t(1) order_refl]]) simp
  ultimately show ?thesis using R s0 t(2,3) unfolding plinv_def blocked_ok_def u(2) by (auto simp: in_use_def)
qed

text \<open>A close leaves the other descriptors; the locks on the inode it closed are gone.\<close>

lemma may_hold_close:
  assumes "may_hold vn s h" "tab s' = (tab s)(fd := None)" "fd_flags (p_fd s') = fd_flags (p_fd s)" "\<And>g. f_type (k_file s' g) = f_type (k_file s g)"
    and "tab s fd = Some fp" "f_type (k_file s fp) = DTYPE_VNODE \<Longrightarrow> vn_lockf vn fp \<noteq> h"
  shows "may_hold vn s' h"
proof -
  from assms(1) obtain n g where n: "tab s n = Some g" "f_type (k_file s g) = DTYPE_VNODE" "vn_lockf vn g = h" by (auto simp: may_hold_def)
  then have "n \<noteq> fd" using assms(5,6) by auto
  then show ?thesis using assms n by (auto simp: may_hold_def)
qed

lemma close_step:
  assumes u: "use_ok blk s" and c: "close_locks fo_close new sp q fdp vn pid (in_use blk s) fd st = Some (s', e, Return st' ())"
  shows "(tab s fd = None \<and> s' = in_use blk s \<and> st' = st)
    \<or> (\<exists>g s1. tab s fd = Some g \<and> s' = in_use blk s1 \<and> use_ok blk s1 \<and> tab s1 = (tab s)(fd := None) \<and> fd_flags (p_fd s1) = fd_flags (p_fd s)
        \<and> (\<forall>g. f_type (k_file s1 g) = f_type (k_file s g)) \<and> run_advlocks new sp q fdp vn pid (adv_unlock s g) st = Return st' ())"
proof -
  have k: "kfs_inv s" using u by (simp add: use_ok_def)
  obtain s1 where s1: "sys_close fo_close s fd = Some (s1, e)" "s' = in_use blk s1"
    "\<forall>n fp fl. blk = Some (n, fp, fl) \<longrightarrow> FILE_IS_USABLE (k_file s fp) \<longrightarrow> FILE_IS_USABLE (k_file s1 fp)"
    "run_advlocks new sp q fdp vn pid (drop (length (k_calls s)) (k_calls s1)) st = Return st' ()"
  proof (cases blk)
    case None
    then show ?thesis using that [of s'] c by (auto simp: close_locks_def in_use_def)
  next
    case (Some x)
    obtain n fp fl where x: "x = (n, fp, fl)" by (cases x)
    from c Some x obtain s'' where "sys_close fo_close (FREF s fp) fd = Some (s', e)"
      "run_advlocks new sp q fdp vn pid (drop (length (k_calls s)) (k_calls s')) st = Return st' ()"
      by (auto simp: close_locks_def in_use_def FREF_def upd_file_def)
    with close_in_use [OF k this(1)] that Some x show ?thesis by (auto simp: in_use_def FREF_def upd_file_def)
  qed
  show ?thesis
  proof (cases "tab s fd")
    case None
    then have "sys_close fo_close s fd = Some (s, Some EBADF)" using k by (simp add: sys_close_def fd_getfile_tab)
    then show ?thesis using s1 None by simp
  next
    case (Some g)
    from close_calls [OF k Some, where fo_close = fo_close and new = new and sp = sp and p = q and fdp = fdp and vn = vn and pid = pid and st = st] s1
    have d: "kfs_inv s1" "tab s1 = (tab s)(fd := None)" "fd_flags (p_fd s1) = fd_flags (p_fd s)" "\<And>g. f_type (k_file s1 g) = f_type (k_file s g)"
      "run_advlocks new sp q fdp vn pid (adv_unlock s g) st = Return st' ()" by auto
    have "use_ok blk s1" using u s1(3) d(1,3,4) by (auto simp: use_ok_def split: option.splits)
    then show ?thesis using Some s1(2) d by auto
  qed
qed

lemma close_inv:
  assumes I: "plinv p fdp vn (s, st, pend, blk)" and y: "lf_ready new sp (pr_addr q) (st, pend)" "lf_alloc new (pr_uid q) 2 st \<noteq> None"
    and c: "close_locks fo_close new sp q fdp vn pid s fd st = Some (s', e, Return st' ())"
  shows "plinv p fdp vn (s', st', pend, blk)"
proof -
  obtain s0 where s0: "s = in_use blk s0" "use_ok blk s0" using I by (auto simp: plinv_def)
  have J: "lf_reach st pend" "foreign (pr_addr p) fdp st pend" "owned fdp vn s0 st" "blocked_ok p fdp vn st pend blk"
    using I by (simp_all add: plinv_def s0(1))
  from close_step [OF s0(2) c [unfolded s0(1)]] show ?thesis
  proof (elim disjE conjE exE)
    assume "s' = in_use blk s0" "st' = st"
    then show ?thesis using I s0(1) by simp
  next
    fix g s1
    assume d: "tab s0 fd = Some g" "s' = in_use blk s1" "use_ok blk s1" "tab s1 = (tab s0)(fd := None)" "fd_flags (p_fd s1) = fd_flags (p_fd s0)"
      "\<forall>g. f_type (k_file s1 g) = f_type (k_file s0 g)" and r: "run_advlocks new sp q fdp vn pid (adv_unlock s0 g) st = Return st' ()"
    note M = may_hold_close [OF _ d(4,5) spec [OF d(6)] d(1)]
    show ?thesis
    proof (cases "has_flag (fd_flags (p_fd s0)) FD_ADVLOCK \<and> f_type (k_file s0 g) = DTYPE_VNODE")
      case True
      let ?fl = "close_flock pid"
      have w: "l_whence ?fl = 0" "l_start ?fl = 0" "l_len ?fl = 0" by (simp_all add: close_flock_def)
      have a: "lf_args (vn_size vn g) OpUnlck ?fl" by (simp add: lf_args_def flock_range_def close_flock_def)
      from unlock_all [OF J(1) y w, of vn g fdp F_POSIX] r True obtain x where
        v: "ufs_advlock new sp q vn g fdp OpUnlck ?fl F_POSIX st = Return st' x"
        "locked st' = (\<lambda>h i b. if h = vn_lockf vn g \<and> i = fdp then None else locked st h i b)" by (auto simp: adv_unlock_def)
      have "may_hold vn s1 h" if "locked st' h fdp b \<noteq> None" for h b
      proof -
        have h: "h \<noteq> vn_lockf vn g" "locked st h fdp b \<noteq> None" using that unfolding v(2) by (auto split: if_splits)
        then have "may_hold vn s0 h" using J(3) unfolding owned_def by blast
        then show ?thesis by (rule M) (use h(1) in simp)
      qed
      then have "owned fdp vn s' st'" unfolding owned_def d(2) by simp
      moreover have "blocked_ok p fdp vn st' pend blk"
      proof -
        have "lf_id (lf_mem st' w) = lf_id (lf_mem st w) \<and> lf_head (lf_mem st' w) = lf_head (lf_mem st w)" if "pend (pr_addr p) = Some w" for w
          by (rule own_requests(2) [OF J(1) y(1) a v(1) ranI [of pend, OF that]])
        then show ?thesis using J(4) by (auto simp: blocked_ok_def split: option.splits)
      qed
      ultimately show ?thesis using other_returns [OF J(1,2) y(1) a v(1)] d(2,3) by (auto simp: plinv_def)
    next
      case False
      then have st: "st' = st" using r by (auto simp: adv_unlock_def)
      have "may_hold vn s1 h" if "locked st h fdp b \<noteq> None" for h b
      proof -
        have m: "may_hold vn s0 h" using that J(3) unfolding owned_def by blast
        then have "f_type (k_file s0 g) \<noteq> DTYPE_VNODE" using False by (auto simp: may_hold_def)
        then show ?thesis using M [OF m] by simp
      qed
      then have "owned fdp vn s' st" unfolding owned_def d(2) by simp
      then show ?thesis using J d(2,3) by (auto simp: plinv_def st)
    qed
  qed
qed

lemma pl_step_inv:
  assumes "plinv p fdp vn a" "pl_step p fdp vn fo_close a e a'"
  shows "plinv p fdp vn a'"
  using assms(2,1)
proof cases
  case (set_returns new sp st pend s fd arg new' sp' wait s' st' r)
  then show ?thesis using set_returns_inv assms(1) by blast
next
  case (set_sleeps new sp st pend s fd fl fp new' sp' wait s' st' w)
  then show ?thesis using set_sleeps_inv assms(1) by blast
next
  case (woken_returns pend w st sp new' sp' s fd fp error fl s' st' r)
  then show ?thesis using woken_returns_inv assms(1) by blast
next
  case (woken_sleeps pend w st sp new' sp' s fd fp error fl s' st' w')
  then show ?thesis using woken_sleeps_inv assms(1) by blast
next
  case (close new sp q st pend pid s fd s' e st' blk)
  then show ?thesis using close_inv assms(1) by blast
next
  case (other st pend e st' pend' s blk)
  have I: "lf_reach st pend" "foreign (pr_addr p) fdp st pend" "owned fdp vn s st" "blocked_ok p fdp vn st pend blk"
    "\<exists>s0. s = in_use blk s0 \<and> use_ok blk s0" using assms(1) other(1) by (simp_all add: plinv_def)
  have U: "unmoved (pr_addr p) fdp (st, pend) (st', pend')" by (rule other_step [OF other(4) reach_inv [OF I(1)] I(2) other(5)])
  have "owned fdp vn s st'" using I(3) U by (simp add: owned_def unmoved_def)
  moreover have "blocked_ok p fdp vn st' pend' blk"
    using I(4) U by (auto simp: blocked_ok_def unmoved_def split: option.splits prod.splits)
  ultimately show ?thesis using U I(5) reach_step [OF I(1) other(4)] other(3) by (simp add: plinv_def unmoved_def)
qed

interpretation pl: inv_system "pl_step p fdp vn fo_close" "plinv p fdp vn" for p fdp vn fo_close
  by unfold_locales (rule pl_step_inv)

section \<open>A process with one file\<close>

text \<open>The process has one file open for reading and writing.\<close>

definition demo_vn :: vnodes where
  "demo_vn = \<lparr>vn_lockf = (\<lambda>_. 0), vn_size = (\<lambda>_. 0), vn_offset = (\<lambda>_. 0)\<rparr>"

lemma demo_set:
  "pl_step (demo_proc 10) 10 demo_vn fo_close (st1 1, demo0, Map.empty, None)
     (PlSetlk 1 9 0 0 False 0 (Inr (demo_fl F_WRLCK 0 100))) (set_advlock (st1 1), demo1, Map.empty, None)"
proof (rule set_returns)
  have c: "lf_advlock 1 9 (demo_proc 10) 0 0 10 OpSetlk (demo_fl F_WRLCK 0 100) F_POSIX demo0 = Return demo1 (LfOk, demo_fl F_WRLCK 0 100)"
    by (simp add: demo0_def demo1_def demo_defs)
  have k: "setlk_locks (st1 1) 0 (demo_fl F_WRLCK 0 100)" "seek_cur 0 (demo_fl F_WRLCK 0 100) = demo_fl F_WRLCK 0 100"
    by (simp_all add: setlk_locks_def seek_cur_def demo_fl_def st1_fields DTYPE_VNODE_def has_flag_def FWRITE_def)
  show "fcntl_setlk 1 9 0 0 (demo_proc 10) 10 demo_vn False (st1 1) 0 (Inr (demo_fl F_WRLCK 0 100)) demo0
      = Return (set_advlock (st1 1), demo1) LfOk"
    using setlk_locking [OF st1_inv(1), of 1 0 0 demo_vn "demo_fl F_WRLCK 0 100"] c k st1_inv(2)
    by (simp add: demo_vn_def ufs_advlock_def)
  show "setlk_args demo_vn (st1 1) 0 (Inr (demo_fl F_WRLCK 0 100))"
    using k(2) by (simp add: setlk_args_def demo_vn_def fd_getfile_tab st1_inv lf_args_def flock_range_def demo_fl_def off_wrap_def)
  show "lf_ready 1 9 (pr_addr (demo_proc 10)) (demo0, Map.empty)"
    by (simp add: lf_ready_def unused_def live_def demo0_def demo_proc_def demo_lock_def)
qed

end
