(* ===== verification/Quad.thy ===== *)
theory Quad
  imports Prelude
begin

text \<open>
  The 64-bit integer arithmetic of lib/libkern for machines with 32-bit integers: the routines the
  compiler calls for \<open>quad_t\<close>. A quad is a word of 64 bits and the union \<open>uu\<close> its two halves; a digit of
  the division is a word of 16 bits. Arrays of digits are functions of the index, pointers into them
  are offsets, and the contents of an array before it is written are arbitrary.
\<close>

section \<open>Halves\<close>

type_synonym quad_t = "64 word"
type_synonym digit = "16 word"

definition hi :: "quad_t \<Rightarrow> u_int" where "hi q = ucast (drop_bit 32 q)"
definition lo :: "quad_t \<Rightarrow> u_int" where "lo q = ucast q"
definition quad :: "u_int \<Rightarrow> u_int \<Rightarrow> quad_t" where "quad h l = push_bit 32 (ucast h) OR ucast l"

definition HHALF :: "u_int \<Rightarrow> u_int" where "HHALF x = drop_bit 16 x"
definition LHALF :: "u_int \<Rightarrow> u_int" where "LHALF x = x AND 0xffff"
definition LHUP :: "u_int \<Rightarrow> u_int" where "LHUP x = push_bit 16 x"
definition COMBINE :: "u_int \<Rightarrow> u_int \<Rightarrow> u_int" where "COMBINE a b = push_bit 16 a OR b"

abbreviation B :: u_int where "B \<equiv> 0x10000"

section \<open>Addition, comparison and shifts\<close>

definition of_bool_int :: "bool \<Rightarrow> u_int" where "of_bool_int b = (if b then 1 else 0)"

definition adddi3 :: "quad_t \<Rightarrow> quad_t \<Rightarrow> quad_t" where
  "adddi3 a b = (let l = lo a + lo b in quad (hi a + hi b + of_bool_int (l < lo b)) l)"

definition subdi3 :: "quad_t \<Rightarrow> quad_t \<Rightarrow> quad_t" where
  "subdi3 a b = (let l = lo a - lo b in quad (hi a - hi b - of_bool_int (l > lo a)) l)"

definition negdi2 :: "quad_t \<Rightarrow> quad_t" where
  "negdi2 a = (let l = - lo a in quad (- hi a - of_bool_int (l > 0)) l)"

definition cmpdi2 :: "quad_t \<Rightarrow> quad_t \<Rightarrow> int" where
  "cmpdi2 a b = (if sint (hi a) < sint (hi b) then 0 else if sint (hi a) > sint (hi b) then 2
     else if lo a < lo b then 0 else if lo a > lo b then 2 else 1)"

definition ucmpdi2 :: "quad_t \<Rightarrow> quad_t \<Rightarrow> int" where
  "ucmpdi2 a b = (if hi a < hi b then 0 else if hi a > hi b then 2
     else if lo a < lo b then 0 else if lo a > lo b then 2 else 1)"

text \<open>Shift counts of 64 and more are undefined in the code; the theorems are for smaller ones.\<close>

definition ashldi3 :: "quad_t \<Rightarrow> nat \<Rightarrow> quad_t" where
  "ashldi3 a shift =
     (if shift = 0 then a
      else if shift \<ge> 32 then quad (push_bit (shift - 32) (lo a)) 0
      else quad (push_bit shift (hi a) OR drop_bit (32 - shift) (lo a)) (push_bit shift (lo a)))"

definition lshldi3 :: "quad_t \<Rightarrow> nat \<Rightarrow> quad_t" where
  "lshldi3 a shift =
     (if shift = 0 then a
      else if shift \<ge> 32 then quad (push_bit (shift - 32) (lo a)) 0
      else quad (push_bit shift (hi a) OR drop_bit (32 - shift) (lo a)) (push_bit shift (lo a)))"

definition lshrdi3 :: "quad_t \<Rightarrow> nat \<Rightarrow> quad_t" where
  "lshrdi3 a shift =
     (if shift = 0 then a
      else if shift \<ge> 32 then quad 0 (drop_bit (shift - 32) (hi a))
      else quad (drop_bit shift (hi a)) (drop_bit shift (lo a) OR push_bit (32 - shift) (hi a)))"

definition ashrdi3 :: "quad_t \<Rightarrow> nat \<Rightarrow> quad_t" where
  "ashrdi3 a shift =
     (if shift = 0 then a
      else if shift \<ge> 32 then quad (signed_drop_bit 1 (signed_drop_bit 31 (hi a))) (signed_drop_bit (shift - 32) (hi a))
      else quad (signed_drop_bit shift (hi a)) (drop_bit shift (lo a) OR push_bit (32 - shift) (hi a)))"

definition anddi3 :: "quad_t \<Rightarrow> quad_t \<Rightarrow> quad_t" where
  "anddi3 a b = quad (hi a AND hi b) (lo a AND lo b)"

definition iordi3 :: "quad_t \<Rightarrow> quad_t \<Rightarrow> quad_t" where
  "iordi3 a b = quad (hi a OR hi b) (lo a OR lo b)"

definition xordi3 :: "quad_t \<Rightarrow> quad_t \<Rightarrow> quad_t" where
  "xordi3 a b = quad (hi a XOR hi b) (lo a XOR lo b)"

definition one_cmpldi2 :: "quad_t \<Rightarrow> quad_t" where
  "one_cmpldi2 a = quad (NOT (hi a)) (NOT (lo a))"

section \<open>Multiplication\<close>

definition lmulq :: "u_int \<Rightarrow> u_int \<Rightarrow> quad_t" where
  "lmulq u v =
     (let u1 = HHALF u; u0 = LHALF u; v1 = HHALF v; v0 = LHALF v; low = u0 * v0 in
      if u1 = 0 \<and> v1 = 0 then ucast low
      else
        let udiff = (if u1 \<ge> u0 then u1 - u0 else u0 - u1);
            vdiff = (if v0 \<ge> v1 then v0 - v1 else v1 - v0);
            neg = ((u1 \<ge> u0) \<noteq> (v0 \<ge> v1));
            mid = udiff * vdiff;
            high = u1 * v1;
            prodh = high + HHALF high;
            prodl = LHUP high;
            (prodh, prodl) =
              (if neg then let was = prodl; prodl = prodl - LHUP mid in (prodh - (HHALF mid + of_bool_int (prodl > was)), prodl)
               else let was = prodl; prodl = prodl + LHUP mid in (prodh + (HHALF mid + of_bool_int (prodl < was)), prodl));
            was = prodl;
            prodl = prodl + LHUP low;
            prodh = prodh + (HHALF low + of_bool_int (prodl < was));
            prodl = prodl + low;
            prodh = (if prodl < low then prodh + 1 else prodh)
        in quad prodh prodl)"

definition muldi3 :: "quad_t \<Rightarrow> quad_t \<Rightarrow> quad_t" where
  "muldi3 a b =
     (let u = (if sint a \<ge> 0 then a else - a);
          v = (if sint b \<ge> 0 then b else - b);
          negall = ((sint a \<ge> 0) \<noteq> (sint b \<ge> 0));
          u1 = hi u; u0 = lo u; v1 = hi v; v0 = lo v;
          prod =
            (if u1 = 0 \<and> v1 = 0 then lmulq u0 v0
             else
               let low = lmulq u0 v0;
                   udiff = (if u1 \<ge> u0 then u1 - u0 else u0 - u1);
                   vdiff = (if v0 \<ge> v1 then v0 - v1 else v1 - v0);
                   negmid = ((u1 \<ge> u0) \<noteq> (v0 \<ge> v1));
                   mid = udiff * vdiff;
                   high = u1 * v1
               in quad (high + (if negmid then - mid else mid) + lo low + hi low) (lo low))
      in if negall then - prod else prod)"

section \<open>Division\<close>

type_synonym digits = "nat \<Rightarrow> digit"

text \<open>\<open>shl\<close> shifts \<open>p[0]\<close> to \<open>p[len]\<close> left, where \<open>p\<close> is the offset of the pointer.\<close>

function shl_from :: "digits \<Rightarrow> nat \<Rightarrow> nat \<Rightarrow> nat \<Rightarrow> nat \<Rightarrow> digits" where
  "shl_from a p i len sh =
     (if i < len
      then shl_from (a(p + i := ucast (LHALF (push_bit sh (ucast (a (p + i)))) OR drop_bit (16 - sh) (ucast (a (p + i + 1)) :: u_int))))
             p (i + 1) len sh
      else a(p + i := ucast (LHALF (push_bit sh (ucast (a (p + i)))))))"
  by pat_completeness auto

termination
  by (relation "measure (\<lambda>(a, p, i, len, sh). len - i)") auto

declare shl_from.simps [simp del]

definition shl :: "digits \<Rightarrow> nat \<Rightarrow> nat \<Rightarrow> nat \<Rightarrow> digits" where
  "shl a p len sh = shl_from a p 0 len sh"

text \<open>
  The loops that skip leading zero digits. The first gives the offset of \<open>v\<close> and \<open>n\<close>, or None when the divisor
  is a single digit; the second the offset of \<open>u\<close> and \<open>m\<close>, or None when \<open>m\<close> becomes negative.
\<close>

fun skip_v :: "digits \<Rightarrow> nat \<Rightarrow> nat \<Rightarrow> (nat \<times> nat) option" where
  "skip_v v vo n = (if v (vo + 1) \<noteq> 0 then Some (vo, n) else if n \<le> 2 then None else skip_v v (vo + 1) (n - 1))"

declare skip_v.simps [simp del]

primrec skip_u :: "nat \<Rightarrow> digits \<Rightarrow> nat \<Rightarrow> (nat \<times> nat) option" where
  "skip_u 0 u uo = (if u (uo + 1) \<noteq> 0 then Some (uo, 0) else None)"
| "skip_u (Suc m) u uo = (if u (uo + 1) \<noteq> 0 then Some (uo, Suc m) else skip_u m u (uo + 1))"

text \<open>The number of shifts that bring the top digit to at least \<open>B / 2\<close>; a zero digit would be shifted forever.\<close>

lemma shift_smaller:
  assumes "t \<noteq> 0" "t < (0x8000 :: u_int)"
  shows "unat (t * 2) = 2 * unat t" "0 < unat t" "unat t < 0x8000"
proof -
  show t: "unat t < 0x8000" using assms(2) by (simp add: word_less_nat_alt)
  show "0 < unat t" using assms(1) by (simp add: unat_gt_0)
  show "unat (t * 2) = 2 * unat t" using t by (simp add: unat_word_ariths)
qed

function norm_shift :: "u_int \<Rightarrow> nat \<Rightarrow> nat option" where
  "norm_shift t d = (if t = 0 then None else if t < 0x8000 then norm_shift (push_bit 1 t) (d + 1) else Some d)"
  by pat_completeness auto

termination
proof (relation "measure (\<lambda>(t, d). 0x10000 - unat t)")
  fix t :: u_int and d :: nat
  assume "t \<noteq> 0" "t < 0x8000"
  with shift_smaller [OF this] show "((push_bit 1 t, d + 1), t, d) \<in> measure (\<lambda>(t, d). 0x10000 - unat t)" by simp
qed simp

declare norm_shift.simps [simp del]

text \<open>Step D3: the estimate of a quotient digit.\<close>

lemma qhat_smaller:
  assumes "x < v2 * (qhat :: u_int)"
  shows "unat (qhat - 1) < unat qhat"
proof -
  have "qhat \<noteq> 0" using assms by auto
  then show ?thesis by (simp add: unat_minus_one unat_gt_0)
qed

function qhat_loop :: "u_int \<Rightarrow> u_int \<Rightarrow> u_int \<Rightarrow> u_int \<Rightarrow> u_int \<Rightarrow> u_int" where
  "qhat_loop v1 v2 uj2 qhat rhat =
     (if v2 * qhat > COMBINE rhat uj2
      then (if rhat + v1 \<ge> B then qhat - 1 else qhat_loop v1 v2 uj2 (qhat - 1) (rhat + v1))
      else qhat)"
  by pat_completeness auto

termination
  by (relation "measure (\<lambda>(v1, v2, uj2, qhat, rhat). unat qhat)") (auto dest: qhat_smaller)

declare qhat_loop.simps [simp del]

definition qhat_of :: "u_int \<Rightarrow> u_int \<Rightarrow> u_int \<Rightarrow> u_int \<Rightarrow> u_int \<Rightarrow> u_int" where
  "qhat_of v1 v2 uj0 uj1 uj2 =
     (if uj0 = v1
      then (let qhat = B - 1; rhat = uj1 + v1 in if rhat \<ge> B then qhat else qhat_loop v1 v2 uj2 qhat rhat)
      else let nn = COMBINE uj0 uj1 in qhat_loop v1 v2 uj2 (nn div v1) (nn mod v1))"

text \<open>Step D4: subtract \<open>qhat\<close> times the divisor from \<open>u[j+1]\<close> to \<open>u[j+i]\<close>; the second component is the borrow.\<close>

primrec mulsub :: "nat \<Rightarrow> digits \<Rightarrow> nat \<Rightarrow> digits \<Rightarrow> nat \<Rightarrow> nat \<Rightarrow> u_int \<Rightarrow> u_int \<Rightarrow> digits \<times> u_int" where
  "mulsub 0 u uo v vo j qhat t = (u, t)"
| "mulsub (Suc i) u uo v vo j qhat t =
     (let t = ucast (u (uo + (Suc i + j))) - ucast (v (vo + Suc i)) * qhat - t;
          u = u(uo + (Suc i + j) := ucast (LHALF t));
          t = (B - HHALF t) AND (B - 1)
      in mulsub i u uo v vo j qhat t)"

text \<open>Step D6: add the divisor back.\<close>

primrec addback :: "nat \<Rightarrow> digits \<Rightarrow> nat \<Rightarrow> digits \<Rightarrow> nat \<Rightarrow> nat \<Rightarrow> u_int \<Rightarrow> digits \<times> u_int" where
  "addback 0 u uo v vo j t = (u, t)"
| "addback (Suc i) u uo v vo j t =
     (let t = t + (ucast (u (uo + (Suc i + j))) + ucast (v (vo + Suc i)));
          u = u(uo + (Suc i + j) := ucast (LHALF t));
          t = HHALF t
      in addback i u uo v vo j t)"

text \<open>Steps D3 to D6 for one digit: the array \<open>u\<close> and the digit of the quotient.\<close>

definition div_digit :: "digits \<Rightarrow> nat \<Rightarrow> digits \<Rightarrow> nat \<Rightarrow> nat \<Rightarrow> nat \<Rightarrow> digits \<times> digit" where
  "div_digit u uo v vo n j =
     (let qhat = qhat_of (ucast (v (vo + 1))) (ucast (v (vo + 2))) (ucast (u (uo + j))) (ucast (u (uo + (j + 1)))) (ucast (u (uo + (j + 2))));
          (u, t) = mulsub n u uo v vo j qhat 0;
          t = ucast (u (uo + j)) - t;
          u = u(uo + j := ucast (LHALF t))
      in if HHALF t \<noteq> 0
         then let qhat = qhat - 1;
                  (u, t) = addback n u uo v vo j 0;
                  u = u(uo + j := ucast (LHALF (ucast (u (uo + j)) + t)))
              in (u, ucast qhat)
         else (u, ucast qhat))"

text \<open>The loop on \<open>j\<close>, of which \<open>k\<close> rounds are left.\<close>

primrec div_loop :: "nat \<Rightarrow> digits \<Rightarrow> nat \<Rightarrow> digits \<Rightarrow> nat \<Rightarrow> digits \<Rightarrow> nat \<Rightarrow> nat \<Rightarrow> nat \<Rightarrow> digits \<times> digits" where
  "div_loop 0 u uo v vo q qo n j = (u, q)"
| "div_loop (Suc k) u uo v vo q qo n j =
     (let (u, d) = div_digit u uo v vo n j
      in div_loop k u uo v vo (q(qo + j := d)) qo n (j + 1))"

text \<open>The remainder is shifted back: \<open>k\<close> digits from \<open>u[i]\<close> down.\<close>

primrec unshift :: "nat \<Rightarrow> digits \<Rightarrow> nat \<Rightarrow> nat \<Rightarrow> nat \<Rightarrow> digits" where
  "unshift 0 u uo i d = u(uo + i := 0)"
| "unshift (Suc k) u uo i d =
     unshift k (u(uo + i := ucast (drop_bit d (ucast (u (uo + i)) :: u_int) OR LHALF (push_bit (16 - d) (ucast (u (uo + (i - 1)))))))) uo (i - 1) d"

definition put_quad :: "digits \<Rightarrow> quad_t \<Rightarrow> digits" where
  "put_quad a q = a(1 := ucast (HHALF (hi q)), 2 := ucast (LHALF (hi q)), 3 := ucast (HHALF (lo q)), 4 := ucast (LHALF (lo q)))"

definition get_quad :: "digits \<Rightarrow> quad_t" where
  "get_quad a = quad (COMBINE (ucast (a 1)) (ucast (a 2))) (COMBINE (ucast (a 3)) (ucast (a 4)))"

text \<open>The divisor is the single digit \<open>t\<close>.\<close>

definition short_div :: "digits \<Rightarrow> u_int \<Rightarrow> quad_t \<times> quad_t" where
  "short_div u t =
     (let q1 = ucast (ucast (u 1) div t) :: digit;
          rbj = COMBINE (ucast (u 1) mod t) (ucast (u 2));
          q2 = ucast (rbj div t) :: digit;
          rbj = COMBINE (rbj mod t) (ucast (u 3));
          q3 = ucast (rbj div t) :: digit;
          rbj = COMBINE (rbj mod t) (ucast (u 4));
          q4 = ucast (rbj div t) :: digit
      in (quad (COMBINE (ucast q1) (ucast q2)) (COMBINE (ucast q3) (ucast q4)), ucast (rbj mod t)))"

text \<open>
  \<open>__qdivrem\<close>: the quotient and what is stored through \<open>arq\<close>. The first argument is the contents of the three
  arrays before. A division by zero traps: the value is None, as it is when a loop would not end.
\<close>

definition qdivrem :: "digits \<times> digits \<times> digits \<Rightarrow> quad_t \<Rightarrow> quad_t \<Rightarrow> (quad_t \<times> quad_t) option" where
  "qdivrem junk uq vq =
     (if vq = 0 then None
      else if uq < vq then Some (0, uq)
      else
        let (uspace, vspace, qspace) = junk;
            u = put_quad (uspace(0 := 0)) uq;
            v = put_quad vspace vq
        in (case skip_v v 0 4 of
              None \<Rightarrow> Some (short_div u (ucast (v 4)))
            | Some (vo, n) \<Rightarrow>
                (case skip_u (4 - n) u 0 of
                   None \<Rightarrow> None
                 | Some (uo, m) \<Rightarrow>
                     let q = (\<lambda>i. if i < 4 - m then 0 else qspace i)
                     in (case norm_shift (ucast (v (vo + 1))) 0 of
                           None \<Rightarrow> None
                         | Some d \<Rightarrow>
                             let u = (if d > 0 then shl u uo (m + n) d else u);
                                 v = (if d > 0 then shl v (vo + 1) (n - 1) d else v);
                                 (u, q) = div_loop (m + 1) u uo v vo q (4 - m) n 0;
                                 u = (if d > 0 then unshift n u uo (m + n) d else u)
                             in Some (get_quad q, get_quad u)))))"

definition udivdi3 :: "digits \<times> digits \<times> digits \<Rightarrow> quad_t \<Rightarrow> quad_t \<Rightarrow> quad_t option" where
  "udivdi3 junk a b = map_option fst (qdivrem junk a b)"

definition umoddi3 :: "digits \<times> digits \<times> digits \<Rightarrow> quad_t \<Rightarrow> quad_t \<Rightarrow> quad_t option" where
  "umoddi3 junk a b = map_option snd (qdivrem junk a b)"

definition divdi3 :: "digits \<times> digits \<times> digits \<Rightarrow> quad_t \<Rightarrow> quad_t \<Rightarrow> quad_t option" where
  "divdi3 junk a b =
     (let ua = (if sint a < 0 then - a else a);
          ub = (if sint b < 0 then - b else b);
          neg = ((sint a < 0) \<noteq> (sint b < 0))
      in map_option (\<lambda>(uq, _). if neg then - uq else uq) (qdivrem junk ua ub))"

definition moddi3 :: "digits \<times> digits \<times> digits \<Rightarrow> quad_t \<Rightarrow> quad_t \<Rightarrow> quad_t option" where
  "moddi3 junk a b =
     (let ua = (if sint a < 0 then - a else a);
          ub = (if sint b < 0 then - b else b)
      in map_option (\<lambda>(_, ur). if sint a < 0 then - ur else ur) (qdivrem junk ua ub))"

end
