(* ===== verification/Quad_Arith.thy ===== *)
theory Quad_Arith
  imports Quad
begin

text \<open>
  The routines for 64-bit addition, subtraction, comparison, shifts and multiplication compute what the
  operations on words of 64 bits do.
\<close>

section \<open>Halves\<close>

lemma or_plus:
  fixes x y :: "'a::len word"
  shows "x AND y = 0 \<Longrightarrow> x OR y = x + y"
  using word_plus_and_or [of x y] by simp

lemma bit_quad: "bit (quad h l) n \<longleftrightarrow> (if n < 32 then bit l n else n < 64 \<and> bit h (n - 32))"
  by (auto simp: quad_def bit_simps dest: bit_imp_le_length)

lemma hi_quad [simp]: "hi (quad h l) = h"
  by (rule bit_word_eqI) (auto simp: hi_def bit_quad bit_simps)

lemma lo_quad [simp]: "lo (quad h l) = l"
  by (rule bit_word_eqI) (auto simp: lo_def bit_quad bit_simps)

lemma quad_hi_lo [simp]: "quad (hi q) (lo q) = q"
  by (rule bit_word_eqI) (auto simp: bit_quad hi_def lo_def bit_simps)

lemma quad_eqI: "hi p = hi q \<Longrightarrow> lo p = lo q \<Longrightarrow> p = q"
  by (metis quad_hi_lo)

text \<open>The upper half as a multiple.\<close>

definition up :: "u_int \<Rightarrow> quad_t" where "up h = push_bit 32 (ucast h)"

definition wide :: "u_int \<Rightarrow> quad_t" where "wide l = ucast l"

lemma quad_up: "quad h l = up h + wide l"
  unfolding quad_def up_def wide_def
  by (rule or_plus) (auto simp: bit_eq_iff bit_simps dest: bit_imp_le_length)

lemma up_of_int: "up (word_of_int x) = word_of_int (2 ^ 32 * x)"
proof -
  have "(word_of_int (2 ^ 32 * x) :: quad_t) = push_bit 32 (word_of_int x)"
    by (simp add: push_bit_eq_mult wi_hom_syms)
  then show ?thesis by (auto simp: up_def bit_eq_iff bit_simps)
qed

lemma wide_uint: "wide l = word_of_int (uint l)"
  by (simp add: wide_def)

lemma up_uint: "up h = word_of_int (2 ^ 32 * uint h)"
  using up_of_int [of "uint h"] by simp

lemma up_ring:
  "up (a + b) = up a + up b" "up (a - b) = up a - up b" "up (- a) = - up a" "up (a * b) = 2 ^ 32 * (wide a * wide b)"
  "up 0 = 0" "up 1 = 2 ^ 32" "up a = 2 ^ 32 * wide a"
proof -
  have e: "a + b = word_of_int (uint a + uint b)" "a - b = word_of_int (uint a - uint b)" "- a = word_of_int (- uint a)"
    "a * b = word_of_int (uint a * uint b)" by (simp_all add: wi_hom_syms)
  note u = up_uint [of a] up_uint [of b]
  show "up (a + b) = up a + up b"
    using up_of_int [of "uint a + uint b"] by (simp only: e(1) [symmetric] u wi_hom_syms distrib_left word_of_int_uint)
  show "up (a - b) = up a - up b"
    using up_of_int [of "uint a - uint b"] by (simp only: e(2) [symmetric] u wi_hom_syms right_diff_distrib word_of_int_uint)
  show "up (- a) = - up a" using up_of_int [of "- uint a"] by (simp only: e(3) [symmetric] u wi_hom_syms mult_minus_right word_of_int_uint)
  show "up (a * b) = 2 ^ 32 * (wide a * wide b)"
    using up_of_int [of "uint a * uint b"] by (simp only: e(4) [symmetric] wide_uint wi_hom_syms word_of_int_uint) simp
  show "up a = 2 ^ 32 * wide a" by (simp add: u wide_uint wi_hom_syms)
  show "up 0 = 0" "up 1 = 2 ^ 32" by (simp_all add: up_def)
qed

section \<open>Addition and subtraction\<close>

text \<open>The carry out of the lower half.\<close>

lemma wide_add: "wide (l + y) + 2 ^ 32 * wide (of_bool_int (l + y < y)) = wide l + wide y"
proof -
  have "uint (l + y) + 2 ^ 32 * uint (of_bool_int (l + y < y)) = uint l + uint y"
    using uint_lt2p [of l] uint_lt2p [of y] uint_ge_0 [of l] by (simp add: of_bool_int_def uint_plus_if' word_less_def)
  then have "word_of_int (uint (l + y) + 2 ^ 32 * uint (of_bool_int (l + y < y))) = (word_of_int (uint l + uint y) :: quad_t)" by (rule arg_cong)
  then show ?thesis by (simp only: wide_uint wi_hom_syms) simp
qed

lemma borrow_iff: "l < l - y \<longleftrightarrow> l < (y :: u_int)"
  using uint_lt2p [of l] uint_lt2p [of y] uint_ge_0 [of l] uint_ge_0 [of y] by (simp add: word_less_def uint_sub_if')

lemma wide_sub: "wide (l - y) + wide y = wide l + 2 ^ 32 * wide (of_bool_int (l < l - y))"
  unfolding borrow_iff using wide_add [of "l - y" y] by simp

lemma quad_add: "quad (h + (x + of_bool_int (l + y < l))) (l + y) = quad h l + quad x y"
  using wide_add [of y l] unfolding quad_up up_ring(1) up_ring(7) [of "of_bool_int _"] by (simp add: algebra_simps)

lemma quad_sub: "quad (h - (x + of_bool_int (l - y > l))) (l - y) = quad h l - quad x y"
  using wide_sub [of l y] unfolding quad_up up_ring(1,2) up_ring(7) [of "of_bool_int _"] by (simp add: algebra_simps)

lemma adddi3_plus: "adddi3 a b = a + b"
  using quad_add [of "hi b" "hi a" "lo b" "lo a"] by (simp add: adddi3_def Let_def ac_simps)

lemma subdi3_minus: "subdi3 a b = a - b"
  using quad_sub [of "hi a" "hi b" "lo a" "lo b"] by (simp add: subdi3_def Let_def algebra_simps)

lemma negdi2_uminus: "negdi2 a = - a"
proof -
  have "quad 0 0 = 0" by (simp add: quad_def)
  then show ?thesis using quad_sub [of 0 "hi a" 0 "lo a"] by (simp add: negdi2_def Let_def algebra_simps)
qed

section \<open>Comparison\<close>

lemma uint_quad: "uint (quad h l) = uint h * 2 ^ 32 + uint l"
proof -
  have "quad h l = word_of_int (uint h * 2 ^ 32 + uint l)"
    by (simp only: quad_up up_uint wide_uint wi_hom_syms mult.commute)
  moreover have "0 \<le> uint h * 2 ^ 32 + uint l" "uint h * 2 ^ 32 + uint l < 2 ^ 64"
    using uint_lt2p [of h] uint_lt2p [of l] uint_ge_0 [of h] uint_ge_0 [of l] by simp_all
  moreover have "LENGTH(64) = 64" by simp
  ultimately show ?thesis by (simp only: uint_word_of_int take_bit_eq_mod mod_pos_pos_trivial)
qed

lemma uint_hi_lo: "uint q = uint (hi q) * 2 ^ 32 + uint (lo q)"
  using uint_quad [of "hi q" "lo q"] by simp

lemma sint_bit:
  fixes w :: "'a::len word"
  assumes "LENGTH('a) = Suc k"
  shows "sint w = uint w - 2 ^ Suc k * of_bool (bit w k)"
proof -
  have "sint w = take_bit (Suc k) (uint w) - 2 ^ Suc k * of_bool (bit (uint w) k)"
    unfolding sint_uint assms diff_Suc_1 by (simp add: signed_take_bit_eq_take_bit_minus)
  moreover have "take_bit (Suc k) (uint w) = uint w" using uint_lt2p [of w] by (simp add: take_bit_int_eq_self assms)
  ultimately show ?thesis using assms by (simp add: bit_uint_iff)
qed

lemma sint_hi_lo: "sint q = sint (hi q) * 2 ^ 32 + uint (lo q)"
proof -
  have "bit (hi q) 31 = bit q 63" by (simp add: hi_def bit_simps)
  moreover have "sint q = uint q - 2 ^ Suc 63 * of_bool (bit q 63)" "sint (hi q) = uint (hi q) - 2 ^ Suc 31 * of_bool (bit (hi q) 31)"
    by (rule sint_bit, simp)+
  ultimately show ?thesis using uint_hi_lo [of q] by (cases "bit q 63") simp_all
qed

lemma lex_less:
  fixes a b c d :: int
  assumes "0 \<le> b" "b < 2 ^ 32" "0 \<le> d" "d < 2 ^ 32"
  shows "a * 2 ^ 32 + b < c * 2 ^ 32 + d \<longleftrightarrow> a < c \<or> a = c \<and> b < d"
  using assms by auto

lemma uint_bounds: "0 \<le> uint (l :: u_int)" "uint (l :: u_int) < 2 ^ 32"
  using uint_lt2p [of l] by simp_all

lemma ucmpdi2_cases: "ucmpdi2 a b = (if a < b then 0 else if b < a then 2 else 1)"
proof -
  have "a < b \<longleftrightarrow> hi a < hi b \<or> hi a = hi b \<and> lo a < lo b" for a b
    unfolding word_less_def [of a b] uint_hi_lo [of a] uint_hi_lo [of b] lex_less [OF uint_bounds uint_bounds]
    by (simp add: word_less_def word_uint_eq_iff)
  then show ?thesis by (auto simp: ucmpdi2_def)
qed

lemma cmpdi2_cases: "cmpdi2 a b = (if sint a < sint b then 0 else if sint b < sint a then 2 else 1)"
proof -
  have "sint a < sint b \<longleftrightarrow> sint (hi a) < sint (hi b) \<or> sint (hi a) = sint (hi b) \<and> lo a < lo b" for a b
    unfolding sint_hi_lo [of a] sint_hi_lo [of b] lex_less [OF uint_bounds uint_bounds] by (simp add: word_less_def)
  then show ?thesis by (auto simp: cmpdi2_def)
qed

section \<open>Shifts and bitwise operations\<close>

lemma bit_hi: "bit (hi q) n \<longleftrightarrow> n < 32 \<and> bit q (32 + n)"
  by (auto simp: hi_def bit_simps ac_simps)

lemma bit_lo: "bit (lo q) n \<longleftrightarrow> n < 32 \<and> bit q n"
  by (simp add: lo_def bit_simps)

lemma bit_signed_shift:
  "bit (signed_drop_bit m (w :: u_int)) n \<longleftrightarrow> bit w (if 32 - m \<le> n \<and> n < 32 then 31 else m + n)"
  "bit (signed_drop_bit m (q :: quad_t)) n \<longleftrightarrow> bit q (if 64 - m \<le> n \<and> n < 64 then 63 else m + n)"
  by (subst bit_signed_drop_bit_iff, rule arg_cong [where f = "bit _"], simp)+

lemmas half_bits = bit_quad bit_hi bit_lo bit_simps

lemma shifts_left: "s < 64 \<Longrightarrow> ashldi3 a s = push_bit s a" "s < 64 \<Longrightarrow> lshldi3 a s = push_bit s a"
  by (rule bit_word_eqI, auto simp: ashldi3_def lshldi3_def half_bits le_diff_conv2)+

lemma shift_right: "s < 64 \<Longrightarrow> lshrdi3 a s = drop_bit s a"
  by (rule bit_word_eqI) (auto simp: lshrdi3_def half_bits ac_simps dest: bit_imp_le_length)

lemma shift_right_signed: "s < 64 \<Longrightarrow> ashrdi3 a s = signed_drop_bit s a"
  by (rule bit_word_eqI)
    (simp add: ashrdi3_def half_bits bit_signed_shift del: bit_signed_drop_bit_iff, auto simp: ac_simps dest: bit_imp_le_length)

lemma bitwise:
  "anddi3 a b = a AND b" "iordi3 a b = a OR b" "xordi3 a b = a XOR b" "one_cmpldi2 a = NOT a"
  by (rule bit_word_eqI, auto simp: anddi3_def iordi3_def xordi3_def one_cmpldi2_def half_bits)+

section \<open>Multiplication\<close>

lemma uint_HHALF: "uint (HHALF x) = uint x div 2 ^ 16"
  by (simp add: HHALF_def drop_bit_eq_div uint_div_distrib)

lemma LHALF_take: "LHALF x = take_bit 16 x"
  by (simp add: LHALF_def take_bit_eq_mask mask_eq_exp_minus_1)

lemma uint_LHALF: "uint (LHALF x) = uint x mod 2 ^ 16"
  by (simp add: LHALF_take take_bit_eq_mod uint_mod_distrib)

lemma wide_halves: "wide x = 2 ^ 16 * wide (HHALF x) + wide (LHALF x)"
proof -
  have "uint x = 2 ^ 16 * uint (HHALF x) + uint (LHALF x)" by (simp add: uint_HHALF uint_LHALF)
  then have "word_of_int (uint x) = (word_of_int (2 ^ 16 * uint (HHALF x) + uint (LHALF x)) :: quad_t)" by (rule arg_cong)
  then show ?thesis by (simp only: wide_uint wi_hom_syms) simp
qed

lemma half_less: "uint (HHALF x) < 2 ^ 16" "uint (LHALF x) < 2 ^ 16"
  using uint_bounds [of x] by (simp_all add: uint_HHALF uint_LHALF div_less_iff_less_mult)

lemma wide_mult:
  assumes "uint x < 2 ^ 16" "uint y < 2 ^ 16"
  shows "wide (x * y) = wide x * wide y"
proof -
  have "uint x * uint y \<le> (2 ^ 16 - 1) * (2 ^ 16 - 1)" using assms by (intro mult_mono) simp_all
  then have "uint (x * y) = uint x * uint y" by (simp add: uint_word_ariths mod_pos_pos_trivial)
  then show ?thesis by (simp only: wide_uint wi_hom_syms)
qed

lemma uint_minus_le: "y \<le> x \<Longrightarrow> uint (x - y) = uint x - uint (y :: u_int)"
  by (simp add: uint_sub_if' word_le_def)

lemma wide_minus: "y \<le> x \<Longrightarrow> wide (x - y) = wide x - wide y"
  by (simp only: wide_uint uint_minus_le wi_hom_syms)

lemma quad_LHUP: "quad (HHALF x) (LHUP x) = 2 ^ 16 * wide x"
proof -
  have "uint (LHUP x) = (uint x mod 2 ^ 16) * 2 ^ 16"
    using mod_mult_mult2 [of "uint x" "2 ^ 16" "2 ^ 16"] unfolding LHUP_def by (simp add: push_bit_eq_mult uint_word_ariths)
  moreover have "(uint x div 2 ^ 16) * 2 ^ 32 + (uint x mod 2 ^ 16) * 2 ^ 16 = 2 ^ 16 * uint x"
  proof -
    define d r where "d = uint x div 2 ^ 16" and "r = uint x mod 2 ^ 16"
    have "uint x = d * 2 ^ 16 + r" unfolding d_def r_def by (rule div_mult_mod_eq [symmetric])
    then have "d * 2 ^ 32 + r * 2 ^ 16 = 2 ^ 16 * uint x" by simp
    then show ?thesis unfolding d_def r_def .
  qed
  ultimately have "uint (quad (HHALF x) (LHUP x)) = 2 ^ 16 * uint x" by (simp only: uint_quad uint_HHALF)
  then have "word_of_int (uint (quad (HHALF x) (LHUP x))) = (word_of_int (2 ^ 16 * uint x) :: quad_t)" by (rule arg_cong)
  then show ?thesis by (simp only: wide_uint wi_hom_syms word_of_int_uint) simp
qed

text \<open>The product of two differences, taken with the sign of each.\<close>

lemma mid_term:
  fixes u0 u1 v0 v1 :: u_int
  assumes "uint u0 < 2 ^ 16" "uint u1 < 2 ^ 16" "uint v0 < 2 ^ 16" "uint v1 < 2 ^ 16"
  shows "(if (u1 \<ge> u0) \<noteq> (v0 \<ge> v1) then - wide ((if u1 \<ge> u0 then u1 - u0 else u0 - u1) * (if v0 \<ge> v1 then v0 - v1 else v1 - v0))
      else wide ((if u1 \<ge> u0 then u1 - u0 else u0 - u1) * (if v0 \<ge> v1 then v0 - v1 else v1 - v0)))
    = (wide u1 - wide u0) * (wide v0 - wide v1)"
proof -
  have d: "uint (x - y) < 2 ^ 16" if "y \<le> x" "uint x < 2 ^ 16" for x y :: u_int
    unfolding uint_minus_le [OF that(1)] using that(2) uint_ge_0 [of y] by linarith
  have w: "wide ((if u1 \<ge> u0 then u1 - u0 else u0 - u1) * (if v0 \<ge> v1 then v0 - v1 else v1 - v0))
      = wide (if u1 \<ge> u0 then u1 - u0 else u0 - u1) * wide (if v0 \<ge> v1 then v0 - v1 else v1 - v0)"
    by (rule wide_mult) (use assms d in auto)
  show ?thesis unfolding w by (auto simp: wide_minus algebra_simps)
qed

text \<open>Each step of the accumulation is an addition or a subtraction of quads.\<close>

lemma acc_add: "quad (h + (HHALF m + of_bool_int (l + LHUP m < l))) (l + LHUP m) = quad h l + 2 ^ 16 * wide m"
  by (simp only: quad_add quad_LHUP)

lemma acc_sub: "quad (h - (HHALF m + of_bool_int (l - LHUP m > l))) (l - LHUP m) = quad h l - 2 ^ 16 * wide m"
  by (simp only: quad_sub quad_LHUP)

lemma acc_low: "quad (if l + m < m then h + 1 else h) (l + m) = quad h l + wide m"
proof -
  have "(if l + m < m then h + 1 else h) = h + (0 + of_bool_int (m + l < m))" by (simp add: of_bool_int_def add.commute)
  then have "quad (if l + m < m then h + 1 else h) (l + m) = quad (h + (0 + of_bool_int (m + l < m))) (m + l)" by (simp add: add.commute)
  also have "\<dots> = quad h m + quad 0 l" by (rule quad_add)
  finally show ?thesis by (simp add: quad_up up_ring(5))
qed

lemma acc_high: "quad (m + HHALF m) (LHUP m) = (2 ^ 32 + 2 ^ 16) * wide m"
  using quad_LHUP [of m] unfolding quad_up up_ring(1) up_ring(7) [of m] by (simp add: algebra_simps)

lemma lmulq_product: "lmulq u v = wide u * wide v"
proof -
  let ?u1 = "HHALF u" and ?u0 = "LHALF u" and ?v1 = "HHALF v" and ?v0 = "LHALF v"
  let ?mid = "(if ?u1 \<ge> ?u0 then ?u1 - ?u0 else ?u0 - ?u1) * (if ?v0 \<ge> ?v1 then ?v0 - ?v1 else ?v1 - ?v0)"
  let ?neg = "(?u1 \<ge> ?u0) \<noteq> (?v0 \<ge> ?v1)"
  note h = half_less [of u] half_less [of v]
  have P: "wide (?u0 * ?v0) = wide ?u0 * wide ?v0" "wide (?u1 * ?v1) = wide ?u1 * wide ?v1" by (rule wide_mult; rule h)+
  show ?thesis
  proof (cases "?u1 = 0 \<and> ?v1 = 0")
    case True
    then have "lmulq u v = wide (?u0 * ?v0)" by (simp add: lmulq_def Let_def wide_def)
    moreover have "wide u = wide ?u0" "wide v = wide ?v0" using wide_halves [of u] wide_halves [of v] True by (simp_all add: wide_def)
    ultimately show ?thesis using P(1) by simp
  next
    case False
    have "lmulq u v = (2 ^ 32 + 2 ^ 16) * wide (?u1 * ?v1) + 2 ^ 16 * (if ?neg then - wide ?mid else wide ?mid)
        + 2 ^ 16 * wide (?u0 * ?v0) + wide (?u0 * ?v0)"
    proof (cases ?neg)
      case True
      show ?thesis unfolding lmulq_def Let_def if_not_P [OF False] if_P [OF True] prod.case acc_low acc_add acc_sub acc_high by simp
    next
      case n: False
      show ?thesis unfolding lmulq_def Let_def if_not_P [OF False] if_not_P [OF n] prod.case acc_low acc_add acc_sub acc_high by simp
    qed
    also have "\<dots> = wide u * wide v"
      unfolding mid_term [OF h(2,1,4,3)] P wide_halves [of u] wide_halves [of v] by (simp add: algebra_simps)
    finally show ?thesis .
  qed
qed

text \<open>Multiples of the square of \<open>2 ^ 32\<close> vanish.\<close>

lemma vanish:
  fixes k a b c d x y :: quad_t
  assumes "k * k = 0" "k * y + x = c * d"
  shows "k * (a * b) + k * ((a - c) * (d - b)) + k * x + k * y + x = (k * a + c) * (k * b + d)"
proof -
  have z: "k * (k * z) = 0" for z using assms(1) by (metis mult.assoc mult_zero_left)
  have "k * x = k * (k * y + x)" using z [of y] by (simp add: distrib_left)
  also have "\<dots> = k * (c * d)" by (simp only: assms(2))
  finally have "k * (a * b) + k * ((a - c) * (d - b)) + k * x + (k * y + x) = k * (a * b) + k * ((a - c) * (d - b)) + k * (c * d) + c * d"
    by (simp only: assms(2))
  moreover have "(k * a + c) * (k * b + d) = k * (k * (a * b)) + k * (a * d) + k * (b * c) + c * d" by (simp add: algebra_simps)
  ultimately show ?thesis using z [of "a * b"] by (simp add: algebra_simps)
qed

lemma mul_halves:
  "(if hi u = 0 \<and> hi v = 0 then lmulq (lo u) (lo v)
    else quad (hi u * hi v + (if (hi u \<ge> lo u) \<noteq> (lo v \<ge> hi v)
        then - ((if hi u \<ge> lo u then hi u - lo u else lo u - hi u) * (if lo v \<ge> hi v then lo v - hi v else hi v - lo v))
        else (if hi u \<ge> lo u then hi u - lo u else lo u - hi u) * (if lo v \<ge> hi v then lo v - hi v else hi v - lo v))
      + lo (lmulq (lo u) (lo v)) + hi (lmulq (lo u) (lo v))) (lo (lmulq (lo u) (lo v)))) = u * v" (is "(if ?z then ?L else quad (_ + ?M + _ + _) _) = _")
proof -
  have e: "u = 2 ^ 32 * wide (hi u) + wide (lo u)" "v = 2 ^ 32 * wide (hi v) + wide (lo v)"
    using quad_up [of "hi u" "lo u"] quad_up [of "hi v" "lo v"] up_ring(7) [of "hi u"] up_ring(7) [of "hi v"] by simp_all
  have l: "2 ^ 32 * wide (hi ?L) + wide (lo ?L) = wide (lo u) * wide (lo v)"
    using quad_up [of "hi ?L" "lo ?L"] up_ring(7) [of "hi ?L"] by (simp add: lmulq_product)
  have m: "up ?M = 2 ^ 32 * ((wide (hi u) - wide (lo u)) * (wide (lo v) - wide (hi v)))"
    by (auto simp: up_ring(3,4) wide_minus algebra_simps)
  have k: "(2 ^ 32 :: quad_t) * 2 ^ 32 = 0" by simp
  show ?thesis
  proof (cases ?z)
    case True
    then show ?thesis using e by (simp add: lmulq_product wide_def)
  next
    case False
    have "quad (hi u * hi v + ?M + lo ?L + hi ?L) (lo ?L) = 2 ^ 32 * (wide (hi u) * wide (hi v))
        + 2 ^ 32 * ((wide (hi u) - wide (lo u)) * (wide (lo v) - wide (hi v))) + 2 ^ 32 * wide (lo ?L) + 2 ^ 32 * wide (hi ?L) + wide (lo ?L)"
      by (simp only: quad_up up_ring(1) m up_ring(4) up_ring(7) [of "lo ?L"] up_ring(7) [of "hi ?L"])
    also have "\<dots> = (2 ^ 32 * wide (hi u) + wide (lo u)) * (2 ^ 32 * wide (hi v) + wide (lo v))" by (rule vanish [OF k l])
    finally show ?thesis by (simp only: if_not_P [OF False] e [symmetric])
  qed
qed

lemma muldi3_times: "muldi3 a b = a * b"
  unfolding muldi3_def Let_def mul_halves by auto

text \<open>
  C40. The routines the compiler calls for 64-bit integers compute, with operations on 32-bit halves and 16-bit quarters,
  exactly what the operations on words of 64 bits do: addition, subtraction and negation with the carry and the borrow out
  of the lower half, both comparisons (0, 1 or 2), the bitwise operations, the four shifts for every count below 64, and the
  product modulo 2 to the 64 obtained from three products of halves.
\<close>
theorem quad_operations:
  assumes "s < 64"
  shows "adddi3 a b = a + b \<and> subdi3 a b = a - b \<and> negdi2 a = - a \<and> muldi3 a b = a * b
    \<and> cmpdi2 a b = (if sint a < sint b then 0 else if sint b < sint a then 2 else 1)
    \<and> ucmpdi2 a b = (if a < b then 0 else if b < a then 2 else 1)
    \<and> anddi3 a b = a AND b \<and> iordi3 a b = a OR b \<and> xordi3 a b = a XOR b \<and> one_cmpldi2 a = NOT a
    \<and> ashldi3 a s = push_bit s a \<and> lshldi3 a s = push_bit s a \<and> lshrdi3 a s = drop_bit s a \<and> ashrdi3 a s = signed_drop_bit s a"
  by (simp only: adddi3_plus subdi3_minus negdi2_uminus muldi3_times cmpdi2_cases ucmpdi2_cases bitwise shifts_left [OF assms]
      shift_right [OF assms] shift_right_signed [OF assms] simp_thms)

theorem quad_operations_witness:
  "muldi3 0x123456789 (- 3) = - 0x369D0369B \<and> cmpdi2 0x123456789 (- 3) = 2 \<and> ucmpdi2 0x123456789 (- 3) = 0
    \<and> lshrdi3 0x123456789 33 = 0 \<and> ashldi3 0x123456789 33 = 0x468ACF1200000000"
  using quad_operations [of 33 "0x123456789" "- 3"] by (simp add: push_bit_eq_mult drop_bit_eq_div)

end
