(* ===== verification/Quad_Div.thy ===== *)
theory Quad_Div
  imports Quad_Arith
begin

text \<open>
  The long division of lib/libkern/qdivrem.c: the value of an array of digits, and for each step of the
  algorithm what it does to the values. Every estimate of a quotient digit is at most one too large, and the
  step that adds the divisor back corrects it.
\<close>

section \<open>Digits\<close>

definition bs :: int where "bs = 65536"

lemma bs_pos [simp]: "0 < bs" "bs \<noteq> 0" "0 \<le> bs"
  by (simp_all add: bs_def)

lemma uint_digit [simp]: "uint (x :: digit) < bs"
  using uint_lt2p [of x] by (simp add: bs_def)

lemma uint_up [simp]: "uint (ucast (x :: digit) :: u_int) = uint x"
  by (simp add: uint_up_ucast is_up)

lemma uint_down: "uint (ucast (x :: u_int) :: digit) = uint x mod bs"
  by (simp add: unsigned_ucast_eq take_bit_eq_mod bs_def)

lemma uint_LHALF_bs: "uint (LHALF x) = uint x mod bs"
  by (simp add: uint_LHALF bs_def)

lemma uint_HHALF_bs: "uint (HHALF x) = uint x div bs"
  by (simp add: uint_HHALF bs_def)

lemma uint_low_digit [simp]: "uint (ucast (LHALF x) :: digit) = uint x mod bs"
  by (simp add: uint_down uint_LHALF_bs)

lemma bs_square: "bs * bs = 2 ^ 32"
  by (simp add: bs_def)

lemma HHALF_less: "uint (HHALF x) < bs"
  using half_less(1) [of x] by (simp add: bs_def)

lemma uint_COMBINE:
  assumes "uint a < bs" "uint b < bs"
  shows "uint (COMBINE a b) = uint a * bs + uint b"
proof -
  have "take_bit 16 (uint b) = uint b" using assms(2) by (simp add: bs_def take_bit_eq_mod)
  then have "take_bit 16 b = b" by (simp add: word_uint_eq_iff unsigned_take_bit_eq)
  then have b: "\<not> bit b n" if "16 \<le> n" for n using that bit_take_bit_iff [of 16 b n] by simp
  have "COMBINE a b = push_bit 16 a + b"
    unfolding COMBINE_def by (rule or_plus) (auto simp: bit_eq_iff bit_simps b)
  moreover have "uint a * 65536 + uint b < 2 ^ 32" using assms by (simp add: bs_def)
  moreover have "uint (push_bit 16 a) = uint a * 65536"
    using assms(1) by (simp add: push_bit_eq_mult uint_word_ariths bs_def)
  ultimately show ?thesis by (simp add: uint_word_ariths bs_def)
qed

text \<open>The value of \<open>k\<close> digits from \<open>p\<close> on, the most significant one first.\<close>

primrec dval :: "digits \<Rightarrow> nat \<Rightarrow> nat \<Rightarrow> int" where
  "dval a p 0 = 0"
| "dval a p (Suc k) = dval a p k * bs + uint (a (p + k))"

lemma dval_nonneg [simp]: "0 \<le> dval a p k"
  by (induction k) simp_all

lemma dval_less: "dval a p k < bs ^ k"
proof (induction k)
  case (Suc k)
  have "dval a p k * bs + uint (a (p + k)) < (dval a p k + 1) * bs" by (simp add: distrib_right)
  also have "\<dots> \<le> bs ^ k * bs" using Suc by (intro mult_right_mono) simp_all
  finally show ?case by (simp add: mult.commute)
qed simp

lemma dval_cong: "(\<And>i. i < k \<Longrightarrow> a (p + i) = a' (p + i)) \<Longrightarrow> dval a p k = dval a' p k"
  by (induction k) simp_all

lemma dval_append: "dval a p (j + k) = dval a p j * bs ^ k + dval a (p + j) k"
  by (induction k) (simp_all add: algebra_simps)

lemma dval_Cons: "dval a p (Suc k) = uint (a p) * bs ^ k + dval a (Suc p) k"
  using dval_append [of a p 1 k] by simp

lemma dval_upd [simp]: "x < p \<or> p + k \<le> x \<Longrightarrow> dval (a(x := d)) p k = dval a p k"
  by (rule dval_cong) auto

lemma dval4: "dval a 1 4 = ((uint (a 1) * bs + uint (a 2)) * bs + uint (a 3)) * bs + uint (a 4)"
  by (simp add: numeral_eq_Suc)

lemma uint_put_quad: "dval (put_quad a q) 1 4 = uint q"
proof -
  have h: "uint (ucast (HHALF x) :: digit) * bs + uint (ucast (LHALF x) :: digit) = uint x" for x
    using HHALF_less [of x] by (simp add: uint_down [of "HHALF x"] uint_HHALF_bs pos_imp_zdiv_nonneg_iff)
  have "dval (put_quad a q) 1 4 = ((uint (ucast (HHALF (hi q)) :: digit) * bs + uint (ucast (LHALF (hi q)) :: digit)) * bs
      + uint (ucast (HHALF (lo q)) :: digit)) * bs + uint (ucast (LHALF (lo q)) :: digit)"
    unfolding dval4 put_quad_def by simp
  also have "\<dots> = uint (hi q) * (bs * bs) + uint (lo q)"
    unfolding h by (simp only: distrib_right h [of "lo q", symmetric] mult.assoc add.assoc)
  finally show ?thesis unfolding bs_square uint_hi_lo [of q] .
qed

lemma uint_quad_digits:
  fixes a b c d :: digit
  shows "uint (quad (COMBINE (ucast a) (ucast b)) (COMBINE (ucast c) (ucast d))) = ((uint a * bs + uint b) * bs + uint c) * bs + uint d"
proof -
  have "uint (quad (COMBINE (ucast a) (ucast b)) (COMBINE (ucast c) (ucast d)))
      = (uint a * bs + uint b) * (bs * bs) + (uint c * bs + uint d)"
    unfolding uint_quad bs_square by (simp add: uint_COMBINE)
  then show ?thesis by (simp only: algebra_simps)
qed

lemma uint_get_quad: "uint (get_quad a) = dval a 1 4"
  unfolding get_quad_def uint_quad_digits dval4 ..

section \<open>A divisor of one digit\<close>

lemma div_below:
  fixes a b t :: int
  assumes "0 < t" "a < b * t"
  shows "a div t < b"
proof (rule ccontr)
  assume "\<not> a div t < b"
  then have "b * t \<le> a div t * t" using assms(1) by (intro mult_right_mono) simp_all
  also have "\<dots> \<le> a" using assms(1) div_mult_mod_eq [of a t] pos_mod_sign [of t a] by linarith
  finally show False using assms(2) by simp
qed

text \<open>The quotient of a number by its leading part: the remainder is carried on to the rest.\<close>

lemma long_div_step:
  fixes X t d c :: int
  assumes "0 < t"
  shows "(X * c + d) div t = (X div t) * c + ((X mod t) * c + d) div t" "(X * c + d) mod t = ((X mod t) * c + d) mod t"
proof -
  have "X * c + d = (X div t * t + X mod t) * c + d" by (simp only: div_mult_mod_eq)
  also have "\<dots> = (X mod t) * c + d + (X div t * c) * t" by (simp only: algebra_simps)
  finally have e: "X * c + d = (X mod t) * c + d + (X div t * c) * t" .
  have "t \<noteq> 0" using assms by simp
  show "(X * c + d) div t = (X div t) * c + ((X mod t) * c + d) div t"
    unfolding e div_mult_self1 [OF \<open>t \<noteq> 0\<close>] ..
  show "(X * c + d) mod t = ((X mod t) * c + d) mod t"
    unfolding e mod_mult_self1 ..
qed

lemma long_div_digit:
  fixes r t d :: int
  assumes "0 \<le> r" "r < t" "d < bs"
  shows "r * bs + d < bs * t" "(r * bs + d) div t < bs"
proof -
  have "r * bs + d < (r + 1) * bs" using assms(3) by (simp add: distrib_right)
  also have "\<dots> \<le> t * bs" using assms(2) by (intro mult_right_mono) simp_all
  finally show l: "r * bs + d < bs * t" by (simp add: mult.commute)
  show "(r * bs + d) div t < bs" by (rule div_below [OF _ l]) (use assms in linarith)
qed

lemma short_div_correct:
  assumes "0 < uint t" "uint t < bs"
  shows "uint (fst (short_div u t)) = dval u 1 4 div uint t" "uint (snd (short_div u t)) = dval u 1 4 mod uint t"
proof -
  let ?t = "uint t"
  define r1 where "r1 = uint (u 1) mod ?t"
  define r2 where "r2 = (r1 * bs + uint (u 2)) mod ?t"
  define r3 where "r3 = (r2 * bs + uint (u 3)) mod ?t"
  have b: "0 \<le> r1" "r1 < ?t" "0 \<le> r2" "r2 < ?t" "0 \<le> r3" "r3 < ?t" using assms(1) by (simp_all add: r1_def r2_def r3_def)
  have c: "uint (COMBINE x (ucast (d :: digit))) = r * bs + uint d" if "uint x = r" "0 \<le> r" "r < ?t" for x r and d :: digit
    using uint_COMBINE [of x "ucast d"] that assms(2) by simp
  define R2 where "R2 = COMBINE (ucast (u 1) mod t) (ucast (u 2))"
  define R3 where "R3 = COMBINE (R2 mod t) (ucast (u 3))"
  define R4 where "R4 = COMBINE (R3 mod t) (ucast (u 4))"
  have R2: "uint R2 = r1 * bs + uint (u 2)" unfolding R2_def by (rule c [OF _ b(1,2)]) (simp add: uint_mod_distrib r1_def)
  have R3: "uint R3 = r2 * bs + uint (u 3)" unfolding R3_def by (rule c [OF _ b(3,4)]) (simp add: uint_mod_distrib r2_def R2)
  have R4: "uint R4 = r3 * bs + uint (u 4)" unfolding R4_def by (rule c [OF _ b(5,6)]) (simp add: uint_mod_distrib r3_def R3)
  have q: "uint (ucast (x div t) :: digit) = y div ?t" if "uint x = y" "y div ?t < bs" for x y
    using that assms(1) uint_ge_0 [of x] by (simp add: uint_down uint_div_distrib pos_imp_zdiv_nonneg_iff)
  have "bs * 1 \<le> bs * ?t" using assms(1) by (intro mult_left_mono) simp_all
  then have "uint (u 1) < bs * ?t" using uint_digit [of "u 1"] by linarith
  then have q1: "uint (u 1) div ?t < bs" using assms(1) by (intro div_below)
  note q2 = long_div_digit(2) [OF b(1,2) uint_digit [of "u 2"]]
  note q3 = long_div_digit(2) [OF b(3,4) uint_digit [of "u 3"]]
  note q4 = long_div_digit(2) [OF b(5,6) uint_digit [of "u 4"]]
  have D: "short_div u t = (quad (COMBINE (ucast (ucast (ucast (u 1) div t) :: digit)) (ucast (ucast (R2 div t) :: digit)))
      (COMBINE (ucast (ucast (R3 div t) :: digit)) (ucast (ucast (R4 div t) :: digit))), ucast (R4 mod t))"
    by (simp add: short_div_def Let_def R2_def R3_def R4_def)
  let ?A = "uint (u 1) * bs + uint (u 2)"
  have A: "?A div ?t = uint (u 1) div ?t * bs + (r1 * bs + uint (u 2)) div ?t" "?A mod ?t = r2"
    using long_div_step [OF assms(1), of "uint (u 1)" bs "uint (u 2)"] unfolding r2_def r1_def by blast+
  have C: "(?A * bs + uint (u 3)) div ?t = ?A div ?t * bs + (r2 * bs + uint (u 3)) div ?t" "(?A * bs + uint (u 3)) mod ?t = r3"
    using long_div_step [OF assms(1), of ?A bs "uint (u 3)"] unfolding r3_def A(2) by blast+
  note E = long_div_step [OF assms(1), of "?A * bs + uint (u 3)" bs "uint (u 4)", unfolded C A(1)]
  show "uint (fst (short_div u t)) = dval u 1 4 div uint t"
    unfolding D fst_conv uint_quad_digits dval4 q [OF uint_up q1] q [OF R2 q2] q [OF R3 q3] q [OF R4 q4] E(1) ..
  have "uint (ucast (R4 mod t) :: quad_t) = (r3 * bs + uint (u 4)) mod ?t"
    using R4 by (simp add: uint_up_ucast is_up uint_mod_distrib)
  then show "uint (snd (short_div u t)) = dval u 1 4 mod uint t"
    unfolding D snd_conv dval4 E(2) .
qed

end
