(* ===== verification/Quad_Long.thy ===== *)
theory Quad_Long
  imports Quad_Div
begin

text \<open>
  Steps D3 to D7 of the long division: the estimate of a quotient digit, the multiplication and subtraction,
  the step that adds the divisor back, and the loop over the digits.
\<close>

section \<open>The estimate (D3)\<close>

lemma uint_mult_less:
  fixes x y :: u_int
  assumes "uint x < bs" "uint y < bs"
  shows "uint (x * y) = uint x * uint y" "uint x * uint y \<le> (bs - 1) * (bs - 1)"
proof -
  show m: "uint x * uint y \<le> (bs - 1) * (bs - 1)" using assms by (intro mult_mono) simp_all
  then have "uint x * uint y < 2 ^ 32" by (simp add: bs_def)
  then show "uint (x * y) = uint x * uint y" by (simp add: uint_word_ariths)
qed

lemma uint_plus_small:
  fixes x y :: u_int
  assumes "uint x < bs" "uint y < bs"
  shows "uint (x + y) = uint x + uint y"
  using assms by (simp add: uint_word_ariths bs_def)

lemma uint_pred:
  fixes x :: u_int
  assumes "0 < uint x"
  shows "uint (x - 1) = uint x - 1"
  using assms uint_bounds(2) [of x] by (simp add: uint_word_ariths)

lemma uint_B: "uint B = bs" "uint (B - 1) = bs - 1"
  by (simp_all add: bs_def)

text \<open>
  \<open>good v1 v2 N u2 q\<close> says that \<open>q\<close> is the quotient of the three leading digits of the dividend by the two leading
  digits of the divisor, or the largest digit when that quotient is not a digit.
\<close>

definition good :: "int \<Rightarrow> int \<Rightarrow> int \<Rightarrow> int \<Rightarrow> int \<Rightarrow> bool" where
  "good v1 v2 N u2 q \<longleftrightarrow> 0 \<le> q \<and> q < bs \<and> q * (v1 * bs + v2) \<le> N * bs + u2 \<and> (q = bs - 1 \<or> N * bs + u2 < (q + 1) * (v1 * bs + v2))"

lemma product_le_remainder:
  fixes q v1 v2 r N u2 :: int
  assumes "q * v1 + r = N"
  shows "q * (v1 * bs + v2) \<le> N * bs + u2 \<longleftrightarrow> v2 * q \<le> r * bs + u2"
  unfolding assms [symmetric] by (simp add: algebra_simps)

lemma remainder_large:
  fixes q v2 r u2 :: int
  assumes "bs \<le> r" "0 \<le> q" "q < bs" "0 \<le> v2" "v2 < bs" "0 \<le> u2"
  shows "v2 * q \<le> r * bs + u2"
proof -
  have "v2 * q \<le> bs * bs" using assms by (intro mult_mono) simp_all
  also have "\<dots> \<le> r * bs" using assms(1) by (intro mult_right_mono) simp_all
  finally show ?thesis using assms(6) by simp
qed

lemma qhat_loop_good:
  assumes "uint v1 < bs" "0 < uint v1" "uint v2 < bs" "uint uj2 < bs" "uint qhat < bs" "uint rhat < bs"
    and "uint qhat * uint v1 + uint rhat = N"
    and "uint qhat = bs - 1 \<or> N * bs + uint uj2 < (uint qhat + 1) * (uint v1 * bs + uint v2)"
  shows "good (uint v1) (uint v2) N (uint uj2) (uint (qhat_loop v1 v2 uj2 qhat rhat))"
  using assms
proof (induction v1 v2 uj2 qhat rhat rule: qhat_loop.induct)
  case (1 v1 v2 uj2 qhat rhat)
  note le = product_le_remainder [of _ "uint v1" _ N "uint v2" "uint uj2"]
  have test: "COMBINE rhat uj2 < v2 * qhat \<longleftrightarrow> uint rhat * bs + uint uj2 < uint v2 * uint qhat"
    using "1.prems" by (simp add: word_less_def uint_COMBINE uint_mult_less)
  show ?case
  proof (cases "COMBINE rhat uj2 < v2 * qhat")
    case False
    then show ?thesis
      using "1.prems" le [of "uint qhat" "uint rhat"] by (simp add: qhat_loop.simps [of v1] test good_def)
  next
    case True
    then have "uint rhat * bs + uint uj2 < uint v2 * uint qhat" by (simp only: test)
    then have above: "N * bs + uint uj2 < uint qhat * (uint v1 * bs + uint v2)" using le [of "uint qhat" "uint rhat"] "1.prems" by simp
    have "0 \<le> uint rhat * bs + uint uj2" by simp
    then have "0 < uint v2 * uint qhat" using \<open>uint rhat * bs + uint uj2 < _\<close> by (rule le_less_trans)
    then have "uint qhat \<noteq> 0" by auto
    then have "0 < uint qhat" using uint_ge_0 [of qhat] by linarith
    then have p: "uint (qhat - 1) = uint qhat - 1" by (rule uint_pred)
    have r: "uint (rhat + v1) = uint rhat + uint v1" by (rule uint_plus_small) (use "1.prems" in simp_all)
    have N: "uint (qhat - 1) * uint v1 + uint (rhat + v1) = N" unfolding p r using "1.prems"(7) by (simp add: algebra_simps)
    show ?thesis
    proof (cases "rhat + v1 \<ge> B")
      case big: True
      then have "bs \<le> uint (rhat + v1)" by (simp add: word_le_def bs_def)
      then have "uint v2 * uint (qhat - 1) \<le> uint (rhat + v1) * bs + uint uj2"
        by (rule remainder_large) (use "1.prems" p \<open>0 < uint qhat\<close> in simp_all)
      then show ?thesis
        using big True above le [OF N] "1.prems"(5) p \<open>0 < uint qhat\<close> by (simp add: qhat_loop.simps [of v1] good_def)
    next
      case small: False
      then have "uint (rhat + v1) < bs" by (simp add: word_le_def bs_def)
      then show ?thesis
        using "1.IH" [OF True small "1.prems"(1-4) _ _ N] above "1.prems"(5) p small True by (simp add: qhat_loop.simps [of v1 v2 uj2 qhat])
    qed
  qed
qed

lemma qhat_of_good:
  assumes "uint v1 < bs" "0 < uint v1" "uint v2 < bs" "uint uj0 \<le> uint v1" "uint uj1 < bs" "uint uj2 < bs"
  shows "good (uint v1) (uint v2) (uint uj0 * bs + uint uj1) (uint uj2) (uint (qhat_of v1 v2 uj0 uj1 uj2))"
proof (cases "uj0 = v1")
  case True
  let ?r = "uj1 + v1"
  have r: "uint ?r = uint uj1 + uint v1" by (rule uint_plus_small) (use assms in simp_all)
  have N: "uint (B - 1) * uint v1 + uint ?r = uint uj0 * bs + uint uj1" unfolding uint_B r True by (simp add: algebra_simps)
  show ?thesis
  proof (cases "?r \<ge> B")
    case big: True
    then have "bs \<le> uint ?r" by (simp add: word_le_def bs_def)
    then have "uint v2 * uint (B - 1) \<le> uint ?r * bs + uint uj2"
      by (rule remainder_large) (use assms uint_B in simp_all)
    then have "good (uint v1) (uint v2) (uint uj0 * bs + uint uj1) (uint uj2) (uint (B - 1))"
      using product_le_remainder [OF N, of "uint v2" "uint uj2"] uint_B bs_pos by (simp only: good_def) auto
    moreover have "qhat_of v1 v2 uj0 uj1 uj2 = B - 1" using big True by (simp add: qhat_of_def Let_def)
    ultimately show ?thesis by (simp only:)
  next
    case small: False
    then have "uint ?r < bs" by (simp add: word_le_def bs_def)
    then have "good (uint v1) (uint v2) (uint uj0 * bs + uint uj1) (uint uj2) (uint (qhat_loop v1 v2 uj2 (B - 1) ?r))"
      by (intro qhat_loop_good [OF assms(1-3,6) _ _ N]) (simp_all only: uint_B, simp_all)
    moreover have "qhat_of v1 v2 uj0 uj1 uj2 = qhat_loop v1 v2 uj2 (B - 1) ?r" using small True by (simp add: qhat_of_def Let_def)
    ultimately show ?thesis by (simp only:)
  qed
next
  case False
  let ?n = "COMBINE uj0 uj1"
  let ?N = "uint uj0 * bs + uint uj1"
  have u0: "uint uj0 < uint v1" using assms(4) False by (metis order_le_less word_uint_eq_iff)
  have n: "uint ?n = ?N" by (rule uint_COMBINE) (use u0 assms in simp_all)
  have q: "uint (?n div v1) = ?N div uint v1" and r: "uint (?n mod v1) = ?N mod uint v1"
    by (simp_all add: uint_div_distrib uint_mod_distrib n)
  have m: "?N mod uint v1 < uint v1" using assms(2) by simp
  have e: "?N div uint v1 * uint v1 + ?N mod uint v1 = ?N" by simp
  have "?N + 1 \<le> (?N div uint v1 + 1) * uint v1" using e m unfolding distrib_right by linarith
  then have "(?N + 1) * bs \<le> (?N div uint v1 + 1) * uint v1 * bs" by (rule mult_right_mono) simp
  moreover have "0 \<le> (?N div uint v1 + 1) * uint v2" by (simp add: pos_imp_zdiv_nonneg_iff assms(2) add_nonneg_nonneg)
  ultimately have "?N * bs + uint uj2 < (?N div uint v1 + 1) * (uint v1 * bs + uint v2)"
    using assms(6) unfolding distrib_left mult.assoc distrib_right [of ?N 1 bs] by linarith
  then have "good (uint v1) (uint v2) ?N (uint uj2) (uint (qhat_loop v1 v2 uj2 (?n div v1) (?n mod v1)))"
    by (intro qhat_loop_good [OF assms(1-3,6)])
      (simp_all only: q r e, use long_div_digit(2) [OF uint_ge_0 u0 assms(5)] m assms(1) in simp_all)
  then show ?thesis using False by (simp add: qhat_of_def Let_def)
qed

text \<open>The estimate is the quotient digit or one more.\<close>

lemma good_estimate:
  fixes W V :: int
  assumes "good v1 v2 N u2 q"
    and "W = (N * bs + u2) * P + wl" "V = (v1 * bs + v2) * P + vl" "0 \<le> wl" "wl < P" "0 \<le> vl" "vl < P"
    and "W < bs * V" "1 \<le> v1" "0 \<le> v2"
  shows "W < (q + 1) * V" "(q - 1) * V \<le> W"
proof -
  let ?X = "N * bs + u2" and ?Y = "v1 * bs + v2"
  have q: "0 \<le> q" "q < bs" "q * ?Y \<le> ?X" "q = bs - 1 \<or> ?X < (q + 1) * ?Y" using assms(1) by (auto simp: good_def)
  have P: "0 < P" using assms(4,5) by linarith
  show "W < (q + 1) * V"
  proof (cases "q = bs - 1")
    case True
    then show ?thesis using assms(8) by simp
  next
    case False
    then have "?X + 1 \<le> (q + 1) * ?Y" using q(4) by linarith
    then have "(?X + 1) * P \<le> (q + 1) * ?Y * P" using P by (intro mult_right_mono) simp_all
    moreover have "0 \<le> (q + 1) * vl" using q(1) assms(6) by simp
    ultimately show ?thesis unfolding assms(2,3) using assms(5) by (simp add: distrib_left distrib_right mult.assoc)
  qed
  have "q * ?Y * P \<le> ?X * P" using q(3) P by (intro mult_right_mono) simp_all
  moreover have "q * vl \<le> bs * P" using q assms(6,7) by (intro mult_mono) simp_all
  moreover have "1 * bs + 0 \<le> ?Y" using assms(9,10) by (intro add_mono mult_right_mono) simp_all
  then have "bs * P \<le> ?Y * P" using P by (intro mult_right_mono) simp_all
  ultimately show "(q - 1) * V \<le> W" unfolding assms(2,3) using assms(4,6) by (simp add: algebra_simps)
qed

section \<open>Multiply and subtract, add back (D4 and D6)\<close>

lemma bs_mod: "x mod 2 ^ 32 mod bs = x mod bs" "x mod 2 ^ 32 div bs = (x div bs) mod bs"
proof -
  show "x mod 2 ^ 32 mod bs = x mod bs" unfolding bs_square [symmetric] by (rule mod_mod_cancel) simp
  show "x mod 2 ^ 32 div bs = (x div bs) mod bs" unfolding bs_square [symmetric] by (simp add: zmod_zmult2_eq)
qed

lemma neg_mod: "(bs - y mod bs) mod bs = (- y) mod bs"
  by (metis add_0 diff_0 minus_mod_self1 mod_diff_left_eq mod_diff_right_eq mod_self)

text \<open>One digit: what is stored and the borrow make up the difference.\<close>

lemma mulsub_digit:
  fixes a b :: digit and q t :: u_int
  assumes "uint q < bs" "uint t < bs"
  defines "x \<equiv> ucast a - ucast b * q - t"
  defines "c \<equiv> (B - HHALF x) AND (B - 1)"
  shows "uint (ucast (LHALF x) :: digit) - uint c * bs = uint a - uint b * uint q - uint t" "uint c < bs"
proof -
  let ?x = "uint a - uint b * uint q - uint t"
  have "uint (ucast b :: u_int) < bs" by simp
  note m = uint_mult_less [OF this assms(1)]
  have "x = word_of_int (uint a) - word_of_int (uint b * uint q) - word_of_int (uint t)"
    unfolding x_def m(1) [symmetric, unfolded uint_up] by simp
  then have "x = word_of_int ?x" by (simp only: wi_hom_syms)
  then have x: "uint x = ?x mod 2 ^ 32" by (simp only: uint_word_of_int take_bit_eq_mod) simp
  have h: "uint (HHALF x) = (?x div bs) mod bs" unfolding uint_HHALF_bs x bs_mod ..
  have c: "c = take_bit 16 (B - HHALF x)" unfolding c_def by (simp add: take_bit_eq_mask mask_eq_exp_minus_1)
  have c16: "uint c = uint (B - HHALF x) mod 2 ^ 16" unfolding c unsigned_take_bit_eq unfolding take_bit_eq_mod ..
  have "uint (B - HHALF x) = bs - uint (HHALF x)" using HHALF_less [of x] by (simp add: uint_sub_if' bs_def)
  then have "uint c = (bs - uint (HHALF x)) mod bs" unfolding c16 by (simp add: bs_def)
  then have c1: "uint c = (- (?x div bs)) mod bs" unfolding h neg_mod .
  have lower: "- (bs - 1) * bs \<le> ?x"
  proof -
    have "uint b * uint q + uint t \<le> (bs - 1) * (bs - 1) + (bs - 1)" using m(2) assms(2) by simp
    also have "\<dots> = (bs - 1) * bs" by (simp add: algebra_simps)
    finally show ?thesis using uint_ge_0 [of a] unfolding mult_minus_left by linarith
  qed
  then have "- (bs - 1) \<le> ?x div bs" using zdiv_mono1 [OF lower, of bs] by simp
  moreover have "?x < bs"
    using uint_digit [of a] uint_ge_0 [of t] mult_nonneg_nonneg [OF uint_ge_0 [of b] uint_ge_0 [of q]] by linarith
  then have "?x div bs < 1" by (intro div_below) simp_all
  ultimately have "uint c = - (?x div bs)" unfolding c1 by (intro mod_pos_pos_trivial) simp_all
  moreover have "uint (ucast (LHALF x) :: digit) = ?x mod bs" unfolding uint_low_digit x bs_mod ..
  ultimately show "uint (ucast (LHALF x) :: digit) - uint c * bs = ?x" by simp
  show "uint c < bs" unfolding c1 by simp
qed

lemma mulsub_value:
  assumes "mulsub k u uo v vo j q t = (u', t')" "uint q < bs" "uint t < bs"
  shows "dval u' (Suc (uo + j)) k - uint t' * bs ^ k = dval u (Suc (uo + j)) k - uint q * dval v (Suc vo) k - uint t
    \<and> uint t' < bs \<and> (\<forall>i. i \<le> uo + j \<or> uo + j + k < i \<longrightarrow> u' i = u i)"
  using assms
proof (induction k arbitrary: u t)
  case (Suc k)
  let ?p = "Suc (uo + j)"
  let ?x = "ucast (u (?p + k)) - ucast (v (Suc vo + k)) * q - t"
  let ?u = "u(?p + k := ucast (LHALF ?x))" and ?c = "(B - HHALF ?x) AND (B - 1)"
  have e: "mulsub k ?u uo v vo j q ?c = (u', t')" using Suc.prems(1) by (simp add: Let_def ac_simps)
  note d = mulsub_digit [OF Suc.prems(2,3), of "u (?p + k)" "v (Suc vo + k)"]
  note I = Suc.IH [OF e Suc.prems(2) d(2)]
  have w: "dval ?u ?p k = dval u ?p k" by simp
  have "u' (?p + k) = ?u (?p + k)" using I by simp
  then have X: "uint (u' (?p + k)) = uint (u (?p + k)) - uint (v (Suc vo + k)) * uint q - uint t + uint ?c * bs" using d(1) by simp
  have D: "dval u' ?p k = dval u ?p k - uint q * dval v (Suc vo) k - uint ?c + uint t' * bs ^ k" using conjunct1 [OF I, unfolded w] by linarith
  have "dval u' ?p (Suc k) - uint t' * bs ^ Suc k = dval u ?p (Suc k) - uint q * dval v (Suc vo) (Suc k) - uint t"
    unfolding dval.simps power_Suc X D by (simp only: algebra_simps)
  then show ?case using I by auto
qed simp

lemma addback_digit:
  fixes a b :: digit and t :: u_int
  assumes "uint t \<le> 1"
  defines "x \<equiv> t + (ucast a + ucast b)"
  shows "uint (ucast (LHALF x) :: digit) + uint (HHALF x) * bs = uint a + uint b + uint t" "uint (HHALF x) \<le> 1"
proof -
  have "uint (ucast a + ucast b :: u_int) = uint a + uint b" using uint_plus_small [of "ucast a" "ucast b"] by simp
  then have x: "uint x = uint a + uint b + uint t"
    using assms(1) uint_digit [of a] uint_digit [of b] by (simp add: x_def uint_word_ariths bs_def)
  then have "uint x < 2 * bs" using assms(1) uint_digit [of a] uint_digit [of b] by linarith
  then have "uint x div bs < 2" by (intro div_below) simp_all
  then show "uint (HHALF x) \<le> 1" by (simp add: uint_HHALF_bs)
  show "uint (ucast (LHALF x) :: digit) + uint (HHALF x) * bs = uint a + uint b + uint t"
    unfolding uint_low_digit uint_HHALF_bs x [symmetric] by (rule mod_div_mult_eq)
qed

lemma addback_value:
  assumes "addback k u uo v vo j t = (u', t')" "uint t \<le> 1"
  shows "dval u' (Suc (uo + j)) k + uint t' * bs ^ k = dval u (Suc (uo + j)) k + dval v (Suc vo) k + uint t
    \<and> uint t' \<le> 1 \<and> (\<forall>i. i \<le> uo + j \<or> uo + j + k < i \<longrightarrow> u' i = u i)"
  using assms
proof (induction k arbitrary: u t)
  case (Suc k)
  let ?p = "Suc (uo + j)"
  let ?x = "t + (ucast (u (?p + k)) + ucast (v (Suc vo + k)))"
  let ?u = "u(?p + k := ucast (LHALF ?x))"
  have e: "addback k ?u uo v vo j (HHALF ?x) = (u', t')" using Suc.prems(1) by (simp add: Let_def ac_simps)
  note d = addback_digit [OF Suc.prems(2), of "u (?p + k)" "v (Suc vo + k)"]
  note I = Suc.IH [OF e d(2)]
  have w: "dval ?u ?p k = dval u ?p k" by simp
  have "u' (?p + k) = ?u (?p + k)" using I by simp
  then have X: "uint (u' (?p + k)) = uint (u (?p + k)) + uint (v (Suc vo + k)) + uint t - uint (HHALF ?x) * bs" using d(1) by simp
  have D: "dval u' ?p k = dval u ?p k + dval v (Suc vo) k + uint (HHALF ?x) - uint t' * bs ^ k" using conjunct1 [OF I, unfolded w] by linarith
  have "dval u' ?p (Suc k) + uint t' * bs ^ Suc k = dval u ?p (Suc k) + dval v (Suc vo) (Suc k) + uint t"
    unfolding dval.simps power_Suc X D by (simp only: algebra_simps)
  then show ?case using I by auto
qed simp

section \<open>One digit of the quotient (D3 to D6)\<close>

lemma borrow_digit:
  fixes a :: digit and t :: u_int
  assumes "uint t < bs"
  defines "x \<equiv> ucast a - t"
  shows "uint (ucast (LHALF x) :: digit) = uint a - uint t + (if HHALF x \<noteq> 0 then bs else 0)"
proof (cases "uint t \<le> uint a")
  case True
  then have x: "uint x = uint a - uint t" by (simp add: x_def uint_sub_if')
  then have l: "uint x < bs" using uint_digit [of a] uint_ge_0 [of t] by linarith
  then have "uint (HHALF x) = 0" by (simp add: uint_HHALF_bs)
  then have "HHALF x = 0" by (simp add: uint_0_iff)
  then show ?thesis using l uint_ge_0 [of x] unfolding uint_low_digit by (simp add: x [symmetric])
next
  case False
  then have x: "uint x = uint a - uint t + 2 ^ 32" by (simp add: x_def uint_sub_if')
  have l: "0 \<le> uint a - uint t + bs" "uint a - uint t + bs < bs" using assms(1) uint_ge_0 [of a] False by linarith+
  have "uint x = bs * (bs - 1) + (uint a - uint t + bs)" unfolding x bs_square [symmetric] by (simp add: algebra_simps)
  then have "uint (HHALF x) = bs - 1" "uint (ucast (LHALF x) :: digit) = uint a - uint t + bs"
    unfolding uint_HHALF_bs uint_low_digit using int_div_pos_eq [OF _ l] int_mod_pos_eq [OF _ l] by blast+
  moreover have "HHALF x \<noteq> 0" using \<open>uint (HHALF x) = bs - 1\<close> by (auto simp: bs_def)
  ultimately show ?thesis by simp
qed

lemma top_digit_le:
  assumes "dval u p (Suc k) < dval v p' (Suc k)"
  shows "uint (u p) \<le> uint (v p')"
proof (rule ccontr)
  assume "\<not> uint (u p) \<le> uint (v p')"
  then have "(uint (v p') + 1) * bs ^ k \<le> uint (u p) * bs ^ k" by (intro mult_right_mono) simp_all
  moreover have "dval v p' (Suc k) < (uint (v p') + 1) * bs ^ k" using dval_less [of v "Suc p'" k] by (simp only: dval_Cons distrib_right mult_1_left add_less_cancel_left)
  ultimately show False using assms dval_nonneg [of u "Suc p" k] unfolding dval_Cons [of u p] by linarith
qed

lemma two_digits: "dval a p (Suc (Suc k)) = (uint (a p) * bs + uint (a (p + 1))) * bs ^ k + dval a (p + 2) k"
  using dval_append [of a p 2 k] by (simp add: numeral_2_eq_2)

lemma three_digits:
  "dval a p (Suc (Suc (Suc k))) = ((uint (a p) * bs + uint (a (p + 1))) * bs + uint (a (p + 2))) * bs ^ k + dval a (p + 3) k"
  using dval_append [of a p 3 k] by (simp add: numeral_3_eq_3 numeral_2_eq_2)

text \<open>The estimate is right or one too large.\<close>

lemma estimate:
  assumes "2 \<le> n" "v (vo + 1) \<noteq> 0" "dval u p n < dval v (Suc vo) n"
  defines "q \<equiv> uint (qhat_of (ucast (v (vo + 1))) (ucast (v (vo + 2))) (ucast (u p)) (ucast (u (p + 1))) (ucast (u (p + 2))))"
  shows "0 \<le> q" "q < bs" "dval u p (Suc n) < (q + 1) * dval v (Suc vo) n" "(q - 1) * dval v (Suc vo) n \<le> dval u p (Suc n)"
proof -
  obtain k where k: "n = Suc (Suc k)" using assms(1) by (metis add_2_eq_Suc le_Suc_ex)
  let ?v1 = "uint (v (vo + 1))" and ?v2 = "uint (v (vo + 2))"
  have v1: "0 < ?v1" using assms(2) by (simp add: order_less_le uint_0_iff)
  have "uint (u p) \<le> ?v1" using top_digit_le [OF assms(3) [unfolded k]] by simp
  with v1 have g: "good ?v1 ?v2 (uint (u p) * bs + uint (u (p + 1))) (uint (u (p + 2))) q"
    using qhat_of_good [of "ucast (v (vo + 1))" "ucast (v (vo + 2))" "ucast (u p)" "ucast (u (p + 1))" "ucast (u (p + 2))"]
    by (simp add: q_def)
  then show "0 \<le> q" "q < bs" by (simp_all add: good_def)
  have V: "dval v (Suc vo) n = (?v1 * bs + ?v2) * bs ^ k + dval v (Suc vo + 2) k"
    using two_digits [of v "Suc vo" k] by (simp add: k del: dval.simps)
  have W: "dval u p (Suc n) < bs * dval v (Suc vo) n"
    using long_div_digit(1) [OF dval_nonneg assms(3) uint_digit] by simp
  note e = good_estimate [OF g three_digits [of u p k, folded k] V dval_nonneg dval_less dval_nonneg dval_less W]
  show "dval u p (Suc n) < (q + 1) * dval v (Suc vo) n" "(q - 1) * dval v (Suc vo) n \<le> dval u p (Suc n)"
    by (rule e; use v1 in simp)+
qed

lemma div_digit_correct:
  assumes "2 \<le> n" "v (vo + 1) \<noteq> 0" "dval u (uo + j) n < dval v (Suc vo) n" "div_digit u uo v vo n j = (u', d)"
  defines "W \<equiv> dval u (uo + j) (Suc n)" and "V \<equiv> dval v (Suc vo) n"
  shows "uint d = W div V \<and> dval u' (uo + j) (Suc n) = W mod V \<and> (\<forall>i. i < uo + j \<or> uo + j + n < i \<longrightarrow> u' i = u i)"
proof -
  let ?p = "uo + j" and ?M = "bs ^ Suc n"
  define q where "q = qhat_of (ucast (v (vo + 1))) (ucast (v (vo + 2))) (ucast (u ?p)) (ucast (u (?p + 1))) (ucast (u (?p + 2)))"
  have qq: "qhat_of (ucast (v (vo + 1))) (ucast (v (vo + 2))) (ucast (u ?p)) (ucast (u (uo + (j + 1)))) (ucast (u (uo + (j + 2)))) = q"
    by (simp add: q_def add.assoc)
  note E = estimate [OF assms(1-3), folded q_def W_def V_def]
  obtain u1 t1 where m: "mulsub n u uo v vo j q 0 = (u1, t1)" by fastforce
  note M = mulsub_value [OF m E(2), simplified, folded V_def]
  define x where "x = ucast (u1 ?p) - t1"
  define u2 where "u2 = u1(?p := ucast (LHALF x))"
  have u1: "u1 ?p = u ?p" using M by simp
  have top: "uint (u2 ?p) = uint (u ?p) - uint t1 + (if HHALF x \<noteq> 0 then bs else 0)"
    using borrow_digit [of t1 "u1 ?p"] M by (simp add: u2_def x_def u1)
  have low: "dval u2 (Suc ?p) n = dval u (Suc ?p) n - uint q * V + uint t1 * bs ^ n" using M by (simp add: u2_def)
  have u2: "dval u2 ?p (Suc n) = W - uint q * V + (if HHALF x \<noteq> 0 then ?M else 0)"
    unfolding W_def dval_Cons top low by (simp add: algebra_simps)
  have same: "u2 i = u i" if "i < ?p \<or> ?p + n < i" for i using M that by (auto simp: u2_def)
  have V: "0 < V" using assms(3) dval_nonneg [of u ?p n] unfolding V_def by linarith
  show ?thesis
  proof (cases "HHALF x \<noteq> 0")
    case False
    then have "div_digit u uo v vo n j = (u2, ucast q)"
      unfolding div_digit_def qq by (simp add: Let_def m x_def u2_def)
    then have "u' = u2" "uint d = uint q" using assms(4) E(2) by (auto simp: uint_down)
    moreover have W: "W = V * uint q + dval u2 ?p (Suc n)" using u2 False by simp
    moreover have "dval u2 ?p (Suc n) < V" using W E(3) by (simp add: algebra_simps)
    ultimately show ?thesis using same int_div_pos_eq [OF W dval_nonneg] int_mod_pos_eq [OF W dval_nonneg] by simp
  next
    case True
    obtain u3 t3 where a: "addback n u2 uo v vo j 0 = (u3, t3)" by fastforce
    note A = addback_value [OF a, simplified, folded V_def]
    define y where "y = ucast (u3 ?p) + t3"
    define u4 where "u4 = u3(?p := ucast (LHALF y))"
    have dd: "div_digit u uo v vo n j = (u4, ucast (q - 1))"
      using True a unfolding div_digit_def qq by (simp add: Let_def m x_def u2_def u4_def y_def)
    have y: "uint y = uint (u2 ?p) + uint t3"
    proof -
      have "uint t3 < bs" using A by (simp add: bs_def)
      then show ?thesis using A uint_plus_small [of "ucast (u3 ?p)" t3] by (simp add: y_def)
    qed
    have e1: "dval u4 ?p (Suc n) = (uint y mod bs) * bs ^ n + dval u3 (Suc ?p) n" unfolding dval_Cons by (simp add: u4_def)
    have e2: "uint y mod bs = uint (u2 ?p) + uint t3 - uint y div bs * bs" unfolding y [symmetric] by (rule minus_div_mult_eq_mod [symmetric])
    have e3: "dval u3 (Suc ?p) n = dval u2 (Suc ?p) n + V - uint t3 * bs ^ n" using A by simp
    have "dval u4 ?p (Suc n) = dval u2 ?p (Suc n) + V - uint y div bs * ?M"
      unfolding e1 e2 e3 dval_Cons [of u2] power_Suc by (simp only: algebra_simps)
    then have v4: "dval u4 ?p (Suc n) = W - (uint q - 1) * V + (1 - uint y div bs) * ?M"
      unfolding u2 using True by (simp add: algebra_simps)
    have less: "W < uint q * V" using u2 True dval_less [of u2 ?p "Suc n"] by simp
    then have "uint q \<noteq> 0" using dval_nonneg [of u ?p "Suc n", folded W_def] by auto
    then have q: "0 < uint q" using E(1) by linarith
    have R: "0 \<le> W - (uint q - 1) * V" "W - (uint q - 1) * V < V" using E(4) less by (simp_all add: algebra_simps)
    have "V < bs ^ n" unfolding V_def by (rule dval_less)
    also have "\<dots> \<le> ?M" by (simp add: bs_def)
    finally have "W - (uint q - 1) * V < ?M" using R(2) by linarith
    then have r: "dval u4 ?p (Suc n) = W - (uint q - 1) * V"
      using v4 R(1) dval_less [of u4 ?p "Suc n"] dval_nonneg [of u4 ?p "Suc n"] mod_mult_self1 [of "W - (uint q - 1) * V" "1 - uint y div bs" ?M]
      by (simp only: mod_pos_pos_trivial)
    have "uint (ucast (q - 1) :: digit) = uint q - 1" using uint_pred [OF q] q E(2) by (simp add: uint_down)
    then have d: "u' = u4" "uint d = uint q - 1" using dd assms(4) by auto
    have W: "W = V * (uint q - 1) + (W - (uint q - 1) * V)" by (simp add: algebra_simps)
    have "u4 i = u i" if "i < ?p \<or> ?p + n < i" for i using A that same by (auto simp: u4_def)
    then show ?thesis using d r int_div_pos_eq [OF W R] int_mod_pos_eq [OF W R] by simp
  qed
qed

section \<open>The loop over the digits (D7)\<close>

lemma div_loop_correct:
  assumes "div_loop k u uo v vo q qo n j = (u', q')" "2 \<le> n" "v (vo + 1) \<noteq> 0" "dval u (uo + j) n < dval v (Suc vo) n"
  shows "dval q' (qo + j) k = dval u (uo + j) (n + k) div dval v (Suc vo) n
    \<and> dval u' (uo + j) (n + k) = dval u (uo + j) (n + k) mod dval v (Suc vo) n
    \<and> (\<forall>i < uo + j. u' i = u i) \<and> (\<forall>i < qo + j. q' i = q i)"
  using assms(1,4)
proof (induction k arbitrary: u q j)
  case 0
  then show ?case by simp
next
  case (Suc k)
  let ?p = "uo + j" and ?V = "dval v (Suc vo) n"
  obtain u1 d where dd: "div_digit u uo v vo n j = (u1, d)" by fastforce
  note D = div_digit_correct [OF assms(2,3) Suc.prems(2) dd]
  have V: "0 < ?V" using Suc.prems(2) dval_nonneg [of u ?p n] by linarith
  have R: "dval u1 ?p (Suc n) < ?V" using D V by simp
  have zero: "uint (u1 ?p) = 0"
  proof (rule ccontr)
    assume "uint (u1 ?p) \<noteq> 0"
    then have "1 \<le> uint (u1 ?p)" using uint_ge_0 [of "u1 ?p"] by linarith
    then have "1 * bs ^ n \<le> uint (u1 ?p) * bs ^ n" by (intro mult_right_mono) simp_all
    then show False using R dval_less [of v "Suc vo" n] dval_nonneg [of u1 "Suc ?p" n] unfolding dval_Cons by linarith
  qed
  then have r: "dval u1 (Suc ?p) n = dval u ?p (Suc n) mod ?V" using D unfolding dval_Cons [of u1] by simp
  have "dval u1 (Suc ?p) n < ?V" unfolding r using V by simp
  then have pre: "dval u1 (uo + (j + 1)) n < ?V" by simp
  have loop: "div_loop k u1 uo v vo (q(qo + j := d)) qo n (j + 1) = (u', q')" using Suc.prems(1) dd by simp
  note I = Suc.IH [OF loop pre]
  let ?L = "dval u (?p + Suc n) k"
  have "dval u1 (?p + Suc n) k = ?L" using D by (intro dval_cong) simp
  then have T1: "dval u1 (uo + (j + 1)) (n + k) = (dval u ?p (Suc n) mod ?V) * bs ^ k + ?L"
    using dval_append [of u1 "Suc ?p" n k] r by simp
  have T: "dval u ?p (n + Suc k) = dval u ?p (Suc n) * bs ^ k + ?L" using dval_append [of u ?p "Suc n" k] by (simp only: add_Suc_shift)
  note L = long_div_step [OF V, of "dval u ?p (Suc n)" "bs ^ k" ?L, folded T T1]
  have "q' (qo + j) = d" "u' ?p = u1 ?p" using I by simp_all
  then have c: "dval q' (qo + j) (Suc k) = uint d * bs ^ k + dval q' (qo + (j + 1)) k" "dval u' ?p (n + Suc k) = dval u' (uo + (j + 1)) (n + k)"
    unfolding dval_Cons add_Suc_right by (simp_all add: zero)
  have "dval q' (qo + j) (Suc k) = dval u ?p (n + Suc k) div ?V" "dval u' ?p (n + Suc k) = dval u ?p (n + Suc k) mod ?V"
    unfolding c L conjunct1 [OF D] conjunct1 [OF I] conjunct1 [OF conjunct2 [OF I]] by (rule refl)+
  moreover have "\<forall>i < ?p. u' i = u i" "\<forall>i < qo + j. q' i = q i" using I D by simp_all
  ultimately show ?case by blast
qed

end
