(* ===== verification/Quad_Divrem.thy ===== *)
theory Quad_Divrem
  imports Quad_Long "HOL-Library.Signed_Division"
begin

text \<open>
  The division as a whole: the loops that skip leading zeros, the normalization of the operands and its undoing
  on the remainder, and the theorems about \<open>__qdivrem\<close> and the four routines the compiler calls.
\<close>

section \<open>Leading zeros\<close>

lemma dval_skip: "(\<And>i. p \<le> i \<Longrightarrow> i < p + j \<Longrightarrow> a i = 0) \<Longrightarrow> dval a p (j + k) = dval a (p + j) k"
proof -
  assume z: "\<And>i. p \<le> i \<Longrightarrow> i < p + j \<Longrightarrow> a i = 0"
  have "dval a p j = dval (\<lambda>_. 0) p j" by (rule dval_cong) (simp add: z)
  also have "\<dots> = 0" by (induction j) simp_all
  finally show ?thesis by (simp add: dval_append)
qed

lemma dval_0D: "dval a p k = 0 \<Longrightarrow> p \<le> i \<Longrightarrow> i < p + k \<Longrightarrow> a i = 0"
proof (induction k)
  case (Suc k)
  have "dval a p k * bs + uint (a (p + k)) = 0" using Suc.prems(1) by simp
  then have "dval a p k * bs = 0" "uint (a (p + k)) = 0"
    using add_nonneg_eq_0_iff [of "dval a p k * bs" "uint (a (p + k))"] by simp_all
  then show ?case using Suc by (cases "i = p + k") (auto simp: uint_0_iff)
qed simp

lemma dval_lower: "a p \<noteq> 0 \<Longrightarrow> bs ^ k \<le> dval a p (Suc k)"
proof -
  assume "a p \<noteq> 0"
  then have "1 \<le> uint (a p)" using uint_ge_0 [of "a p"] by (simp add: uint_0_iff int_one_le_iff_zero_less order_less_le)
  then have "1 * bs ^ k \<le> uint (a p) * bs ^ k" by (intro mult_right_mono) simp_all
  then show ?thesis using dval_nonneg [of a "Suc p" k] unfolding dval_Cons by linarith
qed

lemma skip_v_spec:
  assumes "skip_v v vo n = r" "2 \<le> n"
  shows "case r of None \<Rightarrow> \<forall>i. vo < i \<and> i < vo + n \<longrightarrow> v i = 0
    | Some (vo', n') \<Rightarrow> vo \<le> vo' \<and> vo' + n' = vo + n \<and> 2 \<le> n' \<and> v (vo' + 1) \<noteq> 0 \<and> (\<forall>i. vo < i \<and> i \<le> vo' \<longrightarrow> v i = 0)"
  using assms
proof (induction v vo n arbitrary: r rule: skip_v.induct)
  case (1 v vo n)
  consider "v (vo + 1) \<noteq> 0" | "v (vo + 1) = 0" "n = 2" | "v (vo + 1) = 0" "2 < n" using "1.prems"(2) by linarith
  then show ?case
  proof cases
    case 1
    then show ?thesis using "1.prems" by (auto simp: skip_v.simps [of v vo n])
  next
    case 2
    then have "r = None" using "1.prems"(1) by (simp add: skip_v.simps [of v vo 2])
    then show ?thesis using 2 by (auto simp: less_Suc_eq numeral_2_eq_2)
  next
    case 3
    then have r: "skip_v v (vo + 1) (n - 1) = r" using "1.prems" by (auto simp: skip_v.simps [of v vo n])
    have z: "v i = 0" if "vo < i" "i \<le> vo + 1" for i
    proof -
      have "i = vo + 1" using that by linarith
      then show ?thesis using 3(1) by simp
    qed
    have IH: "case r of None \<Rightarrow> \<forall>i. vo + 1 < i \<and> i < vo + 1 + (n - 1) \<longrightarrow> v i = 0
      | Some (vo', n') \<Rightarrow> vo + 1 \<le> vo' \<and> vo' + n' = vo + 1 + (n - 1) \<and> 2 \<le> n' \<and> v (vo' + 1) \<noteq> 0 \<and> (\<forall>i. vo + 1 < i \<and> i \<le> vo' \<longrightarrow> v i = 0)"
      by (rule "1.IH" [OF _ _ r]) (use 3 in simp_all)
    show ?thesis
    proof (cases r)
      case None
      then show ?thesis using IH z 3(2) by (simp add: not_less_eq) (metis Suc_eq_plus1 not_less)
    next
      case (Some s)
      then show ?thesis using IH z 3(2) by (cases s) (simp, metis Suc_eq_plus1 not_less)
    qed
  qed
qed

lemma skip_u_spec:
  "case skip_u m u uo of None \<Rightarrow> \<forall>i. uo < i \<and> i \<le> uo + m + 1 \<longrightarrow> u i = 0
    | Some (uo', m') \<Rightarrow> uo \<le> uo' \<and> uo' + m' = uo + m \<and> u (uo' + 1) \<noteq> 0 \<and> (\<forall>i. uo < i \<and> i \<le> uo' \<longrightarrow> u i = 0)"
proof (induction m arbitrary: uo)
  case 0
  show ?case by (auto simp: le_Suc_eq)
next
  case (Suc m)
  show ?case
  proof (cases "u (uo + 1) = 0")
    case False
    then show ?thesis by auto
  next
    case True
    have z: "u i = 0" if "uo < i" "\<not> uo + 1 < i" for i
    proof -
      have "i = uo + 1" using that by linarith
      then show ?thesis using True by simp
    qed
    show ?thesis using True Suc.IH [of "uo + 1"] z by (auto split: option.splits)
  qed
qed

section \<open>Normalization (D1)\<close>

lemma norm_shift_spec:
  assumes "t \<noteq> 0" "uint t < bs"
  shows "\<exists>e. norm_shift t d = Some (d + e) \<and> e < 16 \<and> uint t * 2 ^ e < bs"
  using assms
proof (induction t d rule: norm_shift.induct)
  case (1 t d)
  show ?case
  proof (cases "t < 0x8000")
    case False
    then show ?thesis using "1.prems" by (simp add: norm_shift.simps [of t d])
  next
    case True
    have s: "uint (push_bit 1 t) = 2 * uint t" using True by (simp add: word_less_def push_bit_eq_mult uint_word_ariths)
    then have "uint (push_bit 1 t) < bs" "push_bit 1 t \<noteq> 0" using True "1.prems"(1) by (auto simp: word_less_def bs_def uint_0_iff [symmetric])
    then obtain e where e: "norm_shift (push_bit 1 t) (d + 1) = Some (d + 1 + e)" "e < 16" "uint (push_bit 1 t) * 2 ^ e < bs"
      using "1.IH" [OF "1.prems"(1) True] by auto
    have b: "uint t * 2 ^ Suc e < bs" using e(3) unfolding s by (simp add: ac_simps)
    have "1 * 2 ^ Suc e \<le> uint t * 2 ^ Suc e"
      using "1.prems"(1) uint_ge_0 [of t] by (intro mult_right_mono) (simp_all add: int_one_le_iff_zero_less order_less_le uint_0_iff)
    then have "1 * 2 ^ Suc e < bs" using b by (rule le_less_trans)
    then have "(2 :: int) ^ Suc e < 2 ^ 16" by (simp only: bs_def) simp
    then have "Suc e < 16" by (rule power_less_imp_less_exp [rotated]) simp
    then show ?thesis using e(1) b True "1.prems"(1) by (intro exI [of _ "Suc e"]) (simp add: norm_shift.simps [of t d])
  qed
qed

text \<open>A digit shifted left, with the bits of the next one that come in.\<close>

lemma bs_split: "sh \<le> 16 \<Longrightarrow> (2 :: int) ^ (16 - sh) * 2 ^ sh = bs"
  by (simp add: bs_def power_add [symmetric])

lemma uint_or_digits:
  fixes x y :: u_int
  assumes "x AND y = 0" "uint x + uint y < bs"
  shows "uint (ucast (x OR y) :: digit) = uint x + uint y"
proof -
  have "uint x + uint y < 2 ^ 32" using assms(2) by (simp add: bs_def)
  then have "uint (x OR y) = uint x + uint y" using assms(1) by (simp add: or_plus uint_word_ariths)
  then show ?thesis using assms(2) by (simp add: uint_down)
qed

lemma uint_shift_left:
  fixes x :: digit
  assumes "sh < 16"
  shows "uint (LHALF (push_bit sh (ucast x))) = (uint x * 2 ^ sh) mod bs"
proof -
  have "uint (push_bit sh (ucast x) :: u_int) = (uint x * 2 ^ sh) mod 2 ^ 32"
    unfolding unsigned_push_bit_eq unfolding push_bit_eq_mult take_bit_eq_mod by simp
  then show ?thesis unfolding uint_LHALF_bs by (simp only: bs_mod)
qed

lemma uint_shift_right: "uint (drop_bit s (ucast (x :: digit)) :: u_int) = uint x div 2 ^ s"
  unfolding unsigned_drop_bit_eq unfolding drop_bit_eq_div using uint_digit [of x] by (simp add: take_bit_int_eq_self bs_def)

lemma shift_disjoint:
  fixes x y :: digit
  assumes "sh \<le> 16"
  shows "LHALF (push_bit sh (ucast x)) AND drop_bit (16 - sh) (ucast y) = (0 :: u_int)"
proof (rule bit_word_eqI)
  fix i
  show "bit (LHALF (push_bit sh (ucast x)) AND drop_bit (16 - sh) (ucast y) :: u_int) i \<longleftrightarrow> bit (0 :: u_int) i"
    using assms bit_imp_le_length [of y "16 - sh + i"] by (auto simp: LHALF_take bit_simps)
qed

lemma mod_shift: "sh \<le> 16 \<Longrightarrow> (a * 2 ^ sh) mod bs = (a mod 2 ^ (16 - sh)) * 2 ^ sh"
  unfolding bs_split [symmetric] by (rule mult_mod_left [symmetric])

lemma div_shift: "sh \<le> 16 \<Longrightarrow> (a * 2 ^ sh) div bs = a div 2 ^ (16 - sh)"
  unfolding bs_split [symmetric] by simp

lemma shift_digits:
  fixes x y :: digit
  assumes "0 < sh" "sh < 16"
  shows "uint (ucast (LHALF (push_bit sh (ucast x)) OR drop_bit (16 - sh) (ucast y) :: u_int) :: digit)
    = (uint x * 2 ^ sh) mod bs + uint y div 2 ^ (16 - sh)"
proof -
  have l: "sh \<le> 16" using assms(2) by simp
  have "uint y < 2 ^ sh * 2 ^ (16 - sh)" using uint_digit [of y] bs_split [OF l] by (simp only: mult.commute)
  then have y: "uint y div 2 ^ (16 - sh) < 2 ^ sh" by (intro div_below) simp_all
  have "uint x mod 2 ^ (16 - sh) < 2 ^ (16 - sh)" by simp
  then have "uint x mod 2 ^ (16 - sh) + 1 \<le> 2 ^ (16 - sh)" by linarith
  then have "(uint x mod 2 ^ (16 - sh) + 1) * 2 ^ sh \<le> 2 ^ (16 - sh) * 2 ^ sh" by (intro mult_right_mono) simp_all
  then have "(uint x * 2 ^ sh) mod bs + uint y div 2 ^ (16 - sh) < bs"
    using y unfolding mod_shift [OF l] bs_split [OF l] distrib_right by linarith
  then show ?thesis using uint_or_digits [OF shift_disjoint [OF l, of x y]] by (simp add: uint_shift_left assms uint_shift_right)
qed

lemma shl_from_value:
  assumes "0 < sh" "sh < 16" "i \<le> len"
  shows "dval (shl_from a p i len sh) (p + i) (Suc (len - i)) + uint (a (p + i)) * 2 ^ sh div bs * bs ^ Suc (len - i)
      = dval a (p + i) (Suc (len - i)) * 2 ^ sh
    \<and> (\<forall>j. j < p + i \<or> p + len < j \<longrightarrow> shl_from a p i len sh j = a j)"
  using assms
proof (induction a p i len sh rule: shl_from.induct)
  case (1 a p i len sh)
  let ?x = "uint (a (p + i)) * 2 ^ sh"
  have x: "?x mod bs = ?x - ?x div bs * bs" by (rule minus_div_mult_eq_mod [symmetric])
  show ?case
  proof (cases "i < len")
    case False
    then have "shl_from a p i len sh = a(p + i := ucast (LHALF (push_bit sh (ucast (a (p + i))))))" by (simp add: shl_from.simps [of a])
    moreover have "uint (ucast (LHALF (push_bit sh (ucast (a (p + i))))) :: digit) = ?x mod bs"
      using "1.prems" by (simp add: uint_down uint_shift_left)
    ultimately show ?thesis using False "1.prems"(3) x by auto
  next
    case True
    define z :: digit where "z = ucast (LHALF (push_bit sh (ucast (a (p + i)))) OR drop_bit (16 - sh) (ucast (a (p + i + 1)) :: u_int))"
    have e: "shl_from a p i len sh = shl_from (a(p + i := z)) p (i + 1) len sh" using True by (simp add: shl_from.simps [of a] z_def)
    let ?a = "shl_from (a(p + i := z)) p (i + 1) len sh"
    obtain k where k: "len - i = Suc k" "len - (i + 1) = k" using True by (metis Suc_diff_Suc diff_Suc_1 Suc_eq_plus1 diff_diff_left)
    have z: "uint z = ?x mod bs + uint (a (p + i + 1)) * 2 ^ sh div bs"
      unfolding z_def using shift_digits [OF "1.prems"(1,2)] div_shift [of sh] "1.prems"(2) by simp
    have IH: "dval ?a (p + (i + 1)) (Suc k) + uint ((a(p + i := z)) (p + (i + 1))) * 2 ^ sh div bs * bs ^ Suc k
        = dval (a(p + i := z)) (p + (i + 1)) (Suc k) * 2 ^ sh
      \<and> (\<forall>j. j < p + (i + 1) \<or> p + len < j \<longrightarrow> ?a j = (a(p + i := z)) j)"
      unfolding k(2) [symmetric] by (rule "1.IH" [OF True, folded z_def]) (use "1.prems" True in simp_all)
    have r: "dval ?a (Suc (p + i)) (Suc k) = dval a (Suc (p + i)) (Suc k) * 2 ^ sh - uint (a (p + i + 1)) * 2 ^ sh div bs * bs ^ Suc k"
      using conjunct1 [OF IH] by (simp del: dval.simps)
    have t: "?a (p + i) = z" using IH by simp
    have "dval ?a (p + i) (Suc (Suc k)) + ?x div bs * bs ^ Suc (Suc k) = dval a (p + i) (Suc (Suc k)) * 2 ^ sh"
      unfolding dval_Cons [of _ _ "Suc k"] t z r x power_Suc [of bs "Suc k"] by (simp add: algebra_simps del: dval.simps)
    then show ?thesis unfolding e k using conjunct2 [OF IH] True by (simp del: dval.simps)
  qed
qed

lemma shl_value:
  assumes "0 < sh" "sh < 16" "uint (a p) * 2 ^ sh < bs"
  shows "dval (shl a p len sh) p (Suc len) = dval a p (Suc len) * 2 ^ sh"
    and "j < p \<or> p + len < j \<Longrightarrow> shl a p len sh j = a j"
proof -
  have "uint (a p) * 2 ^ sh div bs = 0" using assms(3) by simp
  then show "dval (shl a p len sh) p (Suc len) = dval a p (Suc len) * 2 ^ sh"
    using shl_from_value [OF assms(1,2), of 0 len a p] by (simp add: shl_def del: dval.simps)
  show "shl a p len sh j = a j" if "j < p \<or> p + len < j"
    using conjunct2 [OF shl_from_value [OF assms(1,2), of 0 len a p]] that by (auto simp: shl_def)
qed

section \<open>The remainder\<close>

lemma unshift_step:
  fixes D x y c :: int
  assumes d: "0 < d" "d < 16" and D: "D mod bs = y" and x: "0 \<le> x" "x < bs" and "0 < c"
  shows "((D * bs + x) div 2 ^ d) mod (bs * c) = ((D div 2 ^ d) mod c) * bs + (x div 2 ^ d + (y * 2 ^ (16 - d)) mod bs)"
proof -
  let ?E = "2 ^ (16 - d) :: int" and ?F = "D mod 2 ^ d"
  have s: "?E * 2 ^ d = bs" using d by (intro bs_split) simp
  have "(D * bs + x) div 2 ^ d = (D * ?E) + x div 2 ^ d"
    using div_mult_self3 [of "2 ^ d" "D * ?E" x] by (simp add: s mult.assoc)
  also have "D * ?E = (D div 2 ^ d * 2 ^ d + ?F) * ?E" by (simp only: div_mult_mod_eq)
  also have "\<dots> = (D div 2 ^ d) * bs + ?F * ?E" by (simp only: distrib_right mult.assoc mult.commute [of "2 ^ d"] s)
  finally have e: "(D * bs + x) div 2 ^ d = (D div 2 ^ d) * bs + (x div 2 ^ d + ?F * ?E)" by simp
  have "2 ^ d dvd bs" unfolding s [symmetric] by simp
  then have "y mod 2 ^ d = ?F" unfolding D [symmetric] by (rule mod_mod_cancel)
  then have f: "(y * ?E) mod bs = ?F * ?E" using mod_shift [of "16 - d" y] d by simp
  have "x < ?E * 2 ^ d" using x s by simp
  then have "x div 2 ^ d < ?E" by (intro div_below) simp_all
  moreover have "?F < 2 ^ d" by simp
  then have "?F + 1 \<le> 2 ^ d" by linarith
  then have "(?F + 1) * ?E \<le> 2 ^ d * ?E" by (intro mult_right_mono) simp_all
  ultimately have less: "x div 2 ^ d + ?F * ?E < bs" unfolding distrib_right s [symmetric] mult.commute [of ?E "2 ^ d"] by linarith
  have "0 \<le> x div 2 ^ d + ?F * ?E" using x by (simp add: pos_imp_zdiv_nonneg_iff)
  then show ?thesis unfolding e f using less \<open>0 < c\<close> by (simp add: zmod_zmult2_eq mult.commute)
qed

lemma unshift_digit:
  fixes x y :: digit
  assumes "0 < d" "d < 16"
  shows "uint (ucast (drop_bit d (ucast x :: u_int) OR LHALF (push_bit (16 - d) (ucast y))) :: digit)
    = uint x div 2 ^ d + (uint y * 2 ^ (16 - d)) mod bs"
  using shift_digits [of "16 - d" y x] assms by (simp add: or.commute)

lemma unshift_value:
  assumes "0 < d" "d < 16"
  shows "dval (unshift k u uo (m + k) d) (Suc (uo + m)) k = (dval u (uo + m) (Suc k) div 2 ^ d) mod bs ^ k
    \<and> unshift k u uo (m + k) d (uo + m) = 0
    \<and> (\<forall>i. i < uo + m \<or> uo + m + k < i \<longrightarrow> unshift k u uo (m + k) d i = u i)"
proof (induction k arbitrary: u)
  case (Suc k)
  let ?b = "uo + m"
  define z :: digit where "z = ucast (drop_bit d (ucast (u (?b + Suc k)) :: u_int) OR LHALF (push_bit (16 - d) (ucast (u (?b + k)))))"
  define u1 where "u1 = u(?b + Suc k := z)"
  have e: "unshift (Suc k) u uo (m + Suc k) d = unshift k u1 uo (m + k) d" by (simp add: add.assoc u1_def z_def)
  note I = Suc.IH [of u1]
  have w: "dval u1 ?b (Suc k) = dval u ?b (Suc k)" by (simp add: u1_def)
  have "u1 (Suc ?b + k) = z" and same: "\<And>i. i \<noteq> ?b + Suc k \<Longrightarrow> u1 i = u i" by (simp_all add: u1_def)
  then have t: "unshift k u1 uo (m + k) d (Suc ?b + k) = z" using I by simp
  have z: "uint z = uint (u (?b + Suc k)) div 2 ^ d + (uint (u (?b + k)) * 2 ^ (16 - d)) mod bs"
    unfolding z_def by (rule unshift_digit [OF assms])
  have "dval u ?b (Suc k) mod bs = uint (u (?b + k))" by simp
  note s = unshift_step [OF assms this uint_ge_0 uint_digit [of "u (?b + Suc k)"] zero_less_power [OF bs_pos(1)], of k]
  have "dval (unshift k u1 uo (m + k) d) (Suc ?b) (Suc k) = (dval u ?b (Suc (Suc k)) div 2 ^ d) mod bs ^ Suc k"
    unfolding dval.simps(2) [of _ "Suc ?b"] conjunct1 [OF I] w t z
    unfolding dval.simps(2) [of u ?b "Suc k"] power_Suc s ..
  then show ?case unfolding e using conjunct2 [OF I] same by (simp del: dval.simps)
qed simp

section \<open>The division\<close>

lemma normalized:
  assumes "d < 16" "uint (a p) * 2 ^ d < bs"
  shows "dval (if 0 < d then shl a p len d else a) p (Suc len) = dval a p (Suc len) * 2 ^ d"
    and "j < p \<Longrightarrow> (if 0 < d then shl a p len d else a) j = a j"
  using shl_value(1) [of d a p len] shl_value(2) [of d a p j len] assms by (simp_all del: dval.simps)

lemma dval_zero_digit: "a p = 0 \<Longrightarrow> dval a p (Suc k) < bs ^ k"
  using dval_less [of a "Suc p" k] by (simp only: dval_Cons) simp

lemma divide_normalized:
  assumes z: "u uo = 0" and v: "v (Suc vo) \<noteq> 0" and n: "2 \<le> n" and d: "d < 16" "uint (v (Suc vo)) * 2 ^ d < bs"
    and us: "us = (if 0 < d then shl u uo (m + n) d else u)"
    and vs: "vs = (if 0 < d then shl v (Suc vo) (n - 1) d else v)"
    and loop: "div_loop (m + 1) us uo vs vo q qo n 0 = (u', q')"
  defines "U \<equiv> dval u uo (Suc (m + n))" and "V \<equiv> dval v (Suc vo) n"
  shows "dval q' qo (Suc m) = U div V" "dval u' uo (Suc (m + n)) = (U mod V) * 2 ^ d" "(U mod V) * 2 ^ d < bs ^ n"
    and "i < uo \<Longrightarrow> u' i = u i" "i < qo \<Longrightarrow> q' i = q i"
proof -
  obtain k where k: "n = Suc k" using n by (cases n) simp_all
  have u1: "dval us uo (Suc (m + n)) = U * 2 ^ d" unfolding us U_def by (rule normalized) (use z d in simp_all)
  have v1: "dval vs (Suc vo) n = V * 2 ^ d" unfolding vs V_def k diff_Suc_1 by (rule normalized) (use d in simp_all)
  have low: "bs ^ k \<le> V" unfolding V_def k by (rule dval_lower) (rule v)
  then have V: "0 < V" using zero_less_power [OF bs_pos(1), of k] by linarith
  have lowd: "bs ^ k * 2 ^ d \<le> V * 2 ^ d" using low by (intro mult_right_mono) simp_all
  have v2: "vs (Suc vo) \<noteq> 0"
  proof
    assume "vs (Suc vo) = 0"
    then have "V * 2 ^ d < bs ^ k" using dval_zero_digit [of vs "Suc vo" k] v1 by (simp only: k)
    moreover have "bs ^ k * 1 \<le> bs ^ k * 2 ^ d" by (intro mult_left_mono) simp_all
    ultimately show False using lowd by linarith
  qed
  have "U < bs ^ (m + n)" unfolding U_def by (rule dval_zero_digit) (rule z)
  then have "U * 2 ^ d < (bs ^ k * 2 ^ d) * bs ^ Suc m" by (simp add: k power_add ac_simps)
  moreover have "U * 2 ^ d = dval us uo n * bs ^ Suc m + dval us (uo + n) (Suc m)"
    unfolding u1 [symmetric] using dval_append [of us uo n "Suc m"] by (simp only: add_Suc_right add.commute)
  ultimately have "dval us uo n * bs ^ Suc m < (bs ^ k * 2 ^ d) * bs ^ Suc m" using dval_nonneg [of us "uo + n" "Suc m"] by linarith
  then have "dval us uo n < bs ^ k * 2 ^ d" by simp
  then have pre: "dval us (uo + 0) n < dval vs (Suc vo) n" unfolding v1 add_0_right using lowd by (rule less_le_trans)
  have "n + (m + 1) = Suc (m + n)" by simp
  note D = div_loop_correct [OF loop n _ pre, unfolded this v1 add_0_right u1]
  have v2': "vs (vo + 1) \<noteq> 0" using v2 by simp
  have m: "(U * 2 ^ d) mod (V * 2 ^ d) = (U mod V) * 2 ^ d" by simp
  show "dval q' qo (Suc m) = U div V" using D [OF v2'] by simp
  show "dval u' uo (Suc (m + n)) = (U mod V) * 2 ^ d" using D [OF v2'] unfolding m by blast
  have "(U mod V) * 2 ^ d < V * 2 ^ d" using V by simp
  also have "\<dots> < bs ^ n" unfolding v1 [symmetric] by (rule dval_less)
  finally show "(U mod V) * 2 ^ d < bs ^ n" .
  show "q' i = q i" if "i < qo" using D [OF v2'] that by simp
  show "u' i = u i" if "i < uo" using D [OF v2'] that normalized(2) [of d u uo i "m + n"] z d by (simp add: us)
qed

lemma remainder_value:
  assumes "uo + m + n = 4" "\<And>i. 1 \<le> i \<Longrightarrow> i < uo \<Longrightarrow> u i = 0" "dval u uo (Suc (m + n)) = R * 2 ^ d" "0 \<le> R" "R * 2 ^ d < bs ^ n" "d < 16"
  shows "dval (if 0 < d then unshift n u uo (m + n) d else u) 1 4 = R"
proof -
  have "dval u uo (Suc m) * bs ^ n + dval u (uo + Suc m) n = R * 2 ^ d"
    using assms(3) dval_append [of u uo "Suc m" n] by (simp only: add_Suc)
  then have "dval u uo (Suc m) * bs ^ n < 1 * bs ^ n" using assms(5) dval_nonneg [of u "uo + Suc m" n] by linarith
  then have "dval u uo (Suc m) < 1" by (simp only: mult_less_cancel_right_pos zero_less_power bs_pos)
  then have z: "dval u uo (Suc m) = 0" using dval_nonneg [of u uo "Suc m"] by linarith
  have zero: "u i = 0" if "1 \<le> i" "i < 1 + (uo + m)" for i
    using assms(2) [of i] dval_0D [OF z, of i] that by (cases "i < uo") simp_all
  have u1: "dval u (uo + m) (Suc n) = R * 2 ^ d"
  proof -
    have "dval u uo (m + Suc n) = dval u (uo + m) (Suc n)" by (rule dval_skip) (use dval_0D [OF z] in simp)
    then show ?thesis using assms(3) by (simp only: add_Suc_right)
  qed
  show ?thesis
  proof (cases "0 < d")
    case False
    have "dval u 1 ((uo + m) + n) = dval u (1 + (uo + m)) n" by (rule dval_skip) (rule zero)
    moreover have "dval u (uo + m) (1 + n) = dval u ((uo + m) + 1) n" by (rule dval_skip) (use dval_0D [OF z] in simp)
    ultimately show ?thesis using False u1 assms(1) by (simp del: dval.simps)
  next
    case True
    let ?w = "unshift n u uo (m + n) d"
    note W = unshift_value [OF True assms(6), of n u uo m]
    have "?w i = 0" if "1 \<le> i" "i < 1 + (uo + m)" for i using W zero that by (cases "i = uo + m") simp_all
    then have "dval ?w 1 ((uo + m) + n) = dval ?w (1 + (uo + m)) n" by (rule dval_skip)
    moreover have "R * 1 \<le> R * 2 ^ d" using assms(4) by (intro mult_left_mono) simp_all
    then have "R < bs ^ n" using assms(5) by linarith
    then have "dval ?w (Suc (uo + m)) n = R" using conjunct1 [OF W] assms(4) unfolding u1 by simp
    ultimately show ?thesis using True assms(1) by (simp del: dval.simps)
  qed
qed

lemma uint_quad_eqI: "uint (x :: quad_t) = uint y \<Longrightarrow> x = y"
  by (simp add: word_uint_eq_iff)

lemma long_division:
  assumes "v \<noteq> 0" "v \<le> u" "skip_v (put_quad vspace v) 0 4 = Some (vo, n)"
  shows "qdivrem (uspace, vspace, qspace) u v = Some (u div v, u mod v)"
proof -
  define us where "us = put_quad (uspace(0 := 0)) u"
  define vs where "vs = put_quad vspace v"
  have U: "dval us 1 4 = uint u" and V: "dval vs 1 4 = uint v" unfolding us_def vs_def by (rule uint_put_quad)+
  have u0: "us 0 = 0" by (simp add: us_def put_quad_def)
  have S: "vo + n = 4" "2 \<le> n" "vs (vo + 1) \<noteq> 0" "\<And>i. 0 < i \<Longrightarrow> i \<le> vo \<Longrightarrow> vs i = 0"
    using skip_v_spec [OF assms(3) [folded vs_def]] by simp_all
  have V1: "dval vs (Suc vo) n = uint v"
    using dval_skip [of 1 vo vs n] S V by (simp del: dval.simps)
  obtain k where k: "n = Suc k" using S(2) by (cases n) simp_all
  have "bs ^ k \<le> uint v" unfolding V1 [symmetric] k by (rule dval_lower) (use S(3) in simp)
  then have big: "bs ^ k \<le> uint u" using assms(2) by (simp add: word_le_def)
  have "skip_u (4 - n) us 0 \<noteq> None"
  proof
    assume "skip_u (4 - n) us 0 = None"
    then have z: "us i = 0" if "0 < i" "i \<le> Suc (4 - n)" for i using skip_u_spec [where m = "4 - n" and u = us and uo = 0] that by simp
    have "dval us 1 (Suc (4 - n) + k) = dval us (1 + Suc (4 - n)) k" by (rule dval_skip) (use z in simp)
    moreover have "Suc (4 - n) + k = 4" using S(1) k by simp
    ultimately have "uint u < bs ^ k" using dval_less [of us "1 + Suc (4 - n)" k] U by (simp only:)
    then show False using big by simp
  qed
  then obtain uo m where um: "skip_u (4 - n) us 0 = Some (uo, m)" by auto
  have T: "uo + m + n = 4" "\<And>i. 0 < i \<Longrightarrow> i \<le> uo \<Longrightarrow> us i = 0"
    using skip_u_spec [where m = "4 - n" and u = us and uo = 0] S(1) by (simp_all add: um)
  have u1: "us uo = 0" using u0 T(2) [of uo] by (cases "uo = 0") simp_all
  have U1: "dval us uo (Suc (m + n)) = uint u"
    unfolding dval_Cons using u1 dval_skip [of 1 uo us "m + n"] T U by (simp add: add.assoc del: dval.simps)
  have "ucast (vs (vo + 1)) \<noteq> (0 :: u_int)" "uint (ucast (vs (vo + 1)) :: u_int) < bs"
    using S(3) by (simp_all add: uint_0_iff [symmetric])
  from norm_shift_spec [OF this, of 0] obtain d where
    d: "norm_shift (ucast (vs (vo + 1))) 0 = Some d" "d < 16" "uint (vs (Suc vo)) * 2 ^ d < bs" by auto
  define un where "un = (if 0 < d then shl us uo (m + n) d else us)"
  define vn where "vn = (if 0 < d then shl vs (vo + 1) (n - 1) d else vs)"
  define q where "q = (\<lambda>i. if i < 4 - m then 0 else qspace i :: digit)"
  obtain u' q' where loop: "div_loop (m + 1) un uo vn vo q (4 - m) n 0 = (u', q')" by fastforce
  have v1: "vs (Suc vo) \<noteq> 0" using S(3) by simp
  note D = divide_normalized [OF u1 v1 S(2) d(2,3) un_def vn_def [unfolded Suc_eq_plus1 [symmetric]] loop, unfolded U1 V1]
  define ur where "ur = (if 0 < d then unshift n u' uo (m + n) d else u')"
  have nlt: "\<not> u < v" using assms(2) by simp
  have Q: "qdivrem (uspace, vspace, qspace) u v = Some (get_quad q', get_quad ur)"
    unfolding qdivrem_def if_not_P [OF assms(1)] if_not_P [OF nlt] Let_def prod.case us_def [symmetric] vs_def [symmetric]
    unfolding assms(3) [folded vs_def] um option.case prod.case d(1) un_def [symmetric] vn_def [symmetric] q_def [symmetric] loop ur_def ..
  have m: "m \<le> 2" using T(1) S(2) by simp
  have "dval q' 1 ((3 - m) + Suc m) = dval q' (1 + (3 - m)) (Suc m)" by (rule dval_skip) (use D(5) m in \<open>simp add: q_def\<close>)
  moreover have "3 - m + Suc m = 4" "1 + (3 - m) = 4 - m" using m by simp_all
  ultimately have "dval q' 1 4 = uint u div uint v" using D(1) by (simp only:)
  then have q: "get_quad q' = u div v" by (intro uint_quad_eqI) (simp only: uint_get_quad uint_div_distrib)
  have "dval ur 1 4 = uint u mod uint v"
    unfolding ur_def
  proof (rule remainder_value [OF T(1) _ D(2) _ D(3) d(2)])
    show "u' i = 0" if "1 \<le> i" "i < uo" for i using D(4) [OF that(2)] T(2) [of i] that by simp
    show "0 \<le> uint u mod uint v" unfolding uint_mod_distrib [symmetric] by (rule uint_ge_0)
  qed
  then have "get_quad ur = u mod v" by (intro uint_quad_eqI) (simp only: uint_get_quad uint_mod_distrib)
  with Q q show ?thesis by simp
qed

lemma short_division:
  assumes "v \<noteq> 0" "v \<le> u" "skip_v (put_quad vspace v) 0 4 = None"
  shows "qdivrem (uspace, vspace, qspace) u v = Some (u div v, u mod v)"
proof -
  define us where "us = put_quad (uspace(0 := 0)) u"
  define vs where "vs = put_quad vspace v"
  have U: "dval us 1 4 = uint u" and V: "dval vs 1 4 = uint v" unfolding us_def vs_def by (rule uint_put_quad)+
  have z: "vs i = 0" if "0 < i" "i < 4" for i using skip_v_spec [OF assms(3) [folded vs_def]] that by simp
  have "dval vs 1 (3 + 1) = dval vs (1 + 3) 1" by (rule dval_skip) (use z in simp)
  then have t: "uint (vs 4) = uint v" using V by simp
  then have "0 < uint (ucast (vs 4) :: u_int)" using assms(1) uint_ge_0 [of v] by (simp add: uint_0_iff [symmetric] order_less_le)
  note S = short_div_correct [OF this, of us, unfolded uint_up t U, OF t [THEN subst, of "\<lambda>x. x < bs"], OF uint_digit]
  have nlt: "\<not> u < v" using assms(2) by simp
  have "qdivrem (uspace, vspace, qspace) u v = Some (short_div us (ucast (vs 4)))"
    unfolding qdivrem_def if_not_P [OF assms(1)] if_not_P [OF nlt] Let_def prod.case us_def [symmetric] vs_def [symmetric]
    unfolding assms(3) [folded vs_def] option.case ..
  moreover have "fst (short_div us (ucast (vs 4))) = u div v" "snd (short_div us (ucast (vs 4))) = u mod v"
    by (rule uint_quad_eqI, simp add: S uint_div_distrib uint_mod_distrib)+
  ultimately show ?thesis by (simp add: prod_eq_iff)
qed

lemma qdivrem_div_mod:
  assumes "v \<noteq> 0"
  shows "qdivrem junk u v = Some (u div v, u mod v)"
proof (cases "u < v")
  case True
  then show ?thesis using assms by (simp add: qdivrem_def div_word_less mod_word_less)
next
  case False
  obtain us vs qs where junk: "junk = (us, vs, qs)" by (metis prod_cases3)
  have le: "v \<le> u" using False by simp
  show ?thesis
  proof (cases "skip_v (put_quad vs v) 0 4")
    case None
    then show ?thesis unfolding junk by (rule short_division [OF assms le])
  next
    case (Some x)
    then show ?thesis unfolding junk by (cases x) (simp add: long_division [OF assms le])
  qed
qed

section \<open>Signed division\<close>

lemma uint_magnitude: "uint (if sint a < 0 then - a else a) = \<bar>sint (a :: quad_t)\<bar>"
proof -
  have s: "sint a = uint a - 2 ^ Suc 63 * of_bool (bit a 63)" by (rule sint_bit) simp
  have l: "uint a < 2 ^ 64" using uint_lt2p [of a] by simp
  have "uint (- a) = 2 ^ 64 - uint a" if "uint a \<noteq> 0" using that l uint_ge_0 [of a] by (simp add: uint_word_ariths zmod_zminus1_eq_if)
  moreover have "uint a \<noteq> 0" if "bit a 63" using that by (auto simp: uint_0_iff)
  ultimately show ?thesis using s l uint_ge_0 [of a] by (cases "bit a 63") auto
qed

lemma magnitude_div_mod:
  fixes a b :: quad_t
  defines "ua \<equiv> (if sint a < 0 then - a else a)" and "ub \<equiv> (if sint b < 0 then - b else b)"
  shows "ua div ub = word_of_int (\<bar>sint a\<bar> div \<bar>sint b\<bar>)" "ua mod ub = word_of_int (\<bar>sint a\<bar> mod \<bar>sint b\<bar>)"
  unfolding ua_def ub_def uint_magnitude [symmetric] uint_div_distrib [symmetric] uint_mod_distrib [symmetric] by simp_all

text \<open>
  C39. Division by a nonzero number returns, whatever the arrays of digits contained before: \<open>__qdivrem\<close> computes the quotient and
  the remainder of 64-bit unsigned integers by long division on 16-bit digits, \<open>__udivdi3\<close> and \<open>__umoddi3\<close> return
  them, and \<open>__divdi3\<close> and \<open>__moddi3\<close> return the quotient truncated towards zero and the remainder with the sign of the dividend.
\<close>
theorem quad_division:
  assumes "b \<noteq> 0"
  shows "qdivrem junk a b = Some (a div b, a mod b) \<and> udivdi3 junk a b = Some (a div b) \<and> umoddi3 junk a b = Some (a mod b)
    \<and> divdi3 junk a b = Some (word_of_int (sint a sdiv sint b)) \<and> moddi3 junk a b = Some (word_of_int (sint a smod sint b))"
proof -
  have u: "(if sint b < 0 then - b else b) \<noteq> 0" using assms by simp
  have "divdi3 junk a b = Some (word_of_int (sint a sdiv sint b))"
    unfolding divdi3_def Let_def qdivrem_div_mod [OF u] magnitude_div_mod signed_divide_int_def
    by (auto simp: wi_hom_syms sgn_if)
  moreover have "moddi3 junk a b = Some (word_of_int (sint a smod sint b))"
    unfolding moddi3_def Let_def qdivrem_div_mod [OF u] magnitude_div_mod signed_modulo_int_def
    by (auto simp: wi_hom_syms sgn_if)
  ultimately show ?thesis using qdivrem_div_mod [OF assms, of junk a] by (simp add: udivdi3_def umoddi3_def)
qed

theorem quad_division_witness:
  "qdivrem (\<lambda>_. 7, \<lambda>_. 8, \<lambda>_. 9) 0x7fff800000000000 0x800000000001 = Some (0xfffe, 0x7fffffff0002)
    \<and> divdi3 (\<lambda>_. 7, \<lambda>_. 8, \<lambda>_. 9) (- 7) 2 = Some (- 3) \<and> moddi3 (\<lambda>_. 7, \<lambda>_. 8, \<lambda>_. 9) (- 7) 2 = Some (- 1)"
  using quad_division [of "0x800000000001" "(\<lambda>_. 7, \<lambda>_. 8, \<lambda>_. 9)" "0x7fff800000000000"]
    quad_division [of 2 "(\<lambda>_. 7, \<lambda>_. 8, \<lambda>_. 9)" "- 7"]
  by (simp add: signed_divide_int_def signed_modulo_int_def)

end
