(* ===== verification/Spec2Isabelle.thy ===== *)
theory Spec2Isabelle
  imports Extent_Subregion Clist_Queue Bpf_Safety Bufq_Correct Cred_Calls Clock Timeout_Steps
    Rwlock_Steps Lockf_Split Lockf_Deadlock Posix_Locks Quad_Divrem
begin

text \<open>
  A verification of core services of the OpenBSD kernel, from the C sources under src/.

  \<^bold>\<open>The program.\<close> The kernel is a set of services that share the address space: kern/ holds the
  machine-independent ones (processes, descriptors, credentials, resource maps, terminals, disk
  queues, file system switch), net/ and the protocol families the network, dev/ and arch/ the
  drivers and the machine, lib/libkern the support routines. The development models the services
  that keep state of their own and are called from everywhere else, so that their correctness
  does not depend on the hardware: extents, character queues, the packet filter, disk queues, credentials,
  descriptor tables, calendar conversions, timeouts, reader/writer locks, record locks, and the 64-bit
  arithmetic under them. They interact through values: a descriptor holds a reference to a
  file and to credentials, a terminal owns character queues, a driver owns a request queue and
  extents, a network tap runs a filter program, an inode owns a list of record locks whose
  owners are descriptor tables. The calls that leave a service are arguments or a recorded list of calls.

  \<^bold>\<open>Conventions\<close> (\<open>Prelude\<close>). Machine integers are words of the width of an LP64 kernel where wrap-around
  can matter, natural numbers for indices and counts that the code keeps in range. Errors are values
  of \<open>errno\<close>; a panic, a sleep and an access outside an object are outcomes of their own, so that
  a theorem that a call returns also says that none of them happens. Loops are recursive functions
  with a termination proof; the development uses no fuel, and a loop that need not end returns an option, with a
  theorem that it does return. Each theorem about a service is for one call at a
  time; where calls of different processes or threads interleave, the steps of a step relation do. \<open>Runs\<close> has the
  locale of a labelled step relation with an invariant, which timeouts, reader/writer locks, record locks and their composition with descriptors interpret.

  \<^bold>\<open>Extents\<close> (kern/subr_extent.c). \<open>Extent\<close> models \<open>extent_create\<close>, \<open>extent_alloc_region\<close>,
  \<open>extent_alloc_subregion\<close> with its alignment, skew and boundary search, \<open>extent_free\<close> and the
  descriptor pool. \<open>Extent_Set\<close> gives the set of allocated addresses and the order invariant of the
  region list, with the lemmas of insertion; \<open>Extent_Region\<close> shows that a region is allocated exactly
  when it is free, that freeing gives back exactly the region, and, through the locale of a
  resource map, that live allocations stay disjoint; \<open>Extent_Subregion\<close> shows that
  the constrained search only returns placements that satisfy all constraints, and finds one when one exists, with and without a boundary.
  The theorems on the search are for extents whose end plus the alignment (and the boundary, for finding one) is below 2^64: the code does not
  check that alignment wraps around. Those on regions are for requests without EX_CONFLICTOK, which asks for overlaps.

  \<^bold>\<open>Character queues\<close> (kern/tty_subr.c). \<open>Clist\<close> models the ring of characters with its quote
  bitmap and every operation. \<open>Clist_Queue\<close> states the contract of a character queue as a locale,
  interprets it on the ring, and shows that the block operations equal the character operations.

  \<^bold>\<open>Packet filter\<close> (net/bpf_filter.c). \<open>Bpf\<close> models the instruction set, the validator and the
  interpreter over a flat buffer or a chain of mbufs. \<open>Bpf_Safety\<close> shows that an accepted program ends
  within its length and neither reads outside the packet nor divides by zero, and that the verdict
  does not depend on how the packet is split into mbufs. This is for a 64-bit kernel and chains without empty mbufs; for a 32-bit kernel and for an
  empty mbuf the same theory shows reads outside the packet.

  \<^bold>\<open>Disk queues\<close> (kern/kern_bufq.c, \<open>disksort\<close> of kern/subr_disk.c). \<open>Bufq\<close> models both disciplines,
  switching, draining and quiescing. \<open>Bufq_Correct\<close> has the contract of a discipline as a locale with
  an interpretation for each, the order of the one-way scan, and the count of outstanding requests
  over all interleavings of its steps.

  \<^bold>\<open>Credentials\<close> (kern/kern_prot.c). \<open>Cred\<close> models the calls that change user and group ids over
  shared, reference-counted credentials. \<open>Cred_Safety\<close> shows that each refines a rule on
  the real, effective and saved id; \<open>Cred_Calls\<close> shows, with the locale of a confined state, that no
  sequence of calls gains a privilege.

  \<^bold>\<open>Descriptor tables\<close> (kern/kern_descrip.c, sys/filedesc.h, sys/file.h, lib/libkern/ffs.c). \<open>Fd_Bitmap\<close>
  models \<open>ffs\<close> and the bitmap search and shows that it finds the first clear bit. \<open>Fdesc\<close> models the
  table, its two bitmaps, allocation, growth, dup, dup2, close and \<open>closef\<close>; \<open>Fdesc_Table\<close> the other
  commands and the operations on whole tables. \<open>Fdesc_Maps\<close> has the invariant of the bitmaps and shows
  that allocation gives the lowest free descriptor; \<open>Fdesc_Ops\<close>, \<open>Fdesc_Dup\<close> and \<open>Fdesc_Calls\<close> show that
  each call returns and refines an update of the map from descriptors to files, with the
  reference counts in step; \<open>Fdesc_Fork\<close> does so for the copy at fork, and \<open>Fdesc_Steps\<close> holds the step relation
  and the properties. The theorems assume that the limit on descriptors is at most
  12800, because for a full table of 25600 descriptors the search leaves the bitmap, and that no reference
  count is near the largest value of a \<open>long\<close>.

  \<^bold>\<open>Calendar clock\<close> (kern/clock_subr.c). \<open>Clock\<close> models both conversions between seconds and dates, and shows that
  they are inverse to each other from 1970 to the last second an \<open>int\<close> holds, and that every date made is well formed.

  \<^bold>\<open>Timeouts\<close> (kern/kern_timeout.c). \<open>Circq\<close> models the circular queues by their pointers and shows that the
  macros keep disjoint rings; \<open>Timeout\<close> models the wheel, every call, the tick and the softclock loop; \<open>Timeout_Wheel\<close>
  has the invariant of the wheel (a bucket is visited before its timeouts are due) and \<open>Timeout_Steps\<close> the
  reachable states: a timeout runs once, not early, and as soon as softclock runs after it is due. The counter of ticks is an
  \<open>int\<close> that wraps around; the theorems are for delays below 2^31 ticks.

  \<^bold>\<open>Reader/writer locks\<close> (kern/kern_rwlock.c). \<open>Rwlock\<close> models every routine as a program whose steps are single accesses to
  the lock word, run by any number of threads; a failed compare-and-swap, the sleep queue and signals are steps of their own.
  \<open>Rwlock_Inv\<close> has the invariant that ties the word to the holders; \<open>Rwlock_Steps\<close> shows exclusion, that no wakeup
  is lost, and that threads that follow the protocol reach no panic. Runs of up to 2^60 steps are covered, so that
  the count of readers cannot reach the end of the word.

  \<^bold>\<open>Record locks\<close> (kern/vfs_lockf.c). \<open>Lockf\<close> models the lists of locks and of blocked requests, searching, splitting, linking,
  clearing, the deadlock check, and the calls. \<open>Lockf_Range\<close>, \<open>Lockf_Set\<close> and \<open>Lockf_Clear\<close> have the meaning of a list as locked
  bytes and the contracts of the two loops; \<open>Lockf_Wait\<close>, \<open>Lockf_Frame\<close>, \<open>Lockf_Inv\<close> and \<open>Lockf_Steps\<close> the queues of
  blocked requests and the invariant over all interleavings; \<open>Lockf_Calls\<close> shows that each call refines an update of the map from
  inodes, owners and bytes to lock types; \<open>Lockf_Owner\<close> shows that a step changes the locks of one owner on one inode only. Ranges that end at the largest offset are
  excluded: for them the code is shown to be wrong. \<open>Lockf_Split\<close> divides a call where \<open>lf_split\<close> may sleep in \<open>pool_get\<close>: exclusion and wakeups
  are shown for all interleavings without such a sleep, and shown to fail with one. \<open>Lockf_Deadlock\<close> shows that the deadlock check
  finds nothing for the owners that the callers pass.

  \<^bold>\<open>Record locks through descriptors\<close> (\<open>sys_fcntl\<close> and \<open>closef\<close> of kern/kern_descrip.c, \<open>ufs_advlock\<close> of ufs/ufs/ufs_vnops.c). \<open>Posix_Locks\<close>
  composes descriptor tables and record locks: F_SETLK and F_SETLKW with their offsets, the wait and the check for a lost race, and
  the release of the locks by \<open>close\<close>. Its step relation has the lock commands of one thread of a process, one at a time, and closes by any of
  its threads, also while the lock command waits, between any steps of other processes for other owners. A close that waits in \<open>closef\<close> until
  the lock command no longer uses the file is not a step before that. The theorems at the end of this theory show that a close releases
  exactly the locks of the process on the inode, and that a lock is held only while the process has a descriptor for the inode. Both are
  for closes (and unlocks after a lost race) that find a structure for their request; \<open>close_keeps_locks\<close> shows what the code does otherwise.

  \<^bold>\<open>64-bit arithmetic\<close> (lib/libkern/*di3.c, *di2.c, qdivrem.c). \<open>Quad\<close> models the routines the compiler calls on machines
  with 32-bit integers. \<open>Quad_Arith\<close> shows that all but division equal the operations on 64-bit words, for shift
  counts below 64; \<open>Quad_Div\<close> gives the value of an array of digits and the division by one digit, \<open>Quad_Long\<close> the estimate of a
  quotient digit, which is at most one too large, its correction and the loop, and \<open>Quad_Divrem\<close> the
  normalization and the theorem that division returns quotient and remainder.

  \<^bold>\<open>Not modelled.\<close> Locks around the services (each call is one step, except for the reader/writer locks themselves), the printing and debugging
  functions, copies between user and kernel space except where their failure changes the state,
  owners and F_GETLK in \<open>fcntl\<close>, \<open>flock\<close>, process groups and sessions. The scheduler, signals, virtual memory, file
  systems, protocols, drivers and machine-dependent code are left out: their state is shared with the
  hardware or with each other, and the services above only call them.
\<close>

text \<open>
  C37. Closing a descriptor of a file releases every record lock of the process on the inode, and no other lock: when the process has set a
  record lock before (\<open>FD_ADVLOCK\<close>) and a structure for the request is found, \<open>close\<close> empties the slot, keeps the invariant of the
  table, and leaves the locks of other owners, and those on other inodes, as they were.
\<close>

theorem close_releases_locks:
  assumes "kfs_inv s" "lf_reach st pend" "tab s fd = Some fp" "f_type (k_file s fp) = DTYPE_VNODE" "has_flag (fd_flags (p_fd s)) FD_ADVLOCK"
    and "lf_ready new sp (pr_addr p) (st, pend)" "lf_alloc new (pr_uid p) 2 st \<noteq> None"
  shows "\<exists>s' e st'. close_locks fo_close new sp p fdp vn pid s fd st = Some (s', e, Return st' ())
    \<and> kfs_inv s' \<and> tab s' = (tab s)(fd := None)
    \<and> locked st' = (\<lambda>h i b. if h = vn_lockf vn fp \<and> i = fdp then None else locked st h i b)"
  by (rule close_unlocks [OF assms])

theorem close_releases_locks_witness:
  "locked demo1 0 10 50 = Some F_WRLCK
   \<and> (\<exists>s' e st'. close_locks (\<lambda>fp. None) 5 9 (demo_proc 10) 10 demo_vn 0 (set_advlock (st1 1)) 0 demo1 = Some (s', e, Return st' ())
        \<and> locked st' 0 10 50 = None)"
proof -
  have "lf_ready 5 9 (pr_addr (demo_proc 10)) (demo1, Map.empty)" "lf_alloc 5 (pr_uid (demo_proc 10)) 2 demo1 \<noteq> None"
    by (simp_all add: lf_ready_def unused_def live_def demo0_def demo1_def demo_proc_def demo_lock_def lf_alloc_def)
  from close_releases_locks [OF _ demo_reach(1) _ _ _ this, of "set_advlock (st1 1)" 0 0 "\<lambda>fp. None" 10 demo_vn 0] show ?thesis
    by (auto simp: set_advlock_inv st1_inv st1_fields DTYPE_VNODE_def demo_locked demo_vn_def)
qed

text \<open>
  C38. A process holds a record lock only while it has a descriptor for the inode: after any interleaving of its lock commands (one at
  a time, with their sleeps and wakeups), closes by its threads, also while a lock command waits, and steps of other processes, the table of the
  owner of every lock has the flag \<open>FD_ADVLOCK\<close> and an open descriptor of a vnode with that inode. So the close of the last one leaves no lock
  behind, and a lock command that loses the race with it keeps none. This is for closes and unlocks that find a structure for their
  request, for closes that need not wait in \<open>closef\<close> until the file is unused, and as long as the \<open>pool_get\<close> of \<open>lf_split\<close> does not sleep.
\<close>

theorem posix_locks_have_descriptor:
  assumes "lrun (pl_step p fdp vn fo_close) (s0, t0, Map.empty, None) evs (s, st, pend, blk)" "kfs_inv s0" "lf_fresh t0"
    and "locked st h fdp b = Some ty"
  shows "has_flag (fd_flags (p_fd s)) FD_ADVLOCK
    \<and> (\<exists>n fp. tab s n = Some fp \<and> f_type (k_file s fp) = DTYPE_VNODE \<and> vn_lockf vn fp = h)"
proof -
  have "lf_heads t0 = (\<lambda>_. [])" using assms(3) by (auto simp: lf_fresh_def)
  then have "plinv p fdp vn (s0, t0, Map.empty, None)"
    using assms(2) reach_fresh [OF assms(3)] by (simp add: plinv_idle owned_def foreign_def locked_def)
  from pl.run_inv [OF this assms(1)] assms(4) have "may_hold vn s h" by (auto simp: plinv_def owned_def)
  then show ?thesis by (simp add: may_hold_def)
qed

theorem posix_locks_have_descriptor_witness:
  "locked demo1 0 10 50 = Some F_WRLCK \<and> (\<exists>n fp. tab (set_advlock (st1 1)) n = Some fp \<and> vn_lockf demo_vn fp = 0)"
proof -
  have l: "locked demo1 0 10 50 = Some F_WRLCK" by (simp add: demo_locked)
  have f: "lf_fresh demo0" by (simp add: lf_fresh_def demo0_def)
  have "lrun (pl_step (demo_proc 10) 10 demo_vn (\<lambda>fp. None)) (st1 1, demo0, Map.empty, None)
      [PlSetlk 1 9 0 0 False 0 (Inr (demo_fl F_WRLCK 0 100))] (set_advlock (st1 1), demo1, Map.empty, None)"
    using demo_set by simp
  from posix_locks_have_descriptor [OF this st1_inv(1) f l] l show ?thesis by blast
qed

end
